(* ===== verification/Prelude.thy ===== *)
theory Prelude
  imports Complex_Main "HOL-Library.AList" "HOL-Library.Multiset"
begin

text \<open>
  Shared vocabulary of the development: the exceptions that the modelled Python code raises,
  results as sums, Python sequence indexing, integer ranges, NumPy's 64-bit product, floating
  point values as rationals with the IEEE special values, and random draws taken from an
  explicit supply.

  \<^item> A Python function that may raise returns \<open>'a res\<close>: \<open>Inl\<close> of the exception or \<open>Inr\<close> of
    the value.
  \<^item> An \<open>OrderedDict\<close> is an association list with distinct keys; assignment is
    \<open>AList.update\<close>, which replaces in place or appends at the end, as Python's does.
  \<^item> \<open>np.random.randint(n)\<close> reads the next element of a list of draws and reduces it modulo
    \<open>n\<close>, so that quantifying over all lists of draws quantifies over all outcomes. A loop
    that redraws until it succeeds uses the supply as its fuel; \<open>NoDraws\<close> is the outcome of a
    run for which the supply was too short.
\<close>

named_theorems res_simps \<open>equations of the result monad\<close>
named_theorems py_simps \<open>unfolding rules for the Python primitives\<close>

section \<open>Results\<close>

datatype py_err =
    IndexError | KeyError | ValueError | TypeErr | RuntimeError | AssertionError
  | AttributeError | ZeroDivisionError | IOErr | StructErr | UnboundLocalError | NameErr | RecursionErr | NoDraws

type_synonym 'a res = "py_err + 'a"

fun res_bind :: "'a res \<Rightarrow> ('a \<Rightarrow> 'b res) \<Rightarrow> 'b res" where
  "res_bind (Inl e) f = Inl e"
| "res_bind (Inr x) f = f x"

lemma res_bind_eq_Inr [res_simps]:
  "res_bind m f = Inr y \<longleftrightarrow> (\<exists>x. m = Inr x \<and> f x = Inr y)"
  by (cases m) auto

lemma res_bind_eq_Inl [res_simps]:
  "res_bind m f = Inl e \<longleftrightarrow> m = Inl e \<or> (\<exists>x. m = Inr x \<and> f x = Inl e)"
  by (cases m) auto

lemma res_bind_cong [fundef_cong]:
  assumes "m = m'" and "\<And>x. m' = Inr x \<Longrightarrow> f x = g x"
  shows "res_bind m f = res_bind m' g"
  using assms by (cases m') auto

lemma res_bind_assoc: "res_bind (res_bind m f) g = res_bind m (\<lambda>x. res_bind (f x) g)"
  by (cases m) auto

text \<open>A comprehension \<open>[f(x) for x in xs]\<close> whose body may raise.\<close>

fun res_map :: "('a \<Rightarrow> 'b res) \<Rightarrow> 'a list \<Rightarrow> 'b list res" where
  "res_map f [] = Inr []"
| "res_map f (x # xs) = res_bind (f x) (\<lambda>y. res_bind (res_map f xs) (\<lambda>ys. Inr (y # ys)))"

lemma res_map_cong [fundef_cong]:
  assumes "xs = ys" and "\<And>x. x \<in> set ys \<Longrightarrow> f x = g x"
  shows "res_map f xs = res_map g ys"
proof -
  have "res_map f ys = res_map g ys" using assms(2) by (induction ys) auto
  then show ?thesis using assms(1) by simp
qed

lemma res_map_Inr:
  "res_map f xs = Inr ys \<longleftrightarrow> length ys = length xs \<and> (\<forall>i < length xs. f (xs ! i) = Inr (ys ! i))"
proof (induction xs arbitrary: ys)
  case Nil
  then show ?case by auto
next
  case (Cons x xs)
  show ?case
    by (cases ys) (auto simp: res_bind_eq_Inr Cons.IH nth_Cons' less_Suc_eq_0_disj)
qed

lemma res_map_total: "(\<And>x. x \<in> set xs \<Longrightarrow> f x = Inr (g x)) \<Longrightarrow> res_map f xs = Inr (map g xs)"
  by (induction xs) auto

text \<open>A loop over a list that threads a state and may raise.\<close>

fun res_foldl :: "('s \<Rightarrow> 'a \<Rightarrow> 's res) \<Rightarrow> 's \<Rightarrow> 'a list \<Rightarrow> 's res" where
  "res_foldl f s [] = Inr s"
| "res_foldl f s (x # xs) = res_bind (f s x) (\<lambda>s'. res_foldl f s' xs)"

lemma res_foldl_append:
  "res_foldl f s (xs @ ys) = res_bind (res_foldl f s xs) (\<lambda>s'. res_foldl f s' ys)"
proof (induction xs arbitrary: s)
  case Nil
  show ?case by simp
next
  case (Cons x xs)
  show ?case by (cases "f s x") (simp_all add: Cons.IH)
qed

lemma res_foldl_invariant:
  assumes "res_foldl f s xs = Inr s'" and "P s"
    and "\<And>s x s'. x \<in> set xs \<Longrightarrow> P s \<Longrightarrow> f s x = Inr s' \<Longrightarrow> P s'"
  shows "P s'"
  using assms
proof (induction xs arbitrary: s)
  case Nil
  then show ?case by simp
next
  case (Cons x xs)
  from Cons.prems(1) obtain t where t: "f s x = Inr t" "res_foldl f t xs = Inr s'"
    by (auto simp: res_bind_eq_Inr)
  moreover from t(1) Cons.prems have "P t" by auto
  ultimately show ?case using Cons.IH Cons.prems(3) by auto
qed

section \<open>Python sequences and integers\<close>

text \<open>\<open>xs[i]\<close>: a negative index counts from the end, out of range raises.\<close>

definition py_get :: "'a list \<Rightarrow> int \<Rightarrow> 'a res" where
  "py_get xs i =
     (if i < - int (length xs) \<or> int (length xs) \<le> i then Inl IndexError
      else Inr (xs ! nat (if i < 0 then int (length xs) + i else i)))"

lemma py_get_nonneg [py_simps]:
  "0 \<le> i \<Longrightarrow> i < int (length xs) \<Longrightarrow> py_get xs i = Inr (xs ! nat i)"
  by (simp add: py_get_def)

lemma py_get_nat [py_simps]: "n < length xs \<Longrightarrow> py_get xs (int n) = Inr (xs ! n)"
  by (simp add: py_get_def)

lemma py_get_beyond [py_simps]: "int (length xs) \<le> i \<Longrightarrow> py_get xs i = Inl IndexError"
  by (simp add: py_get_def)

text \<open>\<open>xs.index(x)\<close>: the first position, or \<open>ValueError\<close>.\<close>

fun py_index :: "'a list \<Rightarrow> 'a \<Rightarrow> nat res" where
  "py_index [] x = Inl ValueError"
| "py_index (y # ys) x = (if y = x then Inr 0 else res_bind (py_index ys x) (\<lambda>n. Inr (Suc n)))"

lemma py_index_Inr: "py_index xs x = Inr n \<Longrightarrow> n < length xs \<and> xs ! n = x"
  by (induction xs arbitrary: n) (auto simp: res_bind_eq_Inr split: if_splits)

lemma py_index_total: "x \<in> set xs \<Longrightarrow> \<exists>n. py_index xs x = Inr n"
  by (induction xs) auto

lemma py_index_nth: "distinct xs \<Longrightarrow> n < length xs \<Longrightarrow> py_index xs (xs ! n) = Inr n"
proof (induction xs arbitrary: n)
  case Nil
  then show ?case by simp
next
  case (Cons y ys)
  then show ?case by (cases n) (auto simp: nth_mem)
qed

lemma mult_div_le: "0 < d \<Longrightarrow> d * (p div d) \<le> (p :: int)"
  using mult_div_mod_eq [of d p] pos_mod_sign [of d p] by linarith

text \<open>\<open>range(lo, hi, step)\<close> for a positive step.\<close>

definition py_range :: "int \<Rightarrow> int \<Rightarrow> int \<Rightarrow> int list" where
  "py_range lo hi step = map (\<lambda>k. lo + int k * step) [0..<nat ((hi - lo + step - 1) div step)]"

lemma set_py_range:
  assumes "0 < step"
  shows "set (py_range lo hi step) = {i. lo \<le> i \<and> i < hi \<and> step dvd (i - lo)}"
proof (intro set_eqI iffI)
  fix i assume "i \<in> set (py_range lo hi step)"
  then obtain k where k: "i = lo + int k * step" "k < nat ((hi - lo + step - 1) div step)"
    unfolding py_range_def set_map by (elim imageE) (rule that, simp_all)
  then have "int k + 1 \<le> (hi - lo + step - 1) div step" by linarith
  then have "(int k + 1) * step \<le> (hi - lo + step - 1) div step * step"
    using assms by (intro mult_right_mono) auto
  also have "\<dots> \<le> hi - lo + step - 1"
    using mult_div_le [OF assms, of "hi - lo + step - 1"] by (simp only: mult.commute)
  finally have "int k * step < hi - lo" by (simp add: algebra_simps)
  with k assms show "i \<in> {i. lo \<le> i \<and> i < hi \<and> step dvd (i - lo)}" by auto
next
  fix i assume "i \<in> {i. lo \<le> i \<and> i < hi \<and> step dvd (i - lo)}"
  then obtain q where q: "i = lo + q * step" "lo \<le> i" "i < hi" by (auto simp: dvd_def algebra_simps)
  with assms have "0 \<le> q" by (simp add: zero_le_mult_iff)
  have "(q + 1) * step \<le> hi - lo + step - 1" using q by (simp add: algebra_simps)
  then have "(q + 1) * step div step \<le> (hi - lo + step - 1) div step"
    using assms by (rule zdiv_mono1)
  then have "q + 1 \<le> (hi - lo + step - 1) div step" using assms by simp
  then have "nat q < nat ((hi - lo + step - 1) div step)" using \<open>0 \<le> q\<close> by simp
  moreover have "i = lo + int (nat q) * step" using q \<open>0 \<le> q\<close> by simp
  ultimately show "i \<in> set (py_range lo hi step)"
    unfolding py_range_def set_map set_upt by (intro image_eqI [where x = "nat q"]) auto
qed

lemma py_range_1: "py_range lo hi 1 = map (\<lambda>k. lo + int k) [0..<nat (hi - lo)]"
  by (simp add: py_range_def)

lemma py_range_1_append:
  assumes "lo \<le> mid" and "mid \<le> hi"
  shows "py_range lo mid 1 @ py_range mid hi 1 = py_range lo hi 1"
proof -
  define n m where "n = nat (mid - lo)" and "m = nat (hi - mid)"
  then have nm: "nat (hi - lo) = n + m" and mid: "mid = lo + int n" using assms by simp_all
  have "[0..<n + m] = [0..<n] @ map (\<lambda>k. k + n) [0..<m]"
    using upt_add_eq_append [of 0 n m] map_add_upt [of n m] by (simp add: add.commute)
  then have "py_range lo hi 1 = map (\<lambda>k. lo + int k) ([0..<n] @ map (\<lambda>k. k + n) [0..<m])"
    by (simp add: py_range_1 nm)
  moreover have "py_range mid hi 1 = map (\<lambda>k. lo + int k) (map (\<lambda>k. k + n) [0..<m])"
    by (simp add: py_range_1 m_def mid comp_def add.commute add.left_commute)
  moreover have "py_range lo mid 1 = map (\<lambda>k. lo + int k) [0..<n]" by (simp add: py_range_1 n_def)
  ultimately show ?thesis by simp
qed

text \<open>
  \<open>int(np.prod(xs))\<close> over Python integers is a product of \<open>int64\<close> values, which wraps
  around modulo \<open>2 ^ 64\<close> into the signed range; the product of no numbers is 1.
\<close>

definition wrap64 :: "int \<Rightarrow> int" where
  "wrap64 x = (x + 2 ^ 63) mod 2 ^ 64 - 2 ^ 63"

definition np_prod :: "int list \<Rightarrow> int" where
  "np_prod xs = foldl (\<lambda>acc x. wrap64 (acc * wrap64 x)) 1 xs"

lemma wrap64_id: "- (2 ^ 63) \<le> x \<Longrightarrow> x < 2 ^ 63 \<Longrightarrow> wrap64 x = x"
  by (simp add: wrap64_def)

lemma wrap64_cong: "wrap64 x mod 2 ^ 64 = x mod 2 ^ 64"
  unfolding wrap64_def by (metis add_diff_cancel_right' mod_diff_left_eq)

lemma wrap64_eq_iff: "wrap64 x = wrap64 y \<longleftrightarrow> x mod 2 ^ 64 = y mod 2 ^ 64"
proof
  assume "wrap64 x = wrap64 y"
  then show "x mod 2 ^ 64 = y mod 2 ^ 64" by (metis wrap64_cong)
next
  assume "x mod 2 ^ 64 = y mod 2 ^ 64"
  then have "(x + 2 ^ 63) mod 2 ^ 64 = (y + 2 ^ 63) mod 2 ^ 64" by (metis mod_add_left_eq)
  then show "wrap64 x = wrap64 y" by (simp add: wrap64_def)
qed

lemma wrap64_mult: "wrap64 (wrap64 x * wrap64 y) = wrap64 (x * y)"
  unfolding wrap64_eq_iff by (metis mod_mult_eq wrap64_cong)

lemma np_prod_foldl:
  "foldl (\<lambda>acc x. wrap64 (acc * wrap64 x)) (wrap64 a) xs = wrap64 (a * prod_list xs)"
proof (induction xs arbitrary: a)
  case Nil
  show ?case by simp
next
  case (Cons x xs)
  have "foldl (\<lambda>acc x. wrap64 (acc * wrap64 x)) (wrap64 a) (x # xs)
      = foldl (\<lambda>acc x. wrap64 (acc * wrap64 x)) (wrap64 (a * x)) xs"
    by (simp add: wrap64_mult)
  also have "\<dots> = wrap64 ((a * x) * prod_list xs)" by (rule Cons.IH)
  finally show ?case by (simp add: mult.assoc)
qed

text \<open>The wrapping product is the exact product, wrapped once at the end.\<close>

lemma np_prod_wrap: "np_prod xs = wrap64 (prod_list xs)"
  using np_prod_foldl [of 1 xs] by (simp add: np_prod_def wrap64_id)

lemma prod_list_pos: "(\<And>x. x \<in> set xs \<Longrightarrow> 0 < x) \<Longrightarrow> 0 < (prod_list xs :: int)"
  by (induction xs) auto

lemma np_prod_exact:
  "(\<And>x. x \<in> set xs \<Longrightarrow> 0 < x) \<Longrightarrow> prod_list xs < 2 ^ 63 \<Longrightarrow> np_prod xs = prod_list xs"
  using prod_list_pos [of xs] by (simp add: np_prod_wrap wrap64_id)

lemma prod_list_take_le:
  assumes "\<And>x. x \<in> set xs \<Longrightarrow> 0 < (x :: int)"
  shows "prod_list (take n xs) \<le> prod_list xs"
proof -
  have "prod_list xs = prod_list (take n xs) * prod_list (drop n xs)"
    by (metis append_take_drop_id prod_list.append)
  moreover have "0 < prod_list (take n xs)" "0 < prod_list (drop n xs)"
    using assms by (auto intro!: prod_list_pos dest: in_set_takeD in_set_dropD)
  ultimately show ?thesis by (simp add: mult_le_cancel_left1)
qed

section \<open>Random draws\<close>

type_synonym draws = "int list"

definition randint :: "int \<Rightarrow> draws \<Rightarrow> (int \<times> draws) res" where
  "randint n ds =
     (if n \<le> 0 then Inl ValueError
      else case ds of [] \<Rightarrow> Inl NoDraws | d # ds' \<Rightarrow> Inr (d mod n, ds'))"

lemma randint_range:
  "randint n ds = Inr (r, ds') \<Longrightarrow> 0 \<le> r \<and> r < n"
  by (auto simp: randint_def split: if_splits list.splits)

lemma randint_shorter: "randint n ds = Inr (r, ds') \<Longrightarrow> length ds = Suc (length ds')"
  by (auto simp: randint_def split: if_splits list.splits)

section \<open>Floating point values\<close>

text \<open>
  Finite floats are exact rationals (rounding is not modelled); the special values follow
  IEEE 754: every comparison with NaN is false.
\<close>

datatype pyfloat = NaN | NegInf | Fin rat | PosInf

fun fgt :: "pyfloat \<Rightarrow> pyfloat \<Rightarrow> bool" where
  "fgt NaN _ = False"
| "fgt _ NaN = False"
| "fgt (Fin x) (Fin y) = (x > y)"
| "fgt NegInf _ = False"
| "fgt _ NegInf = True"
| "fgt PosInf PosInf = False"
| "fgt PosInf _ = True"
| "fgt _ PosInf = False"

lemma fgt_trans: "fgt x y \<Longrightarrow> fgt y z \<Longrightarrow> fgt x z"
  by (cases x; cases y; cases z) auto

lemma fgt_irrefl: "\<not> fgt x x"
  by (cases x) auto

text \<open>\<open>np.mean\<close>: NaN for an empty array.\<close>

definition np_mean :: "rat list \<Rightarrow> pyfloat" where
  "np_mean xs = (if xs = [] then NaN else Fin (sum_list xs / of_nat (length xs)))"

text \<open>Division of a finite float by a NumPy float: division by zero gives an infinity or NaN.\<close>

fun fdiv :: "rat \<Rightarrow> pyfloat \<Rightarrow> pyfloat" where
  "fdiv x NaN = NaN"
| "fdiv x NegInf = Fin 0"
| "fdiv x PosInf = Fin 0"
| "fdiv x (Fin y) =
     (if y \<noteq> 0 then Fin (x / y) else if x = 0 then NaN else if x > 0 then PosInf else NegInf)"

end
