(* ===== verification/PyObj.thy ===== *)
theory PyObj
  imports Prelude
begin

text \<open>
  Dynamically typed Python values that the tuning code stores in its entities and writes to its
  logs, the JSON layer below \<open>json.dumps\<close> and \<open>json.loads\<close>, and the string, permutation,
  combination and depth-first enumeration primitives that the search spaces are built with.
\<close>

section \<open>Values\<close>

datatype pyobj =
    ONone
  | OBool bool
  | OInt int
  | OFloat rat
  | OStr string
  | OList "pyobj list"
  | OTuple "pyobj list"
  | ORange nat
  | ODict "(string \<times> pyobj) list"

text \<open>The elements a \<open>for\<close> loop visits, and \<open>len\<close>; both raise on scalars.\<close>

fun obj_iter :: "pyobj \<Rightarrow> pyobj list res" where
  "obj_iter (OList xs) = Inr xs"
| "obj_iter (OTuple xs) = Inr xs"
| "obj_iter (ORange n) = Inr (map (\<lambda>i. OInt (int i)) [0..<n])"
| "obj_iter (OStr s) = Inr (map (\<lambda>c. OStr [c]) s)"
| "obj_iter (ODict kvs) = Inr (map (\<lambda>(k, v). OStr k) kvs)"
| "obj_iter _ = Inl TypeErr"

definition obj_len :: "pyobj \<Rightarrow> nat res" where
  "obj_len x = res_bind (obj_iter x) (\<lambda>xs. Inr (length xs))"

fun obj_int :: "pyobj \<Rightarrow> int res" where
  "obj_int (OInt i) = Inr i"
| "obj_int (OBool b) = Inr (if b then 1 else 0)"
| "obj_int _ = Inl TypeErr"

definition obj_ints :: "pyobj \<Rightarrow> int list res" where
  "obj_ints x = res_bind (obj_iter x) (res_map obj_int)"

abbreviation ints :: "int list \<Rightarrow> pyobj" where
  "ints xs \<equiv> OList (map OInt xs)"

lemma obj_ints_ints [simp]: "obj_ints (ints xs) = Inr xs"
proof -
  have "res_map obj_int (map OInt xs) = Inr xs" by (induction xs) auto
  then show ?thesis by (simp add: obj_ints_def)
qed

fun dict_get :: "pyobj \<Rightarrow> string \<Rightarrow> pyobj res" where
  "dict_get (ODict kvs) k = (case map_of kvs k of None \<Rightarrow> Inl KeyError | Some v \<Rightarrow> Inr v)"
| "dict_get _ k = Inl TypeErr"

section \<open>The JSON layer\<close>

text \<open>
  \<open>json.loads(json.dumps(x))\<close> as one function on values: lists and tuples both come back as
  lists, dictionaries keep their order, and an object without a JSON form (a \<open>range\<close>) makes
  \<open>json.dumps\<close> raise \<open>TypeError\<close>. The text between the two calls is not modelled.
\<close>

fun json_trip :: "pyobj \<Rightarrow> pyobj res" where
  "json_trip (OList xs) = res_bind (res_map json_trip xs) (\<lambda>ys. Inr (OList ys))"
| "json_trip (OTuple xs) = res_bind (res_map json_trip xs) (\<lambda>ys. Inr (OList ys))"
| "json_trip (ODict kvs) =
     res_bind (res_map (\<lambda>kv. res_bind (json_trip (snd kv)) (\<lambda>v. Inr (fst kv, v))) kvs)
       (\<lambda>ys. Inr (ODict ys))"
| "json_trip (ORange n) = Inl TypeErr"
| "json_trip x = Inr x"

text \<open>Values that JSON represents exactly: no tuple and no range anywhere.\<close>

fun json_plain :: "pyobj \<Rightarrow> bool" where
  "json_plain (OList xs) = list_all json_plain xs"
| "json_plain (OTuple xs) = False"
| "json_plain (ORange n) = False"
| "json_plain (ODict kvs) = list_all (\<lambda>kv. json_plain (snd kv)) kvs"
| "json_plain x = True"

lemma res_map_id: "(\<And>x. x \<in> set xs \<Longrightarrow> f x = Inr x) \<Longrightarrow> res_map f xs = Inr xs"
  using res_map_total [of xs f "\<lambda>x. x"] by simp

lemma json_trip_plain: "json_plain x \<Longrightarrow> json_trip x = Inr x"
proof (induction x rule: json_trip.induct)
  case (1 xs)
  then show ?case by (auto simp: list_all_iff res_map_id)
next
  case (3 kvs)
  then have "res_map (\<lambda>kv. res_bind (json_trip (snd kv)) (\<lambda>v. Inr (fst kv, v))) kvs = Inr kvs"
    by (intro res_map_id) (auto simp: list_all_iff)
  then show ?case by simp
qed auto

lemma json_trip_ints [simp]: "json_trip (ints xs) = Inr (ints xs)"
  by (rule json_trip_plain) (auto simp: list_all_iff)

section \<open>Strings\<close>

text \<open>\<open>s.split(c)\<close> for a one-character separator.\<close>

fun str_split :: "char \<Rightarrow> string \<Rightarrow> string list" where
  "str_split c [] = [[]]"
| "str_split c (x # xs) =
     (if x = c then [] # str_split c xs
      else case str_split c xs of [] \<Rightarrow> [[x]] | y # ys \<Rightarrow> (x # y) # ys)"

lemma str_split_nonempty: "str_split c s \<noteq> []"
  by (induction s) (auto split: list.splits)

lemma str_split_no_sep: "t \<in> set (str_split c s) \<Longrightarrow> c \<notin> set t"
  by (induction s arbitrary: t) (auto split: list.splits if_splits)

text \<open>\<open>s.replace(old, new)\<close> for a non-empty \<open>old\<close>: left to right, without overlap.\<close>

function (sequential) str_replace :: "string \<Rightarrow> string \<Rightarrow> string \<Rightarrow> string" where
  "str_replace old new [] = []"
| "str_replace old new (x # xs) =
     (if old \<noteq> [] \<and> take (length old) (x # xs) = old
      then new @ str_replace old new (drop (length old) (x # xs))
      else x # str_replace old new xs)"
  by pat_completeness auto
termination
  by (relation "measure (\<lambda>(old, new, s). length s)") (auto simp: neq_Nil_conv)

text \<open>\<open>"%d" % n\<close> for a natural number.\<close>

fun str_of_nat :: "nat \<Rightarrow> string" where
  "str_of_nat n =
     (if n < 10 then [char_of (48 + n)] else str_of_nat (n div 10) @ [char_of (48 + n mod 10)])"

declare str_of_nat.simps [simp del]

fun str_startswith :: "string \<Rightarrow> string \<Rightarrow> bool" where
  "str_startswith s p = (take (length p) s = p)"

section \<open>Depth-first enumeration\<close>

text \<open>
  The recursive \<open>_generate_space\<close> methods fill a stack position by position from a list of
  choices and act on each full stack.
\<close>

fun dfs_choose :: "'a list \<Rightarrow> nat \<Rightarrow> 'a list \<Rightarrow> ('a list \<Rightarrow> 'b list) \<Rightarrow> 'b list" where
  "dfs_choose cs 0 stack leaf = leaf stack"
| "dfs_choose cs (Suc k) stack leaf = concat (map (\<lambda>c. dfs_choose cs k (stack @ [c]) leaf) cs)"

lemma concat_map_concat_map:
  "concat (map f (concat (map g xs))) = concat (map (\<lambda>x. concat (map f (g x))) xs)"
  by (induction xs) auto

lemma dfs_choose_product_lists:
  "dfs_choose cs k stack leaf
     = concat (map (\<lambda>xs. leaf (stack @ xs)) (product_lists (replicate k cs)))"
  by (induction k arbitrary: stack) (simp_all add: concat_map_concat_map comp_def)

lemma set_product_lists_replicate:
  "set (product_lists (replicate k cs)) = {xs. length xs = k \<and> set xs \<subseteq> set cs}"
  by (induction k) (auto simp: length_Suc_conv image_iff)

section \<open>Permutations and combinations in the order of itertools\<close>

function py_permutations :: "'a list \<Rightarrow> 'a list list" where
  "py_permutations xs =
     (if xs = [] then [[]]
      else concat (map (\<lambda>i. map (\<lambda>ys. xs ! i # ys) (py_permutations (take i xs @ drop (Suc i) xs)))
             [0..<length xs]))"
  by pat_completeness auto
termination
  by (relation "measure length") auto

declare py_permutations.simps [simp del]

lemma mset_remove_nth:
  "i < length xs \<Longrightarrow> mset (take i xs @ drop (Suc i) xs) = mset xs - {#xs ! i#}"
  by (metis add_mset_remove_trivial id_take_nth_drop mset.simps(2) mset_append union_mset_add_mset_right)

lemma set_py_permutations: "set (py_permutations xs) = {ys. mset ys = mset xs}"
proof (induction xs rule: py_permutations.induct)
  case (1 xs)
  show ?case
  proof (cases "xs = []")
    case True
    then show ?thesis by (simp add: py_permutations.simps)
  next
    case False
    have IH: "set (py_permutations (take i xs @ drop (Suc i) xs)) = {ys. mset ys = mset xs - {#xs ! i#}}"
      if "i < length xs" for i
      using "1.IH" [OF False, of i] that by (simp only: mset_remove_nth) simp
    have "set (py_permutations xs)
        = (\<Union>i < length xs. (#) (xs ! i) ` set (py_permutations (take i xs @ drop (Suc i) xs)))"
      using False by (subst py_permutations.simps) (simp add: atLeast0LessThan)
    also have "\<dots> = (\<Union>i < length xs. (#) (xs ! i) ` {ys. mset ys = mset xs - {#xs ! i#}})"
      using IH by (intro SUP_cong) auto
    also have "\<dots> = {ys. mset ys = mset xs}"
    proof (intro set_eqI iffI)
      fix zs assume "zs \<in> (\<Union>i < length xs. (#) (xs ! i) ` {ys. mset ys = mset xs - {#xs ! i#}})"
      then obtain i ys where "i < length xs" "zs = xs ! i # ys" "mset ys = mset xs - {#xs ! i#}"
        by auto
      then show "zs \<in> {ys. mset ys = mset xs}" by simp
    next
      fix zs assume "zs \<in> {ys. mset ys = mset xs}"
      then have zs: "mset zs = mset xs" by simp
      with False obtain y ys where y: "zs = y # ys" by (cases zs) auto
      with zs have "y \<in> set xs" by (metis list.set_intros(1) mset_eq_setD)
      then obtain i where i: "i < length xs" "xs ! i = y" by (auto simp: in_set_conv_nth)
      moreover have "mset ys = mset xs - {#xs ! i#}" using zs y i by (metis add_mset_remove_trivial mset.simps(2))
      ultimately show "zs \<in> (\<Union>i < length xs. (#) (xs ! i) ` {ys. mset ys = mset xs - {#xs ! i#}})"
        using y by blast
    qed
    finally show ?thesis .
  qed
qed

fun py_combinations :: "'a list \<Rightarrow> nat \<Rightarrow> 'a list list" where
  "py_combinations xs 0 = [[]]"
| "py_combinations [] (Suc k) = []"
| "py_combinations (x # xs) (Suc k) = map ((#) x) (py_combinations xs k) @ py_combinations xs (Suc k)"

lemma set_py_combinations:
  "set (py_combinations xs k) = {ys. length ys = k \<and> ys \<in> set (subseqs xs)}"
proof (induction xs k rule: py_combinations.induct)
  case (1 xs)
  have "[] \<in> set (subseqs xs)" by (induction xs) (auto simp: Let_def)
  then show ?case by auto
qed (auto simp: Let_def)

text \<open>\<open>np.argmax\<close>: the first position of the greatest element.\<close>

definition np_argmax :: "int list \<Rightarrow> nat" where
  "np_argmax xs = length (takeWhile (\<lambda>x. x < Max (set xs)) xs)"

lemma np_argmax:
  assumes "xs \<noteq> []"
  shows "np_argmax xs < length xs" and "xs ! np_argmax xs = Max (set xs)"
    and "\<And>j. j < np_argmax xs \<Longrightarrow> xs ! j < Max (set xs)"
proof -
  have m: "Max (set xs) \<in> set xs" using assms by simp
  show len: "np_argmax xs < length xs"
  proof (rule ccontr)
    assume "\<not> np_argmax xs < length xs"
    then have "length (takeWhile (\<lambda>x. x < Max (set xs)) xs) = length xs"
      using length_takeWhile_le [of "\<lambda>x. x < Max (set xs)" xs] by (simp add: np_argmax_def)
    then have "takeWhile (\<lambda>x. x < Max (set xs)) xs = xs"
      by (metis takeWhile_eq_take take_all order_refl)
    then have "Max (set xs) < Max (set xs)" using m by (metis takeWhile_eq_all_conv)
    then show False by simp
  qed
  have "\<not> xs ! np_argmax xs < Max (set xs)"
    using nth_length_takeWhile [of "\<lambda>x. x < Max (set xs)" xs] len by (simp add: np_argmax_def)
  moreover have "xs ! np_argmax xs \<le> Max (set xs)" using len by simp
  ultimately show "xs ! np_argmax xs = Max (set xs)" by simp
  show "xs ! j < Max (set xs)" if "j < np_argmax xs" for j
    using that unfolding np_argmax_def
    by (metis nth_mem set_takeWhileD takeWhile_nth)
qed

end
