(* ===== verification/Space.thy ===== *)
theory Space
  imports PyObj "HOL-Library.Log_Nat" "HOL-Library.Sublist"
begin

text \<open>
  The transform spaces of \<open>autotvm/task/space.py\<close>: the factor enumerations, \<open>SplitSpace\<close>,
  \<open>ReorderSpace\<close>, \<open>AnnotateSpace\<close> and \<open>OtherOptionSpace\<close> with their entities. A space object is a
  \<open>tspace\<close>, an entity keeps its Python payload as a \<open>pyobj\<close>. The schedule that an entity is
  applied to lives in TVM's C++ core: its operations are the fields of \<open>sched_ops\<close>, an
  argument of the \<open>apply\<close> functions.
\<close>

section \<open>Factors\<close>

text \<open>
  \<open>int(math.sqrt(n))\<close>: the integer square root, which the double precision square root equals
  for \<open>n < 2 ^ 52\<close>.
\<close>

function isqrt_from :: "nat \<Rightarrow> nat \<Rightarrow> nat" where
  "isqrt_from n m = (if Suc m * Suc m \<le> n then isqrt_from n (Suc m) else m)"
  by pat_completeness auto
termination
proof (relation "measure (\<lambda>(n, m). n - m)")
  show "((n, Suc m), (n, m)) \<in> measure (\<lambda>(n, m). n - m)" if "Suc m * Suc m \<le> n" for n m
  proof -
    have "m < Suc m * Suc m" by simp
    with that have "m < n" by linarith
    then show ?thesis by simp
  qed
qed simp

declare isqrt_from.simps [simp del]

definition isqrt :: "int \<Rightarrow> int" where
  "isqrt n = int (isqrt_from (nat n) 0)"

lemma isqrt_from_spec:
  "m * m \<le> n \<Longrightarrow> isqrt_from n m * isqrt_from n m \<le> n \<and> n < Suc (isqrt_from n m) * Suc (isqrt_from n m)"
proof (induction n m rule: isqrt_from.induct)
  case (1 n m)
  show ?case
  proof (cases "Suc m * Suc m \<le> n")
    case True
    with "1.IH" show ?thesis by (simp add: isqrt_from.simps [of n m])
  next
    case False
    with "1.prems" show ?thesis by (simp add: isqrt_from.simps [of n m])
  qed
qed

lemma le_isqrt_iff:
  assumes "0 \<le> i" and "0 \<le> n"
  shows "i \<le> isqrt n \<longleftrightarrow> i * i \<le> n"
proof -
  let ?r = "isqrt_from (nat n) 0"
  have r: "?r * ?r \<le> nat n" "nat n < Suc ?r * Suc ?r" using isqrt_from_spec [of 0 "nat n"] by auto
  have "i \<le> int ?r \<longleftrightarrow> nat i \<le> ?r" using assms by linarith
  also have "\<dots> \<longleftrightarrow> nat i * nat i \<le> nat n"
  proof
    assume "nat i \<le> ?r"
    then have "nat i * nat i \<le> ?r * ?r" by (simp add: mult_le_mono)
    then show "nat i * nat i \<le> nat n" using r by simp
  next
    assume le: "nat i * nat i \<le> nat n"
    show "nat i \<le> ?r"
    proof (rule ccontr)
      assume "\<not> nat i \<le> ?r"
      then have "Suc ?r * Suc ?r \<le> nat i * nat i" by (intro mult_le_mono) auto
      with le r show False by linarith
    qed
  qed
  also have "\<dots> \<longleftrightarrow> i * i \<le> n"
    using assms by (metis nat_mult_distrib nat_le_eq_zle mult_nonneg_nonneg)
  finally show ?thesis by (simp add: isqrt_def)
qed

definition get_factors :: "int \<Rightarrow> int list res" where
  "get_factors n =
     (let step = (if n mod 2 \<noteq> 0 then 2 else 1)
      in if n < 0 then Inl ValueError
         else let pairs = map (\<lambda>i. [i, n div i])
                (filter (\<lambda>i. n mod i = 0) (py_range 1 (isqrt n + 1) step))
         in if pairs = [] then Inl TypeErr
            else Inr (sort (remdups (concat pairs))))"

definition get_pow2s :: "int \<Rightarrow> int list res" where
  "get_pow2s n =
     (if n \<le> 0 then Inl ValueError else Inr (map (\<lambda>x. 2 ^ x) [0..<floorlog 2 (nat n)]))"

section \<open>Entities and spaces\<close>

datatype entity =
    SplitEntity (payload: pyobj)
  | ReorderEntity (payload: pyobj)
  | AnnotateEntity (payload: pyobj)
  | OtherOptionEntity (payload: pyobj)

datatype space_class = SplitSpace | ReorderSpace | AnnotateSpace | OtherOptionSpace

record tspace =
  sp_class :: space_class
  sp_policy :: string
  sp_product :: int
  sp_num_output :: int
  sp_entities :: "entity list"

text \<open>\<open>TransformSpace.__len__\<close> and \<open>TransformSpace.__getitem__\<close>.\<close>

definition space_len :: "tspace \<Rightarrow> int" where
  "space_len sp = int (length (sp_entities sp))"

definition space_getitem :: "tspace \<Rightarrow> int \<Rightarrow> entity res" where
  "space_getitem sp i = py_get (sp_entities sp) i"

text \<open>
  An axis given to a space is a \<open>VirtualAxis\<close> with a length, or an \<open>Axis(space, index)\<close> pair
  returned by an earlier transform, which has no length attribute.
\<close>

datatype axis = VirtualAxis string int | Axis nat

fun axis_length :: "axis \<Rightarrow> int res" where
  "axis_length (VirtualAxis name l) = Inr l"
| "axis_length (Axis i) = Inl AttributeError"

text \<open>The keyword arguments a policy reads; \<open>None\<close> is an argument that was not passed.\<close>

record 'x space_kwargs =
  kw_max_factor :: "int option"
  kw_filter :: "(entity \<Rightarrow> bool) option"
  kw_num_outputs :: "int option"
  kw_no_tail :: "bool option"
  kw_candidate :: "pyobj list option"
  kw_axis_candidate :: "'x list list option"
  kw_interval :: "(int \<times> int) option"
  kw_spatial :: "'x list list option"
  kw_reduce :: "'x list list option"
  kw_num_anchor :: "int option"

definition no_kwargs :: "'x space_kwargs" where
  "no_kwargs = \<lparr>kw_max_factor = None, kw_filter = None, kw_num_outputs = None, kw_no_tail = None,
     kw_candidate = None, kw_axis_candidate = None, kw_interval = None, kw_spatial = None,
     kw_reduce = None, kw_num_anchor = None\<rparr>"

text \<open>\<open>kwargs[name]\<close>: a missing argument is a \<open>KeyError\<close>.\<close>

definition kw_require :: "'a option \<Rightarrow> 'a res" where
  "kw_require x = (case x of None \<Rightarrow> Inl KeyError | Some v \<Rightarrow> Inr v)"

definition kw_default :: "'a option \<Rightarrow> 'a \<Rightarrow> 'a" where
  "kw_default x d = (case x of None \<Rightarrow> d | Some v \<Rightarrow> v)"

section \<open>SplitSpace\<close>

text \<open>The leaf of \<open>SplitSpace._generate_space\<close>: a full stack becomes an entity or is dropped.\<close>

definition split_leaf :: "int \<Rightarrow> bool \<Rightarrow> int list \<Rightarrow> entity list" where
  "split_leaf product enforce_no_tail tmp_stack =
     (let prod = prod_list tmp_stack
      in if prod > product then []
         else if product mod prod = 0 \<or> \<not> enforce_no_tail \<and> prod < product
         then [SplitEntity (ints (-1 # rev tmp_stack))] else [])"

definition split_generate_space :: "int list \<Rightarrow> int \<Rightarrow> int \<Rightarrow> bool \<Rightarrow> entity list res" where
  "split_generate_space factors product num_output enforce_no_tail =
     (if num_output = 1 then Inl TypeErr
      else Inr (dfs_choose factors (nat (num_output - 1)) [] (split_leaf product enforce_no_tail)))"

definition split_candidate :: "int \<Rightarrow> pyobj \<Rightarrow> entity res" where
  "split_candidate num_output sz =
     res_bind (obj_len sz) (\<lambda>n.
       if int n = num_output then Inr (SplitEntity sz) else Inl AssertionError)"

text \<open>
  The argument \<open>set_iter\<close> is the order in which Python iterates over a set of integers; only
  the \<open>verbose\<close> policy depends on it.
\<close>

definition split_factors :: "(int list \<Rightarrow> int list) \<Rightarrow> string \<Rightarrow> int \<Rightarrow> int \<Rightarrow> int list res" where
  "split_factors set_iter policy product max_factor =
     (if policy = ''verbose'' then
        res_bind (get_factors product) (\<lambda>divisibles.
          res_bind (get_pow2s product) (\<lambda>pow2s.
            Inr (filter (\<lambda>x. x \<le> max_factor) (set_iter (remdups (divisibles @ pow2s))))))
      else if policy = ''factors'' then
        res_bind (get_factors product) (\<lambda>fs. Inr (filter (\<lambda>x. x \<le> max_factor) fs))
      else if policy = ''power2'' then
        res_bind (get_pow2s product) (\<lambda>fs. Inr (filter (\<lambda>x. x \<le> max_factor) fs))
      else Inl RuntimeError)"

definition split_space_init ::
  "(int list \<Rightarrow> int list) \<Rightarrow> axis list \<Rightarrow> string \<Rightarrow> 'x space_kwargs \<Rightarrow> tspace res" where
  "split_space_init set_iter axes policy kw =
     res_bind (py_get axes 0) (\<lambda>axis.
     res_bind (axis_length axis) (\<lambda>product.
       let max_factor = kw_default (kw_max_factor kw) (2 ^ 31);
           fil = kw_default (kw_filter kw) (\<lambda>_. True);
           num_output = kw_default (kw_num_outputs kw) 0
       in if \<not> num_output > 0 then Inl AssertionError
          else res_bind
            (if policy = ''candidate''
             then res_bind (kw_require (kw_candidate kw)) (res_map (split_candidate num_output))
             else res_bind (split_factors set_iter policy product max_factor) (\<lambda>factors.
               let no_tail = kw_default (kw_no_tail kw) (policy = ''factors'')
               in split_generate_space factors product num_output no_tail))
            (\<lambda>entities. Inr \<lparr>sp_class = SplitSpace, sp_policy = policy, sp_product = product,
               sp_num_output = num_output, sp_entities = filter fil entities\<rparr>)))"

section \<open>The schedule operations the entities call\<close>

record ('s, 'ax, 't) sched_ops =
  op_split :: "'s \<Rightarrow> 'ax \<Rightarrow> int \<Rightarrow> 's \<times> 'ax \<times> 'ax"
  op_reorder :: "'s \<Rightarrow> 'ax list \<Rightarrow> 's"
  op_unroll :: "'s \<Rightarrow> 'ax \<Rightarrow> 's"
  op_vectorize :: "'s \<Rightarrow> 'ax \<Rightarrow> 's"
  op_bind :: "'s \<Rightarrow> 'ax \<Rightarrow> string \<Rightarrow> 's"
  op_fuse :: "'s \<Rightarrow> 'ax \<Rightarrow> 'ax \<Rightarrow> 's \<times> 'ax"
  op_compute_at :: "'s \<Rightarrow> 't \<Rightarrow> 'ax \<Rightarrow> 's"

text \<open>
  \<open>SplitEntity.apply\<close>: for \<open>i = 1, 2, ...\<close> the current axis is split by the product of the
  sizes from \<open>i\<close> on; the outer part is kept and the inner part is split further.
\<close>

fun split_apply_loop ::
  "('s, 'ax, 't) sched_ops \<Rightarrow> 's \<Rightarrow> 'ax \<Rightarrow> int list \<Rightarrow> 's \<times> 'ax list" where
  "split_apply_loop ops sch axis [] = (sch, [axis])"
| "split_apply_loop ops sch axis (f # rest) =
     (let (sch1, ax0, ax1) = op_split ops sch axis (np_prod (f # rest));
          (sch2, axs) = split_apply_loop ops sch1 ax1 rest
      in (sch2, ax0 # axs))"

definition split_apply ::
  "('s, 'ax, 't) sched_ops \<Rightarrow> entity \<Rightarrow> 's \<Rightarrow> 'ax \<Rightarrow> ('s \<times> 'ax list) res" where
  "split_apply ops e sch axis =
     res_bind (obj_ints (payload e)) (\<lambda>sz. Inr (split_apply_loop ops sch axis (tl sz)))"

section \<open>ReorderSpace\<close>

text \<open>
  \<open>ReorderSpace._merge_dfs\<close>: extend the merge by the next element of the chain with the most
  elements left (the first such chain). The state \<open>cps\<close> pairs every chain with its pointer
  \<open>tmp_pt[i]\<close>; undoing the change of \<open>tmp_pt\<close> and \<open>tmp_stack\<close> after the recursive call is
  the value semantics of the arguments.
\<close>

definition chains_left :: "(int list \<times> nat) list \<Rightarrow> int list" where
  "chains_left cps = map (\<lambda>(chain, pt). int (length chain) - int pt) cps"

definition chains_todo :: "(int list \<times> nat) list \<Rightarrow> nat" where
  "chains_todo cps = sum_list (map (\<lambda>(chain, pt). length chain - pt) cps)"

lemma chains_todo_step:
  assumes "i < length cps" and "snd (cps ! i) < length (fst (cps ! i))"
  shows "Suc (chains_todo (cps[i := (fst (cps ! i), Suc (snd (cps ! i)))])) = chains_todo cps"
proof -
  let ?f = "\<lambda>(chain, pt). length chain - pt"
  have "?f (cps ! i) \<le> sum_list (map ?f cps)"
    using assms elem_le_sum_list [of i "map ?f cps"] by simp
  then show ?thesis
    using assms by (auto simp: chains_todo_def map_update sum_list_update split: prod.splits)
qed

function merge_dfs :: "(int list \<times> nat) list \<Rightarrow> nat \<Rightarrow> int list \<Rightarrow> int list list" where
  "merge_dfs cps n_all tmp_stack =
     (if sum_list (map snd cps) = n_all then [tmp_stack]
      else concat (map (\<lambda>i.
        if snd (cps ! i) < length (fst (cps ! i)) \<and> i = np_argmax (chains_left cps)
        then merge_dfs (cps[i := (fst (cps ! i), Suc (snd (cps ! i)))]) n_all
               (tmp_stack @ [fst (cps ! i) ! snd (cps ! i)])
        else []) [0..<length cps]))"
  by pat_completeness auto
termination
  by (relation "measure (\<lambda>(cps, n_all, stack). chains_todo cps)")
    (use chains_todo_step in \<open>auto intro: Suc_le_lessD eq_refl\<close>)

declare merge_dfs.simps [simp del]

definition merge_chain :: "int list list \<Rightarrow> int list list" where
  "merge_chain chs =
     merge_dfs (map (\<lambda>chain. (chain, 0)) chs) (sum_list (map length chs)) []"

text \<open>\<open>axes.index(x)\<close> for every axis of every chain.\<close>

definition chain_indices :: "'x list \<Rightarrow> 'x list list \<Rightarrow> int list list res" where
  "chain_indices axes chs =
     res_map (res_map (\<lambda>x. res_bind (py_index axes x) (\<lambda>n. Inr (int n)))) chs"

definition last_slice :: "'a list \<Rightarrow> 'a list" where
  "last_slice xs = (if xs = [] then [] else [last xs])"

definition py_last :: "'a list \<Rightarrow> 'a res" where
  "py_last xs = py_get xs (-1)"

definition reorder_entities ::
  "'x list \<Rightarrow> string \<Rightarrow> 'x space_kwargs \<Rightarrow> entity list res" where
  "reorder_entities axes policy kw =
     (let n = length axes in
      if policy = ''identity'' then Inr [ReorderEntity (ORange n)]
      else if policy = ''all'' then
        Inr (map (\<lambda>x. ReorderEntity (OTuple (map OInt x))) (py_permutations (py_range 0 (int n) 1)))
      else if policy = ''interval_all'' then
        res_bind (kw_require (kw_interval kw)) (\<lambda>(bgn, fin).
          let sub_space = py_permutations (py_range bgn fin 1);
              prefix = py_range 0 bgn 1; suffix = py_range fin (int n) 1
          in Inr (map (\<lambda>x. ReorderEntity (OTuple (map OInt (prefix @ x @ suffix)))) sub_space))
      else if policy = ''candidate'' then
        res_bind (kw_require (kw_axis_candidate kw)) (\<lambda>candidate.
          res_bind (chain_indices axes candidate) (\<lambda>perms.
            Inr (map (\<lambda>perm. ReorderEntity (ints perm)) perms)))
      else if policy = ''interleave'' then
        res_bind (kw_require (kw_spatial kw)) (\<lambda>spatial0.
        res_bind (kw_require (kw_reduce kw)) (\<lambda>reduce0.
        res_bind (chain_indices axes spatial0) (\<lambda>spatial.
        res_bind (chain_indices axes reduce0) (\<lambda>reduce.
          let outer_merged = merge_chain (map butlast spatial);
              inner_merged = merge_chain (map last_slice spatial @ reduce)
          in Inr (concat (map (\<lambda>oo. map (\<lambda>i. ReorderEntity (ints (oo @ i))) inner_merged)
                outer_merged))))))
      else if policy = ''interleave_cuda'' then
        res_bind (kw_require (kw_spatial kw)) (\<lambda>spatial0.
        res_bind (kw_require (kw_reduce kw)) (\<lambda>reduce0.
        res_bind (chain_indices axes spatial0) (\<lambda>spatial.
        res_bind (chain_indices axes reduce0) (\<lambda>reduce.
          let outer_merged = merge_chain (map butlast spatial);
              reduce_merged = merge_chain reduce
          in res_bind (res_map py_last spatial) (\<lambda>inner_merged.
             Inr (concat (map (\<lambda>oo. map (\<lambda>r. ReorderEntity (ints (oo @ r @ inner_merged)))
                reduce_merged) outer_merged)))))))
      else Inl RuntimeError)"

definition reorder_space_init ::
  "'x list \<Rightarrow> string \<Rightarrow> 'x space_kwargs \<Rightarrow> tspace res" where
  "reorder_space_init axes policy kw =
     res_bind (reorder_entities axes policy kw) (\<lambda>es.
       Inr \<lparr>sp_class = ReorderSpace, sp_policy = policy, sp_product = 0,
         sp_num_output = int (length axes), sp_entities = es\<rparr>)"

text \<open>
  \<open>ReorderEntity.apply\<close>: the axes in the order of the permutation; if the lengths differ,
  indices beyond the axes are skipped.
\<close>

definition reorder_apply ::
  "('s, 'ax, 't) sched_ops \<Rightarrow> entity \<Rightarrow> 's \<Rightarrow> 'ax list \<Rightarrow> ('s \<times> 'ax list) res" where
  "reorder_apply ops e sch axes =
     res_bind (obj_ints (payload e)) (\<lambda>perm.
       let idx = (if length axes = length perm then perm
                  else filter (\<lambda>i. i < int (length axes)) perm)
       in res_bind (res_map (py_get axes) idx) (\<lambda>new_order.
            Inr (op_reorder ops sch new_order, new_order)))"

section \<open>AnnotateSpace\<close>

definition bind_gpu_anns :: "nat \<Rightarrow> string list res" where
  "bind_gpu_anns num_axis =
     (if num_axis \<ge> 6 then
        Inr (replicate (num_axis - 6) ''fuse'' @
          [''blockIdx.z'', ''blockIdx.y'', ''blockIdx.x'',
           ''threadIdx.z'', ''threadIdx.y'', ''threadIdx.x''])
      else if num_axis \<ge> 4 then
        Inr (replicate (num_axis - 4) ''fuse'' @
          [''blockIdx.y'', ''blockIdx.x'', ''threadIdx.y'', ''threadIdx.x''])
      else if num_axis \<ge> 2 then
        Inr (replicate (num_axis - 2) ''fuse'' @ [''blockIdx.x'', ''threadIdx.x''])
      else Inl RuntimeError)"

definition bind_gpu_virtual_anns :: "nat \<Rightarrow> string list res" where
  "bind_gpu_virtual_anns num_axis =
     (if num_axis \<ge> 9 then
        Inr (replicate (num_axis - 9) ''fuse'' @
          [''blockIdx.z'', ''blockIdx.y'', ''blockIdx.x'', ''vthread'', ''vthread'', ''vthread'',
           ''threadIdx.z'', ''threadIdx.y'', ''threadIdx.x''])
      else if num_axis \<ge> 6 then
        Inr (replicate (num_axis - 6) ''fuse'' @
          [''blockIdx.y'', ''blockIdx.x'', ''vthread'', ''vthread'', ''threadIdx.y'', ''threadIdx.x''])
      else if num_axis \<ge> 3 then
        Inr (replicate (num_axis - 3) ''fuse'' @ [''blockIdx.x'', ''vthread'', ''threadIdx.x''])
      else Inl RuntimeError)"

definition annotate_leaf :: "string list \<Rightarrow> entity list" where
  "annotate_leaf tmp_stack =
     (if count_list tmp_stack ''vec'' \<in> {0, 1}
      then [AnnotateEntity (OList (map OStr tmp_stack))] else [])"

definition annotate_generate_space :: "string list \<Rightarrow> nat \<Rightarrow> entity list" where
  "annotate_generate_space anns num_axis = dfs_choose anns num_axis [] annotate_leaf"

definition annotate_entities ::
  "nat \<Rightarrow> string \<Rightarrow> 'x space_kwargs \<Rightarrow> entity list res" where
  "annotate_entities num_axis policy kw =
     (if policy = ''bind_gpu'' then
        res_bind (bind_gpu_anns num_axis) (\<lambda>anns. Inr [AnnotateEntity (OList (map OStr anns))])
      else if policy = ''bind_gpu_virtual'' then
        res_bind (bind_gpu_virtual_anns num_axis) (\<lambda>anns.
          Inr [AnnotateEntity (OList (map OStr anns))])
      else if policy = ''locate_cache'' then
        res_bind (kw_require (kw_num_anchor kw)) (\<lambda>num_anchor.
          if num_anchor < 0 then Inl ValueError
          else Inr (map (\<lambda>x. AnnotateEntity (OTuple (map (\<lambda>i. OInt (int i)) x)))
            (py_combinations [0..<num_axis] (nat num_anchor))))
      else
        let anns = str_split (CHR ''_'') (str_replace ''try'' ''none'' policy)
        in if \<exists>ann \<in> set anns. ann \<notin> {''none'', ''unroll'', ''vec''} then Inl RuntimeError
           else Inr (annotate_generate_space anns num_axis))"

definition annotate_space_init ::
  "'x list \<Rightarrow> string \<Rightarrow> 'x space_kwargs \<Rightarrow> tspace res" where
  "annotate_space_init axes policy kw =
     res_bind (annotate_entities (length axes) policy kw) (\<lambda>es.
       Inr \<lparr>sp_class = AnnotateSpace, sp_policy = policy, sp_product = 0,
         sp_num_output = int (length axes), sp_entities = es\<rparr>)"

text \<open>
  \<open>AnnotateEntity.apply\<close>. The state of the loop is the schedule, the (mutated) list of axes
  and the error list of \<open>cfg\<close>, \<open>None\<close> when no configuration was passed. A limit that is
  \<open>None\<close> or zero is not checked.
\<close>

record ('s, 'ax) annotate_state =
  as_sch :: 's
  as_axes :: "'ax list"
  as_errors :: "string list option"

definition cfg_raise :: "string \<Rightarrow> ('s, 'ax) annotate_state \<Rightarrow> ('s, 'ax) annotate_state res" where
  "cfg_raise msg st =
     (case as_errors st of
        None \<Rightarrow> Inl AttributeError
      | Some errs \<Rightarrow> Inr (st\<lparr>as_errors := Some (errs @ [msg])\<rparr>))"

definition axis_len_at :: "int list option \<Rightarrow> nat \<Rightarrow> int res" where
  "axis_len_at axis_lens i =
     (case axis_lens of None \<Rightarrow> Inl TypeErr | Some ls \<Rightarrow> py_get ls (int i))"

definition annotate_one ::
  "('s, 'ax, 't) sched_ops \<Rightarrow> int list option \<Rightarrow> int option \<Rightarrow> int list option \<Rightarrow>
   ('s, 'ax) annotate_state \<Rightarrow> nat \<times> pyobj \<Rightarrow> ('s, 'ax) annotate_state res" where
  "annotate_one ops axis_lens max_unroll vec_size st iann =
     (let i = fst iann; ann = snd iann;
          axis = py_get (as_axes st) (int i)
      in if ann = OStr ''none'' then Inr st
         else if ann = OStr ''unroll'' then
           res_bind
             (case max_unroll of
                None \<Rightarrow> Inr st
              | Some m \<Rightarrow> if m = 0 then Inr st
                  else res_bind (axis_len_at axis_lens i) (\<lambda>l.
                    if l > m then cfg_raise ''Too large factor for unrolling'' st else Inr st))
             (\<lambda>st1. res_bind axis (\<lambda>ax. Inr (st1\<lparr>as_sch := op_unroll ops (as_sch st1) ax\<rparr>)))
         else if ann = OStr ''vec'' then
           res_bind
             (case vec_size of
                None \<Rightarrow> Inr st
              | Some vs \<Rightarrow> if vs = [] then Inr st
                  else res_bind (axis_len_at axis_lens i) (\<lambda>l.
                    if l \<notin> set vs then cfg_raise ''Wrong size of lanes in vectorization'' st
                    else Inr st))
             (\<lambda>st1. res_bind axis (\<lambda>ax. Inr (st1\<lparr>as_sch := op_vectorize ops (as_sch st1) ax\<rparr>)))
         else if ann \<in> OStr ` {''blockIdx.x'', ''blockIdx.y'', ''blockIdx.z'',
             ''threadIdx.x'', ''threadIdx.y'', ''threadIdx.z'', ''vthread''} then
           res_bind axis (\<lambda>ax.
             Inr (st\<lparr>as_sch := op_bind ops (as_sch st) ax (case ann of OStr s \<Rightarrow> s | _ \<Rightarrow> [])\<rparr>))
         else if ann = OStr ''fuse'' then
           if \<not> i + 1 < length (as_axes st) then Inl AssertionError
           else let (sch', fused) = op_fuse ops (as_sch st) (as_axes st ! i) (as_axes st ! (i + 1))
                in Inr (st\<lparr>as_sch := sch', as_axes := (as_axes st)[i + 1 := fused]\<rparr>)
         else Inl (case ann of OStr s \<Rightarrow> RuntimeError | _ \<Rightarrow> TypeErr))"

definition annotate_apply ::
  "('s, 'ax, 't) sched_ops \<Rightarrow> entity \<Rightarrow> 's \<Rightarrow> 'ax list \<Rightarrow> int list option \<Rightarrow> int option \<Rightarrow>
   int list option \<Rightarrow> string list option \<Rightarrow> 't list list option \<Rightarrow>
   ('s, 'ax) annotate_state res" where
  "annotate_apply ops e sch axes axis_lens max_unroll vec_size errs source =
     res_bind (obj_iter (payload e)) (\<lambda>anns.
       let st0 = \<lparr>as_sch = sch, as_axes = axes, as_errors = errs\<rparr>
       in case source of
            Some srcs \<Rightarrow>
              res_foldl (\<lambda>st (src, to).
                res_foldl (\<lambda>st1 t.
                  res_bind (obj_int to) (\<lambda>k. res_bind (py_get axes k) (\<lambda>ax.
                    Inr (st1\<lparr>as_sch := op_compute_at ops (as_sch st1) t ax\<rparr>)))) st src)
                st0 (zip srcs anns)
          | None \<Rightarrow>
              res_foldl (annotate_one ops axis_lens max_unroll vec_size) st0
                (List.enumerate 0 anns))"

section \<open>OtherOptionSpace\<close>

definition other_space_init :: "string \<Rightarrow> 'x space_kwargs \<Rightarrow> tspace res" where
  "other_space_init policy kw =
     res_bind (kw_require (kw_candidate kw)) (\<lambda>candidate.
       Inr \<lparr>sp_class = OtherOptionSpace, sp_policy = policy, sp_product = 0, sp_num_output = 0,
         sp_entities = map OtherOptionEntity candidate\<rparr>)"

end
