(* ===== verification/SpaceCorrect.thy ===== *)
theory SpaceCorrect
  imports Space
begin

text \<open>
  Correctness of the transform spaces: the factor enumerations list exactly the divisors and the
  powers of two, a split space holds exactly the admissible tilings and each of them tiles the
  axis without a tail, a merge of chains is one interleaving, the permutation policies give
  permutations of the axes, and the annotation policies give exactly the admissible annotations.
\<close>

section \<open>Factors\<close>

lemma factor_candidates:
  assumes "1 \<le> n"
  shows "set (filter (\<lambda>i. n mod i = 0) (py_range 1 (isqrt n + 1) (if n mod 2 \<noteq> 0 then 2 else 1)))
    = {i. 1 \<le> i \<and> i * i \<le> n \<and> i dvd n}"
proof -
  have "(if n mod 2 \<noteq> 0 then 2 else 1) dvd (i - 1)" if "i dvd n" "1 \<le> i" for i
  proof (cases "even n")
    case True
    then show ?thesis by (simp add: even_iff_mod_2_eq_zero)
  next
    case False
    with that have "odd i" by (metis dvd_trans)
    then show ?thesis using False by (simp add: odd_iff_mod_2_eq_one)
  qed
  then show ?thesis
    using assms le_isqrt_iff [of _ n]
    by (auto simp: set_py_range mod_eq_0_iff_dvd simp flip: zless_add1_eq)
qed

lemma divisor_pairs:
  fixes n :: int
  assumes "1 \<le> n"
  shows "(\<Union>i \<in> {i. 1 \<le> i \<and> i * i \<le> n \<and> i dvd n}. {i, n div i}) = {d. 0 < d \<and> d dvd n}"
proof (intro set_eqI iffI)
  fix d assume "d \<in> (\<Union>i \<in> {i. 1 \<le> i \<and> i * i \<le> n \<and> i dvd n}. {i, n div i})"
  then obtain i where i: "1 \<le> i" "i dvd n" and d: "d = i \<or> d = n div i" by auto
  from i obtain e where "n = i * e" by (auto simp: dvd_def)
  with i assms have "0 < e" "n div i = e" using zero_less_mult_pos [of i e] by auto
  with d i \<open>n = i * e\<close> show "d \<in> {d. 0 < d \<and> d dvd n}" by auto
next
  fix d assume "d \<in> {d. 0 < d \<and> d dvd n}"
  then obtain e where d: "0 < d" and e: "n = d * e" by (auto simp: dvd_def)
  with assms have e_pos: "0 < e" using zero_less_mult_pos [of d e] by auto
  show "d \<in> (\<Union>i \<in> {i. 1 \<le> i \<and> i * i \<le> n \<and> i dvd n}. {i, n div i})"
  proof (cases "d \<le> e")
    case True
    then have "d * d \<le> n" using d e by (simp add: mult_left_mono)
    then show ?thesis using d e by (intro UN_I [of d]) auto
  next
    case False
    then have "e * e \<le> n" using e_pos e by (simp add: mult_right_mono)
    moreover have "n div e = d" using e e_pos by simp
    ultimately show ?thesis using e e_pos by (intro UN_I [of e]) auto
  qed
qed

lemma get_factors_Inr:
  assumes "1 \<le> n"
  shows "\<exists>fs. get_factors n = Inr fs \<and> sorted fs \<and> distinct fs \<and> set fs = {d. 0 < d \<and> d dvd n}"
proof -
  let ?cand = "filter (\<lambda>i. n mod i = 0) (py_range 1 (isqrt n + 1) (if n mod 2 \<noteq> 0 then 2 else 1))"
  let ?fs = "sort (remdups (concat (map (\<lambda>i. [i, n div i]) ?cand)))"
  have "(1 :: int) \<in> set ?cand" unfolding factor_candidates [OF assms] using assms by simp
  then have "?cand \<noteq> []" by (metis empty_iff list.set(1))
  then have ne: "map (\<lambda>i. [i, n div i]) ?cand \<noteq> []" by (simp only: map_is_Nil_conv not_False_eq_True)
  then have "get_factors n = Inr ?fs"
    using assms unfolding get_factors_def Let_def by (simp only: if_not_P) simp
  moreover have "set ?fs = {d. 0 < d \<and> d dvd n}"
  proof -
    have "set ?fs = (\<Union>i \<in> set ?cand. {i, n div i})" by (simp add: set_concat image_comp comp_def)
    then show ?thesis using factor_candidates [OF assms] divisor_pairs [OF assms] by simp
  qed
  ultimately show ?thesis by (intro exI [of _ ?fs]) simp
qed

text \<open>
  \<open>get_factors(n)\<close> returns the positive divisors of a positive \<open>n\<close>, in ascending order and
  without repetition, although it only tries candidates up to the square root, and only odd
  ones when \<open>n\<close> is odd.
\<close>

theorem get_factors_divisors:
  assumes "1 \<le> n"
  shows "\<exists>fs. get_factors n = Inr fs \<and> sorted_wrt (<) fs \<and> set fs = {d. 0 < d \<and> d dvd n}"
  using get_factors_Inr [OF assms] by (metis strict_sorted_iff)

theorem get_factors_divisors_witness:
  "\<exists>fs. get_factors 128 = Inr fs \<and> sorted_wrt (<) fs \<and> set fs = {d. 0 < d \<and> d dvd 128}"
  by (rule get_factors_divisors) simp

lemma get_pow2s_Inr:
  assumes "1 \<le> n"
  shows "\<exists>ps. get_pow2s n = Inr ps \<and> sorted_wrt (<) ps \<and> set ps = {2 ^ x | x. 2 ^ x \<le> n}"
proof -
  let ?ps = "map (\<lambda>x. 2 ^ x) [0..<floorlog 2 (nat n)] :: int list"
  have "x < floorlog 2 (nat n) \<longleftrightarrow> 2 ^ x \<le> n" for x
  proof -
    have "x < floorlog 2 (nat n) \<longleftrightarrow> 2 ^ x \<le> nat n"
      using floorlog_le_iff [of 2 "nat n" x] by (simp add: linorder_not_le [symmetric])
    also have "\<dots> \<longleftrightarrow> 2 ^ x \<le> n"
      using assms by (simp add: le_nat_iff)
    finally show ?thesis .
  qed
  then have "set ?ps = {2 ^ x | x. 2 ^ x \<le> n}" by auto
  moreover have "sorted_wrt (<) ?ps" by (simp add: sorted_wrt_map sorted_wrt_iff_nth_less)
  ultimately show ?thesis using assms by (simp add: get_pow2s_def)
qed

text \<open>
  The factor enumerations on lengths that are not positive: \<open>get_factors\<close> raises
  \<open>TypeError\<close> on 0 (a reduction of no numbers) and \<open>ValueError\<close> below 0, the length that an
  axis without a domain gets; \<open>get_pow2s\<close> raises \<open>ValueError\<close> on both. Every positive length
  is enumerated.
\<close>

theorem factor_enumeration_errors:
  "(get_factors n = Inl ValueError \<longleftrightarrow> n < 0) \<and> (get_factors n = Inl TypeErr \<longleftrightarrow> n = 0)
   \<and> (get_pow2s n = Inl ValueError \<longleftrightarrow> n \<le> 0)
   \<and> ((\<exists>fs ps. get_factors n = Inr fs \<and> get_pow2s n = Inr ps) \<longleftrightarrow> 1 \<le> n)"
proof -
  consider "n < 0" | "n = 0" | "1 \<le> n" by linarith
  then show ?thesis
  proof cases
    case 1
    then show ?thesis by (simp add: get_factors_def get_pow2s_def Let_def)
  next
    case 2
    have "isqrt 0 = 0" by (simp add: isqrt_def isqrt_from.simps)
    with 2 show ?thesis by (simp add: get_factors_def get_pow2s_def py_range_def)
  next
    case 3
    then show ?thesis using get_factors_Inr [OF 3] get_pow2s_Inr [OF 3] by auto
  qed
qed

section \<open>Split spaces\<close>

lemma prod_list_rev: "prod_list (rev ys) = (prod_list ys :: int)"
  by (induction ys) (simp_all add: mult.commute)

lemma dvd_prod_list_member: "(y :: int) \<in> set ys \<Longrightarrow> y dvd prod_list ys"
  by (induction ys) auto

lemma split_leaf_no_tail:
  assumes "\<forall>y \<in> set ys. 0 < y" and "1 \<le> n"
  shows "split_leaf n True ys = (if prod_list ys dvd n then [SplitEntity (ints (-1 # rev ys))] else [])"
proof -
  have "prod_list ys dvd n \<Longrightarrow> prod_list ys \<le> n" using assms by (auto intro: zdvd_imp_le)
  then show ?thesis by (auto simp: split_leaf_def Let_def mod_eq_0_iff_dvd)
qed

lemma split_leaf_tail:
  assumes "\<forall>y \<in> set ys. 0 < y" and "1 \<le> n"
  shows "split_leaf n False ys = (if prod_list ys \<le> n then [SplitEntity (ints (-1 # rev ys))] else [])"
  by (auto simp: split_leaf_def Let_def)

lemma ints_inject: "ints xs = ints ys \<longleftrightarrow> xs = ys"
  by (auto dest: map_injective intro: injI)

lemma distinct_split_entities:
  assumes "distinct fs"
  shows "distinct (concat (map (\<lambda>ys. if Q ys then [SplitEntity (ints (-1 # rev ys))] else [])
    (product_lists (replicate k fs))))"
proof -
  have "concat (map (\<lambda>ys. if Q ys then [SplitEntity (ints (-1 # rev ys))] else []) yss)
      = map (\<lambda>ys. SplitEntity (ints (-1 # rev ys))) (filter Q yss)" for yss
    by (induction yss) auto
  moreover have "distinct (product_lists (replicate k fs))"
    using assms by (intro distinct_product_lists) auto
  moreover have "inj_on (\<lambda>ys. SplitEntity (ints (-1 # rev ys))) A" for A
    by (auto intro!: inj_onI dest: map_injective [OF _ injI])
  ultimately show ?thesis by (simp add: distinct_map)
qed

text \<open>The depth-first search with a leaf test that does not depend on the order of the stack.\<close>

lemma set_split_entities:
  assumes "\<And>ys. Q (rev ys) = Q ys"
  shows "set (concat (map (\<lambda>ys. if Q ys then [SplitEntity (ints (-1 # rev ys))] else [])
      (product_lists (replicate k fs))))
    = {SplitEntity (ints (-1 # ys)) | ys. length ys = k \<and> set ys \<subseteq> set fs \<and> Q ys}" (is "?L = ?R")
proof (intro set_eqI iffI)
  fix e assume "e \<in> ?L"
  then obtain ys where "length ys = k" "set ys \<subseteq> set fs" "Q ys" "e = SplitEntity (ints (-1 # rev ys))"
    by (auto simp: set_product_lists_replicate split: if_splits)
  then show "e \<in> ?R" using assms by (intro CollectI exI [of _ "rev ys"]) auto
next
  fix e assume "e \<in> ?R"
  then obtain ys where ys: "length ys = k" "set ys \<subseteq> set fs" "Q ys" "e = SplitEntity (ints (-1 # ys))"
    by auto
  then have "rev ys \<in> set (product_lists (replicate k fs))" by (simp add: set_product_lists_replicate)
  with ys assms show "e \<in> ?L" by (auto intro!: bexI [of _ "rev ys"])
qed

abbreviation split_kw :: "int \<Rightarrow> int \<Rightarrow> unit space_kwargs" where
  "split_kw num_outputs max_factor \<equiv>
     no_kwargs\<lparr>kw_num_outputs := Some num_outputs, kw_max_factor := Some max_factor\<rparr>"

text \<open>
  C9. A split knob with the default policy \<open>factors\<close>: for an axis of positive length and at
  least two outputs, the space holds, without repetition, exactly the tilings whose inner
  sizes are positive, at most \<open>max_factor\<close>, and multiply to a divisor of the length.
\<close>

theorem split_space_factors:
  assumes "1 \<le> n" and "2 \<le> k"
  shows "\<exists>sp. split_space_init set_iter [VirtualAxis nm n] ''factors'' (split_kw k m) = Inr sp
    \<and> distinct (sp_entities sp)
    \<and> set (sp_entities sp) = {SplitEntity (ints (-1 # ys)) | ys.
         length ys = nat (k - 1) \<and> (\<forall>y \<in> set ys. 0 < y \<and> y \<le> m) \<and> prod_list ys dvd n}"
proof -
  obtain fs where fs: "get_factors n = Inr fs" "distinct fs" "set fs = {d. 0 < d \<and> d dvd n}"
    using get_factors_Inr [OF assms(1)] by auto
  let ?fs = "filter (\<lambda>x. x \<le> m) fs"
  let ?es = "dfs_choose ?fs (nat (k - 1)) [] (split_leaf n True)"
  let ?pl = "product_lists (replicate (nat (k - 1)) ?fs)"
  have "map (split_leaf n True) ?pl
      = map (\<lambda>ys. if prod_list ys dvd n then [SplitEntity (ints (-1 # rev ys))] else []) ?pl"
    using fs(3) assms(1) by (intro map_cong refl split_leaf_no_tail) (auto simp: set_product_lists_replicate)
  then have es: "?es = concat (map (\<lambda>ys. if prod_list ys dvd n
      then [SplitEntity (ints (-1 # rev ys))] else []) ?pl)"
    unfolding dfs_choose_product_lists append_Nil by (rule arg_cong)
  have "split_space_init set_iter [VirtualAxis nm n] ''factors'' (split_kw k m)
      = Inr \<lparr>sp_class = SplitSpace, sp_policy = ''factors'', sp_product = n, sp_num_output = k,
          sp_entities = ?es\<rparr>"
    using assms fs(1) by (simp add: split_space_init_def split_factors_def split_generate_space_def
        kw_default_def no_kwargs_def py_get_def)
  moreover have "distinct ?es" unfolding es using fs(2) by (intro distinct_split_entities) simp
  moreover have "set ?es = {SplitEntity (ints (-1 # ys)) | ys. length ys = nat (k - 1)
      \<and> (\<forall>y \<in> set ys. 0 < y \<and> y \<le> m) \<and> prod_list ys dvd n}"
  proof -
    have "set ys \<subseteq> set ?fs \<longleftrightarrow> (\<forall>y \<in> set ys. 0 < y \<and> y \<le> m)" if "prod_list ys dvd n" for ys
    proof -
      have "y dvd n" if "y \<in> set ys" for y
        using that \<open>prod_list ys dvd n\<close> by (metis dvd_prod_list_member dvd_trans)
      then show ?thesis using fs(3) by auto
    qed
    then show ?thesis unfolding es by (subst set_split_entities) (auto simp: prod_list_rev)
  qed
  ultimately show ?thesis by (intro exI conjI) auto
qed

theorem split_space_factors_witness:
  "\<exists>sp. split_space_init (\<lambda>xs. xs) [VirtualAxis ''x'' 128] ''factors'' (split_kw 3 8) = Inr sp
    \<and> distinct (sp_entities sp)
    \<and> set (sp_entities sp) = {SplitEntity (ints (-1 # ys)) | ys.
         length ys = nat (3 - 1) \<and> (\<forall>y \<in> set ys. 0 < y \<and> y \<le> 8) \<and> prod_list ys dvd 128}"
  by (rule split_space_factors) simp_all

section \<open>Applying a split\<close>




definition extent_ops :: "(int list, int, unit) sched_ops" where
  "extent_ops = \<lparr>op_split = (\<lambda>sch axis f. (sch @ [f], - ((- axis) div f), f)),
     op_reorder = (\<lambda>sch axs. axs), op_unroll = (\<lambda>sch ax. sch), op_vectorize = (\<lambda>sch ax. sch),
     op_bind = (\<lambda>sch ax t. sch), op_fuse = (\<lambda>sch a b. (sch, a * b)),
     op_compute_at = (\<lambda>sch t ax. sch)\<rparr>"


section \<open>Merging chains\<close>

lemma concat_map_pick_none:
  "k \<notin> set xs \<Longrightarrow> concat (map (\<lambda>i. if P i \<and> i = k then f i else []) xs) = []"
  by (induction xs) auto

lemma concat_map_pick:
  assumes "k < n"
  shows "concat (map (\<lambda>i. if P i \<and> i = k then f i else []) [0..<n]) = (if P k then f k else [])"
proof -
  have "[0..<n] = [0..<k] @ k # [Suc k..<n]"
    using assms by (metis le_add1 le_add_same_cancel1 less_imp_add_positive upt_add_eq_append upt_conv_Cons
        less_imp_le_nat add_0 le_Suc_ex)
  then show ?thesis by (simp add: concat_map_pick_none)
qed

definition rests :: "(int list \<times> nat) list \<Rightarrow> int list list" where
  "rests cps = map (\<lambda>(chain, pt). drop pt chain) cps"

definition pts_ok :: "(int list \<times> nat) list \<Rightarrow> nat \<Rightarrow> bool" where
  "pts_ok cps n_all \<longleftrightarrow>
     (\<forall>(chain, pt) \<in> set cps. pt \<le> length chain) \<and> n_all = sum_list (map (length \<circ> fst) cps)"

lemma pts_sum:
  assumes "\<forall>(chain, pt) \<in> set cps. pt \<le> length chain"
  shows "sum_list (map snd cps) + chains_todo cps = sum_list (map (length \<circ> fst) cps)"
  using assms by (induction cps) (auto simp: chains_todo_def)

lemma rests_done: "chains_todo cps = 0 \<longleftrightarrow> (\<forall>r \<in> set (rests cps). r = [])"
  by (auto simp: chains_todo_def rests_def)

lemma argmax_unfinished:
  assumes "chains_todo cps \<noteq> 0"
  shows "np_argmax (chains_left cps) < length cps"
    and "snd (cps ! np_argmax (chains_left cps)) < length (fst (cps ! np_argmax (chains_left cps)))"
proof -
  let ?k = "np_argmax (chains_left cps)"
  from assms obtain chain pt where cp: "(chain, pt) \<in> set cps" "pt < length chain"
    by (auto simp: chains_todo_def)
  then have ne: "chains_left cps \<noteq> []" by (auto simp: chains_left_def)
  show k: "?k < length cps" using np_argmax(1) [OF ne] by (simp add: chains_left_def)
  have "0 < int (length chain) - int pt" using cp by simp
  also have "\<dots> \<le> Max (set (chains_left cps))" using cp by (intro Max_ge) (force simp: chains_left_def)+
  also have "\<dots> = chains_left cps ! ?k" using np_argmax(2) [OF ne] by simp
  finally show "snd (cps ! ?k) < length (fst (cps ! ?k))"
    using k by (auto simp: chains_left_def split: prod.splits)
qed

lemma mset_concat_update:
  assumes "k < length xss" and "xss ! k = x # xs"
  shows "mset (concat xss) = add_mset x (mset (concat (xss[k := xs])))"
proof -
  have "xss = take k xss @ (x # xs) # drop (Suc k) xss" using assms by (metis id_take_nth_drop)
  moreover have "xss[k := xs] = take k xss @ xs # drop (Suc k) xss"
    using assms by (simp add: upd_conv_take_nth_drop)
  ultimately show ?thesis by (metis add_mset_add_mset_same_iff append_Cons concat.simps(2) concat_append
        mset.simps(2) mset_append union_mset_add_mset_left union_mset_add_mset_right)
qed

lemma subseq_update:
  assumes "k < length xss" and "xss ! k = x # xs" and "\<forall>c \<in> set (xss[k := xs]). subseq c r"
  shows "\<forall>c \<in> set xss. subseq c (x # r)"
proof
  fix c assume "c \<in> set xss"
  then obtain j where j: "j < length xss" "xss ! j = c" by (auto simp: in_set_conv_nth)
  show "subseq c (x # r)"
  proof (cases "j = k")
    case True
    then have "c = x # xs" using assms(2) j by simp
    moreover have "subseq xs r" using assms(1,3) by (simp add: set_update_memI)
    ultimately show ?thesis by simp
  next
    case False
    then have "c \<in> set (xss[k := xs])" using j by (metis length_list_update nth_list_update_neq nth_mem)
    then show ?thesis using assms(3) by (simp add: list_emb_Cons)
  qed
qed

lemma rests_step:
  assumes "k < length cps" and "snd (cps ! k) < length (fst (cps ! k))"
  shows "rests cps ! k = fst (cps ! k) ! snd (cps ! k) # drop (Suc (snd (cps ! k))) (fst (cps ! k))"
    and "rests (cps[k := (fst (cps ! k), Suc (snd (cps ! k)))])
      = (rests cps)[k := drop (Suc (snd (cps ! k))) (fst (cps ! k))]"
  using assms by (auto simp: rests_def map_update Cons_nth_drop_Suc split: prod.splits)

lemma merge_dfs_interleaves:
  assumes "pts_ok cps n_all"
  shows "\<exists>r. merge_dfs cps n_all stack = [stack @ r] \<and> mset r = mset (concat (rests cps))
    \<and> (\<forall>c \<in> set (rests cps). subseq c r)"
  using assms
proof (induction cps n_all stack rule: merge_dfs.induct)
  case (1 cps n_all stack)
  let ?k = "np_argmax (chains_left cps)"
  let ?x = "fst (cps ! ?k) ! snd (cps ! ?k)"
  let ?cps = "cps[?k := (fst (cps ! ?k), Suc (snd (cps ! ?k)))]"
  have done_iff: "sum_list (map snd cps) = n_all \<longleftrightarrow> chains_todo cps = 0"
    using pts_sum [of cps] "1.prems" by (auto simp: pts_ok_def)
  show ?case
  proof (cases "chains_todo cps = 0")
    case True
    then have "concat (rests cps) = []" using rests_done by simp
    then show ?thesis using True done_iff rests_done [of cps] by (subst merge_dfs.simps) auto
  next
    case False
    note k = argmax_unfinished [OF False]
    have unfold: "merge_dfs cps n_all stack = merge_dfs ?cps n_all (stack @ [?x])"
      using False done_iff k by (subst merge_dfs.simps) (simp add: concat_map_pick)
    have "map (length \<circ> fst) ?cps = map (length \<circ> fst) cps"
      using k(1) by (intro nth_equalityI) (auto simp: nth_list_update)
    then have ok: "pts_ok ?cps n_all"
      using "1.prems" k by (auto simp: pts_ok_def dest!: set_update_subset_insert [THEN subsetD])
    then obtain r where r: "merge_dfs ?cps n_all (stack @ [?x]) = [(stack @ [?x]) @ r]"
      "mset r = mset (concat (rests ?cps))" "\<forall>c \<in> set (rests ?cps). subseq c r"
      using "1.IH" [of ?k] False done_iff k by auto
    note step = rests_step [OF k]
    have len: "?k < length (rests cps)" using k by (simp add: rests_def)
    have "mset (?x # r) = mset (concat (rests cps))"
      using r(2) mset_concat_update [OF len step(1)] by (simp add: step(2))
    moreover have "\<forall>c \<in> set (rests cps). subseq c (?x # r)"
      using r(3) subseq_update [OF len step(1)] by (simp add: step(2))
    ultimately show ?thesis using unfold r(1) by (intro exI [of _ "?x # r"]) simp
  qed
qed

text \<open>
  C10. \<open>ReorderSpace._merge_chain\<close> generates one merge, and it is an interleaving of the chains:
  it has exactly their elements and keeps the order of every chain. (The comment in the code
  announces all combinations; the choice of the longest remaining chain leaves one.)
\<close>

theorem merge_chain_interleaving:
  "\<exists>m. merge_chain chs = [m] \<and> mset m = mset (concat chs) \<and> (\<forall>c \<in> set chs. subseq c m)"
proof -
  let ?cps = "map (\<lambda>chain. (chain, 0 :: nat)) chs"
  have "pts_ok ?cps (sum_list (map length chs))" and "rests ?cps = chs"
    by (auto simp: pts_ok_def rests_def comp_def)
  then show ?thesis using merge_dfs_interleaves [of ?cps _ "[]"] by (auto simp: merge_chain_def)
qed

theorem merge_chain_interleaving_witness:
  "\<exists>m. merge_chain [[0, 1], [2 :: nat]] = [m] \<and> mset m = {#0, 1, 2#} \<and> subseq [0, 1] m"
  using merge_chain_interleaving [of "[[0, 1], [2 :: nat]]"] by auto

section \<open>Permutation policies\<close>

lemma reorder_apply_permutes:
  assumes "mset perm = mset (py_range 0 (int (length axes)) 1)" and "obj_ints (payload e) = Inr perm"
  shows "\<exists>new. reorder_apply ops e sch axes = Inr (op_reorder ops sch new, new) \<and> mset new = mset axes"
proof -
  let ?new = "map (\<lambda>i. axes ! nat i) perm"
  have len: "length perm = length axes"
    using mset_eq_length [OF assms(1)] by (simp add: py_range_1)
  have "i \<in> set perm \<Longrightarrow> 0 \<le> i \<and> i < int (length axes)" for i
    using mset_eq_setD [OF assms(1)] by (auto simp: py_range_1)
  then have "res_map (py_get axes) perm = Inr ?new"
    by (intro res_map_total) (simp add: py_simps)
  then have "reorder_apply ops e sch axes = Inr (op_reorder ops sch ?new, ?new)"
    using assms(2) len by (simp add: reorder_apply_def)
  moreover have "mset ?new = mset (map (\<lambda>i. axes ! nat i) (py_range 0 (int (length axes)) 1))"
    using assms(1) by simp
  moreover have "map (\<lambda>i. axes ! nat i) (py_range 0 (int (length axes)) 1) = axes"
    by (simp add: py_range_1 comp_def map_nth)
  ultimately show ?thesis by auto
qed

lemma res_map_OInt: "res_map obj_int (map OInt xs) = Inr xs"
  by (induction xs) auto

lemma obj_ints_tuple [simp]: "obj_ints (OTuple (map OInt xs)) = Inr xs"
  by (simp add: obj_ints_def res_map_OInt)

lemma obj_ints_range [simp]: "obj_ints (ORange n) = Inr (py_range 0 (int n) 1)"
  using res_map_OInt [of "map int [0..<n]"] by (simp add: obj_ints_def py_range_1 comp_def)

text \<open>
  The permutation policies of a reorder knob: every entity of \<open>identity\<close>, of \<open>all\<close> and of
  \<open>interval_all\<close> on an interval of the axes applies without error and reorders the axes into a
  permutation of themselves.
\<close>

theorem reorder_entities_permute:
  assumes "reorder_entities axes policy kw = Inr es" and "e \<in> set es"
    and "policy \<in> {''identity'', ''all''}
      \<or> policy = ''interval_all'' \<and> kw_interval kw = Some (b, f) \<and> 0 \<le> b \<and> b \<le> f \<and> f \<le> int (length axes)"
  shows "\<exists>new. reorder_apply ops e sch axes = Inr (op_reorder ops sch new, new) \<and> mset new = mset axes"
proof -
  let ?rng = "py_range 0 (int (length axes)) 1"
  consider "policy = ''identity''" | "policy = ''all''" | "policy = ''interval_all''" using assms(3) by blast
  then obtain perm where "mset perm = mset ?rng" "obj_ints (payload e) = Inr perm"
  proof cases
    case 1
    then show ?thesis using assms(1,2) by (intro that [of ?rng]) (auto simp: reorder_entities_def)
  next
    case 2
    then obtain x where "x \<in> set (py_permutations ?rng)" "e = ReorderEntity (OTuple (map OInt x))"
      using assms(1,2) by (auto simp: reorder_entities_def)
    then show ?thesis by (intro that [of x]) (simp_all add: set_py_permutations)
  next
    case 3
    with assms(3) have ivl: "kw_interval kw = Some (b, f)" "0 \<le> b" "b \<le> f" "f \<le> int (length axes)" by auto
    then obtain x where x: "x \<in> set (py_permutations (py_range b f 1))"
      "e = ReorderEntity (OTuple (map OInt (py_range 0 b 1 @ x @ py_range f (int (length axes)) 1)))"
      using 3 assms(1,2) by (auto simp: reorder_entities_def kw_require_def Let_def)
    have "?rng = py_range 0 b 1 @ py_range b f 1 @ py_range f (int (length axes)) 1"
      using ivl by (simp add: py_range_1_append)
    then show ?thesis using x
      by (intro that [of "py_range 0 b 1 @ x @ py_range f (int (length axes)) 1"])
        (simp_all add: set_py_permutations flip: map_append)
  qed
  then show ?thesis by (rule reorder_apply_permutes)
qed

theorem reorder_entities_permute_witness:
  "\<exists>new. reorder_apply extent_ops (ReorderEntity (ORange 3)) [] [7, 8, 9]
     = Inr (op_reorder extent_ops [] new, new) \<and> mset new = mset [7, 8, 9]"
  by (rule reorder_entities_permute [where policy = "''identity''" and kw = no_kwargs
        and es = "[ReorderEntity (ORange 3)]"])
    (simp_all add: reorder_entities_def)

section \<open>Annotation policies\<close>

text \<open>
  The \<open>try\<close> policies of an annotation knob: \<open>try_unroll_vec\<close> chooses for every axis among
  no annotation, unrolling and vectorization, and the space holds exactly the choices that
  vectorize at most one axis.
\<close>

theorem annotate_try_space:
  "\<exists>es. annotate_entities n ''try_unroll_vec'' kw = Inr es
     \<and> set es = {AnnotateEntity (OList (map OStr xs)) | xs.
          length xs = n \<and> set xs \<subseteq> {''none'', ''unroll'', ''vec''} \<and> count_list xs ''vec'' \<le> 1}"
proof -
  let ?anns = "[''none'', ''unroll'', ''vec'']"
  have "str_split (CHR ''_'') (str_replace ''try'' ''none'' ''try_unroll_vec'') = ?anns"
    by simp
  then have "annotate_entities n ''try_unroll_vec'' kw = Inr (annotate_generate_space ?anns n)"
    by (simp add: annotate_entities_def)
  moreover have "set (annotate_generate_space ?anns n) = {AnnotateEntity (OList (map OStr xs)) | xs.
      length xs = n \<and> set xs \<subseteq> set ?anns \<and> count_list xs ''vec'' \<le> 1}"
    unfolding annotate_generate_space_def dfs_choose_product_lists
    by (auto simp: set_product_lists_replicate annotate_leaf_def split: if_splits)
  ultimately show ?thesis by auto
qed

lemma annotate_binds:
  assumes "set bs \<subseteq> OStr ` {''blockIdx.x'', ''blockIdx.y'', ''blockIdx.z'',
      ''threadIdx.x'', ''threadIdx.y'', ''threadIdx.z'', ''vthread''}"
    and "k + length bs \<le> length (as_axes st)"
  shows "\<exists>st'. res_foldl (annotate_one ops lens mu vs) st (List.enumerate k bs) = Inr st'
    \<and> as_axes st' = as_axes st \<and> as_errors st' = as_errors st"
  using assms
proof (induction bs arbitrary: k st)
  case Nil
  then show ?case by simp
next
  case (Cons b bs)
  let ?st = "st\<lparr>as_sch := op_bind ops (as_sch st) (as_axes st ! k) (case b of OStr s \<Rightarrow> s | _ \<Rightarrow> [])\<rparr>"
  have "annotate_one ops lens mu vs st (k, b) = Inr ?st"
    using Cons.prems by (auto simp: annotate_one_def Let_def py_simps)
  moreover obtain st' where "res_foldl (annotate_one ops lens mu vs) ?st (List.enumerate (Suc k) bs) = Inr st'"
    "as_axes st' = as_axes ?st" "as_errors st' = as_errors ?st"
    using Cons.IH [of "Suc k" ?st] Cons.prems by auto
  ultimately show ?case by auto
qed

lemma annotate_fuses:
  assumes "k + m < length (as_axes st)"
  shows "\<exists>st'. res_foldl (annotate_one ops lens mu vs) st (List.enumerate k (replicate m (OStr ''fuse''))) = Inr st'
    \<and> length (as_axes st') = length (as_axes st) \<and> as_errors st' = as_errors st"
  using assms
proof (induction m arbitrary: k st)
  case 0
  then show ?case by simp
next
  case (Suc m)
  obtain sch' fused where f: "op_fuse ops (as_sch st) (as_axes st ! k) (as_axes st ! (k + 1)) = (sch', fused)"
    by (cases "op_fuse ops (as_sch st) (as_axes st ! k) (as_axes st ! (k + 1))")
  let ?st = "st\<lparr>as_sch := sch', as_axes := (as_axes st)[k + 1 := fused]\<rparr>"
  have "annotate_one ops lens mu vs st (k, OStr ''fuse'') = Inr ?st"
    using Suc.prems f by (simp add: annotate_one_def Let_def)
  moreover obtain st' where "res_foldl (annotate_one ops lens mu vs) ?st
      (List.enumerate (Suc k) (replicate m (OStr ''fuse''))) = Inr st'"
    "length (as_axes st') = length (as_axes ?st)" "as_errors st' = as_errors ?st"
    using Suc.IH [of "Suc k" ?st] Suc.prems by auto
  ultimately show ?case by auto
qed

lemma enumerate_append: "List.enumerate k (xs @ ys) = List.enumerate k xs @ List.enumerate (k + length xs) ys"
  by (induction xs arbitrary: k) auto

text \<open>
  The GPU binding policies: the entity annotates every axis, and applying it fuses the
  leading axes into the first bound one and binds the rest without an error, an assertion or
  an index out of range, for any number of axes that the policy accepts.
\<close>

theorem bind_gpu_applies:
  assumes "policy \<in> {''bind_gpu'', ''bind_gpu_virtual''}"
    and "annotate_entities (length axes) policy kw = Inr es" and "e \<in> set es"
  shows "\<exists>st. annotate_apply ops e sch axes lens mu vs errs None = Inr st
    \<and> length (as_axes st) = length axes \<and> as_errors st = errs"
proof -
  obtain m bs where e: "e = AnnotateEntity (OList (replicate m (OStr ''fuse'') @ bs))"
    and bs: "set bs \<subseteq> OStr ` {''blockIdx.x'', ''blockIdx.y'', ''blockIdx.z'',
      ''threadIdx.x'', ''threadIdx.y'', ''threadIdx.z'', ''vthread''}"
    and len: "m + length bs = length axes" "bs \<noteq> []"
    using assms
    by (auto simp: annotate_entities_def res_bind_eq_Inr bind_gpu_anns_def bind_gpu_virtual_anns_def
        split: if_splits)
  let ?st = "\<lparr>as_sch = sch, as_axes = axes, as_errors = errs\<rparr>"
  obtain st1 where st1: "res_foldl (annotate_one ops lens mu vs) ?st
      (List.enumerate 0 (replicate m (OStr ''fuse''))) = Inr st1"
    "length (as_axes st1) = length axes" "as_errors st1 = errs"
    using annotate_fuses [of 0 m ?st ops lens mu vs] len by (cases bs) auto
  obtain st2 where "res_foldl (annotate_one ops lens mu vs) st1 (List.enumerate m bs) = Inr st2"
    "as_axes st2 = as_axes st1" "as_errors st2 = as_errors st1"
    using annotate_binds [OF bs, of m st1 ops lens mu vs] len st1 by auto
  then show ?thesis using st1 by (simp add: annotate_apply_def e enumerate_append res_foldl_append)
qed

theorem bind_gpu_applies_witness:
  "\<exists>st. annotate_apply extent_ops (AnnotateEntity (OList (map OStr [''fuse'', ''blockIdx.x'', ''threadIdx.x''])))
      [] [2, 3, 4] None None None None None = Inr st
    \<and> length (as_axes st) = length [2, 3, 4 :: int] \<and> as_errors st = None"
  by (rule bind_gpu_applies [where policy = "''bind_gpu''" and kw = "no_kwargs :: unit space_kwargs"
        and es = "[AnnotateEntity (OList (map OStr [''fuse'', ''blockIdx.x'', ''threadIdx.x'']))]"])
    (simp_all add: annotate_entities_def bind_gpu_anns_def)

end
