(* ===== verification/KnobIndex.thy ===== *)
theory KnobIndex
  imports Prelude
begin

text \<open>
  The mixed-radix coding of configurations (\<open>autotvm/tuner/model_based_tuner.py\<close>):
  \<open>point2knob\<close> turns the index of a configuration into one digit per knob and
  \<open>knob2point\<close> turns the digits back into an index. The contract that the genetic tuner,
  the annealing optimizer and the model based tuner rely on is the locale \<open>knob_codec\<close>; the
  two functions are its interpretation.
\<close>

section \<open>The two functions\<close>

fun point2knob :: "int \<Rightarrow> int list \<Rightarrow> int list res" where
  "point2knob p [] = Inr []"
| "point2knob p (d # dims) =
     (if d = 0 then Inl ZeroDivisionError
      else res_bind (point2knob (p div d) dims) (\<lambda>knob. Inr (p mod d # knob)))"

definition knob2point :: "int list \<Rightarrow> int list \<Rightarrow> int" where
  "knob2point knob dims =
     foldl (\<lambda>p (j, k). p + np_prod (take j dims) * k) 0 (List.enumerate 0 knob)"

section \<open>Well-formed dimensions\<close>

text \<open>
  Every knob has at least one entity, and the size of the space fits the 64-bit product that
  \<open>len(config_space)\<close> and \<open>knob2point\<close> compute with.
\<close>

definition good_dims :: "int list \<Rightarrow> bool" where
  "good_dims dims \<longleftrightarrow> (\<forall>d \<in> set dims. 0 < d) \<and> prod_list dims < 2 ^ 63"

definition in_dims :: "int list \<Rightarrow> int list \<Rightarrow> bool" where
  "in_dims knob dims \<longleftrightarrow> list_all2 (\<lambda>k d. 0 \<le> k \<and> k < d) knob dims"

lemma in_dims_length: "in_dims k ds \<Longrightarrow> length k = length ds"
  by (simp add: in_dims_def list_all2_lengthD)

lemma in_dims_nth: "in_dims k ds \<Longrightarrow> j < length ds \<Longrightarrow> 0 \<le> k ! j \<and> k ! j < ds ! j"
  by (simp add: in_dims_def list_all2_conv_all_nth)

lemma in_dims_update:
  "in_dims k ds \<Longrightarrow> j < length ds \<Longrightarrow> 0 \<le> v \<Longrightarrow> v < ds ! j \<Longrightarrow> in_dims (k[j := v]) ds"
  by (auto simp: in_dims_def list_all2_conv_all_nth nth_list_update)

lemma in_dims_crossover:
  "in_dims k1 ds \<Longrightarrow> in_dims k2 ds \<Longrightarrow> in_dims (take n k1 @ drop n k2) ds"
  by (auto simp: in_dims_def list_all2_conv_all_nth nth_append min_def)

section \<open>Reference semantics: the value of a digit vector\<close>

fun radix_val :: "int list \<Rightarrow> int list \<Rightarrow> int" where
  "radix_val (k # ks) (d # ds) = k + d * radix_val ks ds"
| "radix_val _ _ = 0"

lemma radix_val_range:
  assumes "in_dims k ds"
  shows "0 \<le> radix_val k ds \<and> radix_val k ds < prod_list ds"
  using assms
proof (induction k ds rule: radix_val.induct)
  case (1 k ks d ds)
  then have IH: "0 \<le> radix_val ks ds" "radix_val ks ds + 1 \<le> prod_list ds"
    and k: "0 \<le> k" "k < d"
    by (auto simp: in_dims_def)
  have "k + d * radix_val ks ds < d * (radix_val ks ds + 1)"
    using k by (simp add: algebra_simps)
  also have "\<dots> \<le> d * prod_list ds"
    using IH k by (intro mult_left_mono) auto
  finally show ?case using IH k by simp
qed (auto simp: in_dims_def)

lemma foldl_knob2point:
  assumes "length ks \<le> length ds - n" and "n \<le> length ds"
  shows "foldl (\<lambda>p (j, k). p + prod_list (take j ds) * k) a (List.enumerate n ks)
    = a + prod_list (take n ds) * radix_val ks (drop n ds)"
  using assms
proof (induction ks arbitrary: a n)
  case Nil
  then show ?case by simp
next
  case (Cons k ks)
  from Cons.prems have n: "n < length ds" by auto
  then have drop_n: "drop n ds = ds ! n # drop (Suc n) ds" by (rule Cons_nth_drop_Suc [symmetric])
  from n have take_n: "prod_list (take (Suc n) ds) = prod_list (take n ds) * ds ! n"
    by (simp add: take_Suc_conv_app_nth)
  have "foldl (\<lambda>p (j, k). p + prod_list (take j ds) * k) a (List.enumerate n (k # ks))
      = a + prod_list (take n ds) * k + prod_list (take (Suc n) ds) * radix_val ks (drop (Suc n) ds)"
    using Cons.prems n by (simp add: Cons.IH)
  then show ?case by (simp add: drop_n take_n algebra_simps)
qed

lemma knob2point_radix:
  assumes "good_dims ds" and "length k = length ds"
  shows "knob2point k ds = radix_val k ds"
proof -
  have exact: "np_prod (take j ds) = prod_list (take j ds)" for j
  proof (rule np_prod_exact)
    show "prod_list (take j ds) < 2 ^ 63"
      using assms(1) prod_list_take_le [of ds j] by (auto simp: good_dims_def)
  qed (use assms(1) in \<open>auto simp: good_dims_def dest: in_set_takeD\<close>)
  show ?thesis
    using foldl_knob2point [of k ds 0 0] assms(2) by (simp add: knob2point_def exact)
qed

lemma point2knob_total:
  assumes "\<forall>d \<in> set ds. 0 < d"
  shows "\<exists>k. point2knob p ds = Inr k \<and> in_dims k ds"
  using assms
proof (induction ds arbitrary: p)
  case Nil
  show ?case by (simp add: in_dims_def)
next
  case (Cons d ds)
  then obtain k where "point2knob (p div d) ds = Inr k" "in_dims k ds" by fastforce
  then show ?case using Cons.prems by (auto simp: in_dims_def)
qed

lemma radix_val_point2knob:
  assumes "point2knob p ds = Inr k" and "\<forall>d \<in> set ds. 0 < d" and "0 \<le> p" and "p < prod_list ds"
  shows "radix_val k ds = p"
  using assms
proof (induction ds arbitrary: p k)
  case Nil
  then show ?case by simp
next
  case (Cons d ds)
  then obtain k' where k': "point2knob (p div d) ds = Inr k'" "k = p mod d # k'"
    by (auto simp: res_bind_eq_Inr)
  have "0 \<le> p div d" using Cons.prems by (simp add: pos_imp_zdiv_nonneg_iff)
  moreover have "p div d < prod_list ds"
  proof (rule ccontr)
    assume "\<not> p div d < prod_list ds"
    then have "d * prod_list ds \<le> d * (p div d)" using Cons.prems by (simp add: mult_left_mono)
    also have "\<dots> \<le> p"
      using Cons.prems by (simp add: mult_div_le)
    finally show False using Cons.prems by simp
  qed
  ultimately have "radix_val k' ds = p div d" using Cons k' by auto
  then show ?case using k' by simp
qed

lemma point2knob_radix_val:
  assumes "in_dims k ds"
  shows "point2knob (radix_val k ds) ds = Inr k"
  using assms
proof (induction k ds rule: radix_val.induct)
  case (1 k ks d ds)
  then have k: "0 \<le> k" "k < d" and ks: "in_dims ks ds" by (auto simp: in_dims_def)
  have "(k + d * radix_val ks ds) div d = radix_val ks ds"
    and "(k + d * radix_val ks ds) mod d = k"
    using k by simp_all
  then show ?case using 1 k ks by simp
qed (auto simp: in_dims_def)

section \<open>The contract of the coding\<close>

locale knob_codec =
  fixes to_knob :: "int \<Rightarrow> int list \<Rightarrow> int list res"
    and to_point :: "int list \<Rightarrow> int list \<Rightarrow> int"
  assumes to_knob_total: "good_dims ds \<Longrightarrow> \<exists>k. to_knob p ds = Inr k \<and> in_dims k ds"
    and to_point_to_knob:
      "good_dims ds \<Longrightarrow> to_knob p ds = Inr k \<Longrightarrow> 0 \<le> p \<Longrightarrow> p < prod_list ds \<Longrightarrow> to_point k ds = p"
    and to_knob_to_point: "good_dims ds \<Longrightarrow> in_dims k ds \<Longrightarrow> to_knob (to_point k ds) ds = Inr k"
    and to_point_range:
      "good_dims ds \<Longrightarrow> in_dims k ds \<Longrightarrow> 0 \<le> to_point k ds \<and> to_point k ds < prod_list ds"
begin

lemma to_point_inj:
  assumes "good_dims ds" "in_dims k ds" "in_dims k' ds" "to_point k ds = to_point k' ds"
  shows "k = k'"
  using assms to_knob_to_point by (metis sum.inject(2))

lemma to_knob_inj:
  assumes "good_dims ds" "0 \<le> p" "p < prod_list ds" "0 \<le> q" "q < prod_list ds"
    and "to_knob p ds = to_knob q ds"
  shows "p = q"
  using assms to_knob_total to_point_to_knob by metis

lemma to_knob_in_dims: "good_dims ds \<Longrightarrow> to_knob p ds = Inr k \<Longrightarrow> in_dims k ds"
  using to_knob_total by (metis sum.inject(2))

text \<open>Replacing one digit by a different one in range moves to another point of the space.\<close>

lemma to_point_update_neq:
  assumes "good_dims ds" "in_dims k ds" "j < length ds" "0 \<le> v" "v < ds ! j" "v \<noteq> k ! j"
  shows "to_point (k[j := v]) ds \<noteq> to_point k ds"
proof
  assume "to_point (k[j := v]) ds = to_point k ds"
  then have "k[j := v] = k" using assms by (intro to_point_inj) (auto intro: in_dims_update)
  then have "(k[j := v]) ! j = k ! j" by simp
  then show False using assms in_dims_length [of k ds] by simp
qed

end

interpretation kc: knob_codec point2knob knob2point
proof unfold_locales
  show "\<exists>k. point2knob p ds = Inr k \<and> in_dims k ds" if "good_dims ds" for p ds
    using that point2knob_total by (simp add: good_dims_def)
  show "knob2point k ds = p"
    if "good_dims ds" "point2knob p ds = Inr k" "0 \<le> p" "p < prod_list ds" for p ds k
    using that point2knob_total [of ds p]
    by (auto simp: knob2point_radix in_dims_length good_dims_def radix_val_point2knob)
  show "point2knob (knob2point k ds) ds = Inr k" if "good_dims ds" "in_dims k ds" for ds k
    using that by (simp add: knob2point_radix in_dims_length point2knob_radix_val)
  show "0 \<le> knob2point k ds \<and> knob2point k ds < prod_list ds"
    if "good_dims ds" "in_dims k ds" for ds k
    using that by (simp add: knob2point_radix in_dims_length radix_val_range)
qed

section \<open>Properties\<close>

text \<open>
  Index to knobs and back: on a space whose size fits in 63 bits, \<open>knob2point\<close> undoes
  \<open>point2knob\<close> on every index of the space, and the digits are within their dimensions.
\<close>

theorem point2knob_knob2point:
  assumes "good_dims dims" and "0 \<le> p" and "p < prod_list dims"
  shows "\<exists>knob. point2knob p dims = Inr knob \<and> in_dims knob dims \<and> knob2point knob dims = p"
  using assms kc.to_knob_total kc.to_point_to_knob by metis

theorem point2knob_knob2point_witness:
  "good_dims [4, 3, 5] \<and> (\<exists>knob. point2knob 47 [4, 3, 5] = Inr knob \<and> in_dims knob [4, 3, 5]
     \<and> knob2point knob [4, 3, 5] = 47)"
proof -
  have g: "good_dims [4, 3, 5]" by (simp add: good_dims_def)
  show ?thesis using g point2knob_knob2point [OF g, of 47] by simp
qed

text \<open>
  Knobs to index and back: every digit vector within the dimensions is the image of exactly
  one index of the space, which \<open>point2knob\<close> decodes to the same vector.
\<close>

theorem knob2point_point2knob:
  assumes "good_dims dims" and "in_dims knob dims"
  shows "0 \<le> knob2point knob dims \<and> knob2point knob dims < prod_list dims
    \<and> point2knob (knob2point knob dims) dims = Inr knob"
  using assms kc.to_point_range kc.to_knob_to_point by blast

theorem knob2point_point2knob_witness:
  "point2knob (knob2point [3, 2, 3] [4, 3, 5]) [4, 3, 5] = Inr [3, 2, 3]"
proof -
  have "good_dims [4, 3, 5]" "in_dims [3, 2, 3] [4, 3, 5]" by (simp_all add: good_dims_def in_dims_def)
  then show ?thesis using knob2point_point2knob [of "[4, 3, 5]" "[3, 2, 3]"] by simp
qed

end
