(* ===== verification/ConfigSpace.thy ===== *)
theory ConfigSpace
  imports Space KnobIndex
begin

text \<open>
  \<open>ConfigSpace\<close> and \<open>ConfigEntity\<close> of \<open>autotvm/task/space.py\<close>: the definition of knobs, the
  size of the space, the entity at an index and the JSON form of an entity. The two classes are
  the record \<open>config_space\<close> and its extension \<open>config_entity\<close>; a method of the base class is a
  function on the record scheme.

  The global counter \<open>VirtualAxis.name_ct\<close> is passed explicitly.
\<close>

section \<open>State\<close>

record config_space =
  space_map :: "(string \<times> tspace) list"
  is_collect :: bool
  cached_length :: "int option"
  entity_map :: "(string \<times> entity) list"
  constraints :: "pyobj list"
  errors :: "string list"
  code_hash :: "string option"
  flop :: rat
  cost :: "pyfloat option"
  is_fallback :: bool

record config_entity = config_space +
  cindex :: int

definition config_space_init :: config_space where
  "config_space_init = \<lparr>space_map = [], is_collect = True, cached_length = None, entity_map = [],
     constraints = [], errors = [], code_hash = None, flop = 0, cost = None, is_fallback = False\<rparr>"

definition config_entity_init ::
  "int \<Rightarrow> string option \<Rightarrow> (string \<times> entity) list \<Rightarrow> pyobj list \<Rightarrow> config_entity" where
  "config_entity_init idx chash emap cons =
     config_space.extend
       (config_space_init\<lparr>is_collect := False, entity_map := emap, constraints := cons,
          code_hash := chash\<rparr>)
       (config_entity.fields idx)"

section \<open>Axes\<close>

text \<open>
  What a template passes as an axis: an axis of the space vocabulary, an integer length, or an
  \<open>IterVar\<close> of the schedule with its name and its domain.
\<close>

datatype iter_dom = NoDom | ConstExtent int | SymExtent

datatype axis_arg = ArgAxis axis | ArgInt int | ArgIterVar string iter_dom | ArgOther

fun virtual_axis :: "nat \<Rightarrow> axis_arg \<Rightarrow> (axis \<times> nat) res" where
  "virtual_axis ct (ArgInt l) = Inr (VirtualAxis (''axis_'' @ str_of_nat ct) l, Suc ct)"
| "virtual_axis ct (ArgIterVar nm NoDom) = Inr (VirtualAxis nm (-1), Suc ct)"
| "virtual_axis ct (ArgIterVar nm (ConstExtent e)) = Inr (VirtualAxis nm e, Suc ct)"
| "virtual_axis ct (ArgIterVar nm SymExtent) = Inl ValueError"
| "virtual_axis ct (ArgAxis (VirtualAxis nm l)) = Inr (VirtualAxis (''axis_'' @ str_of_nat ct) l, Suc ct)"
| "virtual_axis ct (ArgAxis (Axis i)) = Inl RuntimeError"
| "virtual_axis ct ArgOther = Inl RuntimeError"

fun convert_axes :: "nat \<Rightarrow> axis_arg list \<Rightarrow> (axis list \<times> nat) res" where
  "convert_axes ct [] = Inr ([], ct)"
| "convert_axes ct (ArgAxis a # xs) = res_bind (convert_axes ct xs) (\<lambda>(as, ct'). Inr (a # as, ct'))"
| "convert_axes ct (x # xs) =
     res_bind (virtual_axis ct x) (\<lambda>(a, ct1).
       res_bind (convert_axes ct1 xs) (\<lambda>(as, ct'). Inr (a # as, ct')))"

section \<open>Defining knobs\<close>

fun space_init ::
  "(int list \<Rightarrow> int list) \<Rightarrow> space_class \<Rightarrow> axis list \<Rightarrow> string \<Rightarrow> axis space_kwargs \<Rightarrow> tspace res" where
  "space_init set_iter SplitSpace axes policy kw = split_space_init set_iter axes policy kw"
| "space_init set_iter ReorderSpace axes policy kw = reorder_space_init axes policy kw"
| "space_init set_iter AnnotateSpace axes policy kw = annotate_space_init axes policy kw"
| "space_init set_iter OtherOptionSpace axes policy kw = other_space_init policy kw"

fun get_num_output :: "space_class \<Rightarrow> 'b list \<Rightarrow> axis space_kwargs \<Rightarrow> int res" where
  "get_num_output SplitSpace axes kw = kw_require (kw_num_outputs kw)"
| "get_num_output ReorderSpace axes kw = Inr (int (length axes))"
| "get_num_output AnnotateSpace axes kw = Inr (int (length axes))"
| "get_num_output OtherOptionSpace axes kw = Inr 0"

definition out_axes :: "int \<Rightarrow> axis list" where
  "out_axes n = map Axis [0..<nat n]"

definition add_new_transform ::
  "(int list \<Rightarrow> int list) \<Rightarrow> 'z config_space_scheme \<Rightarrow> nat \<Rightarrow> space_class \<Rightarrow> string \<Rightarrow> axis_arg list \<Rightarrow>
   string \<Rightarrow> axis space_kwargs \<Rightarrow> ('z config_space_scheme \<times> nat \<times> axis list) res" where
  "add_new_transform set_iter cs ct cls name axes policy kw =
     (if is_collect cs \<and> \<not> (is_fallback cs \<and> name \<in> fst ` set (entity_map cs)) then
        res_bind (convert_axes ct axes) (\<lambda>(axes', ct').
        res_bind (space_init set_iter cls axes' policy kw) (\<lambda>sp.
        res_bind (space_getitem sp 0) (\<lambda>e0.
          Inr (cs\<lparr>space_map := AList.update name sp (space_map cs),
                  entity_map := AList.update name e0 (entity_map cs)\<rparr>,
               ct', out_axes (sp_num_output sp)))))
      else res_bind (get_num_output cls axes kw) (\<lambda>n. Inr (cs, ct, out_axes n)))"

definition define_split where
  "define_split set_iter cs ct name axis policy kw =
     add_new_transform set_iter cs ct SplitSpace name [axis] policy kw"

definition define_reorder where
  "define_reorder set_iter cs ct name axes policy kw =
     add_new_transform set_iter cs ct ReorderSpace name axes policy kw"

definition define_annotate where
  "define_annotate set_iter cs ct name axes policy kw =
     add_new_transform set_iter cs ct AnnotateSpace name axes policy kw"

definition define_knob where
  "define_knob set_iter cs ct name candidate =
     add_new_transform set_iter cs ct OtherOptionSpace name [] ''''
       (no_kwargs\<lparr>kw_candidate := Some candidate\<rparr>)"

definition add_flop :: "'z config_space_scheme \<Rightarrow> rat \<Rightarrow> 'z config_space_scheme" where
  "add_flop cs x = cs\<lparr>flop := flop cs + x\<rparr>"

definition raise_error :: "'z config_space_scheme \<Rightarrow> string \<Rightarrow> 'z config_space_scheme" where
  "raise_error cs msg = cs\<lparr>errors := errors cs @ [msg]\<rparr>"

definition valid :: "'z config_space_scheme \<Rightarrow> bool" where
  "valid cs \<longleftrightarrow> errors cs = []"

definition cs_getitem :: "'z config_space_scheme \<Rightarrow> string \<Rightarrow> entity res" where
  "cs_getitem cs name = (case map_of (entity_map cs) name of None \<Rightarrow> Inl KeyError | Some e \<Rightarrow> Inr e)"

section \<open>Size and lookup\<close>

definition cs_dims :: "'z config_space_scheme \<Rightarrow> int list" where
  "cs_dims cs = map (space_len \<circ> snd) (space_map cs)"

text \<open>
  \<open>__len__\<close> computes the product once and caches it. The product is one of 64-bit integers and may wrap to a negative number, which the built-in \<open>len\<close> refuses with
  \<open>ValueError\<close>: what reads the size through \<open>len\<close> does so, \<open>get\<close> also in the message of its \<open>IndexError\<close>.
\<close>

definition cs_len :: "'z config_space_scheme \<Rightarrow> int \<times> 'z config_space_scheme" where
  "cs_len cs =
     (case cached_length cs of
        Some n \<Rightarrow> (n, cs)
      | None \<Rightarrow> let n = np_prod (cs_dims cs) in (n, cs\<lparr>cached_length := Some n\<rparr>))"

fun get_entities :: "(string \<times> tspace) list \<Rightarrow> int \<Rightarrow> (string \<times> entity) list res" where
  "get_entities [] t = Inr []"
| "get_entities ((name, sp) # m) t =
     (if space_len sp = 0 then Inl ZeroDivisionError
      else res_bind (space_getitem sp (t mod space_len sp)) (\<lambda>e.
        res_bind (get_entities m (t div space_len sp)) (\<lambda>es. Inr ((name, e) # es))))"

definition cs_get :: "'z config_space_scheme \<Rightarrow> int \<Rightarrow> config_entity res \<times> 'z config_space_scheme" where
  "cs_get cs index =
     (let (n, cs') = cs_len cs
      in (if n < 0 then Inl ValueError
          else if index < 0 \<or> index \<ge> n then Inl IndexError
          else res_bind (get_entities (space_map cs) index) (\<lambda>entities.
            Inr (config_entity_init index (code_hash cs) entities (constraints cs))),
          cs'))"

section \<open>ConfigEntity\<close>

definition ann_to_number :: "(string \<times> nat) list" where
  "ann_to_number =
     [(''none'', 0), (''vec'', 1), (''unroll'', 2), (''blockIdx.x'', 3), (''blockIdx.y'', 4),
      (''blockIdx.z'', 5), (''threadIdx.x'', 6), (''threadIdx.y'', 7), (''threadIdx.z'', 8),
      (''vthread'', 9), (''fuse'', 10)]"

definition one_hot :: "pyobj \<Rightarrow> pyobj list res" where
  "one_hot ann =
     (case ann of
        OStr a \<Rightarrow> (case map_of ann_to_number a of
            None \<Rightarrow> Inl KeyError
          | Some i \<Rightarrow> Inr ((replicate (length ann_to_number) (OInt 0))[i := OInt 1]))
      | _ \<Rightarrow> Inl KeyError)"

fun entity_feature :: "entity \<Rightarrow> pyobj list res" where
  "entity_feature (SplitEntity sz) = obj_iter sz"
| "entity_feature (ReorderEntity perm) = obj_iter perm"
| "entity_feature (AnnotateEntity anns) =
     res_bind (obj_iter anns) (\<lambda>as. res_bind (res_map one_hot as) (\<lambda>fs. Inr (concat fs)))"
| "entity_feature (OtherOptionEntity val) = Inr [val]"

text \<open>The list that \<open>get_flatten_feature\<close> hands to \<open>np.array\<close>.\<close>

definition get_flatten_feature :: "config_entity \<Rightarrow> pyobj list res" where
  "get_flatten_feature c =
     res_bind (res_map (entity_feature \<circ> snd) (entity_map c)) (\<lambda>fs. Inr (concat fs))"

definition get_other_option :: "config_entity \<Rightarrow> (entity \<times> pyobj) list" where
  "get_other_option c =
     map (\<lambda>(k, e). (e, payload e))
       (filter (\<lambda>(k, e). case e of OtherOptionEntity _ \<Rightarrow> True | _ \<Rightarrow> False) (entity_map c))"

fun knob_type :: "entity \<Rightarrow> string" where
  "knob_type (SplitEntity _) = ''sp''"
| "knob_type (ReorderEntity _) = ''re''"
| "knob_type (AnnotateEntity _) = ''an''"
| "knob_type (OtherOptionEntity _) = ''ot''"

definition hash_obj :: "string option \<Rightarrow> pyobj" where
  "hash_obj h = (case h of None \<Rightarrow> ONone | Some s \<Rightarrow> OStr s)"

definition to_json_dict :: "config_entity \<Rightarrow> pyobj" where
  "to_json_dict c =
     ODict [(''index'', OInt (cindex c)), (''code_hash'', hash_obj (code_hash c)),
       (''entity'', OList (map (\<lambda>(k, e). OTuple [OStr k, OStr (knob_type e), payload e]) (entity_map c)))]"

text \<open>
  \<open>from_json_dict\<close>. The record fields are typed, so an index that is not an integer, a code
  hash that is neither a string nor null, or a key that is not a string (values that no log of
  \<open>to_json_dict\<close> contains) give \<open>TypeErr\<close> at once instead of when they are used.
\<close>

definition entity_of_json :: "pyobj \<Rightarrow> (string \<times> entity) res" where
  "entity_of_json item =
     res_bind (obj_iter item) (\<lambda>xs.
       case xs of
         [key, ktype, knob_args] \<Rightarrow>
           res_bind
             (case ktype of
                OStr t \<Rightarrow>
                  if t = ''sp'' then Inr (SplitEntity knob_args)
                  else if t = ''re'' then Inr (ReorderEntity knob_args)
                  else if t = ''an'' then Inr (AnnotateEntity knob_args)
                  else if t = ''ot'' then Inr (OtherOptionEntity knob_args)
                  else Inl RuntimeError
              | _ \<Rightarrow> Inl TypeErr)
             (\<lambda>e. case key of OStr k \<Rightarrow> Inr (k, e) | _ \<Rightarrow> Inl TypeErr)
       | _ \<Rightarrow> Inl ValueError)"

definition from_json_dict :: "pyobj \<Rightarrow> config_entity res" where
  "from_json_dict d =
     res_bind (dict_get d ''index'') (\<lambda>index.
     res_bind (obj_int index) (\<lambda>idx.
     res_bind (dict_get d ''code_hash'') (\<lambda>h.
     res_bind (case h of ONone \<Rightarrow> Inr None | OStr s \<Rightarrow> Inr (Some s) | _ \<Rightarrow> Inl TypeErr) (\<lambda>chash.
     res_bind (dict_get d ''entity'') (\<lambda>ents.
     res_bind (obj_iter ents) (\<lambda>items.
     res_bind (res_foldl (\<lambda>m item. res_bind (entity_of_json item) (\<lambda>(k, e).
         Inr (AList.update k e m))) [] items) (\<lambda>emap.
       Inr (config_entity_init idx chash emap [])))))))) "

end
