(* ===== verification/ConfigSpaceCorrect.thy ===== *)
theory ConfigSpaceCorrect
  imports ConfigSpace SpaceCorrect
begin

text \<open>
  Correctness of \<open>ConfigSpace\<close>: the definition of knobs keeps the space well-formed, the
  entity at an index is the mixed-radix decoding of the index, every combination of knob values
  is reached by exactly one index, and the JSON form of an entity reads back. The contract that
  the tuners use is the locale \<open>indexed_space\<close>, interpreted on \<open>cs_len\<close> and \<open>cs_get\<close>.
\<close>

section \<open>Well-formed spaces\<close>

definition cs_wf :: "'z config_space_scheme \<Rightarrow> bool" where
  "cs_wf cs \<longleftrightarrow> distinct (map fst (space_map cs))
     \<and> (\<forall>(name, sp) \<in> set (space_map cs). sp_entities sp \<noteq> [])
     \<and> fst ` set (space_map cs) \<subseteq> fst ` set (entity_map cs)"

text \<open>The cache holds nothing or the product of the current dimensions.\<close>

definition cs_fresh :: "'z config_space_scheme \<Rightarrow> bool" where
  "cs_fresh cs \<longleftrightarrow> cached_length cs \<in> {None, Some (np_prod (cs_dims cs))}"

definition cs_ready :: "'z config_space_scheme \<Rightarrow> bool" where
  "cs_ready cs \<longleftrightarrow> cs_wf cs \<and> cs_fresh cs \<and> prod_list (cs_dims cs) < 2 ^ 63"

abbreviation cs_size :: "'z config_space_scheme \<Rightarrow> int" where
  "cs_size cs \<equiv> fst (cs_len cs)"

abbreviation cs_at :: "'z config_space_scheme \<Rightarrow> int \<Rightarrow> config_entity res" where
  "cs_at cs i \<equiv> fst (cs_get cs i)"

lemma set_AList_update: "set (AList.update k v al) \<subseteq> insert (k, v) (set al)"
  by (induction al) auto

lemma keys_AList_update: "fst ` set (AList.update k v al) = insert k (fst ` set al)"
  by (induction al) auto

lemma AList_update_new: "k \<notin> fst ` set al \<Longrightarrow> AList.update k v al = al @ [(k, v)]"
  by (induction al) auto

lemma config_space_init_wf: "cs_wf config_space_init \<and> cs_fresh config_space_init"
  by (simp add: cs_wf_def cs_fresh_def config_space_init_def)

lemma space_getitem_nonempty: "space_getitem sp 0 = Inr e \<Longrightarrow> sp_entities sp \<noteq> []"
  by (auto simp: space_getitem_def py_get_def split: if_splits)

text \<open>
  C11. Defining a knob of any kind keeps the space well-formed: knob names stay distinct, every
  knob has at least one entity (an empty knob is an \<open>IndexError\<close>) and a current entity, and
  the other knobs are unchanged. A configuration that is no longer collecting, or a fallback
  whose knob was already set, is left as it is.
\<close>

theorem add_new_transform_wf:
  assumes "cs_wf cs" and "add_new_transform set_iter cs ct cls name axes policy kw = Inr (cs', ct', outs)"
  shows "cs_wf cs' \<and> (\<forall>n. n \<noteq> name \<longrightarrow> map_of (space_map cs') n = map_of (space_map cs) n
      \<and> map_of (entity_map cs') n = map_of (entity_map cs) n)
    \<and> (\<not> is_collect cs \<or> is_fallback cs \<and> name \<in> fst ` set (entity_map cs) \<longrightarrow> cs' = cs)"
proof (cases "is_collect cs \<and> \<not> (is_fallback cs \<and> name \<in> fst ` set (entity_map cs))")
  case True
  then obtain sp e0 where sp: "space_getitem sp 0 = Inr e0"
    and cs': "cs' = cs\<lparr>space_map := AList.update name sp (space_map cs),
        entity_map := AList.update name e0 (entity_map cs)\<rparr>"
    using assms(2) by (auto simp: add_new_transform_def res_bind_eq_Inr)
  have "sp_entities sp' \<noteq> []" if "(n, sp') \<in> set (AList.update name sp (space_map cs))" for n sp'
    using that assms(1) space_getitem_nonempty [OF sp] set_AList_update [of name sp "space_map cs"]
    by (auto simp: cs_wf_def)
  then have "cs_wf cs'"
    using assms(1) by (auto simp: cs_wf_def cs' distinct_update keys_AList_update)
  then show ?thesis using True by (auto simp: cs' update_conv')
next
  case False
  then have "cs' = cs"
    using assms(2) unfolding add_new_transform_def if_not_P [OF False] by (auto simp: res_bind_eq_Inr)
  then show ?thesis using assms(1) by simp
qed

theorem add_new_transform_wf_witness:
  "\<exists>cs' ct' outs. define_knob id config_space_init 0 ''auto_unroll'' [OInt 0, OInt 512] = Inr (cs', ct', outs)
     \<and> cs_wf cs'"
proof -
  let ?kw = "no_kwargs\<lparr>kw_candidate := Some [OInt 0, OInt 512]\<rparr>"
  obtain cs' ct' outs where
    eq: "add_new_transform id config_space_init 0 OtherOptionSpace ''auto_unroll'' [] '''' ?kw
      = Inr (cs', ct', outs)"
    by (simp add: add_new_transform_def config_space_init_def other_space_init_def kw_require_def
        space_getitem_def py_get_def)
  have "cs_wf config_space_init" using config_space_init_wf by blast
  from add_new_transform_wf [OF this eq] eq show ?thesis by (auto simp: define_knob_def)
qed

section \<open>The entity at an index\<close>

lemma cs_len_fresh:
  "cs_fresh cs \<Longrightarrow> cs_size cs = np_prod (cs_dims cs) \<and> cs_fresh (snd (cs_len cs))"
  by (auto simp: cs_len_def cs_fresh_def Let_def cs_dims_def)

lemma space_len_pos: "sp_entities sp \<noteq> [] \<Longrightarrow> 0 < space_len sp"
  by (simp add: space_len_def)

lemma cs_ready_dims: "cs_ready cs \<Longrightarrow> good_dims (cs_dims cs)"
  by (auto simp: cs_ready_def cs_wf_def good_dims_def cs_dims_def intro!: space_len_pos)

lemma cs_ready_size: "cs_ready cs \<Longrightarrow> cs_size cs = prod_list (cs_dims cs)"
  using cs_ready_dims [of cs] by (simp add: cs_ready_def cs_len_fresh np_prod_exact good_dims_def)

definition knob_entities :: "(string \<times> tspace) list \<Rightarrow> int list \<Rightarrow> (string \<times> entity) list" where
  "knob_entities m knob = map (\<lambda>((name, sp), k). (name, sp_entities sp ! nat k)) (zip m knob)"

lemma get_entities_knob:
  assumes "\<forall>(name, sp) \<in> set m. sp_entities sp \<noteq> []"
    and "point2knob t (map (space_len \<circ> snd) m) = Inr knob"
  shows "get_entities m t = Inr (knob_entities m knob)"
  using assms
proof (induction m arbitrary: t knob)
  case Nil
  then show ?case by (simp add: knob_entities_def)
next
  case (Cons nsp m)
  obtain name sp where nsp: "nsp = (name, sp)" by (cases nsp)
  with Cons.prems have pos: "0 < space_len sp" by (auto intro: space_len_pos)
  with Cons.prems nsp obtain ks where ks: "knob = t mod space_len sp # ks"
    "point2knob (t div space_len sp) (map (space_len \<circ> snd) m) = Inr ks"
    by (auto simp: res_bind_eq_Inr comp_def split: if_splits)
  have "space_getitem sp (t mod space_len sp) = Inr (sp_entities sp ! nat (t mod space_len sp))"
    using pos unfolding space_getitem_def by (intro py_get_nonneg) (auto simp: space_len_def)
  then show ?case using Cons.IH [OF _ ks(2)] Cons.prems(1) nsp ks(1) pos by (simp add: knob_entities_def)
qed

lemma cs_at_knob:
  assumes "cs_ready cs" and "0 \<le> i" and "i < cs_size cs"
  shows "\<exists>knob. point2knob i (cs_dims cs) = Inr knob \<and> in_dims knob (cs_dims cs)
    \<and> cs_at cs i = Inr (config_entity_init i (code_hash cs) (knob_entities (space_map cs) knob) (constraints cs))"
proof -
  obtain knob where knob: "point2knob i (cs_dims cs) = Inr knob" "in_dims knob (cs_dims cs)"
    using kc.to_knob_total cs_ready_dims [OF assms(1)] by blast
  have "get_entities (space_map cs) i = Inr (knob_entities (space_map cs) knob)"
    using assms(1) knob(1) by (intro get_entities_knob) (auto simp: cs_ready_def cs_wf_def cs_dims_def)
  then show ?thesis using knob assms(2,3) by (simp add: cs_get_def prod.case_eq_if)
qed

lemma cindex_init [simp]: "cindex (config_entity_init i h m cons) = i"
  and entity_map_init [simp]: "entity_map (config_entity_init i h m cons) = m"
  and code_hash_init [simp]: "code_hash (config_entity_init i h m cons) = h"
  and constraints_init [simp]: "constraints (config_entity_init i h m cons) = cons"
  by (simp_all add: config_entity_init_def config_space.defs config_entity.defs)

lemma cs_at_Inr:
  "cs_at cs i = Inr c \<Longrightarrow> 0 \<le> i \<and> i < cs_size cs \<and> cindex c = i"
  by (auto simp: cs_get_def res_bind_eq_Inr split: prod.splits if_splits)

section \<open>The contract the tuners use\<close>

text \<open>
  A space that is ready answers every index below its size, and an answer carries its index.
\<close>

locale indexed_space =
  fixes ready :: "'sp \<Rightarrow> bool"
    and size_of :: "'sp \<Rightarrow> int"
    and ent :: "'sp \<Rightarrow> int \<Rightarrow> 'c res"
    and idx :: "'c \<Rightarrow> int"
  assumes at_total: "ready sp \<Longrightarrow> 0 \<le> i \<Longrightarrow> i < size_of sp \<Longrightarrow> \<exists>c. ent sp i = Inr c"
    and at_index: "ent sp i = Inr c \<Longrightarrow> 0 \<le> i \<and> i < size_of sp \<and> idx c = i"
    and at_error: "0 \<le> size_of sp \<Longrightarrow> \<not> (0 \<le> i \<and> i < size_of sp) \<Longrightarrow> ent sp i = Inl IndexError"
begin

lemma at_inj: "ent sp i = Inr c \<Longrightarrow> ent sp j = Inr c \<Longrightarrow> i = j"
  using at_index by metis

lemma at_ready_iff: "ready sp \<Longrightarrow> (\<exists>c. ent sp i = Inr c) \<longleftrightarrow> 0 \<le> i \<and> i < size_of sp"
  using at_total at_index by blast

text \<open>A batch of answers lists the indices that were asked for.\<close>

lemma res_map_at: "res_map (ent sp) is = Inr cfgs \<Longrightarrow> map idx cfgs = is"
  using at_index by (auto simp: res_map_Inr intro!: nth_equalityI)

lemma res_map_at_total:
  assumes "ready sp" and "\<forall>i \<in> set is. 0 \<le> i \<and> i < size_of sp"
  shows "\<exists>cfgs. res_map (ent sp) is = Inr cfgs \<and> map idx cfgs = is"
  using assms(2)
proof (induction "is")
  case Nil
  then show ?case by simp
next
  case (Cons i "is")
  then obtain cfgs where "res_map (ent sp) is = Inr cfgs" "map idx cfgs = is" by auto
  moreover obtain c where "ent sp i = Inr c" "idx c = i"
    using Cons.prems at_total [OF assms(1)] at_index by (metis list.set_intros(1))
  ultimately show ?case by auto
qed

end

interpretation csp: indexed_space cs_ready cs_size cs_at cindex
proof unfold_locales
  show "\<exists>c. cs_at cs i = Inr c" if "cs_ready cs" "0 \<le> i" "i < cs_size cs"
    for cs :: "'z config_space_scheme" and i
    using cs_at_knob [OF that] by blast
  show "0 \<le> i \<and> i < cs_size cs \<and> cindex c = i" if "cs_at cs i = Inr c"
    for cs :: "'z config_space_scheme" and i c
    using cs_at_Inr [OF that] .
  show "cs_at cs i = Inl IndexError" if "0 \<le> cs_size cs" "\<not> (0 \<le> i \<and> i < cs_size cs)"
    for cs :: "'z config_space_scheme" and i
    using that by (auto simp: cs_get_def split: prod.splits)
qed

text \<open>
  C7. The space is a numbering of the knob combinations: on a ready space every index below
  \<open>len\<close> gives the configuration whose value for each knob is the digit of the index in the
  mixed-radix system of the knob sizes, and every digit vector is reached at the index
  \<open>knob2point\<close> computes; any other index raises \<open>IndexError\<close>.
\<close>

theorem config_space_numbering:
  assumes "cs_ready cs"
  shows "(\<forall>i. 0 \<le> i \<and> i < cs_size cs \<longrightarrow>
            (\<exists>knob c. point2knob i (cs_dims cs) = Inr knob \<and> cs_at cs i = Inr c \<and> cindex c = i
               \<and> entity_map c = knob_entities (space_map cs) knob))
    \<and> (\<forall>knob. in_dims knob (cs_dims cs) \<longrightarrow>
            (\<exists>c. cs_at cs (knob2point knob (cs_dims cs)) = Inr c
               \<and> entity_map c = knob_entities (space_map cs) knob))
    \<and> (\<forall>i. i < 0 \<or> i \<ge> cs_size cs \<longrightarrow> cs_at cs i = Inl IndexError)"
proof (intro conjI allI impI)
  fix i assume "0 \<le> i \<and> i < cs_size cs"
  then show "\<exists>knob c. point2knob i (cs_dims cs) = Inr knob \<and> cs_at cs i = Inr c \<and> cindex c = i
      \<and> entity_map c = knob_entities (space_map cs) knob"
    using cs_at_knob [OF assms] by fastforce
next
  fix knob assume knob: "in_dims knob (cs_dims cs)"
  note dims = cs_ready_dims [OF assms]
  have "0 \<le> knob2point knob (cs_dims cs)" "knob2point knob (cs_dims cs) < cs_size cs"
    using kc.to_point_range [OF dims knob] cs_ready_size [OF assms] by auto
  then show "\<exists>c. cs_at cs (knob2point knob (cs_dims cs)) = Inr c
      \<and> entity_map c = knob_entities (space_map cs) knob"
    using cs_at_knob [OF assms] kc.to_knob_to_point [OF dims knob] by fastforce
next
  fix i assume "i < 0 \<or> i \<ge> cs_size cs"
  moreover have "0 \<le> cs_size cs"
    using cs_ready_size [OF assms] prod_list_pos [of "cs_dims cs"] cs_ready_dims [OF assms] by (simp add: good_dims_def)
  ultimately show "cs_at cs i = Inl IndexError" by (intro csp.at_error) auto
qed

definition sample_space :: config_space where
  "sample_space = config_space_init\<lparr>
     space_map := [(''tile'', \<lparr>sp_class = SplitSpace, sp_policy = ''factors'', sp_product = 4,
                      sp_num_output = 2, sp_entities = [SplitEntity (ints [-1, 1]),
                        SplitEntity (ints [-1, 2]), SplitEntity (ints [-1, 4])]\<rparr>),
                   (''unroll'', \<lparr>sp_class = OtherOptionSpace, sp_policy = '''', sp_product = 0,
                      sp_num_output = 0, sp_entities = [OtherOptionEntity (OInt 0),
                        OtherOptionEntity (OInt 512)]\<rparr>)],
     entity_map := [(''tile'', SplitEntity (ints [-1, 1])), (''unroll'', OtherOptionEntity (OInt 0))]\<rparr>"

lemma sample_space_ready: "cs_ready sample_space"
  by (simp add: sample_space_def cs_ready_def cs_wf_def cs_fresh_def cs_dims_def space_len_def
      config_space_init_def)

theorem config_space_numbering_witness:
  "cs_ready sample_space \<and> cs_size sample_space = 6
   \<and> (\<exists>c. cs_at sample_space (knob2point [2, 1] (cs_dims sample_space)) = Inr c
        \<and> entity_map c = knob_entities (space_map sample_space) [2, 1])"
proof -
  have "in_dims [2, 1] (cs_dims sample_space)"
    by (simp add: sample_space_def cs_dims_def space_len_def in_dims_def)
  moreover have "cs_size sample_space = 6"
    using cs_ready_size [OF sample_space_ready]
    by (simp add: sample_space_def cs_dims_def space_len_def)
  ultimately show ?thesis
    using config_space_numbering [OF sample_space_ready] sample_space_ready by blast
qed

text \<open>
  C14. The size is computed in 64-bit arithmetic: a space of 64 knobs with two entities each has
  \<open>len\<close> 0 although it has \<open>2 ^ 64\<close> configurations, and no index is accepted.
\<close>

theorem config_space_size_overflow:
  assumes "cached_length cs = None" and "cs_dims cs = replicate 64 2"
  shows "cs_size cs = 0 \<and> prod_list (cs_dims cs) = 2 ^ 64 \<and> cs_at cs i = Inl IndexError"
proof -
  have "prod_list (cs_dims cs) = 2 ^ 64" using assms(2) by (simp add: prod_list_replicate)
  moreover from this have "cs_size cs = 0"
    using assms(1) by (simp add: cs_len_def np_prod_wrap wrap64_def)
  moreover from this have "cs_at cs i = Inl IndexError" by (intro csp.at_error) auto
  ultimately show ?thesis by simp
qed

definition two_options :: tspace where
  "two_options = \<lparr>sp_class = OtherOptionSpace, sp_policy = '''', sp_product = 0, sp_num_output = 0,
     sp_entities = [OtherOptionEntity (OInt 0), OtherOptionEntity (OInt 1)]\<rparr>"

lemma space_len_two_options: "space_len two_options = 2"
  by (simp add: two_options_def space_len_def)

lemma cs_dims_options:
  "cs_dims (cs\<lparr>space_map := map (\<lambda>i. (nm i, sp)) xs\<rparr>) = replicate (length xs) (space_len sp)"
  by (simp add: cs_dims_def comp_def map_replicate_const del: upt_rec_numeral)

theorem config_space_size_overflow_witness:
  "cs_size (config_space_init\<lparr>space_map := map (\<lambda>i. (str_of_nat i, two_options)) [0..<64]\<rparr>) = 0"
proof -
  let ?cs = "config_space_init\<lparr>space_map := map (\<lambda>i. (str_of_nat i, two_options)) [0..<64]\<rparr>"
  have "cached_length ?cs = None" by (simp add: config_space_init_def)
  moreover have "cs_dims ?cs = replicate 64 2" by (simp add: cs_dims_options space_len_two_options)
  ultimately show ?thesis using config_space_size_overflow [of ?cs 0] by blast
qed

section \<open>JSON\<close>

lemma trip_entities:
  assumes "\<forall>(k, e) \<in> set m. json_plain (payload e)"
  shows "res_map json_trip (map (\<lambda>(k, e). OTuple [OStr k, OStr (knob_type e), payload e]) m)
    = Inr (map (\<lambda>(k, e). OList [OStr k, OStr (knob_type e), payload e]) m)"
  using assms by (induction m) (auto simp: json_trip_plain)

lemma entity_of_json_item:
  "entity_of_json (OList [OStr k, OStr (knob_type e), payload e]) = Inr (k, e)"
  by (cases e) (simp_all add: entity_of_json_def)

lemma foldl_entities:
  assumes "distinct (map fst (acc @ m))"
  shows "res_foldl (\<lambda>m item. res_bind (entity_of_json item) (\<lambda>(k, e). Inr (AList.update k e m))) acc
      (map (\<lambda>(k, e). OList [OStr k, OStr (knob_type e), payload e]) m) = Inr (acc @ m)"
  using assms
proof (induction m arbitrary: acc)
  case Nil
  then show ?case by simp
next
  case (Cons ke m)
  obtain k e where ke: "ke = (k, e)" by (cases ke)
  have "AList.update k e acc = acc @ [(k, e)]" using Cons.prems ke by (intro AList_update_new) auto
  then show ?case using Cons.IH [of "acc @ [(k, e)]"] Cons.prems ke
    by (simp add: entity_of_json_item)
qed

lemma config_json_trip:
  assumes "distinct (map fst (entity_map c))" and "\<forall>(k, e) \<in> set (entity_map c). json_plain (payload e)"
  shows "\<exists>j. json_trip (to_json_dict c) = Inr j
    \<and> from_json_dict j = Inr (config_entity_init (cindex c) (code_hash c) (entity_map c) [])"
proof -
  let ?j = "ODict [(''index'', OInt (cindex c)), (''code_hash'', hash_obj (code_hash c)),
      (''entity'', OList (map (\<lambda>(k, e). OList [OStr k, OStr (knob_type e), payload e]) (entity_map c)))]"
  have "json_trip (hash_obj (code_hash c)) = Inr (hash_obj (code_hash c))"
    by (simp add: hash_obj_def split: option.splits)
  then have "json_trip (to_json_dict c) = Inr ?j"
    using trip_entities [OF assms(2)] by (simp add: to_json_dict_def)
  moreover have "from_json_dict ?j
      = Inr (config_entity_init (cindex c) (code_hash c) (entity_map c) [])"
    using foldl_entities [of "[]" "entity_map c"] assms(1)
    by (cases "code_hash c") (simp_all add: from_json_dict_def hash_obj_def)
  ultimately show ?thesis by blast
qed

text \<open>
  C32. A configuration survives the log: for a configuration with distinct knob names whose
  entities hold JSON values, reading back the dumped \<open>to_json_dict\<close> gives a configuration with
  the same index, code hash and entities.
\<close>

theorem config_json_roundtrip:
  assumes "distinct (map fst (entity_map c))" and "\<forall>(k, e) \<in> set (entity_map c). json_plain (payload e)"
  shows "\<exists>j. json_trip (to_json_dict c) = Inr j
    \<and> from_json_dict j = Inr (config_entity_init (cindex c) (code_hash c) (entity_map c) [])"
  by (rule config_json_trip [OF assms])

definition sample_entity :: config_entity where
  "sample_entity = config_entity_init 5 None
     [(''tile'', SplitEntity (ints [-1, 4])), (''unroll'', OtherOptionEntity (OInt 512))] []"

theorem config_json_roundtrip_witness:
  "\<exists>j. json_trip (to_json_dict sample_entity) = Inr j
    \<and> from_json_dict j = Inr (config_entity_init (cindex sample_entity) (code_hash sample_entity)
        (entity_map sample_entity) [])"
  by (rule config_json_roundtrip) (simp_all add: sample_entity_def)

lemma res_map_error: "res_map f xs = Inl err \<Longrightarrow> \<exists>x \<in> set xs. f x = Inl err"
  by (induction xs) (auto simp: res_bind_eq_Inl)

lemma json_trip_error: "json_trip x = Inl err \<Longrightarrow> err = TypeErr"
proof (induction x arbitrary: err rule: json_trip.induct)
  case (1 xs)
  then show ?case by (auto simp: res_bind_eq_Inl dest!: res_map_error)
next
  case (2 xs)
  then show ?case by (auto simp: res_bind_eq_Inl dest!: res_map_error)
next
  case (3 kvs)
  then show ?case by (auto simp: res_bind_eq_Inl dest!: res_map_error)
qed auto

lemma res_map_member: "res_map f xs = Inr ys \<Longrightarrow> x \<in> set xs \<Longrightarrow> \<exists>y. f x = Inr y"
  by (auto simp: res_map_Inr in_set_conv_nth)

text \<open>
  A reorder knob with the policy \<open>identity\<close> cannot be logged as JSON: its entity keeps a
  Python \<open>range\<close> object, so dumping any configuration that contains it raises \<open>TypeError\<close>.
\<close>

theorem identity_reorder_not_dumpable:
  assumes "reorder_space_init axes ''identity'' kw = Inr sp" and "e \<in> set (sp_entities sp)"
    and "(name, e) \<in> set (entity_map c)"
  shows "json_trip (to_json_dict c) = Inl TypeErr"
proof (cases "json_trip (to_json_dict c)")
  case (Inl err)
  then show ?thesis using json_trip_error by blast
next
  case (Inr j)
  have e: "e = ReorderEntity (ORange (length axes))"
    using assms(1,2) by (auto simp: reorder_space_init_def reorder_entities_def)
  from Inr obtain ys where
    "res_map json_trip (map (\<lambda>(k, e). OTuple [OStr k, OStr (knob_type e), payload e]) (entity_map c)) = Inr ys"
    by (auto simp: to_json_dict_def res_bind_eq_Inr)
  moreover have "OTuple [OStr name, OStr (knob_type e), payload e]
      \<in> set (map (\<lambda>(k, e). OTuple [OStr k, OStr (knob_type e), payload e]) (entity_map c))"
    using assms(3) by force
  ultimately obtain y where "json_trip (OTuple [OStr name, OStr (knob_type e), payload e]) = Inr y"
    by (blast dest: res_map_member)
  then show ?thesis by (simp add: e)
qed

theorem identity_reorder_not_dumpable_witness:
  "json_trip (to_json_dict (config_entity_init 0 None [(''order'', ReorderEntity (ORange 2))] [])) = Inl TypeErr"
  by (rule identity_reorder_not_dumpable [where axes = "[0, 1 :: nat]" and kw = no_kwargs
        and name = "''order''" and e = "ReorderEntity (ORange 2)"
        and sp = "\<lparr>sp_class = ReorderSpace, sp_policy = ''identity'', sp_product = 0,
          sp_num_output = 2, sp_entities = [ReorderEntity (ORange 2)]\<rparr>"])
    (simp_all add: reorder_space_init_def reorder_entities_def)

end
