(* ===== verification/Fallback.thy ===== *)
theory Fallback
  imports ConfigSpaceCorrect SpaceCorrect
begin

text \<open>
  \<open>FallbackConfigEntity\<close> of \<open>autotvm/task/space.py\<close>, which adjusts the entities of an untuned
  configuration in place. The entity stored under a name is the first entity object of its
  space, and \<open>fallback_with_reference_log\<close> stores entity objects of other configurations, so
  the class is modelled over an explicit store: \<open>fb_heap\<close> holds the entity objects and the maps
  hold their addresses. \<open>fb_view\<close> forgets the addresses and gives back the value model of
  \<open>ConfigSpace\<close>.

  An operation that raises after it has written to the store returns the store it leaves beside
  the exception.
\<close>

section \<open>State\<close>

record fb_space =
  fs_class :: space_class
  fs_policy :: string
  fs_product :: int
  fs_num_output :: int
  fs_entities :: "nat list"

record fallback_entity =
  fb_heap :: "entity list"
  fb_space_map :: "(string \<times> fb_space) list"
  fb_entity_map :: "(string \<times> nat) list"

definition fallback_init :: "entity list \<Rightarrow> fallback_entity" where
  "fallback_init h = \<lparr>fb_heap = h, fb_space_map = [], fb_entity_map = []\<rparr>"

definition deref :: "entity list \<Rightarrow> nat \<Rightarrow> entity res" where
  "deref h a = (if a < length h then Inr (h ! a) else Inl KeyError)"

definition lookup :: "(string \<times> 'v) list \<Rightarrow> string \<Rightarrow> 'v res" where
  "lookup m name = (case map_of m name of None \<Rightarrow> Inl KeyError | Some v \<Rightarrow> Inr v)"

definition fb_space_view :: "entity list \<Rightarrow> fb_space \<Rightarrow> tspace" where
  "fb_space_view h s = \<lparr>sp_class = fs_class s, sp_policy = fs_policy s, sp_product = fs_product s,
     sp_num_output = fs_num_output s, sp_entities = map (\<lambda>a. h ! a) (fs_entities s)\<rparr>"

definition fb_view :: "fallback_entity \<Rightarrow> config_space" where
  "fb_view f = config_space_init\<lparr>is_fallback := True,
     space_map := map (\<lambda>(k, s). (k, fb_space_view (fb_heap f) s)) (fb_space_map f),
     entity_map := map (\<lambda>(k, a). (k, fb_heap f ! a)) (fb_entity_map f)\<rparr>"

text \<open>Every address stored in the maps is an object of the store.\<close>

definition fb_wf :: "fallback_entity \<Rightarrow> bool" where
  "fb_wf f \<longleftrightarrow> (\<forall>(k, s) \<in> set (fb_space_map f). \<forall>a \<in> set (fs_entities s). a < length (fb_heap f))
     \<and> (\<forall>(k, a) \<in> set (fb_entity_map f). a < length (fb_heap f))"

section \<open>Operations\<close>

text \<open>
  \<open>_add_new_transform\<close> on a fallback entity: the new space allocates its entity objects, and the
  entity map refers to the first of them.
\<close>

definition fb_add_new_transform ::
  "(int list \<Rightarrow> int list) \<Rightarrow> fallback_entity \<Rightarrow> nat \<Rightarrow> space_class \<Rightarrow> string \<Rightarrow> axis_arg list \<Rightarrow>
   string \<Rightarrow> axis space_kwargs \<Rightarrow> (fallback_entity \<times> nat \<times> axis list) res" where
  "fb_add_new_transform set_iter f ct cls name axes policy kw =
     (if name \<notin> fst ` set (fb_entity_map f) then
        res_bind (convert_axes ct axes) (\<lambda>(axes', ct').
        res_bind (space_init set_iter cls axes' policy kw) (\<lambda>sp.
        let n = length (fb_heap f);
            s = \<lparr>fs_class = sp_class sp, fs_policy = sp_policy sp, fs_product = sp_product sp,
                 fs_num_output = sp_num_output sp,
                 fs_entities = [n..<n + length (sp_entities sp)]\<rparr>
        in res_bind (py_get (fs_entities s) 0) (\<lambda>a0.
             Inr (\<lparr>fb_heap = fb_heap f @ sp_entities sp,
                   fb_space_map = AList.update name s (fb_space_map f),
                   fb_entity_map = AList.update name a0 (fb_entity_map f)\<rparr>,
                  ct', out_axes (sp_num_output sp)))))
      else res_bind (get_num_output cls axes kw) (\<lambda>n. Inr (f, ct, out_axes n)))"

text \<open>The search \<open>for j, f in enumerate(factors)\<close> for the last factor within the constraint.\<close>

fun fallback_find :: "int list \<Rightarrow> int \<Rightarrow> int \<Rightarrow> int \<Rightarrow> int" where
  "fallback_find [] c j found = found"
| "fallback_find (f # fs) c j found = (if f > c then j - 1 else fallback_find fs c (j + 1) found)"

text \<open>\<open>entity.size[i] = v\<close>; only a list of a split entity can be written.\<close>

definition set_size :: "entity \<Rightarrow> nat \<Rightarrow> int \<Rightarrow> entity res" where
  "set_size e i v =
     (case e of
        SplitEntity (OList xs) \<Rightarrow>
          if i < length xs then Inr (SplitEntity (OList (xs[i := OInt v]))) else Inl IndexError
      | SplitEntity _ \<Rightarrow> Inl TypeErr
      | _ \<Rightarrow> Inl AttributeError)"

fun fallback_loop ::
  "nat \<Rightarrow> int list \<Rightarrow> nat list \<Rightarrow> int \<Rightarrow> entity list \<Rightarrow> entity list \<times> int res" where
  "fallback_loop a cons [] now h = (h, Inr now)"
| "fallback_loop a cons (i # is) now h =
     (case get_factors now of
        Inl err \<Rightarrow> (h, Inl err)
      | Inr factors \<Rightarrow>
          let find = fallback_find factors (cons ! i) 0 (int (length factors) - 1)
          in if find \<ge> 0 then
               case res_bind (deref h a) (\<lambda>e. set_size e i (factors ! nat find)) of
                 Inl err \<Rightarrow> (h, Inl err)
               | Inr e \<Rightarrow> fallback_loop a cons is (now div (factors ! nat find)) (h[a := e])
             else (h, Inl RuntimeError))"

definition fallback_split ::
  "fallback_entity \<Rightarrow> string \<Rightarrow> int list \<Rightarrow> fallback_entity \<times> unit res" where
  "fallback_split f name caps =
     (case lookup (fb_space_map f) name of
        Inl err \<Rightarrow> (f, Inl err)
      | Inr s \<Rightarrow>
          if fs_class s \<noteq> SplitSpace then (f, Inl AssertionError)
          else if int (length caps) \<noteq> fs_num_output s then (f, Inl AssertionError)
          else
            let cons = map (\<lambda>x. if x \<noteq> -1 then x else 10 ^ 10) caps
            in case lookup (fb_entity_map f) name of
                 Inl err \<Rightarrow> (f, Inl err)
               | Inr a \<Rightarrow>
                   let (h, r) = fallback_loop a cons (rev [0..<nat (fs_num_output s)]) (fs_product s) (fb_heap f)
                   in (f\<lparr>fb_heap := h\<rparr>, res_bind r (\<lambda>_. Inr ())))"

text \<open>
  The matching loop of \<open>fallback_with_reference_log\<close>. A reference configuration is its entity
  map, whose entity objects live in the same store.
\<close>

type_synonym ref_cfg = "(string \<times> nat) list"

definition ref_size :: "entity list \<Rightarrow> ref_cfg \<Rightarrow> string \<Rightarrow> int list res" where
  "ref_size h cfg name =
     res_bind (lookup cfg name) (\<lambda>a.
     res_bind (deref h a) (\<lambda>e.
       case e of SplitEntity sz \<Rightarrow> obj_ints sz | _ \<Rightarrow> Inl AttributeError))"

fun match_knobs ::
  "entity list \<Rightarrow> ref_cfg \<Rightarrow> (string \<times> int list) list \<Rightarrow> rat \<Rightarrow> rat \<times> ref_cfg option \<Rightarrow>
   (rat \<times> ref_cfg option) res" where
  "match_knobs h cfg [] score best = Inr best"
| "match_knobs h cfg ((name, fl) # ks) score best =
     res_bind (ref_size h cfg name) (\<lambda>sz.
     res_bind (get_factors (np_prod sz)) (\<lambda>factors.
       let score' = score + of_nat (card (set fl \<inter> set factors)) / of_nat (length fl);
           best' = (if score' > fst best then (score', Some cfg) else best)
       in match_knobs h cfg ks score' best'))"

definition best_match ::
  "entity list \<Rightarrow> (string \<times> int list) list \<Rightarrow> ref_cfg list \<Rightarrow> ref_cfg option res" where
  "best_match h knobs ref_log =
     res_bind (res_foldl (\<lambda>best cfg. match_knobs h cfg knobs 0 best) (0, None) ref_log)
       (\<lambda>best. Inr (snd best))"

fun mimic_splits :: "ref_cfg \<Rightarrow> string list \<Rightarrow> fallback_entity \<Rightarrow> fallback_entity \<times> unit res" where
  "mimic_splits cfg [] f = (f, Inr ())"
| "mimic_splits cfg (name # names) f =
     (case ref_size (fb_heap f) cfg name of
        Inl err \<Rightarrow> (f, Inl err)
      | Inr [] \<Rightarrow> (f, Inl IndexError)
      | Inr (c # cs) \<Rightarrow>
          case fallback_split f name (-1 # cs) of
            (f', Inl err) \<Rightarrow> (f', Inl err)
          | (f', Inr _) \<Rightarrow> mimic_splits cfg names f')"

fun copy_knobs :: "ref_cfg \<Rightarrow> string list \<Rightarrow> fallback_entity \<Rightarrow> fallback_entity \<times> unit res" where
  "copy_knobs cfg [] f = (f, Inr ())"
| "copy_knobs cfg (name # names) f =
     (case lookup cfg name of
        Inl err \<Rightarrow> (f, Inl err)
      | Inr a \<Rightarrow> copy_knobs cfg names (f\<lparr>fb_entity_map := AList.update name a (fb_entity_map f)\<rparr>))"

definition fallback_with_reference_log ::
  "fallback_entity \<Rightarrow> ref_cfg list \<Rightarrow> fallback_entity \<times> unit res" where
  "fallback_with_reference_log f ref_log =
     (let splits = filter (\<lambda>(k, s). fs_class s = SplitSpace) (fb_space_map f);
          others = filter (\<lambda>(k, s). fs_class s \<noteq> SplitSpace) (fb_space_map f)
      in case res_bind (res_map (\<lambda>(k, s). res_bind (get_factors (fs_product s)) (\<lambda>fl. Inr (k, fl))) splits)
                (\<lambda>knobs. best_match (fb_heap f) knobs ref_log) of
           Inl err \<Rightarrow> (f, Inl err)
         | Inr None \<Rightarrow> (f, Inr ())
         | Inr (Some cfg) \<Rightarrow>
             (case mimic_splits cfg (map fst splits) f of
                (f', Inl err) \<Rightarrow> (f', Inl err)
              | (f', Inr _) \<Rightarrow> copy_knobs cfg (map fst others) f'))"

text \<open>\<open>__setitem__\<close> stores a reference to the given entity object.\<close>

definition fb_setitem :: "fallback_entity \<Rightarrow> string \<Rightarrow> nat \<Rightarrow> fallback_entity" where
  "fb_setitem f name a = f\<lparr>fb_entity_map := AList.update name a (fb_entity_map f)\<rparr>"

end
