(* ===== verification/FallbackCorrect.thy ===== *)
theory FallbackCorrect
  imports Fallback
begin

text \<open>
  Correctness of \<open>FallbackConfigEntity\<close>: the greedy split of \<open>fallback_split\<close>, the refinement of
  the value model of \<open>ConfigSpace\<close> while knobs are defined, and the reference configuration that
  \<open>fallback_with_reference_log\<close> chooses.
\<close>

section \<open>The greedy split\<close>

lemma fallback_find_takeWhile:
  "fallback_find fs c j (j + int (length fs) - 1) = j + int (length (takeWhile (\<lambda>f. f \<le> c) fs)) - 1"
proof (induction fs arbitrary: j)
  case (Cons f fs)
  show ?case using Cons.IH [of "j + 1"] by (simp add: algebra_simps)
qed simp

lemma takeWhile_sorted_set:
  "sorted fs \<Longrightarrow> set (takeWhile (\<lambda>f. f \<le> (c :: int)) fs) = {d \<in> set fs. d \<le> c}"
  by (induction fs) auto

lemma fallback_find_Max:
  assumes "sorted fs" and "d0 \<in> set fs" and "d0 \<le> c"
  shows "0 \<le> fallback_find fs c 0 (int (length fs) - 1)"
    and "fs ! nat (fallback_find fs c 0 (int (length fs) - 1)) = Max {d \<in> set fs. d \<le> c}"
proof -
  let ?t = "takeWhile (\<lambda>f. f \<le> c) fs"
  have find: "fallback_find fs c 0 (int (length fs) - 1) = int (length ?t) - 1"
    using fallback_find_takeWhile [of fs c 0] by simp
  have tset: "set ?t = {d \<in> set fs. d \<le> c}" using assms(1) by (rule takeWhile_sorted_set)
  then have ne: "?t \<noteq> []" using assms(2,3) by force
  then show "0 \<le> fallback_find fs c 0 (int (length fs) - 1)" by (cases ?t) (auto simp: find)
  have "sorted ?t" using assms(1) by (simp add: sorted_wrt_takeWhile)
  then have "last ?t = Max (set ?t)"
    using ne by (intro Max_eqI [symmetric])
      (simp, force simp: sorted_iff_nth_mono last_conv_nth in_set_conv_nth, metis last_in_set)
  moreover have "fs ! (length ?t - 1) = last ?t"
    using ne by (simp add: last_conv_nth takeWhile_nth)
  moreover have "nat (int (length ?t) - 1) = length ?t - 1" by simp
  ultimately show "fs ! nat (fallback_find fs c 0 (int (length fs) - 1)) = Max {d \<in> set fs. d \<le> c}"
    by (simp add: find tset)
qed

text \<open>The largest divisor of \<open>n\<close> that the cap \<open>c\<close> allows.\<close>

definition max_divisor :: "int \<Rightarrow> int \<Rightarrow> int" where
  "max_divisor n c = Max {d. 0 < d \<and> d dvd n \<and> d \<le> c}"

lemma max_divisor_props:
  assumes "1 \<le> n" and "1 \<le> c"
  shows "0 < max_divisor n c" and "max_divisor n c dvd n" and "max_divisor n c \<le> c"
    and "n \<le> c \<Longrightarrow> max_divisor n c = n"
proof -
  let ?S = "{d. 0 < d \<and> d dvd n \<and> d \<le> c}"
  have "?S \<subseteq> {0..c}" by auto
  then have fin: "finite ?S" by (rule finite_subset) simp
  have "1 \<in> ?S" using assms by simp
  then have "Max ?S \<in> ?S" using fin by (intro Max_in) blast+
  then show "0 < max_divisor n c" and "max_divisor n c dvd n" and "max_divisor n c \<le> c"
    by (auto simp: max_divisor_def)
  show "max_divisor n c = n" if "n \<le> c"
    unfolding max_divisor_def using fin that assms by (intro Max_eqI) (auto dest: zdvd_imp_le)
qed

lemma fallback_factor:
  assumes "1 \<le> now" and "1 \<le> c"
  shows "\<exists>fs. get_factors now = Inr fs \<and> 0 \<le> fallback_find fs c 0 (int (length fs) - 1)
    \<and> fs ! nat (fallback_find fs c 0 (int (length fs) - 1)) = max_divisor now c"
proof -
  obtain fs where fs: "get_factors now = Inr fs" "sorted fs" "set fs = {d. 0 < d \<and> d dvd now}"
    using get_factors_Inr [OF assms(1)] by blast
  have "1 \<in> set fs" using fs(3) by simp
  from fallback_find_Max [OF fs(2) this assms(2)] fs show ?thesis
    by (auto simp: max_divisor_def conj_ac intro!: arg_cong [where f = Max])
qed

lemma fallback_loop_greedy:
  assumes "a < length h" and "h ! a = SplitEntity (ints sz)" and "k \<le> length sz"
    and "1 \<le> now" and "\<forall>i < k. 1 \<le> caps ! i"
  shows "\<exists>ys now'. fallback_loop a caps (rev [0..<k]) now h
      = (h[a := SplitEntity (ints (ys @ drop k sz))], Inr now')
    \<and> length ys = k \<and> (\<forall>y \<in> set ys. 0 < y) \<and> 1 \<le> now' \<and> now = now' * prod_list ys
    \<and> (\<forall>i < k. ys ! i = max_divisor (now div prod_list (drop (Suc i) ys)) (caps ! i))"
  using assms
proof (induction k arbitrary: now h sz)
  case 0
  then have "h[a := SplitEntity (ints sz)] = h" by (metis list_update_id)
  then show ?case using 0 by simp
next
  case (Suc k)
  let ?d = "max_divisor now (caps ! k)"
  have cap: "1 \<le> caps ! k" using Suc.prems by simp
  note d = max_divisor_props [OF \<open>1 \<le> now\<close> cap]
  obtain fs where fs: "get_factors now = Inr fs" "0 \<le> fallback_find fs (caps ! k) 0 (int (length fs) - 1)"
    "fs ! nat (fallback_find fs (caps ! k) 0 (int (length fs) - 1)) = ?d"
    using fallback_factor [OF \<open>1 \<le> now\<close> cap] by blast
  let ?h = "h[a := SplitEntity (ints (sz[k := ?d]))]"
  have step: "fallback_loop a caps (rev [0..<Suc k]) now h
      = fallback_loop a caps (rev [0..<k]) (now div ?d) ?h"
    using fs Suc.prems by (simp add: deref_def set_size_def Let_def map_update)
  have pos: "1 \<le> now div ?d" using d(1,2) Suc.prems(4)
    by (simp add: int_one_le_iff_zero_less pos_imp_zdiv_pos_iff zdvd_imp_le)
  from Suc.IH [of ?h "sz[k := ?d]" "now div ?d"] Suc.prems pos
  obtain ys now' where ys: "fallback_loop a caps (rev [0..<k]) (now div ?d) ?h
      = (?h[a := SplitEntity (ints (ys @ drop k (sz[k := ?d])))], Inr now')"
    "length ys = k" "\<forall>y \<in> set ys. 0 < y" "1 \<le> now'" "now div ?d = now' * prod_list ys"
    "\<forall>i < k. ys ! i = max_divisor (now div ?d div prod_list (drop (Suc i) ys)) (caps ! i)"
    by auto
  have "drop k (sz[k := ?d]) = ?d # drop (Suc k) sz"
    using Suc.prems(3)
    by (metis Cons_nth_drop_Suc Suc_le_lessD drop_update_cancel length_list_update lessI nth_list_update_eq)
  then have "fallback_loop a caps (rev [0..<Suc k]) now h
      = (h[a := SplitEntity (ints ((ys @ [?d]) @ drop (Suc k) sz))], Inr now')"
    using ys(1) step by simp
  moreover have "now = now' * prod_list (ys @ [?d])"
    using ys(5) d(2)
    by (metis dvd_div_mult_self mult.assoc mult.right_neutral prod_list.Cons prod_list.Nil prod_list.append)
  moreover have "(ys @ [?d]) ! i = max_divisor (now div prod_list (drop (Suc i) (ys @ [?d]))) (caps ! i)"
    if "i < Suc k" for i
  proof (cases "i = k")
    case True
    then show ?thesis using ys(2) by (simp add: nth_append)
  next
    case False
    then have "i < k" using that by simp
    have "0 < prod_list (drop (Suc i) ys)" using ys(3) by (auto intro: prod_list_pos dest: in_set_dropD)
    then have "now div prod_list (drop (Suc i) (ys @ [?d])) = now div ?d div prod_list (drop (Suc i) ys)"
      using \<open>i < k\<close> ys(2) by (simp add: zdiv_zmult2_eq mult.commute [of _ ?d] prod_list.append)
    then show ?thesis using \<open>i < k\<close> ys(2,6) by (simp add: nth_append)
  qed
  ultimately show ?case using ys(2,3,4) d(1) by (intro exI [of _ "ys @ [?d]"] exI [of _ now']) auto
qed

lemma lookup_Inr [simp]: "lookup m k = Inr v \<longleftrightarrow> map_of m k = Some v"
  by (simp add: lookup_def split: option.splits)

text \<open>
  C8. \<open>fallback_split\<close> with an open first dimension succeeds, writes into the stored entity
  object and nowhere else, and its sizes multiply to the axis length. Every size but the first is
  the largest divisor of what the later dimensions leave that its constraint allows.
\<close>

theorem fallback_split_greedy:
  assumes "map_of (fb_space_map f) name = Some s" and "fs_class s = SplitSpace"
    and "fs_num_output s = int (length (-1 # caps))" and "1 \<le> fs_product s" and "fs_product s \<le> 10 ^ 10"
    and "map_of (fb_entity_map f) name = Some a" and "a < length (fb_heap f)"
    and "fb_heap f ! a = SplitEntity (ints sz)" and "length sz = length (-1 # caps)"
    and "\<forall>c \<in> set caps. 1 \<le> c"
  shows "\<exists>y ys. fallback_split f name (-1 # caps)
      = (f\<lparr>fb_heap := (fb_heap f)[a := SplitEntity (ints (y # ys))]\<rparr>, Inr ())
    \<and> length ys = length caps \<and> prod_list (y # ys) = fs_product s
    \<and> (\<forall>i < length caps.
         ys ! i = max_divisor (fs_product s div prod_list (drop (Suc i) ys)) (caps ! i))"
proof -
  let ?n = "fs_product s"
  let ?cons = "map (\<lambda>x. if x \<noteq> -1 then x else 10 ^ 10) (-1 # caps)"
  have cons: "?cons = 10 ^ 10 # caps" using assms(10) by (auto intro!: map_idI)
  have ge: "\<forall>i < Suc (length caps). 1 \<le> ?cons ! i" using assms(10) by (auto simp: cons nth_Cons')
  have le: "Suc (length caps) \<le> length sz" using assms(9) by simp
  from fallback_loop_greedy [OF assms(7,8) le assms(4) ge]
  obtain zs now where zs: "fallback_loop a ?cons (rev [0..<Suc (length caps)]) ?n (fb_heap f)
      = ((fb_heap f)[a := SplitEntity (ints zs)], Inr now)"
    "length zs = Suc (length caps)" "\<forall>z \<in> set zs. 0 < z" "1 \<le> now" "?n = now * prod_list zs"
    "\<forall>i < Suc (length caps). zs ! i = max_divisor (?n div prod_list (drop (Suc i) zs)) (?cons ! i)"
    using assms(9) by (auto simp del: upt_Suc)
  obtain y ys where yys: "zs = y # ys" using zs(2) by (cases zs) auto
  let ?P = "prod_list ys"
  have P: "0 < ?P" and y: "0 < y" using zs(3) yys by (auto intro: prod_list_pos)
  have rest: "?n div ?P = now * y" using zs(5) yys P by simp
  have "now * y * 1 \<le> now * y * ?P" using P y zs(4) by (intro mult_left_mono) auto
  then have "now * y \<le> 10 ^ 10" using zs(5) yys assms(5) by simp
  moreover have "1 \<le> now * y" using y zs(4) by (simp add: int_one_le_iff_zero_less)
  ultimately have "max_divisor (now * y) (10 ^ 10) = now * y" by (intro max_divisor_props(4)) auto
  moreover have "zs ! 0 = max_divisor (?n div ?P) (10 ^ 10)"
    using zs(6) [rule_format, of 0] by (simp only: cons yys) simp
  ultimately have "y = now * y" unfolding yys rest by simp
  then have "prod_list (y # ys) = ?n" using zs(5) yys y by simp
  moreover have "ys ! i = max_divisor (?n div prod_list (drop (Suc i) ys)) (caps ! i)"
    if "i < length caps" for i
    using zs(6) [rule_format, of "Suc i"] that by (simp only: cons yys) simp
  moreover have "fallback_split f name (-1 # caps)
      = (f\<lparr>fb_heap := (fb_heap f)[a := SplitEntity (ints (y # ys))]\<rparr>, Inr ())"
    using zs(1) assms(1-3,6) yys by (simp add: fallback_split_def lookup_def nat_add_distrib del: upt_Suc)
  ultimately show ?thesis using zs(2) yys by auto
qed

definition sample_fallback :: fallback_entity where
  "sample_fallback = \<lparr>fb_heap = [SplitEntity (ints [-1, 1, 1])],
     fb_space_map = [(''tile_0'', \<lparr>fs_class = SplitSpace, fs_policy = ''factors'', fs_product = 49,
       fs_num_output = 3, fs_entities = [0]\<rparr>)],
     fb_entity_map = [(''tile_0'', 0)]\<rparr>"

theorem fallback_split_greedy_witness:
  "\<exists>y ys. fallback_split sample_fallback ''tile_0'' [-1, 8, 4]
      = (sample_fallback\<lparr>fb_heap := [SplitEntity (ints (y # ys))]\<rparr>, Inr ())
    \<and> length ys = 2 \<and> prod_list (y # ys) = 49"
proof -
  have "map_of (fb_space_map sample_fallback) ''tile_0''
      = Some \<lparr>fs_class = SplitSpace, fs_policy = ''factors'', fs_product = 49, fs_num_output = 3,
          fs_entities = [0]\<rparr>" by (simp add: sample_fallback_def)
  from fallback_split_greedy [OF this, of "[8, 4]" 0 "[-1, 1, 1]"]
  obtain y ys where "fallback_split sample_fallback ''tile_0'' [-1, 8, 4]
      = (sample_fallback\<lparr>fb_heap := (fb_heap sample_fallback)[0 := SplitEntity (ints (y # ys))]\<rparr>, Inr ())"
    "length ys = 2" "prod_list (y # ys) = 49"
    by (auto simp: sample_fallback_def)
  then show ?thesis
    by (intro exI [of _ y] exI [of _ ys]) (simp add: sample_fallback_def)
qed

section \<open>Refinement of the value model\<close>

lemma fb_view_simps [simp]:
  "is_collect (fb_view f)" "is_fallback (fb_view f)"
  "fst ` set (entity_map (fb_view f)) = fst ` set (fb_entity_map f)"
  by (force simp: fb_view_def config_space_init_def)+

lemma AList_update_map:
  "map (\<lambda>(k, v). (k, g v)) (AList.update k v m) = AList.update k (g v) (map (\<lambda>(k, v). (k, g v)) m)"
  by (induction m) auto

lemma nth_new: "map (\<lambda>a. (h @ es) ! a) [length h..<length h + length es] = es"
  by (intro nth_equalityI) (auto simp: nth_append)

lemma fb_space_view_new:
  "fb_space_view (h @ sp_entities sp) \<lparr>fs_class = sp_class sp, fs_policy = sp_policy sp,
     fs_product = sp_product sp, fs_num_output = sp_num_output sp,
     fs_entities = [length h..<length h + length (sp_entities sp)]\<rparr> = sp"
  by (simp add: fb_space_view_def nth_new)

text \<open>
  While knobs are defined, the store behaves as the value model: \<open>_add_new_transform\<close> on
  addresses, read through \<open>fb_view\<close>, is \<open>_add_new_transform\<close> of \<open>ConfigSpace\<close>, errors included.
\<close>

theorem fb_add_new_transform_refines:
  assumes "fb_wf f"
  shows "map_sum id (\<lambda>(f', ct', axs). (fb_view f', ct', axs))
      (fb_add_new_transform set_iter f ct cls name axes policy kw)
    = add_new_transform set_iter (fb_view f) ct cls name axes policy kw"
proof (cases "name \<in> fst ` set (fb_entity_map f)")
  case True
  then show ?thesis
    by (cases "get_num_output cls axes kw")
      (simp_all add: fb_add_new_transform_def add_new_transform_def)
next
  case name: False
  have frame: "map (\<lambda>(k, s). (k, fb_space_view (fb_heap f @ es) s)) (fb_space_map f)
      = map (\<lambda>(k, s). (k, fb_space_view (fb_heap f) s)) (fb_space_map f)"
    "map (\<lambda>(k, a). (k, (fb_heap f @ es) ! a)) (fb_entity_map f)
      = map (\<lambda>(k, a). (k, fb_heap f ! a)) (fb_entity_map f)" for es
    using assms by (auto simp: fb_wf_def fb_space_view_def nth_append)
  note defs = fb_add_new_transform_def add_new_transform_def
  show ?thesis
  proof (cases "convert_axes ct axes")
    case (Inl err)
    with name show ?thesis by (simp add: defs)
  next
    case (Inr axct)
    obtain axes' ct' where ax: "convert_axes ct axes = Inr (axes', ct')" using Inr by (cases axct) auto
    show ?thesis
    proof (cases "space_init set_iter cls axes' policy kw")
      case (Inl err)
      with name ax show ?thesis by (simp add: defs)
    next
      case (Inr sp)
      let ?n = "length (fb_heap f)"
      let ?f = "\<lparr>fb_heap = fb_heap f @ sp_entities sp,
        fb_space_map = AList.update name \<lparr>fs_class = sp_class sp, fs_policy = sp_policy sp,
          fs_product = sp_product sp, fs_num_output = sp_num_output sp,
          fs_entities = [?n..<?n + length (sp_entities sp)]\<rparr> (fb_space_map f),
        fb_entity_map = AList.update name ?n (fb_entity_map f)\<rparr>"
      have "fb_view ?f = fb_view f\<lparr>space_map := AList.update name sp (space_map (fb_view f)),
          entity_map := AList.update name (sp_entities sp ! 0) (entity_map (fb_view f))\<rparr>"
        if "sp_entities sp \<noteq> []"
        using that by (simp add: fb_view_def AList_update_map frame) (simp add: fb_space_view_new nth_append)
      with name ax Inr show ?thesis
        by (cases "sp_entities sp = []") (simp_all add: defs space_getitem_def py_get_def Let_def)
    qed
  qed
qed

theorem fb_add_new_transform_refines_witness:
  "map_sum id (\<lambda>(f', ct', axs). (fb_view f', ct', axs))
      (fb_add_new_transform id sample_fallback 0 OtherOptionSpace ''unroll'' [] ''''
        (no_kwargs\<lparr>kw_candidate := Some [OInt 0, OInt 16]\<rparr>))
    = add_new_transform id (fb_view sample_fallback) 0 OtherOptionSpace ''unroll'' [] ''''
        (no_kwargs\<lparr>kw_candidate := Some [OInt 0, OInt 16]\<rparr>)"
  by (rule fb_add_new_transform_refines) (simp add: sample_fallback_def fb_wf_def)

section \<open>The reference log\<close>

text \<open>The similarity of a reference configuration: the share of common factors, summed.\<close>

definition match_score :: "entity list \<Rightarrow> (string \<times> int list) list \<Rightarrow> ref_cfg \<Rightarrow> rat" where
  "match_score h knobs cfg =
     (\<Sum>(name, fl) \<leftarrow> knobs.
        case res_bind (ref_size h cfg name) (\<lambda>sz. get_factors (np_prod sz)) of
          Inl _ \<Rightarrow> 0
        | Inr factors \<Rightarrow> of_nat (card (set fl \<inter> set factors)) / of_nat (length fl))"

definition ref_readable :: "entity list \<Rightarrow> (string \<times> int list) list \<Rightarrow> ref_cfg \<Rightarrow> bool" where
  "ref_readable h knobs cfg \<longleftrightarrow>
     list_all (\<lambda>(name, fl). case ref_size h cfg name of Inl _ \<Rightarrow> False | Inr sz \<Rightarrow> 1 \<le> np_prod sz) knobs"

lemma match_knobs_score:
  assumes "ref_readable h knobs cfg" and "s \<le> fst best \<or> best = (s, Some cfg)"
  shows "match_knobs h cfg knobs s best
    = Inr (if s + match_score h knobs cfg > fst best then (s + match_score h knobs cfg, Some cfg) else best)"
  using assms
proof (induction knobs arbitrary: s best)
  case Nil
  then show ?case by (auto simp: match_score_def)
next
  case (Cons kf knobs)
  obtain name fl where kf: "kf = (name, fl)" by (cases kf)
  from Cons.prems(1) kf obtain sz where sz: "ref_size h cfg name = Inr sz" "1 \<le> np_prod sz"
    by (auto simp: ref_readable_def split: sum.splits)
  obtain fs where fs: "get_factors (np_prod sz) = Inr fs" using get_factors_Inr [OF sz(2)] by blast
  define t :: rat where "t = of_nat (card (set fl \<inter> set fs)) / of_nat (length fl)"
  have t: "0 \<le> t" by (simp add: t_def)
  define best' where "best' = (if s + t > fst best then (s + t, Some cfg) else best)"
  have score: "match_score h (kf # knobs) cfg = t + match_score h knobs cfg"
    using kf sz fs by (simp add: match_score_def t_def)
  have nonneg: "0 \<le> match_score h knobs cfg"
    by (auto simp: match_score_def intro!: sum_list_nonneg split: sum.splits)
  have "match_knobs h cfg (kf # knobs) s best = match_knobs h cfg knobs (s + t) best'"
    using kf sz fs by (simp add: t_def best'_def Let_def)
  also have "\<dots> = Inr (if s + t + match_score h knobs cfg > fst best'
      then (s + t + match_score h knobs cfg, Some cfg) else best')"
    using Cons.prems by (intro Cons.IH) (auto simp: ref_readable_def best'_def)
  also have "\<dots> = Inr (if s + match_score h (kf # knobs) cfg > fst best
      then (s + match_score h (kf # knobs) cfg, Some cfg) else best)"
    using score nonneg t by (auto simp: best'_def algebra_simps)
  finally show ?case .
qed

lemma best_match_foldl:
  assumes "\<forall>cfg \<in> set refs. ref_readable h knobs cfg" and "0 \<le> fst best"
  shows "\<exists>best'. res_foldl (\<lambda>best cfg. match_knobs h cfg knobs 0 best) best refs = Inr best'
    \<and> fst best \<le> fst best' \<and> (\<forall>cfg \<in> set refs. match_score h knobs cfg \<le> fst best')
    \<and> (best' = best \<or> (\<exists>cfg \<in> set refs. best' = (match_score h knobs cfg, Some cfg) \<and> fst best < fst best'))"
  using assms
proof (induction refs arbitrary: best)
  case Nil
  then show ?case by simp
next
  case (Cons cfg refs)
  let ?m = "match_score h knobs cfg"
  let ?b = "if ?m > fst best then (?m, Some cfg) else best"
  have "match_knobs h cfg knobs 0 best = Inr ?b"
    using match_knobs_score [of h knobs cfg 0 best] Cons.prems by simp
  moreover have "\<exists>best'. res_foldl (\<lambda>best cfg. match_knobs h cfg knobs 0 best) ?b refs = Inr best'
    \<and> fst ?b \<le> fst best' \<and> (\<forall>cfg \<in> set refs. match_score h knobs cfg \<le> fst best')
    \<and> (best' = ?b \<or> (\<exists>cfg \<in> set refs. best' = (match_score h knobs cfg, Some cfg) \<and> fst ?b < fst best'))"
    using Cons.prems by (intro Cons.IH) auto
  ultimately show ?case by (fastforce split: if_splits)
qed

text \<open>
  The reference configuration that is mimicked has the largest score of the log, and none is
  chosen exactly when no score is positive.
\<close>

theorem best_match_maximal:
  assumes "list_all (ref_readable h knobs) refs"
  shows "\<exists>r. best_match h knobs refs = Inr r
    \<and> (r = None \<longleftrightarrow> list_all (\<lambda>cfg. match_score h knobs cfg \<le> 0) refs)
    \<and> (\<forall>cfg. r = Some cfg \<longrightarrow> cfg \<in> set refs
         \<and> list_all (\<lambda>c. match_score h knobs c \<le> match_score h knobs cfg) refs)"
proof -
  have "\<forall>cfg \<in> set refs. ref_readable h knobs cfg" using assms by (simp add: list_all_iff)
  from best_match_foldl [OF this, of "(0, None)"] show ?thesis
    by (force simp: best_match_def list_all_iff)
qed

theorem best_match_maximal_witness:
  "\<exists>r. best_match [SplitEntity (ints [7, 7]), SplitEntity (ints [4, 8])] [(''tile_0'', [1, 7, 49])]
        [[(''tile_0'', 1)], [(''tile_0'', 0)]] = Inr r
    \<and> (r = None \<longleftrightarrow> list_all (\<lambda>cfg. match_score [SplitEntity (ints [7, 7]), SplitEntity (ints [4, 8])]
          [(''tile_0'', [1, 7, 49])] cfg \<le> 0) [[(''tile_0'', 1)], [(''tile_0'', 0)]])"
proof -
  have "list_all (ref_readable [SplitEntity (ints [7, 7]), SplitEntity (ints [4, 8])] [(''tile_0'', [1, 7, 49])])
      [[(''tile_0'', 1)], [(''tile_0'', 0)]]"
    using obj_ints_ints [of "[7, 7]"] obj_ints_ints [of "[4, 8]"]
    by (simp add: ref_readable_def ref_size_def lookup_def deref_def np_prod_wrap wrap64_def)
  from best_match_maximal [OF this] show ?thesis by blast
qed

text \<open>
  A reference log in the form the spaces write now, with -1 for the open first dimension,
  is not usable: the product of such a size is negative, \<open>get_factors\<close> takes its square root, and
  the call raises \<open>ValueError\<close> with nothing changed.
\<close>

theorem reference_log_rejects_open_splits:
  assumes "fb_space_map f = (name, s) # rest" and "fs_class s = SplitSpace"
    and "\<forall>(k, s) \<in> set (fb_space_map f). 1 \<le> fs_product s"
    and "map_of cfg name = Some a" and "a < length (fb_heap f)"
    and "fb_heap f ! a = SplitEntity (ints (-1 # ys))"
    and "\<forall>y \<in> set ys. 0 < y" and "prod_list ys < 2 ^ 63"
  shows "fallback_with_reference_log f (cfg # refs) = (f, Inl ValueError)"
proof -
  let ?splits = "filter (\<lambda>(k, s). fs_class s = SplitSpace) (fb_space_map f)"
  let ?fl = "\<lambda>(k, s). res_bind (get_factors (fs_product s)) (\<lambda>fl. Inr (k, fl))"
  let ?knob = "\<lambda>kt. (fst kt, projr (get_factors (fs_product (snd kt))))"
  have "\<exists>fl. get_factors (fs_product t) = Inr fl" if "(k, t) \<in> set (fb_space_map f)" for k t
    using get_factors_Inr [of "fs_product t"] assms(3) that by fastforce
  then have "?fl kt = Inr (?knob kt)" if "kt \<in> set ?splits" for kt
    using that by (cases kt) force
  then have knobs: "res_map ?fl ?splits = Inr (map ?knob ?splits)" by (rule res_map_total)
  have pos: "0 < prod_list ys" using assms(7) by (auto intro: prod_list_pos)
  then have "np_prod (-1 # ys) = - prod_list ys"
    using assms(8) by (simp add: np_prod_wrap wrap64_id)
  then have "get_factors (np_prod (-1 # ys)) = Inl ValueError" using pos by (simp add: get_factors_def)
  moreover have "ref_size (fb_heap f) cfg name = Inr (-1 # ys)"
    using assms(4-6) obj_ints_ints [of "-1 # ys"] by (simp add: ref_size_def lookup_def deref_def)
  ultimately have "best_match (fb_heap f) (map ?knob ?splits) (cfg # refs) = Inl ValueError"
    using assms(1,2) by (simp add: best_match_def)
  then show ?thesis using knobs by (simp add: fallback_with_reference_log_def Let_def)
qed

theorem reference_log_rejects_open_splits_witness:
  "fallback_with_reference_log sample_fallback [[(''tile_0'', 0)]] = (sample_fallback, Inl ValueError)"
  by (rule reference_log_rejects_open_splits [where ys = "[1, 1]"]) (auto simp: sample_fallback_def)

end
