(* ===== verification/Task.thy ===== *)
theory Task
  imports ConfigSpaceCorrect
begin

text \<open>
  Tasks of AutoTVM (\<open>autotvm/task/task.py\<close>) and the helpers of \<open>autotvm/utils.py\<close> they use:
  constant expressions, the serialisation of arguments to a workload, the registry of task
  templates, the inputs of a compute function and the FLOP count of a schedule.

  The expression simplifier \<open>tvm.arith.Analyzer().simplify\<close> is C++ code; it is the argument
  \<open>simplify\<close> of the definitions that call it. Targets are C++ objects, of which the code reads the
  string form, the keys and the model.
\<close>

section \<open>Constant expressions\<close>

text \<open>A Python integer, an \<open>IntImm\<close>, a \<open>Var\<close>, or any other expression, named by its text.\<close>

datatype texpr = PyInt int | IntImm int | TVar string | TExpr string

definition get_const_int :: "(texpr \<Rightarrow> texpr) \<Rightarrow> texpr \<Rightarrow> int res" where
  "get_const_int simplify e =
     (case e of
        PyInt i \<Rightarrow> Inr i
      | IntImm i \<Rightarrow> Inr i
      | _ \<Rightarrow> (case simplify e of IntImm i \<Rightarrow> Inr i | _ \<Rightarrow> Inl ValueError))"

fun get_const_tuple :: "(texpr \<Rightarrow> texpr) \<Rightarrow> texpr list \<Rightarrow> texpr list" where
  "get_const_tuple simplify [] = []"
| "get_const_tuple simplify (e # es) =
     (case e of
        TVar v \<Rightarrow> TVar v # get_const_tuple simplify es
      | PyInt i \<Rightarrow> PyInt i # get_const_tuple simplify es
      | IntImm i \<Rightarrow> PyInt i # get_const_tuple simplify es
      | TExpr x \<Rightarrow>
          (case simplify (TExpr x) of
             IntImm i \<Rightarrow> get_const_tuple simplify es
           | e' \<Rightarrow> e' # get_const_tuple simplify es))"

section \<open>Arguments and workloads\<close>

datatype arg =
    ATensor "texpr list" string
  | ATuple "arg list"
  | AList "arg list"
  | AArray "arg list"
  | AStr string
  | ARtString string
  | AInt int
  | AFloat rat
  | AVar string
  | AAny
  | AStringImm string
  | AIntImm int
  | AFloatImm rat
  | AExpr string
  | ANone
  | AOther

text \<open>A dimension as an element of the shape tuple.\<close>

fun shape_arg :: "texpr \<Rightarrow> arg" where
  "shape_arg (PyInt i) = AInt i"
| "shape_arg (IntImm i) = AIntImm i"
| "shape_arg (TVar v) = AVar v"
| "shape_arg (TExpr x) = AExpr x"

fun arg_encode :: "(texpr \<Rightarrow> texpr) \<Rightarrow> arg \<Rightarrow> arg res" where
  "arg_encode simplify (ATensor shape dtype) =
     Inr (ATuple [AStr ''TENSOR'', ATuple (map shape_arg (get_const_tuple simplify shape)), AStr dtype])"
| "arg_encode simplify (ATuple xs) = res_bind (res_map (arg_encode simplify) xs) (\<lambda>ys. Inr (ATuple ys))"
| "arg_encode simplify (AList xs) = res_bind (res_map (arg_encode simplify) xs) (\<lambda>ys. Inr (ATuple ys))"
| "arg_encode simplify (AArray xs) = res_bind (res_map (arg_encode simplify) xs) (\<lambda>ys. Inr (ATuple ys))"
| "arg_encode simplify (AStr s) = Inr (AStr s)"
| "arg_encode simplify (AInt i) = Inr (AInt i)"
| "arg_encode simplify (AFloat x) = Inr (AFloat x)"
| "arg_encode simplify (AVar v) = Inr (AVar v)"
| "arg_encode simplify AAny = Inr AAny"
| "arg_encode simplify (AStringImm s) = Inr (AStr s)"
| "arg_encode simplify (AIntImm i) = Inr (AInt i)"
| "arg_encode simplify (AFloatImm x) = Inr (AFloat x)"
| "arg_encode simplify (ARtString s) = Inr (AStr s)"
| "arg_encode simplify ANone = Inr ANone"
| "arg_encode simplify (AExpr x) = Inl RuntimeError"
| "arg_encode simplify AOther = Inl RuntimeError"

definition serialize_args :: "(texpr \<Rightarrow> texpr) \<Rightarrow> arg list \<Rightarrow> arg list res" where
  "serialize_args simplify args = res_map (arg_encode simplify) args"

text \<open>
  \<open>placeholder(shape=t[1], dtype=t[2])\<close>: the shape is a tuple of integers and variables.
\<close>

fun dim_of_arg :: "arg \<Rightarrow> texpr res" where
  "dim_of_arg (AInt i) = Inr (PyInt i)"
| "dim_of_arg (AIntImm i) = Inr (IntImm i)"
| "dim_of_arg (AVar v) = Inr (TVar v)"
| "dim_of_arg (AExpr x) = Inr (TExpr x)"
| "dim_of_arg _ = Inl TypeErr"

fun placeholder :: "arg \<Rightarrow> arg \<Rightarrow> arg res" where
  "placeholder (ATuple dims) (AStr dtype) = res_bind (res_map dim_of_arg dims) (\<lambda>sh. Inr (ATensor sh dtype))"
| "placeholder _ _ = Inl TypeErr"

definition deserialize_arg :: "arg \<Rightarrow> arg res" where
  "deserialize_arg t =
     (case t of
        ATuple ts \<Rightarrow>
          res_bind (py_get ts 0) (\<lambda>t0.
            if t0 = AStr ''TENSOR''
            then res_bind (py_get ts 1) (\<lambda>sh. res_bind (py_get ts 2) (\<lambda>dt. placeholder sh dt))
            else Inr t)
      | _ \<Rightarrow> Inr t)"

definition deserialize_args :: "arg list \<Rightarrow> arg list res" where
  "deserialize_args args = res_map deserialize_arg args"

definition args_to_workload :: "(texpr \<Rightarrow> texpr) \<Rightarrow> arg list \<Rightarrow> string option \<Rightarrow> arg list res" where
  "args_to_workload simplify args task_name =
     (case task_name of
        Some nm \<Rightarrow> res_bind (serialize_args simplify args) (\<lambda>as. Inr (AStr nm # as))
      | None \<Rightarrow> serialize_args simplify args)"

section \<open>Tasks\<close>

record target =
  tgt_str :: string
  tgt_keys :: "string list"
  tgt_model :: string

record task =
  task_name :: string
  task_args :: "arg list"
  task_config_space :: "config_space option"
  task_flop :: "rat option"
  task_target :: "target option"

definition task_init :: "string \<Rightarrow> arg list \<Rightarrow> task" where
  "task_init name args = \<lparr>task_name = name, task_args = args, task_config_space = None,
     task_flop = None, task_target = None\<rparr>"

definition workload :: "(texpr \<Rightarrow> texpr) \<Rightarrow> task \<Rightarrow> arg list res" where
  "workload simplify t = res_bind (serialize_args simplify (task_args t)) (\<lambda>as. Inr (AStr (task_name t) # as))"

section \<open>Task templates\<close>

record 'f template =
  fcompute :: "'f option"
  fschedule :: "'f option"
  fcustomized :: "'f option"

definition template_init :: "'f template" where
  "template_init = \<lparr>fcompute = None, fschedule = None, fcustomized = None\<rparr>"

type_synonym 'f task_table = "(string \<times> 'f template) list"

datatype 'f task_func = RegisteredTask "'f template" | MissingTask string

definition lookup_task :: "'f task_table \<Rightarrow> string \<Rightarrow> 'f task_func" where
  "lookup_task table name =
     (case map_of table name of None \<Rightarrow> MissingTask name | Some tmpl \<Rightarrow> RegisteredTask tmpl)"

text \<open>\<open>TASK_TABLE[name]\<close>, created when it is missing.\<close>

definition ensure_template :: "'f task_table \<Rightarrow> string \<Rightarrow> 'f task_table" where
  "ensure_template table name =
     (if name \<in> fst ` set table then table else AList.update name template_init table)"

definition register_task_compute :: "'f task_table \<Rightarrow> string \<Rightarrow> 'f \<Rightarrow> 'f task_table \<times> unit res" where
  "register_task_compute table name f =
     (let table' = ensure_template table name; tmpl = the (map_of table' name)
      in if fcompute tmpl \<noteq> None then (table', Inl ValueError)
         else (AList.update name (tmpl\<lparr>fcompute := Some f\<rparr>) table', Inr ()))"

definition register_task_schedule :: "'f task_table \<Rightarrow> string \<Rightarrow> 'f \<Rightarrow> 'f task_table \<times> unit res" where
  "register_task_schedule table name f =
     (let table' = ensure_template table name; tmpl = the (map_of table' name)
      in if fschedule tmpl \<noteq> None then (table', Inl ValueError)
         else (AList.update name (tmpl\<lparr>fschedule := Some f\<rparr>) table', Inr ()))"

definition register_customized_task :: "'f task_table \<Rightarrow> string \<Rightarrow> 'f \<Rightarrow> 'f task_table \<times> unit res" where
  "register_customized_task table name f =
     (let table' = ensure_template table name; tmpl = the (map_of table' name)
      in if fcustomized tmpl \<noteq> None then (table', Inl ValueError)
         else (AList.update name (tmpl\<lparr>fcustomized := Some f\<rparr>) table', Inr ()))"

text \<open>What calling a task function runs, once the template is looked up.\<close>

datatype 'f task_call = CallDefault 'f 'f "arg list" | CallCustomized 'f "arg list"

definition template_call :: "'f task_func \<Rightarrow> arg list \<Rightarrow> 'f task_call res" where
  "template_call tf args =
     (case tf of
        MissingTask nm \<Rightarrow> Inl RuntimeError
      | RegisteredTask tmpl \<Rightarrow>
          res_bind (deserialize_args args) (\<lambda>as.
            case fcustomized tmpl of
              Some f \<Rightarrow> Inr (CallCustomized f as)
            | None \<Rightarrow>
                (case (fcompute tmpl, fschedule tmpl) of
                   (Some c, Some s) \<Rightarrow> Inr (CallDefault c s as)
                 | _ \<Rightarrow> Inl AssertionError)))"

section \<open>The input tensors of an output\<close>

text \<open>A tensor with its identity, made by a \<open>PlaceholderOp\<close> or by an operation on input tensors.\<close>

datatype tens = TPlaceholder nat | TCompute nat "tens list"

function get_inputs_loop :: "tens list \<Rightarrow> tens set \<Rightarrow> tens list \<Rightarrow> tens list" where
  "get_inputs_loop [] hash_set inputs = inputs"
| "get_inputs_loop (TPlaceholder i # queue) hash_set inputs =
     get_inputs_loop queue hash_set (inputs @ [TPlaceholder i])"
| "get_inputs_loop (TCompute i ts # queue) hash_set inputs =
     (let input_tensors = filter (\<lambda>t. t \<notin> hash_set) ts
      in get_inputs_loop (queue @ input_tensors) (hash_set \<union> set input_tensors) inputs)"
  by pat_completeness auto
termination
proof (relation "measure (\<lambda>(queue, hash_set, inputs). size_list size queue)")
  fix i ts queue hash_set inputs input_tensors
  assume "input_tensors = filter (\<lambda>t. t \<notin> hash_set) (ts :: tens list)"
  then have "size_list size input_tensors \<le> size_list size ts" by (induction ts arbitrary: input_tensors) auto
  then show "((queue @ input_tensors, hash_set \<union> set input_tensors, inputs),
      TCompute i ts # queue, hash_set, inputs) \<in> measure (\<lambda>(queue, hash_set, inputs). size_list size queue)"
    by (simp add: size_list_append)
qed auto

definition get_inputs :: "tens \<Rightarrow> tens list" where
  "get_inputs out = get_inputs_loop [out] {} []"

section \<open>FLOP counting\<close>

datatype fexp =
    FReduce "texpr list" "fexp list" "fexp list"
  | FFloatImm | FIntImm | FVar
  | FCast fexp
  | FBin fexp fexp
  | FNot fexp
  | FSelect fexp fexp fexp
  | FProducerLoad
  | FCall "fexp list"
  | FOther

datatype te_op = ComputeOp "texpr list" "fexp list" "te_op list" | PlaceholderOp | OtherOp

text \<open>The error value of the counting functions is \<open>FlopCalculationError\<close>, here \<open>RuntimeError\<close>.\<close>

definition prod_length :: "(texpr \<Rightarrow> texpr) \<Rightarrow> texpr list \<Rightarrow> int res" where
  "prod_length simplify axes =
     (case res_map (get_const_int simplify) axes of
        Inl ValueError \<Rightarrow> Inl RuntimeError
      | Inl err \<Rightarrow> Inl err
      | Inr ns \<Rightarrow> Inr (np_prod ns))"

fun count_flop :: "(texpr \<Rightarrow> texpr) \<Rightarrow> fexp \<Rightarrow> int res" where
  "count_flop simplify (FReduce axes combiner source) =
     res_bind (prod_length simplify axes) (\<lambda>num_iter.
       case combiner of
         [c] \<Rightarrow>
           (case source of
              [s] \<Rightarrow> res_bind (count_flop simplify c) (\<lambda>m.
                       res_bind (count_flop simplify s) (\<lambda>n. Inr (num_iter * (m + n))))
            | _ \<Rightarrow> Inl RuntimeError)
       | _ \<Rightarrow> Inl RuntimeError)"
| "count_flop simplify FFloatImm = Inr 0"
| "count_flop simplify FIntImm = Inr 0"
| "count_flop simplify (FCast e) = count_flop simplify e"
| "count_flop simplify FVar = Inr 0"
| "count_flop simplify (FNot a) = res_bind (count_flop simplify a) (\<lambda>n. Inr (1 + n))"
| "count_flop simplify (FBin a b) =
     res_bind (count_flop simplify a) (\<lambda>m. res_bind (count_flop simplify b) (\<lambda>n. Inr (1 + m + n)))"
| "count_flop simplify (FSelect c t f) =
     res_bind (count_flop simplify c) (\<lambda>k.
     res_bind (count_flop simplify t) (\<lambda>m.
     res_bind (count_flop simplify f) (\<lambda>n. Inr (k + max m n))))"
| "count_flop simplify FProducerLoad = Inr 0"
| "count_flop simplify (FCall args) =
     res_bind (res_map (count_flop simplify) args) (\<lambda>ns. Inr (sum_list ns))"
| "count_flop simplify FOther = Inl RuntimeError"

fun op_flop :: "(texpr \<Rightarrow> texpr) \<Rightarrow> te_op \<Rightarrow> int res" where
  "op_flop simplify (ComputeOp axes body inputs) =
     res_bind (prod_length simplify axes) (\<lambda>num_element.
       case body of
         [e] \<Rightarrow>
           res_bind (count_flop simplify e) (\<lambda>n.
           res_bind (res_map (op_flop simplify) inputs) (\<lambda>rest.
             Inr (num_element * n + sum_list rest)))
       | _ \<Rightarrow> Inl RuntimeError)"
| "op_flop simplify PlaceholderOp = Inr 0"
| "op_flop simplify OtherOp = Inl RuntimeError"

definition compute_flop :: "(texpr \<Rightarrow> texpr) \<Rightarrow> te_op list \<Rightarrow> int res" where
  "compute_flop simplify outputs =
     res_bind (res_map (op_flop simplify) outputs) (\<lambda>rs.
       if sum_list rs = 0 then Inl RuntimeError else Inr (sum_list rs))"

end
