(* ===== verification/TaskCorrect.thy ===== *)
theory TaskCorrect
  imports Task
begin

text \<open>
  Correctness of the task layer: constant shapes, workload keys, the template registry, the
  traversal that collects the placeholders of an output and the FLOP count.
\<close>

section \<open>Constant tuples\<close>

definition folds_to_const :: "(texpr \<Rightarrow> texpr) \<Rightarrow> texpr \<Rightarrow> bool" where
  "folds_to_const simplify e \<longleftrightarrow>
     (case e of TExpr x \<Rightarrow> (case simplify e of IntImm i \<Rightarrow> True | _ \<Rightarrow> False) | _ \<Rightarrow> False)"

text \<open>
  \<open>get_const_tuple\<close> loses every composite dimension that the simplifier folds to a constant:
  the result is shorter than the shape by the number of those dimensions.
\<close>

theorem get_const_tuple_length:
  "length (get_const_tuple simplify es) + length (filter (folds_to_const simplify) es) = length es"
  by (induction es) (auto simp: folds_to_const_def split: texpr.splits)

section \<open>Workloads\<close>

definition plain_dim :: "texpr \<Rightarrow> bool" where
  "plain_dim e \<longleftrightarrow> (case e of TExpr _ \<Rightarrow> False | _ \<Rightarrow> True)"

fun plain_shapes :: "arg \<Rightarrow> bool" where
  "plain_shapes (ATensor shape dtype) = list_all plain_dim shape"
| "plain_shapes (ATuple xs) = list_all plain_shapes xs"
| "plain_shapes (AList xs) = list_all plain_shapes xs"
| "plain_shapes (AArray xs) = list_all plain_shapes xs"
| "plain_shapes _ = True"

lemma encode_plain_shape:
  "list_all plain_dim shape \<Longrightarrow>
   res_map (arg_encode s) (map shape_arg (get_const_tuple s shape)) = Inr (map shape_arg (get_const_tuple s shape))"
  by (induction shape) (auto simp: plain_dim_def split: texpr.splits)

lemma res_map_idem:
  assumes "res_map f xs = Inr ys" and "\<And>x y. x \<in> set xs \<Longrightarrow> f x = Inr y \<Longrightarrow> f y = Inr y"
  shows "res_map f ys = Inr ys"
  using assms by (auto simp: res_map_Inr) (metis nth_mem)

lemma arg_encode_idem: "plain_shapes x \<Longrightarrow> arg_encode s x = Inr y \<Longrightarrow> arg_encode s y = Inr y"
proof (induction x arbitrary: y)
  case (ATensor shape dtype)
  then show ?case by (auto simp: encode_plain_shape)
next
  case (ATuple xs)
  then obtain ys where ys: "res_map (arg_encode s) xs = Inr ys" "y = ATuple ys"
    by (auto simp: res_bind_eq_Inr)
  moreover have "res_map (arg_encode s) ys = Inr ys"
    using ATuple by (intro res_map_idem [OF ys(1)]) (auto simp: list_all_iff)
  ultimately show ?case by simp
next
  case (AList xs)
  then obtain ys where ys: "res_map (arg_encode s) xs = Inr ys" "y = ATuple ys"
    by (auto simp: res_bind_eq_Inr)
  moreover have "res_map (arg_encode s) ys = Inr ys"
    using AList by (intro res_map_idem [OF ys(1)]) (auto simp: list_all_iff)
  ultimately show ?case by simp
next
  case (AArray xs)
  then obtain ys where ys: "res_map (arg_encode s) xs = Inr ys" "y = ATuple ys"
    by (auto simp: res_bind_eq_Inr)
  moreover have "res_map (arg_encode s) ys = Inr ys"
    using AArray by (intro res_map_idem [OF ys(1)]) (auto simp: list_all_iff)
  ultimately show ?case by simp
qed auto

text \<open>
  C13. \<open>serialize_args\<close> is idempotent on arguments whose tensor shapes are constants and
  variables, so a task created from serialised arguments has the workload key that a call of the
  template with the original arguments queries.
\<close>

theorem created_task_workload:
  assumes "list_all plain_shapes args" and "serialize_args simplify args = Inr sargs"
  shows "workload simplify (task_init name sargs) = args_to_workload simplify args (Some name)"
proof -
  have "serialize_args simplify sargs = Inr sargs"
    using assms unfolding serialize_args_def
    by (intro res_map_idem [of _ args]) (auto simp: list_all_iff intro: arg_encode_idem)
  then show ?thesis using assms(2) by (simp add: workload_def task_init_def args_to_workload_def)
qed

theorem created_task_workload_witness:
  "workload id (task_init ''dense'' [ATuple [AStr ''TENSOR'', ATuple [AInt 1, AVar ''n''], AStr ''float32''], AInt 3])
    = args_to_workload id [ATensor [IntImm 1, TVar ''n''] ''float32'', AIntImm 3] (Some ''dense'')"
  by (rule created_task_workload) (simp_all add: plain_dim_def serialize_args_def)

fun const_dim :: "texpr \<Rightarrow> bool" where
  "const_dim (PyInt _) = True"
| "const_dim (TVar _) = True"
| "const_dim _ = False"

text \<open>Arguments that survive serialisation unchanged: no sequences, immediates or expressions.\<close>

fun plain_arg :: "arg \<Rightarrow> bool" where
  "plain_arg (ATensor shape dtype) = list_all const_dim shape"
| "plain_arg (AStr _) = True"
| "plain_arg (AInt _) = True"
| "plain_arg (AFloat _) = True"
| "plain_arg (AVar _) = True"
| "plain_arg AAny = True"
| "plain_arg ANone = True"
| "plain_arg _ = False"

lemma placeholder_shape:
  "list_all const_dim shape \<Longrightarrow> res_map dim_of_arg (map shape_arg (get_const_tuple s shape)) = Inr shape"
proof (induction shape)
  case (Cons e es)
  then show ?case by (cases e) auto
qed simp

lemma deserialize_encode:
  assumes "plain_arg x"
  shows "res_bind (arg_encode s x) deserialize_arg = Inr x"
  using assms by (cases x) (simp_all add: deserialize_arg_def py_get_def placeholder_shape)

text \<open>
  \<open>deserialize_args\<close> is the inverse of \<open>serialize_args\<close> on tensors with constant or variable
  dimensions and on scalars: the template is called with the arguments the task was created with.
\<close>

theorem deserialize_serialize:
  assumes "list_all plain_arg args"
  shows "res_bind (serialize_args simplify args) deserialize_args = Inr args"
  using assms
proof (induction args)
  case (Cons x xs)
  then obtain y where y: "arg_encode simplify x = Inr y" "deserialize_arg y = Inr x"
    using deserialize_encode [of x simplify] by (auto simp: res_bind_eq_Inr)
  moreover obtain ys where "serialize_args simplify xs = Inr ys" "deserialize_args ys = Inr xs"
    using Cons by (auto simp: res_bind_eq_Inr)
  ultimately show ?case by (simp add: serialize_args_def deserialize_args_def)
qed (simp add: serialize_args_def deserialize_args_def)

theorem deserialize_serialize_witness:
  "res_bind (serialize_args id [ATensor [PyInt 1, PyInt 64] ''float32'', AInt 3, ANone]) deserialize_args
    = Inr [ATensor [PyInt 1, PyInt 64] ''float32'', AInt 3, ANone]"
  by (rule deserialize_serialize) simp

section \<open>The registry\<close>

lemma ensure_template_lookup:
  "map_of (ensure_template table name) name = Some (case map_of table name of None \<Rightarrow> template_init | Some t \<Rightarrow> t)"
  by (auto simp: ensure_template_def update_conv map_of_eq_None_iff split: option.splits) (metis fst_conv image_eqI map_of_SomeD)

lemma ensure_template_id: "map_of table name = Some t \<Longrightarrow> ensure_template table name = table"
  unfolding ensure_template_def by (metis map_of_eq_None_iff option.distinct(1))

text \<open>
  A customised function can be registered under a name once: the first registration is what
  \<open>_lookup_task\<close> finds and calls, a second one raises \<open>ValueError\<close> and changes nothing.
\<close>

theorem register_customized_once:
  assumes "register_customized_task table name f = (table', Inr ())"
  shows "register_customized_task table' name g = (table', Inl ValueError)
    \<and> template_call (lookup_task table' name) args
        = res_bind (deserialize_args args) (\<lambda>as. Inr (CallCustomized f as))"
proof -
  let ?t = "ensure_template table name"
  have t': "table' = AList.update name (the (map_of ?t name)\<lparr>fcustomized := Some f\<rparr>) ?t"
    using assms by (auto simp: register_customized_task_def Let_def split: if_splits)
  then have "map_of table' name = Some (the (map_of ?t name)\<lparr>fcustomized := Some f\<rparr>)"
    by (simp add: update_conv)
  moreover from this have "ensure_template table' name = table'"
    by (rule ensure_template_id)
  ultimately show ?thesis
    by (simp add: register_customized_task_def lookup_task_def template_call_def)
qed

theorem register_customized_once_witness:
  "register_customized_task (fst (register_customized_task [] ''matmul'' (0 :: nat))) ''matmul'' 1
    = (fst (register_customized_task [] ''matmul'' (0 :: nat)), Inl ValueError)"
proof -
  have "register_customized_task [] ''matmul'' (0 :: nat)
      = (fst (register_customized_task [] ''matmul'' (0 :: nat)), Inr ())"
    by (simp add: register_customized_task_def ensure_template_def template_init_def)
  from register_customized_once [OF this] show ?thesis by blast
qed

section \<open>Input tensors\<close>

fun placeholders :: "tens \<Rightarrow> tens set" where
  "placeholders (TPlaceholder i) = {TPlaceholder i}"
| "placeholders (TCompute i ts) = (\<Union>t \<in> set ts. placeholders t)"

text \<open>
  A tensor of \<open>seen\<close> is still queued, is a collected placeholder, or has all its inputs seen.
\<close>

definition frontier :: "tens set \<Rightarrow> tens list \<Rightarrow> tens list \<Rightarrow> bool" where
  "frontier seen queue inputs \<longleftrightarrow>
     (\<forall>s \<in> seen. s \<in> set queue \<or>
        (case s of TPlaceholder i \<Rightarrow> s \<in> set inputs | TCompute i ts \<Rightarrow> set ts \<subseteq> seen))"

lemma frontier_covers: "frontier seen [] inputs \<Longrightarrow> s \<in> seen \<Longrightarrow> placeholders s \<subseteq> set inputs"
proof (induction s)
  case (TCompute i ts)
  then have "set ts \<subseteq> seen" by (force simp: frontier_def)
  with TCompute show ?case by auto
qed (force simp: frontier_def)

text \<open>One step of the loop: the head of the queue is handled, its inputs become seen.\<close>

lemma frontier_step:
  assumes "frontier seen (t # queue) inputs"
    and "seen \<subseteq> seen'" and "set queue \<subseteq> set queue'" and "set inputs \<subseteq> set inputs'"
    and "seen' \<subseteq> seen \<union> set queue'"
    and "case t of TPlaceholder i \<Rightarrow> t \<in> set inputs' | TCompute i ts \<Rightarrow> set ts \<subseteq> seen'"
  shows "frontier seen' queue' inputs'"
  unfolding frontier_def
proof
  fix s assume "s \<in> seen'"
  then consider "s \<in> set queue'" | "s \<in> seen" "s \<noteq> t" | "s = t" using assms(5) by blast
  then show "s \<in> set queue' \<or> (case s of TPlaceholder i \<Rightarrow> s \<in> set inputs' | TCompute i ts \<Rightarrow> set ts \<subseteq> seen')"
  proof cases
    case 2
    then have "s \<in> set queue \<or> (case s of TPlaceholder i \<Rightarrow> s \<in> set inputs | TCompute i ts \<Rightarrow> set ts \<subseteq> seen)"
      using assms(1) by (auto simp: frontier_def)
    then show ?thesis using assms(2-4) by (cases s) auto
  qed (use assms(6) in auto)
qed

lemma get_inputs_loop_complete:
  assumes "frontier (insert out hash_set) queue inputs"
  shows "placeholders out \<subseteq> set (get_inputs_loop queue hash_set inputs)"
  using assms
proof (induction queue hash_set inputs rule: get_inputs_loop.induct)
  case (1 hash_set inputs)
  then show ?case using frontier_covers by simp
next
  case (2 i queue hash_set inputs)
  have "frontier (insert out hash_set) queue (inputs @ [TPlaceholder i])"
    by (rule frontier_step [OF "2.prems"]) auto
  with 2 show ?case by simp
next
  case (3 i ts queue hash_set inputs)
  let ?new = "filter (\<lambda>t. t \<notin> hash_set) ts"
  have "frontier (insert out (hash_set \<union> set ?new)) (queue @ ?new) inputs"
    by (rule frontier_step [OF "3.prems"]) auto
  with 3 show ?case by (simp add: Let_def)
qed

lemma get_inputs_loop_sound:
  "set (get_inputs_loop queue hash_set inputs) \<subseteq> set inputs \<union> (\<Union>t \<in> set queue. placeholders t)"
proof (induction queue hash_set inputs rule: get_inputs_loop.induct)
  case (3 i ts queue hash_set inputs)
  then show ?case by (fastforce simp: Let_def)
qed auto

text \<open>
  \<open>_get_inputs\<close> returns exactly the placeholders that the output depends on.
\<close>

theorem get_inputs_placeholders: "set (get_inputs out) = placeholders out"
proof
  show "set (get_inputs out) \<subseteq> placeholders out"
    using get_inputs_loop_sound [of "[out]" "{}" "[]"] by (simp add: get_inputs_def)
  show "placeholders out \<subseteq> set (get_inputs out)"
    unfolding get_inputs_def by (rule get_inputs_loop_complete) (simp add: frontier_def)
qed

section \<open>FLOP count\<close>

lemma prod_length_const:
  assumes "\<forall>n \<in> set ns. 0 < n" and "prod_list ns < 2 ^ 63"
  shows "prod_length simplify (map IntImm ns) = Inr (prod_list ns)"
proof -
  have "res_map (get_const_int simplify) (map IntImm ns) = Inr ns"
    by (induction ns) (auto simp: get_const_int_def)
  then show ?thesis using assms by (simp add: prod_length_def np_prod_exact)
qed

text \<open>
  The FLOP count of a matrix multiplication \<open>C[i, j] = sum_k A[i, k] * B[k, j]\<close> over
  \<open>N * M * L\<close> points is \<open>2 * N * M * L\<close>: one multiplication and one addition of the combiner per
  point.
\<close>

theorem matmul_flop:
  assumes "0 < N" and "0 < M" and "0 < L" and "N * M < 2 ^ 63" and "L < 2 ^ 63"
  shows "compute_flop simplify
      [ComputeOp [IntImm N, IntImm M]
         [FReduce [IntImm L] [FBin FVar FVar] [FBin FProducerLoad FProducerLoad]]
         [PlaceholderOp, PlaceholderOp]]
    = Inr (2 * N * M * L)"
proof -
  have "prod_length simplify [IntImm N, IntImm M] = Inr (N * M)"
    using prod_length_const [of "[N, M]"] assms by simp
  moreover have "prod_length simplify [IntImm L] = Inr L" using prod_length_const [of "[L]"] assms by simp
  ultimately show ?thesis using assms by (simp add: compute_flop_def)
qed

theorem matmul_flop_witness:
  "compute_flop id
      [ComputeOp [IntImm 512, IntImm 512]
         [FReduce [IntImm 512] [FBin FVar FVar] [FBin FProducerLoad FProducerLoad]]
         [PlaceholderOp, PlaceholderOp]]
    = Inr (2 * 512 * 512 * 512)"
  by (rule matmul_flop) simp_all

end
