(* ===== verification/Measure.thy ===== *)
theory Measure
  imports Task
begin

text \<open>
  Measurement records and the measurement interface (\<open>autotvm/measure/measure.py\<close>), and the
  numeric helpers of \<open>autotvm/utils.py\<close>.
\<close>

section \<open>Inputs and results\<close>

record measure_input =
  mi_target :: "target option"
  mi_task :: task
  mi_config :: config_entity

record measure_result =
  costs :: "pyobj list"
  error_no :: int
  all_cost :: rat
  timestamp :: rat

datatype measure_error_no =
    NO_ERROR | INSTANTIATION_ERROR | COMPILE_HOST | COMPILE_DEVICE | RUNTIME_DEVICE
  | WRONG_ANSWER | BUILD_TIMEOUT | RUN_TIMEOUT | UNKNOWN_ERROR

fun error_code :: "measure_error_no \<Rightarrow> int" where
  "error_code NO_ERROR = 0"
| "error_code INSTANTIATION_ERROR = 1"
| "error_code COMPILE_HOST = 2"
| "error_code COMPILE_DEVICE = 3"
| "error_code RUNTIME_DEVICE = 4"
| "error_code WRONG_ANSWER = 5"
| "error_code BUILD_TIMEOUT = 6"
| "error_code RUN_TIMEOUT = 7"
| "error_code UNKNOWN_ERROR = 8"

fun obj_float :: "pyobj \<Rightarrow> rat res" where
  "obj_float (OFloat x) = Inr x"
| "obj_float (OInt i) = Inr (of_int i)"
| "obj_float (OBool b) = Inr (if b then 1 else 0)"
| "obj_float _ = Inl TypeErr"

text \<open>\<open>np.mean(res.costs)\<close>.\<close>

definition mean_costs :: "measure_result \<Rightarrow> pyfloat res" where
  "mean_costs r = res_bind (res_map obj_float (costs r)) (\<lambda>xs. Inr (np_mean xs))"

text \<open>\<open>inp.task.flop / np.mean(res.costs)\<close>.\<close>

definition measured_flops :: "measure_input \<Rightarrow> measure_result \<Rightarrow> pyfloat res" where
  "measured_flops inp r =
     res_bind (mean_costs r) (\<lambda>m.
       case task_flop (mi_task inp) of None \<Rightarrow> Inl TypeErr | Some f \<Rightarrow> Inr (fdiv f m))"

section \<open>Builders and runners\<close>

record builder =
  b_timeout :: int
  b_n_parallel :: int
  user_build_kwargs :: "(string \<times> pyobj) list"
  build_kwargs :: "(string \<times> pyobj) list"
  b_task :: "task option"

text \<open>\<open>n_parallel or multiprocessing.cpu_count()\<close>; the core count is an argument.\<close>

definition builder_init ::
  "int \<Rightarrow> int \<Rightarrow> int option \<Rightarrow> (string \<times> pyobj) list option \<Rightarrow> builder" where
  "builder_init cpu_count timeout n_parallel kwargs =
     \<lparr>b_timeout = timeout,
      b_n_parallel = (case n_parallel of None \<Rightarrow> cpu_count | Some n \<Rightarrow> if n = 0 then cpu_count else n),
      user_build_kwargs = (case kwargs of None \<Rightarrow> [] | Some k \<Rightarrow> k), build_kwargs = [], b_task = None\<rparr>"

text \<open>
  \<open>Builder.set_task\<close>: the warning about overridden arguments calls \<open>logging.warn\<close>, but the module
  does not import \<open>logging\<close>.
\<close>

definition builder_set_task ::
  "builder \<Rightarrow> task \<Rightarrow> (string \<times> pyobj) list option \<Rightarrow> builder \<times> unit res" where
  "builder_set_task b t kwargs =
     (let kw = (case kwargs of None \<Rightarrow> [] | Some k \<Rightarrow> k);
          b1 = b\<lparr>b_task := Some t, build_kwargs := kw\<rparr>
      in if list_ex (\<lambda>k. k \<in> fst ` set kw) (map fst (user_build_kwargs b)) then (b1, Inl NameErr)
         else (b1\<lparr>build_kwargs := foldl (\<lambda>m (k, v). AList.update k v m) kw (user_build_kwargs b)\<rparr>, Inr ()))"

text \<open>The argument of \<open>measure_option\<close>: a name or an object.\<close>

datatype 'b opt_arg = OptName string | OptObj 'b

definition measure_option :: "'b \<Rightarrow> 'r \<Rightarrow> 'b opt_arg \<Rightarrow> 'r opt_arg \<Rightarrow> ('b \<times> 'r) res" where
  "measure_option local_builder local_runner b r =
     res_bind (case b of OptObj x \<Rightarrow> Inr x | OptName s \<Rightarrow> if s = ''local'' then Inr local_builder else Inl ValueError)
       (\<lambda>builder.
     res_bind (case r of OptObj x \<Rightarrow> Inr x | OptName s \<Rightarrow> if s = ''local'' then Inr local_runner else Inl ValueError)
       (\<lambda>runner. Inr (builder, runner)))"

text \<open>
  \<open>create_measure_batch\<close>. Building and running are done by compilers and devices: they are the
  arguments \<open>build\<close> and \<open>run\<close>, as are the build arguments the runner proposes.
\<close>

record 'e batch_fn =
  batch_call :: "'e \<Rightarrow> measure_input list \<Rightarrow> measure_result list \<times> 'e"
  batch_parallel :: int

definition create_measure_batch ::
  "(builder \<Rightarrow> 'e \<Rightarrow> measure_input list \<Rightarrow> 'x list \<times> 'e) \<Rightarrow>
   ('e \<Rightarrow> measure_input list \<Rightarrow> 'x list \<Rightarrow> measure_result list \<times> 'e) \<Rightarrow>
   (string \<times> pyobj) list option \<Rightarrow> task \<Rightarrow> builder \<Rightarrow> builder \<times> 'e batch_fn res" where
  "create_measure_batch build run runner_kwargs t b =
     (case builder_set_task b t runner_kwargs of
        (b1, Inl err) \<Rightarrow> (b1, Inl err)
      | (b1, Inr _) \<Rightarrow>
          (b1, Inr \<lparr>batch_call = (\<lambda>e inputs. let (built, e1) = build b1 e inputs in run e1 inputs built),
                   batch_parallel = b_n_parallel b1\<rparr>))"

section \<open>Numeric helpers\<close>

definition SI_PREFIXES :: string where
  "SI_PREFIXES = ''yzafpn'' @ [CHR 0xB5] @ ''m kMGTPEZY''"

text \<open>\<open>s.index(sub)\<close>: the first position where the substring occurs.\<close>

fun str_index :: "string \<Rightarrow> string \<Rightarrow> nat res" where
  "str_index [] sub = (if sub = [] then Inr 0 else Inl ValueError)"
| "str_index (c # s) sub =
     (if str_startswith (c # s) sub then Inr 0
      else res_bind (str_index s sub) (\<lambda>n. Inr (Suc n)))"

text \<open>\<open>10 ** n\<close> for an integer exponent.\<close>

definition pow10 :: "int \<Rightarrow> rat" where
  "pow10 n = (if 0 \<le> n then 10 ^ nat n else 1 / 10 ^ nat (- n))"

definition format_si_prefix :: "rat \<Rightarrow> string \<Rightarrow> rat res" where
  "format_si_prefix x si_prefix =
     res_bind (str_index SI_PREFIXES si_prefix) (\<lambda>i. Inr (x / pow10 (int i * 3 - 24)))"

text \<open>
  \<open>get_rank\<close>: \<open>np.argsort\<close> leaves the order of equal values open, so the sorting permutation is an
  argument; \<open>ranks[tmp] = np.arange(len(tmp))\<close> assigns position by position.
\<close>

definition get_rank :: "(rat list \<Rightarrow> nat list) \<Rightarrow> rat list \<Rightarrow> nat list" where
  "get_rank argsort values =
     (let tmp = argsort (map uminus values)
      in foldl (\<lambda>ranks i. ranks[tmp ! i := i]) (replicate (length tmp) 0) [0..<length tmp])"

text \<open>
  \<open>sample_ints\<close>. Both \<open>while\<close> loops draw until they find a new number; the set is kept in the
  order of insertion and the final \<open>list(vis)\<close> is read through \<open>set_iter\<close>.
\<close>

fun sample_new :: "int \<Rightarrow> int \<Rightarrow> int list \<Rightarrow> draws \<Rightarrow> (int \<times> draws) res" where
  "sample_new low high vis [] = (if high \<le> low then Inl ValueError else Inl NoDraws)"
| "sample_new low high vis (d # ds) =
     (if high \<le> low then Inl ValueError
      else let new = low + d mod (high - low)
        in if new \<in> set vis then sample_new low high vis ds else Inr (new, ds))"

fun sample_loop :: "int \<Rightarrow> int \<Rightarrow> nat \<Rightarrow> int list \<Rightarrow> draws \<Rightarrow> (int list \<times> draws) res" where
  "sample_loop low high 0 vis ds = Inr (vis, ds)"
| "sample_loop low high (Suc m) vis ds =
     res_bind (sample_new low high vis ds) (\<lambda>(new, ds'). sample_loop low high m (vis @ [new]) ds')"

definition sample_ints ::
  "(int list \<Rightarrow> int list) \<Rightarrow> int \<Rightarrow> int \<Rightarrow> int \<Rightarrow> draws \<Rightarrow> (int list \<times> draws) res" where
  "sample_ints set_iter low high m ds =
     (if \<not> m \<le> high - low then Inl AssertionError
      else res_bind (sample_loop low high (nat m) [] ds) (\<lambda>(vis, ds'). Inr (set_iter vis, ds')))"

text \<open>
  \<open>pool_map\<close>: the arguments are mapped in slices of \<open>batch_size\<close> and concatenated; the pool's own
  \<open>map\<close> is order preserving. The result for no arguments is \<open>None\<close>.
\<close>

definition pool_map :: "('a \<Rightarrow> 'b) \<Rightarrow> 'a list \<Rightarrow> int \<Rightarrow> 'b list option res" where
  "pool_map func args batch_size =
     (if batch_size = 0 then Inl ValueError
      else if batch_size < 0 then Inr None
      else Inr (foldl (\<lambda>ret i.
             let tmp = map func (take (nat batch_size) (drop (nat i) args))
             in case ret of None \<Rightarrow> Some tmp | Some r \<Rightarrow> Some (r @ tmp))
           None (py_range 0 (int (length args)) batch_size)))"

end
