(* ===== verification/MeasureCorrect.thy ===== *)
theory MeasureCorrect
  imports Measure
begin

text \<open>Correctness of the measurement helpers: sampling, ranking, batched mapping and builders.\<close>

section \<open>Sampling\<close>

lemma sample_new_Inr:
  "sample_new low high vis ds = Inr (new, ds') \<Longrightarrow> new \<notin> set vis \<and> low \<le> new \<and> new < high"
proof (induction low high vis ds rule: sample_new.induct)
  case (2 low high vis d ds)
  have "low + d mod (high - low) < high" if "\<not> high \<le> low"
    using pos_mod_bound [of "high - low" d] that by linarith
  with 2 show ?case by (auto simp: Let_def split: if_splits)
qed (simp split: if_splits)

lemma sample_loop_Inr:
  assumes "sample_loop low high m vis ds = Inr (r, ds')" and "distinct vis"
    and "\<forall>x \<in> set vis. low \<le> x \<and> x < high"
  shows "distinct r \<and> length r = length vis + m \<and> (\<forall>x \<in> set r. low \<le> x \<and> x < high)"
  using assms
proof (induction low high m vis ds rule: sample_loop.induct)
  case (2 low high m vis ds)
  then obtain new ds1 where new: "sample_new low high vis ds = Inr (new, ds1)"
    "sample_loop low high m (vis @ [new]) ds1 = Inr (r, ds')"
    by (auto simp: res_bind_eq_Inr)
  with sample_new_Inr [OF new(1)] "2.IH" [OF new(1) refl new(2)] "2.prems" show ?case by auto
qed auto

lemma sample_loop_some:
  assumes "int (length vis) + int m \<le> high - low"
  shows "\<exists>ds r. \<forall>rest. sample_loop low high m vis (ds @ rest) = Inr (r, rest)"
  using assms
proof (induction m arbitrary: vis)
  case 0
  show ?case by (intro exI [of _ "[]"] exI [of _ vis]) simp
next
  case (Suc m)
  have "card (set vis) < card {low..<high}" using Suc.prems card_length [of vis] by simp
  then have "\<not> {low..<high} \<subseteq> set vis" by (meson List.finite_set card_mono not_le)
  then obtain x where x: "low \<le> x" "x < high" "x \<notin> set vis" unfolding subset_iff atLeastLessThan_iff by blast
  from Suc.IH [of "vis @ [x]"] Suc.prems
  obtain ds r where "\<forall>rest. sample_loop low high m (vis @ [x]) (ds @ rest) = Inr (r, rest)" by auto
  then have "\<forall>rest. sample_loop low high (Suc m) vis (((x - low) # ds) @ rest) = Inr (r, rest)" using x by simp
  then show ?case by blast
qed

lemma sample_ints_some:
  assumes "0 \<le> m" and "m \<le> high - low"
  shows "\<exists>ds r. \<forall>rest. sample_ints set_iter low high m (ds @ rest) = Inr (r, rest)"
proof -
  obtain ds vis where "\<forall>rest. sample_loop low high (nat m) [] (ds @ rest) = Inr (vis, rest)"
    using sample_loop_some [of "[]" "nat m" high low] assms by auto
  then have "\<forall>rest. sample_ints set_iter low high m (ds @ rest) = Inr (set_iter vis, rest)"
    using assms(2) by (simp add: sample_ints_def)
  then show ?thesis by blast
qed

lemma sample_new_err: "sample_new low high vis ds = Inl err \<Longrightarrow> low < high \<Longrightarrow> err = NoDraws"
  by (induction low high vis ds rule: sample_new.induct) (auto simp: Let_def split: if_splits)

lemma sample_ints_err:
  assumes "m \<le> high - low" and "sample_ints set_iter low high m ds = Inl err"
  shows "err = NoDraws"
proof -
  have "sample_loop low high k vis xs = Inl e \<Longrightarrow> low < high \<or> k = 0 \<Longrightarrow> e = NoDraws" for k vis xs e
    by (induction low high k vis xs rule: sample_loop.induct) (auto simp: res_bind_eq_Inl dest: sample_new_err)
  moreover have "sample_loop low high (nat m) [] ds = Inl err"
    using assms by (auto simp: sample_ints_def res_bind_eq_Inl split: if_splits)
  moreover have "low < high \<or> nat m = 0" using assms(1) by arith
  ultimately show ?thesis by blast
qed

text \<open>
  \<open>sample_ints\<close> returns \<open>m\<close> different numbers of \<open>[low, high)\<close> whenever it returns, and some
  sequence of draws makes it return, for every \<open>m\<close> that fits; otherwise the assertion fails.
\<close>

theorem sample_ints_spec:
  assumes "\<And>xs. mset (set_iter xs) = mset xs" and "0 \<le> m"
  shows "(\<forall>r ds'. sample_ints set_iter low high m ds = Inr (r, ds') \<longrightarrow>
            distinct r \<and> int (length r) = m \<and> set r \<subseteq> {low..<high})
    \<and> (m \<le> high - low \<longrightarrow> (\<exists>ds r. sample_ints set_iter low high m ds = Inr r))
    \<and> (\<not> m \<le> high - low \<longrightarrow> sample_ints set_iter low high m ds = Inl AssertionError)"
proof (intro conjI allI impI)
  fix r ds' assume "sample_ints set_iter low high m ds = Inr (r, ds')"
  then obtain vis where vis: "sample_loop low high (nat m) [] ds = Inr (vis, ds')" "r = set_iter vis"
    by (auto simp: sample_ints_def res_bind_eq_Inr split: if_splits)
  have "mset r = mset vis" using vis(2) assms(1) by simp
  moreover from sample_loop_Inr [OF vis(1)]
  have "distinct vis \<and> length vis = nat m \<and> (\<forall>x \<in> set vis. low \<le> x \<and> x < high)" by simp
  ultimately show "distinct r" and "int (length r) = m" and "set r \<subseteq> {low..<high}"
    using assms(2) by (auto dest: mset_eq_length mset_eq_setD mset_eq_imp_distinct_iff)
next
  assume "m \<le> high - low"
  then show "\<exists>ds r. sample_ints set_iter low high m ds = Inr r"
    using sample_ints_some [OF assms(2)] by (metis append_Nil2)
qed (simp add: sample_ints_def)

theorem sample_ints_spec_witness:
  "\<exists>ds r. sample_ints rev 0 100 20 ds = Inr r"
  using sample_ints_spec [of rev 20 0 100] by simp

section \<open>Ranking\<close>

lemma rank_assign:
  assumes "distinct tmp" and "\<forall>t \<in> set tmp. t < n" and "length ranks = n" and "k \<le> length tmp"
  shows "length (foldl (\<lambda>ranks i. ranks[tmp ! i := i]) ranks [0..<k]) = n
    \<and> (\<forall>i < k. foldl (\<lambda>ranks i. ranks[tmp ! i := i]) ranks [0..<k] ! (tmp ! i) = i)"
  using assms(4)
proof (induction k)
  case 0
  then show ?case using assms(3) by simp
next
  case (Suc k)
  then have "tmp ! k < n" using assms(2) by simp
  then show ?case using Suc assms(1) by (auto simp: nth_list_update nth_eq_iff_index_eq less_Suc_eq)
qed

text \<open>The documented behaviour of \<open>np.argsort\<close>: a permutation of the positions in ascending order.\<close>

definition argsorts :: "(rat list \<Rightarrow> nat list) \<Rightarrow> bool" where
  "argsorts argsort \<longleftrightarrow>
     (\<forall>xs. mset (argsort xs) = mset [0..<length xs] \<and> sorted (map ((!) xs) (argsort xs)))"

text \<open>
  The ranks are a permutation of \<open>0 ..< n\<close>, and a larger value has a smaller rank.
\<close>

theorem get_rank_order:
  assumes "argsorts argsort"
  shows "mset (get_rank argsort values) = mset [0..<length values]
    \<and> (\<forall>a < length values. \<forall>b < length values.
         values ! a > values ! b \<longrightarrow> get_rank argsort values ! a < get_rank argsort values ! b)"
proof -
  let ?tmp = "argsort (map uminus values)" and ?n = "length values"
  let ?r = "get_rank argsort values"
  have perm: "mset ?tmp = mset [0..<?n]" and sorted: "sorted (map ((!) (map uminus values)) ?tmp)"
    using assms unfolding argsorts_def by (metis length_map)+
  have set: "set ?tmp = {0..<?n}" and len: "length ?tmp = ?n" and dist: "distinct ?tmp"
    using mset_eq_setD [OF perm] mset_eq_length [OF perm] mset_eq_imp_distinct_iff [OF perm] by simp_all
  have r: "length ?r = ?n" "\<forall>i < ?n. ?r ! (?tmp ! i) = i"
    using rank_assign [of ?tmp ?n "replicate ?n 0" ?n] set len dist by (auto simp: get_rank_def)
  have pos: "\<exists>i < ?n. ?tmp ! i = a" if "a < ?n" for a
    using that set len by (metis atLeastLessThan_iff in_set_conv_nth zero_le)
  have "?r ! a \<noteq> ?r ! b" if ab: "a < ?n" "b < ?n" "a \<noteq> b" for a b
  proof -
    obtain i j where "i < ?n" "?tmp ! i = a" "j < ?n" "?tmp ! j = b" using pos ab by blast
    then show ?thesis using r(2) ab(3) by force
  qed
  then have "distinct ?r" using r(1) by (auto simp: distinct_conv_nth)
  moreover have "?r ! a < ?n" if "a < ?n" for a using pos [OF that] r(2) by auto
  then have "set ?r \<subseteq> {0..<?n}" using r(1) by (auto simp: in_set_conv_nth)
  ultimately have "set ?r = {0..<?n}"
    using r(1) by (metis card_atLeastLessThan card_subset_eq diff_zero distinct_card finite_atLeastLessThan)
  then have "mset ?r = mset [0..<?n]" using \<open>distinct ?r\<close> 
    by (metis distinct_upt mset_set_set mset_upt set_upt)
  moreover have "?r ! a < ?r ! b" if ab: "a < ?n" "b < ?n" "values ! a > values ! b" for a b
  proof -
    obtain i j where ij: "i < ?n" "?tmp ! i = a" "j < ?n" "?tmp ! j = b" using pos ab by metis
    have "i < j"
    proof (rule ccontr)
      assume "\<not> i < j"
      then have "map uminus values ! (?tmp ! j) \<le> map uminus values ! (?tmp ! i)"
        using sorted_nth_mono [OF sorted, of j i] ij len by simp
      then show False using ij ab by simp
    qed
    then show ?thesis using r(2) ij by auto
  qed
  ultimately show ?thesis by blast
qed

definition sort_positions :: "rat list \<Rightarrow> nat list" where
  "sort_positions xs = sort_key (\<lambda>i. xs ! i) [0..<length xs]"

theorem get_rank_order_witness:
  "get_rank sort_positions [3, 7, 5] ! 1 < get_rank sort_positions [3, 7, 5] ! 0"
proof -
  have "argsorts sort_positions" by (simp add: argsorts_def sort_positions_def)
  from get_rank_order [OF this, of "[3, 7, 5]"] show ?thesis by simp
qed

section \<open>Batched mapping\<close>

lemma pool_fold:
  assumes "0 < b"
  shows "foldl (\<lambda>ret i. let tmp = map func (take b (drop (nat i) args))
           in case ret of None \<Rightarrow> Some tmp | Some r \<Rightarrow> Some (r @ tmp))
         None (map (\<lambda>k. int k * int b) [0..<k])
       = (if k = 0 then None else Some (map func (take (k * b) args)))"
proof (induction k)
  case (Suc k)
  have "map func (take (k * b) args) @ map func (take b (drop (k * b) args)) = map func (take (Suc k * b) args)"
    by (metis add.commute map_append mult_Suc take_add)
  then show ?case using Suc by (cases "k = 0") (simp_all add: Let_def nat_mult_distrib)
qed simp

text \<open>
  \<open>pool_map\<close> over batches of any positive size is the plain map; for no arguments it returns
  \<open>None\<close>.
\<close>

theorem pool_map_is_map:
  assumes "0 < batch_size"
  shows "pool_map func args batch_size = Inr (if args = [] then None else Some (map func args))"
proof -
  define b where "b = nat batch_size"
  have b: "0 < b" "batch_size = int b" using assms by (simp_all add: b_def)
  define k where "k = nat ((int (length args) + batch_size - 1) div batch_size)"
  have range: "py_range 0 (int (length args)) batch_size = map (\<lambda>k. int k * int b) [0..<k]"
    by (simp add: py_range_def k_def b(2))
  have div_pos: "0 \<le> (int (length args) + int b - 1) div int b" using b(1) by (simp add: pos_imp_zdiv_nonneg_iff)
  have "0 < (int (length args) + int b - 1) div int b" if "args \<noteq> []"
    using that b(1) by (subst pos_imp_zdiv_pos_iff) (auto simp: Suc_le_eq)
  then have k0: "k = 0 \<longleftrightarrow> args = []" using b div_pos by (cases "args = []") (simp_all add: k_def)
  from div_pos have "int k = (int (length args) + int b - 1) div int b" by (simp add: k_def b(2))
  moreover have "(int (length args) + int b - 1) mod int b < int b" using b(1) by simp
  moreover define q where "q = (int (length args) + int b - 1) div int b * int b"
  then have "q + (int (length args) + int b - 1) mod int b = int (length args) + int b - 1" by simp
  ultimately have "int (length args) \<le> int k * int b" by (simp flip: q_def)
  then have "length args \<le> k * b" by (metis of_nat_le_iff of_nat_mult)
  then show ?thesis
    using pool_fold [OF b(1), of func args k] k0 assms by (simp add: pool_map_def range flip: b_def)
qed

theorem pool_map_is_map_witness:
  "pool_map nat [3, 1, 2] 2 = Inr (Some [3, 1, 2])"
  using pool_map_is_map [of 2 nat "[3, 1, 2]"] by simp

section \<open>Builders\<close>

text \<open>
  A builder whose own build arguments overlap those of the runner cannot be given a task: the
  intended warning refers to a module that is not imported. Without overlap the arguments of both
  are combined.
\<close>

theorem builder_set_task_kwargs:
  "snd (builder_set_task b t (Some kw))
    = (if fst ` set kw \<inter> fst ` set (user_build_kwargs b) = {} then Inr () else Inl NameErr)
   \<and> (fst ` set kw \<inter> fst ` set (user_build_kwargs b) = {} \<and> distinct (map fst (user_build_kwargs b)) \<longrightarrow>
      map_of (build_kwargs (fst (builder_set_task b t (Some kw)))) = map_of kw ++ map_of (user_build_kwargs b))"
proof -
  have overlap: "list_ex (\<lambda>k. k \<in> fst ` set kw) (map fst (user_build_kwargs b))
      \<longleftrightarrow> fst ` set kw \<inter> fst ` set (user_build_kwargs b) \<noteq> {}"
    by (force simp: list_ex_iff)
  have "map_of (foldl (\<lambda>m (k, v). AList.update k v m) m u) = map_of m ++ map_of u"
    if "distinct (map fst u)" for m u :: "(string \<times> pyobj) list"
    using that
  proof (induction u arbitrary: m)
    case (Cons kv u)
    obtain k v where kv: "kv = (k, v)" by (cases kv)
    have "map_of u k = None" using Cons.prems kv by (simp add: map_of_eq_None_iff)
    then show ?case using Cons kv by (auto simp: update_conv' map_add_def fun_eq_iff split: option.splits)
  qed simp
  then have merged: "distinct (map fst (user_build_kwargs b)) \<Longrightarrow>
      map_of (foldl (\<lambda>m (k, v). AList.update k v m) kw (user_build_kwargs b)) = map_of kw ++ map_of (user_build_kwargs b)"
    by blast
  show ?thesis
  proof (cases "fst ` set kw \<inter> fst ` set (user_build_kwargs b) = {}")
    case True
    then show ?thesis using overlap merged by (simp add: builder_set_task_def Let_def)
  next
    case False
    then show ?thesis using overlap by (simp add: builder_set_task_def Let_def)
  qed
qed

theorem builder_set_task_kwargs_witness:
  "snd (builder_set_task (builder_init 4 10 None (Some [(''opt'', OInt 3)])) (task_init ''t'' [])
     (Some [(''opt'', OInt 1)])) = Inl NameErr"
  using builder_set_task_kwargs [of "builder_init 4 10 None (Some [(''opt'', OInt 3)])" "task_init ''t'' []"
    "[(''opt'', OInt 1)]"]
  by (simp add: builder_init_def)

end
