(* ===== verification/Tuner.thy ===== *)
theory Tuner
  imports Measure
begin

text \<open>
  The tuning loop of \<open>autotvm/tuner/tuner.py\<close> and the index based tuners of
  \<open>autotvm/tuner/index_based_tuner.py\<close>. The attributes of the base class are the record \<open>tuner\<close>;
  the attributes of a subclass are its field \<open>t_sub\<close>, and the methods the loop calls on a subclass
  are the fields of \<open>tuner_class\<close>.

  The measurement function and the callbacks act on an environment that the loop only passes
  on; a callback also sees the tuner, and may raise. The loop state carries a history of all measured pairs, which no operation reads.
\<close>

section \<open>State\<close>

type_synonym measured = "measure_input \<times> measure_result"

record 's tuner =
  t_sub :: 's
  t_task :: task
  best_config :: "config_entity option"
  best_flops :: pyfloat
  best_measure_pair :: "measured option"
  best_iter :: int
  error_ct_threshold :: int
  ttl :: "int option"
  n_trial :: "int option"
  early_stopping :: "int option"

definition tuner_init :: "task \<Rightarrow> 's \<Rightarrow> 's tuner" where
  "tuner_init t sub = \<lparr>t_sub = sub, t_task = t, best_config = None, best_flops = Fin 0,
     best_measure_pair = None, best_iter = 0, error_ct_threshold = 150, ttl = None, n_trial = None,
     early_stopping = None\<rparr>"

definition tuner_reset :: "'s tuner \<Rightarrow> 's tuner" where
  "tuner_reset t = t\<lparr>best_config := None, best_flops := Fin 0, best_measure_pair := None\<rparr>"

definition set_error_threshold :: "'s tuner \<Rightarrow> int \<Rightarrow> 's tuner" where
  "set_error_threshold t threshold = t\<lparr>error_ct_threshold := threshold\<rparr>"

record 's tuner_class =
  has_next :: "'s \<Rightarrow> bool"
  next_batch :: "'s \<Rightarrow> int \<Rightarrow> (config_entity list \<times> 's) res"
  update :: "'s \<Rightarrow> measured list \<Rightarrow> 's res"

type_synonym ('s, 'e) callback = "'s tuner \<Rightarrow> 'e \<Rightarrow> measured list \<Rightarrow> 'e res"

section \<open>The tuning loop\<close>

text \<open>
  The text kept for a failed measurement; \<open>py_str\<close> stands for \<open>str\<close> of an exception object.
\<close>

definition error_text :: "(pyobj \<Rightarrow> string) \<Rightarrow> measure_result \<Rightarrow> string res" where
  "error_text py_str r =
     (case costs r of
        [tb, err] \<Rightarrow>
          (case tb of
             OStr s \<Rightarrow> Inr (s @ [CHR 0x0A] @ (case err of OStr e \<Rightarrow> e | _ \<Rightarrow> py_str err))
           | _ \<Rightarrow> Inl TypeErr)
      | _ \<Rightarrow> Inl ValueError)"

definition keep_best_one ::
  "(pyobj \<Rightarrow> string) \<Rightarrow> int \<Rightarrow> measured \<Rightarrow> 's tuner \<times> int \<times> string list \<Rightarrow>
   ('s tuner \<times> int \<times> string list) res" where
  "keep_best_one py_str pos pair st =
     (let (inp, r) = pair; (t, error_ct, errs) = st
      in res_bind
           (if error_no r = 0 then res_bind (measured_flops inp r) (\<lambda>flops. Inr (flops, 0, errs))
            else res_bind (error_text py_str r) (\<lambda>msg. Inr (Fin 0, error_ct + 1, errs @ [msg])))
           (\<lambda>(flops, error_ct', errs').
             Inr (if fgt flops (best_flops t)
                  then t\<lparr>best_flops := flops, best_config := Some (mi_config inp),
                         best_measure_pair := Some (inp, r), best_iter := pos\<rparr>
                  else t,
                  error_ct', errs')))"

fun keep_best ::
  "(pyobj \<Rightarrow> string) \<Rightarrow> int \<Rightarrow> measured list \<Rightarrow> 's tuner \<times> int \<times> string list \<Rightarrow>
   ('s tuner \<times> int \<times> string list) res" where
  "keep_best py_str pos [] st = Inr st"
| "keep_best py_str pos (pair # pairs) st =
     res_bind (keep_best_one py_str pos pair st) (keep_best py_str (pos + 1) pairs)"

record ('s, 'e) tune_state =
  ts_tuner :: "'s tuner"
  ts_i :: int
  ts_error_ct :: int
  ts_errors :: "string list"
  ts_debug :: bool
  ts_env :: 'e
  ts_history :: "measured list"

text \<open>One pass of the body; the flag says whether the loop goes on.\<close>

definition tune_step ::
  "'s tuner_class \<Rightarrow> 'e batch_fn \<Rightarrow> ('s, 'e) callback list \<Rightarrow> (pyobj \<Rightarrow> string) \<Rightarrow>
   int \<Rightarrow> int \<Rightarrow> ('s, 'e) tune_state \<Rightarrow> (('s, 'e) tune_state \<times> bool) res" where
  "tune_step cls mb callbacks py_str trials early st =
     (let t = ts_tuner st; i = ts_i st
      in res_bind (next_batch cls (t_sub t) (min (batch_parallel mb) (trials - i))) (\<lambda>(configs, sub1).
         let inputs = map (\<lambda>c. \<lparr>mi_target = task_target (t_task t), mi_task = t_task t, mi_config = c\<rparr>) configs;
             (results, env1) = batch_call mb (ts_env st) inputs;
             pairs = zip inputs results
         in res_bind (keep_best py_str i pairs (t\<lparr>t_sub := sub1\<rparr>, ts_error_ct st, ts_errors st))
              (\<lambda>(t1, error_ct, errs).
            let i1 = i + int (length results);
                t2 = t1\<lparr>ttl := Some (min (early + best_iter t1) trials - i1)\<rparr>
            in res_bind (update cls (t_sub t2) pairs) (\<lambda>sub2.
               let t3 = t2\<lparr>t_sub := sub2\<rparr>; stop = (i1 \<ge> best_iter t3 + early)
               in res_bind (res_foldl (\<lambda>e f. f t3 e pairs) env1 callbacks) (\<lambda>env2.
                  Inr (\<lparr>ts_tuner = t3, ts_i = i1, ts_error_ct = error_ct, ts_errors = errs,
                        ts_debug = (if stop then ts_debug st else error_ct > error_ct_threshold t3),
                        ts_env = env2, ts_history = ts_history st @ pairs\<rparr>, \<not> stop))))))"

text \<open>
  The \<open>while\<close> loop. It need not end for an arbitrary tuner (a tuner with a next configuration may
  return an empty batch), so it runs on fuel; \<open>None\<close> is a run that is not over.
\<close>

fun tune_loop ::
  "nat \<Rightarrow> 's tuner_class \<Rightarrow> 'e batch_fn \<Rightarrow> ('s, 'e) callback list \<Rightarrow> (pyobj \<Rightarrow> string) \<Rightarrow>
   int \<Rightarrow> int \<Rightarrow> ('s, 'e) tune_state \<Rightarrow> ('s, 'e) tune_state res option" where
  "tune_loop fuel cls mb callbacks py_str trials early st =
     (if \<not> ts_i st < trials \<or> \<not> has_next cls (t_sub (ts_tuner st)) then Some (Inr st)
      else case fuel of
             0 \<Rightarrow> None
           | Suc fuel' \<Rightarrow>
               (case tune_step cls mb callbacks py_str trials early st of
                  Inl err \<Rightarrow> Some (Inl err)
                | Inr (st', go_on) \<Rightarrow>
                    if go_on then tune_loop fuel' cls mb callbacks py_str trials early st'
                    else Some (Inr st')))"

declare tune_loop.simps [simp del]

text \<open>\<open>early_stopping or 1e9\<close>.\<close>

definition early_limit :: "int option \<Rightarrow> int" where
  "early_limit e = (case e of None \<Rightarrow> 10 ^ 9 | Some n \<Rightarrow> if n = 0 then 10 ^ 9 else n)"

text \<open>
  \<open>tune\<close> returns the final state and whether the errors of all trials were written to a file
  because no trial since the start of the run succeeded.
\<close>

definition tune ::
  "nat \<Rightarrow> 's tuner_class \<Rightarrow> 'e batch_fn \<Rightarrow> ('s, 'e) callback list \<Rightarrow> (pyobj \<Rightarrow> string) \<Rightarrow>
   's tuner \<Rightarrow> 'e \<Rightarrow> int \<Rightarrow> int option \<Rightarrow> string \<Rightarrow> (('s, 'e) tune_state \<times> bool) res option" where
  "tune fuel cls mb callbacks py_str t env trials early si_prefix =
     (let lim = early_limit early;
          t0 = t\<lparr>n_trial := Some trials, early_stopping := Some lim\<rparr>
      in case format_si_prefix 0 si_prefix of
           Inl err \<Rightarrow> Some (Inl err)
         | Inr _ \<Rightarrow>
             map_option (\<lambda>r. res_bind r (\<lambda>st. Inr (st, ts_error_ct st = ts_i st)))
               (tune_loop fuel cls mb callbacks py_str trials lim
                  \<lparr>ts_tuner = t0, ts_i = 0, ts_error_ct = 0, ts_errors = [], ts_debug = False,
                   ts_env = env, ts_history = []\<rparr>))"

section \<open>Index based tuners\<close>

record index_tuner =
  it_space :: config_space
  range_length :: int
  index_offset :: int
  counter :: int

definition index_tuner_init :: "config_space \<Rightarrow> (int \<times> int) option \<Rightarrow> index_tuner res" where
  "index_tuner_init cs range_idx =
     (let (n, cs') = cs_len cs
      in if n < 0 then Inl ValueError
         else case range_idx of
           None \<Rightarrow> Inr \<lparr>it_space = cs', range_length = n, index_offset = 0, counter = 0\<rparr>
         | Some (lo, hi) \<Rightarrow>
             if \<not> hi > lo then Inl AssertionError
             else if \<not> lo \<ge> 0 then Inl AssertionError
             else Inr \<lparr>it_space = cs', range_length = hi - lo + 1, index_offset = lo, counter = 0\<rparr>)"

definition index_has_next :: "'z index_tuner_scheme \<Rightarrow> bool" where
  "index_has_next s \<longleftrightarrow> counter s < range_length s"

subsection \<open>Grid search\<close>

fun grid_loop :: "nat \<Rightarrow> index_tuner \<Rightarrow> (config_entity list \<times> index_tuner) res" where
  "grid_loop 0 s = Inr ([], s)"
| "grid_loop (Suc n) s =
     (if counter s \<ge> range_length s then Inr ([], s)
      else let (r, cs') = cs_get (it_space s) (counter s + index_offset s)
        in res_bind r (\<lambda>c.
             res_bind (grid_loop n (s\<lparr>it_space := cs', counter := counter s + 1\<rparr>)) (\<lambda>(cfgs, s').
               Inr (c # cfgs, s'))))"

definition grid_next_batch :: "index_tuner \<Rightarrow> int \<Rightarrow> (config_entity list \<times> index_tuner) res" where
  "grid_next_batch s batch_size = grid_loop (nat batch_size) s"

definition grid_tuner :: "index_tuner tuner_class" where
  "grid_tuner = \<lparr>has_next = index_has_next, next_batch = grid_next_batch, update = (\<lambda>s pairs. Inr s)\<rparr>"

subsection \<open>Random search\<close>

record random_tuner = index_tuner +
  rand_state :: "(int \<times> int) list"
  rand_max :: int
  rt_visited :: "int list"
  rt_draws :: draws

definition random_tuner_init :: "config_space \<Rightarrow> (int \<times> int) option \<Rightarrow> draws \<Rightarrow> random_tuner res" where
  "random_tuner_init cs range_idx ds =
     res_bind (index_tuner_init cs range_idx) (\<lambda>s.
       Inr (index_tuner.extend s (random_tuner.fields [] (range_length s) [] ds)))"

text \<open>\<open>rand_state.get(i, i)\<close>.\<close>

definition rand_get :: "(int \<times> int) list \<Rightarrow> int \<Rightarrow> int" where
  "rand_get m i = (case map_of m i of None \<Rightarrow> i | Some v \<Rightarrow> v)"

definition random_pick :: "random_tuner \<Rightarrow> (config_entity \<times> random_tuner) res" where
  "random_pick s =
     res_bind (randint (rand_max s) (rt_draws s)) (\<lambda>(ind, ds).
       let rmax = rand_max s - 1;
           index = rand_get (rand_state s) ind + index_offset s;
           (r, cs') = cs_get (it_space s) index
       in res_bind r (\<lambda>c.
            let m1 = AList.update ind (rand_get (rand_state s) rmax) (rand_state s);
                m2 = AList.delete rmax m1
            in Inr (c, s\<lparr>it_space := cs', counter := counter s + 1, rand_state := m2, rand_max := rmax,
                         rt_visited := rt_visited s @ [index], rt_draws := ds\<rparr>)))"

fun random_loop :: "nat \<Rightarrow> random_tuner \<Rightarrow> (config_entity list \<times> random_tuner) res" where
  "random_loop 0 s = Inr ([], s)"
| "random_loop (Suc n) s =
     (if rand_max s = 0 then Inr ([], s)
      else res_bind (random_pick s) (\<lambda>(c, s1).
             res_bind (random_loop n s1) (\<lambda>(cfgs, s'). Inr (c # cfgs, s'))))"

definition random_next_batch :: "random_tuner \<Rightarrow> int \<Rightarrow> (config_entity list \<times> random_tuner) res" where
  "random_next_batch s batch_size = random_loop (nat batch_size) s"

definition random_search :: "random_tuner tuner_class" where
  "random_search = \<lparr>has_next = index_has_next, next_batch = random_next_batch, update = (\<lambda>s pairs. Inr s)\<rparr>"

end
