(* ===== verification/TunerCorrect.thy ===== *)
theory TunerCorrect
  imports Tuner
begin

text \<open>
  Correctness of the tuning loop. What the loop relies on is the locale \<open>tuner_contract\<close>: a tuner
  that has a next configuration returns a non-empty batch of at most the requested size, or runs
  out of draws. The loop then ends after at most \<open>n_trial\<close> passes, never measures more than
  \<open>n_trial\<close> configurations and keeps the best pair. The locale \<open>recording_tuner\<close> adds that no
  configuration is proposed twice, \<open>exhaustive_tuner\<close> that all of them are in the end. Grid and random
  search are interpretations of all three, the model based tuner of the first two.
\<close>

section \<open>Measurements\<close>

text \<open>
  What the measurement layer documents: times or, after an error, the trace and the exception.
\<close>

definition good_result :: "measure_result \<Rightarrow> bool" where
  "good_result r \<longleftrightarrow>
     (if error_no r = 0 then list_all (\<lambda>x. \<exists>q. obj_float x = Inr q) (costs r)
      else (\<exists>tb e. costs r = [OStr tb, e]))"

definition good_measure :: "'e batch_fn \<Rightarrow> bool" where
  "good_measure mb \<longleftrightarrow> 1 \<le> batch_parallel mb
     \<and> (\<forall>e inputs. length (fst (batch_call mb e inputs)) = length inputs
          \<and> list_all good_result (fst (batch_call mb e inputs)))"

definition good_pairs :: "measured list \<Rightarrow> bool" where
  "good_pairs pairs \<longleftrightarrow> list_all (\<lambda>(inp, r). good_result r \<and> task_flop (mi_task inp) \<noteq> None) pairs"

definition good_callbacks :: "('s, 'e) callback list \<Rightarrow> bool" where
  "good_callbacks callbacks \<longleftrightarrow> (\<forall>f \<in> set callbacks. \<forall>t e pairs. good_pairs pairs \<longrightarrow> (\<exists>e'. f t e pairs = Inr e'))"

lemma good_callbacks_run:
  "good_callbacks callbacks \<Longrightarrow> good_pairs pairs \<Longrightarrow> \<exists>e'. res_foldl (\<lambda>e f. f t e pairs) e callbacks = Inr e'"
proof (induction callbacks arbitrary: e)
  case (Cons f fs)
  then obtain e1 where "f t e pairs = Inr e1" unfolding good_callbacks_def by (meson list.set_intros(1))
  moreover have "good_callbacks fs" using Cons.prems(1) by (simp add: good_callbacks_def)
  ultimately show ?case using Cons.IH Cons.prems(2) by simp
qed simp

lemma good_callbacks_none: "good_callbacks []"
  by (simp add: good_callbacks_def)

lemma measured_flops_total:
  assumes "good_result r" and "error_no r = 0" and "task_flop (mi_task inp) \<noteq> None"
  shows "\<exists>f. measured_flops inp r = Inr f"
proof -
  have "\<exists>xs. res_map obj_float (costs r) = Inr xs"
    using res_map_total [of "costs r" obj_float "\<lambda>x. projr (obj_float x)"] assms(1,2)
    by (force simp: good_result_def list_all_iff)
  then show ?thesis using assms(3) by (auto simp: measured_flops_def mean_costs_def)
qed

section \<open>The best pair\<close>

text \<open>
  The stored pair is a successful measurement of the history and no other measurement is faster.
\<close>

definition best_ok :: "'s tuner \<Rightarrow> measured list \<Rightarrow> bool" where
  "best_ok t hist \<longleftrightarrow> \<not> fgt (Fin 0) (best_flops t)
     \<and> (\<forall>(inp, r) \<in> set hist. error_no r = 0 \<longrightarrow>
          (\<forall>f. measured_flops inp r = Inr f \<longrightarrow> \<not> fgt f (best_flops t)))
     \<and> (case best_measure_pair t of
          None \<Rightarrow> best_flops t = Fin 0 \<and> best_config t = None
        | Some (inp, r) \<Rightarrow> error_no r = 0 \<and> measured_flops inp r = Inr (best_flops t)
            \<and> best_config t = Some (mi_config inp)
            \<and> 0 \<le> best_iter t \<and> nat (best_iter t) < length hist \<and> hist ! nat (best_iter t) = (inp, r)
            \<and> (\<forall>(inp', r') \<in> set (take (nat (best_iter t)) hist). error_no r' = 0 \<longrightarrow> measured_flops inp' r' \<noteq> Inr (best_flops t)))"

lemma best_ok_frame [simp]:
  "best_ok (t\<lparr>t_sub := x\<rparr>) hist = best_ok t hist" "best_ok (t\<lparr>ttl := y\<rparr>) hist = best_ok t hist"
  by (cases "best_measure_pair t"; simp add: best_ok_def)+

lemma not_fgt_trans: "\<not> fgt f b \<Longrightarrow> fgt x b \<Longrightarrow> \<not> fgt f x"
  by (cases f; cases b; cases x) auto

lemma keep_best_one_ok:
  assumes "best_ok t hist" and "good_result (snd pair)" and "task_flop (mi_task (fst pair)) \<noteq> None"
  shows "\<exists>t' ct errs'. keep_best_one py_str (int (length hist)) pair (t, error_ct, errs) = Inr (t', ct, errs')
    \<and> best_ok t' (hist @ [pair]) \<and> t_sub t' = t_sub t \<and> t_task t' = t_task t
    \<and> (t' = t \<or> best_iter t' = int (length hist))"
proof (cases "error_no (snd pair) = 0")
  case True
  then obtain f where f: "measured_flops (fst pair) (snd pair) = Inr f"
    using measured_flops_total assms(2,3) by blast
  show ?thesis
  proof (cases "fgt f (best_flops t)")
    case better: True
    have zero: "\<not> fgt (Fin 0) f"
      using assms(1) better not_fgt_trans unfolding best_ok_def by blast
    have old: "\<not> fgt g f" if "(inp, r) \<in> set hist" "error_no r = 0" "measured_flops inp r = Inr g" for inp r g
    proof -
      have "\<not> fgt g (best_flops t)" using assms(1) that unfolding best_ok_def by blast
      then show ?thesis using better by (rule not_fgt_trans)
    qed
    let ?t = "t\<lparr>best_flops := f, best_config := Some (mi_config (fst pair)),
      best_measure_pair := Some pair, best_iter := int (length hist)\<rparr>"
    have first: "measured_flops inp r \<noteq> Inr f" if "(inp, r) \<in> set hist" "error_no r = 0" for inp r
      using assms(1) that better unfolding best_ok_def by blast
    have "best_ok ?t (hist @ [pair])"
      using zero old first f True fgt_irrefl [of f] by (cases pair) (auto simp: best_ok_def)
    moreover have "keep_best_one py_str (int (length hist)) pair (t, error_ct, errs) = Inr (?t, 0, errs)"
      using True f better by (cases pair) (simp add: keep_best_one_def)
    ultimately show ?thesis by simp
  next
    case False
    then show ?thesis using True f assms(1)
      by (cases pair) (auto simp: keep_best_one_def best_ok_def nth_append split: option.splits)
  qed
next
  case False
  then obtain tb e where "costs (snd pair) = [OStr tb, e]" using assms(2) by (auto simp: good_result_def)
  moreover have "\<not> fgt (Fin 0) (best_flops t)" using assms(1) by (simp add: best_ok_def)
  ultimately show ?thesis using False assms(1)
    by (cases pair) (auto simp: keep_best_one_def error_text_def best_ok_def nth_append split: option.splits)
qed

lemma keep_best_ok:
  assumes "best_ok t hist" and "good_pairs pairs"
  shows "\<exists>t' ct errs'. keep_best py_str (int (length hist)) pairs (t, error_ct, errs) = Inr (t', ct, errs')
    \<and> best_ok t' (hist @ pairs) \<and> t_sub t' = t_sub t \<and> t_task t' = t_task t"
  using assms
proof (induction pairs arbitrary: t hist error_ct errs)
  case Nil
  then show ?case by simp
next
  case (Cons pair pairs)
  have good: "good_result (snd pair)" "task_flop (mi_task (fst pair)) \<noteq> None" "good_pairs pairs"
    using Cons.prems(2) by (auto simp: good_pairs_def)
  from keep_best_one_ok [OF Cons.prems(1) good(1,2)] obtain t1 ct1 errs1 where
    one: "keep_best_one py_str (int (length hist)) pair (t, error_ct, errs) = Inr (t1, ct1, errs1)"
    "best_ok t1 (hist @ [pair])" "t_sub t1 = t_sub t" "t_task t1 = t_task t" by metis
  from Cons.IH [OF one(2) good(3), of ct1 errs1] one show ?case by (auto simp: add.commute)
qed

section \<open>The contract of a tuner\<close>

definition draws_over :: "'a res \<Rightarrow> bool" where
  "draws_over r \<longleftrightarrow> r = Inl NoDraws"

text \<open>The invariant of the loop and what it leaves when it ends.\<close>

definition loop_ok :: "('s \<Rightarrow> bool) \<Rightarrow> int \<Rightarrow> ('s, 'e) tune_state \<Rightarrow> bool" where
  "loop_ok invar trials st \<longleftrightarrow> invar (t_sub (ts_tuner st)) \<and> best_ok (ts_tuner st) (ts_history st)
     \<and> ts_i st = int (length (ts_history st)) \<and> ts_i st \<le> trials
     \<and> task_flop (t_task (ts_tuner st)) \<noteq> None"

locale tuner_contract =
  fixes cls :: "'s tuner_class"
    and invar :: "'s \<Rightarrow> bool"
    and proposes :: "'s \<Rightarrow> config_entity \<Rightarrow> bool"
  assumes batch_law: "invar s \<Longrightarrow> has_next cls s \<Longrightarrow> 0 < n \<Longrightarrow>
      (\<exists>cfgs s'. next_batch cls s n = Inr (cfgs, s') \<and> invar s' \<and> cfgs \<noteq> [] \<and> int (length cfgs) \<le> n
        \<and> list_all (proposes s') cfgs)
      \<or> draws_over (next_batch cls s n)"
    and update_law: "invar s \<Longrightarrow> good_pairs pairs \<Longrightarrow> list_all (\<lambda>pair. proposes s (mi_config (fst pair))) pairs \<Longrightarrow>
      (\<exists>s'. update cls s pairs = Inr s' \<and> invar s') \<or> draws_over (update cls s pairs)"
begin

lemma step_ok:
  assumes "loop_ok invar trials st" and "good_measure mb" and "ts_i st < trials"
    and "has_next cls (t_sub (ts_tuner st))" and "good_callbacks callbacks"
  shows "draws_over (tune_step cls mb callbacks py_str trials early st)
        \<and> (draws_over (next_batch cls (t_sub (ts_tuner st)) (min (batch_parallel mb) (trials - ts_i st)))
             \<or> (\<exists>sub pairs. draws_over (update cls sub pairs)))
    \<or> (\<exists>st' go_on cfgs sub1 sub2. tune_step cls mb callbacks py_str trials early st = Inr (st', go_on)
        \<and> loop_ok invar trials st' \<and> ts_i st < ts_i st'
        \<and> (go_on \<longleftrightarrow> ts_i st' < best_iter (ts_tuner st') + early)
        \<and> next_batch cls (t_sub (ts_tuner st)) (min (batch_parallel mb) (trials - ts_i st)) = Inr (cfgs, sub1)
        \<and> map (mi_config \<circ> fst) (ts_history st') = map (mi_config \<circ> fst) (ts_history st) @ cfgs
        \<and> invar sub1 \<and> (\<exists>pairs. good_pairs pairs \<and> list_all (\<lambda>pair. proposes sub1 (mi_config (fst pair))) pairs
              \<and> update cls sub1 pairs = Inr sub2) \<and> t_sub (ts_tuner st') = sub2)"
proof -
  let ?t = "ts_tuner st" and ?n = "min (batch_parallel mb) (trials - ts_i st)"
  have n: "0 < ?n" using assms(2,3) by (simp add: good_measure_def)
  have invar: "invar (t_sub ?t)" and best: "best_ok ?t (ts_history st)"
    and i: "ts_i st = int (length (ts_history st))" and flop: "task_flop (t_task ?t) \<noteq> None"
    using assms(1) by (auto simp: loop_ok_def)
  show ?thesis
  proof (cases "draws_over (next_batch cls (t_sub ?t) ?n)")
    case True
    then show ?thesis by (simp add: draws_over_def tune_step_def Let_def)
  next
    case False
    then obtain cfgs sub1 where nb: "next_batch cls (t_sub ?t) ?n = Inr (cfgs, sub1)" "invar sub1"
      "cfgs \<noteq> []" "int (length cfgs) \<le> ?n" "list_all (proposes sub1) cfgs" using batch_law [OF invar assms(4) n] by blast
    define inputs where "inputs = map (\<lambda>c. \<lparr>mi_target = task_target (t_task ?t), mi_task = t_task ?t, mi_config = c\<rparr>) cfgs"
    obtain results env1 where mb: "batch_call mb (ts_env st) inputs = (results, env1)"
      by (cases "batch_call mb (ts_env st) inputs")
    then have len: "length results = length inputs" and good: "list_all good_result results"
      using assms(2) unfolding good_measure_def by (metis fst_conv)+
    define pairs where "pairs = zip inputs results"
    have gp: "good_pairs pairs"
      using good flop by (fastforce simp: good_pairs_def pairs_def inputs_def list_all_iff dest: set_zip_rightD set_zip_leftD)
    have plen: "length pairs = length cfgs" by (simp add: pairs_def len inputs_def)
    have cfgs: "map (mi_config \<circ> fst) pairs = cfgs"
      using len by (simp add: pairs_def inputs_def comp_def flip: map_map [of mi_config fst, unfolded comp_def])
    have proposed: "list_all (\<lambda>pair. proposes sub1 (mi_config (fst pair))) pairs"
      using nb(5) unfolding cfgs [symmetric] by (simp add: list_all_iff)
    have best1: "best_ok (?t\<lparr>t_sub := sub1\<rparr>) (ts_history st)" using best by simp
    from keep_best_ok [OF best1 gp] obtain t1 ct errs where
      kb: "keep_best py_str (ts_i st) pairs (?t\<lparr>t_sub := sub1\<rparr>, ts_error_ct st, ts_errors st) = Inr (t1, ct, errs)"
      "best_ok t1 (ts_history st @ pairs)" "t_sub t1 = sub1" "t_task t1 = t_task ?t"
      unfolding i by fastforce
    show ?thesis
    proof (cases "draws_over (update cls sub1 pairs)")
      case True
      then show ?thesis using nb(1) mb kb
        by (auto simp: draws_over_def tune_step_def Let_def inputs_def pairs_def)
    next
      case False
      then obtain sub2 where up: "update cls sub1 pairs = Inr sub2" "invar sub2"
        using update_law [OF nb(2) gp proposed] by blast
      obtain env2 where cb: "res_foldl (\<lambda>e f. f (t1\<lparr>ttl := Some (min (early + best_iter t1) trials - (ts_i st + int (length pairs))), t_sub := sub2\<rparr>) e pairs) env1 callbacks = Inr env2"
        using good_callbacks_run [OF assms(5) gp] by blast
      define st' go_on where "st' = fst (projr (tune_step cls mb callbacks py_str trials early st))"
        and "go_on = snd (projr (tune_step cls mb callbacks py_str trials early st))"
      have step: "tune_step cls mb callbacks py_str trials early st = Inr (st', go_on)"
        and st': "ts_tuner st' = t1\<lparr>ttl := Some (min (early + best_iter t1) trials - (ts_i st + int (length pairs))), t_sub := sub2\<rparr>"
          "ts_i st' = ts_i st + int (length pairs)" "ts_history st' = ts_history st @ pairs"
          "go_on \<longleftrightarrow> ts_i st' < best_iter (ts_tuner st') + early"
        using nb(1) mb kb up plen len cb
        by (auto simp: st'_def go_on_def tune_step_def Let_def inputs_def pairs_def)
      have "loop_ok invar trials st'"
        using kb flop up(2) i nb(4) plen by (simp add: loop_ok_def st')
      moreover have "ts_i st < ts_i st'" using nb(3) plen by (simp add: st')
      ultimately show ?thesis using step st' nb(1,2) up(1) cfgs gp proposed by auto
    qed
  qed
qed

end

text \<open>
  Tuners that never propose a configuration twice: \<open>tried\<close> lists the indices proposed so far, out of
  \<open>lo ..< hi\<close>.
\<close>

locale recording_tuner = tuner_contract +
  fixes tried :: "'a \<Rightarrow> int list" and lo :: int and hi :: int
  assumes tried_batch: "invar s \<Longrightarrow> next_batch cls s n = Inr (cfgs, s') \<Longrightarrow> tried s' = tried s @ map cindex cfgs"
    and tried_update: "invar s \<Longrightarrow> good_pairs pairs \<Longrightarrow> list_all (\<lambda>pair. proposes s (mi_config (fst pair))) pairs \<Longrightarrow> update cls s pairs = Inr s' \<Longrightarrow>
      tried s' = tried s"
    and tried_inv: "invar s \<Longrightarrow> distinct (tried s) \<and> set (tried s) \<subseteq> {lo..<hi}"
begin

definition tracks :: "('a, 'e) tune_state \<Rightarrow> bool" where
  "tracks st \<longleftrightarrow> tried (t_sub (ts_tuner st)) = map (cindex \<circ> (mi_config \<circ> fst)) (ts_history st)"

lemma step_tracks:
  assumes "loop_ok invar trials st" and "tracks st" and "good_measure mb" and "ts_i st < trials"
    and "has_next cls (t_sub (ts_tuner st))" and "good_callbacks callbacks"
  shows "draws_over (tune_step cls mb callbacks py_str trials early st)
        \<and> (draws_over (next_batch cls (t_sub (ts_tuner st)) (min (batch_parallel mb) (trials - ts_i st)))
             \<or> (\<exists>sub pairs. draws_over (update cls sub pairs)))
    \<or> (\<exists>st' go_on. tune_step cls mb callbacks py_str trials early st = Inr (st', go_on)
    \<and> loop_ok invar trials st' \<and> tracks st' \<and> ts_i st < ts_i st'
    \<and> (go_on \<longleftrightarrow> ts_i st' < best_iter (ts_tuner st') + early))"
proof (cases "draws_over (tune_step cls mb callbacks py_str trials early st)")
  case True
  then show ?thesis using step_ok [OF assms(1,3-6), of py_str early] by (auto simp: draws_over_def)
next
  case False
  let ?s = "t_sub (ts_tuner st)" and ?n = "min (batch_parallel mb) (trials - ts_i st)"
  have inv: "invar ?s" using assms(1) by (simp add: loop_ok_def)
  with step_ok [OF assms(1,3-6), of py_str early] False
  obtain st' go_on cfgs sub1 pairs where
    st': "tune_step cls mb callbacks py_str trials early st = Inr (st', go_on)" "loop_ok invar trials st'"
      "ts_i st < ts_i st'" "go_on \<longleftrightarrow> ts_i st' < best_iter (ts_tuner st') + early"
    and nb: "next_batch cls ?s ?n = Inr (cfgs, sub1)" "invar sub1" "good_pairs pairs" "list_all (\<lambda>pair. proposes sub1 (mi_config (fst pair))) pairs"
      "update cls sub1 pairs = Inr (t_sub (ts_tuner st'))"
    and hist: "map (mi_config \<circ> fst) (ts_history st') = map (mi_config \<circ> fst) (ts_history st) @ cfgs"
    by blast
  have "tried (t_sub (ts_tuner st')) = tried ?s @ map cindex cfgs"
    using tried_update [OF nb(2-5)] tried_batch [OF inv nb(1)] by simp
  then have "tracks st'" using assms(2) hist unfolding tracks_def by (metis map_append map_map)
  then show ?thesis using st' by blast
qed

lemma loop_records:
  assumes "loop_ok invar trials st" and "tracks st" and "good_measure mb" and "trials - ts_i st \<le> int fuel" and "good_callbacks callbacks"
  shows "\<exists>r. tune_loop fuel cls mb callbacks py_str trials early st = Some r
    \<and> (draws_over r \<or> (\<exists>st'. r = Inr st' \<and> loop_ok invar trials st' \<and> tracks st'
        \<and> (ts_i st' = trials \<or> \<not> has_next cls (t_sub (ts_tuner st'))
            \<or> ts_i st' \<ge> best_iter (ts_tuner st') + early)))"
  using assms
proof (induction fuel arbitrary: st)
  case 0
  then have "\<not> ts_i st < trials" by simp
  with 0 show ?case by (auto simp: tune_loop.simps [of 0] loop_ok_def)
next
  case (Suc fuel)
  show ?case
  proof (cases "ts_i st < trials \<and> has_next cls (t_sub (ts_tuner st))")
    case False
    with Suc.prems(1,2) show ?thesis by (auto simp: tune_loop.simps [of "Suc fuel"] loop_ok_def)
  next
    case True
    show ?thesis
    proof (cases "draws_over (tune_step cls mb callbacks py_str trials early st)")
      case True
      with \<open>_ \<and> _\<close> show ?thesis by (simp add: tune_loop.simps [of "Suc fuel"] draws_over_def)
    next
      case False
      with step_tracks [OF Suc.prems(1-3) _ _ Suc.prems(5)] True obtain st' go_on where
        st': "tune_step cls mb callbacks py_str trials early st = Inr (st', go_on)" "loop_ok invar trials st'" "tracks st'"
          "ts_i st < ts_i st'" "go_on \<longleftrightarrow> ts_i st' < best_iter (ts_tuner st') + early" by blast
      have "trials - ts_i st' \<le> int fuel" using st'(4) Suc.prems(4) by simp
      from Suc.IH [OF st'(2,3) Suc.prems(3) this Suc.prems(5)] True st' show ?thesis
        by (cases go_on) (simp_all add: tune_loop.simps [of "Suc fuel"])
    qed
  qed
qed

lemma tune_records:
  assumes "invar s" and "tried s = []" and "task_flop t \<noteq> None" and "good_measure mb" and "0 \<le> trials"
    and "format_si_prefix 0 si = Inr x" and "good_callbacks callbacks"
  shows "tune (nat trials) cls mb callbacks py_str (tuner_init t s) env trials early si = Some (Inl NoDraws)
    \<or> (\<exists>st warned. tune (nat trials) cls mb callbacks py_str (tuner_init t s) env trials early si = Some (Inr (st, warned))
        \<and> best_ok (ts_tuner st) (ts_history st) \<and> tracks st \<and> invar (t_sub (ts_tuner st)) \<and> int (length (ts_history st)) \<le> trials
        \<and> (int (length (ts_history st)) = trials \<or> \<not> has_next cls (t_sub (ts_tuner st))
            \<or> int (length (ts_history st)) \<ge> best_iter (ts_tuner st) + early_limit early))"
proof -
  let ?st = "\<lparr>ts_tuner = (tuner_init t s)\<lparr>n_trial := Some trials, early_stopping := Some (early_limit early)\<rparr>,
    ts_i = 0, ts_error_ct = 0, ts_errors = [], ts_debug = False, ts_env = env, ts_history = []\<rparr>"
  have ok: "loop_ok invar trials ?st" and tr: "tracks ?st"
    using assms by (simp_all add: loop_ok_def tracks_def best_ok_def tuner_init_def)
  from loop_records [OF ok tr assms(4) _ assms(7), where fuel = "nat trials" and py_str = py_str
      and early = "early_limit early"] assms(5)
  obtain r where "tune_loop (nat trials) cls mb callbacks py_str trials (early_limit early) ?st = Some r"
    "draws_over r \<or> (\<exists>st'. r = Inr st' \<and> loop_ok invar trials st' \<and> tracks st'
        \<and> (ts_i st' = trials \<or> \<not> has_next cls (t_sub (ts_tuner st')) \<or> ts_i st' \<ge> best_iter (ts_tuner st') + early_limit early))"
    by auto
  then show ?thesis using assms(6) unfolding tune_def by (auto simp: loop_ok_def Let_def draws_over_def)
qed

end

text \<open>Tuners that, in addition, always have draws left and propose every index of \<open>lo ..< hi\<close> in the end.\<close>

locale exhaustive_tuner = recording_tuner +
  assumes next_iff: "invar s \<Longrightarrow> has_next cls s \<longleftrightarrow> set (tried s) \<noteq> {lo..<hi}"
    and batch_draws: "invar s \<Longrightarrow> \<not> draws_over (next_batch cls s n)"
    and update_draws: "\<not> draws_over (update cls s pairs)"
begin

lemma step_draws:
  assumes "loop_ok invar trials st" and "tracks st" and "good_measure mb" and "ts_i st < trials"
    and "has_next cls (t_sub (ts_tuner st))" and "good_callbacks callbacks"
  shows "\<exists>st' go_on. tune_step cls mb callbacks py_str trials early st = Inr (st', go_on)
    \<and> loop_ok invar trials st' \<and> tracks st' \<and> ts_i st < ts_i st'
    \<and> (go_on \<longleftrightarrow> ts_i st' < best_iter (ts_tuner st') + early)"
proof -
  have "invar (t_sub (ts_tuner st))" using assms(1) by (simp add: loop_ok_def)
  then show ?thesis using step_tracks [OF assms, of py_str early] batch_draws update_draws by blast
qed

lemma loop_exhausts:
  assumes "loop_ok invar trials st" and "tracks st" and "good_measure mb" and "trials - ts_i st \<le> int fuel" and "good_callbacks callbacks"
  shows "\<exists>st'. tune_loop fuel cls mb callbacks py_str trials early st = Some (Inr st')
    \<and> loop_ok invar trials st' \<and> tracks st'
    \<and> (ts_i st' = trials \<or> \<not> has_next cls (t_sub (ts_tuner st'))
        \<or> ts_i st' \<ge> best_iter (ts_tuner st') + early)"
  using assms
proof (induction fuel arbitrary: st)
  case 0
  then show ?case by (auto simp: tune_loop.simps [of 0] loop_ok_def)
next
  case (Suc fuel)
  show ?case
  proof (cases "ts_i st < trials \<and> has_next cls (t_sub (ts_tuner st))")
    case False
    with Suc.prems show ?thesis by (auto simp: tune_loop.simps [of "Suc fuel"] loop_ok_def)
  next
    case True
    from step_draws [OF Suc.prems(1-3) _ _ Suc.prems(5)] True obtain st' go_on where
      st': "tune_step cls mb callbacks py_str trials early st = Inr (st', go_on)" "loop_ok invar trials st'"
        "tracks st'" "ts_i st < ts_i st'" "go_on \<longleftrightarrow> ts_i st' < best_iter (ts_tuner st') + early" by blast
    have "trials - ts_i st' \<le> int fuel" using st'(4) Suc.prems(4) by simp
    from Suc.IH [OF st'(2,3) Suc.prems(3) this Suc.prems(5)] True st' show ?thesis
      by (cases go_on) (simp_all add: tune_loop.simps [of "Suc fuel"])
  qed
qed

text \<open>
  A whole run from a fresh tuner: the trials are different configurations of the range, and all of
  them when neither the trial limit nor early stopping ends the run.
\<close>

lemma tune_exhausts:
  assumes "invar s" and "tried s = []" and "task_flop t \<noteq> None" and "good_measure mb" and "0 \<le> trials"
    and "format_si_prefix 0 si = Inr x" and "good_callbacks callbacks"
  shows "\<exists>st warned. tune (nat trials) cls mb callbacks py_str (tuner_init t s) env trials early si
      = Some (Inr (st, warned))
    \<and> best_ok (ts_tuner st) (ts_history st) \<and> invar (t_sub (ts_tuner st)) \<and> tracks st
    \<and> ts_i st = int (length (ts_history st)) \<and> ts_i st \<le> trials \<and> ts_i st \<le> max 0 (hi - lo)
    \<and> (ts_i st = min trials (max 0 (hi - lo)) \<or> ts_i st \<ge> best_iter (ts_tuner st) + early_limit early)"
proof -
  let ?st = "\<lparr>ts_tuner = (tuner_init t s)\<lparr>n_trial := Some trials, early_stopping := Some (early_limit early)\<rparr>,
    ts_i = 0, ts_error_ct = 0, ts_errors = [], ts_debug = False, ts_env = env, ts_history = []\<rparr>"
  have ok: "loop_ok invar trials ?st" and "tracks ?st"
    using assms by (simp_all add: loop_ok_def tracks_def best_ok_def tuner_init_def)
  then obtain st where
    st: "tune_loop (nat trials) cls mb callbacks py_str trials (early_limit early) ?st = Some (Inr st)"
      "loop_ok invar trials st" "tracks st"
      "ts_i st = trials \<or> \<not> has_next cls (t_sub (ts_tuner st)) \<or> ts_i st \<ge> best_iter (ts_tuner st) + early_limit early"
    using loop_exhausts [OF ok \<open>tracks ?st\<close> assms(4) _ assms(7), where fuel = "nat trials" and py_str = py_str and early = "early_limit early"] assms(5) by auto
  let ?tr = "tried (t_sub (ts_tuner st))"
  have inv: "invar (t_sub (ts_tuner st))" using st(2) by (simp add: loop_ok_def)
  have len: "ts_i st = int (length ?tr)" using st(2,3) by (simp add: loop_ok_def tracks_def)
  have "distinct ?tr" "set ?tr \<subseteq> {lo..<hi}" using tried_inv [OF inv] by auto
  then have card: "length ?tr = card (set ?tr)" "card (set ?tr) \<le> card {lo..<hi}"
    by (metis distinct_card) (metis \<open>set ?tr \<subseteq> {lo..<hi}\<close> card_mono finite_atLeastLessThan_int)
  have "ts_i st \<le> max 0 (hi - lo)" using len card by simp
  moreover have "ts_i st = max 0 (hi - lo)" if "\<not> has_next cls (t_sub (ts_tuner st))"
    using that next_iff [OF inv] len card(1) by simp
  ultimately show ?thesis using st assms(6) unfolding tune_def
    by (auto simp: loop_ok_def Let_def min_def)
qed

end

section \<open>Grid search\<close>

lemma cs_get_next [simp]:
  "cs_ready (snd (cs_get cs i)) = cs_ready cs" "cs_size (snd (cs_get cs i)) = cs_size cs"
proof -
  have "snd (cs_get cs i) = snd (cs_len cs)" by (simp add: cs_get_def split: prod.splits)
  then show "cs_ready (snd (cs_get cs i)) = cs_ready cs" "cs_size (snd (cs_get cs i)) = cs_size cs"
    by (auto simp: cs_len_def cs_ready_def cs_wf_def cs_fresh_def cs_dims_def Let_def split: option.splits)
qed

definition index_ok :: "int \<Rightarrow> int \<Rightarrow> 'z index_tuner_scheme \<Rightarrow> bool" where
  "index_ok lo hi s \<longleftrightarrow> cs_ready (it_space s) \<and> index_offset s = lo \<and> range_length s = hi - lo
     \<and> 0 \<le> lo \<and> hi \<le> cs_size (it_space s) \<and> 0 \<le> counter s \<and> counter s \<le> range_length s"

definition grid_tried :: "index_tuner \<Rightarrow> int list" where
  "grid_tried s = py_range (index_offset s) (index_offset s + counter s) 1"

lemma set_py_range_1: "set (py_range lo hi 1) = {lo..<hi}"
  by (subst set_py_range) auto

lemma interval_eq_iff:
  fixes c d lo :: int
  assumes "0 \<le> c" and "c \<le> d"
  shows "{lo..<lo + c} = {lo..<lo + d} \<longleftrightarrow> \<not> c < d"
proof
  assume eq: "{lo..<lo + c} = {lo..<lo + d}"
  have "lo + c \<notin> {lo..<lo + c}" by simp
  then show "\<not> c < d" using assms unfolding eq by simp
qed (use assms in simp)

lemma grid_loop_ok:
  assumes "index_ok lo hi s"
  shows "\<exists>cfgs s'. grid_loop n s = Inr (cfgs, s') \<and> index_ok lo hi s'
    \<and> counter s' = min (counter s + int n) (range_length s) \<and> length cfgs = nat (counter s' - counter s)
    \<and> grid_tried s' = grid_tried s @ map cindex cfgs"
  using assms
proof (induction n arbitrary: s)
  case 0
  then show ?case by (simp add: index_ok_def)
next
  case (Suc n)
  show ?case
  proof (cases "counter s \<ge> range_length s")
    case True
    with Suc.prems show ?thesis by (auto simp: index_ok_def)
  next
    case False
    let ?i = "counter s + index_offset s"
    let ?s = "s\<lparr>it_space := snd (cs_get (it_space s) ?i), counter := counter s + 1\<rparr>"
    obtain c where c: "cs_at (it_space s) ?i = Inr c" "cindex c = ?i"
      using csp.at_total [of "it_space s" ?i] csp.at_index Suc.prems False by (force simp: index_ok_def)
    have ok: "index_ok lo hi ?s" using Suc.prems False by (simp add: index_ok_def)
    from Suc.IH [OF this] obtain cfgs s' where s': "grid_loop n ?s = Inr (cfgs, s')" "index_ok lo hi s'"
      "counter s' = min (counter s + 1 + int n) (range_length s)" "length cfgs = nat (counter s' - (counter s + 1))"
      "grid_tried s' = grid_tried ?s @ map cindex cfgs" by auto
    have "py_range (index_offset s) ?i 1 @ py_range ?i (?i + 1) 1 = py_range (index_offset s) (?i + 1) 1"
      using Suc.prems by (intro py_range_1_append) (simp_all add: index_ok_def)
    then have "grid_tried ?s = grid_tried s @ [cindex c]"
      by (simp add: grid_tried_def c(2) py_range_1 add.commute add.left_commute)
    moreover have "grid_loop (Suc n) s = Inr (c # cfgs, s')"
      using False c(1) s'(1) by (simp add: prod.case_eq_if)
    ultimately show ?thesis using s' False by (auto simp: Suc_nat_eq_nat_zadd1)
  qed
qed

interpretation grid: exhaustive_tuner grid_tuner "index_ok lo hi" "\<lambda>_ _. True" grid_tried lo hi for lo hi
proof unfold_locales
  fix s and n :: int and cfgs s' and pairs :: "measured list"
  show "(\<exists>cfgs s'. next_batch grid_tuner s n = Inr (cfgs, s') \<and> index_ok lo hi s' \<and> cfgs \<noteq> [] \<and> int (length cfgs) \<le> n
        \<and> list_all (\<lambda>_. True) cfgs) \<or> draws_over (next_batch grid_tuner s n)" if "index_ok lo hi s" "has_next grid_tuner s" "0 < n"
    using grid_loop_ok [OF that(1), of "nat n"] that
    by (force simp: grid_tuner_def grid_next_batch_def index_has_next_def list_all_iff)
  show "(\<exists>s'. update grid_tuner s pairs = Inr s' \<and> index_ok lo hi s') \<or> draws_over (update grid_tuner s pairs)"
    if "index_ok lo hi s" using that by (simp add: grid_tuner_def)
  show "grid_tried s' = grid_tried s @ map cindex cfgs"
    if "index_ok lo hi s" "next_batch grid_tuner s n = Inr (cfgs, s')"
    using grid_loop_ok [OF that(1), of "nat n"] that(2) by (auto simp: grid_tuner_def grid_next_batch_def)
  show "grid_tried s' = grid_tried s" if "update grid_tuner s pairs = Inr s'"
    using that by (simp add: grid_tuner_def)
  show "distinct (grid_tried s) \<and> set (grid_tried s) \<subseteq> {lo..<hi}" if "index_ok lo hi s"
    using that by (auto simp: grid_tried_def py_range_1 index_ok_def distinct_map inj_on_def)
  show "has_next grid_tuner s \<longleftrightarrow> set (grid_tried s) \<noteq> {lo..<hi}" if "index_ok lo hi s"
    using that interval_eq_iff [of "counter s" "hi - lo" lo]
    by (simp add: grid_tried_def set_py_range_1 index_ok_def grid_tuner_def index_has_next_def)
  show "\<not> draws_over (next_batch grid_tuner s n)" if "index_ok lo hi s"
    using grid_loop_ok [OF that, of "nat n"] by (auto simp: grid_tuner_def grid_next_batch_def draws_over_def)
  show "\<not> draws_over (update grid_tuner s pairs)" by (simp add: grid_tuner_def draws_over_def)
qed

lemma index_tuner_init_ok:
  assumes "cs_ready cs"
  shows "\<exists>s. index_tuner_init cs None = Inr s \<and> index_ok 0 (cs_size cs) s \<and> counter s = 0"
proof -
  have "cs_ready (snd (cs_len cs)) \<and> cs_size (snd (cs_len cs)) = cs_size cs"
    using assms cs_get_next [of cs 0] by (simp add: cs_get_def split: prod.splits)
  moreover have "0 < cs_size cs"
    using cs_ready_size [OF assms] cs_ready_dims [OF assms] by (auto simp: good_dims_def intro: prod_list_pos)
  ultimately show ?thesis by (simp add: index_tuner_init_def index_ok_def prod.case_eq_if)
qed

text \<open>
  C3. A grid search run of \<open>n_trial\<close> trials on a ready space ends with a result: it measures the
  configurations \<open>0, 1, 2, ...\<close> in order, each once, up to the size of the space, the limit or
  early stopping, and the stored best is a fastest successful measurement of the run. The callbacks may do anything but raise.
\<close>

theorem grid_search_tune:
  assumes "cs_ready cs" and "index_tuner_init cs None = Inr s" and "task_flop t \<noteq> None"
    and "good_measure mb" and "0 \<le> trials" and "format_si_prefix 0 si = Inr x" and "good_callbacks callbacks"
  shows "\<exists>st warned. tune (nat trials) grid_tuner mb callbacks py_str (tuner_init t s) env trials early si
      = Some (Inr (st, warned))
    \<and> best_ok (ts_tuner st) (ts_history st)
    \<and> map (cindex \<circ> (mi_config \<circ> fst)) (ts_history st) = py_range 0 (ts_i st) 1
    \<and> (ts_i st = min trials (cs_size cs)
        \<or> ts_i st \<le> min trials (cs_size cs) \<and> ts_i st \<ge> best_iter (ts_tuner st) + early_limit early)"
proof -
  have s: "index_ok 0 (cs_size cs) s" "counter s = 0" and pos: "0 \<le> cs_size cs"
    using index_tuner_init_ok [OF assms(1)] assms(2) by (auto simp: index_ok_def)
  then have "grid_tried s = []" by (simp add: grid_tried_def py_range_1)
  from grid.tune_exhausts [OF s(1) this assms(3-7), of py_str env early] pos
  obtain st warned where st: "tune (nat trials) grid_tuner mb callbacks py_str (tuner_init t s) env trials early si
      = Some (Inr (st, warned))" "best_ok (ts_tuner st) (ts_history st)"
    "index_ok 0 (cs_size cs) (t_sub (ts_tuner st))" "grid.tracks st" "ts_i st = int (length (ts_history st))"
    "ts_i st \<le> trials" "ts_i st \<le> cs_size cs"
    "ts_i st = min trials (cs_size cs) \<or> ts_i st \<ge> best_iter (ts_tuner st) + early_limit early"
    by auto
  have tr: "grid_tried (t_sub (ts_tuner st)) = map (cindex \<circ> (mi_config \<circ> fst)) (ts_history st)"
    using st(4) by (simp add: grid.tracks_def)
  have "length (grid_tried (t_sub (ts_tuner st))) = nat (counter (t_sub (ts_tuner st)))"
    using st(3) by (simp add: grid_tried_def py_range_1)
  then have "counter (t_sub (ts_tuner st)) = ts_i st"
    using tr st(3,5) by (simp add: index_ok_def)
  then have "grid_tried (t_sub (ts_tuner st)) = py_range 0 (ts_i st) 1"
    using st(3) by (simp add: grid_tried_def index_ok_def)
  then show ?thesis using st tr by auto
qed

definition sample_task :: task where
  "sample_task = (task_init ''dense'' [])\<lparr>task_flop := Some 1000\<rparr>"

definition sample_measure :: "unit batch_fn" where
  "sample_measure = \<lparr>batch_call = (\<lambda>e inputs.
      (map (\<lambda>_. \<lparr>costs = [OFloat 2], error_no = 0, all_cost = 1, timestamp = 0\<rparr>) inputs, e)),
     batch_parallel = 4\<rparr>"

lemma sample_measure_good: "good_measure sample_measure"
  by (auto simp: good_measure_def sample_measure_def good_result_def list_all_iff)

lemma format_si_G: "\<exists>x. format_si_prefix 0 ''G'' = Inr x"
  by (simp add: format_si_prefix_def SI_PREFIXES_def)

theorem grid_search_tune_witness:
  "\<exists>s st warned. index_tuner_init sample_space None = Inr s
    \<and> tune (nat 10) grid_tuner sample_measure [] (\<lambda>_. []) (tuner_init sample_task s) () 10 None ''G''
        = Some (Inr (st, warned))
    \<and> map (cindex \<circ> (mi_config \<circ> fst)) (ts_history st) = py_range 0 (ts_i st) 1"
proof -
  obtain s where s: "index_tuner_init sample_space None = Inr s"
    using index_tuner_init_ok [OF sample_space_ready] by blast
  obtain x where x: "format_si_prefix 0 ''G'' = Inr x" using format_si_G by blast
  have "task_flop sample_task \<noteq> None" by (simp add: sample_task_def)
  from grid_search_tune [OF sample_space_ready s this sample_measure_good _ x good_callbacks_none, of 10] s show ?thesis
    by fastforce
qed

text \<open>Computing the size, which caches it, changes nothing else of a space.\<close>

lemma cs_len_next [simp]:
  "cs_ready (snd (cs_len cs)) = cs_ready cs" "cs_size (snd (cs_len cs)) = cs_size cs"
  "cs_dims (snd (cs_len cs)) = cs_dims cs"
  by (auto simp: cs_len_def cs_ready_def cs_wf_def cs_fresh_def cs_dims_def Let_def split: option.splits)

end
