(* ===== verification/RandomSearch.thy ===== *)
theory RandomSearch
  imports TunerCorrect
begin

text \<open>
  Correctness of the random tuner: its dictionary mimics a shrinking array of the indices not yet
  tried, so that it enumerates the space without repetition. It interprets the locale
  \<open>exhaustive_tuner\<close> for a supply with a draw for every configuration.
\<close>

text \<open>The array that the dictionary stands for.\<close>

definition rand_array :: "(int \<times> int) list \<Rightarrow> nat \<Rightarrow> int list" where
  "rand_array m n = map (\<lambda>i. rand_get m (int i)) [0..<n]"

lemma swap_remove_mset:
  assumes "length xs = Suc k" and "i < Suc k"
  shows "add_mset (xs ! i) (mset (take k (xs[i := xs ! k]))) = mset xs"
proof -
  have xs: "xs = take k xs @ [xs ! k]" using assms(1) by (metis lessI take_Suc_conv_app_nth take_all_iff order_refl)
  show ?thesis
  proof (cases "i = k")
    case True
    then have "take k (xs[i := xs ! k]) = take k xs" by simp
    then show ?thesis using True xs by (metis mset_append mset.simps(2) mset.simps(1) union_mset_add_mset_right add.right_neutral add_mset_add_single)
  next
    case False
    then have "i < k" using assms(2) by simp
    then have "take k (xs[i := xs ! k]) = (take k xs)[i := xs ! k]" by (simp add: take_update_swap)
    moreover have "add_mset (xs ! i) (mset ((take k xs)[i := xs ! k])) = add_mset (xs ! k) (mset (take k xs))"
      using \<open>i < k\<close> assms(1) by (simp add: mset_update) (simp add: in_set_conv_nth insert_DiffM exI [of _ i])
    moreover have "mset xs = add_mset (xs ! k) (mset (take k xs))" by (subst xs) simp
    ultimately show ?thesis by simp
  qed
qed

lemma rand_array_step:
  assumes "i < Suc k"
  shows "rand_array (AList.delete (int k) (AList.update (int i) (rand_get m (int k)) m)) k
    = take k ((rand_array m (Suc k))[i := rand_array m (Suc k) ! k])"
  using assms
  by (intro nth_equalityI)
    (auto simp: rand_array_def rand_get_def nth_list_update AList.delete_conv' update_conv' nth_append)

definition random_ok :: "int \<Rightarrow> int \<Rightarrow> random_tuner \<Rightarrow> bool" where
  "random_ok lo hi s \<longleftrightarrow> cs_ready (it_space s) \<and> index_offset s = lo \<and> range_length s = hi - lo
     \<and> 0 \<le> lo \<and> hi \<le> cs_size (it_space s) \<and> 0 \<le> rand_max s \<and> rand_max s + counter s = hi - lo
     \<and> rand_max s \<le> int (length (rt_draws s)) \<and> counter s = int (length (rt_visited s))
     \<and> mset (map (\<lambda>i. lo + i) (rand_array (rand_state s) (nat (rand_max s)))) + mset (rt_visited s)
         = mset (py_range lo hi 1)"

lemma random_pick_ok:
  assumes "random_ok lo hi s" and "rand_max s \<noteq> 0"
  shows "\<exists>c s'. random_pick s = Inr (c, s') \<and> random_ok lo hi s' \<and> rand_max s' = rand_max s - 1
    \<and> rt_visited s' = rt_visited s @ [cindex c]"
proof -
  obtain k where k: "rand_max s = int (Suc k)"
    using assms by (metis random_ok_def nonneg_int_cases not0_implies_Suc of_nat_0)
  obtain d ds where ds: "rt_draws s = d # ds"
    using assms(1) k by (cases "rt_draws s") (auto simp: random_ok_def)
  define i where "i = nat (d mod int (Suc k))"
  have i: "i < Suc k" "d mod int (Suc k) = int i" by (auto simp: i_def nat_less_iff)
  let ?A = "rand_array (rand_state s) (Suc k)"
  let ?m = "AList.delete (int k) (AList.update (int i) (rand_get (rand_state s) (int k)) (rand_state s))"
  have Ai: "?A ! i = rand_get (rand_state s) (int i)" using i(1) by (simp add: rand_array_def del: upt_Suc)
  have sum: "mset (map (\<lambda>i. lo + i) ?A) + mset (rt_visited s) = mset (py_range lo hi 1)"
    using assms(1) k by (simp add: random_ok_def nat_add_distrib)
  have arr: "add_mset (?A ! i) (mset (rand_array ?m k)) = mset ?A"
    using swap_remove_mset [of ?A k i] rand_array_step [OF i(1)] i(1) by (simp add: rand_array_def del: upt_Suc)
  define index where "index = rand_get (rand_state s) (int i) + index_offset s"
  have off: "index_offset s = lo" using assms(1) by (simp add: random_ok_def)
  have "lo + ?A ! i \<in># mset (map (\<lambda>i. lo + i) ?A)" using i(1) by (simp add: rand_array_def del: upt_Suc)
  then have "lo + ?A ! i \<in> set (py_range lo hi 1)" using sum by (metis set_mset_mset union_iff)
  then have "lo \<le> index" "index < hi" by (auto simp: set_py_range_1 Ai index_def off)
  then obtain c where c: "cs_at (it_space s) index = Inr c" "cindex c = index"
    using csp.at_total [of "it_space s" index] csp.at_index assms(1) by (force simp: random_ok_def)
  let ?s = "s\<lparr>it_space := snd (cs_get (it_space s) index), counter := counter s + 1, rand_state := ?m,
    rand_max := int k, rt_visited := rt_visited s @ [index], rt_draws := ds\<rparr>"
  have "random_pick s = Inr (c, ?s)"
    using k ds i(2) c(1) by (simp add: random_pick_def randint_def index_def Let_def prod.case_eq_if)
  moreover have "mset (map (\<lambda>i. lo + i) (rand_array ?m k)) + mset (rt_visited s @ [index]) = mset (py_range lo hi 1)"
  proof -
    have "mset (map (\<lambda>i. lo + i) ?A) = add_mset (lo + ?A ! i) (mset (map (\<lambda>i. lo + i) (rand_array ?m k)))"
      unfolding mset_map by (simp flip: arr)
    then show ?thesis using sum by (simp add: index_def off Ai add.commute)
  qed
  ultimately show ?thesis using assms(1) k ds c(2) by (auto simp: random_ok_def)
qed

lemma random_loop_ok:
  assumes "random_ok lo hi s"
  shows "\<exists>cfgs s'. random_loop n s = Inr (cfgs, s') \<and> random_ok lo hi s'
    \<and> length cfgs = min n (nat (rand_max s)) \<and> rt_visited s' = rt_visited s @ map cindex cfgs"
  using assms
proof (induction n arbitrary: s)
  case 0
  then show ?case by simp
next
  case (Suc n)
  show ?case
  proof (cases "rand_max s = 0")
    case False
    from random_pick_ok [OF Suc.prems this] obtain c s1 where
      s1: "random_pick s = Inr (c, s1)" "random_ok lo hi s1" "rand_max s1 = rand_max s - 1"
        "rt_visited s1 = rt_visited s @ [cindex c]" by blast
    from Suc.IH [OF s1(2)] obtain cfgs s' where "random_loop n s1 = Inr (cfgs, s')" "random_ok lo hi s'"
      "length cfgs = min n (nat (rand_max s1))" "rt_visited s' = rt_visited s1 @ map cindex cfgs" by blast
    moreover have "0 < rand_max s" using False Suc.prems by (simp add: random_ok_def)
    ultimately show ?thesis using False s1 by (auto simp: min_def)
  qed (use Suc.prems in simp)
qed

lemma random_visited:
  assumes "random_ok lo hi s"
  shows "distinct (rt_visited s)" and "set (rt_visited s) \<subseteq> {lo..<hi}"
    and "set (rt_visited s) = {lo..<hi} \<longleftrightarrow> rand_max s = 0"
proof -
  let ?R = "map (\<lambda>i. lo + i) (rand_array (rand_state s) (nat (rand_max s)))"
  have sum: "mset (?R @ rt_visited s) = mset (py_range lo hi 1)" using assms by (simp add: random_ok_def)
  have "distinct (py_range lo hi 1)" by (auto simp: py_range_1 distinct_map inj_on_def)
  then have dist: "distinct (?R @ rt_visited s)" using mset_eq_imp_distinct_iff [OF sum] by simp
  have set: "set ?R \<union> set (rt_visited s) = {lo..<hi}"
    using mset_eq_setD [OF sum] by (simp add: set_py_range_1)
  show "distinct (rt_visited s)" and "set (rt_visited s) \<subseteq> {lo..<hi}" using dist set by auto
  have "set ?R \<inter> set (rt_visited s) = {}" using dist by simp
  moreover have "X = C \<longleftrightarrow> R = {}" if "R \<union> X = C" "R \<inter> X = {}" for R X C :: "int set" using that by blast
  ultimately have "set (rt_visited s) = {lo..<hi} \<longleftrightarrow> set ?R = {}" using set by metis
  then have "set (rt_visited s) = {lo..<hi} \<longleftrightarrow> ?R = []" by simp
  also have "\<dots> \<longleftrightarrow> rand_max s = 0" using assms by (auto simp: rand_array_def random_ok_def)
  finally show "set (rt_visited s) = {lo..<hi} \<longleftrightarrow> rand_max s = 0" .
qed

interpretation rand: exhaustive_tuner random_search "random_ok lo hi" "\<lambda>_ _. True" rt_visited lo hi for lo hi
proof unfold_locales
  fix s and n :: int and cfgs s' and pairs :: "measured list"
  have more: "has_next random_search s \<longleftrightarrow> 0 < rand_max s" if "random_ok lo hi s"
    using that by (auto simp: random_search_def index_has_next_def random_ok_def)
  show "(\<exists>cfgs s'. next_batch random_search s n = Inr (cfgs, s') \<and> random_ok lo hi s' \<and> cfgs \<noteq> [] \<and> int (length cfgs) \<le> n
        \<and> list_all (\<lambda>_. True) cfgs) \<or> draws_over (next_batch random_search s n)" if "random_ok lo hi s" "has_next random_search s" "0 < n"
    using random_loop_ok [OF that(1), of "nat n"] more [OF that(1)] that(2,3)
    by (force simp: random_search_def random_next_batch_def list_all_iff)
  show "(\<exists>s'. update random_search s pairs = Inr s' \<and> random_ok lo hi s') \<or> draws_over (update random_search s pairs)"
    if "random_ok lo hi s" using that by (simp add: random_search_def)
  show "rt_visited s' = rt_visited s @ map cindex cfgs"
    if "random_ok lo hi s" "next_batch random_search s n = Inr (cfgs, s')"
    using random_loop_ok [OF that(1), of "nat n"] that(2) by (auto simp: random_search_def random_next_batch_def)
  show "rt_visited s' = rt_visited s" if "update random_search s pairs = Inr s'"
    using that by (simp add: random_search_def)
  show "distinct (rt_visited s) \<and> set (rt_visited s) \<subseteq> {lo..<hi}" if "random_ok lo hi s"
    using random_visited [OF that] by simp
  show "has_next random_search s \<longleftrightarrow> set (rt_visited s) \<noteq> {lo..<hi}" if "random_ok lo hi s"
    using random_visited(3) [OF that] more [OF that] that by (auto simp: random_ok_def)
  show "\<not> draws_over (next_batch random_search s n)" if "random_ok lo hi s"
    using random_loop_ok [OF that, of "nat n"] by (auto simp: random_search_def random_next_batch_def draws_over_def)
  show "\<not> draws_over (update random_search s pairs)" by (simp add: random_search_def draws_over_def)
qed

lemma random_tuner_init_ok:
  assumes "cs_ready cs" and "cs_size cs \<le> int (length ds)"
  shows "\<exists>s. random_tuner_init cs None ds = Inr s \<and> random_ok 0 (cs_size cs) s \<and> rt_visited s = []"
proof -
  obtain s0 where s0: "index_tuner_init cs None = Inr s0" "index_ok 0 (cs_size cs) s0" "counter s0 = 0"
    using index_tuner_init_ok [OF assms(1)] by blast
  let ?s = "index_tuner.extend s0 (random_tuner.fields [] (range_length s0) [] ds)"
  have "random_ok 0 (cs_size cs) ?s"
    using s0 assms(2)
    by (auto simp: random_ok_def index_ok_def index_tuner.defs random_tuner.defs rand_array_def rand_get_def py_range_1)
  moreover have "rt_visited ?s = []" by (simp add: index_tuner.defs random_tuner.defs)
  ultimately show ?thesis using s0(1) by (simp add: random_tuner_init_def)
qed

text \<open>
  C4. A random search run on a ready space ends with a result: the measured configurations are
  pairwise different indices of the space, all of them when neither the limit nor early stopping
  ends the run, and the stored best is a fastest successful measurement of the run. The callbacks may do anything but raise.
\<close>

theorem random_search_tune:
  assumes "cs_ready cs" and "cs_size cs \<le> int (length ds)" and "random_tuner_init cs None ds = Inr s"
    and "task_flop t \<noteq> None" and "good_measure mb" and "0 \<le> trials" and "format_si_prefix 0 si = Inr x"
    and "good_callbacks callbacks"
  shows "\<exists>st warned. tune (nat trials) random_search mb callbacks py_str (tuner_init t s) env trials early si
      = Some (Inr (st, warned))
    \<and> best_ok (ts_tuner st) (ts_history st)
    \<and> distinct (map (cindex \<circ> (mi_config \<circ> fst)) (ts_history st))
    \<and> set (map (cindex \<circ> (mi_config \<circ> fst)) (ts_history st)) \<subseteq> {0..<cs_size cs}
    \<and> (int (length (ts_history st)) = min trials (cs_size cs)
        \<or> int (length (ts_history st)) \<ge> best_iter (ts_tuner st) + early_limit early)"
proof -
  have s: "random_ok 0 (cs_size cs) s" "rt_visited s = []" and pos: "0 \<le> cs_size cs"
    using random_tuner_init_ok [OF assms(1,2)] assms(3) by (auto simp: random_ok_def)
  from rand.tune_exhausts [OF s assms(4-8), of py_str env early] pos
  obtain st warned where st: "tune (nat trials) random_search mb callbacks py_str (tuner_init t s) env trials early si
      = Some (Inr (st, warned))" "best_ok (ts_tuner st) (ts_history st)"
    "random_ok 0 (cs_size cs) (t_sub (ts_tuner st))" "rand.tracks st" "ts_i st = int (length (ts_history st))"
    "ts_i st = min trials (cs_size cs) \<or> ts_i st \<ge> best_iter (ts_tuner st) + early_limit early"
    by auto
  have "rt_visited (t_sub (ts_tuner st)) = map (cindex \<circ> (mi_config \<circ> fst)) (ts_history st)"
    using st(4) by (simp add: rand.tracks_def)
  with random_visited [OF st(3)] st show ?thesis by auto
qed

theorem random_search_tune_witness:
  "\<exists>s st warned. random_tuner_init sample_space None [5, 3, 8, 1, 0, 2] = Inr s
    \<and> tune (nat 10) random_search sample_measure [] (\<lambda>_. []) (tuner_init sample_task s) () 10 None ''G''
        = Some (Inr (st, warned))
    \<and> distinct (map (cindex \<circ> (mi_config \<circ> fst)) (ts_history st))"
proof -
  have "cs_size sample_space = 6"
    using cs_ready_size [OF sample_space_ready] by (simp add: sample_space_def cs_dims_def space_len_def)
  then have len: "cs_size sample_space \<le> int (length [5, 3, 8, 1, 0, 2 :: int])" by simp
  obtain s where s: "random_tuner_init sample_space None [5, 3, 8, 1, 0, 2] = Inr s"
    using random_tuner_init_ok [OF sample_space_ready len] by blast
  obtain x where x: "format_si_prefix 0 ''G'' = Inr x" using format_si_G by blast
  have "task_flop sample_task \<noteq> None" by (simp add: sample_task_def)
  from random_search_tune [OF sample_space_ready len s this sample_measure_good _ x good_callbacks_none, of 10] s show ?thesis
    by fastforce
qed

end
