(* ===== verification/GATuner.thy ===== *)
theory GATuner
  imports Tuner
begin

text \<open>
  The genetic tuner of \<open>autotvm/tuner/ga_tuner.py\<close>. A gene is a knob vector. The set of visited
  points is a list without repetition; \<open>np.argpartition\<close>, whose order is open, is the argument
  \<open>argpartition\<close>. \<open>np.random.random()\<close> is a draw divided by \<open>2 ^ 53\<close>, and \<open>np.random.choice\<close>
  without replacement picks two different positions of non-zero probability.
\<close>

record ga_tuner =
  ga_space :: config_space
  pop_size :: int
  elite_num :: int
  mutation_prob :: rat
  ga_dims :: "int list"
  ga_visited :: "int list"
  genes :: "int list list"
  ga_scores :: "pyfloat list"
  elites :: "int list list"
  elite_scores :: "pyfloat list"
  ga_trial_pt :: int
  ga_draws :: draws

text \<open>A random gene that was not visited: the \<open>while\<close> loop of the initialisation.\<close>

fun ga_new_gene :: "int \<Rightarrow> int list \<Rightarrow> int list \<Rightarrow> draws \<Rightarrow> (int list \<times> draws) res" where
  "ga_new_gene n dims visited [] = (if n \<le> 0 then Inl ValueError else Inl NoDraws)"
| "ga_new_gene n dims visited (d # ds) =
     (if n \<le> 0 then Inl ValueError
      else res_bind (point2knob (d mod n) dims) (\<lambda>gene.
             if knob2point gene dims \<in> set visited then ga_new_gene n dims visited ds
             else Inr (gene, ds)))"

fun ga_populate ::
  "nat \<Rightarrow> int \<Rightarrow> int list \<Rightarrow> int list list \<Rightarrow> int list \<Rightarrow> draws \<Rightarrow>
   (int list list \<times> int list \<times> draws) res" where
  "ga_populate 0 n dims gs visited ds = Inr (gs, visited, ds)"
| "ga_populate (Suc k) n dims gs visited ds =
     res_bind (ga_new_gene n dims visited ds) (\<lambda>(gene, ds').
       ga_populate k n dims (gs @ [gene]) (visited @ [knob2point gene dims]) ds')"

definition ga_init :: "config_space \<Rightarrow> int \<Rightarrow> int \<Rightarrow> rat \<Rightarrow> draws \<Rightarrow> ga_tuner res" where
  "ga_init cs pop elite prob ds =
     (if \<not> elite \<le> pop then Inl AssertionError
      else let dims = cs_dims cs; (n, cs') = cs_len cs; pop' = min pop n; elite' = min pop' elite
        in if n < 0 then Inl ValueError else res_bind (ga_populate (nat pop') n dims [] [] ds) (\<lambda>(gs, visited, ds').
             Inr \<lparr>ga_space = cs', pop_size = pop', elite_num = elite', mutation_prob = prob,
                  ga_dims = dims, ga_visited = visited, genes = gs, ga_scores = [], elites = [],
                  elite_scores = [], ga_trial_pt = 0, ga_draws = ds'\<rparr>))"

fun ga_batch_loop :: "nat \<Rightarrow> ga_tuner \<Rightarrow> (config_entity list \<times> ga_tuner) res" where
  "ga_batch_loop 0 s = Inr ([], s)"
| "ga_batch_loop (Suc k) s =
     (if pop_size s = 0 then Inl ZeroDivisionError
      else res_bind (py_get (genes s) (ga_trial_pt s mod pop_size s)) (\<lambda>gene.
        let (r, cs') = cs_get (ga_space s) (knob2point gene (ga_dims s))
        in res_bind r (\<lambda>c.
             res_bind (ga_batch_loop k (s\<lparr>ga_trial_pt := ga_trial_pt s + 1, ga_space := cs'\<rparr>)) (\<lambda>(cfgs, s').
               Inr (c # cfgs, s')))))"

definition ga_next_batch :: "ga_tuner \<Rightarrow> int \<Rightarrow> (config_entity list \<times> ga_tuner) res" where
  "ga_next_batch s batch_size = ga_batch_loop (nat batch_size) s"

section \<open>Selection and reproduction\<close>

text \<open>\<open>np.argpartition(scores, -k)[-k:]\<close>: for \<open>k = 0\<close> the slice is the whole array.\<close>

definition ga_elite_indexes ::
  "(pyfloat list \<Rightarrow> int \<Rightarrow> nat list) \<Rightarrow> pyfloat list \<Rightarrow> int \<Rightarrow> nat list res" where
  "ga_elite_indexes argpartition scores k =
     (if int (length scores) < k \<or> int (length scores) \<le> - k then Inl ValueError
      else let part = argpartition scores (- k)
        in Inr (if 0 < k then drop (length part - nat k) part else drop (nat (- k)) part))"

text \<open>The weights \<open>scores + 1e-8\<close>, scaled by their maximum and normalised; NaN and infinity are refused.\<close>

definition ga_finite :: "pyfloat \<Rightarrow> rat res" where
  "ga_finite x = (case x of Fin q \<Rightarrow> Inr q | _ \<Rightarrow> Inl ValueError)"

definition ga_probs :: "pyfloat list \<Rightarrow> rat list res" where
  "ga_probs scores =
     res_bind (res_map ga_finite scores) (\<lambda>xs.
       let shifted = map (\<lambda>x. x + 1 / 10 ^ 8) xs
       in if shifted = [] then Inl ValueError
          else let m = Max (set shifted); scaled = map (\<lambda>x. x / m) shifted; total = sum_list scaled
            in if m = 0 \<or> total = 0 \<or> (\<exists>x \<in> set scaled. x / total < 0) then Inl ValueError
               else Inr (map (\<lambda>x. x / total) scaled))"

definition ga_choose_pair :: "rat list \<Rightarrow> draws \<Rightarrow> (nat \<times> nat \<times> draws) res" where
  "ga_choose_pair probs ds =
     (let support = filter (\<lambda>i. probs ! i \<noteq> 0) [0..<length probs]; n = int (length support)
      in if n < 2 then Inl ValueError
         else case ds of
                d1 # d2 # ds' \<Rightarrow>
                  let i = nat (d1 mod n); j = nat ((d1 mod n + 1 + d2 mod (n - 1)) mod n)
                  in Inr (support ! i, support ! j, ds')
              | _ \<Rightarrow> Inl NoDraws)"

fun ga_crossover ::
  "nat \<Rightarrow> rat list \<Rightarrow> int list list \<Rightarrow> int list \<Rightarrow> draws \<Rightarrow> (int list list \<times> draws) res" where
  "ga_crossover 0 probs gs dims ds = Inr ([], ds)"
| "ga_crossover (Suc k) probs gs dims ds =
     res_bind (ga_choose_pair probs ds) (\<lambda>(p1, p2, ds1).
     res_bind (randint (int (length dims)) ds1) (\<lambda>(point, ds2).
       let gene = take (nat point) (gs ! p1) @ drop (nat point) (gs ! p2)
       in res_bind (ga_crossover k probs gs dims ds2) (\<lambda>(rest, ds3). Inr (gene # rest, ds3))))"

text \<open>The mutation of one gene, position by position.\<close>

fun ga_mutate :: "rat \<Rightarrow> int list \<Rightarrow> nat \<Rightarrow> int list \<Rightarrow> draws \<Rightarrow> (int list \<times> draws) res" where
  "ga_mutate prob [] j gene ds = Inr (gene, ds)"
| "ga_mutate prob (dm # dms) j gene ds =
     (case ds of
        [] \<Rightarrow> Inl NoDraws
      | d # ds1 \<Rightarrow>
          if of_int (d mod 2 ^ 53) / 2 ^ 53 < prob
          then res_bind (randint dm ds1) (\<lambda>(v, ds2). ga_mutate prob dms (Suc j) (gene[j := v]) ds2)
          else ga_mutate prob dms (Suc j) gene ds1)"

text \<open>The loop that changes random positions until the gene is new.\<close>

fun ga_renew :: "int list \<Rightarrow> int list \<Rightarrow> int list \<Rightarrow> draws \<Rightarrow> (int list \<times> draws) res" where
  "ga_renew dims visited gene ds =
     (if knob2point gene dims \<in> set visited then
        (case ds of
           d1 # d2 # ds' \<Rightarrow>
             if dims = [] then Inl ValueError
             else let j = nat (d1 mod int (length dims))
               in if dims ! j \<le> 0 then Inl ValueError
                  else ga_renew dims visited (gene[j := d2 mod (dims ! j)]) ds'
         | _ \<Rightarrow> if dims = [] then Inl ValueError else Inl NoDraws)
      else Inr (gene, ds))"

declare ga_renew.simps [simp del]

fun ga_next_genes ::
  "rat \<Rightarrow> int \<Rightarrow> int list \<Rightarrow> int list list \<Rightarrow> int list list \<Rightarrow> int list \<Rightarrow> draws \<Rightarrow>
   (int list list \<times> int list \<times> draws) res" where
  "ga_next_genes prob n dims [] acc visited ds = Inr (acc, visited, ds)"
| "ga_next_genes prob n dims (gene # gs) acc visited ds =
     res_bind (ga_mutate prob dims 0 gene ds) (\<lambda>(gene1, ds1).
       if int (length visited) < n then
         res_bind (ga_renew dims visited gene1 ds1) (\<lambda>(gene2, ds2).
           ga_next_genes prob n dims gs (acc @ [gene2]) (visited @ [knob2point gene2 dims]) ds2)
       else Inr (acc, visited, ds1))"

definition ga_score :: "measured \<Rightarrow> pyfloat res" where
  "ga_score pair = (if error_no (snd pair) = 0 then measured_flops (fst pair) (snd pair) else Inr (Fin 0))"

definition ga_update ::
  "(pyfloat list \<Rightarrow> int \<Rightarrow> nat list) \<Rightarrow> ga_tuner \<Rightarrow> measured list \<Rightarrow> ga_tuner res" where
  "ga_update argpartition s pairs =
     res_bind (res_map ga_score pairs) (\<lambda>ys.
       let scores1 = ga_scores s @ ys; n = fst (cs_len (ga_space s));
           s1 = s\<lparr>ga_scores := scores1, ga_space := snd (cs_len (ga_space s))\<rparr>
       in if length scores1 \<ge> length (genes s) \<and> int (length (ga_visited s)) < n then
            let all_genes = genes s @ elites s;
                scores = take (length (genes s)) scores1 @ elite_scores s
            in res_bind (ga_elite_indexes argpartition scores (elite_num s)) (\<lambda>inds.
               res_bind (ga_probs scores) (\<lambda>probs.
               res_bind (ga_crossover (nat (pop_size s)) probs all_genes (ga_dims s) (ga_draws s))
                 (\<lambda>(tmp_genes, ds1).
               res_bind (ga_next_genes (mutation_prob s) n (ga_dims s) tmp_genes [] (ga_visited s) ds1)
                 (\<lambda>(next_genes, visited, ds2).
                   Inr (s1\<lparr>elites := map (\<lambda>i. all_genes ! i) inds,
                           elite_scores := map (\<lambda>i. scores ! i) inds,
                           genes := next_genes, ga_visited := visited, ga_trial_pt := 0,
                           ga_scores := [], ga_draws := ds2\<rparr>)))))
          else Inr s1)"

definition ga_has_next :: "ga_tuner \<Rightarrow> bool" where
  "ga_has_next s \<longleftrightarrow>
     int (length (ga_visited s)) - (int (length (genes s)) - ga_trial_pt s) < fst (cs_len (ga_space s))"

definition ga_class :: "(pyfloat list \<Rightarrow> int \<Rightarrow> nat list) \<Rightarrow> ga_tuner tuner_class" where
  "ga_class argpartition = \<lparr>has_next = ga_has_next, next_batch = ga_next_batch, update = ga_update argpartition\<rparr>"

end
