(* ===== verification/GATunerCorrect.thy ===== *)
theory GATunerCorrect
  imports GATuner TunerCorrect
begin

text \<open>
  Correctness of the genetic tuner: genes stay inside the space, a new generation consists of
  points that were never proposed before, and a batch that stays inside a generation proposes its
  genes in order. Two corner cases of the code are shown as well: a batch that reaches beyond a
  short generation, and a tuner without elites.
\<close>

section \<open>Invariant\<close>

abbreviation pt :: "int list \<Rightarrow> int list \<Rightarrow> int" where
  "pt dims g \<equiv> knob2point g dims"

definition ga_ok :: "ga_tuner \<Rightarrow> bool" where
  "ga_ok s \<longleftrightarrow> cs_ready (ga_space s) \<and> ga_dims s = cs_dims (ga_space s)
     \<and> (\<forall>g \<in> set (genes s @ elites s). in_dims g (ga_dims s))
     \<and> distinct (ga_visited s) \<and> set (ga_visited s) \<subseteq> {0..<cs_size (ga_space s)}
     \<and> distinct (map (pt (ga_dims s)) (genes s)) \<and> set (map (pt (ga_dims s)) (genes s)) \<subseteq> set (ga_visited s)
     \<and> length (elite_scores s) = length (elites s) \<and> int (length (genes s)) \<le> max 0 (pop_size s)"

text \<open>A list of new genes: inside the space, pairwise different and not visited.\<close>

definition fresh_genes :: "int list \<Rightarrow> int list \<Rightarrow> int list list \<Rightarrow> bool" where
  "fresh_genes dims visited gs \<longleftrightarrow> (\<forall>g \<in> set gs. in_dims g dims)
     \<and> distinct (visited @ map (pt dims) gs)"

lemma fresh_genes_snoc:
  assumes "fresh_genes dims visited gs" and "in_dims g dims" and "pt dims g \<notin> set (visited @ map (pt dims) gs)"
  shows "fresh_genes dims visited (gs @ [g])"
  using assms by (auto simp: fresh_genes_def)

lemma ga_new_gene_ok:
  assumes "good_dims dims" and "ga_new_gene n dims visited ds = Inr (g, ds')"
  shows "in_dims g dims \<and> pt dims g \<notin> set visited"
  using assms
  by (induction n dims visited ds rule: ga_new_gene.induct)
    (auto simp: res_bind_eq_Inr split: if_splits dest: kc.to_knob_in_dims)

lemma ga_populate_ok:
  assumes "good_dims dims" and "ga_populate k n dims gs (visited @ map (pt dims) gs) ds = Inr (gs', visited', ds')"
    and "fresh_genes dims visited gs"
  shows "fresh_genes dims visited gs' \<and> visited' = visited @ map (pt dims) gs' \<and> length gs' = length gs + k"
  using assms(2,3)
proof (induction k arbitrary: gs ds)
  case (Suc k)
  then obtain g ds1 where g: "ga_new_gene n dims (visited @ map (pt dims) gs) ds = Inr (g, ds1)"
    "ga_populate k n dims (gs @ [g]) (visited @ map (pt dims) (gs @ [g])) ds1 = Inr (gs', visited', ds')"
    by (auto simp: res_bind_eq_Inr)
  have "fresh_genes dims visited (gs @ [g])"
    using ga_new_gene_ok [OF assms(1) g(1)] Suc.prems(2) by (intro fresh_genes_snoc) auto
  with Suc.IH [OF g(2)] show ?case by simp
qed auto

section \<open>Reproduction\<close>

lemma ga_mutate_ok:
  assumes "ga_mutate prob dms j g ds = Inr (g', ds')" and "in_dims g dims" and "dms = drop j dims"
  shows "in_dims g' dims"
  using assms
proof (induction prob dms j g ds rule: ga_mutate.induct)
  case (2 prob dm dms j gene ds)
  then have j: "j < length dims" "dims ! j = dm" "dms = drop (Suc j) dims"
    by (metis drop_eq_Nil list.distinct(1) not_le, metis nth_via_drop, metis drop_Suc list.sel(3) tl_drop)
  obtain d ds1 where ds: "ds = d # ds1" using "2.prems"(1) by (cases ds) auto
  show ?case
  proof (cases "of_int (d mod 2 ^ 53) / 2 ^ 53 < prob")
    case True
    then obtain v ds2 where v: "randint dm ds1 = Inr (v, ds2)"
      "ga_mutate prob dms (Suc j) (gene[j := v]) ds2 = Inr (g', ds')"
      using "2.prems"(1) ds by (auto simp: res_bind_eq_Inr)
    have "in_dims (gene[j := v]) dims"
      using randint_range [OF v(1)] "2.prems"(2) j by (intro in_dims_update) auto
    then show ?thesis using "2.IH"(1) [OF ds True v(1) refl v(2)] j by blast
  next
    case False
    then show ?thesis using "2.IH"(2) [OF ds] "2.prems" ds j by simp
  qed
qed simp

lemma ga_renew_ok:
  assumes "ga_renew dims visited g ds = Inr (g', ds')" and "in_dims g dims"
  shows "in_dims g' dims \<and> pt dims g' \<notin> set visited"
  using assms
proof (induction dims visited g ds rule: ga_renew.induct)
  case (1 dims visited gene ds)
  show ?case
  proof (cases "knob2point gene dims \<in> set visited")
    case True
    then obtain d1 d2 ds1 where ds: "ds = d1 # d2 # ds1" "dims \<noteq> []"
      "\<not> dims ! nat (d1 mod int (length dims)) \<le> 0"
      "ga_renew dims visited (gene[nat (d1 mod int (length dims)) := d2 mod (dims ! nat (d1 mod int (length dims)))]) ds1
        = Inr (g', ds')"
      using "1.prems"(1) by (subst (asm) ga_renew.simps) (auto simp: Let_def split: list.splits if_splits)
    let ?j = "nat (d1 mod int (length dims))"
    have "?j < length dims" using ds(2) by (simp add: nat_less_iff)
    then have "in_dims (gene[?j := d2 mod (dims ! ?j)]) dims"
      using "1.prems"(2) ds(3) by (intro in_dims_update) auto
    then show ?thesis using "1.IH" [OF True ds(1) refl ds(2) refl ds(3,4)] by blast
  next
    case False
    then show ?thesis using "1.prems" by (subst (asm) ga_renew.simps) auto
  qed
qed

lemma ga_next_genes_ok:
  assumes "ga_next_genes prob n dims tmp acc (visited @ map (pt dims) acc) ds = Inr (gs, visited', ds')"
    and "\<forall>g \<in> set tmp. in_dims g dims" and "fresh_genes dims visited acc"
  shows "fresh_genes dims visited gs \<and> visited' = visited @ map (pt dims) gs \<and> length gs \<le> length acc + length tmp"
  using assms
proof (induction tmp arbitrary: acc ds)
  case (Cons g tmp)
  then obtain g1 ds1 where g1: "ga_mutate prob dims 0 g ds = Inr (g1, ds1)"
    by (auto simp: res_bind_eq_Inr)
  show ?case
  proof (cases "int (length (visited @ map (pt dims) acc)) < n")
    case True
    then obtain g2 ds2 where g2: "ga_renew dims (visited @ map (pt dims) acc) g1 ds1 = Inr (g2, ds2)"
      "ga_next_genes prob n dims tmp (acc @ [g2]) (visited @ map (pt dims) (acc @ [g2])) ds2 = Inr (gs, visited', ds')"
      using Cons.prems(1) g1 by (auto simp: res_bind_eq_Inr)
    have "in_dims g1 dims" using ga_mutate_ok [OF g1] Cons.prems(2) by simp
    from ga_renew_ok [OF g2(1) this] have "fresh_genes dims visited (acc @ [g2])"
      using Cons.prems(3) by (intro fresh_genes_snoc) auto
    with Cons.IH [OF g2(2)] Cons.prems(2) show ?thesis by simp
  next
    case False
    then show ?thesis using Cons.prems g1 by auto
  qed
qed simp

lemma ga_choose_pair_range:
  assumes "ga_choose_pair probs ds = Inr (i, j, ds')"
  shows "i < length probs \<and> j < length probs \<and> i \<noteq> j"
proof -
  let ?sup = "filter (\<lambda>i. probs ! i \<noteq> 0) [0..<length probs]"
  define n where "n = int (length ?sup)"
  obtain d1 d2 where d: "\<not> n < 2" "i = ?sup ! nat (d1 mod n)"
    "j = ?sup ! nat ((d1 mod n + 1 + d2 mod (n - 1)) mod n)"
    using assms by (auto simp: ga_choose_pair_def Let_def n_def split: if_splits list.splits)
  define a where "a = d1 mod n"
  define b where "b = d2 mod (n - 1)"
  have ab: "0 \<le> a" "a < n" "0 \<le> b" "b < n - 1" using d(1) by (auto simp: a_def b_def)
  have "(a + 1 + b) mod n \<noteq> a"
  proof (cases "a + 1 + b < n")
    case True
    then show ?thesis using ab by simp
  next
    case False
    then have "(a + 1 + b - n) mod n = a + 1 + b - n" using ab by (intro mod_pos_pos_trivial) auto
    then have "(a + 1 + b) mod n = a + 1 + b - n" by (simp only: minus_mod_self2)
    then show ?thesis using ab by simp
  qed
  moreover have "0 \<le> (a + 1 + b) mod n" "(a + 1 + b) mod n < n" using d(1) by auto
  ultimately have ij: "nat a < length ?sup" "nat ((a + 1 + b) mod n) < length ?sup"
    "nat a \<noteq> nat ((a + 1 + b) mod n)"
    using ab by (auto simp: n_def nat_eq_iff)
  then have "i \<in> set ?sup" "j \<in> set ?sup" using d a_def b_def nth_mem by metis+
  moreover have "i \<noteq> j" using ij d(2,3) by (simp add: nth_eq_iff_index_eq flip: a_def b_def)
  ultimately show ?thesis by auto
qed

lemma ga_crossover_ok:
  assumes "ga_crossover k probs gs dims ds = Inr (tmp, ds')" and "length probs = length gs"
    and "\<forall>g \<in> set gs. in_dims g dims"
  shows "(\<forall>g \<in> set tmp. in_dims g dims) \<and> length tmp = k"
  using assms(1)
proof (induction k arbitrary: ds tmp)
  case (Suc k)
  then obtain p1 p2 ds1 point ds2 rest where p: "ga_choose_pair probs ds = Inr (p1, p2, ds1)"
    "ga_crossover k probs gs dims ds2 = Inr (rest, ds')"
    "tmp = (take (nat point) (gs ! p1) @ drop (nat point) (gs ! p2)) # rest"
    by (auto simp: res_bind_eq_Inr Let_def)
  have "in_dims (gs ! p1) dims" "in_dims (gs ! p2) dims"
    using ga_choose_pair_range [OF p(1)] assms(2,3) by auto
  then show ?case using Suc.IH [OF p(2)] p(3) in_dims_crossover by auto
qed simp

section \<open>Generations\<close>

text \<open>The documented behaviour of \<open>np.argpartition\<close> that the code relies on: a permutation of the positions.\<close>

definition permutes_positions :: "(pyfloat list \<Rightarrow> int \<Rightarrow> nat list) \<Rightarrow> bool" where
  "permutes_positions argpartition \<longleftrightarrow> (\<forall>xs k. mset (argpartition xs k) = mset [0..<length xs])"

lemma ga_elite_indexes_range:
  assumes "permutes_positions argpartition" and "ga_elite_indexes argpartition scores k = Inr inds"
  shows "set inds \<subseteq> {0..<length scores}" and "k = 0 \<Longrightarrow> mset inds = mset [0..<length scores]"
proof -
  have perm: "mset (argpartition scores (- k)) = mset [0..<length scores]"
    using assms(1) by (simp add: permutes_positions_def)
  then have "set (argpartition scores (- k)) = {0..<length scores}" using mset_eq_setD by fastforce
  then show "set inds \<subseteq> {0..<length scores}"
    using assms(2) by (auto simp: ga_elite_indexes_def Let_def split: if_splits dest: in_set_dropD)
  show "mset inds = mset [0..<length scores]" if "k = 0"
    using assms(2) perm that by (auto simp: ga_elite_indexes_def Let_def split: if_splits)
qed

lemma ga_probs_length: "ga_probs scores = Inr probs \<Longrightarrow> length probs = length scores"
  by (auto simp: ga_probs_def res_bind_eq_Inr Let_def res_map_Inr split: if_splits)

text \<open>What a new generation consists of.\<close>

lemma ga_update_cases:
  assumes "permutes_positions argpartition" and "ga_ok s" and "ga_update argpartition s pairs = Inr s'"
  shows "(\<exists>sc. s' = s\<lparr>ga_scores := sc, ga_space := snd (cs_len (ga_space s))\<rparr>)
   \<or> (\<exists>inds scores. set inds \<subseteq> {0..<length (genes s @ elites s)}
    \<and> (elite_num s = 0 \<longrightarrow> mset inds = mset [0..<length (genes s @ elites s)])
    \<and> elites s' = map (\<lambda>i. (genes s @ elites s) ! i) inds \<and> elite_scores s' = map (\<lambda>i. scores ! i) inds
    \<and> fresh_genes (ga_dims s) (ga_visited s) (genes s')
    \<and> ga_visited s' = ga_visited s @ map (pt (ga_dims s)) (genes s')
    \<and> length (genes s') \<le> nat (pop_size s)
    \<and> pop_size s' = pop_size s \<and> ga_dims s' = ga_dims s \<and> ga_space s' = snd (cs_len (ga_space s)))"
proof -
  obtain ys where ys: "res_map ga_score pairs = Inr ys"
    using assms(3) by (auto simp: ga_update_def res_bind_eq_Inr)
  let ?scores1 = "ga_scores s @ ys" and ?all = "genes s @ elites s"
  let ?scores = "take (length (genes s)) ?scores1 @ elite_scores s"
  show ?thesis
  proof (cases "length ?scores1 \<ge> length (genes s) \<and> int (length (ga_visited s)) < fst (cs_len (ga_space s))")
    case False
    then show ?thesis using assms(3) ys by (intro disjI1) (auto simp: ga_update_def Let_def split: if_splits)
  next
    case cond: True
    then obtain inds probs tmp ds1 gs visited ds2 where
      upd: "ga_elite_indexes argpartition ?scores (elite_num s) = Inr inds" "ga_probs ?scores = Inr probs"
        "ga_crossover (nat (pop_size s)) probs ?all (ga_dims s) (ga_draws s) = Inr (tmp, ds1)"
        "ga_next_genes (mutation_prob s) (fst (cs_len (ga_space s))) (ga_dims s) tmp [] (ga_visited s) ds1 = Inr (gs, visited, ds2)"
      and s': "s' = s\<lparr>ga_scores := [], ga_space := snd (cs_len (ga_space s)), elites := map (\<lambda>i. ?all ! i) inds,
        elite_scores := map (\<lambda>i. ?scores ! i) inds, genes := gs, ga_visited := visited, ga_trial_pt := 0, ga_draws := ds2\<rparr>"
      using assms(3) ys unfolding ga_update_def Let_def
      by (auto simp: res_bind_eq_Inr simp del: ga_crossover.simps ga_next_genes.simps)
    have len: "length ?scores = length ?all" using cond assms(2) by (simp add: ga_ok_def del: take_append)
    have tmp: "(\<forall>g \<in> set tmp. in_dims g (ga_dims s)) \<and> length tmp = nat (pop_size s)"
    proof (rule ga_crossover_ok [OF upd(3)])
      show "length probs = length ?all" using ga_probs_length [OF upd(2)] len by (rule trans)
      show "\<forall>g \<in> set ?all. in_dims g (ga_dims s)" using assms(2) unfolding ga_ok_def by blast
    qed
    have "fresh_genes (ga_dims s) (ga_visited s) []" using assms(2) by (simp add: fresh_genes_def ga_ok_def)
    then have "fresh_genes (ga_dims s) (ga_visited s) gs \<and> visited = ga_visited s @ map (pt (ga_dims s)) gs
        \<and> length gs \<le> nat (pop_size s)"
      using ga_next_genes_ok [where acc = "[]" and visited = "ga_visited s" and tmp = tmp] upd(4) tmp by fastforce
    moreover have "set inds \<subseteq> {0..<length ?all}" "elite_num s = 0 \<longrightarrow> mset inds = mset [0..<length ?all]"
      using ga_elite_indexes_range [OF assms(1) upd(1)] unfolding len by blast+
    ultimately show ?thesis by (intro disjI2 exI [of _ inds] exI [of _ ?scores]) (simp add: s')
  qed
qed

lemma fresh_genes_range:
  assumes "cs_ready cs" and "fresh_genes (cs_dims cs) visited gs"
  shows "set (map (pt (cs_dims cs)) gs) \<subseteq> {0..<cs_size cs}"
  using assms kc.to_point_range [OF cs_ready_dims [OF assms(1)]] cs_ready_size [OF assms(1)]
  by (auto simp: fresh_genes_def)

lemma ga_init_ok:
  assumes "cs_ready cs" and "ga_init cs pop elite prob ds = Inr s"
  shows "ga_ok s"
proof -
  let ?n = "cs_size cs" and ?dims = "cs_dims cs"
  obtain gs visited ds' where pop: "ga_populate (nat (min pop ?n)) ?n ?dims [] ([] @ map (pt ?dims) []) ds = Inr (gs, visited, ds')"
    and s: "s = \<lparr>ga_space = snd (cs_len cs), pop_size = min pop ?n, elite_num = min (min pop ?n) elite,
      mutation_prob = prob, ga_dims = ?dims, ga_visited = visited, genes = gs, ga_scores = [], elites = [],
      elite_scores = [], ga_trial_pt = 0, ga_draws = ds'\<rparr>"
    using assms(2) by (auto simp: ga_init_def Let_def res_bind_eq_Inr prod.case_eq_if split: if_splits)
  have "fresh_genes ?dims [] gs \<and> visited = map (pt ?dims) gs \<and> length gs = nat (min pop ?n)"
    using ga_populate_ok [OF cs_ready_dims [OF assms(1)] pop] by (simp add: fresh_genes_def)
  then show ?thesis
    using assms(1) fresh_genes_range [OF assms(1), of "[]" gs] by (auto simp: ga_ok_def s fresh_genes_def)
qed

lemma ga_update_ok:
  assumes "permutes_positions argpartition" and "ga_ok s" and "ga_update argpartition s pairs = Inr s'"
  shows "ga_ok s'"
proof (cases "\<exists>sc. s' = s\<lparr>ga_scores := sc, ga_space := snd (cs_len (ga_space s))\<rparr>")
  case True
  then show ?thesis using assms(2) by (auto simp: ga_ok_def image_subset_iff)
next
  case False
  with ga_update_cases [OF assms] obtain inds scores where
    new: "set inds \<subseteq> {0..<length (genes s @ elites s)}" "elites s' = map (\<lambda>i. (genes s @ elites s) ! i) inds"
      "elite_scores s' = map (\<lambda>i. scores ! i) inds" "fresh_genes (ga_dims s) (ga_visited s) (genes s')"
      "ga_visited s' = ga_visited s @ map (pt (ga_dims s)) (genes s')" "length (genes s') \<le> nat (pop_size s)"
      "pop_size s' = pop_size s" "ga_dims s' = ga_dims s" "ga_space s' = snd (cs_len (ga_space s))" by blast
  have "set (elites s') \<subseteq> set (genes s @ elites s)" 
    using new(1,2) nth_mem [of _ "genes s @ elites s"] by fastforce
  moreover have "\<forall>g \<in> set (genes s @ elites s). in_dims g (ga_dims s)" using assms(2) unfolding ga_ok_def by blast
  ultimately have "\<forall>g \<in> set (genes s' @ elites s'). in_dims g (ga_dims s)"
    using new(4) by (auto simp: fresh_genes_def)
  moreover have "set (map (pt (ga_dims s)) (genes s')) \<subseteq> {0..<cs_size (ga_space s)}"
    using fresh_genes_range [of "ga_space s" "ga_visited s" "genes s'"] assms(2) new(4) by (simp add: ga_ok_def)
  ultimately show ?thesis
    using assms(2) new by (auto simp: ga_ok_def fresh_genes_def)
qed

text \<open>
  C6. The genetic tuner starts in and never leaves its invariant: genes and elites are knob
  vectors of the space, and visited points are pairwise different indices of it. When an update
  replaces the generation, the new genes are points that were never visited, pairwise different,
  and are added to the visited points.
\<close>

theorem ga_generations:
  assumes "permutes_positions argpartition" and "cs_ready cs"
  shows "(\<forall>s. ga_init cs pop elite prob ds = Inr s \<longrightarrow> ga_ok s)
    \<and> (\<forall>s s' pairs. ga_ok s \<and> ga_update argpartition s pairs = Inr s' \<longrightarrow>
         ga_ok s' \<and> (genes s' = genes s \<and> ga_visited s' = ga_visited s
            \<or> ga_visited s' = ga_visited s @ map (pt (ga_dims s)) (genes s')
              \<and> set (map (pt (ga_dims s)) (genes s')) \<inter> set (ga_visited s) = {}))"
proof (intro conjI allI impI)
  show "ga_ok s" if "ga_init cs pop elite prob ds = Inr s" for s using ga_init_ok [OF assms(2) that] .
next
  fix s s' pairs assume s: "ga_ok s \<and> ga_update argpartition s pairs = Inr s'"
  then show "ga_ok s'" using ga_update_ok [OF assms(1)] by blast
  show "genes s' = genes s \<and> ga_visited s' = ga_visited s
      \<or> ga_visited s' = ga_visited s @ map (pt (ga_dims s)) (genes s')
        \<and> set (map (pt (ga_dims s)) (genes s')) \<inter> set (ga_visited s) = {}"
    using ga_update_cases [OF assms(1), of s pairs s'] s by (fastforce simp: fresh_genes_def)
qed

theorem ga_generations_witness:
  "\<exists>s. ga_init sample_space 2 1 (1 / 10) [4, 5] = Inr s \<and> ga_ok s"
proof -
  have "permutes_positions (\<lambda>xs k. [0..<length xs])" by (simp add: permutes_positions_def)
  moreover have "\<exists>s. ga_init sample_space 2 1 (1 / 10) [4, 5] = Inr s"
    using cs_ready_size [OF sample_space_ready]
    by (simp add: ga_init_def sample_space_def cs_dims_def space_len_def Let_def prod.case_eq_if knob2point_def
        np_prod_wrap wrap64_def numeral_2_eq_2)
  ultimately show ?thesis
    using ga_generations [OF _ sample_space_ready] by blast
qed

section \<open>Batches\<close>

lemma ga_batch_ok:
  assumes "ga_ok s" and "0 \<le> ga_trial_pt s" and "nat (ga_trial_pt s) + k \<le> length (genes s)"
  shows "\<exists>cfgs s'. ga_batch_loop k s = Inr (cfgs, s')
    \<and> map cindex cfgs = map (pt (ga_dims s)) (take k (drop (nat (ga_trial_pt s)) (genes s)))
    \<and> ga_ok s' \<and> ga_trial_pt s' = ga_trial_pt s + int k \<and> genes s' = genes s \<and> pop_size s' = pop_size s"
  using assms
proof (induction k arbitrary: s)
  case 0
  then show ?case by simp
next
  case (Suc k)
  let ?i = "ga_trial_pt s"
  have i: "nat ?i < length (genes s)" "?i < int (length (genes s))" using Suc.prems by auto
  then have pop: "?i < pop_size s" "pop_size s \<noteq> 0" using Suc.prems(1,2) by (auto simp: ga_ok_def)
  let ?g = "genes s ! nat ?i" and ?p = "pt (ga_dims s) (genes s ! nat ?i)"
  have "?p \<in> {0..<cs_size (ga_space s)}"
    using i(1) Suc.prems(1) by (force simp: ga_ok_def)
  then obtain c where c: "cs_at (ga_space s) ?p = Inr c" "cindex c = ?p"
    using csp.at_total [of "ga_space s" ?p] csp.at_index Suc.prems(1) by (force simp: ga_ok_def)
  let ?s = "s\<lparr>ga_trial_pt := ?i + 1, ga_space := snd (cs_get (ga_space s) ?p)\<rparr>"
  have dims: "cs_dims (snd (cs_get (ga_space s) ?p)) = cs_dims (ga_space s)"
    by (simp add: cs_get_def prod.case_eq_if)
  have "ga_ok ?s" using Suc.prems(1) dims unfolding ga_ok_def by auto
  from Suc.IH [OF this] Suc.prems obtain cfgs s' where s': "ga_batch_loop k ?s = Inr (cfgs, s')"
    "map cindex cfgs = map (pt (ga_dims s)) (take k (drop (Suc (nat ?i)) (genes s)))"
    "ga_ok s'" "ga_trial_pt s' = ?i + 1 + int k" "genes s' = genes s" "pop_size s' = pop_size s"
    by (auto simp: nat_add_distrib)
  moreover have "ga_batch_loop (Suc k) s = Inr (c # cfgs, s')"
    using pop Suc.prems(2) i c(1) s'(1) by (simp add: py_get_def prod.case_eq_if)
  moreover have "take (Suc k) (drop (nat ?i) (genes s)) = ?g # take k (drop (Suc (nat ?i)) (genes s))"
    using i(1) by (metis Cons_nth_drop_Suc take_Suc_Cons)
  ultimately show ?case using c(2) by simp
qed

lemma ga_batch_append:
  "ga_batch_loop (j + k) s = res_bind (ga_batch_loop j s) (\<lambda>(cfgs, s').
     res_bind (ga_batch_loop k s') (\<lambda>(cfgs', s''). Inr (cfgs @ cfgs', s'')))"
proof (induction j arbitrary: s)
  case 0
  show ?case by (cases "ga_batch_loop k s") auto
next
  case (Suc j)
  show ?case
    by (auto simp: Suc.IH res_bind_assoc prod.case_eq_if intro!: res_bind_cong)
qed

text \<open>
  C36. A batch that stays inside the generation proposes the genes from \<open>trial_pt\<close> on, in order. In
  a generation that is shorter than \<open>pop_size\<close>, which the last generation of a space is, a batch
  that reaches beyond it raises \<open>IndexError\<close>.
\<close>

theorem ga_batch_generation:
  assumes "ga_ok s" and "0 \<le> ga_trial_pt s" and "0 \<le> n"
  shows "(ga_trial_pt s + n \<le> int (length (genes s)) \<longrightarrow>
            (\<exists>cfgs s'. ga_next_batch s n = Inr (cfgs, s')
               \<and> map cindex cfgs = map (pt (ga_dims s)) (take (nat n) (drop (nat (ga_trial_pt s)) (genes s)))))
    \<and> (ga_trial_pt s \<le> int (length (genes s)) \<and> int (length (genes s)) < ga_trial_pt s + n
         \<and> int (length (genes s)) < pop_size s \<longrightarrow>
       ga_next_batch s n = Inl IndexError)"
proof (intro conjI impI)
  assume "ga_trial_pt s + n \<le> int (length (genes s))"
  then have "nat (ga_trial_pt s) + nat n \<le> length (genes s)" using assms by linarith
  from ga_batch_ok [OF assms(1,2) this]
  show "\<exists>cfgs s'. ga_next_batch s n = Inr (cfgs, s')
      \<and> map cindex cfgs = map (pt (ga_dims s)) (take (nat n) (drop (nat (ga_trial_pt s)) (genes s)))"
    by (auto simp: ga_next_batch_def)
next
  assume short: "ga_trial_pt s \<le> int (length (genes s)) \<and> int (length (genes s)) < ga_trial_pt s + n
      \<and> int (length (genes s)) < pop_size s"
  define j k where "j = length (genes s) - nat (ga_trial_pt s)"
    and "k = nat n - Suc (length (genes s) - nat (ga_trial_pt s))"
  have n: "nat n = j + Suc k" and j: "nat (ga_trial_pt s) + j = length (genes s)"
    using short assms(2) by (auto simp: j_def k_def)
  from ga_batch_ok [OF assms(1,2), of j] j obtain cfgs s' where s': "ga_batch_loop j s = Inr (cfgs, s')"
    "ga_trial_pt s' = int (length (genes s))" "genes s' = genes s" "pop_size s' = pop_size s"
    using assms(2) by auto
  have "ga_batch_loop (Suc k) s' = Inl IndexError" using short s' assms(2) by (simp add: py_get_def)
  then show "ga_next_batch s n = Inl IndexError"
    using s'(1) ga_batch_append [of j "Suc k" s] by (simp add: ga_next_batch_def n)
qed

definition short_generation :: ga_tuner where
  "short_generation = \<lparr>ga_space = sample_space, pop_size = 4, elite_num = 1, mutation_prob = 0,
     ga_dims = [3, 2], ga_visited = [0, 1, 2, 3, 4, 5], genes = [[1, 1], [2, 1]], ga_scores = [], elites = [],
     elite_scores = [], ga_trial_pt = 0, ga_draws = []\<rparr>"

theorem ga_batch_generation_witness:
  "ga_has_next short_generation \<and> ga_next_batch short_generation 4 = Inl IndexError"
proof -
  have dims: "cs_dims sample_space = [3, 2]" by (simp add: sample_space_def cs_dims_def space_len_def)
  have size: "cs_size sample_space = 6" using cs_ready_size [OF sample_space_ready] dims by simp
  have "ga_ok short_generation"
    using sample_space_ready
    by (auto simp: ga_ok_def short_generation_def dims size in_dims_def knob2point_def np_prod_wrap wrap64_def)
  from ga_batch_generation [OF this, of 4] show ?thesis
    by (simp add: short_generation_def ga_has_next_def size)
qed

text \<open>
  A genetic tuner with \<open>elite_num = 0\<close> keeps every gene instead of none: the slice
  \<open>[-0:]\<close> of the partition is the whole array.
\<close>

theorem ga_no_elites_keeps_all:
  assumes "permutes_positions argpartition" and "ga_ok s" and "elite_num s = 0"
    and "ga_update argpartition s pairs = Inr s'" and "genes s' \<noteq> genes s"
  shows "mset (elites s') = mset (genes s @ elites s)"
proof -
  have "\<not> (\<exists>sc. s' = s\<lparr>ga_scores := sc, ga_space := snd (cs_len (ga_space s))\<rparr>)" using assms(5) by auto
  with ga_update_cases [OF assms(1,2,4)] obtain inds where
    "elite_num s = 0 \<longrightarrow> mset inds = mset [0..<length (genes s @ elites s)]"
    "elites s' = map ((!) (genes s @ elites s)) inds" by blast
  then have "mset inds = mset [0..<length (genes s @ elites s)]"
    "elites s' = map ((!) (genes s @ elites s)) inds" using assms(3) by blast+
  then have "mset (elites s') = mset (map ((!) (genes s @ elites s)) [0..<length (genes s @ elites s)])"
    by (simp only: mset_map)
  then show ?thesis by (simp only: map_nth)
qed

definition first_generation :: ga_tuner where
  "first_generation = \<lparr>ga_space = sample_space, pop_size = 2, elite_num = 0, mutation_prob = 0,
     ga_dims = [3, 2], ga_visited = [0, 1], genes = [[0, 0], [1, 0]], ga_scores = [], elites = [],
     elite_scores = [], ga_trial_pt = 2, ga_draws = [0, 0, 1, 0, 0, 1, 0, 0, 1, 1, 0, 0, 0, 2]\<rparr>"

definition first_scores :: "measured list" where
  "first_scores = replicate 2 (\<lparr>mi_target = None, mi_task = sample_task, mi_config = sample_entity\<rparr>,
     \<lparr>costs = [OFloat 2], error_no = 0, all_cost = 1, timestamp = 0\<rparr>)"

lemma first_update:
  "\<exists>s'. ga_update (\<lambda>xs k. [0..<length xs]) first_generation first_scores = Inr s' \<and> genes s' = [[0, 1], [2, 0]]"
proof -
  have dims: "cs_dims sample_space = [3, 2]" by (simp add: sample_space_def cs_dims_def space_len_def)
  have size: "cs_size sample_space = 6" using cs_ready_size [OF sample_space_ready] dims by simp
  have ys: "res_map ga_score first_scores = Inr [Fin 500, Fin 500]"
    by (simp add: first_scores_def ga_score_def measured_flops_def mean_costs_def np_mean_def sample_task_def
        numeral_2_eq_2)
  have probs: "ga_probs [Fin 500, Fin 500] = Inr [1 / 2, 1 / 2]"
    by (simp add: ga_probs_def ga_finite_def Let_def)
  show ?thesis
    by (simp add: ga_update_def ys first_generation_def size probs ga_elite_indexes_def Let_def
        ga_choose_pair_def randint_def numeral_2_eq_2 ga_renew.simps knob2point_def np_prod_wrap wrap64_def)
qed

theorem ga_no_elites_keeps_all_witness:
  "\<exists>s'. ga_update (\<lambda>xs k. [0..<length xs]) first_generation first_scores = Inr s'
     \<and> mset (elites s') = {#[0, 0], [1, 0]#}"
proof -
  obtain s' where s': "ga_update (\<lambda>xs k. [0..<length xs]) first_generation first_scores = Inr s'"
    "genes s' = [[0, 1], [2, 0]]" using first_update by blast
  have perm: "permutes_positions (\<lambda>xs k. [0..<length xs])" by (simp add: permutes_positions_def)
  have dims: "cs_dims sample_space = [3, 2]" by (simp add: sample_space_def cs_dims_def space_len_def)
  have size: "cs_size sample_space = 6" using cs_ready_size [OF sample_space_ready] dims by simp
  have ok: "ga_ok first_generation"
    using sample_space_ready
    by (auto simp: ga_ok_def first_generation_def dims size in_dims_def knob2point_def np_prod_wrap wrap64_def)
  have "mset (elites s') = mset (genes first_generation @ elites first_generation)"
    by (rule ga_no_elites_keeps_all [OF perm ok _ s'(1)]) (simp_all add: s'(2) first_generation_def)
  then show ?thesis using s'(1) by (simp add: first_generation_def)
qed

end
