(* ===== verification/Heapq.thy ===== *)
theory Heapq
  imports Prelude
begin

text \<open>
  Python's \<open>heapq\<close> module, which the simulated annealing optimiser and the RPC tracker use: binary
  heaps in a list. The comparison \<open>a < b\<close> of items is the comparison of \<open>key a\<close> and \<open>key b\<close> in a
  linear order. What a client relies on is the locale \<open>priority_queue\<close>.
\<close>

section \<open>Operations\<close>

fun siftdown_loop :: "('a \<Rightarrow> 'k :: linorder) \<Rightarrow> 'a list \<Rightarrow> nat \<Rightarrow> nat \<Rightarrow> 'a \<Rightarrow> 'a list" where
  "siftdown_loop key heap startpos pos newitem =
     (if pos > startpos then
        let parentpos = (pos - 1) div 2; parent = heap ! parentpos
        in if key newitem < key parent
           then siftdown_loop key (heap[pos := parent]) startpos parentpos newitem
           else heap[pos := newitem]
      else heap[pos := newitem])"

declare siftdown_loop.simps [simp del]

definition siftdown :: "('a \<Rightarrow> 'k :: linorder) \<Rightarrow> 'a list \<Rightarrow> nat \<Rightarrow> nat \<Rightarrow> 'a list" where
  "siftdown key heap startpos pos = siftdown_loop key heap startpos pos (heap ! pos)"

text \<open>The smaller child, the right one when the left is not smaller.\<close>

definition min_child :: "('a \<Rightarrow> 'k :: linorder) \<Rightarrow> 'a list \<Rightarrow> nat \<Rightarrow> nat" where
  "min_child key heap pos =
     (let childpos = 2 * pos + 1; rightpos = childpos + 1
      in if rightpos < length heap \<and> \<not> key (heap ! childpos) < key (heap ! rightpos)
         then rightpos else childpos)"

function siftup_loop :: "('a \<Rightarrow> 'k :: linorder) \<Rightarrow> 'a list \<Rightarrow> nat \<Rightarrow> 'a list \<times> nat" where
  "siftup_loop key heap pos =
     (if 2 * pos + 1 < length heap
      then siftup_loop key (heap[pos := heap ! min_child key heap pos]) (min_child key heap pos)
      else (heap, pos))"
  by pat_completeness auto
termination
  by (relation "measure (\<lambda>(key, heap, pos). length heap - pos)") (auto simp: min_child_def Let_def)

declare siftup_loop.simps [simp del]

definition siftup :: "('a \<Rightarrow> 'k :: linorder) \<Rightarrow> 'a list \<Rightarrow> nat \<Rightarrow> 'a list" where
  "siftup key heap pos =
     (let newitem = heap ! pos; (heap', leaf) = siftup_loop key heap pos
      in siftdown_loop key heap' pos leaf newitem)"

definition heappush :: "('a \<Rightarrow> 'k :: linorder) \<Rightarrow> 'a list \<Rightarrow> 'a \<Rightarrow> 'a list" where
  "heappush key heap item = siftdown key (heap @ [item]) 0 (length heap)"

definition heappop :: "('a \<Rightarrow> 'k :: linorder) \<Rightarrow> 'a list \<Rightarrow> ('a \<times> 'a list) res" where
  "heappop key heap =
     (if heap = [] then Inl IndexError
      else let lastelt = last heap; rest = butlast heap
        in if rest \<noteq> [] then Inr (rest ! 0, siftup key (rest[0 := lastelt]) 0)
           else Inr (lastelt, []))"

definition heapreplace :: "('a \<Rightarrow> 'k :: linorder) \<Rightarrow> 'a list \<Rightarrow> 'a \<Rightarrow> ('a \<times> 'a list) res" where
  "heapreplace key heap item =
     (if heap = [] then Inl IndexError else Inr (heap ! 0, siftup key (heap[0 := item]) 0))"

definition heapify :: "('a \<Rightarrow> 'k :: linorder) \<Rightarrow> 'a list \<Rightarrow> 'a list" where
  "heapify key xs = foldl (siftup key) xs (rev [0..<length xs div 2])"

section \<open>The heap order\<close>

definition par :: "nat \<Rightarrow> nat" where
  "par i = (i - 1) div 2"

lemma par_less: "0 < i \<Longrightarrow> par i < i"
  by (auto simp: par_def)

lemma par_eq: "0 < i \<Longrightarrow> par i = p \<longleftrightarrow> i = 2 * p + 1 \<or> i = 2 * p + 2"
  by (auto simp: par_def)

text \<open>Every edge whose upper end is at \<open>s\<close> or later is ordered; \<open>heap_from 0\<close> is the heap invariant.\<close>

definition heap_from :: "('a \<Rightarrow> 'k :: linorder) \<Rightarrow> nat \<Rightarrow> 'a list \<Rightarrow> bool" where
  "heap_from key s h \<longleftrightarrow> (\<forall>i < length h. 0 < i \<and> s \<le> par i \<longrightarrow> key (h ! par i) \<le> key (h ! i))"

text \<open>\<open>pos\<close> lies in the subtree of \<open>s\<close>.\<close>

definition below :: "nat \<Rightarrow> nat \<Rightarrow> bool" where
  "below s pos \<longleftrightarrow> (\<exists>k. (pos + 1) div 2 ^ k = s + 1)"

lemma below_refl: "below s s"
  unfolding below_def by (rule exI [of _ 0]) simp

lemma below_le: "below s pos \<Longrightarrow> s \<le> pos"
  unfolding below_def by (metis add_le_cancel_right div_le_dividend)

lemma below_par:
  assumes "below s pos" and "s < pos"
  shows "below s (par pos)"
proof -
  obtain k where k: "(pos + 1) div 2 ^ k = s + 1" using assms(1) by (auto simp: below_def)
  then obtain j where j: "k = Suc j" using assms(2) by (cases k) auto
  have "par pos + 1 = (pos + 1) div 2" using assms(2) by (cases pos) (auto simp: par_def)
  then have "(par pos + 1) div 2 ^ j = s + 1" using k j by (simp add: div_mult2_eq)
  then show ?thesis unfolding below_def by blast
qed

lemma below_child:
  assumes "below s (par i)" and "0 < i"
  shows "below s i"
proof -
  obtain k where k: "(par i + 1) div 2 ^ k = s + 1" using assms(1) by (auto simp: below_def)
  have "(i + 1) div 2 = par i + 1" using assms(2) by (cases i) (auto simp: par_def)
  then have "(i + 1) div 2 ^ Suc k = s + 1" using k by (simp add: div_mult2_eq)
  then show ?thesis unfolding below_def by blast
qed

section \<open>Sifting down\<close>

lemmas siftdown_unfold = siftdown_loop.simps [folded par_def]

lemma siftdown_loop_mset:
  assumes "pos < length h"
  shows "mset (siftdown_loop key h s pos x) = mset (h[pos := x])
    \<and> length (siftdown_loop key h s pos x) = length h"
  using assms
proof (induction key h s pos x rule: siftdown_loop.induct)
  case (1 key h s pos x)
  let ?p = "par pos"
  show ?case
  proof (cases "pos > s \<and> key x < key (h ! ?p)")
    case True
    then have p: "?p < pos" using par_less by simp
    then have "(h[pos := h ! ?p])[?p := x] = (h[pos := x])[?p := h[pos := x] ! pos, pos := h[pos := x] ! ?p]"
      using "1.prems" by (intro nth_equalityI) (auto simp: nth_list_update)
    then have "mset ((h[pos := h ! ?p])[?p := x]) = mset (h[pos := x])"
      using "1.prems" p by (simp only: mset_swap length_list_update)
    then show ?thesis using "1.IH" [OF _ par_def refl] "1.prems" True p
      by (simp add: siftdown_unfold [of key h] Let_def)
  next
    case False
    then show ?thesis by (auto simp: siftdown_unfold [of key h] Let_def)
  qed
qed

text \<open>
  The invariant of the loop: with the new item written at \<open>pos\<close>, only the edge above \<open>pos\<close> may be
  out of order, and the item above \<open>pos\<close> is not larger than the items below it.
\<close>

definition down_inv :: "('a \<Rightarrow> 'k :: linorder) \<Rightarrow> nat \<Rightarrow> nat \<Rightarrow> 'a list \<Rightarrow> bool" where
  "down_inv key s pos h \<longleftrightarrow>
     (\<forall>i < length h. 0 < i \<and> s \<le> par i \<and> i \<noteq> pos \<longrightarrow> key (h ! par i) \<le> key (h ! i))
     \<and> (s < pos \<longrightarrow> (\<forall>i < length h. 0 < i \<and> par i = pos \<longrightarrow> key (h ! par pos) \<le> key (h ! i)))"

lemma down_inv_step:
  assumes "down_inv key s pos (h[pos := x])" and "pos < length h" and "s < pos" and "below s pos"
    and "key x < key (h ! par pos)"
  shows "down_inv key s (par pos) ((h[pos := h ! par pos])[par pos := x])"
proof -
  let ?p = "par pos" and ?h = "h[pos := x]" and ?h' = "(h[pos := h ! par pos])[par pos := x]"
  have p: "?p < pos" using assms(3) par_less by simp
  have sp: "s \<le> ?p" using below_le [OF below_par [OF assms(4,3)]] .
  have ord: "key (?h ! par i) \<le> key (?h ! i)" if "i < length h" "0 < i" "s \<le> par i" "i \<noteq> pos" for i
    using assms(1) that by (simp add: down_inv_def)
  have gr: "key (h ! ?p) \<le> key (h ! i)" if "i < length h" "0 < i" "par i = pos" for i
  proof -
    have "i \<noteq> pos" using that par_less [of i] by auto
    then show ?thesis using assms(1,3) that p by (auto simp: down_inv_def)
  qed
  have "key (?h' ! par i) \<le> key (?h' ! i)" if i: "i < length h" "0 < i" "s \<le> par i" "i \<noteq> ?p" for i
  proof -
    have pi: "par i < i" using par_less [OF i(2)] .
    consider "i = pos" | "par i = pos" | "par i = ?p" "i \<noteq> pos" | "par i \<noteq> pos" "par i \<noteq> ?p" "i \<noteq> pos" by blast
    then show ?thesis
    proof cases
      case 1
      then show ?thesis using assms(2,5) p by simp
    next
      case 2
      then have "i \<noteq> pos" "i \<noteq> ?p" using pi p by auto
      then show ?thesis using gr [OF i(1,2) 2] 2 p assms(2) by simp
    next
      case 3
      then have "key (h ! ?p) \<le> key (h ! i)" using ord [OF i(1-3)] p by simp
      then show ?thesis using 3 p assms(2,5) i(4) by simp
    next
      case 4
      then show ?thesis using ord [OF i(1-3)] i(4) by simp
    qed
  qed
  moreover have "key (?h' ! par ?p) \<le> key (?h' ! i)" if i: "s < ?p" "i < length h" "0 < i" "par i = ?p" for i
  proof -
    have "s \<le> par ?p" using below_le [OF below_par [OF below_par [OF assms(4,3)] i(1)]] .
    moreover have q: "par ?p < ?p" "0 < ?p" using i(1) par_less by auto
    ultimately have up: "key (h ! par ?p) \<le> key (h ! ?p)" using ord [of ?p] p assms(2) by simp
    show ?thesis
    proof (cases "i = pos")
      case True
      then show ?thesis using up q p assms(2) by simp
    next
      case False
      then have "key (h ! ?p) \<le> key (h ! i)" using ord [OF i(2,3)] i(4) sp p by simp
      moreover have "i \<noteq> ?p" using i(3,4) par_less [of i] by auto
      ultimately show ?thesis using up q p False by simp
    qed
  qed
  ultimately show ?thesis by (simp add: down_inv_def)
qed

lemma siftdown_loop_heap:
  assumes "down_inv key s pos (h[pos := x])" and "pos < length h" and "below s pos"
  shows "heap_from key s (siftdown_loop key h s pos x)"
  using assms
proof (induction key h s pos x rule: siftdown_loop.induct)
  case (1 key h s pos x)
  let ?p = "par pos"
  show ?case
  proof (cases "pos > s")
    case True
    then have p: "?p < pos" using par_less by simp
    show ?thesis
    proof (cases "key x < key (h ! ?p)")
      case less: True
      have "heap_from key s (siftdown_loop key (h[pos := h ! ?p]) s ?p x)"
        using True less 1(2-4) p by (intro "1.IH" [OF True par_def refl less] down_inv_step below_par) auto
      then show ?thesis using True less by (simp add: siftdown_unfold [of key h] Let_def)
    next
      case False
      then have "key (h[pos := x] ! ?p) \<le> key (h[pos := x] ! pos)" using p "1.prems"(2) by simp
      then have "heap_from key s (h[pos := x])"
        using "1.prems"(1) unfolding down_inv_def heap_from_def by (metis length_list_update)
      then show ?thesis using True False by (simp add: siftdown_unfold [of key h] Let_def)
    qed
  next
    case False
    then have "pos = s" using below_le [OF "1.prems"(3)] by simp
    moreover have "i \<noteq> s" if "0 < i" "s \<le> par i" for i using par_less [OF that(1)] that(2) by simp
    ultimately have "heap_from key s (h[pos := x])"
      using "1.prems"(1) unfolding down_inv_def heap_from_def by metis
    then show ?thesis using False by (simp add: siftdown_unfold [of key h])
  qed
qed

section \<open>Sifting up\<close>

lemma min_child_props:
  assumes "2 * pos + 1 < length h"
  shows "min_child key h pos < length h" and "par (min_child key h pos) = pos" and "pos < min_child key h pos"
    and "i < length h \<Longrightarrow> 0 < i \<Longrightarrow> par i = pos \<Longrightarrow> key (h ! min_child key h pos) \<le> key (h ! i)"
proof -
  show "min_child key h pos < length h" "par (min_child key h pos) = pos" "pos < min_child key h pos"
    using assms by (auto simp: min_child_def Let_def par_def)
  show "key (h ! min_child key h pos) \<le> key (h ! i)" if "i < length h" "0 < i" "par i = pos"
  proof -
    have "i = 2 * pos + 1 \<or> i = 2 * pos + 2" using that par_eq by simp
    then show ?thesis using that(1) by (auto simp: min_child_def Let_def)
  qed
qed

text \<open>
  The invariant while the hole moves to a leaf: edges that do not touch the hole are ordered, and
  the item above the hole is not larger than those below it.
\<close>

definition up_inv :: "('a \<Rightarrow> 'k :: linorder) \<Rightarrow> nat \<Rightarrow> nat \<Rightarrow> 'a list \<Rightarrow> bool" where
  "up_inv key s pos h \<longleftrightarrow>
     (\<forall>i < length h. 0 < i \<and> s \<le> par i \<and> i \<noteq> pos \<and> par i \<noteq> pos \<longrightarrow> key (h ! par i) \<le> key (h ! i))
     \<and> (s < pos \<longrightarrow> (\<forall>i < length h. 0 < i \<and> par i = pos \<longrightarrow> key (h ! par pos) \<le> key (h ! i)))"

lemma up_inv_step:
  assumes "up_inv key s pos h" and "2 * pos + 1 < length h" and "below s pos"
  shows "up_inv key s (min_child key h pos) (h[pos := h ! min_child key h pos])"
proof -
  let ?c = "min_child key h pos"
  let ?h = "h[pos := h ! ?c]"
  note c = min_child_props [OF assms(2), where key = key]
  have ord: "key (h ! par i) \<le> key (h ! i)"
    if "i < length h" "0 < i" "s \<le> par i" "i \<noteq> pos" "par i \<noteq> pos" for i
    using assms(1) that by (simp add: up_inv_def)
  have "key (?h ! par i) \<le> key (?h ! i)"
    if i: "i < length h" "0 < i" "s \<le> par i" "i \<noteq> ?c" "par i \<noteq> ?c" for i
  proof -
    have pi: "par i < i" using par_less [OF i(2)] .
    consider "i = pos" | "par i = pos" | "i \<noteq> pos" "par i \<noteq> pos" by blast
    then show ?thesis
    proof cases
      case 1
      then have "s < pos" using pi i(3) by simp
      then have "key (h ! par pos) \<le> key (h ! ?c)" using assms(1) c by (simp add: up_inv_def)
      then show ?thesis using 1 pi i(1) by simp
    next
      case 2
      then show ?thesis using c(4) [OF i(1,2) 2] pi i(1) by simp
    next
      case 3
      then show ?thesis using ord i by simp
    qed
  qed
  moreover have "key (?h ! par ?c) \<le> key (?h ! i)" if i: "i < length h" "0 < i" "par i = ?c" for i
  proof -
    have "s \<le> ?c" "pos < i" using below_le [OF assms(3)] c(3) i par_less [OF i(2)] by auto
    then show ?thesis using ord [OF i(1,2)] i(3) c assms(2) by simp
  qed
  ultimately show ?thesis by (simp add: up_inv_def)
qed

lemma siftup_loop_props:
  assumes "up_inv key s pos h" and "below s pos" and "pos < length h" and "siftup_loop key h pos = (h', leaf)"
  shows "up_inv key s leaf h' \<and> below s leaf \<and> leaf < length h' \<and> length h' \<le> 2 * leaf + 1
    \<and> length h' = length h \<and> mset (h'[leaf := x]) = mset (h[pos := x])"
  using assms
proof (induction key h pos rule: siftup_loop.induct)
  case (1 key h pos)
  show ?case
  proof (cases "2 * pos + 1 < length h")
    case True
    let ?c = "min_child key h pos"
    let ?h = "h[pos := h ! ?c]"
    note c = min_child_props [OF True, where key = key]
    have "below s ?c" using below_child [of s ?c] c "1.prems"(2) by simp
    then have IH: "up_inv key s leaf h' \<and> below s leaf \<and> leaf < length h' \<and> length h' \<le> 2 * leaf + 1
        \<and> length h' = length ?h \<and> mset (h'[leaf := x]) = mset (?h[?c := x])"
      using "1.IH" [OF True] up_inv_step [OF "1.prems"(1) True "1.prems"(2)] c(1) "1.prems"(4) True
      by (simp add: siftup_loop.simps [of key h])
    have "?h[?c := x] = (h[pos := x])[pos := h[pos := x] ! ?c, ?c := h[pos := x] ! pos]"
      using c "1.prems"(3) by (intro nth_equalityI) (auto simp: nth_list_update)
    then have "mset (?h[?c := x]) = mset (h[pos := x])"
      using c(1) "1.prems"(3) by (simp only: mset_swap length_list_update)
    with IH show ?thesis by simp
  next
    case False
    with 1 show ?thesis by (auto simp: siftup_loop.simps [of key h])
  qed
qed

lemma leaf_inv:
  assumes "up_inv key s leaf h" and "length h \<le> 2 * leaf + 1"
  shows "down_inv key s leaf (h[leaf := x])"
proof -
  have nl: "leaf \<noteq> par i" if "i < length h" "0 < i" for i
    using that assms(2) par_eq [of i leaf] by auto
  have "key ((h[leaf := x]) ! par i) \<le> key ((h[leaf := x]) ! i)"
    if "i < length h" "0 < i" "s \<le> par i" "i \<noteq> leaf" for i
    using assms(1) that nl [OF that(1,2)] by (simp add: up_inv_def)
  moreover have "\<not> (i < length h \<and> 0 < i \<and> par i = leaf)" for i using nl by blast
  ultimately show ?thesis by (auto simp: down_inv_def)
qed

lemma siftup_props:
  assumes "heap_from key (Suc s) h" and "s < length h"
  shows "heap_from key s (siftup key h s) \<and> mset (siftup key h s) = mset h"
proof -
  obtain h' leaf where up: "siftup_loop key h s = (h', leaf)" by (cases "siftup_loop key h s")
  have "up_inv key s s h" using assms(1) by (auto simp: up_inv_def heap_from_def)
  from siftup_loop_props [OF this below_refl assms(2) up, of "h ! s"]
  have h': "up_inv key s leaf h'" "below s leaf" "leaf < length h'" "length h' \<le> 2 * leaf + 1"
    "mset (h'[leaf := h ! s]) = mset h" by auto
  have "siftup key h s = siftdown_loop key h' s leaf (h ! s)" by (simp add: siftup_def up)
  then show ?thesis
    using siftdown_loop_heap [OF leaf_inv [OF h'(1,4)] h'(3,2)] siftdown_loop_mset [OF h'(3), of key s "h ! s"] h'(5)
    by simp
qed

section \<open>The module's contract\<close>

abbreviation is_heap :: "('a \<Rightarrow> 'k :: linorder) \<Rightarrow> 'a list \<Rightarrow> bool" where
  "is_heap key h \<equiv> heap_from key 0 h"

lemma heap_min: "is_heap key h \<Longrightarrow> i < length h \<Longrightarrow> key (h ! 0) \<le> key (h ! i)"
proof (induction i rule: less_induct)
  case (less i)
  show ?case
  proof (cases "i = 0")
    case False
    then have "par i < i" using par_less by simp
    moreover have "key (h ! par i) \<le> key (h ! i)" using less.prems False by (simp add: heap_from_def)
    ultimately show ?thesis using less.IH less.prems by (meson order_trans order_less_trans)
  qed simp
qed

lemma heappush_props:
  assumes "is_heap key h"
  shows "is_heap key (heappush key h x) \<and> mset (heappush key h x) = add_mset x (mset h)"
proof -
  let ?h = "h @ [x]"
  have "down_inv key 0 (length h) (?h[length h := x])"
    using assms unfolding down_inv_def heap_from_def
    by (auto simp: nth_append less_Suc_eq par_eq dest: par_less intro: order_less_trans)
  moreover have "below 0 (length h)" if "True"
  proof (induction "length h" arbitrary: h rule: less_induct)
    case less
    show ?case
    proof (cases h)
      case (Cons a t)
      then have "par (length h) < length h" using par_less by simp
      then have "below 0 (par (length h))" using less [of "take (par (length h)) h"] by simp
      then show ?thesis using Cons below_child by blast
    qed (simp add: below_refl)
  qed
  ultimately show ?thesis
    using siftdown_loop_heap [of key 0 "length h" ?h x] siftdown_loop_mset [of "length h" ?h key 0 x]
    by (simp add: heappush_def siftdown_def)
qed

lemma heap_from_1: "is_heap key h \<Longrightarrow> heap_from key (Suc 0) (h[0 := x])"
  unfolding heap_from_def by (auto simp: par_less)

lemma heapreplace_props:
  assumes "is_heap key h" and "h \<noteq> []"
  shows "\<exists>h'. heapreplace key h x = Inr (h ! 0, h') \<and> is_heap key h'
    \<and> add_mset (h ! 0) (mset h') = add_mset x (mset h)"
proof -
  have "heap_from key (Suc 0) (h[0 := x])" using heap_from_1 [OF assms(1)] .
  then have "is_heap key (siftup key (h[0 := x]) 0)" "mset (siftup key (h[0 := x]) 0) = mset (h[0 := x])"
    using siftup_props [of key 0 "h[0 := x]"] assms(2) by auto
  moreover have "add_mset (h ! 0) (mset (h[0 := x])) = add_mset x (mset h)"
    using assms(2) by (cases h) auto
  ultimately show ?thesis using assms(2) by (simp add: heapreplace_def)
qed

lemma heap_butlast: "is_heap key h \<Longrightarrow> is_heap key (butlast h)"
  unfolding heap_from_def by (auto simp: nth_butlast dest: par_less)

lemma heappop_props:
  assumes "is_heap key h" and "h \<noteq> []"
  shows "\<exists>h'. heappop key h = Inr (h ! 0, h') \<and> is_heap key h' \<and> mset h = add_mset (h ! 0) (mset h')"
proof (cases "butlast h = []")
  case True
  then obtain a where "h = [a]" using assms(2) by (metis append_butlast_last_id append_Nil)
  then show ?thesis by (simp add: heappop_def heap_from_def)
next
  case False
  let ?r = "butlast h"
  obtain h' where h': "heapreplace key ?r (last h) = Inr (?r ! 0, h')" "is_heap key h'"
    "add_mset (?r ! 0) (mset h') = add_mset (last h) (mset ?r)"
    using heapreplace_props [OF heap_butlast [OF assms(1)] False] by blast
  have "?r ! 0 = h ! 0" using False nth_butlast [of 0 h] by blast
  moreover have "mset h = add_mset (last h) (mset ?r)"
    using assms(2) by (metis append_butlast_last_id mset_append union_mset_add_mset_right add.right_neutral mset.simps(1,2))
  ultimately show ?thesis
    using h' False assms(2) by (auto simp: heappop_def heapreplace_def Let_def)
qed

lemma heapify_props: "is_heap key (heapify key xs) \<and> mset (heapify key xs) = mset xs"
proof -
  have "heap_from key (n - k) (foldl (siftup key) xs (rev [n - k..<n]))
      \<and> mset (foldl (siftup key) xs (rev [n - k..<n])) = mset xs"
    if n: "n = length xs div 2" and "k \<le> n" for k n
    using that(2)
  proof (induction k)
    case 0
    have "par i < n" if "i < length xs" "0 < i" for i using that by (auto simp: n par_def)
    then have "\<not> (i < length xs \<and> 0 < i \<and> n \<le> par i)" for i by (meson leD)
    then show ?case by (auto simp: heap_from_def)
  next
    case (Suc k)
    let ?h = "foldl (siftup key) xs (rev [n - k..<n])"
    have upt: "[n - Suc k..<n] = (n - Suc k) # [n - k..<n]"
      using Suc.prems by (metis Suc_diff_Suc Suc_le_lessD diff_less upt_conv_Cons zero_less_Suc less_le_trans)
    have "Suc (n - Suc k) = n - k" using Suc.prems by simp
    moreover have "n - Suc k < length ?h" using Suc mset_eq_length [of ?h xs] n by auto
    ultimately show ?case using Suc siftup_props [of key "n - Suc k" ?h] by (simp add: upt)
  qed
  from this [OF refl order_refl] show ?thesis by (simp add: heapify_def)
qed

text \<open>The lengths, without any assumption on the order of the list.\<close>

lemma siftdown_loop_length [simp]: "length (siftdown_loop key heap startpos pos x) = length heap"
  by (induction key heap startpos pos x rule: siftdown_loop.induct) (subst siftdown_loop.simps, simp add: Let_def)

lemma siftup_loop_length: "length (fst (siftup_loop key heap pos)) = length heap"
  by (induction key heap pos rule: siftup_loop.induct) (subst siftup_loop.simps, simp)

lemma heappop_length: "heappop key heap = Inr (x, heap') \<Longrightarrow> length heap = Suc (length heap')"
  by (cases heap rule: rev_cases)
    (auto simp: heappop_def siftup_def Let_def prod.case_eq_if siftup_loop_length split: if_splits)

locale priority_queue =
  fixes key :: "'a \<Rightarrow> 'k :: linorder"
    and good :: "'q \<Rightarrow> bool" and elems :: "'q \<Rightarrow> 'a multiset"
    and push :: "'q \<Rightarrow> 'a \<Rightarrow> 'q" and pop :: "'q \<Rightarrow> ('a \<times> 'q) res"
  assumes push_law: "good q \<Longrightarrow> good (push q x) \<and> elems (push q x) = add_mset x (elems q)"
    and pop_law: "good q \<Longrightarrow> elems q \<noteq> {#} \<Longrightarrow> \<exists>x q'. pop q = Inr (x, q') \<and> good q'
      \<and> elems q = add_mset x (elems q') \<and> (\<forall>y \<in># elems q. key x \<le> key y)"
    and pop_empty: "elems q = {#} \<Longrightarrow> \<exists>err. pop q = Inl err"
begin

text \<open>With distinct keys the popped item is the one with the smallest key.\<close>

lemma pop_unique:
  assumes "good q" and "x \<in># elems q" and "\<And>y. y \<in># elems q \<Longrightarrow> y \<noteq> x \<Longrightarrow> key x < key y"
  shows "\<exists>q'. pop q = Inr (x, q') \<and> good q' \<and> elems q = add_mset x (elems q')"
proof -
  obtain y q' where y: "pop q = Inr (y, q')" "good q'" "elems q = add_mset y (elems q')"
    "\<forall>z \<in># elems q. key y \<le> key z"
    using pop_law [OF assms(1)] assms(2) by fastforce
  have "y = x"
  proof (rule ccontr)
    assume "y \<noteq> x"
    then have "key x < key y" using assms(3) y(3) by simp
    then show False using y(4) assms(2) by (meson leD)
  qed
  then show ?thesis using y by blast
qed

end

interpretation hq: priority_queue key "is_heap key" mset "heappush key" "heappop key" for key :: "'a \<Rightarrow> 'k :: linorder"
proof unfold_locales
  show "is_heap key (heappush key q x) \<and> mset (heappush key q x) = add_mset x (mset q)" if "is_heap key q" for q x
    using heappush_props [OF that] .
  show "\<exists>x q'. heappop key q = Inr (x, q') \<and> is_heap key q' \<and> mset q = add_mset x (mset q')
      \<and> (\<forall>y \<in># mset q. key x \<le> key y)" if "is_heap key q" "mset q \<noteq> {#}" for q
  proof -
    have ne: "q \<noteq> []" using that(2) by simp
    have "\<forall>y \<in># mset q. key (q ! 0) \<le> key y" using heap_min [OF that(1)] by (auto simp: in_set_conv_nth)
    then show ?thesis using heappop_props [OF that(1) ne] by blast
  qed
  show "\<exists>err. heappop key q = Inl err" if "mset q = {#}" for q using that by (simp add: heappop_def)
qed

end
