(* ===== verification/SAOptimizer.thy ===== *)
theory SAOptimizer
  imports Heapq Measure "HOL-Library.Option_ord" "HOL-Library.Product_Lexorder"
begin

text \<open>
  The simulated annealing optimiser of \<open>autotvm/tuner/sa_model_optimizer.py\<close>. A heap item is the
  pair of a score and a point, compared lexicographically as Python compares tuples; the score
  \<open>None\<close> is \<open>-inf\<close>. The cost model's \<open>predict\<close> and \<open>np.exp\<close> are arguments. Predictions and
  temperatures are exact rationals.
\<close>

type_synonym heap_item = "rat option \<times> int"

record sa_optimizer =
  sa_dims :: "int list"
  sa_space_len :: int
  sa_n_iter :: int
  sa_temp :: "rat \<times> rat"
  persistent :: bool
  parallel_size :: int
  early_stop :: int
  sa_points :: "int list option"

text \<open>A single temperature is a pair of equal temperatures: it does not cool.\<close>

definition sa_init ::
  "config_space \<Rightarrow> int \<Rightarrow> rat \<times> rat \<Rightarrow> bool \<Rightarrow> int \<Rightarrow> int option \<Rightarrow> sa_optimizer" where
  "sa_init cs n_iter temp keep par_size early =
     \<lparr>sa_dims = cs_dims cs, sa_space_len = fst (cs_len cs), sa_n_iter = n_iter, sa_temp = temp,
      persistent = keep, parallel_size = min par_size (fst (cs_len cs)),
      early_stop = (case early of None \<Rightarrow> 10 ^ 9 | Some n \<Rightarrow> if n = 0 then 10 ^ 9 else n),
      sa_points = None\<rparr>"

section \<open>Random walk\<close>

fun walk_loop :: "int list \<Rightarrow> int list \<Rightarrow> int list \<Rightarrow> draws \<Rightarrow> (int list \<times> draws) res" where
  "walk_loop dims old new ds =
     (if new = old then
        if old = [] then Inl ValueError
        else case ds of
               d1 # d2 # ds' \<Rightarrow>
                 let from_i = nat (d1 mod int (length old))
                 in res_bind (randint (dims ! from_i) [d2]) (\<lambda>(to_v, _).
                      walk_loop dims old (new[from_i := to_v]) ds')
             | _ \<Rightarrow> Inl NoDraws
      else Inr (new, ds))"

declare walk_loop.simps [simp del]

definition random_walk :: "int \<Rightarrow> int list \<Rightarrow> draws \<Rightarrow> (int \<times> draws) res" where
  "random_walk p dims ds =
     res_bind (point2knob p dims) (\<lambda>old.
     res_bind (walk_loop dims old old ds) (\<lambda>(new, ds'). Inr (knob2point new dims, ds')))"

fun walk_all :: "int list \<Rightarrow> int list \<Rightarrow> draws \<Rightarrow> (int list \<times> draws) res" where
  "walk_all dims [] ds = Inr ([], ds)"
| "walk_all dims (p # ps) ds =
     res_bind (random_walk p dims ds) (\<lambda>(q, ds1).
     res_bind (walk_all dims ps ds1) (\<lambda>(qs, ds2). Inr (q # qs, ds2)))"

section \<open>The heap of the best points\<close>

abbreviation item_key :: "heap_item \<Rightarrow> heap_item" where
  "item_key \<equiv> id"

definition sa_consider :: "rat \<times> int \<Rightarrow> heap_item list \<times> int set \<times> bool \<Rightarrow> (heap_item list \<times> int set \<times> bool) res" where
  "sa_consider sp st =
     (let (s, p) = sp; (heap, in_heap, modified) = st
      in if heap = [] then Inl IndexError
         else if Some s > fst (heap ! 0) \<and> p \<notin> in_heap then
           res_bind (heapreplace item_key heap (Some s, p)) (\<lambda>(popped, heap').
             if snd popped \<in> in_heap then Inr (heap', insert p (in_heap - {snd popped}), True)
             else Inl KeyError)
         else Inr (heap, in_heap, modified))"

fun sa_consider_all ::
  "(rat \<times> int) list \<Rightarrow> heap_item list \<times> int set \<times> bool \<Rightarrow> (heap_item list \<times> int set \<times> bool) res" where
  "sa_consider_all [] st = Inr st"
| "sa_consider_all (sp # sps) st = res_bind (sa_consider sp st) (sa_consider_all sps)"

section \<open>Annealing\<close>

text \<open>The Metropolis rule for one chain, given its random number.\<close>

definition sa_accept :: "(rat \<Rightarrow> rat) \<Rightarrow> rat \<Rightarrow> rat \<Rightarrow> rat \<Rightarrow> int \<Rightarrow> bool" where
  "sa_accept exp_fn t old new d \<longleftrightarrow>
     of_int (d mod 2 ^ 53) / 2 ^ 53 < exp_fn (min ((new - old) / (t + 1 / 10 ^ 5)) 1)"

definition sa_move ::
  "(rat \<Rightarrow> rat) \<Rightarrow> rat \<Rightarrow> int list \<times> rat list \<Rightarrow> int list \<times> rat list \<Rightarrow> draws \<Rightarrow> int list \<times> rat list" where
  "sa_move exp_fn t now new ds =
     (let acc = map (\<lambda>i. sa_accept exp_fn t (snd now ! i) (snd new ! i) (ds ! i)) [0..<length (fst now)]
      in (map (\<lambda>i. if acc ! i then fst new ! i else fst now ! i) [0..<length (fst now)],
          map (\<lambda>i. if acc ! i then snd new ! i else snd now ! i) [0..<length (fst now)]))"

record sa_state =
  st_points :: "int list"
  st_scores :: "rat list"
  st_heap :: "heap_item list"
  st_in_heap :: "int set"
  st_k :: int
  st_last :: int
  st_t :: rat
  st_draws :: draws

definition sa_step ::
  "(int list \<Rightarrow> rat list) \<Rightarrow> (rat \<Rightarrow> rat) \<Rightarrow> int list \<Rightarrow> rat \<Rightarrow> sa_state \<Rightarrow> sa_state res" where
  "sa_step predict exp_fn dims cool st =
     res_bind (walk_all dims (st_points st) (st_draws st)) (\<lambda>(new_points, ds).
       let new_scores = predict new_points; n = length (st_points st)
       in if length ds < n then Inl NoDraws
          else let (points, scores) = sa_move exp_fn (st_t st) (st_points st, st_scores st) (new_points, new_scores) (take n ds)
            in res_bind (sa_consider_all (zip new_scores new_points) (st_heap st, st_in_heap st, False))
                 (\<lambda>(heap, in_heap, modified).
                   Inr \<lparr>st_points = points, st_scores = scores, st_heap = heap, st_in_heap = in_heap,
                        st_k = st_k st + 1, st_last = (if modified then st_k st else st_last st),
                        st_t = st_t st - cool, st_draws = drop n ds\<rparr>))"

text \<open>The \<open>while\<close> loop runs at most \<open>n_iter\<close> times; the first argument counts what is left.\<close>

fun sa_loop ::
  "nat \<Rightarrow> (int list \<Rightarrow> rat list) \<Rightarrow> (rat \<Rightarrow> rat) \<Rightarrow> int list \<Rightarrow> rat \<Rightarrow> int \<Rightarrow> sa_state \<Rightarrow> sa_state res" where
  "sa_loop 0 predict exp_fn dims cool early st = Inr st"
| "sa_loop (Suc n) predict exp_fn dims cool early st =
     (if st_k st < st_last st + early
      then res_bind (sa_step predict exp_fn dims cool st) (sa_loop n predict exp_fn dims cool early)
      else Inr st)"

text \<open>\<open>heap_items.sort(key=lambda item: -item[0])\<close> and the filter on non-negative scores.\<close>

definition desc_key :: "heap_item \<Rightarrow> nat \<times> rat" where
  "desc_key x = (case fst x of None \<Rightarrow> (1, 0) | Some s \<Rightarrow> (0, - s))"

definition sa_results :: "heap_item list \<Rightarrow> int list" where
  "sa_results heap = map snd (filter (\<lambda>x. case fst x of None \<Rightarrow> False | Some s \<Rightarrow> s \<ge> 0) (sort_key desc_key heap))"

definition sa_search ::
  "(int list \<Rightarrow> rat list) \<Rightarrow> (rat \<Rightarrow> rat) \<Rightarrow> sa_optimizer \<Rightarrow> int \<Rightarrow> int set \<Rightarrow> int list \<Rightarrow> draws \<Rightarrow>
   (int list \<times> int list \<times> draws) res" where
  "sa_search predict exp_fn opt num exclusive points ds =
     (let scores = predict points;
          heap0 = heapify item_key (map (\<lambda>i. (None, -1 - int i)) [0..<nat num]);
          in_heap0 = exclusive \<union> set (map snd heap0);
          t0 = fst (sa_temp opt);
          cool = (fst (sa_temp opt) - snd (sa_temp opt)) / of_int (sa_n_iter opt + 1)
      in res_bind (sa_consider_all (zip scores points) (heap0, in_heap0, False)) (\<lambda>(heap1, in_heap1, _).
         res_bind (sa_loop (nat (sa_n_iter opt)) predict exp_fn (sa_dims opt) cool (early_stop opt)
             \<lparr>st_points = points, st_scores = scores, st_heap = heap1, st_in_heap = in_heap1, st_k = 0,
              st_last = 0, st_t = t0, st_draws = ds\<rparr>) (\<lambda>st.
           Inr (sa_results (st_heap st), st_points st, st_draws st))))"

definition sa_start_points ::
  "(int list \<Rightarrow> int list) \<Rightarrow> sa_optimizer \<Rightarrow> draws \<Rightarrow> (int list \<times> draws) res" where
  "sa_start_points set_iter opt ds =
     (if persistent opt \<and> sa_points opt \<noteq> None then Inr (the (sa_points opt), ds)
      else sample_ints set_iter 0 (sa_space_len opt) (parallel_size opt) ds)"

definition find_maximums ::
  "(int list \<Rightarrow> int list) \<Rightarrow> (int list \<Rightarrow> rat list) \<Rightarrow> (rat \<Rightarrow> rat) \<Rightarrow> sa_optimizer \<Rightarrow> int \<Rightarrow> int set \<Rightarrow> draws \<Rightarrow>
   (int list \<times> sa_optimizer \<times> draws) res" where
  "find_maximums set_iter predict exp_fn opt num exclusive ds =
     res_bind (sa_start_points set_iter opt ds) (\<lambda>(points, ds1).
     res_bind (sa_search predict exp_fn opt num exclusive points ds1) (\<lambda>(maximums, points', ds2).
       Inr (maximums, if persistent opt then opt\<lparr>sa_points := Some points'\<rparr> else opt, ds2)))"

end
