(* ===== verification/SACorrect.thy ===== *)
theory SACorrect
  imports SAOptimizer ConfigSpaceCorrect MeasureCorrect
begin

text \<open>
  Correctness of the simulated annealing optimiser: the random walk moves to another point of the
  space, and the heap holds, at every moment, the best of the points considered so far that are not
  excluded. The heap operations are used through the facts of \<open>Heapq\<close>.
\<close>

section \<open>Random walk\<close>

lemma walk_loop_Inr:
  assumes "walk_loop dims old new ds = Inr (r, ds')" and "in_dims new dims" and "length old = length dims"
  shows "in_dims r dims \<and> r \<noteq> old"
  using assms
proof (induction dims old new ds rule: walk_loop.induct)
  case (1 dims old new ds)
  show ?case
  proof (cases "new = old")
    case True
    then obtain d1 d2 ds1 v x where v: "old \<noteq> []" "ds = d1 # d2 # ds1"
      "randint (dims ! nat (d1 mod int (length old))) [d2] = Inr (v, x)"
      "walk_loop dims old (new[nat (d1 mod int (length old)) := v]) ds1 = Inr (r, ds')"
      using "1.prems"(1) by (subst (asm) walk_loop.simps)
        (auto simp: Let_def res_bind_eq_Inr split: if_splits list.splits)
    let ?i = "nat (d1 mod int (length old))"
    have "0 < int (length dims)" using v(1) "1.prems"(3) by (metis length_greater_0_conv of_nat_0_less_iff)
    then have "?i < length dims" using "1.prems"(3) by (simp add: nat_less_iff)
    then have "in_dims (new[?i := v]) dims"
      using randint_range [OF v(3)] "1.prems"(2) by (intro in_dims_update) auto
    then show ?thesis using "1.IH" [OF True v(1,2) refl refl v(3) refl v(4)] "1.prems"(3) by blast
  next
    case False
    then show ?thesis using "1.prems" by (subst (asm) walk_loop.simps) auto
  qed
qed

lemma walk_loop_stuck:
  assumes "\<forall>d \<in> set dims. d = 1" and "old = replicate (length dims) 0"
  shows "\<exists>err. walk_loop dims old old ds = Inl err"
  using assms
proof (induction ds rule: induct_list012)
  case 1
  then show ?case by (simp add: walk_loop.simps [of dims])
next
  case (2 d)
  then show ?case by (simp add: walk_loop.simps [of dims])
next
  case (3 d1 d2 ds)
  show ?case
  proof (cases "old = []")
    case True
    then show ?thesis by (simp add: walk_loop.simps [of dims])
  next
    case False
    let ?i = "nat (d1 mod int (length old))"
    have i: "?i < length dims" using False 3(3,4) by (simp add: nat_less_iff)
    then have "dims ! ?i = 1" using 3(3) by simp
    then have "randint (dims ! ?i) [d2] = Inr (0, [])" by (simp add: randint_def)
    moreover have "old[?i := 0] = old" using 3(4) i by (simp add: list_update_same_conv)
    ultimately have "walk_loop dims old old (d1 # d2 # ds) = walk_loop dims old old ds"
      using False by (subst walk_loop.simps) (simp add: Let_def)
    then show ?thesis using 3 by simp
  qed
qed

lemma ones_knob: "\<forall>d \<in> set dims. d = 1 \<Longrightarrow> point2knob p dims = Inr (replicate (length dims) 0)"
  by (induction dims arbitrary: p) auto

text \<open>
  A random walk ends in a different point of the space. Some draws make it end whenever a knob
  has two values or more; on a space with a single configuration no draws do.
\<close>

theorem random_walk_moves:
  assumes "good_dims dims" and "0 \<le> p" and "p < prod_list dims"
  shows "(\<forall>q ds'. random_walk p dims ds = Inr (q, ds') \<longrightarrow> q \<noteq> p \<and> 0 \<le> q \<and> q < prod_list dims)
    \<and> (list_ex (\<lambda>d. 1 < d) dims \<longrightarrow> (\<exists>ds r. random_walk p dims ds = Inr r))
    \<and> (list_all (\<lambda>d. d = 1) dims \<longrightarrow> (\<exists>err. random_walk p dims ds = Inl err))"
proof -
  obtain old where old: "point2knob p dims = Inr old" "in_dims old dims" using kc.to_knob_total [OF assms(1)] by blast
  have len: "length old = length dims" using in_dims_length [OF old(2)] .
  have p: "knob2point old dims = p" using kc.to_point_to_knob [OF assms(1) old(1) assms(2,3)] .
  have "q \<noteq> p \<and> 0 \<le> q \<and> q < prod_list dims" if w: "random_walk p dims ds = Inr (q, ds')" for q ds'
  proof -
    obtain new where new: "walk_loop dims old old ds = Inr (new, ds')" "q = knob2point new dims"
      using w old(1) by (auto simp: random_walk_def res_bind_eq_Inr)
    have "in_dims new dims \<and> new \<noteq> old" using walk_loop_Inr [OF new(1) old(2) len] .
    then show ?thesis using kc.to_point_inj [OF assms(1)] kc.to_point_range [OF assms(1)] old(2) p new(2) by metis
  qed
  moreover have "\<exists>ds r. random_walk p dims ds = Inr r" if big: "list_ex (\<lambda>d. 1 < d) dims"
  proof -
    obtain j where j: "j < length dims" "1 < dims ! j" using big by (auto simp: list_ex_length)
    define v where "v = (if old ! j = 0 then 1 else 0 :: int)"
    have "old[j := v] \<noteq> old" using j(1) len by (metis nth_list_update_eq v_def zero_neq_one)
    moreover have "randint (dims ! j) [v] = Inr (v, [])" using j(2) by (auto simp: randint_def v_def)
    ultimately have "walk_loop dims old old [int j, v] = Inr (old[j := v], [])"
      using j len by (subst walk_loop.simps) (auto simp: Let_def walk_loop.simps [of dims old "old[j := v]"])
    then show ?thesis using old(1) by (intro exI [of _ "[int j, v]"]) (simp add: random_walk_def)
  qed
  moreover have "\<exists>err. random_walk p dims ds = Inl err" if "list_all (\<lambda>d. d = 1) dims"
  proof -
    have "\<forall>d \<in> set dims. d = 1" using that by (simp add: list_all_iff)
    then show ?thesis using walk_loop_stuck [OF _ refl, of dims ds] ones_knob [of dims p]
      by (auto simp: random_walk_def)
  qed
  ultimately show ?thesis by blast
qed

theorem random_walk_moves_witness: "\<exists>ds r. random_walk 4 [3, 2] ds = Inr r"
  using random_walk_moves [of "[3, 2]" 4] by (simp add: good_dims_def)

lemma walk_all_Inr:
  assumes "good_dims dims" and "walk_all dims ps ds = Inr (qs, ds')" and "\<forall>p \<in> set ps. 0 \<le> p \<and> p < prod_list dims"
  shows "length qs = length ps \<and> (\<forall>q \<in> set qs. 0 \<le> q \<and> q < prod_list dims)"
  using assms(2,3)
proof (induction ps arbitrary: ds qs)
  case (Cons p ps)
  then obtain q ds1 qs1 where q: "random_walk p dims ds = Inr (q, ds1)" "walk_all dims ps ds1 = Inr (qs1, ds')" "qs = q # qs1"
    by (auto simp: res_bind_eq_Inr)
  obtain old new where "point2knob p dims = Inr old" "walk_loop dims old old ds = Inr (new, ds1)" "q = knob2point new dims"
    using q(1) by (auto simp: random_walk_def res_bind_eq_Inr)
  moreover have "in_dims old dims" using kc.to_knob_in_dims [OF assms(1) calculation(1)] .
  ultimately have "0 \<le> q \<and> q < prod_list dims"
    using walk_loop_Inr [of dims old old ds new ds1] in_dims_length kc.to_point_range [OF assms(1)] by metis
  moreover have "length qs1 = length ps \<and> (\<forall>q \<in> set qs1. 0 \<le> q \<and> q < prod_list dims)"
  proof (rule Cons.IH [OF q(2)])
    show "\<forall>p \<in> set ps. 0 \<le> p \<and> p < prod_list dims" using Cons.prems(2) unfolding list.set ball_simps by (rule conjunct2)
  qed
  ultimately show ?case unfolding q(3) by (intro conjI ballI) (auto simp only: list.size list.set insert_iff)
qed simp

section \<open>The heap\<close>

definition sa_inv :: "(int \<Rightarrow> rat) \<Rightarrow> nat \<Rightarrow> int set \<Rightarrow> int set \<Rightarrow> heap_item list \<Rightarrow> int set \<Rightarrow> bool" where
  "sa_inv f num excl seen heap in_heap \<longleftrightarrow> is_heap item_key heap \<and> length heap = num
     \<and> distinct (map snd heap) \<and> in_heap = excl \<union> snd ` set heap \<and> excl \<inter> snd ` set heap = {}
     \<and> (\<forall>x \<in> set heap. case fst x of None \<Rightarrow> snd x < 0 | Some s \<Rightarrow> s = f (snd x) \<and> snd x \<in> seen)
     \<and> (\<forall>q \<in> seen - excl. (Some (f q), q) \<in> set heap \<or> (\<forall>x \<in> set heap. Some (f q) \<le> fst x))"

lemma item_le_fst: "item_key x \<le> item_key y \<Longrightarrow> fst x \<le> fst y"
  by (auto simp: less_eq_prod_def)

lemma sa_consider_ok:
  assumes "sa_inv f num excl seen heap in_heap" and "0 < num" and "0 \<le> p"
  shows "\<exists>heap' in_heap' m'. sa_consider (f p, p) (heap, in_heap, m) = Inr (heap', in_heap', m')
    \<and> sa_inv f num excl (insert p seen) heap' in_heap'"
proof -
  have heap: "is_heap item_key heap" "length heap = num" "distinct (map snd heap)" "heap \<noteq> []"
    and inh: "in_heap = excl \<union> snd ` set heap" "excl \<inter> snd ` set heap = {}"
    and items: "\<forall>x \<in> set heap. case fst x of None \<Rightarrow> snd x < 0 | Some s \<Rightarrow> s = f (snd x) \<and> snd x \<in> seen"
    and cover: "\<forall>q \<in> seen - excl. (Some (f q), q) \<in> set heap \<or> (\<forall>x \<in> set heap. Some (f q) \<le> fst x)"
    using assms by (auto simp: sa_inv_def)
  let ?top = "heap ! 0"
  have min: "fst ?top \<le> fst x" if "x \<in> set heap" for x
    using heap_min [OF heap(1)] item_le_fst that by (metis in_set_conv_nth)
  show ?thesis
  proof (cases "Some (f p) > fst ?top \<and> p \<notin> in_heap")
    case True
    obtain heap' where h': "heapreplace item_key heap (Some (f p), p) = Inr (?top, heap')" "is_heap item_key heap'"
      "add_mset ?top (mset heap') = add_mset (Some (f p), p) (mset heap)"
      using heapreplace_props [OF heap(1,4)] by blast
    have split: "heap = ?top # tl heap" using heap(4) by (cases heap) auto
    have m: "mset heap' = mset ((Some (f p), p) # tl heap)"
      using h'(3) by (subst (asm) split) simp
    have set': "set heap' = insert (Some (f p), p) (set (tl heap))" using mset_eq_setD [OF m] by simp
    have dist: "distinct (snd ?top # map snd (tl heap))" using heap(3) split by (metis list.simps(9))
    have sub: "set (tl heap) \<subseteq> set heap" "set heap = insert ?top (set (tl heap))"
      by (metis split set_subset_Cons, metis split list.simps(15))
    have "mset (map snd heap') = mset (p # map snd (tl heap))" using m by (metis list.simps(9) mset_map snd_conv)
    moreover have pn: "p \<notin> snd ` set heap" "p \<notin> excl" using True inh(1) by auto
    ultimately have "distinct (map snd heap')"
      using dist sub(1) mset_eq_imp_distinct_iff [of "map snd heap'" "p # map snd (tl heap)"] by auto
    moreover have "insert p (in_heap - {snd ?top}) = excl \<union> snd ` set heap'"
    proof -
      have "snd ?top \<notin> excl" "snd ?top \<notin> snd ` set (tl heap)" using inh(2) sub dist by auto
      then show ?thesis using inh(1) set' sub(2) by auto
    qed
    moreover have "(Some (f q), q) \<in> set heap' \<or> (\<forall>x \<in> set heap'. Some (f q) \<le> fst x)" if q: "q \<in> insert p seen - excl" for q
    proof (cases "(Some (f q), q) \<in> set heap'")
      case False
      then have "q \<noteq> p" using set' by auto
      then have "(Some (f q), q) \<in> set heap \<or> (\<forall>x \<in> set heap. Some (f q) \<le> fst x)" using cover q by auto
      moreover have "Some (f q) \<le> fst ?top" if "(Some (f q), q) \<in> set heap"
        using that False set' sub(2) by (metis fst_conv insert_iff order_refl)
      ultimately have le: "Some (f q) \<le> fst ?top" using heap(4) by auto
      then have "Some (f q) < Some (f p)" using True by (meson le_less_trans)
      moreover have "Some (f q) \<le> fst x" if "x \<in> set (tl heap)" for x
        using le min that sub(1) by (meson order_trans subsetD)
      ultimately show ?thesis unfolding set' by (simp add: order_less_imp_le)
    qed simp
    moreover have "\<forall>x \<in> set heap'. case fst x of None \<Rightarrow> snd x < 0 | Some s \<Rightarrow> s = f (snd x) \<and> snd x \<in> insert p seen"
      using items sub(1) set' by (force split: option.splits)
    moreover have "length heap' = num" using mset_eq_length [OF m] heap(2,4) by (cases heap) auto
    moreover have "excl \<inter> snd ` set heap' = {}" using inh(2) set' sub(1) pn by auto
    ultimately have "sa_inv f num excl (insert p seen) heap' (insert p (in_heap - {snd ?top}))"
      using h'(2) by (simp add: sa_inv_def)
    moreover have "snd ?top \<in> in_heap" using inh(1) heap(4) by simp
    ultimately show ?thesis using True h'(1) heap(4) by (simp add: sa_consider_def) blast
  next
    case False
    have "(Some (f p), p) \<in> set heap \<or> (\<forall>x \<in> set heap. Some (f p) \<le> fst x)" if ne: "p \<notin> excl"
    proof (cases "Some (f p) > fst ?top")
      case True
      then have "p \<in> snd ` set heap" using False inh(1) ne by blast
      then obtain x where x: "x \<in> set heap" "snd x = p" by blast
      then have "case fst x of None \<Rightarrow> p < 0 | Some s \<Rightarrow> s = f p \<and> p \<in> seen" using items by blast
      then have "x = (Some (f p), p)" using x(2) assms(3) by (cases x; cases "fst x") simp_all
      then show ?thesis using x by blast
    next
      case False
      then show ?thesis using min by (meson linorder_not_less order_trans)
    qed
    then have "\<forall>q \<in> insert p seen - excl. (Some (f q), q) \<in> set heap \<or> (\<forall>x \<in> set heap. Some (f q) \<le> fst x)"
      using cover by blast
    moreover have "\<forall>x \<in> set heap. case fst x of None \<Rightarrow> snd x < 0 | Some s \<Rightarrow> s = f (snd x) \<and> snd x \<in> insert p seen"
      using items by (metis (no_types, lifting) insertCI option.case_eq_if)
    ultimately have "sa_inv f num excl (insert p seen) heap in_heap"
      unfolding sa_inv_def using heap(1-3) inh by blast
    moreover have "sa_consider (f p, p) (heap, in_heap, m) = Inr (heap, in_heap, m)"
      unfolding sa_consider_def Let_def prod.case using False heap(4) by (simp only: if_False if_True fst_conv snd_conv)
    ultimately show ?thesis by blast
  qed
qed

lemma sa_consider_all_ok:
  assumes "sa_inv f num excl seen heap in_heap" and "0 < num" and "\<forall>p \<in> set ps. 0 \<le> p"
  shows "\<exists>heap' in_heap' m'. sa_consider_all (zip (map f ps) ps) (heap, in_heap, m) = Inr (heap', in_heap', m')
    \<and> sa_inv f num excl (set ps \<union> seen) heap' in_heap'"
  using assms(1,3)
proof (induction ps arbitrary: seen heap in_heap m)
  case Nil
  then show ?case by simp
next
  case (Cons p ps)
  from sa_consider_ok [OF Cons.prems(1) assms(2), of p] Cons.prems(2) obtain heap1 in_heap1 m1 where
    one: "sa_consider (f p, p) (heap, in_heap, m) = Inr (heap1, in_heap1, m1)"
      "sa_inv f num excl (insert p seen) heap1 in_heap1" by force
  from Cons.IH [OF one(2), of m1] Cons.prems(2) one(1) show ?case by (auto simp: insert_commute)
qed

section \<open>The search\<close>

lemma walk_loop_err:
  assumes "good_dims dims" and "dims \<noteq> []" and "length old = length dims" and "walk_loop dims old new ds = Inl err"
  shows "err = NoDraws"
  using assms
proof (induction dims old new ds rule: walk_loop.induct)
  case (1 dims old new ds)
  have "new = old" "old \<noteq> []" using "1.prems" by (auto simp: walk_loop.simps [of dims] split: if_splits)
  show ?case
  proof (cases "\<exists>d1 d2 ds1. ds = d1 # d2 # ds1")
    case True
    then obtain d1 d2 ds1 where ds: "ds = d1 # d2 # ds1" by blast
    let ?i = "nat (d1 mod int (length old))"
    have "0 < int (length dims)" using "1.prems"(2) by simp
    then have "?i < length dims" using "1.prems"(3) by (simp add: nat_less_iff)
    then have "0 < dims ! ?i" using "1.prems"(1) by (simp add: good_dims_def)
    then have r: "randint (dims ! ?i) [d2] = Inr (d2 mod (dims ! ?i), [])" by (simp add: randint_def)
    have "walk_loop dims old (new[?i := d2 mod (dims ! ?i)]) ds1 = Inl err"
      using "1.prems"(4) \<open>new = old\<close> \<open>old \<noteq> []\<close> r by (subst (asm) walk_loop.simps) (simp add: ds Let_def)
    then show ?thesis using "1.IH" [OF \<open>new = old\<close> \<open>old \<noteq> []\<close> ds refl refl r refl] "1.prems" by blast
  next
    case False
    then show ?thesis using "1.prems"(4) \<open>new = old\<close> \<open>old \<noteq> []\<close>
      by (subst (asm) walk_loop.simps) (auto split: list.splits)
  qed
qed

lemma walk_all_err:
  assumes "good_dims dims" and "dims \<noteq> []" and "walk_all dims ps ds = Inl err"
  shows "err = NoDraws"
  using assms(3)
proof (induction ps arbitrary: ds)
  case (Cons p ps)
  obtain old where old: "point2knob p dims = Inr old" "in_dims old dims" using kc.to_knob_total [OF assms(1)] by blast
  have len: "length old = length dims" using in_dims_length [OF old(2)] .
  show ?case
  proof (cases "random_walk p dims ds")
    case (Inl e)
    then have "walk_loop dims old old ds = Inl e" using old(1) by (auto simp: random_walk_def res_bind_eq_Inl)
    then show ?thesis using walk_loop_err [OF assms(1,2) len] Inl Cons.prems by simp
  next
    case (Inr r)
    then show ?thesis using Cons by (cases r) (auto simp: res_bind_eq_Inl)
  qed
qed simp

text \<open>The invariant of the annealing loop.\<close>

definition anneal_ok :: "(int \<Rightarrow> rat) \<Rightarrow> int list \<Rightarrow> nat \<Rightarrow> int set \<Rightarrow> int set \<Rightarrow> sa_state \<Rightarrow> bool" where
  "anneal_ok f dims num excl seen st \<longleftrightarrow> sa_inv f num excl seen (st_heap st) (st_in_heap st)
     \<and> set (st_points st) \<subseteq> {0..<prod_list dims} \<and> seen \<subseteq> {0..<prod_list dims}"

lemma sa_step_fed:
  assumes "good_dims dims" and "0 < num" and "anneal_ok f dims num excl seen st"
    and "walk_all dims (st_points st) d0 = Inr (qs, rest0)" and "length acc = length (st_points st)"
  obtains st' seen' where "anneal_ok f dims num excl seen' st'" and "seen \<subseteq> seen'"
    and "\<And>d rest. walk_all dims (st_points st) d = Inr (qs, acc @ rest) \<Longrightarrow>
      sa_step (map f) exp_fn dims cool (st\<lparr>st_draws := d\<rparr>) = Inr (st'\<lparr>st_draws := rest\<rparr>)"
proof -
  have inv: "sa_inv f num excl seen (st_heap st) (st_in_heap st)" "set (st_points st) \<subseteq> {0..<prod_list dims}"
    "seen \<subseteq> {0..<prod_list dims}" using assms(3) unfolding anneal_ok_def by blast+
  have qs: "length qs = length (st_points st)" "set qs \<subseteq> {0..<prod_list dims}"
    using walk_all_Inr [OF assms(1,4)] inv(2) unfolding subset_iff atLeastLessThan_iff by blast+
  have "\<forall>q \<in> set qs. 0 \<le> q" using qs(2) unfolding subset_iff atLeastLessThan_iff by blast
  then obtain heap' in_heap' m' where
    c: "sa_consider_all (zip (map f qs) qs) (st_heap st, st_in_heap st, False) = Inr (heap', in_heap', m')"
      "sa_inv f num excl (set qs \<union> seen) heap' in_heap'"
    using sa_consider_all_ok [OF inv(1) assms(2), of qs False] by blast
  let ?mv = "sa_move exp_fn (st_t st) (st_points st, st_scores st) (qs, map f qs) acc"
  let ?st' = "\<lparr>st_points = fst ?mv, st_scores = snd ?mv, st_heap = heap', st_in_heap = in_heap', st_k = st_k st + 1,
    st_last = (if m' then st_k st else st_last st), st_t = st_t st - cool, st_draws = []\<rparr>"
  have "set (fst ?mv) \<subseteq> set (st_points st) \<union> set qs"
    unfolding sa_move_def Let_def fst_conv set_map using qs(1) by (fastforce simp: image_subset_iff)
  then have "set (fst ?mv) \<subseteq> {0..<prod_list dims}" using inv(2) qs(2) by (meson Un_least subset_trans)
  then have "anneal_ok f dims num excl (set qs \<union> seen) ?st'"
    using inv(3) qs(2) c(2) unfolding anneal_ok_def sa_state.simps by (intro conjI Un_least; simp only:)
  moreover have "sa_step (map f) exp_fn dims cool (st\<lparr>st_draws := d\<rparr>) = Inr (?st'\<lparr>st_draws := rest\<rparr>)"
    if "walk_all dims (st_points st) d = Inr (qs, acc @ rest)" for d rest
    using that c(1) assms(5) by (simp add: sa_step_def Let_def prod.case_eq_if)
  ultimately show thesis using that by blast
qed

lemma sa_step_ok:
  assumes "good_dims dims" and "dims \<noteq> []" and "0 < num" and "anneal_ok f dims num excl seen st"
  shows "sa_step (map f) exp_fn dims cool st = Inl NoDraws
    \<or> (\<exists>st' seen'. sa_step (map f) exp_fn dims cool st = Inr st' \<and> anneal_ok f dims num excl seen' st' \<and> seen \<subseteq> seen')"
proof (cases "walk_all dims (st_points st) (st_draws st)")
  case (Inl err)
  then show ?thesis using walk_all_err [OF assms(1,2)] by (auto simp: sa_step_def)
next
  case (Inr qd)
  obtain qs ds where q: "walk_all dims (st_points st) (st_draws st) = Inr (qs, ds)" using Inr by (cases qd) auto
  let ?n = "length (st_points st)"
  show ?thesis
  proof (cases "length ds < ?n")
    case True
    then show ?thesis using q by (simp add: sa_step_def)
  next
    case False
    then have len: "length (take ?n ds) = ?n" by simp
    obtain st' seen' where "anneal_ok f dims num excl seen' st'" "seen \<subseteq> seen'"
      "\<And>d rest. walk_all dims (st_points st) d = Inr (qs, take ?n ds @ rest) \<Longrightarrow>
        sa_step (map f) exp_fn dims cool (st\<lparr>st_draws := d\<rparr>) = Inr (st'\<lparr>st_draws := rest\<rparr>)"
      by (rule sa_step_fed [OF assms(1,3,4) q len, where exp_fn = exp_fn and cool = cool]) (rule that)
    moreover from this(3) [of "st_draws st" "drop ?n ds"] q
    have "sa_step (map f) exp_fn dims cool st = Inr (st'\<lparr>st_draws := drop ?n ds\<rparr>)" by simp
    moreover have "anneal_ok f dims num excl seen' (st'\<lparr>st_draws := drop ?n ds\<rparr>)"
      using calculation(1) by (simp add: anneal_ok_def)
    ultimately show ?thesis by blast
  qed
qed

lemma sa_loop_ok:
  assumes "good_dims dims" and "dims \<noteq> []" and "0 < num" and "anneal_ok f dims num excl seen st"
  shows "sa_loop n (map f) exp_fn dims cool early st = Inl NoDraws
    \<or> (\<exists>st' seen'. sa_loop n (map f) exp_fn dims cool early st = Inr st' \<and> anneal_ok f dims num excl seen' st' \<and> seen \<subseteq> seen')"
  using assms(4)
proof (induction n arbitrary: st seen)
  case (Suc n)
  show ?case
  proof (cases "st_k st < st_last st + early")
    case True
    from sa_step_ok [OF assms(1-3) Suc.prems, of exp_fn cool] show ?thesis
    proof
      assume "\<exists>st' seen'. sa_step (map f) exp_fn dims cool st = Inr st' \<and> anneal_ok f dims num excl seen' st' \<and> seen \<subseteq> seen'"
      then obtain st' seen' where "sa_step (map f) exp_fn dims cool st = Inr st'" "anneal_ok f dims num excl seen' st'" "seen \<subseteq> seen'"
        by blast
      with Suc.IH [of seen' st'] True show ?thesis by simp (meson subset_trans)
    qed (use True in simp)
  qed (use Suc.prems in auto)
qed auto

lemma sa_initial_heap:
  assumes "excl \<inter> {..<0} = {}"
  shows "sa_inv f num excl {} (heapify item_key (map (\<lambda>i. (None, -1 - int i)) [0..<num]))
    (excl \<union> set (map snd (heapify item_key (map (\<lambda>i. (None, -1 - int i)) [0..<num]))))"
proof -
  let ?xs = "map (\<lambda>i. (None, -1 - int i)) [0..<num] :: heap_item list" and ?h = "heapify item_key (map (\<lambda>i. (None, -1 - int i)) [0..<num])"
  have h: "is_heap item_key ?h" "mset ?h = mset ?xs" using heapify_props by blast+
  have "set ?h = set ?xs" "length ?h = num" using mset_eq_setD [OF h(2)] mset_eq_length [OF h(2)] by auto
  moreover have "mset (map snd ?h) = mset (map snd ?xs)" using h(2) by (metis mset_map)
  then have "distinct (map snd ?h)"
    using mset_eq_imp_distinct_iff [of "map snd ?h" "map snd ?xs"] by (simp add: distinct_map inj_on_def comp_def)
  ultimately show ?thesis using h(1) assms by (auto simp: sa_inv_def)
qed

lemma sa_results_set:
  "set (sa_results heap) = {p. \<exists>s. (Some s, p) \<in> set heap \<and> 0 \<le> s}"
  by (force simp: sa_results_def split: option.splits)

lemma desc_sorted:
  "sorted (map desc_key xs) \<Longrightarrow> \<forall>x \<in> set xs. fst x = Some (f (snd x)) \<Longrightarrow> sorted (map (\<lambda>q. - f q) (map snd xs))"
  by (induction xs) (auto simp: desc_key_def less_eq_prod_def)

lemma sa_inv_item:
  assumes "sa_inv f num excl seen heap in_heap" and "(Some s, p) \<in> set heap"
  shows "s = f p \<and> p \<in> seen \<and> p \<notin> excl"
proof -
  have "case fst (Some s, p) of None \<Rightarrow> snd (Some s, p) < 0 | Some s' \<Rightarrow> s' = f (snd (Some s, p)) \<and> snd (Some s, p) \<in> seen"
    and "excl \<inter> snd ` set heap = {}" using assms unfolding sa_inv_def by blast+
  then show ?thesis using assms(2) by force
qed

lemma sa_results_sorted:
  assumes "sa_inv f num excl seen heap in_heap"
  shows "sorted (map (\<lambda>q. - f q) (sa_results heap))"
proof -
  let ?P = "\<lambda>x :: heap_item. case fst x of None \<Rightarrow> False | Some s \<Rightarrow> s \<ge> 0"
  have "sorted (map desc_key (filter ?P (sort_key desc_key heap)))"
    by (intro sorted_filter) simp
  moreover have "fst x = Some (f (snd x))" if mem: "x \<in> set (filter ?P (sort_key desc_key heap))" for x
  proof -
    obtain s q where x: "x = (s, q)" by (cases x)
    then obtain t where "s = Some t" using mem by (cases s) auto
    then show ?thesis using sa_inv_item [OF assms, of t q] mem x by simp
  qed
  ultimately show ?thesis unfolding sa_results_def by (intro desc_sorted) blast+
qed

lemma sa_results_distinct:
  assumes "distinct (map snd heap)"
  shows "distinct (sa_results heap) \<and> length (sa_results heap) \<le> length heap"
proof -
  have "mset (map snd (sort_key desc_key heap)) = mset (map snd heap)" by simp
  then have "distinct (map snd (sort_key desc_key heap))" using assms mset_eq_imp_distinct_iff by blast
  then show ?thesis unfolding sa_results_def
    by (simp add: distinct_map_filter) (metis length_filter_le length_sort)
qed

definition best_points :: "(int \<Rightarrow> rat) \<Rightarrow> nat \<Rightarrow> int set \<Rightarrow> int set \<Rightarrow> int list \<Rightarrow> bool" where
  "best_points f num excl seen ps \<longleftrightarrow> distinct ps \<and> length ps \<le> num \<and> set ps \<subseteq> seen - excl
     \<and> (\<forall>p \<in> set ps. 0 \<le> f p) \<and> sorted (map (\<lambda>p. - f p) ps)
     \<and> (\<forall>q \<in> seen - excl. 0 \<le> f q \<longrightarrow> q \<in> set ps \<or> (length ps = num \<and> (\<forall>p \<in> set ps. f q \<le> f p)))"

lemma sa_inv_best_points:
  assumes "sa_inv f num excl seen heap in_heap"
  shows "best_points f num excl seen (sa_results heap)"
proof -
  have inv: "length heap = num" "distinct (map snd heap)" "excl \<inter> snd ` set heap = {}"
    "\<And>q. q \<in> seen - excl \<Longrightarrow> (Some (f q), q) \<in> set heap \<or> (\<forall>x \<in> set heap. Some (f q) \<le> fst x)"
    using assms unfolding sa_inv_def by blast+
  note res = sa_inv_item [OF assms]
  have "q \<in> set (sa_results heap) \<or> (length (sa_results heap) = num \<and> (\<forall>p \<in> set (sa_results heap). f q \<le> f p))"
    if q: "q \<in> seen - excl" "0 \<le> f q" for q
    using inv(4) [OF q(1)]
  proof
    assume "(Some (f q), q) \<in> set heap"
    then show ?thesis using q(2) by (auto simp: sa_results_set)
  next
    assume all: "\<forall>x \<in> set heap. Some (f q) \<le> fst x"
    have "\<exists>s. fst x = Some s \<and> f q \<le> s" if "x \<in> set heap" for x
      using all that by (cases "fst x") auto
    then have "filter (\<lambda>x. case fst x of None \<Rightarrow> False | Some s \<Rightarrow> s \<ge> 0) (sort_key desc_key heap) = sort_key desc_key heap"
      using q(2) by (intro filter_True) (fastforce dest: order_trans)
    then have "length (sa_results heap) = num" using inv(1) unfolding sa_results_def by simp
    moreover have "f q \<le> f p" if "p \<in> set (sa_results heap)" for p
    proof -
      obtain s where s: "(Some s, p) \<in> set heap" using \<open>p \<in> set (sa_results heap)\<close> unfolding sa_results_set by blast
      then show ?thesis using all res by fastforce
    qed
    ultimately show ?thesis by blast
  qed
  moreover have "set (sa_results heap) \<subseteq> seen - excl" "\<forall>p \<in> set (sa_results heap). 0 \<le> f p"
    using res unfolding sa_results_set by blast+
  ultimately show ?thesis
    unfolding best_points_def using sa_results_distinct [OF inv(2)] sa_results_sorted [OF assms] inv(1) by blast
qed

section \<open>Draws that make the search return\<close>

lemma random_walk_some:
  assumes "good_dims dims" and "list_ex (\<lambda>d. 1 < d) dims"
  shows "\<exists>ds q. \<forall>rest. random_walk p dims (ds @ rest) = Inr (q, rest)"
proof -
  obtain old where old: "point2knob p dims = Inr old" "in_dims old dims" using kc.to_knob_total [OF assms(1)] by blast
  obtain j where j: "j < length dims" "1 < dims ! j" using assms(2) by (auto simp: list_ex_length)
  define v where "v = (if old ! j = 0 then 1 else 0 :: int)"
  have "old[j := v] \<noteq> old" using j(1) in_dims_length [OF old(2)] by (metis nth_list_update_eq v_def zero_neq_one)
  moreover have "randint (dims ! j) [v] = Inr (v, [])" using j(2) by (auto simp: randint_def v_def)
  ultimately have "walk_loop dims old old ([int j, v] @ rest) = Inr (old[j := v], rest)" for rest
    using j in_dims_length [OF old(2)]
    by (subst walk_loop.simps) (auto simp: Let_def walk_loop.simps [of dims old "old[j := v]"])
  then show ?thesis using old(1) by (intro exI [of _ "[int j, v]"] exI) (simp add: random_walk_def)
qed

lemma walk_all_some:
  assumes "good_dims dims" and "list_ex (\<lambda>d. 1 < d) dims"
  shows "\<exists>ds qs. \<forall>rest. walk_all dims ps (ds @ rest) = Inr (qs, rest)"
proof (induction ps)
  case Nil
  show ?case by (intro exI [of _ "[]"]) simp
next
  case (Cons p ps)
  then obtain ds2 qs where "\<forall>rest. walk_all dims ps (ds2 @ rest) = Inr (qs, rest)" by blast
  moreover obtain ds1 q where "\<forall>rest. random_walk p dims (ds1 @ rest) = Inr (q, rest)"
    using random_walk_some [OF assms] by blast
  ultimately have "\<forall>rest. walk_all dims (p # ps) ((ds1 @ ds2) @ rest) = Inr (q # qs, rest)" by simp
  then show ?case by blast
qed

lemma sa_loop_some:
  assumes "good_dims dims" and "list_ex (\<lambda>d. 1 < d) dims" and "0 < num" and "anneal_ok f dims num excl seen st"
  shows "\<exists>ds r. \<forall>rest. sa_loop n (map f) exp_fn dims cool early (st\<lparr>st_draws := ds @ rest\<rparr>) = Inr (r\<lparr>st_draws := rest\<rparr>)"
  using assms(4)
proof (induction n arbitrary: st seen)
  case (Suc n)
  show ?case
  proof (cases "st_k st < st_last st + early")
    case True
    let ?acc = "replicate (length (st_points st)) 0"
    obtain ds qs where q: "\<And>rest. walk_all dims (st_points st) (ds @ rest) = Inr (qs, rest)"
      using walk_all_some [OF assms(1,2)] by blast
    obtain st' seen' where st': "anneal_ok f dims num excl seen' st'"
      "\<And>d rest. walk_all dims (st_points st) d = Inr (qs, ?acc @ rest) \<Longrightarrow>
        sa_step (map f) exp_fn dims cool (st\<lparr>st_draws := d\<rparr>) = Inr (st'\<lparr>st_draws := rest\<rparr>)"
      by (rule sa_step_fed [OF assms(1,3) Suc.prems q [of "[]"] length_replicate [of _ 0],
          where exp_fn = exp_fn and cool = cool]) (rule that)
    from Suc.IH [OF st'(1)] obtain ds2 r where "\<And>rest. sa_loop n (map f) exp_fn dims cool early (st'\<lparr>st_draws := ds2 @ rest\<rparr>) = Inr (r\<lparr>st_draws := rest\<rparr>)"
      by blast
    then have "sa_loop (Suc n) (map f) exp_fn dims cool early (st\<lparr>st_draws := (ds @ ?acc @ ds2) @ rest\<rparr>) = Inr (r\<lparr>st_draws := rest\<rparr>)" for rest
      using st'(2) [OF q] True by simp
    then show ?thesis by blast
  next
    case False
    then show ?thesis by (intro exI [of _ "[]"] exI [of _ st]) simp
  qed
next
  case 0
  show ?case by (intro exI [of _ "[]"] exI [of _ st]) simp
qed

section \<open>The search\<close>

definition sa_ok :: "sa_optimizer \<Rightarrow> bool" where
  "sa_ok opt \<longleftrightarrow> good_dims (sa_dims opt) \<and> sa_dims opt \<noteq> [] \<and> sa_space_len opt = prod_list (sa_dims opt)
     \<and> 0 \<le> parallel_size opt \<and> parallel_size opt \<le> sa_space_len opt
     \<and> (case sa_points opt of None \<Rightarrow> True | Some ps \<Rightarrow> set ps \<subseteq> {0..<sa_space_len opt})"

lemma sa_search_start:
  assumes "0 < num" and "excl \<inter> {..<0} = {}" and "set points \<subseteq> {0..<prod_list (sa_dims opt)}"
  obtains st where "anneal_ok f (sa_dims opt) (nat num) excl (set points) st"
    and "st_points st = points" and "st_scores st = map f points" and "st_k st = 0" and "st_last st = 0" and "st_t st = fst (sa_temp opt)"
    and "\<And>ds. sa_search (map f) exp_fn opt num excl points ds =
      res_bind (sa_loop (nat (sa_n_iter opt)) (map f) exp_fn (sa_dims opt)
          ((fst (sa_temp opt) - snd (sa_temp opt)) / of_int (sa_n_iter opt + 1)) (early_stop opt) (st\<lparr>st_draws := ds\<rparr>))
        (\<lambda>st. Inr (sa_results (st_heap st), st_points st, st_draws st))"
proof -
  let ?heap0 = "heapify item_key (map (\<lambda>i. (None, -1 - int i)) [0..<nat num])"
  have "\<forall>p \<in> set points. 0 \<le> p" using assms(3) unfolding subset_iff atLeastLessThan_iff by blast
  moreover have "0 < nat num" using assms(1) by simp
  ultimately obtain heap1 in_heap1 m1 where
    c: "sa_consider_all (zip (map f points) points) (?heap0, excl \<union> set (map snd ?heap0), False) = Inr (heap1, in_heap1, m1)"
      "sa_inv f (nat num) excl (set points \<union> {}) heap1 in_heap1"
    using sa_consider_all_ok [OF sa_initial_heap [OF assms(2)]] by blast
  let ?st = "\<lparr>st_points = points, st_scores = map f points, st_heap = heap1, st_in_heap = in_heap1, st_k = 0,
    st_last = 0, st_t = fst (sa_temp opt), st_draws = []\<rparr>"
  have "anneal_ok f (sa_dims opt) (nat num) excl (set points) ?st"
    using c(2) assms(3) unfolding anneal_ok_def sa_state.simps Un_empty_right by blast
  then show thesis by (rule that) (simp_all add: sa_search_def Let_def c(1) [simplified])
qed

lemma sa_search_ok:
  assumes "sa_ok opt" and "0 < num" and "excl \<inter> {..<0} = {}" and "set points \<subseteq> {0..<sa_space_len opt}"
  shows "sa_search (map f) exp_fn opt num excl points ds = Inl NoDraws
    \<or> (\<exists>ps points' ds' seen. sa_search (map f) exp_fn opt num excl points ds = Inr (ps, points', ds')
        \<and> set points \<subseteq> seen \<and> seen \<subseteq> {0..<sa_space_len opt} \<and> set points' \<subseteq> {0..<sa_space_len opt}
        \<and> best_points f (nat num) excl seen ps)"
proof -
  have dims: "good_dims (sa_dims opt)" "sa_dims opt \<noteq> []" "sa_space_len opt = prod_list (sa_dims opt)"
    using assms(1) by (simp_all add: sa_ok_def)
  let ?cool = "(fst (sa_temp opt) - snd (sa_temp opt)) / of_int (sa_n_iter opt + 1)"
  obtain st where st: "anneal_ok f (sa_dims opt) (nat num) excl (set points) st"
    "sa_search (map f) exp_fn opt num excl points ds =
      res_bind (sa_loop (nat (sa_n_iter opt)) (map f) exp_fn (sa_dims opt) ?cool (early_stop opt) (st\<lparr>st_draws := ds\<rparr>))
        (\<lambda>st. Inr (sa_results (st_heap st), st_points st, st_draws st))"
    by (rule sa_search_start [OF assms(2,3) assms(4) [unfolded dims(3)], where f = f and exp_fn = exp_fn]) (rule that)
  have "anneal_ok f (sa_dims opt) (nat num) excl (set points) (st\<lparr>st_draws := ds\<rparr>)"
    using st(1) by (simp add: anneal_ok_def)
  from sa_loop_ok [OF dims(1,2) _ this, of "nat (sa_n_iter opt)" exp_fn ?cool "early_stop opt"] assms(2)
  consider "sa_loop (nat (sa_n_iter opt)) (map f) exp_fn (sa_dims opt) ?cool (early_stop opt) (st\<lparr>st_draws := ds\<rparr>) = Inl NoDraws"
    | st' seen where "sa_loop (nat (sa_n_iter opt)) (map f) exp_fn (sa_dims opt) ?cool (early_stop opt) (st\<lparr>st_draws := ds\<rparr>) = Inr st'"
      "anneal_ok f (sa_dims opt) (nat num) excl seen st'" "set points \<subseteq> seen" by auto
  then show ?thesis
  proof cases
    case 1
    then show ?thesis unfolding st(2) by simp
  next
    case 2
    have inv: "sa_inv f (nat num) excl seen (st_heap st') (st_in_heap st')" "set (st_points st') \<subseteq> {0..<sa_space_len opt}"
      "seen \<subseteq> {0..<sa_space_len opt}" using 2(2) unfolding anneal_ok_def dims(3) by blast+
    then show ?thesis using sa_inv_best_points [OF inv(1)] 2(3) unfolding st(2) 2(1) res_bind.simps by blast
  qed
qed

lemma sa_search_some:
  assumes "sa_ok opt" and "0 < num" and "excl \<inter> {..<0} = {}" and "set points \<subseteq> {0..<sa_space_len opt}"
    and "list_ex (\<lambda>d. 1 < d) (sa_dims opt)"
  shows "\<exists>ds ps points'. \<forall>rest. sa_search (map f) exp_fn opt num excl points (ds @ rest) = Inr (ps, points', rest)"
proof -
  let ?cool = "(fst (sa_temp opt) - snd (sa_temp opt)) / of_int (sa_n_iter opt + 1)"
  have dims: "good_dims (sa_dims opt)" "sa_space_len opt = prod_list (sa_dims opt)" using assms(1) by (simp_all add: sa_ok_def)
  obtain st where st: "anneal_ok f (sa_dims opt) (nat num) excl (set points) st"
    "\<And>ds. sa_search (map f) exp_fn opt num excl points ds =
      res_bind (sa_loop (nat (sa_n_iter opt)) (map f) exp_fn (sa_dims opt) ?cool (early_stop opt) (st\<lparr>st_draws := ds\<rparr>))
        (\<lambda>st. Inr (sa_results (st_heap st), st_points st, st_draws st))"
    by (rule sa_search_start [OF assms(2,3) assms(4) [unfolded dims(2)], where f = f and exp_fn = exp_fn]) (rule that)
  have "0 < nat num" using assms(2) by simp
  from sa_loop_some [OF dims(1) assms(5) this st(1), of "nat (sa_n_iter opt)" exp_fn ?cool "early_stop opt"]
  obtain ds r where r: "\<And>rest. sa_loop (nat (sa_n_iter opt)) (map f) exp_fn (sa_dims opt) ?cool (early_stop opt) (st\<lparr>st_draws := ds @ rest\<rparr>) = Inr (r\<lparr>st_draws := rest\<rparr>)"
    by blast
  have "sa_search (map f) exp_fn opt num excl points (ds @ rest) = Inr (sa_results (st_heap r), st_points r, rest)" for rest
    unfolding st(2) r by simp
  then show ?thesis by blast
qed

text \<open>What is known of the points a search has looked at from its starting points alone.\<close>

definition covers_start :: "sa_optimizer \<Rightarrow> int set \<Rightarrow> bool" where
  "covers_start opt seen \<longleftrightarrow>
     (if persistent opt \<and> sa_points opt \<noteq> None then set (the (sa_points opt)) \<subseteq> seen
      else parallel_size opt \<le> int (card seen))"

lemma sa_start_points_ok:
  assumes "\<And>xs. mset (set_iter xs) = mset xs" and "sa_ok opt" and "sa_start_points set_iter opt ds = Inr (points, ds')"
  shows "set points \<subseteq> {0..<sa_space_len opt} \<and> covers_start opt (set points)"
proof (cases "persistent opt \<and> sa_points opt \<noteq> None")
  case True
  then obtain ps where "sa_points opt = Some ps" "persistent opt" by blast
  then show ?thesis using assms(2,3) unfolding sa_ok_def sa_start_points_def covers_start_def by (simp; metis)
next
  case False
  then have sampled: "sample_ints set_iter 0 (sa_space_len opt) (parallel_size opt) ds = Inr (points, ds')"
    using assms(3) unfolding sa_start_points_def by (simp only: if_False)
  then obtain vis where vis: "sample_loop 0 (sa_space_len opt) (nat (parallel_size opt)) [] ds = Inr (vis, ds')" "points = set_iter vis"
    by (auto simp: sample_ints_def res_bind_eq_Inr split: if_splits)
  have "mset points = mset vis" using assms(1) vis(2) by simp
  then have "set points = set vis" by (rule mset_eq_setD)
  moreover have v: "distinct vis" "length vis = nat (parallel_size opt)" "\<forall>x \<in> set vis. 0 \<le> x \<and> x < sa_space_len opt"
    using sample_loop_Inr [OF vis(1)] by simp_all
  moreover have "set vis \<subseteq> {0..<sa_space_len opt}" using v(3) unfolding subset_iff atLeastLessThan_iff by blast
  ultimately show ?thesis unfolding covers_start_def using False assms(2)
    by (simp only: if_False distinct_card) (simp add: sa_ok_def)
qed

lemma sa_start_points_some:
  assumes "sa_ok opt"
  shows "\<exists>ds r. \<forall>rest. sa_start_points set_iter opt (ds @ rest) = Inr (r, rest)"
proof (cases "persistent opt \<and> sa_points opt \<noteq> None")
  case True
  then show ?thesis unfolding sa_start_points_def by (intro exI [of _ "[]"] exI [of _ "the (sa_points opt)"]) simp
next
  case False
  have "0 \<le> parallel_size opt" "parallel_size opt \<le> sa_space_len opt - 0" using assms by (simp_all add: sa_ok_def)
  then show ?thesis using sample_ints_some [of "parallel_size opt" "sa_space_len opt" 0 set_iter] False
    unfolding sa_start_points_def by (simp only: if_False)
qed

lemma covers_start_mono:
  assumes "covers_start opt seen" and "seen \<subseteq> seen'" and "finite seen'"
  shows "covers_start opt seen'"
  using assms card_mono [OF assms(3,2)] unfolding covers_start_def by (auto split: if_splits)

lemma find_maximums_ok:
  assumes "\<And>xs. mset (set_iter xs) = mset xs" and "sa_ok opt" and "0 < num" and "excl \<subseteq> {0..<sa_space_len opt}"
  shows "(case find_maximums set_iter (map f) exp_fn opt num excl ds of
      Inl err \<Rightarrow> err = NoDraws
    | Inr (ps, opt', ds') \<Rightarrow> sa_ok opt' \<and> sa_space_len opt' = sa_space_len opt \<and> sa_dims opt' = sa_dims opt \<and> (\<exists>seen \<subseteq> {0..<sa_space_len opt}.
        best_points f (nat num) excl seen ps \<and> covers_start opt seen))
    \<and> (list_ex (\<lambda>d. 1 < d) (sa_dims opt) \<longrightarrow>
         (\<exists>ds ps opt'. \<forall>rest. find_maximums set_iter (map f) exp_fn opt num excl (ds @ rest) = Inr (ps, opt', rest)))"
proof -
  have neg: "excl \<inter> {..<0} = {}" using assms(4) by force
  have "case find_maximums set_iter (map f) exp_fn opt num excl ds of
      Inl err \<Rightarrow> err = NoDraws
    | Inr (ps, opt', ds') \<Rightarrow> sa_ok opt' \<and> sa_space_len opt' = sa_space_len opt \<and> sa_dims opt' = sa_dims opt \<and> (\<exists>seen \<subseteq> {0..<sa_space_len opt}.
        best_points f (nat num) excl seen ps \<and> covers_start opt seen)"
  proof (cases "sa_start_points set_iter opt ds")
    case (Inl err)
    then have "err = NoDraws"
      using sample_ints_err [of "parallel_size opt" "sa_space_len opt" 0] assms(2)
      by (auto simp: sa_start_points_def sa_ok_def split: if_splits)
    then show ?thesis using Inl by (simp add: find_maximums_def)
  next
    case (Inr start)
    obtain points ds1 where pts: "sa_start_points set_iter opt ds = Inr (points, ds1)" using Inr by (cases start) auto
    note ok = sa_start_points_ok [OF assms(1,2) pts, THEN conjunct1] sa_start_points_ok [OF assms(1,2) pts, THEN conjunct2]
    from sa_search_ok [OF assms(2,3) neg ok(1), of f exp_fn ds1] show ?thesis
    proof (elim disjE exE conjE)
      fix ps points' ds' seen
      assume s: "sa_search (map f) exp_fn opt num excl points ds1 = Inr (ps, points', ds')" "set points \<subseteq> seen"
        "seen \<subseteq> {0..<sa_space_len opt}" "set points' \<subseteq> {0..<sa_space_len opt}" "best_points f (nat num) excl seen ps"
      have "covers_start opt seen" using covers_start_mono [OF ok(2) s(2)] s(3) finite_subset finite_atLeastLessThan_int by blast
      moreover have "sa_ok (if persistent opt then opt\<lparr>sa_points := Some points'\<rparr> else opt)"
        using assms(2) s(4) by (simp add: sa_ok_def)
      ultimately show ?thesis using pts s(1,3,5) unfolding find_maximums_def by auto
    qed (use pts in \<open>simp add: find_maximums_def\<close>)
  qed
  moreover have "\<exists>ds ps opt'. \<forall>rest. find_maximums set_iter (map f) exp_fn opt num excl (ds @ rest) = Inr (ps, opt', rest)" if big: "list_ex (\<lambda>d. 1 < d) (sa_dims opt)"
  proof -
    obtain ds1 points where pts: "\<And>rest. sa_start_points set_iter opt (ds1 @ rest) = Inr (points, rest)"
      using sa_start_points_some [OF assms(2)] by blast
    have "set points \<subseteq> {0..<sa_space_len opt}" using sa_start_points_ok [OF assms(1,2) pts] by blast
    from sa_search_some [OF assms(2,3) neg this big] obtain ds2 ps points' where
      "\<forall>rest. sa_search (map f) exp_fn opt num excl points (ds2 @ rest) = Inr (ps, points', rest)" by blast
    then have "\<forall>rest. find_maximums set_iter (map f) exp_fn opt num excl ((ds1 @ ds2) @ rest)
        = Inr (ps, if persistent opt then opt\<lparr>sa_points := Some points'\<rparr> else opt, rest)"
      using pts by (simp add: find_maximums_def)
    then show ?thesis by blast
  qed
  ultimately show ?thesis by blast
qed

section \<open>The points a search looks at\<close>

text \<open>
  The random walks of a search, without its heap: \<open>sa_trail n\<close> are the points proposed in each of \<open>n\<close> rounds, with the points at which the chains arrive and the random numbers that are left.
\<close>

fun sa_trail ::
  "nat \<Rightarrow> (int list \<Rightarrow> rat list) \<Rightarrow> (rat \<Rightarrow> rat) \<Rightarrow> int list \<Rightarrow> rat \<Rightarrow> rat \<Rightarrow> int list \<times> rat list \<Rightarrow> draws \<Rightarrow> (int list list \<times> int list \<times> draws) res" where
  "sa_trail 0 predict exp_fn dims cool t now ds = Inr ([], fst now, ds)"
| "sa_trail (Suc n) predict exp_fn dims cool t now ds =
     res_bind (walk_all dims (fst now) ds) (\<lambda>(new, ds1).
     res_bind (sa_trail n predict exp_fn dims cool (t - cool) (sa_move exp_fn t now (new, predict new) (take (length (fst now)) ds1)) (drop (length (fst now)) ds1))
       (\<lambda>(trail, points, ds2). Inr (new # trail, points, ds2)))"

lemma sa_consider_all_unmodified:
  "sa_consider_all sps (heap, in_heap, m) = Inr (heap', in_heap', False) \<Longrightarrow> heap' = heap \<and> in_heap' = in_heap \<and> \<not> m"
proof (induction sps arbitrary: heap in_heap m)
  case (Cons sp sps)
  obtain heap1 in_heap1 m1 where one: "sa_consider sp (heap, in_heap, m) = Inr (heap1, in_heap1, m1)" "sa_consider_all sps (heap1, in_heap1, m1) = Inr (heap', in_heap', False)"
    using Cons.prems by (auto simp: res_bind_eq_Inr)
  have "heap' = heap1 \<and> in_heap' = in_heap1 \<and> \<not> m1" using Cons.IH [OF one(2)] .
  moreover have "m1 \<or> heap1 = heap \<and> in_heap1 = in_heap \<and> m1 = m" using one(1) by (auto simp: sa_consider_def Let_def res_bind_eq_Inr split: prod.splits if_splits)
  ultimately show ?case by auto
qed auto

text \<open>One round: its proposals are all that is looked at, and a round that modifies nothing leaves the heap as it is.\<close>

lemma sa_step_trail:
  assumes "good_dims dims" and "0 < num" and "anneal_ok f dims num excl seen st" and "sa_step (map f) exp_fn dims cool st = Inr st'"
  obtains new ds where "walk_all dims (st_points st) (st_draws st) = Inr (new, ds)" and "anneal_ok f dims num excl (set new \<union> seen) st'"
    and "(st_points st', st_scores st') = sa_move exp_fn (st_t st) (st_points st, st_scores st) (new, map f new) (take (length (st_points st)) ds)"
    and "st_draws st' = drop (length (st_points st)) ds" and "st_t st' = st_t st - cool" and "st_k st' = st_k st + 1"
    and "st_last st' = st_k st \<or> st_last st' = st_last st \<and> st_heap st' = st_heap st \<and> st_in_heap st' = st_in_heap st"
proof -
  obtain new ds where w: "walk_all dims (st_points st) (st_draws st) = Inr (new, ds)" using assms(4) by (auto simp: sa_step_def res_bind_eq_Inr)
  have inv: "sa_inv f num excl seen (st_heap st) (st_in_heap st)" "set (st_points st) \<subseteq> {0..<prod_list dims}" "seen \<subseteq> {0..<prod_list dims}"
    using assms(3) unfolding anneal_ok_def by blast+
  have new: "length new = length (st_points st)" "set new \<subseteq> {0..<prod_list dims}"
    using walk_all_Inr [OF assms(1) w] inv(2) unfolding subset_iff atLeastLessThan_iff by blast+
  then have "\<forall>q \<in> set new. 0 \<le> q" unfolding subset_iff atLeastLessThan_iff by blast
  then obtain heap' in_heap' m' where c: "sa_consider_all (zip (map f new) new) (st_heap st, st_in_heap st, False) = Inr (heap', in_heap', m')"
    "sa_inv f num excl (set new \<union> seen) heap' in_heap'" using sa_consider_all_ok [OF inv(1) assms(2), of new False] by blast
  let ?mv = "sa_move exp_fn (st_t st) (st_points st, st_scores st) (new, map f new) (take (length (st_points st)) ds)"
  have st': "st' = \<lparr>st_points = fst ?mv, st_scores = snd ?mv, st_heap = heap', st_in_heap = in_heap', st_k = st_k st + 1,
      st_last = (if m' then st_k st else st_last st), st_t = st_t st - cool, st_draws = drop (length (st_points st)) ds\<rparr>"
    using assms(4) w c(1) by (auto simp: sa_step_def Let_def split: if_splits prod.splits)
  have "set (fst ?mv) \<subseteq> set (st_points st) \<union> set new"
    unfolding sa_move_def Let_def fst_conv set_map using new(1) by (fastforce simp: image_subset_iff)
  then have "set (fst ?mv) \<subseteq> {0..<prod_list dims}" using inv(2) new(2) by (meson Un_least subset_trans)
  then have "anneal_ok f dims num excl (set new \<union> seen) st'"
    using inv(3) new(2) c(2) unfolding anneal_ok_def st' sa_state.simps by (intro conjI Un_least; simp only:)
  then show thesis using that [OF w] c(1) sa_consider_all_unmodified unfolding st' by (cases m') fastforce+
qed

text \<open>
  The loop: the heap belongs to the points of all rounds, and already to those of the first \<open>m\<close>, the last of which changed it. When rounds are left over, none of the last \<open>early\<close> has changed the heap.
\<close>

lemma sa_loop_trail:
  assumes "good_dims dims" and "0 < num" and "anneal_ok f dims num excl seen st" and "sa_inv f num excl old (st_heap st) (st_in_heap st)"
    and "sa_loop n (map f) exp_fn dims cool early st = Inr st'"
  shows "\<exists>trail m. length trail \<le> n \<and> sa_trail (length trail) (map f) exp_fn dims cool (st_t st) (st_points st, st_scores st) (st_draws st) = Inr (trail, st_points st', st_draws st')
    \<and> anneal_ok f dims num excl (set (concat trail) \<union> seen) st' \<and> m \<le> length trail
    \<and> sa_inv f num excl (if m = 0 then old else set (concat (take m trail)) \<union> seen) (st_heap st') (st_in_heap st')
    \<and> (if m = 0 then st_last st' = st_last st else st_last st' = st_k st + int m - 1)
    \<and> (length trail < n \<longrightarrow> st_last st' + early \<le> st_k st + int (length trail))"
  using assms(3-5)
proof (induction n arbitrary: st seen old)
  case 0
  then show ?case by (intro exI [of _ "[]"] exI [of _ 0]) auto
next
  case (Suc n)
  show ?case
  proof (cases "st_k st < st_last st + early")
    case False
    then show ?thesis using Suc.prems by (intro exI [of _ "[]"] exI [of _ 0]) auto
  next
    case True
    then obtain st1 where st1: "sa_step (map f) exp_fn dims cool st = Inr st1" "sa_loop n (map f) exp_fn dims cool early st1 = Inr st'"
      using Suc.prems(3) by (auto simp: res_bind_eq_Inr)
    obtain new ds where r: "walk_all dims (st_points st) (st_draws st) = Inr (new, ds)" "anneal_ok f dims num excl (set new \<union> seen) st1"
      "(st_points st1, st_scores st1) = sa_move exp_fn (st_t st) (st_points st, st_scores st) (new, map f new) (take (length (st_points st)) ds)"
      "st_draws st1 = drop (length (st_points st)) ds" "st_t st1 = st_t st - cool" "st_k st1 = st_k st + 1"
      "st_last st1 = st_k st \<or> st_last st1 = st_last st \<and> st_heap st1 = st_heap st \<and> st_in_heap st1 = st_in_heap st"
      by (rule sa_step_trail [OF assms(1,2) Suc.prems(1) st1(1)])
    define same where "same \<longleftrightarrow> st_last st1 = st_last st \<and> st_heap st1 = st_heap st \<and> st_in_heap st1 = st_in_heap st"
    have all: "sa_inv f num excl (set new \<union> seen) (st_heap st1) (st_in_heap st1)" using r(2) by (simp add: anneal_ok_def)
    then have old: "sa_inv f num excl (if same then old else set new \<union> seen) (st_heap st1) (st_in_heap st1)" using Suc.prems(2) by (auto simp: same_def)
    obtain trail m where t: "length trail \<le> n"
      "sa_trail (length trail) (map f) exp_fn dims cool (st_t st1) (st_points st1, st_scores st1) (st_draws st1) = Inr (trail, st_points st', st_draws st')"
      "anneal_ok f dims num excl (set (concat trail) \<union> (set new \<union> seen)) st'" "m \<le> length trail"
      "sa_inv f num excl (if m = 0 then if same then old else set new \<union> seen else set (concat (take m trail)) \<union> (set new \<union> seen)) (st_heap st') (st_in_heap st')"
      "if m = 0 then st_last st' = st_last st1 else st_last st' = st_k st1 + int m - 1"
      "length trail < n \<longrightarrow> st_last st' + early \<le> st_k st1 + int (length trail)"
      using Suc.IH [OF r(2) old st1(2)] by blast
    define m' where "m' = (if m = 0 \<and> same then 0 else Suc m)"
    have run: "sa_trail (length (new # trail)) (map f) exp_fn dims cool (st_t st) (st_points st, st_scores st) (st_draws st) = Inr (new # trail, st_points st', st_draws st')"
      using r(1,3-5) t(2) by simp
    have ok: "anneal_ok f dims num excl (set (concat (new # trail)) \<union> seen) st'" using t(3) by (simp add: Un_ac)
    have inv: "sa_inv f num excl (if m' = 0 then old else set (concat (take m' (new # trail))) \<union> seen) (st_heap st') (st_in_heap st')"
      using t(5) by (auto simp: m'_def Un_ac split: if_splits)
    have last: "if m' = 0 then st_last st' = st_last st else st_last st' = st_k st + int m' - 1"
      using t(6) r(6,7) by (auto simp: m'_def same_def split: if_splits)
    show ?thesis using t(1,4,7) run ok inv last r(6) by (intro exI [of _ "new # trail"] exI [of _ m']) (auto simp: m'_def)
  qed
qed

text \<open>
  C5. \<open>find_maximums\<close> looks at its starting points and at the points that the random walks propose, in \<open>n_iter\<close> rounds or in fewer when the last \<open>early_stop\<close> rounds changed nothing. It
  returns different, non-excluded points of these in descending order of their
  predicted score, none of them negative. Every point it looked at is among them, or excluded, or has a negative
  score, or \<open>num\<close> points at least as good are returned; all this holds of the result already for the points of the first \<open>m\<close> rounds, where round \<open>m\<close> is the last one that changed something. A persistent
  optimiser goes on next time from where the walks have arrived. It
  never fails except by waiting for more random numbers, and some random numbers make it return whenever the space has two
  configurations.
\<close>

theorem find_maximums_best:
  assumes "\<And>xs. mset (set_iter xs) = mset xs" and "sa_ok opt" and "0 < num" and "excl \<subseteq> {0..<sa_space_len opt}"
  shows "(case find_maximums set_iter (map f) exp_fn opt num excl ds of
      Inl err \<Rightarrow> err = NoDraws
    | Inr (ps, opt', ds') \<Rightarrow> sa_ok opt' \<and> (\<exists>start ds1 trail points m.
        sa_start_points set_iter opt ds = Inr (start, ds1)
        \<and> sa_trail (length trail) (map f) exp_fn (sa_dims opt) ((fst (sa_temp opt) - snd (sa_temp opt)) / of_int (sa_n_iter opt + 1))
            (fst (sa_temp opt)) (start, map f start) ds1 = Inr (trail, points, ds')
        \<and> opt' = (if persistent opt then opt\<lparr>sa_points := Some points\<rparr> else opt)
        \<and> length trail \<le> nat (sa_n_iter opt) \<and> m \<le> length trail
        \<and> (length trail < nat (sa_n_iter opt) \<longrightarrow> int (m - 1) + early_stop opt \<le> int (length trail))
        \<and> set (start @ concat trail) \<subseteq> {0..<sa_space_len opt} \<and> covers_start opt (set start)
        \<and> best_points f (nat num) excl (set (start @ concat trail)) ps
        \<and> best_points f (nat num) excl (set (start @ concat (take m trail))) ps))
    \<and> (list_ex (\<lambda>d. 1 < d) (sa_dims opt) \<longrightarrow> (\<exists>ds r. find_maximums set_iter (map f) exp_fn opt num excl ds = Inr r))"
proof (intro conjI)
  note ok = find_maximums_ok [OF assms, of f exp_fn]
  show "list_ex (\<lambda>d. 1 < d) (sa_dims opt) \<longrightarrow> (\<exists>ds r. find_maximums set_iter (map f) exp_fn opt num excl ds = Inr r)"
    using ok by (metis append_Nil2)
  let ?cool = "(fst (sa_temp opt) - snd (sa_temp opt)) / of_int (sa_n_iter opt + 1)"
  show "case find_maximums set_iter (map f) exp_fn opt num excl ds of
      Inl err \<Rightarrow> err = NoDraws
    | Inr (ps, opt', ds') \<Rightarrow> sa_ok opt' \<and> (\<exists>start ds1 trail points m.
        sa_start_points set_iter opt ds = Inr (start, ds1)
        \<and> sa_trail (length trail) (map f) exp_fn (sa_dims opt) ?cool (fst (sa_temp opt)) (start, map f start) ds1 = Inr (trail, points, ds')
        \<and> opt' = (if persistent opt then opt\<lparr>sa_points := Some points\<rparr> else opt)
        \<and> length trail \<le> nat (sa_n_iter opt) \<and> m \<le> length trail
        \<and> (length trail < nat (sa_n_iter opt) \<longrightarrow> int (m - 1) + early_stop opt \<le> int (length trail))
        \<and> set (start @ concat trail) \<subseteq> {0..<sa_space_len opt} \<and> covers_start opt (set start)
        \<and> best_points f (nat num) excl (set (start @ concat trail)) ps
        \<and> best_points f (nat num) excl (set (start @ concat (take m trail))) ps)"
  proof (cases "find_maximums set_iter (map f) exp_fn opt num excl ds")
    case (Inl err)
    then show ?thesis using ok [of ds] by simp
  next
    case (Inr r)
    obtain start ds1 where start: "sa_start_points set_iter opt ds = Inr (start, ds1)" using Inr by (auto simp: find_maximums_def res_bind_eq_Inr)
    note starts = sa_start_points_ok [OF assms(1,2) start]
    have neg: "excl \<inter> {..<0} = {}" using assms(4) by force
    have sub: "set start \<subseteq> {0..<prod_list (sa_dims opt)}" using starts assms(2) by (simp add: sa_ok_def)
    obtain st where st: "anneal_ok f (sa_dims opt) (nat num) excl (set start) st" "st_points st = start" "st_scores st = map f start"
      "st_k st = 0" "st_last st = 0" "st_t st = fst (sa_temp opt)"
      "\<And>ds. sa_search (map f) exp_fn opt num excl start ds =
        res_bind (sa_loop (nat (sa_n_iter opt)) (map f) exp_fn (sa_dims opt) ?cool (early_stop opt) (st\<lparr>st_draws := ds\<rparr>))
          (\<lambda>st. Inr (sa_results (st_heap st), st_points st, st_draws st))"
      by (rule sa_search_start [OF assms(3) neg sub, where f = f and exp_fn = exp_fn]) (rule that)
    obtain st' where st': "sa_loop (nat (sa_n_iter opt)) (map f) exp_fn (sa_dims opt) ?cool (early_stop opt) (st\<lparr>st_draws := ds1\<rparr>) = Inr st'"
      "r = (sa_results (st_heap st'), if persistent opt then opt\<lparr>sa_points := Some (st_points st')\<rparr> else opt, st_draws st')"
      using Inr start unfolding find_maximums_def by (auto simp: res_bind_eq_Inr st(7))
    have dims: "good_dims (sa_dims opt)" "sa_space_len opt = prod_list (sa_dims opt)" "0 < nat num" using assms(2,3) by (simp_all add: sa_ok_def)
    have "anneal_ok f (sa_dims opt) (nat num) excl (set start) (st\<lparr>st_draws := ds1\<rparr>)" using st(1) by (simp add: anneal_ok_def)
    moreover have "sa_inv f (nat num) excl (set start) (st_heap (st\<lparr>st_draws := ds1\<rparr>)) (st_in_heap (st\<lparr>st_draws := ds1\<rparr>))" using st(1) by (simp add: anneal_ok_def)
    ultimately obtain trail m where t: "length trail \<le> nat (sa_n_iter opt)"
      "sa_trail (length trail) (map f) exp_fn (sa_dims opt) ?cool (fst (sa_temp opt)) (start, map f start) ds1 = Inr (trail, st_points st', st_draws st')"
      "anneal_ok f (sa_dims opt) (nat num) excl (set (concat trail) \<union> set start) st'" "m \<le> length trail"
      "sa_inv f (nat num) excl (if m = 0 then set start else set (concat (take m trail)) \<union> set start) (st_heap st') (st_in_heap st')"
      "if m = 0 then st_last st' = 0 else st_last st' = int m - 1"
      "length trail < nat (sa_n_iter opt) \<longrightarrow> st_last st' + early_stop opt \<le> int (length trail)"
      using sa_loop_trail [OF dims(1,3) _ _ st'(1)] st(2-6) by fastforce
    have range: "set (start @ concat trail) \<subseteq> {0..<sa_space_len opt}" and "sa_inv f (nat num) excl (set (start @ concat trail)) (st_heap st') (st_in_heap st')"
      using t(3) unfolding anneal_ok_def dims(2) set_append by (blast, simp add: Un_commute)
    moreover have "sa_inv f (nat num) excl (set (start @ concat (take m trail))) (st_heap st') (st_in_heap st')"
      using t(5) by (cases m) (simp_all add: Un_commute)
    ultimately have best: "best_points f (nat num) excl (set (start @ concat trail)) (sa_results (st_heap st'))"
      "best_points f (nat num) excl (set (start @ concat (take m trail))) (sa_results (st_heap st'))" using sa_inv_best_points by blast+
    have early: "length trail < nat (sa_n_iter opt) \<longrightarrow> int (m - 1) + early_stop opt \<le> int (length trail)" using t(6,7) by (cases m) auto
    have "sa_ok (if persistent opt then opt\<lparr>sa_points := Some (st_points st')\<rparr> else opt)" using ok [of ds] Inr st'(2) by simp
    then show ?thesis unfolding Inr st'(2) sum.case prod.case
      using start t(1,2,4) early range starts best
      by (intro conjI exI [of _ start] exI [of _ ds1] exI [of _ trail] exI [of _ "st_points st'"] exI [of _ m]) blast+
  qed
qed

theorem find_maximums_best_witness:
  "\<exists>ds r. find_maximums rev (map of_int) id
     \<lparr>sa_dims = [3, 2], sa_space_len = 6, sa_n_iter = 5, sa_temp = (1, 0), persistent = True, parallel_size = 2,
      early_stop = 50, sa_points = None\<rparr> 3 {4} ds = Inr r"
  using find_maximums_best [of rev "\<lparr>sa_dims = [3, 2], sa_space_len = 6, sa_n_iter = 5, sa_temp = (1, 0), persistent = True,
      parallel_size = 2, early_stop = 50, sa_points = None\<rparr>" 3 "{4}", where f = of_int and exp_fn = id]
  by (simp add: sa_ok_def good_dims_def)

end
