(* ===== verification/RpcBase.thy ===== *)
theory RpcBase
  imports PyObj "HOL-Library.Word"
begin

text \<open>
  The wire level of the RPC control plane, \<open>rpc/base.py\<close>: 32-bit little-endian integers as
  \<open>struct.pack("<i", _)\<close> writes them, length-prefixed JSON messages, and receiving a fixed number
  of bytes from a socket that delivers them in arbitrary pieces. A socket that is read from is the
  list of the pieces that arrive before the peer closes; the text that \<open>json\<close> produces and reads is
  a pair of arguments \<open>dumps\<close> and \<open>loads\<close>, as no property depends on its form.
\<close>

type_synonym byte = "8 word"
type_synonym bytes = "byte list"

section \<open>Constants\<close>

definition RPC_TRACKER_MAGIC :: int where
  "RPC_TRACKER_MAGIC = 0x2F271"

definition RPC_MAGIC :: int where
  "RPC_MAGIC = 0xFF271"

definition RPC_CODE_SUCCESS :: int where
  "RPC_CODE_SUCCESS = RPC_MAGIC + 0"

definition RPC_CODE_DUPLICATE :: int where
  "RPC_CODE_DUPLICATE = RPC_MAGIC + 1"

definition RPC_CODE_MISMATCH :: int where
  "RPC_CODE_MISMATCH = RPC_MAGIC + 2"

datatype tracker_code =
    FAIL | SUCCESS | PING | STOP | PUT | REQUEST | UPDATE_INFO | SUMMARY | GET_PENDING_MATCHKEYS

fun code_value :: "tracker_code \<Rightarrow> int" where
  "code_value FAIL = -1"
| "code_value SUCCESS = 0"
| "code_value PING = 1"
| "code_value STOP = 2"
| "code_value PUT = 3"
| "code_value REQUEST = 4"
| "code_value UPDATE_INFO = 5"
| "code_value SUMMARY = 6"
| "code_value GET_PENDING_MATCHKEYS = 7"

section \<open>Integers on the wire\<close>

text \<open>\<open>struct.pack("<i", n)\<close> and \<open>struct.unpack("<i", bs)[0]\<close>.\<close>

definition pack_i32 :: "int \<Rightarrow> bytes res" where
  "pack_i32 n =
     (if - (2 ^ 31) \<le> n \<and> n < 2 ^ 31
      then Inr [word_of_int n, word_of_int (n div 2 ^ 8), word_of_int (n div 2 ^ 16), word_of_int (n div 2 ^ 24)]
      else Inl StructErr)"

definition unpack_i32 :: "bytes \<Rightarrow> int res" where
  "unpack_i32 bs =
     (case bs of
        [b0, b1, b2, b3] \<Rightarrow>
          let u = uint b0 + 2 ^ 8 * uint b1 + 2 ^ 16 * uint b2 + 2 ^ 24 * uint b3
          in Inr (if u < 2 ^ 31 then u else u - 2 ^ 32)
      | _ \<Rightarrow> Inl StructErr)"

lemma pack_i32_length: "pack_i32 n = Inr bs \<Longrightarrow> length bs = 4"
  by (auto simp: pack_i32_def split: if_splits)

lemma base256_digits:
  fixes n :: int
  shows "n mod 2 ^ 8 + 2 ^ 8 * (n div 2 ^ 8 mod 2 ^ 8) + 2 ^ 16 * (n div 2 ^ 16 mod 2 ^ 8) + 2 ^ 24 * (n div 2 ^ 24 mod 2 ^ 8)
    = n mod 2 ^ 32"
proof -
  have split: "n mod 2 ^ (a + 8) = n mod 2 ^ a + 2 ^ a * (n div 2 ^ a mod 2 ^ 8)" for a
    by (simp add: power_add zmod_zmult2_eq)
  have "n mod 2 ^ 32 = n mod 2 ^ 24 + 2 ^ 24 * (n div 2 ^ 24 mod 2 ^ 8)" using split [of 24] by simp
  moreover have "n mod 2 ^ 24 = n mod 2 ^ 16 + 2 ^ 16 * (n div 2 ^ 16 mod 2 ^ 8)" using split [of 16] by simp
  moreover have "n mod 2 ^ 16 = n mod 2 ^ 8 + 2 ^ 8 * (n div 2 ^ 8 mod 2 ^ 8)" using split [of 8] by simp
  ultimately show ?thesis by linarith
qed

lemma unpack_pack_i32: "pack_i32 n = Inr bs \<Longrightarrow> unpack_i32 bs = Inr n"
proof -
  assume p: "pack_i32 n = Inr bs"
  then have range: "- (2 ^ 31) \<le> n" "n < 2 ^ 31" by (auto simp: pack_i32_def split: if_splits)
  have bs: "bs = [word_of_int n, word_of_int (n div 2 ^ 8), word_of_int (n div 2 ^ 16), word_of_int (n div 2 ^ 24)]"
    using p range by (simp add: pack_i32_def)
  have "n mod 2 ^ 32 = (if n < 0 then n + 2 ^ 32 else n)"
  proof (cases "n < 0")
    case True
    have "n mod 2 ^ 32 = (n + 2 ^ 32) mod 2 ^ 32" by simp
    also have "\<dots> = n + 2 ^ 32" using True range by (intro mod_pos_pos_trivial) auto
    finally show ?thesis using True by simp
  next
    case False
    then show ?thesis using range by (simp add: mod_pos_pos_trivial)
  qed
  moreover have "uint (word_of_int k :: byte) = k mod 2 ^ 8" for k by (simp add: uint_word_of_int)
  ultimately have "uint (word_of_int n :: byte) + 2 ^ 8 * uint (word_of_int (n div 2 ^ 8) :: byte)
      + 2 ^ 16 * uint (word_of_int (n div 2 ^ 16) :: byte) + 2 ^ 24 * uint (word_of_int (n div 2 ^ 24) :: byte)
      = (if n < 0 then n + 2 ^ 32 else n)"
    using base256_digits [of n] by (simp only:)
  then show ?thesis unfolding bs unpack_i32_def Let_def list.case sum.inject using range by (simp only:) auto
qed

section \<open>Receiving\<close>

text \<open>\<open>sock.recv(k)\<close>: at most \<open>k\<close> bytes of the next piece; nothing once the peer has closed.\<close>

fun sock_recv :: "nat \<Rightarrow> bytes list \<Rightarrow> bytes \<times> bytes list" where
  "sock_recv k [] = ([], [])"
| "sock_recv k (p # ps) =
     (if p = [] then sock_recv k ps
      else if length p \<le> k then (p, ps) else (take k p, drop k p # ps))"

lemma sock_recv_props:
  assumes "sock_recv k ps = (chunk, ps')"
  shows "length chunk \<le> k \<and> concat ps = chunk @ concat ps' \<and> (chunk = [] \<longrightarrow> k = 0 \<or> concat ps = [])"
  using assms by (induction k ps rule: sock_recv.induct) (auto split: if_splits)

text \<open>\<open>recvall\<close>; the first argument of the loop is \<open>nbytes - nread\<close>.\<close>

function recv_loop :: "nat \<Rightarrow> bytes list \<Rightarrow> (bytes \<times> bytes list) res" where
  "recv_loop n ps =
     (if n = 0 then Inr ([], ps)
      else let (chunk, ps') = sock_recv (min n 1024) ps
        in if chunk = [] then Inl IOErr
           else res_bind (recv_loop (n - length chunk) ps') (\<lambda>(rest, ps''). Inr (chunk @ rest, ps'')))"
  by pat_completeness auto
termination
  by (relation "measure fst") (auto simp: Let_def)

declare recv_loop.simps [simp del]

definition recvall :: "bytes list \<Rightarrow> int \<Rightarrow> (bytes \<times> bytes list) res" where
  "recvall ps nbytes = recv_loop (nat nbytes) ps"

lemma recv_loop_spec:
  "(n \<le> length (concat ps) \<longrightarrow>
      (\<exists>ps'. recv_loop n ps = Inr (take n (concat ps), ps') \<and> concat ps' = drop n (concat ps)))
   \<and> (length (concat ps) < n \<longrightarrow> recv_loop n ps = Inl IOErr)"
proof (induction n ps rule: recv_loop.induct)
  case (1 n ps)
  show ?case
  proof (cases "n = 0")
    case True
    then show ?thesis by (simp add: recv_loop.simps [of 0])
  next
    case False
    obtain chunk ps' where r: "sock_recv (min n 1024) ps = (chunk, ps')" by force
    note props = sock_recv_props [OF r]
    show ?thesis
    proof (cases "chunk = []")
      case True
      have "min n 1024 \<noteq> 0" using False by simp
      then have "concat ps = []" using props True by metis
      then have "length (concat ps) = 0" by (metis list.size(3))
      then show ?thesis using False r True by (simp add: recv_loop.simps [of n] del: length_concat concat_eq_Nil_conv length_0_conv)
    next
      case ne: False
      have len: "length (concat ps) = length chunk + length (concat ps')" "length chunk \<le> n" using props by auto
      note IH = "1.IH" [OF False r [symmetric] refl ne]
      have eq: "recv_loop n ps = res_bind (recv_loop (n - length chunk) ps') (\<lambda>(rest, ps''). Inr (chunk @ rest, ps''))"
        using False r ne by (subst recv_loop.simps) (simp add: Let_def)
      show ?thesis using IH len props unfolding eq by (auto simp: take_append drop_append)
    qed
  qed
qed

section \<open>JSON messages\<close>

definition sendjson :: "(pyobj \<Rightarrow> bytes res) \<Rightarrow> pyobj \<Rightarrow> bytes res" where
  "sendjson dumps x =
     res_bind (dumps x) (\<lambda>data.
     res_bind (pack_i32 (int (length data))) (\<lambda>size. Inr (size @ data)))"

definition recvjson :: "(bytes \<Rightarrow> pyobj res) \<Rightarrow> bytes list \<Rightarrow> (pyobj \<times> bytes list) res" where
  "recvjson loads ps =
     res_bind (recvall ps 4) (\<lambda>(head, ps1).
     res_bind (unpack_i32 head) (\<lambda>size.
     res_bind (recvall ps1 size) (\<lambda>(body, ps2).
     res_bind (loads body) (\<lambda>x. Inr (x, ps2)))))"

section \<open>Keys and connections\<close>

text \<open>
  \<open>random_key\<close>: the text of a random number is a function of the draw. The loop over an occupied
  key map draws until the key is free.
\<close>

fun random_key :: "(int \<Rightarrow> string) \<Rightarrow> string \<Rightarrow> string list \<Rightarrow> draws \<Rightarrow> (string \<times> draws) res" where
  "random_key text_of prefix cmap [] = Inl NoDraws"
| "random_key text_of prefix cmap (d # ds) =
     (let key = prefix @ text_of d
      in if cmap \<noteq> [] \<and> key \<in> set cmap then random_key text_of prefix cmap ds else Inr (key, ds))"

datatype connect_outcome = Connected | Refused | OtherError

text \<open>
  \<open>connect_with_retry\<close>: each attempt has an outcome and the time since the start at which it ended.
  The number of attempts that were refused before the call ended is returned with its result.
\<close>

fun connect_with_retry :: "rat \<Rightarrow> (connect_outcome \<times> rat) list \<Rightarrow> nat \<Rightarrow> nat res" where
  "connect_with_retry timeout [] n = Inl NoDraws"
| "connect_with_retry timeout ((r, period) # rest) n =
     (case r of
        Connected \<Rightarrow> Inr n
      | OtherError \<Rightarrow> Inl IOErr
      | Refused \<Rightarrow> if timeout < period then Inl RuntimeError else connect_with_retry timeout rest (Suc n))"

text \<open>
  C15. A JSON message that is sent is received unchanged, however the bytes arrive in pieces and
  whatever follows it, and what follows it is left for the next message; a message that is cut off raises
  \<open>IOError\<close>.
\<close>

theorem recvjson_sendjson:
  assumes "sendjson dumps x = Inr msg" and "\<And>data. dumps x = Inr data \<Longrightarrow> loads data = Inr y"
  shows "(\<forall>rest. concat ps = msg @ rest \<longrightarrow> (\<exists>ps'. recvjson loads ps = Inr (y, ps') \<and> concat ps' = rest))
    \<and> (length (concat ps) < length msg \<and> concat ps = take (length (concat ps)) msg \<longrightarrow> recvjson loads ps = Inl IOErr)"
proof -
  obtain data size where d: "dumps x = Inr data" "pack_i32 (int (length data)) = Inr size" "msg = size @ data"
    using assms(1) by (auto simp: sendjson_def res_bind_eq_Inr)
  note len = pack_i32_length [OF d(2)] and size = unpack_pack_i32 [OF d(2)]
  have "\<exists>ps'. recvjson loads ps = Inr (y, ps') \<and> concat ps' = rest" if c: "concat ps = msg @ rest" for rest
  proof -
    obtain ps1 where 1: "recvall ps 4 = Inr (size, ps1)" "concat ps1 = data @ rest"
      using recv_loop_spec [of 4 ps] c d(3) len by (auto simp: recvall_def)
    obtain ps2 where 2: "recvall ps1 (int (length data)) = Inr (data, ps2)" "concat ps2 = rest"
      using recv_loop_spec [of "length data" ps1] 1(2) by (auto simp: recvall_def)
    show ?thesis using 1(1) 2 size assms(2) [OF d(1)] by (simp add: recvjson_def)
  qed
  moreover have "recvjson loads ps = Inl IOErr"
    if short: "length (concat ps) < length msg" "concat ps = take (length (concat ps)) msg"
  proof (cases "length (concat ps) < 4")
    case True
    then show ?thesis using recv_loop_spec [of 4 ps] by (simp add: recvjson_def recvall_def)
  next
    case False
    then have "take 4 (concat ps) = size"
      using short d(3) len by (metis append_eq_conv_conj le_eq_less_or_eq min.absorb1 not_le take_take)
    then obtain ps1 where 1: "recvall ps 4 = Inr (size, ps1)" "concat ps1 = drop 4 (concat ps)"
      using recv_loop_spec [of 4 ps] False by (auto simp: recvall_def)
    have "length (concat ps1) < length data" using 1(2) short(1) False d(3) len by simp
    then have "recvall ps1 (int (length data)) = Inl IOErr" using recv_loop_spec [of "length data" ps1] by (simp add: recvall_def)
    then show ?thesis using 1(1) size by (simp add: recvjson_def)
  qed
  ultimately show ?thesis by blast
qed

theorem recvjson_sendjson_witness:
  "\<exists>ps'. recvjson (\<lambda>bs. if bs = [48] then Inr (OInt 0) else Inl ValueError) [[1, 0], [0, 0, 48, 7]] = Inr (OInt 0, ps')
    \<and> concat ps' = [7]"
proof -
  have "sendjson (\<lambda>x. if x = OInt 0 then Inr [48] else Inl TypeErr) (OInt 0) = Inr [1, 0, 0, 0, 48]"
    by (simp add: sendjson_def pack_i32_def)
  from recvjson_sendjson [OF this, of "\<lambda>bs. if bs = [48] then Inr (OInt 0) else Inl ValueError" "OInt 0"
      "[[1, 0], [0, 0, 48, 7]]"]
  show ?thesis by simp
qed

end
