(* ===== verification/TcpHandler.thy ===== *)
theory TcpHandler
  imports RpcBase
begin

text \<open>
  The non-blocking socket handler of \<open>rpc/tornado_util.py\<close>. The socket is the environment: every
  \<open>send\<close> takes its outcome from a list, and \<open>tcp_sent\<close> records the bytes that the socket has
  accepted, which no program variable holds. The methods \<open>on_message\<close>, \<open>on_close\<close> and
  \<open>on_error\<close> belong to the subclass; \<open>on_close\<close> is counted, and \<open>on_error\<close> closes the connection, as
  \<open>TCPEventHandler.on_error\<close> does.
\<close>

datatype send_outcome = Accepted nat | WouldBlock | SendError

record tcp_handler =
  tcp_open :: bool
  pending_write :: "bytes list"
  signal_flag :: bool
  want_write :: bool
  tcp_sent :: bytes
  close_calls :: nat


definition tcp_close :: "tcp_handler \<Rightarrow> tcp_handler" where
  "tcp_close h = (if tcp_open h then h\<lparr>tcp_open := False, close_calls := Suc (close_calls h)\<rparr> else h)"


text \<open>What follows the loop of \<open>_update_write\<close>: the events to wait for, or the close that was signalled.\<close>

definition after_write :: "tcp_handler \<Rightarrow> tcp_handler res" where
  "after_write h =
     (if pending_write h \<noteq> [] then if tcp_open h then Inr (h\<lparr>want_write := True\<rparr>) else Inl AttributeError
      else if signal_flag h then Inr (tcp_close h)
      else if tcp_open h then Inr (h\<lparr>want_write := False\<rparr>) else Inl AttributeError)"

text \<open>
  The loop of \<open>_update_write\<close>. A closed socket returns from the method at once, without the code
  after the loop. The socket accepts at most the whole message. The outcomes not used are returned.
\<close>

fun update_write :: "send_outcome list \<Rightarrow> tcp_handler \<Rightarrow> (tcp_handler \<times> send_outcome list) res" where
  "update_write os h =
     (case pending_write h of
        [] \<Rightarrow> res_bind (after_write h) (\<lambda>h'. Inr (h', os))
      | msg # rest \<Rightarrow>
          if \<not> tcp_open h then Inr (h, os)
          else (case os of
                  [] \<Rightarrow> Inl NoDraws
                | Accepted n # os' \<Rightarrow>
                    let k = min n (length msg)
                    in update_write os' (h\<lparr>pending_write := (if k \<noteq> length msg then drop k msg # rest else rest),
                         tcp_sent := tcp_sent h @ take k msg\<rparr>)
                | WouldBlock # os' \<Rightarrow> res_bind (after_write h) (\<lambda>h'. Inr (h', os'))
                | SendError # os' \<Rightarrow> update_write os' (tcp_close h)))"

declare update_write.simps [simp del]


text \<open>
  \<open>_update_read\<close>: the outcome of \<open>recv\<close> and the subclass's handler of a message, which yields the handler it
  leaves behind also when it raises. \<open>IOError\<close> is \<open>socket.error\<close>: one that the handler of the message
  raises, because it writes to a closed socket, is caught here and reported to \<open>on_error\<close>.
\<close>

datatype recv_outcome = Received bytes | RecvWouldBlock | RecvError

definition update_read ::
  "(bytes \<Rightarrow> tcp_handler \<Rightarrow> unit res \<times> tcp_handler) \<Rightarrow> recv_outcome \<Rightarrow> tcp_handler \<Rightarrow> bool res \<times> tcp_handler" where
  "update_read on_message r h =
     (if \<not> tcp_open h then (Inl AttributeError, h)
      else case r of
             Received msg \<Rightarrow>
               if msg \<noteq> [] then
                 (case on_message msg h of
                    (Inr _, h') \<Rightarrow> (Inr True, h')
                  | (Inl err, h') \<Rightarrow> if err = IOErr then (Inr False, tcp_close h') else (Inl err, h'))
               else (Inr False, tcp_close h)
           | RecvWouldBlock \<Rightarrow> (Inr False, h)
           | RecvError \<Rightarrow> (Inr False, tcp_close h))"

definition event_handler ::
  "(bytes \<Rightarrow> tcp_handler \<Rightarrow> unit res \<times> tcp_handler) \<Rightarrow> bool \<Rightarrow> bool \<Rightarrow> bool \<Rightarrow> recv_outcome \<Rightarrow> send_outcome list \<Rightarrow>
   tcp_handler \<Rightarrow> (tcp_handler \<times> send_outcome list) res" where
  "event_handler on_message is_err is_read is_write r os h =
     (if is_err \<or> is_read then
        (case update_read on_message r h of
           (Inl err, h') \<Rightarrow> Inl err
         | (Inr ok, h') \<Rightarrow> if ok \<and> is_write then update_write os h' else Inr (h', os))
      else if is_write then update_write os h
      else Inr (h, os))"

section \<open>The byte stream\<close>





lemma update_write_eqs:
  "pending_write h = [] \<Longrightarrow> update_write os h = res_bind (after_write h) (\<lambda>h'. Inr (h', os))"
  "pending_write h \<noteq> [] \<Longrightarrow> \<not> tcp_open h \<Longrightarrow> update_write os h = Inr (h, os)"
  "pending_write h \<noteq> [] \<Longrightarrow> tcp_open h \<Longrightarrow> update_write [] h = Inl NoDraws"
  "pending_write h = msg # rest \<Longrightarrow> tcp_open h \<Longrightarrow> update_write (Accepted n # os) h =
     update_write os (h\<lparr>pending_write := (if min n (length msg) \<noteq> length msg then drop (min n (length msg)) msg # rest else rest),
       tcp_sent := tcp_sent h @ take (min n (length msg)) msg\<rparr>)"
  "pending_write h \<noteq> [] \<Longrightarrow> tcp_open h \<Longrightarrow> update_write (WouldBlock # os) h = res_bind (after_write h) (\<lambda>h'. Inr (h', os))"
  "pending_write h \<noteq> [] \<Longrightarrow> tcp_open h \<Longrightarrow> update_write (SendError # os) h = update_write os (tcp_close h)"
  by (subst update_write.simps, simp add: Let_def split: list.split)+


section \<open>Reachable handlers\<close>



text \<open>Work left for the write loop: a byte or a message is done with every step that makes progress.\<close>

definition write_work :: "tcp_handler \<Rightarrow> nat" where
  "write_work h = length (concat (pending_write h)) + length (pending_write h)"

definition progressing :: "send_outcome list \<Rightarrow> bool" where
  "progressing os \<longleftrightarrow> list_all (\<lambda>x. x \<noteq> Accepted 0) os"

lemma update_write_returns:
  assumes "tcp_open h" and "progressing os" and "write_work h \<le> length os"
  shows "\<exists>r. update_write os h = Inr r"
  using assms
proof (induction os h rule: update_write.induct)
  case (1 os h)
  show ?case
  proof (cases "pending_write h")
    case Nil
    then show ?thesis using "1.prems"(1) by (auto simp: update_write_eqs(1) after_write_def)
  next
    case (Cons msg rest)
    then have ne: "pending_write h \<noteq> []" by simp
    then obtain x os1 where os: "os = x # os1" using "1.prems"(3) by (cases os) (auto simp: write_work_def)
    show ?thesis
    proof (cases x)
      case (Accepted n)
      let ?k = "min n (length msg)"
      let ?h = "h\<lparr>pending_write := (if ?k \<noteq> length msg then drop ?k msg # rest else rest), tcp_sent := tcp_sent h @ take ?k msg\<rparr>"
      have "0 < n" using "1.prems"(2) os Accepted by (simp add: progressing_def)
      then have "write_work ?h < write_work h" using Cons by (auto simp: write_work_def min_def)
      then have "write_work ?h \<le> length os1" using "1.prems"(3) os by simp
      moreover have "progressing os1" using "1.prems"(2) os by (simp add: progressing_def)
      moreover have "tcp_open ?h" using "1.prems"(1) by simp
      ultimately have "\<exists>r. update_write os1 ?h = Inr r" using "1.IH"(1) [OF Cons _ os Accepted refl] "1.prems"(1) by blast
      then show ?thesis by (simp only: os Accepted update_write_eqs(4) [OF Cons "1.prems"(1)])
    next
      case WouldBlock
      then show ?thesis using ne "1.prems"(1) by (auto simp: os update_write_eqs(5) after_write_def)
    next
      case SendError
      have "update_write os1 (tcp_close h) = Inr (tcp_close h, os1)"
        using ne by (intro update_write_eqs(2)) (simp_all add: tcp_close_def)
      then show ?thesis using ne "1.prems"(1) by (simp add: os SendError update_write_eqs(6))
    qed
  qed
qed


definition half_sent :: tcp_handler where
  "half_sent = \<lparr>tcp_open = True, pending_write = [[3]], signal_flag = True, want_write = True, tcp_sent = [1, 2], close_calls = 0\<rparr>"


text \<open>
  C17. The write loop ends: if every \<open>send\<close> that accepts bytes accepts at least one, it returns after at
  most one step per queued byte and queued message.
\<close>

theorem update_write_terminates:
  assumes "tcp_open h" and "progressing os" and "length (concat (pending_write h)) + length (pending_write h) \<le> length os"
  shows "\<exists>h' os'. update_write os h = Inr (h', os')"
  using update_write_returns [OF assms(1,2)] assms(3) by (fastforce simp: write_work_def)

theorem update_write_terminates_witness:
  "\<exists>h' os'. update_write [Accepted 1, Accepted 5, WouldBlock] half_sent = Inr (h', os')"
  using update_write_terminates [of half_sent "[Accepted 1, Accepted 5, WouldBlock]"]
  by (simp add: half_sent_def progressing_def)

end
