(* ===== verification/Tracker.thy ===== *)
theory Tracker
  imports Heapq RpcBase "HOL-Library.Product_Lexorder"
begin

text \<open>
  The RPC tracker of \<open>rpc/tracker.py\<close>: priority schedulers, one per device key, that match resources
  put by servers with requests of clients; connections with their framed JSON protocol; and the
  tracker that owns both. An exception does not undo what was done before it: the event
  loop logs it and goes on, so an operation yields its result and the state it leaves behind.

  A connection is a number. The replies a connection accepts are recorded in \<open>cn_out\<close>; how its
  bytes reach the peer is the subject of \<open>TcpHandler\<close>, and a socket that fails does so
  between two operations. A request keeps the number of the connection its callback replies to.
\<close>

section \<open>State\<close>

type_synonym resource = "nat \<times> pyobj \<times> pyobj \<times> pyobj"
type_synonym sched_request = "(rat \<times> nat) \<times> nat"

record scheduler =
  request_cnt :: nat
  sched_values :: "resource list"
  sched_requests :: "sched_request list"

record conn =
  cn_open :: bool
  cn_greeted :: bool
  cn_data :: bytes
  cn_msg_size :: int
  cn_addr :: string
  cn_info :: "(string \<times> pyobj) list"
  pending_matchkeys :: "pyobj list"
  put_values :: "resource list"
  cn_out :: "pyobj list"

record tracker =
  conns :: "conn list"
  connections :: "nat list"
  scheduler_map :: "(pyobj \<times> scheduler) list"
  stop_key :: pyobj
  tracker_running :: bool

text \<open>
  What the operations take from outside: the order in which the two kinds of sets are iterated, the
  form of a dictionary key in JSON, and the decoder of a message.
\<close>

record tracker_env =
  iter_conns :: "nat list \<Rightarrow> nat list"
  iter_keys :: "pyobj list \<Rightarrow> pyobj list"
  json_key :: "pyobj \<Rightarrow> string"
  json_loads :: "bytes \<Rightarrow> pyobj res"

section \<open>Operations with an exception and a state\<close>

type_synonym 'a tr = "tracker \<Rightarrow> 'a res \<times> tracker"

definition tr_ret :: "'a res \<Rightarrow> 'a tr" where
  "tr_ret r st = (r, st)"

definition tr_bind :: "'a tr \<Rightarrow> ('a \<Rightarrow> 'b tr) \<Rightarrow> 'b tr" where
  "tr_bind m f st = (case m st of (Inl e, st') \<Rightarrow> (Inl e, st') | (Inr x, st') \<Rightarrow> f x st')"

definition tr_mod :: "(tracker \<Rightarrow> tracker) \<Rightarrow> unit tr" where
  "tr_mod f st = (Inr (), f st)"

definition conn_mod :: "nat \<Rightarrow> (conn \<Rightarrow> conn) \<Rightarrow> tracker \<Rightarrow> tracker" where
  "conn_mod c f st = st\<lparr>conns := (conns st)[c := f (conns st ! c)]\<rparr>"

text \<open>Values that can be members of a set or keys of a dictionary.\<close>

fun hashable :: "pyobj \<Rightarrow> bool" where
  "hashable (OList xs) = False"
| "hashable (ODict kvs) = False"
| "hashable (OTuple xs) = list_all hashable xs"
| "hashable x = True"

section \<open>Schedulers\<close>

definition new_scheduler :: scheduler where
  "new_scheduler = \<lparr>request_cnt = 0, sched_values = [], sched_requests = []\<rparr>"

text \<open>\<open>value[1:]\<close>, as the callback replies with it.\<close>

definition resource_reply :: "resource \<Rightarrow> pyobj" where
  "resource_reply v = (case v of (owner, addr, port, mkey) \<Rightarrow> OTuple [addr, port, mkey])"

definition resource_key :: "resource \<Rightarrow> nat \<times> pyobj" where
  "resource_key v = (case v of (owner, addr, port, mkey) \<Rightarrow> (owner, mkey))"

definition reply :: "pyobj \<Rightarrow> conn \<Rightarrow> conn" where
  "reply x c = c\<lparr>cn_out := cn_out c @ [x]\<rparr>"

text \<open>
  \<open>_schedule\<close>: while there are both, the first value is offered to the most urgent request. A
  request whose connection is closed is dropped and the value goes to the end of the queue.
\<close>

function schedule :: "scheduler \<Rightarrow> conn list \<Rightarrow> unit res \<times> scheduler \<times> conn list" where
  "schedule s cs =
     (if sched_requests s \<noteq> [] \<and> sched_values s \<noteq> [] then
        (case heappop fst (sched_requests s) of
           Inl err \<Rightarrow> (Inl err, s, cs)
         | Inr (item, reqs) \<Rightarrow>
             let v = hd (sched_values s); c = snd item; (owner, mkey) = resource_key v
             in if cn_open (cs ! c) then
                  let cs1 = cs[c := reply (OList [OInt (code_value SUCCESS), resource_reply v]) (cs ! c)]
                  in if mkey \<in> set (pending_matchkeys (cs1 ! owner))
                     then schedule (s\<lparr>sched_values := tl (sched_values s), sched_requests := reqs\<rparr>)
                            (cs1[owner := (cs1 ! owner)\<lparr>pending_matchkeys := remove1 mkey (pending_matchkeys (cs1 ! owner))\<rparr>])
                     else (Inl KeyError, s\<lparr>sched_values := tl (sched_values s), sched_requests := reqs\<rparr>, cs1)
                else schedule (s\<lparr>sched_values := tl (sched_values s) @ [v], sched_requests := reqs\<rparr>) cs)
      else (Inr (), s, cs))"
  by pat_completeness auto

termination
  by (relation "measure (\<lambda>(s, cs). length (sched_requests s))") (auto dest: heappop_length)

declare schedule.simps [simp del]

definition sched_run :: "(scheduler \<Rightarrow> scheduler) \<Rightarrow> pyobj \<Rightarrow> unit tr" where
  "sched_run f key st =
     (case map_of (scheduler_map st) key of
        None \<Rightarrow> (Inl KeyError, st)
      | Some s \<Rightarrow>
          (case schedule (f s) (conns st) of
             (r, s', cs) \<Rightarrow> (r, st\<lparr>conns := cs, scheduler_map := AList.update key s' (scheduler_map st)\<rparr>)))"

definition sched_put :: "resource \<Rightarrow> pyobj \<Rightarrow> unit tr" where
  "sched_put v = sched_run (\<lambda>s. s\<lparr>sched_values := sched_values s @ [v]\<rparr>)"

definition sched_request :: "rat \<Rightarrow> nat \<Rightarrow> pyobj \<Rightarrow> unit tr" where
  "sched_request priority c = sched_run (\<lambda>s.
     s\<lparr>sched_requests := heappush fst (sched_requests s) ((- priority, request_cnt s), c), request_cnt := Suc (request_cnt s)\<rparr>)"

definition sched_remove :: "resource \<Rightarrow> pyobj \<Rightarrow> unit tr" where
  "sched_remove v key st =
     (case map_of (scheduler_map st) key of
        None \<Rightarrow> (Inl KeyError, st)
      | Some s \<Rightarrow>
          if v \<in> set (sched_values s) then sched_run (\<lambda>s. s\<lparr>sched_values := remove1 v (sched_values s)\<rparr>) key st
          else (Inr (), st))"

definition sched_summary :: "scheduler \<Rightarrow> pyobj" where
  "sched_summary s = ODict [(''free'', OInt (int (length (sched_values s)))), (''pending'', OInt (int (length (sched_requests s))))]"

section \<open>The tracker\<close>

definition create_scheduler :: "pyobj \<Rightarrow> unit tr" where
  "create_scheduler key st =
     (if \<not> hashable key then (Inl TypeErr, st)
      else case map_of (scheduler_map st) key of
             None \<Rightarrow> (Inr (), st\<lparr>scheduler_map := scheduler_map st @ [(key, new_scheduler)]\<rparr>)
           | Some s \<Rightarrow> (Inr (), st))"

definition tracker_put :: "pyobj \<Rightarrow> resource \<Rightarrow> unit tr" where
  "tracker_put key v = tr_bind (create_scheduler key) (\<lambda>_. sched_put v key)"

definition obj_num :: "pyobj \<Rightarrow> rat res" where
  "obj_num x = (case x of OFloat r \<Rightarrow> Inr r | OInt i \<Rightarrow> Inr (of_int i) | OBool b \<Rightarrow> Inr (if b then 1 else 0) | _ \<Rightarrow> Inl TypeErr)"

text \<open>A priority that is not a number fails in \<open>-priority\<close>, after the scheduler was created.\<close>

definition tracker_request :: "pyobj \<Rightarrow> pyobj \<Rightarrow> nat \<Rightarrow> unit tr" where
  "tracker_request key priority c =
     tr_bind (create_scheduler key) (\<lambda>_.
     tr_bind (tr_ret (obj_num priority)) (\<lambda>p. sched_request p c key))"

fun remove_values :: "resource list \<Rightarrow> unit tr" where
  "remove_values [] = tr_ret (Inr ())"
| "remove_values (v # vs) =
     tr_bind (tr_ret (case snd (resource_key v) of OStr k \<Rightarrow> Inr (OStr (hd (str_split CHR 0x3A k))) | _ \<Rightarrow> Inl AttributeError))
       (\<lambda>rpc_key. tr_bind (sched_remove v rpc_key) (\<lambda>_. remove_values vs))"

text \<open>\<open>TrackerServerHandler.close\<close>.\<close>

definition tracker_close :: "nat \<Rightarrow> unit tr" where
  "tracker_close c =
     tr_bind (\<lambda>st. if c \<in> set (connections st) then (Inr (), st\<lparr>connections := remove1 c (connections st)\<rparr>) else (Inl KeyError, st))
       (\<lambda>_ st. if map_of (cn_info (conns st ! c)) ''key'' \<noteq> None then remove_values (put_values (conns st ! c)) st
                else (Inr (), st))"

text \<open>\<open>TCPHandler.close\<close> on a tracker connection: it does nothing the second time.\<close>

definition conn_close :: "nat \<Rightarrow> unit tr" where
  "conn_close c st =
     (if cn_open (conns st ! c) then tracker_close c (conn_mod c (\<lambda>cn. cn\<lparr>cn_open := False\<rparr>) st)
      else (Inr (), st))"

fun close_all :: "nat list \<Rightarrow> unit tr" where
  "close_all [] = tr_ret (Inr ())"
| "close_all (c # cs) = tr_bind (conn_close c) (\<lambda>_. close_all cs)"

definition tracker_stop :: "tracker_env \<Rightarrow> unit tr" where
  "tracker_stop env st =
     tr_bind (close_all (iter_conns env (connections st))) (\<lambda>_. tr_mod (\<lambda>st. st\<lparr>tracker_running := False\<rparr>)) st"

fun server_infos :: "conn list \<Rightarrow> pyobj list res" where
  "server_infos [] = Inr []"
| "server_infos (c # cs) =
     res_bind (case map_of (cn_info c) ''key'' of
                 None \<Rightarrow> Inr False
               | Some (OStr k) \<Rightarrow> Inr (str_startswith k ''server'')
               | Some _ \<Rightarrow> Inl AttributeError) (\<lambda>is_server.
     res_bind (server_infos cs) (\<lambda>rest. Inr (if is_server then ODict (cn_info c) # rest else rest)))"

definition tracker_summary :: "tracker_env \<Rightarrow> tracker \<Rightarrow> pyobj res" where
  "tracker_summary env st =
     res_bind (server_infos (map (\<lambda>c. conns st ! c) (iter_conns env (connections st)))) (\<lambda>cinfo.
       Inr (ODict [(''queue_info'', ODict (map (\<lambda>(k, s). (json_key env k, sched_summary s)) (scheduler_map st))),
                   (''server_info'', OList cinfo)]))"

section \<open>Connections\<close>

text \<open>Accepting a connection: \<open>_on_event\<close> and \<open>TCPEventHandler.__init__\<close>.\<close>

definition new_conn :: "string \<Rightarrow> conn" where
  "new_conn addr = \<lparr>cn_open = True, cn_greeted = False, cn_data = [], cn_msg_size = 0, cn_addr = addr, cn_info = [],
     pending_matchkeys = [], put_values = [], cn_out = []\<rparr>"

definition accept_conn :: "string \<Rightarrow> tracker \<Rightarrow> tracker" where
  "accept_conn addr st = st\<lparr>conns := conns st @ [new_conn addr], connections := connections st @ [length (conns st)]\<rparr>"

definition ret_value :: "nat \<Rightarrow> pyobj \<Rightarrow> unit tr" where
  "ret_value c x =
     tr_bind (tr_ret (json_trip x)) (\<lambda>_ st.
       if cn_open (conns st ! c) then (Inr (), conn_mod c (reply x) st) else (Inl IOErr, st))"

definition ret_code :: "nat \<Rightarrow> tracker_code \<Rightarrow> unit tr" where
  "ret_code c code = ret_value c (OInt (code_value code))"

text \<open>\<open>x[i]\<close> on a decoded JSON value, and \<open>x == n\<close> for a number.\<close>

fun json_get :: "pyobj \<Rightarrow> int \<Rightarrow> pyobj res" where
  "json_get (OList xs) i = py_get xs i"
| "json_get (OStr s) i = res_bind (py_get s i) (\<lambda>c. Inr (OStr [c]))"
| "json_get (ODict kvs) i = Inl KeyError"
| "json_get _ i = Inl TypeErr"

fun equals_int :: "pyobj \<Rightarrow> int \<Rightarrow> bool" where
  "equals_int (OInt i) n = (i = n)"
| "equals_int (OFloat r) n = (r = of_int n)"
| "equals_int (OBool b) n = ((if b then 1 else 0) = n)"
| "equals_int _ n = False"

definition handle_put :: "nat \<Rightarrow> pyobj \<Rightarrow> unit tr" where
  "handle_put c args =
     tr_bind (tr_ret (json_get args 1)) (\<lambda>key.
     tr_bind (tr_ret (res_bind (json_get args 2) obj_iter)) (\<lambda>pm.
     tr_bind (tr_ret (case pm of [port, mkey] \<Rightarrow> Inr (port, mkey) | _ \<Rightarrow> Inl ValueError)) (\<lambda>(port, mkey).
     tr_bind (\<lambda>st. if hashable mkey then (Inr (), conn_mod c (\<lambda>cn. cn\<lparr>pending_matchkeys := List.insert mkey (pending_matchkeys cn)\<rparr>) st)
                   else (Inl TypeErr, st)) (\<lambda>_.
     tr_bind (\<lambda>st. (res_bind (obj_len args) (\<lambda>n. if n \<ge> 4 then json_get args 3 else Inr ONone), st)) (\<lambda>custom st.
       let v = (c, if custom = ONone then OStr (cn_addr (conns st ! c)) else custom, port, mkey)
       in tr_bind (tracker_put key v) (\<lambda>_.
          tr_bind (tr_mod (conn_mod c (\<lambda>cn. cn\<lparr>put_values := put_values cn @ [v]\<rparr>))) (\<lambda>_.
          ret_code c SUCCESS)) st)))))"

definition handle_request :: "nat \<Rightarrow> pyobj \<Rightarrow> unit tr" where
  "handle_request c args =
     tr_bind (tr_ret (json_get args 1)) (\<lambda>key.
     tr_bind (tr_ret (json_get args 2)) (\<lambda>user.
     tr_bind (tr_ret (json_get args 3)) (\<lambda>priority.
     tracker_request key priority c)))"

definition handle_stop :: "tracker_env \<Rightarrow> nat \<Rightarrow> pyobj \<Rightarrow> unit tr" where
  "handle_stop env c args =
     tr_bind (tr_ret (json_get args 1)) (\<lambda>key st.
       if stop_key st = key then tr_bind (ret_code c SUCCESS) (\<lambda>_. tracker_stop env) st
       else ret_code c FAIL st)"

text \<open>\<open>UPDATE_INFO\<close>: an unknown address, the first entry of \<open>"addr"\<close>, is filled in from the socket.\<close>

definition fill_addr :: "string \<Rightarrow> pyobj \<Rightarrow> pyobj res" where
  "fill_addr addr info =
     res_bind (dict_get info ''addr'') (\<lambda>a.
     res_bind (json_get a 0) (\<lambda>a0.
       case (info, a) of
         (ODict kvs, OList xs) \<Rightarrow>
           Inr (ODict (if a0 = ONone then AList.update ''addr'' (OList (xs[0 := OStr addr])) kvs else kvs))
       | _ \<Rightarrow> Inr info))"

definition handle_update_info :: "nat \<Rightarrow> pyobj \<Rightarrow> unit tr" where
  "handle_update_info c args =
     tr_bind (tr_ret (json_get args 1)) (\<lambda>info.
     tr_bind (tr_ret (case info of ODict kvs \<Rightarrow> Inr () | _ \<Rightarrow> Inl AssertionError)) (\<lambda>_.
     tr_bind (\<lambda>st. (fill_addr (cn_addr (conns st ! c)) info, st)) (\<lambda>info'.
     tr_bind (tr_mod (conn_mod c (\<lambda>cn.
       cn\<lparr>cn_info := (case info' of ODict kvs \<Rightarrow> foldl (\<lambda>d (k, v). AList.update k v d) (cn_info cn) kvs | _ \<Rightarrow> cn_info cn)\<rparr>))) (\<lambda>_.
     ret_code c SUCCESS))))"

definition call_handler :: "tracker_env \<Rightarrow> nat \<Rightarrow> pyobj \<Rightarrow> unit tr" where
  "call_handler env c args =
     tr_bind (tr_ret (json_get args 0)) (\<lambda>code.
       if equals_int code (code_value PUT) then handle_put c args
       else if equals_int code (code_value REQUEST) then handle_request c args
       else if equals_int code (code_value PING) then ret_code c SUCCESS
       else if equals_int code (code_value GET_PENDING_MATCHKEYS)
         then (\<lambda>st. ret_value c (OList (iter_keys env (pending_matchkeys (conns st ! c)))) st)
       else if equals_int code (code_value STOP) then handle_stop env c args
       else if equals_int code (code_value UPDATE_INFO) then handle_update_info c args
       else if equals_int code (code_value SUMMARY)
         then tr_bind (\<lambda>st. (tracker_summary env st, st))
                (\<lambda>status. ret_value c (OList [OInt (code_value SUCCESS), status]))
       else conn_close c)"

section \<open>Framing\<close>

text \<open>\<open>data[:k]\<close> cuts at \<open>k\<close>, counted from the end when it is negative.\<close>

definition cut_at :: "bytes \<Rightarrow> int \<Rightarrow> nat" where
  "cut_at data k = (if k < 0 then nat (int (length data) + k) else nat k)"

text \<open>
  The loop of \<open>on_message\<close>; the buffer and the size are passed along and stored whenever the loop
  leaves or hands over to \<open>call_handler\<close>. No text is empty JSON.
\<close>

function message_loop :: "tracker_env \<Rightarrow> nat \<Rightarrow> bytes \<Rightarrow> int \<Rightarrow> unit tr" where
  "message_loop env c data size0 st =
     (if size0 = 0 \<and> length data < 4 then (Inr (), conn_mod c (\<lambda>cn. cn\<lparr>cn_data := data, cn_msg_size := size0\<rparr>) st)
      else let msize = (if size0 = 0 then projr (unpack_i32 (take 4 data)) else size0)
        in if msize \<noteq> 0 \<and> msize + 4 \<le> int (length data) then
             let cut = cut_at data (4 + msize); msg = drop 4 (take cut data); data' = drop cut data;
                 st1 = conn_mod c (\<lambda>cn. cn\<lparr>cn_data := data', cn_msg_size := 0\<rparr>) st
             in if msg = [] then (Inl ValueError, st1)
                else (case json_loads env msg of
                        Inl err \<Rightarrow> (Inl err, st1)
                      | Inr args \<Rightarrow>
                          (case call_handler env c args st1 of
                             (Inl err, st2) \<Rightarrow> (Inl err, st2)
                           | (Inr u, st2) \<Rightarrow> message_loop env c data' 0 st2))
           else (Inr (), conn_mod c (\<lambda>cn. cn\<lparr>cn_data := data, cn_msg_size := msize\<rparr>) st))"
  by pat_completeness auto
termination
  by (relation "measure (\<lambda>(env, c, data, size0, st). length data)") (auto simp: Let_def)

declare message_loop.simps [simp del]

text \<open>
  The handshake. Both checks close the connection and go on: a message of another length then fails in
  \<open>struct.unpack\<close>, a wrong magic number in \<open>write_message\<close>.
\<close>

definition init_conn :: "nat \<Rightarrow> bytes \<Rightarrow> unit tr" where
  "init_conn c msg =
     tr_bind (if length msg \<noteq> 4 then conn_close c else tr_ret (Inr ())) (\<lambda>_.
     tr_bind (tr_ret (unpack_i32 msg)) (\<lambda>magic.
     tr_bind (if magic \<noteq> RPC_TRACKER_MAGIC then conn_close c else tr_ret (Inr ())) (\<lambda>_.
     tr_bind (ret_value c (OInt RPC_TRACKER_MAGIC)) (\<lambda>_.
     tr_mod (conn_mod c (\<lambda>cn. cn\<lparr>cn_greeted := True\<rparr>))))))"

definition on_message :: "tracker_env \<Rightarrow> nat \<Rightarrow> bytes \<Rightarrow> unit tr" where
  "on_message env c msg st =
     (if \<not> cn_greeted (conns st ! c) then init_conn c msg st
      else message_loop env c (cn_data (conns st ! c) @ msg) (cn_msg_size (conns st ! c)) st)"

end
