(* ===== verification/TrackerCorrect.thy ===== *)
theory TrackerCorrect
  imports Tracker
begin

text \<open>
  Correctness of the tracker: what one scheduling round does, the invariant of all reachable states,
  the fate of the resources of a closed connection, and the framing of messages.
\<close>

section \<open>One scheduling round\<close>

definition same_but_mail :: "conn \<Rightarrow> conn \<Rightarrow> bool" where
  "same_but_mail cn cn' \<longleftrightarrow> cn'\<lparr>pending_matchkeys := pending_matchkeys cn, cn_out := cn_out cn\<rparr> = cn"

lemma same_but_mail_refl [simp]: "same_but_mail cn cn"
  by (simp add: same_but_mail_def)

lemma same_but_mail_trans: "same_but_mail a b \<Longrightarrow> same_but_mail b c \<Longrightarrow> same_but_mail a c"
  by (cases a, cases b, cases c) (simp add: same_but_mail_def)

lemma same_but_mailD: "same_but_mail cn cn' \<Longrightarrow> cn_open cn' = cn_open cn \<and> cn_info cn' = cn_info cn
    \<and> put_values cn' = put_values cn \<and> cn_data cn' = cn_data cn \<and> cn_msg_size cn' = cn_msg_size cn \<and> cn_greeted cn' = cn_greeted cn"
  by (cases cn, cases cn') (simp add: same_but_mail_def)

text \<open>What a scheduler needs of its queues and of the connections, and what it changes of the latter.\<close>

definition free_pending :: "resource list \<Rightarrow> conn list \<Rightarrow> bool" where
  "free_pending vs cs \<longleftrightarrow> (\<forall>v \<in> set vs. fst v < length cs \<and> snd (resource_key v) \<in> set (pending_matchkeys (cs ! fst v)))"

definition queues_ok :: "scheduler \<Rightarrow> conn list \<Rightarrow> bool" where
  "queues_ok s cs \<longleftrightarrow> is_heap fst (sched_requests s) \<and> distinct (map (\<lambda>r. snd (fst r)) (sched_requests s))
     \<and> (\<forall>r \<in> set (sched_requests s). snd (fst r) < request_cnt s \<and> snd r < length cs)
     \<and> distinct (map resource_key (sched_values s)) \<and> free_pending (sched_values s) cs"

definition granted :: "scheduler \<Rightarrow> scheduler \<Rightarrow> (nat \<times> pyobj) set" where
  "granted s s' = resource_key ` set (sched_values s) - resource_key ` set (sched_values s')"

definition conns_after :: "(nat \<times> pyobj) set \<Rightarrow> conn list \<Rightarrow> conn list \<Rightarrow> bool" where
  "conns_after gone cs cs' \<longleftrightarrow> length cs' = length cs \<and> (\<forall>c < length cs. same_but_mail (cs ! c) (cs' ! c)
     \<and> distinct (pending_matchkeys (cs' ! c)) \<and> set (pending_matchkeys (cs' ! c)) = set (pending_matchkeys (cs ! c)) - {k. (c, k) \<in> gone})"

lemma resource_key_fst [simp]: "fst (resource_key v) = fst v"
  by (cases v) (simp add: resource_key_def)

lemma conns_after_trans:
  assumes "conns_after g cs cs1" and "conns_after g1 cs1 cs2"
  shows "conns_after (g \<union> g1) cs cs2"
  using assms unfolding conns_after_def by (auto intro: same_but_mail_trans)

text \<open>Granting one resource: the reply to the requester and the removal of the match key from the owner.\<close>

definition grant :: "resource \<Rightarrow> nat \<Rightarrow> conn list \<Rightarrow> conn list" where
  "grant v c cs =
     (let cs1 = cs[c := reply (OList [OInt (code_value SUCCESS), resource_reply v]) (cs ! c)]; owner = fst v
      in cs1[owner := (cs1 ! owner)\<lparr>pending_matchkeys := remove1 (snd (resource_key v)) (pending_matchkeys (cs1 ! owner))\<rparr>])"

lemma schedule_idle: "sched_requests s = [] \<or> sched_values s = [] \<Longrightarrow> schedule s cs = (Inr (), s, cs)"
  by (subst schedule.simps) auto

lemma schedule_grant:
  assumes "heappop fst (sched_requests s) = Inr (item, reqs)" and "sched_requests s \<noteq> []" and "sched_values s = v # vs"
    and "cn_open (cs ! snd item)" and "snd item < length cs" and "fst v < length cs"
    and "snd (resource_key v) \<in> set (pending_matchkeys (cs ! fst v))"
  shows "schedule s cs = schedule (s\<lparr>sched_values := vs, sched_requests := reqs\<rparr>) (grant v (snd item) cs)"
proof -
  obtain owner mkey where v: "resource_key v = (owner, mkey)" "fst v = owner" by (metis prod.collapse resource_key_fst)
  let ?cs1 = "cs[snd item := reply (OList [OInt (code_value SUCCESS), resource_reply v]) (cs ! snd item)]"
  have "pending_matchkeys (?cs1 ! owner) = pending_matchkeys (cs ! owner)"
    using assms(5) by (simp add: nth_list_update reply_def)
  then show ?thesis using assms v by (subst schedule.simps) (simp add: Let_def grant_def)
qed

lemma schedule_drop:
  assumes "heappop fst (sched_requests s) = Inr (item, reqs)" and "sched_requests s \<noteq> []" and "sched_values s = v # vs"
    and "\<not> cn_open (cs ! snd item)"
  shows "schedule s cs = schedule (s\<lparr>sched_values := vs @ [v], sched_requests := reqs\<rparr>) cs"
  using assms by (subst schedule.simps) (simp add: Let_def split: prod.split)

lemma grant_conns_after:
  assumes "c < length cs" and "fst v < length cs" and "\<forall>c < length cs. distinct (pending_matchkeys (cs ! c))"
  shows "conns_after {resource_key v} cs (grant v c cs)"
proof -
  obtain owner mkey where v: "resource_key v = (owner, mkey)" "fst v = owner" by (metis prod.collapse resource_key_fst)
  then show ?thesis using assms
    by (auto simp: conns_after_def grant_def Let_def nth_list_update reply_def same_but_mail_def set_remove1_eq)
qed

lemma schedule_ok:
  assumes "queues_ok s cs" and "\<forall>c < length cs. distinct (pending_matchkeys (cs ! c))"
  shows "\<exists>s' cs'. schedule s cs = (Inr (), s', cs') \<and> (sched_requests s' = [] \<or> sched_values s' = [])
    \<and> queues_ok s' cs' \<and> conns_after (granted s s') cs cs' \<and> mset (sched_values s') \<subseteq># mset (sched_values s)
    \<and> request_cnt s' = request_cnt s"
  using assms
proof (induction "length (sched_requests s)" arbitrary: s cs)
  case 0
  then show ?case by (auto simp: schedule_idle granted_def conns_after_def)
next
  case (Suc n)
  show ?case
  proof (cases "sched_values s")
    case Nil
    then show ?thesis using Suc.prems by (auto simp: schedule_idle granted_def conns_after_def)
  next
    case (Cons v vs)
    have ne: "sched_requests s \<noteq> []" using Suc.hyps(2) by auto
    have q: "is_heap fst (sched_requests s)" "distinct (map (\<lambda>r. snd (fst r)) (sched_requests s))"
      "\<forall>r \<in> set (sched_requests s). snd (fst r) < request_cnt s \<and> snd r < length cs"
      "distinct (map resource_key (v # vs))" "free_pending (v # vs) cs"
      using Suc.prems(1) Cons unfolding queues_ok_def by auto
    obtain item reqs where pop: "heappop fst (sched_requests s) = Inr (item, reqs)" "is_heap fst reqs"
      "mset (sched_requests s) = add_mset item (mset reqs)" using heappop_props [OF q(1) ne] by blast
    have sets: "set (sched_requests s) = insert item (set reqs)" using pop(3) by (metis set_mset_add_mset_insert set_mset_mset)
    have len: "n = length reqs" using heappop_length [OF pop(1)] Suc.hyps(2) by simp
    have "mset (map (\<lambda>r. snd (fst r)) (sched_requests s)) = mset (map (\<lambda>r. snd (fst r)) (item # reqs))" using pop(3) by simp
    then have dreqs: "distinct (map (\<lambda>r. snd (fst r)) reqs)" using q(2) mset_eq_imp_distinct_iff by fastforce
    have item: "snd item < length cs" and v: "fst v < length cs" "snd (resource_key v) \<in> set (pending_matchkeys (cs ! fst v))"
      using q(3,5) sets by (auto simp: free_pending_def)
    show ?thesis
    proof (cases "cn_open (cs ! snd item)")
      case True
      let ?s = "s\<lparr>sched_values := vs, sched_requests := reqs\<rparr>" and ?cs = "grant v (snd item) cs"
      have after: "conns_after {resource_key v} cs ?cs" using grant_conns_after [OF item v(1) Suc.prems(2)] .
      have fresh: "resource_key v \<notin> resource_key ` set vs" using q(4) by auto
      have "free_pending vs ?cs"
        unfolding free_pending_def
      proof
        fix w assume w: "w \<in> set vs"
        then have "resource_key w \<noteq> resource_key v" using fresh by (metis image_eqI)
        then have "(fst w, snd (resource_key w)) \<notin> {resource_key v}" by (metis prod.collapse resource_key_fst singletonD)
        then show "fst w < length ?cs \<and> snd (resource_key w) \<in> set (pending_matchkeys (?cs ! fst w))"
          using after q(5) w by (auto simp: conns_after_def free_pending_def)
      qed
      then have "queues_ok ?s ?cs" using pop(2) dreqs q(3,4) sets after by (simp add: queues_ok_def conns_after_def)
      moreover have "\<forall>c < length ?cs. distinct (pending_matchkeys (?cs ! c))" using after by (simp add: conns_after_def)
      ultimately obtain s' cs' where IH: "schedule ?s ?cs = (Inr (), s', cs')" "sched_requests s' = [] \<or> sched_values s' = []"
        "queues_ok s' cs'" "conns_after (granted ?s s') ?cs cs'" "mset (sched_values s') \<subseteq># mset vs"
        "request_cnt s' = request_cnt s"
        using Suc.hyps(1) [of ?s ?cs] len by auto
      have "set (sched_values s') \<subseteq> set vs" using IH(5) by (metis set_mset_mono set_mset_mset)
      then have "resource_key v \<notin> resource_key ` set (sched_values s')" using fresh by (meson image_mono in_mono)
      then have "granted s s' = {resource_key v} \<union> granted ?s s'" using Cons by (simp add: granted_def insert_Diff_if)
      then have "conns_after (granted s s') cs cs'" using conns_after_trans [OF after IH(4)] by simp
      moreover have "mset (sched_values s') \<subseteq># mset (sched_values s)"
        unfolding Cons mset.simps using subset_mset.order_trans [OF IH(5), of "add_mset v (mset vs)"] by simp
      ultimately show ?thesis using IH schedule_grant [OF pop(1) ne Cons True item v] by auto
    next
      case False
      let ?s = "s\<lparr>sched_values := vs @ [v], sched_requests := reqs\<rparr>"
      have "queues_ok ?s cs" using pop(2) dreqs q sets by (auto simp: queues_ok_def free_pending_def)
      then obtain s' cs' where IH: "schedule ?s cs = (Inr (), s', cs')" "sched_requests s' = [] \<or> sched_values s' = []"
        "queues_ok s' cs'" "conns_after (granted ?s s') cs cs'" "mset (sched_values s') \<subseteq># mset (vs @ [v])"
        "request_cnt s' = request_cnt s"
        using Suc.hyps(1) [of ?s cs] len Suc.prems(2) by auto
      moreover have "granted ?s s' = granted s s'" using Cons by (auto simp: granted_def)
      ultimately show ?thesis using schedule_drop [OF pop(1) ne Cons False] Cons by auto
    qed
  qed
qed

section \<open>The invariant\<close>

text \<open>
  The connections of the set are the open ones. In every scheduler the requests form a heap with
  different numbers, no request waits while a resource is free, and every free resource is
  still pending at its owner; no resource is free in two schedulers.
\<close>

definition schedulers_ok :: "(pyobj \<Rightarrow> scheduler option) \<Rightarrow> conn list \<Rightarrow> bool" where
  "schedulers_ok m cs \<longleftrightarrow> (\<forall>k s. m k = Some s \<longrightarrow> queues_ok s cs \<and> (sched_requests s = [] \<or> sched_values s = []))
     \<and> (\<forall>k s k' s'. m k = Some s \<and> m k' = Some s' \<and> k \<noteq> k' \<longrightarrow>
          resource_key ` set (sched_values s) \<inter> resource_key ` set (sched_values s') = {})"

definition tracker_ok :: "tracker \<Rightarrow> bool" where
  "tracker_ok st \<longleftrightarrow> distinct (connections st)
     \<and> (\<forall>c. c \<in> set (connections st) \<longleftrightarrow> c < length (conns st) \<and> cn_open (conns st ! c))
     \<and> distinct (map fst (scheduler_map st)) \<and> schedulers_ok (map_of (scheduler_map st)) (conns st)
     \<and> (\<forall>c < length (conns st). distinct (pending_matchkeys (conns st ! c)))"

lemma tracker_ok_queues: "tracker_ok st \<Longrightarrow> map_of (scheduler_map st) k = Some s \<Longrightarrow>
    queues_ok s (conns st) \<and> (sched_requests s = [] \<or> sched_values s = [])"
  by (simp add: tracker_ok_def schedulers_ok_def)

lemma tracker_ok_disjoint: "tracker_ok st \<Longrightarrow> map_of (scheduler_map st) k = Some s \<Longrightarrow> map_of (scheduler_map st) k' = Some s' \<Longrightarrow>
    k \<noteq> k' \<Longrightarrow> resource_key ` set (sched_values s) \<inter> resource_key ` set (sched_values s') = {}"
  unfolding tracker_ok_def schedulers_ok_def by blast

definition only_mail :: "tracker \<Rightarrow> tracker \<Rightarrow> bool" where
  "only_mail st st' \<longleftrightarrow> connections st' = connections st \<and> length (conns st') = length (conns st)
     \<and> (\<forall>c < length (conns st). same_but_mail (conns st ! c) (conns st' ! c)
          \<and> set (pending_matchkeys (conns st' ! c)) \<subseteq> set (pending_matchkeys (conns st ! c)))"

lemma only_mail_refl [simp]: "only_mail st st"
  by (simp add: only_mail_def)

lemma only_mail_trans: "only_mail a b \<Longrightarrow> only_mail b c \<Longrightarrow> only_mail a c"
  unfolding only_mail_def by (auto intro: same_but_mail_trans)

lemma queues_ok_after:
  assumes "queues_ok s cs" and "conns_after gone cs cs'" and "resource_key ` set (sched_values s) \<inter> gone = {}"
  shows "queues_ok s cs'"
proof -
  have "free_pending (sched_values s) cs'"
    unfolding free_pending_def
  proof
    fix v assume v: "v \<in> set (sched_values s)"
    then have "(fst v, snd (resource_key v)) \<notin> gone" using assms(3) by (metis IntI empty_iff image_eqI prod.collapse resource_key_fst)
    then show "fst v < length cs' \<and> snd (resource_key v) \<in> set (pending_matchkeys (cs' ! fst v))"
      using assms(1,2) v by (auto simp: conns_after_def queues_ok_def free_pending_def)
  qed
  then show ?thesis using assms(1,2) by (simp add: queues_ok_def conns_after_def)
qed

lemma sched_run_ok:
  assumes "tracker_ok st" and "map_of (scheduler_map st) key = Some s" and "queues_ok (f s) (conns st)"
    and "\<And>k s'. map_of (scheduler_map st) k = Some s' \<Longrightarrow> k \<noteq> key \<Longrightarrow>
      resource_key ` set (sched_values (f s)) \<inter> resource_key ` set (sched_values s') = {}"
  shows "\<exists>st' s'. sched_run f key st = (Inr (), st') \<and> tracker_ok st' \<and> only_mail st st'
    \<and> scheduler_map st' = AList.update key s' (scheduler_map st) \<and> mset (sched_values s') \<subseteq># mset (sched_values (f s))"
proof -
  have ok: "schedulers_ok (map_of (scheduler_map st)) (conns st)" "\<forall>c < length (conns st). distinct (pending_matchkeys (conns st ! c))"
    using assms(1) by (auto simp: tracker_ok_def)
  obtain s' cs' where run: "schedule (f s) (conns st) = (Inr (), s', cs')" "sched_requests s' = [] \<or> sched_values s' = []"
    "queues_ok s' cs'" "conns_after (granted (f s) s') (conns st) cs'" "mset (sched_values s') \<subseteq># mset (sched_values (f s))"
    using schedule_ok [OF assms(3) ok(2)] by blast
  let ?st' = "st\<lparr>conns := cs', scheduler_map := AList.update key s' (scheduler_map st)\<rparr>"
  have sub: "resource_key ` set (sched_values s') \<subseteq> resource_key ` set (sched_values (f s))"
    using run(5) by (metis image_mono set_mset_mono set_mset_mset)
  have other: "queues_ok s2 cs'" if "map_of (scheduler_map st) k = Some s2" "k \<noteq> key" for k s2
  proof (rule queues_ok_after [OF _ run(4)])
    show "queues_ok s2 (conns st)" using ok(1) that(1) by (simp add: schedulers_ok_def)
    show "resource_key ` set (sched_values s2) \<inter> granted (f s) s' = {}" using assms(4) [OF that] by (auto simp: granted_def)
  qed
  have "schedulers_ok (map_of (AList.update key s' (scheduler_map st))) cs'"
    unfolding schedulers_ok_def update_conv'
  proof (intro conjI allI impI)
    fix k t assume "((map_of (scheduler_map st))(key \<mapsto> s')) k = Some t"
    then have "k = key \<and> t = s' \<or> k \<noteq> key \<and> map_of (scheduler_map st) k = Some t" by (auto split: if_splits)
    then show "queues_ok t cs'" and "sched_requests t = [] \<or> sched_values t = []"
      using run(2,3) other ok(1) unfolding schedulers_ok_def by blast+
  next
    fix k t k' t'
    assume kt: "((map_of (scheduler_map st))(key \<mapsto> s')) k = Some t \<and> ((map_of (scheduler_map st))(key \<mapsto> s')) k' = Some t' \<and> k \<noteq> k'"
    show "resource_key ` set (sched_values t) \<inter> resource_key ` set (sched_values t') = {}"
    proof (cases "k = key \<or> k' = key")
      case True
      then show ?thesis using kt sub assms(4) by (force split: if_splits)
    next
      case False
      then show ?thesis using kt ok(1) unfolding schedulers_ok_def by auto
    qed
  qed
  then have "tracker_ok ?st'" using assms(1) run(4) same_but_mailD unfolding tracker_ok_def conns_after_def
    by (simp add: distinct_update) metis
  moreover have "only_mail st ?st'" using run(4) by (auto simp: only_mail_def conns_after_def)
  ultimately show ?thesis using run(1,5) assms(2) by (auto simp: sched_run_def)
qed

section \<open>Operations keep the invariant\<close>

definition keeps :: "nat \<Rightarrow> 'a tr \<Rightarrow> bool" where
  "keeps n m \<longleftrightarrow> (\<forall>st. tracker_ok st \<and> length (conns st) = n \<longrightarrow> tracker_ok (snd (m st)) \<and> length (conns (snd (m st))) = n)"

named_theorems keeps_rules \<open>operations that keep the tracker invariant\<close>

lemma keepsD: "keeps n m \<Longrightarrow> tracker_ok st \<Longrightarrow> length (conns st) = n \<Longrightarrow>
    tracker_ok (snd (m st)) \<and> length (conns (snd (m st))) = n"
  by (simp add: keeps_def)

lemma keeps_ret [keeps_rules]: "keeps n (tr_ret r)"
  by (simp add: keeps_def tr_ret_def)

lemma keeps_read [keeps_rules]: "keeps n (\<lambda>st. (r st, st))"
  by (simp add: keeps_def)

lemma keeps_bind [keeps_rules]: "keeps n m \<Longrightarrow> (\<And>x. keeps n (f x)) \<Longrightarrow> keeps n (tr_bind m f)"
  unfolding keeps_def tr_bind_def by (auto split: prod.splits sum.splits)

lemma conn_mod_ok:
  assumes "tracker_ok st" and "cn_open (f (conns st ! c)) = cn_open (conns st ! c)"
    and "set (pending_matchkeys (conns st ! c)) \<subseteq> set (pending_matchkeys (f (conns st ! c)))"
    and "distinct (pending_matchkeys (conns st ! c)) \<Longrightarrow> distinct (pending_matchkeys (f (conns st ! c)))"
  shows "tracker_ok (conn_mod c f st)"
proof -
  let ?cs = "(conns st)[c := f (conns st ! c)]"
  have "set (pending_matchkeys (conns st ! d)) \<subseteq> set (pending_matchkeys (?cs ! d))" for d
    using assms(3) by (cases "c < length (conns st)") (auto simp: nth_list_update list_update_beyond)
  then have "free_pending vs ?cs" if "free_pending vs (conns st)" for vs
    using that unfolding free_pending_def length_list_update by blast
  then have "queues_ok s ?cs" if "queues_ok s (conns st)" for s using that by (simp add: queues_ok_def)
  then have "schedulers_ok m ?cs" if "schedulers_ok m (conns st)" for m using that unfolding schedulers_ok_def by blast
  moreover have "cn_open (?cs ! d) = cn_open (conns st ! d)" for d
    using assms(2) by (cases "c < length (conns st)") (auto simp: nth_list_update list_update_beyond)
  moreover have "distinct (pending_matchkeys (?cs ! d))" if "d < length (conns st)" for d
    using assms(1,4) that by (cases "d = c") (auto simp: tracker_ok_def)
  ultimately show ?thesis using assms(1) by (simp add: tracker_ok_def conn_mod_def)
qed

lemma keeps_conn_mod [keeps_rules]:
  assumes "\<And>cn. cn_open (f cn) = cn_open cn" and "\<And>cn. pending_matchkeys (f cn) = pending_matchkeys cn"
  shows "keeps n (tr_mod (conn_mod c f))"
  using assms conn_mod_ok [of _ f c] by (simp add: keeps_def tr_mod_def) (simp add: conn_mod_def)

lemma keeps_ret_value [keeps_rules]: "keeps n (ret_value c x)"
proof -
  have "keeps n (\<lambda>st. if cn_open (conns st ! c) then (Inr (), conn_mod c (reply x) st) else (Inl IOErr, st))"
    using keeps_conn_mod [of "reply x" n c] by (simp add: keeps_def tr_mod_def reply_def)
  then show ?thesis unfolding ret_value_def by (intro keeps_rules)
qed

lemma keeps_ret_code [keeps_rules]: "keeps n (ret_code c code)"
  by (simp add: ret_code_def keeps_ret_value)

lemma new_scheduler_ok [simp]: "queues_ok new_scheduler cs" "sched_values new_scheduler = []" "sched_requests new_scheduler = []"
  by (simp_all add: new_scheduler_def queues_ok_def free_pending_def heap_from_def)

lemma create_scheduler_ok:
  assumes "tracker_ok st"
  shows "case create_scheduler key st of (r, st') \<Rightarrow> tracker_ok st' \<and> conns st' = conns st \<and> connections st' = connections st
    \<and> (case r of Inl err \<Rightarrow> st' = st | Inr u \<Rightarrow> map_of (scheduler_map st') key \<noteq> None)
    \<and> (\<forall>k s. map_of (scheduler_map st') k = Some s \<longrightarrow> map_of (scheduler_map st) k = Some s \<or> s = new_scheduler)"
proof (cases "hashable key \<and> map_of (scheduler_map st) key = None")
  case True
  let ?m = "scheduler_map st @ [(key, new_scheduler)]"
  have new: "map_of ?m k = Some s \<longleftrightarrow> map_of (scheduler_map st) k = Some s \<or> k = key \<and> s = new_scheduler" for k s
    using True by (auto simp: map_add_def split: option.splits if_splits)
  have "schedulers_ok (map_of ?m) (conns st)"
    unfolding schedulers_ok_def new
  proof (intro conjI allI impI)
    fix k s assume "map_of (scheduler_map st) k = Some s \<or> k = key \<and> s = new_scheduler"
    then show "queues_ok s (conns st)" "sched_requests s = [] \<or> sched_values s = []"
      using tracker_ok_queues [OF assms] by auto
  next
    fix k s k' s'
    assume "(map_of (scheduler_map st) k = Some s \<or> k = key \<and> s = new_scheduler)
      \<and> (map_of (scheduler_map st) k' = Some s' \<or> k' = key \<and> s' = new_scheduler) \<and> k \<noteq> k'"
    then show "resource_key ` set (sched_values s) \<inter> resource_key ` set (sched_values s') = {}"
      using tracker_ok_disjoint [OF assms] by (elim conjE disjE) simp_all
  qed
  moreover have "key \<notin> set (map fst (scheduler_map st))" using True by (simp add: map_of_eq_None_iff)
  ultimately have "tracker_ok (st\<lparr>scheduler_map := ?m\<rparr>)" using assms by (simp add: tracker_ok_def)
  then show ?thesis using True new by (simp add: create_scheduler_def)
next
  case False
  then show ?thesis using assms by (auto simp: create_scheduler_def split: option.splits)
qed

lemma keeps_create_scheduler [keeps_rules]: "keeps n (create_scheduler key)"
  using create_scheduler_ok [of _ key] by (simp add: keeps_def prod.case_eq_if)

lemma sched_request_ok:
  assumes "tracker_ok st" and "c < length (conns st)" and Some: "map_of (scheduler_map st) key = Some s"
  shows "\<exists>st'. sched_request p c key st = (Inr (), st') \<and> tracker_ok st' \<and> only_mail st st'"
proof -
  let ?f = "\<lambda>s. s\<lparr>sched_requests := heappush fst (sched_requests s) ((- p, request_cnt s), c), request_cnt := Suc (request_cnt s)\<rparr>"
  have q: "queues_ok s (conns st)" using tracker_ok_queues [OF assms(1) Some] by blast
  have push: "is_heap fst (heappush fst (sched_requests s) ((- p, request_cnt s), c))"
    "mset (heappush fst (sched_requests s) ((- p, request_cnt s), c)) = mset (((- p, request_cnt s), c) # sched_requests s)"
    using heappush_props [of fst "sched_requests s"] q by (simp_all add: queues_ok_def)
  have "set (heappush fst (sched_requests s) ((- p, request_cnt s), c)) = insert ((- p, request_cnt s), c) (set (sched_requests s))"
    using mset_eq_setD [OF push(2)] by simp
  moreover have "distinct (map (\<lambda>r. snd (fst r)) (heappush fst (sched_requests s) ((- p, request_cnt s), c)))"
  proof -
    have "distinct (map (\<lambda>r. snd (fst r)) (((- p, request_cnt s), c) # sched_requests s))"
      using q by (auto simp: queues_ok_def)
    moreover have "mset (map (\<lambda>r. snd (fst r)) (heappush fst (sched_requests s) ((- p, request_cnt s), c)))
        = mset (map (\<lambda>r. snd (fst r)) (((- p, request_cnt s), c) # sched_requests s))" using push(2) by (metis mset_map)
    ultimately show ?thesis using mset_eq_imp_distinct_iff by blast
  qed
  ultimately have "queues_ok (?f s) (conns st)" using q push(1) assms(2) by (auto simp: queues_ok_def)
  moreover have "resource_key ` set (sched_values (?f s)) \<inter> resource_key ` set (sched_values s') = {}"
    if "map_of (scheduler_map st) k = Some s'" "k \<noteq> key" for k s'
    using tracker_ok_disjoint [OF assms(1) Some that(1)] that(2) by simp
  ultimately obtain st' where "sched_run ?f key st = (Inr (), st')" "tracker_ok st'" "only_mail st st'"
    using sched_run_ok [OF assms(1) Some, of ?f] by blast
  then show ?thesis by (simp add: sched_request_def)
qed

lemma keeps_sched_request [keeps_rules]:
  assumes "c < n"
  shows "keeps n (sched_request p c key)"
proof -
  have "tracker_ok (snd (sched_request p c key st)) \<and> length (conns (snd (sched_request p c key st))) = n"
    if st: "tracker_ok st" "length (conns st) = n" for st
  proof (cases "map_of (scheduler_map st) key")
    case None
    then show ?thesis using st by (simp add: sched_request_def sched_run_def)
  next
    case (Some s)
    then show ?thesis using sched_request_ok [OF st(1) _ Some, of c p] assms st(2) by (auto simp: only_mail_def)
  qed
  then show ?thesis by (simp add: keeps_def)
qed

lemma sched_remove_ok:
  assumes "tracker_ok st"
  shows "\<exists>r st'. sched_remove v key st = (r, st') \<and> tracker_ok st' \<and> only_mail st st'
    \<and> r = (if map_of (scheduler_map st) key = None then Inl KeyError else Inr ())
    \<and> (\<forall>k s'. map_of (scheduler_map st') k = Some s' \<longrightarrow>
         (\<exists>s. map_of (scheduler_map st) k = Some s \<and> set (sched_values s') \<subseteq> set (sched_values s) - (if k = key then {v} else {})))
    \<and> (\<forall>k. map_of (scheduler_map st) k \<noteq> None \<longrightarrow> map_of (scheduler_map st') k \<noteq> None)"
proof (cases "map_of (scheduler_map st) key")
  case None
  then show ?thesis using assms by (auto simp: sched_remove_def)
next
  case (Some s)
  have q: "queues_ok s (conns st)" using tracker_ok_queues [OF assms Some] by blast
  then have dist: "distinct (sched_values s)" by (simp add: queues_ok_def distinct_map)
  show ?thesis
  proof (cases "v \<in> set (sched_values s)")
    case True
    let ?f = "\<lambda>s. s\<lparr>sched_values := remove1 v (sched_values s)\<rparr>"
    have sub: "set (remove1 v (sched_values s)) \<subseteq> set (sched_values s)" by (rule set_remove1_subset)
    have "distinct (map resource_key (remove1 v (sched_values s)))"
      using q dist by (auto simp: queues_ok_def distinct_map inj_on_def)
    then have "queues_ok (?f s) (conns st)" using q sub by (auto simp: queues_ok_def free_pending_def)
    moreover have "resource_key ` set (sched_values (?f s)) \<inter> resource_key ` set (sched_values s') = {}"
      if "map_of (scheduler_map st) k = Some s'" "k \<noteq> key" for k s'
      using tracker_ok_disjoint [OF assms Some that(1)] that(2) dist by (simp add: set_remove1_eq) blast
    ultimately obtain st' s' where run: "sched_run ?f key st = (Inr (), st')" "tracker_ok st'" "only_mail st st'"
      "scheduler_map st' = AList.update key s' (scheduler_map st)" "mset (sched_values s') \<subseteq># mset (sched_values (?f s))"
      using sched_run_ok [OF assms Some, of ?f] by blast
    have "set (sched_values s') \<subseteq> set (sched_values s) - {v}"
      using run(5) dist by (metis scheduler.select_convs(2) scheduler.surjective scheduler.update_convs(2) set_mset_mono set_mset_mset set_remove1_eq)
    then show ?thesis using run(1-4) True Some by (auto simp: sched_remove_def update_conv')
  next
    case False
    then show ?thesis using assms Some by (auto simp: sched_remove_def)
  qed
qed

lemma keeps_remove_values [keeps_rules]: "keeps n (remove_values vs)"
proof (induction vs)
  case (Cons v vs)
  have "keeps n (sched_remove v k)" for k
    unfolding keeps_def using sched_remove_ok [of _ v k] by (auto simp: only_mail_def) (metis snd_conv)+
  then show ?case using Cons by (auto intro!: keeps_rules)
qed (auto intro: keeps_rules)

lemma close_mark_ok:
  assumes "tracker_ok st" and "c < length (conns st)"
  shows "tracker_ok (conn_mod c (\<lambda>cn. cn\<lparr>cn_open := False\<rparr>) st\<lparr>connections := remove1 c (connections st)\<rparr>)"
proof -
  let ?cs = "(conns st)[c := (conns st ! c)\<lparr>cn_open := False\<rparr>]"
  have same: "pending_matchkeys (?cs ! d) = pending_matchkeys (conns st ! d)" for d
    using assms(2) by (simp add: nth_list_update)
  then have "queues_ok s ?cs" if "queues_ok s (conns st)" for s using that by (simp add: queues_ok_def free_pending_def)
  then have "schedulers_ok m ?cs" if "schedulers_ok m (conns st)" for m using that unfolding schedulers_ok_def by blast
  moreover have "d \<in> set (remove1 c (connections st)) \<longleftrightarrow> d < length ?cs \<and> cn_open (?cs ! d)" for d
    using assms by (simp add: tracker_ok_def set_remove1_eq nth_list_update)
  ultimately show ?thesis using assms(1) same by (simp add: tracker_ok_def conn_mod_def)
qed

lemma keeps_conn_close [keeps_rules]:
  assumes "c < n"
  shows "keeps n (conn_close c)"
  unfolding keeps_def
proof (intro allI impI)
  fix st assume st: "tracker_ok st \<and> length (conns st) = n"
  show "tracker_ok (snd (conn_close c st)) \<and> length (conns (snd (conn_close c st))) = n"
  proof (cases "cn_open (conns st ! c)")
    case True
    let ?st = "conn_mod c (\<lambda>cn. cn\<lparr>cn_open := False\<rparr>) st\<lparr>connections := remove1 c (connections st)\<rparr>"
    have "c \<in> set (connections (conn_mod c (\<lambda>cn. cn\<lparr>cn_open := False\<rparr>) st))"
      using st True assms by (simp add: tracker_ok_def conn_mod_def)
    then have "conn_close c st = (if map_of (cn_info (conns ?st ! c)) ''key'' \<noteq> None
        then remove_values (put_values (conns ?st ! c)) ?st else (Inr (), ?st))"
      using True by (simp add: conn_close_def tracker_close_def tr_bind_def conn_mod_def)
    moreover have "tracker_ok ?st" "length (conns ?st) = n" using close_mark_ok st assms by (auto simp: conn_mod_def)
    ultimately show ?thesis using keepsD [OF keeps_remove_values] by simp
  next
    case False
    then show ?thesis using st by (simp add: conn_close_def)
  qed
qed

lemma keeps_close_all: "\<forall>c \<in> set cs. c < n \<Longrightarrow> keeps n (close_all cs)"
  by (induction cs) (auto intro!: keeps_rules)

text \<open>Sets are iterated in some order, without loss.\<close>

definition env_ok :: "tracker_env \<Rightarrow> bool" where
  "env_ok env \<longleftrightarrow> (\<forall>xs. mset (iter_conns env xs) = mset xs) \<and> (\<forall>xs. mset (iter_keys env xs) = mset xs)"

lemma keeps_tracker_stop:
  assumes "env_ok env"
  shows "keeps n (tracker_stop env)"
proof -
  have down: "keeps n (tr_mod (\<lambda>st. st\<lparr>tracker_running := False\<rparr>))" by (simp add: keeps_def tr_mod_def tracker_ok_def)
  have "tracker_ok (snd (tracker_stop env st)) \<and> length (conns (snd (tracker_stop env st))) = n"
    if st: "tracker_ok st" "length (conns st) = n" for st
  proof -
    have "set (iter_conns env (connections st)) = set (connections st)"
      using assms by (intro mset_eq_setD) (simp add: env_ok_def)
    then have "\<forall>c \<in> set (iter_conns env (connections st)). c < n" using st by (simp add: tracker_ok_def)
    from keepsD [OF keeps_bind [OF keeps_close_all [OF this]] st] down show ?thesis by (simp add: tracker_stop_def)
  qed
  then show ?thesis by (simp add: keeps_def)
qed

lemma tracker_put_ok:
  assumes "tracker_ok st" and "fst v < length (conns st)" and "snd (resource_key v) \<in> set (pending_matchkeys (conns st ! fst v))"
    and "\<And>k s. map_of (scheduler_map st) k = Some s \<Longrightarrow> resource_key v \<notin> resource_key ` set (sched_values s)"
  shows "tracker_ok (snd (tracker_put key v st)) \<and> length (conns (snd (tracker_put key v st))) = length (conns st)"
    and "hashable key \<Longrightarrow> fst (tracker_put key v st) = Inr () \<and> map_of (scheduler_map (snd (tracker_put key v st))) key \<noteq> None"
proof -
  obtain r st1 where c: "create_scheduler key st = (r, st1)" by force
  note st1 = create_scheduler_ok [OF assms(1), of key, unfolded c prod.case]
  have "(tracker_ok (snd (tracker_put key v st)) \<and> length (conns (snd (tracker_put key v st))) = length (conns st))
    \<and> (hashable key \<longrightarrow> fst (tracker_put key v st) = Inr () \<and> map_of (scheduler_map (snd (tracker_put key v st))) key \<noteq> None)"
  proof (cases r)
    case (Inl err)
    moreover have "\<not> hashable key" using c Inl by (auto simp: create_scheduler_def split: option.splits if_splits)
    ultimately show ?thesis using c assms(1) st1 by (simp add: tracker_put_def tr_bind_def)
  next
    case (Inr u)
    then obtain s where s: "map_of (scheduler_map st1) key = Some s" using st1 by auto
    let ?f = "\<lambda>s. s\<lparr>sched_values := sched_values s @ [v]\<rparr>"
    have fresh: "resource_key v \<notin> resource_key ` set (sched_values t)" if "map_of (scheduler_map st1) k = Some t" for k t
      using st1 assms(4) that by (metis empty_iff empty_set image_empty new_scheduler_ok(2))
    have "queues_ok (?f s) (conns st1)"
      using tracker_ok_queues [OF _ s] st1 assms(2,3) fresh [OF s] by (auto simp: queues_ok_def free_pending_def)
    moreover have "resource_key ` set (sched_values (?f s)) \<inter> resource_key ` set (sched_values s') = {}"
      if "map_of (scheduler_map st1) k = Some s'" "k \<noteq> key" for k s'
      using tracker_ok_disjoint [OF _ s that(1)] st1 that(2) fresh [OF that(1)] by simp
    ultimately obtain st' s' where "sched_run ?f key st1 = (Inr (), st')" "tracker_ok st'" "only_mail st1 st'"
      "scheduler_map st' = AList.update key s' (scheduler_map st1)"
      using sched_run_ok [of st1 key s ?f] st1 s by blast
    then show ?thesis using c Inr st1 by (simp add: tracker_put_def tr_bind_def sched_put_def only_mail_def update_conv')
  qed
  then show "tracker_ok (snd (tracker_put key v st)) \<and> length (conns (snd (tracker_put key v st))) = length (conns st)"
    "hashable key \<Longrightarrow> fst (tracker_put key v st) = Inr () \<and> map_of (scheduler_map (snd (tracker_put key v st))) key \<noteq> None" by blast+
qed

text \<open>A \<open>PUT\<close> announces a match key that is not pending on that connection.\<close>

definition fresh_put :: "nat \<Rightarrow> pyobj \<Rightarrow> tracker \<Rightarrow> bool" where
  "fresh_put c args st \<longleftrightarrow>
     (case res_bind (json_get args 2) obj_iter of
        Inr [port, mkey] \<Rightarrow> mkey \<notin> set (pending_matchkeys (conns st ! c))
      | _ \<Rightarrow> True)"

lemma tr_bind_ret [simp]: "tr_bind (tr_ret (Inr x)) f = f x" "tr_bind (tr_ret (Inl e)) f = tr_ret (Inl e)"
  by (auto simp: tr_bind_def tr_ret_def)

lemma tr_bind_step: "m st = (Inr x, st') \<Longrightarrow> tr_bind m f st = f x st'"
  by (simp add: tr_bind_def)

lemma keeps_bind_at:
  assumes "tracker_ok (snd (m st)) \<and> length (conns (snd (m st))) = n" and "\<And>x. keeps n (f x)"
  shows "tracker_ok (snd (tr_bind m f st)) \<and> length (conns (snd (tr_bind m f st))) = n"
  using assms by (auto simp: tr_bind_def keeps_def split: prod.splits sum.splits)

text \<open>The three courses of a \<open>PUT\<close>: it fails on its arguments, it fails on the address after the match key was marked as pending, or it puts the resource.\<close>

definition mark_pending :: "nat \<Rightarrow> pyobj \<Rightarrow> tracker \<Rightarrow> tracker" where
  "mark_pending c mkey = conn_mod c (\<lambda>cn. cn\<lparr>pending_matchkeys := List.insert mkey (pending_matchkeys cn)\<rparr>)"

lemma handle_put_cases:
  obtains (failed) "snd (handle_put c args st) = st"
  | (no_custom) mkey where "snd (handle_put c args st) = mark_pending c mkey st"
  | (stored) key port mkey v where "json_get args 1 = Inr key" "res_bind (json_get args 2) obj_iter = Inr [port, mkey]" "resource_key v = (c, mkey)"
      "handle_put c args st = tr_bind (tracker_put key v) (\<lambda>_. tr_bind (tr_mod (conn_mod c (\<lambda>cn. cn\<lparr>put_values := put_values cn @ [v]\<rparr>))) (\<lambda>_. ret_code c SUCCESS))
         (mark_pending c mkey st)"
proof (cases "\<exists>key port mkey. json_get args 1 = Inr key \<and> res_bind (json_get args 2) obj_iter = Inr [port, mkey] \<and> hashable mkey")
  case False
  then show ?thesis using failed
    by (cases "json_get args 1"; cases "res_bind (json_get args 2) obj_iter")
      (auto simp: handle_put_def tr_ret_def tr_bind_def split: list.splits)
next
  case True
  then obtain key port mkey where a: "json_get args 1 = Inr key" "res_bind (json_get args 2) obj_iter = Inr [port, mkey]" "hashable mkey"
    by blast
  let ?st = "conn_mod c (\<lambda>cn. cn\<lparr>pending_matchkeys := List.insert mkey (pending_matchkeys cn)\<rparr>) st"
  show ?thesis
  proof (cases "res_bind (obj_len args) (\<lambda>n. if n \<ge> 4 then json_get args 3 else Inr ONone)")
    case (Inl err)
    then show ?thesis using a no_custom [of mkey] by (simp add: handle_put_def tr_bind_def tr_ret_def mark_pending_def)
  next
    case (Inr custom)
    let ?v = "(c, if custom = ONone then OStr (cn_addr (conns ?st ! c)) else custom, port, mkey)"
    have "handle_put c args st = tr_bind (tracker_put key ?v)
        (\<lambda>_. tr_bind (tr_mod (conn_mod c (\<lambda>cn. cn\<lparr>put_values := put_values cn @ [?v]\<rparr>))) (\<lambda>_. ret_code c SUCCESS)) ?st"
      unfolding handle_put_def a(1,2) tr_bind_ret list.case prod.case
      by (subst tr_bind_step [where x = "()" and st' = "?st"], simp add: a(3),
          subst tr_bind_step [where x = custom and st' = "?st"], simp only: Inr, simp only: Let_def)
    then show ?thesis using stored [OF a(1,2), of ?v] by (simp add: resource_key_def mark_pending_def)
  qed
qed

text \<open>The resource that is put is new to the tracker.\<close>

lemma fresh_put_new:
  assumes "tracker_ok st" and "c < length (conns st)" and "fresh_put c args st" and "res_bind (json_get args 2) obj_iter = Inr [port, mkey]"
  shows "tracker_ok (mark_pending c mkey st)" "length (conns (mark_pending c mkey st)) = length (conns st)"
    "mkey \<in> set (pending_matchkeys (conns (mark_pending c mkey st) ! c))" "scheduler_map (mark_pending c mkey st) = scheduler_map st"
    "map_of (scheduler_map st) k = Some s \<Longrightarrow> (c, mkey) \<notin> resource_key ` set (sched_values s)"
proof -
  have new: "mkey \<notin> set (pending_matchkeys (conns st ! c))" using assms(3,4) by (simp add: fresh_put_def)
  show "tracker_ok (mark_pending c mkey st)" unfolding mark_pending_def by (rule conn_mod_ok [OF assms(1)]) auto
  show "length (conns (mark_pending c mkey st)) = length (conns st)" "mkey \<in> set (pending_matchkeys (conns (mark_pending c mkey st) ! c))"
    "scheduler_map (mark_pending c mkey st) = scheduler_map st"
    using assms(2) by (simp_all add: mark_pending_def conn_mod_def)
  show "(c, mkey) \<notin> resource_key ` set (sched_values s)" if "map_of (scheduler_map st) k = Some s"
  proof
    assume "(c, mkey) \<in> resource_key ` set (sched_values s)"
    then obtain v where v: "v \<in> set (sched_values s)" "fst v = c" "snd (resource_key v) = mkey"
      by (metis fst_conv imageE resource_key_fst snd_conv)
    have "free_pending (sched_values s) (conns st)" using tracker_ok_queues [OF assms(1) that] by (simp add: queues_ok_def)
    then show False using v new by (auto simp: free_pending_def)
  qed
qed

lemma handle_put_ok:
  assumes "tracker_ok st" and "c < length (conns st)" and "fresh_put c args st"
  shows "tracker_ok (snd (handle_put c args st)) \<and> length (conns (snd (handle_put c args st))) = length (conns st)"
proof (cases rule: handle_put_cases [of c args st])
  case failed
  then show ?thesis using assms(1) by simp
next
  case (no_custom mkey)
  have "tracker_ok (mark_pending c mkey st)" unfolding mark_pending_def by (rule conn_mod_ok [OF assms(1)]) auto
  then show ?thesis by (simp add: no_custom mark_pending_def conn_mod_def)
next
  case (stored key port mkey v)
  note new = fresh_put_new [OF assms stored(2)]
  have "fst v = c" using stored(3) by (metis fst_conv resource_key_fst)
  then have "tracker_ok (snd (tracker_put key v (mark_pending c mkey st)))
      \<and> length (conns (snd (tracker_put key v (mark_pending c mkey st)))) = length (conns st)"
    using tracker_put_ok(1) [OF new(1), of v key] new assms(2) stored(3) by simp
  moreover have "keeps (length (conns st)) (tr_bind (tr_mod (conn_mod c (\<lambda>cn. cn\<lparr>put_values := put_values cn @ [v]\<rparr>))) (\<lambda>_. ret_code c SUCCESS))"
    by (auto intro!: keeps_rules)
  ultimately show ?thesis unfolding stored(4) by (intro keeps_bind_at)
qed

lemma call_handler_ok:
  assumes "env_ok env" and "tracker_ok st" and "c < length (conns st)"
    and "\<And>code. json_get args 0 = Inr code \<Longrightarrow> equals_int code (code_value PUT) \<Longrightarrow> fresh_put c args st"
  shows "tracker_ok (snd (call_handler env c args st)) \<and> length (conns (snd (call_handler env c args st))) = length (conns st)"
proof (cases "json_get args 0")
  case (Inl err)
  then show ?thesis using assms(2) by (simp add: call_handler_def tr_ret_def)
next
  case (Inr code)
  let ?n = "length (conns st)"
  have req: "keeps ?n (handle_request c args)"
    using assms(3) unfolding handle_request_def tracker_request_def by (auto intro!: keeps_rules)
  have read: "keeps ?n (\<lambda>st. ret_value c (OList (iter_keys env (pending_matchkeys (conns st ! c)))) st)"
    using keeps_ret_value [of ?n c] by (simp add: keeps_def)
  have stp: "keeps ?n (handle_stop env c args)"
  proof -
    have "keeps ?n (\<lambda>st. if stop_key st = key then tr_bind (ret_code c SUCCESS) (\<lambda>_. tracker_stop env) st else ret_code c FAIL st)" for key
      using keeps_bind [OF keeps_ret_code, of ?n "\<lambda>_. tracker_stop env" c SUCCESS] keeps_tracker_stop [OF assms(1)]
        keeps_ret_code [of ?n c FAIL] by (simp add: keeps_def)
    then show ?thesis unfolding handle_stop_def by (intro keeps_rules)
  qed
  have upd: "keeps ?n (handle_update_info c args)"
    unfolding handle_update_info_def by (intro keeps_rules) simp_all
  have smr: "keeps ?n (tr_bind (\<lambda>st. (tracker_summary env st, st)) (\<lambda>status. ret_value c (OList [OInt (code_value SUCCESS), status])))"
    by (intro keeps_rules)
  show ?thesis
    using handle_put_ok [OF assms(2,3)] assms(4) [OF Inr] Inr
      keepsD [OF req assms(2) refl] keepsD [OF read assms(2) refl] keepsD [OF stp assms(2) refl] keepsD [OF upd assms(2) refl]
      keepsD [OF smr assms(2) refl] keepsD [OF keeps_ret_code assms(2) refl] keepsD [OF keeps_conn_close [OF assms(3)] assms(2) refl]
    unfolding call_handler_def Inr tr_bind_ret
    by (simp only: split: if_split) blast
qed

lemma request_returns:
  assumes "tracker_ok st" and "c < length (conns st)" and "hashable key" and "obj_num priority = Inr p"
  shows "fst (call_handler env c (OList [OInt (code_value REQUEST), key, user, priority]) st) = Inr ()"
proof -
  obtain r st1 where c: "create_scheduler key st = (r, st1)" by force
  note st1 = create_scheduler_ok [OF assms(1), of key, unfolded c prod.case]
  have "r = Inr ()" using c assms(3) by (auto simp: create_scheduler_def split: option.splits)
  then obtain s where "map_of (scheduler_map st1) key = Some s" using st1 by auto
  then obtain st2 where "sched_request p c key st1 = (Inr (), st2)" using sched_request_ok st1 assms(2) by metis
  then show ?thesis using c \<open>r = Inr ()\<close> assms(4)
    by (simp add: call_handler_def handle_request_def tracker_request_def py_get_def tr_bind_def [of "create_scheduler key"])
qed

section \<open>Reachable states\<close>

definition tracker_init :: "pyobj \<Rightarrow> tracker" where
  "tracker_init key = \<lparr>conns = [], connections = [], scheduler_map = [], stop_key = key, tracker_running = True\<rparr>"

text \<open>
  The events of the tracker, each leaving the state it leaves whether or not it raises: a connection is
  accepted, greets, stores received bytes, has a message handled, or is closed by the
  peer or by an error.
\<close>

inductive tracker_reach :: "tracker_env \<Rightarrow> tracker \<Rightarrow> bool" for env where
  tracker_start: "tracker_reach env (tracker_init key)"
| tracker_accepted: "tracker_reach env st \<Longrightarrow> tracker_reach env (accept_conn addr st)"
| tracker_greeted: "tracker_reach env st \<Longrightarrow> c \<in> set (connections st) \<Longrightarrow> init_conn c msg st = (r, st') \<Longrightarrow> tracker_reach env st'"
| tracker_buffered: "tracker_reach env st \<Longrightarrow> c \<in> set (connections st) \<Longrightarrow>
    tracker_reach env (conn_mod c (\<lambda>cn. cn\<lparr>cn_data := data, cn_msg_size := msize\<rparr>) st)"
| tracker_handled: "tracker_reach env st \<Longrightarrow> c \<in> set (connections st) \<Longrightarrow> fresh_put c args st \<Longrightarrow>
    call_handler env c args st = (r, st') \<Longrightarrow> tracker_reach env st'"
| tracker_closed: "tracker_reach env st \<Longrightarrow> c \<in> set (connections st) \<Longrightarrow> conn_close c st = (r, st') \<Longrightarrow> tracker_reach env st'"

lemma keeps_init_conn: "c < n \<Longrightarrow> keeps n (init_conn c msg)"
  unfolding init_conn_def by (auto intro!: keeps_rules)

lemma accept_conn_ok:
  assumes "tracker_ok st"
  shows "tracker_ok (accept_conn addr st)"
proof -
  let ?cs = "conns st @ [new_conn addr]"
  have "queues_ok s ?cs" if "queues_ok s (conns st)" for s
    using that by (force simp: queues_ok_def free_pending_def nth_append)
  then have "schedulers_ok m ?cs" if "schedulers_ok m (conns st)" for m using that unfolding schedulers_ok_def by blast
  then show ?thesis using assms by (auto simp: tracker_ok_def accept_conn_def nth_append new_conn_def less_Suc_eq)
qed

lemma tracker_reach_ok:
  assumes "env_ok env" and "tracker_reach env st"
  shows "tracker_ok st"
  using assms(2)
proof (induction rule: tracker_reach.induct)
  case (tracker_start key)
  show ?case by (simp add: tracker_ok_def tracker_init_def schedulers_ok_def)
next
  case (tracker_accepted st addr)
  then show ?case by (simp add: accept_conn_ok)
next
  case (tracker_greeted st c msg r st')
  then have "c < length (conns st)" by (simp add: tracker_ok_def)
  from keepsD [OF keeps_init_conn [OF this, of msg] tracker_greeted.IH refl] show ?case using tracker_greeted.hyps(3) by simp
next
  case (tracker_buffered st c data msize)
  then show ?case by (intro conn_mod_ok) simp_all
next
  case (tracker_handled st c args r st')
  then have "c < length (conns st)" by (simp add: tracker_ok_def)
  from call_handler_ok [OF assms(1) tracker_handled.IH this tracker_handled.hyps(3)] show ?case using tracker_handled.hyps(4) by simp
next
  case (tracker_closed st c r st')
  then have "c < length (conns st)" by (simp add: tracker_ok_def)
  from keepsD [OF keeps_conn_close [OF this] tracker_closed.IH refl] show ?case using tracker_closed.hyps(3) by simp
qed

text \<open>
  C18. In every reachable state, provided that servers announce fresh match keys, the set of
  connections holds exactly the open ones; no request waits while a resource of its key is free; every free
  resource is pending at its owner and free only once, so that it is handed out at
  most once; and a request with a numeric priority never raises.
\<close>

theorem tracker_safety:
  assumes "env_ok env" and "tracker_reach env st"
  shows "(\<forall>c. c \<in> set (connections st) \<longleftrightarrow> c < length (conns st) \<and> cn_open (conns st ! c))
    \<and> (\<forall>key s. map_of (scheduler_map st) key = Some s \<longrightarrow>
         (sched_requests s = [] \<or> sched_values s = []) \<and> distinct (map resource_key (sched_values s))
         \<and> (\<forall>v \<in> set (sched_values s). snd (resource_key v) \<in> set (pending_matchkeys (conns st ! fst v))
              \<and> (\<forall>key' s'. map_of (scheduler_map st) key' = Some s' \<and> key' \<noteq> key \<longrightarrow> resource_key v \<notin> resource_key ` set (sched_values s'))))
    \<and> (\<forall>c key user priority. c \<in> set (connections st) \<and> hashable key \<longrightarrow>
         fst (call_handler env c (OList [OInt (code_value REQUEST), key, user, OInt priority]) st) = Inr ())"
proof (intro conjI allI impI ballI)
  note ok = tracker_reach_ok [OF assms]
  show "c \<in> set (connections st) \<longleftrightarrow> c < length (conns st) \<and> cn_open (conns st ! c)" for c using ok by (simp add: tracker_ok_def)
  fix key s assume s: "map_of (scheduler_map st) key = Some s"
  note q = tracker_ok_queues [OF ok s]
  show "sched_requests s = [] \<or> sched_values s = []" "distinct (map resource_key (sched_values s))"
    using q by (auto simp: queues_ok_def)
  fix v assume v: "v \<in> set (sched_values s)"
  show "snd (resource_key v) \<in> set (pending_matchkeys (conns st ! fst v))" using q v by (simp add: queues_ok_def free_pending_def)
  fix key' s' assume "map_of (scheduler_map st) key' = Some s' \<and> key' \<noteq> key"
  then show "resource_key v \<notin> resource_key ` set (sched_values s')" using tracker_ok_disjoint [OF ok s, of key' s'] v by blast
next
  fix c key user priority assume "c \<in> set (connections st) \<and> hashable key"
  then show "fst (call_handler env c (OList [OInt (code_value REQUEST), key, user, OInt priority]) st) = Inr ()"
    using tracker_reach_ok [OF assms] by (intro request_returns) (auto simp: tracker_ok_def obj_num_def)
qed

section \<open>Priorities\<close>

definition live :: "conn list \<Rightarrow> sched_request list \<Rightarrow> sched_request list" where
  "live cs rs = filter (\<lambda>r. cn_open (cs ! snd r)) rs"

lemma pop_rest:
  assumes "is_heap fst rs" and "rs \<noteq> []" and "distinct (map (\<lambda>r. snd (fst r)) rs)"
  obtains item reqs where "heappop fst rs = Inr (item, reqs)" and "is_heap fst reqs" and "mset rs = add_mset item (mset reqs)"
    and "distinct (map (\<lambda>r. snd (fst r)) reqs)" and "\<forall>r \<in> set reqs. fst item < fst r"
proof -
  have "mset rs \<noteq> {#}" using assms(2) by simp
  from hq.pop_law [OF assms(1) this] obtain item reqs where pop: "heappop fst rs = Inr (item, reqs)" "is_heap fst reqs"
    "mset rs = add_mset item (mset reqs)" "\<forall>y \<in># mset rs. fst item \<le> fst y" by blast
  have "mset (map (\<lambda>r. snd (fst r)) rs) = mset (map (\<lambda>r. snd (fst r)) (item # reqs))" using pop(3) by simp
  then have d: "distinct (map (\<lambda>r. snd (fst r)) (item # reqs))" using assms(3) mset_eq_imp_distinct_iff by blast
  have "fst item < fst r" if r: "r \<in> set reqs" for r
  proof -
    have "fst item \<le> fst r" using pop(3,4) r by simp
    moreover have "snd (fst item) \<noteq> snd (fst r)" using d r by (metis (no_types, lifting) distinct.simps(2) image_eqI list.set_map list.simps(9))
    then have "fst item \<noteq> fst r" by auto
    ultimately show ?thesis by (rule order.not_eq_order_implies_strict [rotated])
  qed
  then show thesis using that pop d by simp
qed

lemma schedule_single:
  assumes "queues_ok s cs" and "sched_values s = [v]"
  shows "(live cs (sched_requests s) = [] \<longrightarrow> schedule s cs = (Inr (), s\<lparr>sched_requests := []\<rparr>, cs))
    \<and> (\<forall>r \<in> set (live cs (sched_requests s)). (\<forall>r' \<in> set (live cs (sched_requests s)). fst r \<le> fst r') \<longrightarrow>
         (\<exists>rs. schedule s cs = (Inr (), s\<lparr>sched_values := [], sched_requests := rs\<rparr>, grant v (snd r) cs)
            \<and> mset rs = {#r' \<in># mset (sched_requests s). fst r < fst r'#}))"
  using assms
proof (induction "length (sched_requests s)" arbitrary: s)
  case 0
  then show ?case by (simp add: live_def schedule_idle)
next
  case (Suc n)
  have q: "is_heap fst (sched_requests s)" "distinct (map (\<lambda>r. snd (fst r)) (sched_requests s))"
    "\<forall>r \<in> set (sched_requests s). snd r < length cs" "fst v < length cs" "snd (resource_key v) \<in> set (pending_matchkeys (cs ! fst v))"
    using Suc.prems by (auto simp: queues_ok_def free_pending_def)
  have ne: "sched_requests s \<noteq> []" using Suc.hyps(2) by auto
  obtain item reqs where pop: "heappop fst (sched_requests s) = Inr (item, reqs)" "is_heap fst reqs"
    "mset (sched_requests s) = add_mset item (mset reqs)" "distinct (map (\<lambda>r. snd (fst r)) reqs)" "\<forall>r \<in> set reqs. fst item < fst r"
    using pop_rest [OF q(1) ne q(2)] by blast
  have sets: "set (sched_requests s) = insert item (set reqs)" using pop(3) by (metis set_mset_add_mset_insert set_mset_mset)
  show ?case
  proof (cases "cn_open (cs ! snd item)")
    case True
    have mem: "item \<in> set (live cs (sched_requests s))" using True sets by (simp add: live_def)
    have run: "schedule s cs = (Inr (), s\<lparr>sched_values := [], sched_requests := reqs\<rparr>, grant v (snd item) cs)"
      using schedule_grant [OF pop(1) ne Suc.prems(2) True] q(3-5) sets by (simp add: schedule_idle)
    have "r = item" if "r \<in> set (live cs (sched_requests s))" "\<forall>r' \<in> set (live cs (sched_requests s)). fst r \<le> fst r'" for r
    proof (rule ccontr)
      assume "r \<noteq> item"
      then have "r \<in> set reqs" using that(1) sets by (auto simp: live_def)
      then have "fst item < fst r" using pop(5) by blast
      then show False using that(2) mem by (meson leD)
    qed
    moreover have "{#r' \<in># mset (sched_requests s). fst item < fst r'#} = mset reqs"
      using pop(5) unfolding pop(3) by (simp add: filter_mset_eq_conv)
    ultimately show ?thesis using run mem by (metis empty_iff empty_set)
  next
    case False
    let ?s = "s\<lparr>sched_values := [v], sched_requests := reqs\<rparr>"
    have "queues_ok ?s cs" using Suc.prems pop(2,4) sets by (auto simp: queues_ok_def)
    moreover have "n = length (sched_requests ?s)" using heappop_length [OF pop(1)] Suc.hyps(2) by simp
    ultimately have IH: "(live cs reqs = [] \<longrightarrow> schedule ?s cs = (Inr (), ?s\<lparr>sched_requests := []\<rparr>, cs))
      \<and> (\<forall>r \<in> set (live cs reqs). (\<forall>r' \<in> set (live cs reqs). fst r \<le> fst r') \<longrightarrow>
         (\<exists>rs. schedule ?s cs = (Inr (), ?s\<lparr>sched_values := [], sched_requests := rs\<rparr>, grant v (snd r) cs)
            \<and> mset rs = {#r' \<in># mset reqs. fst r < fst r'#}))"
      using Suc.hyps(1) [of ?s] by simp
    have lv: "set (live cs (sched_requests s)) = set (live cs reqs)" using False sets by (auto simp: live_def)
    have run: "schedule s cs = schedule ?s cs" using schedule_drop [OF pop(1) ne Suc.prems(2) False] by simp
    have drop: "{#r' \<in># mset (sched_requests s). fst r < fst r'#} = {#r' \<in># mset reqs. fst r < fst r'#}" if "r \<in> set (live cs reqs)" for r
      using that pop(5) unfolding pop(3) by (auto simp: live_def dest: order_less_asym)
    show ?thesis
    proof (intro conjI impI ballI)
      assume "live cs (sched_requests s) = []"
      then have "live cs reqs = []" using lv by (metis set_empty)
      then show "schedule s cs = (Inr (), s\<lparr>sched_requests := []\<rparr>, cs)" using IH run Suc.prems(2) by simp
    next
      fix r assume r: "r \<in> set (live cs (sched_requests s))" "\<forall>r' \<in> set (live cs (sched_requests s)). fst r \<le> fst r'"
      then show "\<exists>rs. schedule s cs = (Inr (), s\<lparr>sched_values := [], sched_requests := rs\<rparr>, grant v (snd r) cs)
            \<and> mset rs = {#r' \<in># mset (sched_requests s). fst r < fst r'#}"
        using IH drop run lv by simp
    qed
  qed
qed

text \<open>
  C19. A resource that is put while requests wait goes to the open connection with the highest priority,
  and among equal priorities to the earliest request (a request is ordered by the negated priority and
  its number). Requests of closed connections ahead of it are dropped, the others keep waiting. If
  every waiting connection is closed, the resource stays free.
\<close>

theorem put_serves_most_urgent:
  assumes "tracker_ok st" and "map_of (scheduler_map st) key = Some s" and "sched_requests s \<noteq> []"
    and "fst v < length (conns st)" and "snd (resource_key v) \<in> set (pending_matchkeys (conns st ! fst v))"
  shows "(live (conns st) (sched_requests s) = [] \<longrightarrow>
       sched_put v key st = (Inr (), st\<lparr>scheduler_map := AList.update key (s\<lparr>sched_values := [v], sched_requests := []\<rparr>) (scheduler_map st)\<rparr>))
    \<and> (\<forall>r \<in> set (live (conns st) (sched_requests s)). (\<forall>r' \<in> set (live (conns st) (sched_requests s)). fst r \<le> fst r') \<longrightarrow>
         (\<exists>rs. sched_put v key st = (Inr (), st\<lparr>conns := grant v (snd r) (conns st),
              scheduler_map := AList.update key (s\<lparr>sched_values := [], sched_requests := rs\<rparr>) (scheduler_map st)\<rparr>)
            \<and> mset rs = {#r' \<in># mset (sched_requests s). fst r < fst r'#}))"
proof -
  let ?s = "s\<lparr>sched_values := [v]\<rparr>"
  have q: "queues_ok s (conns st)" "sched_values s = []" using tracker_ok_queues [OF assms(1,2)] assms(3) by blast+
  then have "queues_ok ?s (conns st)" using assms(4,5) by (simp add: queues_ok_def free_pending_def)
  note single = schedule_single [OF this, of v]
  have put: "sched_put v key st = (case schedule ?s (conns st) of
      (r, s', cs) \<Rightarrow> (r, st\<lparr>conns := cs, scheduler_map := AList.update key s' (scheduler_map st)\<rparr>))"
    using assms(2) q(2) by (simp add: sched_put_def sched_run_def)
  show ?thesis
  proof (intro conjI impI ballI)
    assume "live (conns st) (sched_requests s) = []"
    then have "schedule ?s (conns st) = (Inr (), s\<lparr>sched_values := [v], sched_requests := []\<rparr>, conns st)" using single by simp
    then show "sched_put v key st = (Inr (), st\<lparr>scheduler_map :=
        AList.update key (s\<lparr>sched_values := [v], sched_requests := []\<rparr>) (scheduler_map st)\<rparr>)" by (simp add: put)
  next
    fix r assume "r \<in> set (live (conns st) (sched_requests s))" "\<forall>r' \<in> set (live (conns st) (sched_requests s)). fst r \<le> fst r'"
    then obtain rs where "schedule ?s (conns st) = (Inr (), s\<lparr>sched_values := [], sched_requests := rs\<rparr>, grant v (snd r) (conns st))"
      "mset rs = {#r' \<in># mset (sched_requests s). fst r < fst r'#}" using single by auto
    then show "\<exists>rs. sched_put v key st = (Inr (), st\<lparr>conns := grant v (snd r) (conns st),
              scheduler_map := AList.update key (s\<lparr>sched_values := [], sched_requests := rs\<rparr>) (scheduler_map st)\<rparr>)
            \<and> mset rs = {#r' \<in># mset (sched_requests s). fst r < fst r'#}"
      by (intro exI [of _ rs]) (simp add: put)
  qed
qed

definition two_waiting :: tracker where
  "two_waiting = \<lparr>conns = map new_conn [''server'', ''low'', ''high''], connections = [0, 1, 2],
     scheduler_map = [(OStr ''rpi'', \<lparr>request_cnt = 2, sched_values = [], sched_requests = [((-5, 1), 2), ((-1, 0), 1)]\<rparr>)],
     stop_key = ONone, tracker_running = True\<rparr>"

section \<open>Closed connections\<close>

text \<open>The key under which \<open>TrackerServerHandler.close\<close> looks for a resource: what stands before the colon of its match key.\<close>

definition rpc_key :: "resource \<Rightarrow> pyobj option" where
  "rpc_key v = (case snd (resource_key v) of OStr k \<Rightarrow> Some (OStr (hd (str_split CHR 0x3A k))) | _ \<Rightarrow> None)"

text \<open>
  What an operation may do to the queues: resources in \<open>E\<close> may join them, others may only leave; the records of what was put stay, and so do the schedulers. Every operation does,
  whether or not it raises.
\<close>

definition grows_by :: "(pyobj \<times> resource) set \<Rightarrow> tracker \<Rightarrow> tracker \<Rightarrow> bool" where
  "grows_by E st st' \<longleftrightarrow> map put_values (conns st') = map put_values (conns st)
     \<and> (\<forall>k. map_of (scheduler_map st) k \<noteq> None \<longrightarrow> map_of (scheduler_map st') k \<noteq> None)
     \<and> (\<forall>k s' v. map_of (scheduler_map st') k = Some s' \<longrightarrow> v \<in> set (sched_values s') \<longrightarrow>
          (k, v) \<in> E \<or> (\<exists>s. map_of (scheduler_map st) k = Some s \<and> v \<in> set (sched_values s)))"

definition adds :: "(pyobj \<times> resource) set \<Rightarrow> 'a tr \<Rightarrow> bool" where
  "adds E m \<longleftrightarrow> (\<forall>st. grows_by E st (snd (m st)))"

named_theorems adds_rules \<open>what operations add to the queues\<close>

lemma addsD: "adds E m \<Longrightarrow> grows_by E st (snd (m st))"
  by (simp add: adds_def)

lemma grows_by_refl [simp]: "grows_by E st st"
  by (auto simp: grows_by_def)

lemma grows_by_trans: "grows_by E a b \<Longrightarrow> grows_by E b c \<Longrightarrow> grows_by E a c"
  unfolding grows_by_def by metis

lemma grows_by_same: "map put_values (conns st') = map put_values (conns st) \<Longrightarrow> scheduler_map st' = scheduler_map st \<Longrightarrow> grows_by E st st'"
  by (auto simp: grows_by_def)

lemma adds_ret [adds_rules]: "adds E (tr_ret r)"
  by (simp add: adds_def tr_ret_def)

lemma adds_read [adds_rules]: "adds E (\<lambda>st. (r st, st))"
  by (simp add: adds_def)

lemma adds_bind [adds_rules]: "adds E m \<Longrightarrow> (\<And>x. adds E (f x)) \<Longrightarrow> adds E (tr_bind m f)"
  unfolding adds_def tr_bind_def by (auto split: prod.splits sum.splits intro: grows_by_trans)

lemma put_values_update:
  assumes "put_values cn = put_values (cs ! c)"
  shows "map put_values (cs[c := cn]) = map put_values cs"
proof (rule nth_equalityI)
  fix i assume "i < length (map put_values (cs[c := cn]))"
  then show "map put_values (cs[c := cn]) ! i = map put_values cs ! i" using assms by (cases "i = c") simp_all
qed simp

lemma adds_conn_mod [adds_rules]: "(\<And>cn. put_values (f cn) = put_values cn) \<Longrightarrow> adds E (tr_mod (conn_mod c f))"
  by (simp add: adds_def tr_mod_def conn_mod_def grows_by_same put_values_update)

lemma adds_ret_value [adds_rules]: "adds E (ret_value c x)"
proof -
  have "adds E (\<lambda>st. if cn_open (conns st ! c) then (Inr (), conn_mod c (reply x) st) else (Inl IOErr, st))"
    using adds_conn_mod [of "reply x" E c] by (simp add: adds_def tr_mod_def reply_def)
  then show ?thesis unfolding ret_value_def by (intro adds_rules)
qed

lemma adds_ret_code [adds_rules]: "adds E (ret_code c code)"
  by (simp add: ret_code_def adds_ret_value)

lemma schedule_shrinks:
  "schedule s cs = (r, s', cs') \<Longrightarrow> set (sched_values s') \<subseteq> set (sched_values s) \<and> map put_values cs' = map put_values cs"
proof (induction "length (sched_requests s)" arbitrary: s cs rule: less_induct)
  case (less s cs)
  show ?case
  proof (cases "sched_requests s \<noteq> [] \<and> sched_values s \<noteq> []")
    case False
    then show ?thesis using less.prems by (auto simp: schedule_idle)
  next
    case True
    show ?thesis
    proof (cases "heappop fst (sched_requests s)")
      case (Inl err)
      then show ?thesis using less.prems True by (subst (asm) schedule.simps) simp
    next
      case (Inr pop)
      obtain item reqs where pop: "pop = (item, reqs)" by fastforce
      obtain owner mkey where v: "resource_key (hd (sched_values s)) = (owner, mkey)" by fastforce
      have dec: "length reqs < length (sched_requests s)" using heappop_length [of fst "sched_requests s" item reqs] Inr pop by simp
      let ?cs1 = "cs[snd item := reply (OList [OInt (code_value SUCCESS), resource_reply (hd (sched_values s))]) (cs ! snd item)]"
      let ?cs2 = "?cs1[owner := (?cs1 ! owner)\<lparr>pending_matchkeys := remove1 mkey (pending_matchkeys (?cs1 ! owner))\<rparr>]"
      have cs1: "map put_values ?cs1 = map put_values cs" "map put_values ?cs2 = map put_values cs"
        by (simp_all add: put_values_update reply_def)
      have tl: "set (tl (sched_values s)) \<subseteq> set (sched_values s)" "set (tl (sched_values s) @ [hd (sched_values s)]) \<subseteq> set (sched_values s)"
        using True by (cases "sched_values s"; auto)+
      note step = less.prems [unfolded schedule.simps [of s cs]]
      show ?thesis
      proof (cases "cn_open (cs ! snd item)")
        case open_c: True
        show ?thesis
        proof (cases "mkey \<in> set (pending_matchkeys (?cs1 ! owner))")
          case pend: True
          then have "schedule (s\<lparr>sched_values := tl (sched_values s), sched_requests := reqs\<rparr>) ?cs2 = (r, s', cs')"
            using step True Inr pop v open_c by (simp add: Let_def)
          from less.hyps [OF _ this] show ?thesis using dec cs1 tl by auto
        next
          case False
          then have "s' = s\<lparr>sched_values := tl (sched_values s), sched_requests := reqs\<rparr>" "cs' = ?cs1"
            using step True Inr pop v open_c by (simp_all add: Let_def)
          then show ?thesis using cs1 tl by simp
        qed
      next
        case closed: False
        then have "schedule (s\<lparr>sched_values := tl (sched_values s) @ [hd (sched_values s)], sched_requests := reqs\<rparr>) cs = (r, s', cs')"
          using step True Inr pop v by (simp add: Let_def)
        from less.hyps [OF _ this] show ?thesis using dec tl by auto
      qed
    qed
  qed
qed

lemma adds_sched_run:
  assumes "\<And>s. set (sched_values (f s)) \<subseteq> set (sched_values s) \<union> {v. (key, v) \<in> E}"
  shows "adds E (sched_run f key)"
proof -
  have "grows_by E st (snd (sched_run f key st))" for st
  proof (cases "map_of (scheduler_map st) key")
    case None
    then show ?thesis by (simp add: sched_run_def)
  next
    case (Some s)
    obtain r s' cs' where run: "schedule (f s) (conns st) = (r, s', cs')" by (metis prod_cases3)
    then show ?thesis using Some assms [of s] schedule_shrinks [OF run]
      by (fastforce simp: sched_run_def grows_by_def update_conv')
  qed
  then show ?thesis by (simp add: adds_def)
qed

lemma adds_create_scheduler [adds_rules]: "adds E (create_scheduler key)"
  by (auto simp: adds_def create_scheduler_def grows_by_def map_add_def split: option.splits if_splits)

lemma adds_sched_request [adds_rules]: "adds E (sched_request p c key)"
  unfolding sched_request_def by (rule adds_sched_run) simp

lemma adds_sched_remove [adds_rules]: "adds E (sched_remove v key)"
proof -
  have "adds E (sched_run (\<lambda>s. s\<lparr>sched_values := remove1 v (sched_values s)\<rparr>) key)"
    by (rule adds_sched_run) (auto dest: notin_set_remove1 set_remove1_subset [THEN subsetD])
  then show ?thesis by (simp add: adds_def sched_remove_def split: option.split)
qed

lemma adds_tracker_put: "adds {(key, v)} (tracker_put key v)"
  unfolding tracker_put_def sched_put_def by (intro adds_rules adds_sched_run) auto

lemma adds_remove_values [adds_rules]: "adds E (remove_values vs)"
  by (induction vs) (auto intro!: adds_rules)

lemma adds_conn_close [adds_rules]: "adds E (conn_close c)"
proof -
  have "adds E (\<lambda>st. if c \<in> set (connections st) then (Inr (), st\<lparr>connections := remove1 c (connections st)\<rparr>) else (Inl KeyError, st))"
    by (simp add: adds_def grows_by_same)
  moreover have "adds E (\<lambda>st. if map_of (cn_info (conns st ! c)) ''key'' \<noteq> None then remove_values (put_values (conns st ! c)) st else (Inr (), st))"
    using adds_remove_values [of E] by (simp add: adds_def)
  ultimately have "adds E (tracker_close c)" unfolding tracker_close_def by (intro adds_bind)
  moreover have "grows_by E st (conn_mod c (\<lambda>cn. cn\<lparr>cn_open := False\<rparr>) st)" for st by (simp add: conn_mod_def grows_by_same put_values_update)
  ultimately show ?thesis unfolding adds_def conn_close_def using grows_by_trans by simp blast
qed

lemma adds_tracker_stop [adds_rules]: "adds E (tracker_stop env)"
proof -
  have "adds E (close_all cs)" for cs by (induction cs) (auto intro!: adds_rules)
  moreover have "adds E (tr_mod (\<lambda>st. st\<lparr>tracker_running := False\<rparr>))" by (simp add: adds_def tr_mod_def grows_by_same)
  ultimately have "adds E (tr_bind (close_all cs) (\<lambda>_. tr_mod (\<lambda>st. st\<lparr>tracker_running := False\<rparr>)))" for cs by (intro adds_rules)
  then show ?thesis by (simp add: adds_def tracker_stop_def)
qed

lemma adds_init_conn: "adds E (init_conn c msg)"
  unfolding init_conn_def by (auto intro!: adds_rules)

text \<open>All messages but a \<open>PUT\<close>.\<close>

lemma adds_call_handler:
  assumes "json_get args 0 = Inr code" and "\<not> equals_int code (code_value PUT)"
  shows "adds {} (call_handler env c args)"
proof -
  have req: "adds {} (handle_request c args)" unfolding handle_request_def tracker_request_def by (intro adds_rules)
  have read: "adds {} (\<lambda>st. ret_value c (OList (iter_keys env (pending_matchkeys (conns st ! c)))) st)"
    using adds_ret_value [of "{}" c] by (simp add: adds_def)
  have stp: "adds {} (handle_stop env c args)"
  proof -
    have "adds {} (tr_bind (ret_code c SUCCESS) (\<lambda>_. tracker_stop env))" by (intro adds_rules)
    then have "adds {} (\<lambda>st. if stop_key st = key then tr_bind (ret_code c SUCCESS) (\<lambda>_. tracker_stop env) st else ret_code c FAIL st)" for key
      using adds_ret_code [of "{}" c FAIL] by (simp add: adds_def)
    then show ?thesis unfolding handle_stop_def by (intro adds_rules)
  qed
  have upd: "adds {} (handle_update_info c args)" unfolding handle_update_info_def by (intro adds_rules) simp_all
  have smr: "adds {} (tr_bind (\<lambda>st. (tracker_summary env st, st)) (\<lambda>status. ret_value c (OList [OInt (code_value SUCCESS), status])))"
    by (intro adds_rules)
  show ?thesis unfolding call_handler_def assms(1) tr_bind_ret using assms(2) req read stp upd smr by (auto intro: adds_rules)
qed

text \<open>
  The servers put a resource under the key that its match key starts with, as \<open>rpc/server.py\<close> does. Then every free resource is recorded with the connection that put it, under
  the key of its queue, and every recorded resource has a scheduler.
\<close>

definition puts_ok :: "tracker \<Rightarrow> bool" where
  "puts_ok st \<longleftrightarrow> (\<forall>k s v. map_of (scheduler_map st) k = Some s \<longrightarrow> v \<in> set (sched_values s) \<longrightarrow>
       fst v < length (conns st) \<and> v \<in> set (put_values (conns st ! fst v)) \<and> rpc_key v = Some k)
     \<and> (\<forall>c < length (conns st). \<forall>v \<in> set (put_values (conns st ! c)). fst v = c \<and> (\<exists>k. rpc_key v = Some k \<and> map_of (scheduler_map st) k \<noteq> None))"

definition keyed_put :: "pyobj \<Rightarrow> bool" where
  "keyed_put args \<longleftrightarrow>
     (case (json_get args 1, res_bind (json_get args 2) obj_iter) of
        (Inr key, Inr [port, mkey]) \<Rightarrow> (case mkey of OStr k \<Rightarrow> key = OStr (hd (str_split CHR 0x3A k)) | _ \<Rightarrow> False)
      | _ \<Rightarrow> True)"

definition proper_message :: "nat \<Rightarrow> pyobj \<Rightarrow> tracker \<Rightarrow> bool" where
  "proper_message c args st \<longleftrightarrow> (case json_get args 0 of Inl e \<Rightarrow> True
     | Inr code \<Rightarrow> equals_int code (code_value PUT) \<longrightarrow> fresh_put c args st \<and> keyed_put args)"

lemma puts_okD: "puts_ok st \<Longrightarrow> map_of (scheduler_map st) k = Some s \<Longrightarrow> v \<in> set (sched_values s) \<Longrightarrow>
    fst v < length (conns st) \<and> v \<in> set (put_values (conns st ! fst v)) \<and> rpc_key v = Some k"
  unfolding puts_ok_def by blast

lemma puts_okD2: "puts_ok st \<Longrightarrow> c < length (conns st) \<Longrightarrow> v \<in> set (put_values (conns st ! c)) \<Longrightarrow>
    fst v = c \<and> (\<exists>k. rpc_key v = Some k \<and> map_of (scheduler_map st) k \<noteq> None)"
  unfolding puts_ok_def by blast

lemma puts_ok_shrinks:
  assumes "puts_ok st" and "grows_by {} st st'"
  shows "puts_ok st'"
proof -
  have p: "map put_values (conns st') = map put_values (conns st)" using assms(2) by (simp add: grows_by_def)
  then have len: "length (conns st') = length (conns st)" by (metis length_map)
  have nth: "put_values (conns st' ! c) = put_values (conns st ! c)" if "c < length (conns st)" for c
    using p that len by (metis nth_map)
  show ?thesis
    unfolding puts_ok_def
  proof (intro conjI allI impI ballI)
    fix k s' v assume "map_of (scheduler_map st') k = Some s'" "v \<in> set (sched_values s')"
    then obtain s where "map_of (scheduler_map st) k = Some s" "v \<in> set (sched_values s)" using assms(2) unfolding grows_by_def by blast
    then show "fst v < length (conns st')" "v \<in> set (put_values (conns st' ! fst v))" "rpc_key v = Some k"
      using puts_okD [OF assms(1), of k s v] len nth by auto
  next
    fix c v assume "c < length (conns st')" "v \<in> set (put_values (conns st' ! c))"
    then obtain k where "fst v = c" "rpc_key v = Some k" "map_of (scheduler_map st) k \<noteq> None" using puts_okD2 [OF assms(1), of c v] len nth by auto
    then show "fst v = c" "\<exists>k. rpc_key v = Some k \<and> map_of (scheduler_map st') k \<noteq> None" using assms(2) unfolding grows_by_def by metis+
  qed
qed

lemma handle_put_puts:
  assumes "tracker_ok st" and "puts_ok st" and "c < length (conns st)" and "fresh_put c args st" and "keyed_put args"
  shows "puts_ok (snd (handle_put c args st))"
proof (cases rule: handle_put_cases [of c args st])
  case failed
  then show ?thesis using assms(2) by simp
next
  case (no_custom mkey)
  show ?thesis
    unfolding no_custom by (rule puts_ok_shrinks [OF assms(2)]) (simp add: mark_pending_def conn_mod_def grows_by_same put_values_update)
next
  case (stored key port mkey v)
  let ?st = "mark_pending c mkey st"
  note new = fresh_put_new [OF assms(1,3,4) stored(2)]
  have v: "fst v = c" "snd (resource_key v) = mkey" using stored(3) by (metis fst_conv resource_key_fst) (simp add: stored(3))
  obtain k where k: "mkey = OStr k" "key = OStr (hd (str_split CHR 0x3A k))"
    using assms(5) stored(1,2) by (auto simp: keyed_put_def split: pyobj.splits)
  then have rk: "rpc_key v = Some key" by (simp add: rpc_key_def v)
  have st: "puts_ok ?st"
    by (rule puts_ok_shrinks [OF assms(2)]) (simp add: mark_pending_def conn_mod_def grows_by_same put_values_update)
  have "fst (tracker_put key v ?st) = Inr () \<and> map_of (scheduler_map (snd (tracker_put key v ?st))) key \<noteq> None"
    by (rule tracker_put_ok(2) [OF new(1)]) (use new(2-5) v assms(3) k stored(3) in simp_all)
  then obtain st1 where st1: "tracker_put key v ?st = (Inr (), st1)" "map_of (scheduler_map st1) key \<noteq> None"
    by (cases "tracker_put key v ?st") simp
  have g: "grows_by {(key, v)} ?st st1" using addsD [OF adds_tracker_put, of key v ?st] st1(1) by simp
  then have p: "map put_values (conns st1) = map put_values (conns ?st)" by (simp add: grows_by_def)
  then have len: "length (conns st1) = length (conns st)" using new(2) by (metis length_map)
  have nth: "put_values (conns st1 ! d) = put_values (conns ?st ! d)" if "d < length (conns st)" for d
    using p that len new(2) by (metis nth_map)
  let ?st2 = "conn_mod c (\<lambda>cn. cn\<lparr>put_values := put_values cn @ [v]\<rparr>) st1"
  have pv: "set (put_values (conns ?st2 ! d)) = set (put_values (conns ?st ! d)) \<union> (if d = c then {v} else {})" if "d < length (conns st)" for d
    using nth [OF that] that len assms(3) by (auto simp: conn_mod_def nth_list_update)
  have "puts_ok ?st2"
    unfolding puts_ok_def
  proof (intro conjI allI impI ballI)
    fix k' s' w assume s': "map_of (scheduler_map ?st2) k' = Some s'" and w: "w \<in> set (sched_values s')"
    have "map_of (scheduler_map st1) k' = Some s'" using s' by (simp add: conn_mod_def)
    then have "(k', w) \<in> {(key, v)} \<or> (\<exists>s. map_of (scheduler_map ?st) k' = Some s \<and> w \<in> set (sched_values s))"
      using g w unfolding grows_by_def by blast
    then have "fst w < length (conns st) \<and> (w = v \<or> w \<in> set (put_values (conns ?st ! fst w))) \<and> rpc_key w = Some k'"
    proof
      assume "\<exists>s. map_of (scheduler_map ?st) k' = Some s \<and> w \<in> set (sched_values s)"
      then show ?thesis using puts_okD [OF st, of k' _ w] new(2) by metis
    qed (use v(1) rk assms(3) in simp)
    then show "fst w < length (conns ?st2)" "w \<in> set (put_values (conns ?st2 ! fst w))" "rpc_key w = Some k'"
      using pv [of "fst w"] v(1) len by (auto simp: conn_mod_def)
  next
    fix d w assume d: "d < length (conns ?st2)" and w: "w \<in> set (put_values (conns ?st2 ! d))"
    then have "d < length (conns st)" by (simp add: conn_mod_def len)
    then have "w = v \<and> d = c \<or> w \<in> set (put_values (conns ?st ! d))" using pv [of d] w by (auto split: if_splits)
    then have "fst w = d \<and> (\<exists>k'. rpc_key w = Some k' \<and> map_of (scheduler_map st1) k' \<noteq> None)"
    proof
      assume "w \<in> set (put_values (conns ?st ! d))"
      then obtain k' where "fst w = d" "rpc_key w = Some k'" "map_of (scheduler_map ?st) k' \<noteq> None"
        using puts_okD2 [OF st, of d w] \<open>d < length (conns st)\<close> new(2) by auto
      then show ?thesis using g unfolding grows_by_def by blast
    qed (use rk st1(2) v(1) in blast)
    then show "fst w = d" "\<exists>k'. rpc_key w = Some k' \<and> map_of (scheduler_map ?st2) k' \<noteq> None" by (simp_all add: conn_mod_def)
  qed
  moreover have "snd (handle_put c args st) = snd (ret_code c SUCCESS ?st2)"
    unfolding stored(4) by (simp add: tr_bind_def st1(1) tr_mod_def)
  ultimately show ?thesis using puts_ok_shrinks [OF _ addsD [OF adds_ret_code]] by simp
qed

text \<open>The events of the tracker when the servers put their resources like this.\<close>

inductive keyed_reach :: "tracker_env \<Rightarrow> tracker \<Rightarrow> bool" for env where
  keyed_start: "keyed_reach env (tracker_init key)"
| keyed_accepted: "keyed_reach env st \<Longrightarrow> keyed_reach env (accept_conn addr st)"
| keyed_greeted: "keyed_reach env st \<Longrightarrow> c \<in> set (connections st) \<Longrightarrow> init_conn c msg st = (r, st') \<Longrightarrow> keyed_reach env st'"
| keyed_buffered: "keyed_reach env st \<Longrightarrow> c \<in> set (connections st) \<Longrightarrow>
    keyed_reach env (conn_mod c (\<lambda>cn. cn\<lparr>cn_data := data, cn_msg_size := msize\<rparr>) st)"
| keyed_handled: "keyed_reach env st \<Longrightarrow> c \<in> set (connections st) \<Longrightarrow> proper_message c args st \<Longrightarrow>
    call_handler env c args st = (r, st') \<Longrightarrow> keyed_reach env st'"
| keyed_closed: "keyed_reach env st \<Longrightarrow> c \<in> set (connections st) \<Longrightarrow> conn_close c st = (r, st') \<Longrightarrow> keyed_reach env st'"

lemma call_handler_keyed:
  assumes "env_ok env" and ok: "tracker_ok st" "puts_ok st" and c: "c < length (conns st)" and msg: "proper_message c args st"
  shows "tracker_ok (snd (call_handler env c args st)) \<and> puts_ok (snd (call_handler env c args st))"
proof
  show "tracker_ok (snd (call_handler env c args st))"
    by (rule call_handler_ok [OF assms(1) ok(1) c, THEN conjunct1]) (use msg in \<open>simp add: proper_message_def\<close>)
  show "puts_ok (snd (call_handler env c args st))"
  proof (cases "json_get args 0")
    case (Inl err)
    then show ?thesis using ok(2) by (simp add: call_handler_def tr_ret_def)
  next
    case (Inr code)
    show ?thesis
    proof (cases "equals_int code (code_value PUT)")
      case True
      then show ?thesis using handle_put_puts [OF ok c] msg Inr by (simp add: call_handler_def proper_message_def)
    next
      case False
      from puts_ok_shrinks [OF ok(2) addsD [OF adds_call_handler [OF Inr False]]] show ?thesis .
    qed
  qed
qed

lemma accept_conn_puts: "puts_ok st \<Longrightarrow> puts_ok (accept_conn addr st)"
  by (fastforce simp: puts_ok_def accept_conn_def nth_append new_conn_def less_Suc_eq)

lemma keyed_reach_ok:
  assumes "env_ok env" and "keyed_reach env st"
  shows "tracker_ok st \<and> puts_ok st"
  using assms(2)
proof (induction rule: keyed_reach.induct)
  case (keyed_start key)
  show ?case by (simp add: tracker_ok_def tracker_init_def schedulers_ok_def puts_ok_def)
next
  case (keyed_accepted st addr)
  then show ?case by (simp add: accept_conn_ok accept_conn_puts)
next
  case (keyed_greeted st c msg r st')
  then have "c < length (conns st)" by (simp add: tracker_ok_def)
  then show ?case using keepsD [OF keeps_init_conn, of c _ st msg] addsD [OF adds_init_conn, of "{}" st c msg] keyed_greeted puts_ok_shrinks by fastforce
next
  case (keyed_buffered st c msize data)
  have "puts_ok (conn_mod c (\<lambda>cn. cn\<lparr>cn_data := data, cn_msg_size := msize\<rparr>) st)"
    by (rule puts_ok_shrinks [of st]) (use keyed_buffered.IH in \<open>simp_all add: conn_mod_def grows_by_same put_values_update\<close>)
  then show ?case using keyed_buffered.IH by (simp add: conn_mod_ok)
next
  case (keyed_handled st c args r st')
  then have "c < length (conns st)" by (simp add: tracker_ok_def)
  then show ?case using call_handler_keyed [OF assms(1), of st c args] keyed_handled by simp
next
  case (keyed_closed st c r st')
  then have "c < length (conns st)" by (simp add: tracker_ok_def)
  then show ?case using keepsD [OF keeps_conn_close, of c _ st] addsD [OF adds_conn_close, of "{}" st c] keyed_closed puts_ok_shrinks by fastforce
qed

text \<open>Removing resources: no request waits while a resource is free, so nothing else moves.\<close>

definition withdraw :: "(resource \<Rightarrow> pyobj \<Rightarrow> bool) \<Rightarrow> tracker \<Rightarrow> tracker \<Rightarrow> bool" where
  "withdraw P st st' \<longleftrightarrow> conns st' = conns st
     \<and> (\<forall>k. map_of (scheduler_map st') k = map_option (\<lambda>s. s\<lparr>sched_values := filter (\<lambda>v. \<not> P v k) (sched_values s)\<rparr>) (map_of (scheduler_map st) k))"

definition calm :: "tracker \<Rightarrow> bool" where
  "calm st \<longleftrightarrow> (\<forall>k s. map_of (scheduler_map st) k = Some s \<longrightarrow> distinct (sched_values s) \<and> (sched_requests s = [] \<or> sched_values s = []))"

lemma calm_withdraw: "calm st \<Longrightarrow> withdraw P st st' \<Longrightarrow> calm st'"
  by (fastforce simp: calm_def withdraw_def)

lemma sched_remove_calm:
  assumes "calm st" and "map_of (scheduler_map st) key = Some s"
  shows "\<exists>st'. sched_remove v key st = (Inr (), st') \<and> withdraw (\<lambda>w k. w = v \<and> k = key) st st'"
proof (cases "v \<in> set (sched_values s)")
  case True
  have "distinct (sched_values s)" "sched_requests s = [] \<or> sched_values s = []" using assms unfolding calm_def by blast+
  then have s: "distinct (sched_values s)" "sched_requests s = []" using True by auto
  then have "remove1 v (sched_values s) = filter (\<lambda>w. w \<noteq> v) (sched_values s)" 
    by (simp add: distinct_remove1_removeAll removeAll_filter_not_eq) (rule filter_cong, auto)
  then show ?thesis using assms(2) True s
    by (auto simp: sched_remove_def sched_run_def schedule_idle withdraw_def update_conv' option.map_ident_strong)
next
  case False
  then have "filter (\<lambda>w. \<not> (w = v \<and> k = key)) (sched_values t) = sched_values t" if "map_of (scheduler_map st) k = Some t" for k t
    using that assms(2) by (intro filter_True) auto
  then have "withdraw (\<lambda>w k. w = v \<and> k = key) st st"
    unfolding withdraw_def
  proof (intro conjI allI refl)
    fix k
    show "map_of (scheduler_map st) k = map_option (\<lambda>t. t\<lparr>sched_values := filter (\<lambda>w. \<not> (w = v \<and> k = key)) (sched_values t)\<rparr>) (map_of (scheduler_map st) k)"
      using \<open>\<And>t k. map_of (scheduler_map st) k = Some t \<Longrightarrow> filter (\<lambda>w. \<not> (w = v \<and> k = key)) (sched_values t) = sched_values t\<close>
      by (cases "map_of (scheduler_map st) k") simp_all
  qed
  then show ?thesis using assms(2) False by (auto simp: sched_remove_def)
qed

lemma remove_values_calm:
  assumes "calm st" and "\<forall>v \<in> set vs. \<exists>k. rpc_key v = Some k \<and> map_of (scheduler_map st) k \<noteq> None"
  shows "\<exists>st'. remove_values vs st = (Inr (), st') \<and> withdraw (\<lambda>v k. v \<in> set vs \<and> rpc_key v = Some k) st st'"
  using assms
proof (induction vs arbitrary: st)
  case Nil
  then show ?case by (auto simp: tr_ret_def withdraw_def intro!: option.map_ident_strong [symmetric])
next
  case (Cons v vs)
  obtain k s where k: "rpc_key v = Some k" "map_of (scheduler_map st) k = Some s" using Cons.prems(2) by auto
  obtain st1 where st1: "sched_remove v k st = (Inr (), st1)" "withdraw (\<lambda>w k'. w = v \<and> k' = k) st st1"
    using sched_remove_calm [OF Cons.prems(1) k(2)] by blast
  have "\<forall>w \<in> set vs. \<exists>k. rpc_key w = Some k \<and> map_of (scheduler_map st1) k \<noteq> None" using Cons.prems(2) st1(2) by (auto simp: withdraw_def)
  from Cons.IH [OF calm_withdraw [OF Cons.prems(1) st1(2)] this] obtain st' where st': "remove_values vs st1 = (Inr (), st')"
    "withdraw (\<lambda>v k. v \<in> set vs \<and> rpc_key v = Some k) st1 st'" by blast
  obtain kk where kk: "snd (resource_key v) = OStr kk" "k = OStr (hd (str_split CHR 0x3A kk))"
    using k(1) by (auto simp: rpc_key_def split: pyobj.splits)
  have "remove_values (v # vs) st = (Inr (), st')" using st1(1) st'(1) kk by (simp add: tr_bind_step)
  moreover have merge: "filter (\<lambda>w. \<not> (w \<in> set vs \<and> rpc_key w = Some k')) (filter (\<lambda>w. \<not> (w = v \<and> k' = k)) xs)
      = filter (\<lambda>w. \<not> (w \<in> set (v # vs) \<and> rpc_key w = Some k')) xs" for k' xs
    unfolding filter_filter by (rule filter_cong) (use k(1) in auto)
  have "withdraw (\<lambda>w k. w \<in> set (v # vs) \<and> rpc_key w = Some k) st st'"
    unfolding withdraw_def
  proof (intro conjI allI)
    show "conns st' = conns st" using st1(2) st'(2) by (simp add: withdraw_def)
    fix k'
    have 1: "map_of (scheduler_map st1) k' = map_option (\<lambda>s. s\<lparr>sched_values := filter (\<lambda>w. \<not> (w = v \<and> k' = k)) (sched_values s)\<rparr>) (map_of (scheduler_map st) k')"
      "map_of (scheduler_map st') k' = map_option (\<lambda>s. s\<lparr>sched_values := filter (\<lambda>w. \<not> (w \<in> set vs \<and> rpc_key w = Some k')) (sched_values s)\<rparr>) (map_of (scheduler_map st1) k')"
      using st1(2) st'(2) unfolding withdraw_def by blast+
    show "map_of (scheduler_map st') k' = map_option (\<lambda>s. s\<lparr>sched_values := filter (\<lambda>w. \<not> (w \<in> set (v # vs) \<and> rpc_key w = Some k')) (sched_values s)\<rparr>) (map_of (scheduler_map st) k')"
      using merge [of k'] unfolding 1(2) 1(1) by (cases "map_of (scheduler_map st) k'") (simp_all del: filter_filter)
  qed
  ultimately show ?case by blast
qed

text \<open>
  C20. When a server disconnects that has reported its \<open>key\<close>, none of its resources remains free and nothing else changes. In every state that is reachable while each
  server puts its resources under the key that their match keys start with and announces a match key that is not pending (what \<open>rpc/server.py\<close> does, with
  \<open>key + ":" + a random number\<close>), closing its connection raises nothing; it closes it, and takes exactly the resources it has put out of every queue, while the
  requests and the resources of the others stay as they are. (With another match key, or before the server has reported its key, this fails: \<open>close\<close> looks up a
  scheduler by the prefix of the match key, and only when \<open>"key" in conn._info\<close>.)
\<close>

theorem close_withdraws_resources:
  assumes "env_ok env" and "keyed_reach env st" and "c \<in> set (connections st)" and "map_of (cn_info (conns st ! c)) ''key'' \<noteq> None"
  shows "\<exists>st'. conn_close c st = (Inr (), st') \<and> conns st' = (conns st)[c := (conns st ! c)\<lparr>cn_open := False\<rparr>]
    \<and> (\<forall>k. map_of (scheduler_map st') k = map_option (\<lambda>s. s\<lparr>sched_values := filter (\<lambda>v. fst v \<noteq> c) (sched_values s)\<rparr>) (map_of (scheduler_map st) k))"
proof -
  have ok: "tracker_ok st" "puts_ok st" using keyed_reach_ok [OF assms(1,2)] by auto
  let ?st = "conn_mod c (\<lambda>cn. cn\<lparr>cn_open := False\<rparr>) st\<lparr>connections := remove1 c (connections st)\<rparr>"
  have c: "c < length (conns st)" "cn_open (conns st ! c)" using ok(1) assms(3) by (auto simp: tracker_ok_def)
  have same: "put_values (conns ?st ! c) = put_values (conns st ! c)" "cn_info (conns ?st ! c) = cn_info (conns st ! c)"
    "scheduler_map ?st = scheduler_map st" using c(1) by (simp_all add: conn_mod_def)
  have run: "conn_close c st = remove_values (put_values (conns st ! c)) ?st"
    using c assms(3,4) same by (simp add: conn_close_def tracker_close_def tr_bind_def conn_mod_def)
  have "calm ?st" using tracker_ok_queues [OF ok(1)] by (auto simp: calm_def same queues_ok_def distinct_map)
  moreover have "\<forall>v \<in> set (put_values (conns st ! c)). \<exists>k. rpc_key v = Some k \<and> map_of (scheduler_map ?st) k \<noteq> None"
    using puts_okD2 [OF ok(2) c(1)] same(3) by metis
  ultimately obtain st' where st': "remove_values (put_values (conns st ! c)) ?st = (Inr (), st')"
    "withdraw (\<lambda>v k. v \<in> set (put_values (conns st ! c)) \<and> rpc_key v = Some k) ?st st'" using remove_values_calm by blast
  have "filter (\<lambda>v. v \<in> set (put_values (conns st ! c)) \<longrightarrow> rpc_key v \<noteq> Some k) (sched_values s) = filter (\<lambda>v. fst v \<noteq> c) (sched_values s)"
    if s: "map_of (scheduler_map st) k = Some s" for k s
  proof (rule filter_cong [OF refl])
    fix v assume v: "v \<in> set (sched_values s)"
    show "(v \<in> set (put_values (conns st ! c)) \<longrightarrow> rpc_key v \<noteq> Some k) = (fst v \<noteq> c)"
      using puts_okD [OF ok(2) s v] puts_okD2 [OF ok(2) c(1), of v] by auto
  qed
  then have "map_of (scheduler_map st') k = map_option (\<lambda>s. s\<lparr>sched_values := filter (\<lambda>v. fst v \<noteq> c) (sched_values s)\<rparr>) (map_of (scheduler_map st) k)" for k
    using st'(2) by (cases "map_of (scheduler_map st) k") (simp_all add: withdraw_def same(3))
  then show ?thesis using run st' by (simp add: withdraw_def conn_mod_def)
qed

section \<open>Framing\<close>

definition payload_ok :: "bytes \<Rightarrow> bool" where
  "payload_ok p \<longleftrightarrow> p \<noteq> [] \<and> length p < 2 ^ 31"

definition frame :: "bytes \<Rightarrow> bytes" where
  "frame p = projr (pack_i32 (int (length p))) @ p"

definition store :: "nat \<Rightarrow> bytes \<Rightarrow> int \<Rightarrow> unit tr" where
  "store c data msize = tr_mod (conn_mod c (\<lambda>cn. cn\<lparr>cn_data := data, cn_msg_size := msize\<rparr>))"

text \<open>The size that the loop has read from an unfinished frame.\<close>

definition size_read :: "bytes \<Rightarrow> int" where
  "size_read rest = (if length rest < 4 then 0 else projr (unpack_i32 (take 4 rest)))"

text \<open>What a connection is to do with complete messages followed by an unfinished one.\<close>

fun serve :: "tracker_env \<Rightarrow> nat \<Rightarrow> bytes list \<Rightarrow> bytes \<Rightarrow> unit tr" where
  "serve env c [] rest = store c rest (size_read rest)"
| "serve env c (p # ps) rest =
     tr_bind (store c (concat (map frame ps) @ rest) 0) (\<lambda>_.
     tr_bind (tr_ret (json_loads env p)) (\<lambda>args.
     tr_bind (call_handler env c args) (\<lambda>_. serve env c ps rest)))"

lemma frame_head:
  assumes "payload_ok p"
  shows "take 4 (frame p @ xs) = projr (pack_i32 (int (length p)))" "length (frame p) = 4 + length p"
    "unpack_i32 (take 4 (frame p @ xs)) = Inr (int (length p))" "drop 4 (frame p) = p"
proof -
  obtain h where h: "pack_i32 (int (length p)) = Inr h" using assms by (auto simp: payload_ok_def pack_i32_def)
  have "length h = 4" using pack_i32_length [OF h] .
  then show "take 4 (frame p @ xs) = projr (pack_i32 (int (length p)))" "length (frame p) = 4 + length p"
    "unpack_i32 (take 4 (frame p @ xs)) = Inr (int (length p))" "drop 4 (frame p) = p"
    using h unpack_pack_i32 [OF h] by (simp_all add: frame_def)
qed

lemma unpack_i32_total: "length bs = 4 \<Longrightarrow> \<exists>z. unpack_i32 bs = Inr z"
  by (auto simp: unpack_i32_def Let_def eval_nat_numeral length_Suc_conv)

definition unfinished :: "bytes \<Rightarrow> bool" where
  "unfinished rest \<longleftrightarrow> length rest < 4 \<or> (0 < size_read rest \<and> int (length rest) < size_read rest + 4)"

lemma message_loop_next:
  assumes "4 + n \<le> length data" and "0 < n" and "unpack_i32 (take 4 data) = Inr (int n)"
  shows "message_loop env c data 0 st =
    (let st1 = conn_mod c (\<lambda>cn. cn\<lparr>cn_data := drop (4 + n) data, cn_msg_size := 0\<rparr>) st
     in case json_loads env (drop 4 (take (4 + n) data)) of
          Inl err \<Rightarrow> (Inl err, st1)
        | Inr args \<Rightarrow> (case call_handler env c args st1 of
             (Inl err, st2) \<Rightarrow> (Inl err, st2) | (Inr u, st2) \<Rightarrow> message_loop env c (drop (4 + n) data) 0 st2))"
proof -
  have "cut_at data (4 + int n) = 4 + n" by (simp add: cut_at_def)
  moreover have "drop 4 (take (4 + n) data) \<noteq> []" using assms(1,2) by simp
  ultimately show ?thesis using assms by (subst message_loop.simps) (simp add: Let_def)
qed

lemma message_loop_serve:
  assumes "list_all payload_ok ps" and "unfinished rest"
  shows "message_loop env c (concat (map frame ps) @ rest) 0 st = serve env c ps rest st"
  using assms(1)
proof (induction ps arbitrary: st)
  case Nil
  show ?case
  proof (cases "length rest < 4")
    case True
    then show ?thesis by (subst message_loop.simps) (simp add: size_read_def store_def tr_mod_def)
  next
    case False
    then have "\<not> size_read rest + 4 \<le> int (length rest)" "size_read rest = projr (unpack_i32 (take 4 rest))"
      using assms(2) by (auto simp: unfinished_def size_read_def)
    then show ?thesis using False by (subst message_loop.simps) (simp add: store_def tr_mod_def Let_def)
  qed
next
  case (Cons p ps)
  let ?more = "concat (map frame ps) @ rest"
  have p: "payload_ok p" and ne: "p \<noteq> []" "0 < length p" using Cons.prems by (auto simp: payload_ok_def)
  note head = frame_head [OF p]
  have cut: "take (4 + length p) (frame p @ ?more) = frame p" "drop (4 + length p) (frame p @ ?more) = ?more"
    by (simp_all add: head(2) [symmetric])
  have "4 + length p \<le> length (frame p @ ?more)" by (simp add: head(2))
  note step = message_loop_next [OF this ne(2) head(3)]
  have "message_loop env c (frame p @ ?more) 0 st =
      (let st1 = conn_mod c (\<lambda>cn. cn\<lparr>cn_data := ?more, cn_msg_size := 0\<rparr>) st
       in case json_loads env p of
            Inl err \<Rightarrow> (Inl err, st1)
          | Inr args \<Rightarrow> (case call_handler env c args st1 of
               (Inl err, st2) \<Rightarrow> (Inl err, st2) | (Inr u, st2) \<Rightarrow> message_loop env c ?more 0 st2))"
    unfolding step cut head(4) ..
  also have "\<dots> = serve env c (p # ps) rest st"
    using Cons.IH Cons.prems
    by (simp add: Let_def tr_bind_def store_def tr_mod_def tr_ret_def split: sum.splits prod.splits)
  finally show ?case by simp
qed

lemma message_loop_size:
  assumes "4 \<le> length data" and "unpack_i32 (take 4 data) = Inr msize" and "msize \<noteq> 0"
  shows "message_loop env c data msize st = message_loop env c data 0 st"
  using assms by (subst (1 2) message_loop.simps) (simp add: Let_def)

text \<open>
  C21. Bytes that arrive in any pieces are cut into the messages that were sent: when the buffer and the new
  bytes together are complete frames and an unfinished one, \<open>on_message\<close> handles exactly the
  payloads of the complete frames, in order, and keeps the unfinished frame, in the form the
  next call expects.
\<close>

theorem on_message_framing:
  assumes "cn_greeted (conns st ! c)" and "cn_msg_size (conns st ! c) = size_read (cn_data (conns st ! c))"
    and "cn_data (conns st ! c) @ msg = concat (map frame ps) @ rest" and "list_all payload_ok ps" and "unfinished rest"
  shows "on_message env c msg st = serve env c ps rest st"
proof (cases "length (cn_data (conns st ! c)) < 4")
  case True
  then show ?thesis using assms message_loop_serve [OF assms(4,5)] by (simp add: on_message_def size_read_def)
next
  case False
  let ?d = "cn_data (conns st ! c)" and ?data = "concat (map frame ps) @ rest"
  have len: "4 \<le> length ?data" using False unfolding assms(3) [symmetric] by simp
  have same: "take 4 ?data = take 4 ?d" using False unfolding assms(3) [symmetric] by simp
  obtain z where z: "unpack_i32 (take 4 ?data) = Inr z" using unpack_i32_total [of "take 4 ?data"] len
    by (metis length_take min.absorb2)
  have "z \<noteq> 0"
  proof (cases ps)
    case Nil
    then have "\<not> length rest < 4" "z = size_read rest" using len z by (simp_all add: size_read_def)
    then show ?thesis using assms(5) by (simp add: unfinished_def)
  next
    case (Cons p ps')
    then have p: "payload_ok p" using assms(4) by simp
    then show ?thesis using frame_head(3) [OF p, of "concat (map frame ps') @ rest"] z Cons by (auto simp: payload_ok_def)
  qed
  moreover have "cn_msg_size (conns st ! c) = z" using assms(2) False z same by (simp add: size_read_def)
  ultimately have "on_message env c msg st = message_loop env c ?data 0 st"
    using assms(1,3) message_loop_size [OF len z] by (simp add: on_message_def)
  then show ?thesis using message_loop_serve [OF assms(4,5)] by simp
qed

text \<open>A message of size 0 blocks the connection: no later byte is ever looked at.\<close>

lemma zero_size_message_stalls:
  assumes "take 4 data = [0, 0, 0, 0]"
  shows "message_loop env c (data @ later) 0 st = (Inr (), conn_mod c (\<lambda>cn. cn\<lparr>cn_data := data @ later, cn_msg_size := 0\<rparr>) st)"
proof -
  have "4 \<le> length data" using arg_cong [OF assms, of length] by simp
  then have "take 4 (data @ later) = [0, 0, 0, 0]" "\<not> length (data @ later) < 4" using assms by simp_all
  then show ?thesis by (subst message_loop.simps) (simp add: unpack_i32_def Let_def)
qed

section \<open>Instances\<close>

definition plain_env :: tracker_env where
  "plain_env = \<lparr>iter_conns = (\<lambda>xs. xs), iter_keys = (\<lambda>xs. xs), json_key = (\<lambda>k. []),
     json_loads = (\<lambda>bs. if bs = [49] then Inr (OList [OInt 1]) else Inl ValueError)\<rparr>"

definition one_server :: tracker where
  "one_server = snd (call_handler plain_env 0 (OList [OInt 3, OStr ''rpi'', OList [OInt 9090, OStr ''rpi:1'']])
     (accept_conn ''server'' (tracker_init ONone)))"

lemma one_server_eq:
  "one_server = \<lparr>conns = [(new_conn ''server'')\<lparr>pending_matchkeys := [OStr ''rpi:1''],
      put_values := [(0, OStr ''server'', OInt 9090, OStr ''rpi:1'')], cn_out := [OInt 0]\<rparr>], connections = [0],
      scheduler_map = [(OStr ''rpi'', \<lparr>request_cnt = 0, sched_values = [(0, OStr ''server'', OInt 9090, OStr ''rpi:1'')], sched_requests = []\<rparr>)],
      stop_key = ONone, tracker_running = True\<rparr>"
  unfolding one_server_def
    by (simp add: call_handler_def handle_put_def tr_bind_def tr_ret_def tr_mod_def accept_conn_def tracker_init_def conn_mod_def py_get_def
        obj_len_def tracker_put_def create_scheduler_def sched_put_def sched_run_def schedule_idle new_scheduler_def new_conn_def
        ret_code_def ret_value_def reply_def Let_def)

theorem tracker_safety_witness:
  "map_of (scheduler_map one_server) (OStr ''rpi'') = Some \<lparr>request_cnt = 0, sched_values = [(0, OStr ''server'', OInt 9090, OStr ''rpi:1'')],
     sched_requests = []\<rparr> \<and> fst (call_handler plain_env 0 (OList [OInt 4, OStr ''rpi'', ONone, OInt 1]) one_server) = Inr ()"
proof -
  let ?st = "accept_conn ''server'' (tracker_init ONone)"
  have "tracker_reach plain_env ?st" by (intro tracker_accepted tracker_start)
  moreover have "(0 :: nat) \<in> set (connections ?st)" by (simp add: accept_conn_def tracker_init_def)
  moreover have "fresh_put 0 (OList [OInt 3, OStr ''rpi'', OList [OInt 9090, OStr ''rpi:1'']]) ?st"
    by (simp add: fresh_put_def py_get_def accept_conn_def tracker_init_def new_conn_def)
  ultimately have "tracker_reach plain_env one_server" unfolding one_server_def by (metis tracker_handled prod.collapse)
  moreover have "env_ok plain_env" by (simp add: env_ok_def plain_env_def)
  ultimately show ?thesis using tracker_safety [of plain_env one_server] by (simp add: one_server_eq)
qed

theorem put_serves_most_urgent_witness:
  "\<exists>rs. sched_put (0, OStr ''server'', OInt 9090, OStr ''rpi:1'') (OStr ''rpi'')
     (conn_mod 0 (\<lambda>cn. cn\<lparr>pending_matchkeys := [OStr ''rpi:1'']\<rparr>) two_waiting) =
     (Inr (), conn_mod 0 (\<lambda>cn. cn\<lparr>pending_matchkeys := []\<rparr>)
       (conn_mod 2 (reply (OList [OInt 0, OTuple [OStr ''server'', OInt 9090, OStr ''rpi:1'']])) two_waiting)
       \<lparr>scheduler_map := [(OStr ''rpi'', \<lparr>request_cnt = 2, sched_values = [], sched_requests = rs\<rparr>)]\<rparr>)"
proof -
  let ?s = "\<lparr>request_cnt = 2, sched_values = [], sched_requests = [((-5, 1), 2), ((-1, 0), 1)]\<rparr>"
  let ?st = "conn_mod 0 (\<lambda>cn. cn\<lparr>pending_matchkeys := [OStr ''rpi:1'']\<rparr>) two_waiting"
  let ?v = "(0, OStr ''server'', OInt 9090, OStr ''rpi:1'')"
  have heap: "is_heap fst ([((- 5, 1), 2), ((- 1, 0), 1)] :: sched_request list)" by (auto simp: heap_from_def par_def less_Suc_eq numeral_2_eq_2)
  have "queues_ok ?s (conns ?st)" using heap by (simp add: queues_ok_def free_pending_def two_waiting_def conn_mod_def)
  then have ok: "tracker_ok ?st"
    by (auto simp: tracker_ok_def schedulers_ok_def two_waiting_def conn_mod_def new_conn_def less_Suc_eq numeral_3_eq_3 numeral_2_eq_2)
  have lv: "live (conns ?st) [((- 5, 1), 2), ((- 1, 0), 1)] = [((- 5, 1), 2), ((- 1, 0), 1)]"
    by (simp add: live_def two_waiting_def conn_mod_def new_conn_def)
  have pre: "map_of (scheduler_map ?st) (OStr ''rpi'') = Some ?s" "sched_requests ?s \<noteq> []" "fst ?v < length (conns ?st)"
    "snd (resource_key ?v) \<in> set (pending_matchkeys (conns ?st ! fst ?v))"
    by (simp_all add: two_waiting_def conn_mod_def resource_key_def)
  have mem: "((- 5, 1), 2) \<in> set (live (conns ?st) (sched_requests ?s))"
    and least: "\<forall>r' \<in> set (live (conns ?st) (sched_requests ?s)). fst ((- 5, 1), 2) \<le> fst r'"
    unfolding scheduler.select_convs lv by (simp_all add: less_eq_prod_def)
  have "\<exists>rs. sched_put ?v (OStr ''rpi'') ?st = (Inr (), ?st\<lparr>conns := grant ?v 2 (conns ?st),
      scheduler_map := AList.update (OStr ''rpi'') (?s\<lparr>sched_values := [], sched_requests := rs\<rparr>) (scheduler_map ?st)\<rparr>)"
    using bspec [OF conjunct2 [OF put_serves_most_urgent [OF ok pre]] mem, THEN mp, OF least] by auto
  then show ?thesis
    by (simp add: two_waiting_def conn_mod_def new_conn_def grant_def resource_key_def resource_reply_def reply_def)
qed

text \<open>The server of \<open>one_server\<close> has also reported its key.\<close>

definition server_reported :: tracker where
  "server_reported = snd (call_handler plain_env 0 (OList [OInt 5, ODict [(''addr'', OList [ONone, OInt 9090]), (''key'', OStr ''server:rpi'')]]) one_server)"

theorem close_withdraws_resources_witness:
  "map_option sched_values (map_of (scheduler_map server_reported) (OStr ''rpi'')) = Some [(0, OStr ''server'', OInt 9090, OStr ''rpi:1'')]
    \<and> (\<exists>st'. conn_close 0 server_reported = (Inr (), st') \<and> map_option sched_values (map_of (scheduler_map st') (OStr ''rpi'')) = Some [])"
proof -
  let ?st = "accept_conn ''server'' (tracker_init ONone)"
  have st: "server_reported = \<lparr>conns = [(new_conn ''server'')\<lparr>cn_info := [(''addr'', OList [OStr ''server'', OInt 9090]), (''key'', OStr ''server:rpi'')],
      pending_matchkeys := [OStr ''rpi:1''], put_values := [(0, OStr ''server'', OInt 9090, OStr ''rpi:1'')], cn_out := [OInt 0, OInt 0]\<rparr>],
      connections = [0],
      scheduler_map = [(OStr ''rpi'', \<lparr>request_cnt = 0, sched_values = [(0, OStr ''server'', OInt 9090, OStr ''rpi:1'')], sched_requests = []\<rparr>)],
      stop_key = ONone, tracker_running = True\<rparr>"
    unfolding server_reported_def one_server_eq
    by (simp add: call_handler_def handle_update_info_def fill_addr_def tr_bind_def tr_ret_def tr_mod_def conn_mod_def py_get_def
        new_conn_def ret_code_def ret_value_def reply_def)
  have "keyed_reach plain_env server_reported"
  proof -
    have "keyed_reach plain_env ?st" by (intro keyed_accepted keyed_start)
    moreover have "(0 :: nat) \<in> set (connections ?st)" by (simp add: accept_conn_def tracker_init_def)
    moreover have "proper_message 0 (OList [OInt 3, OStr ''rpi'', OList [OInt 9090, OStr ''rpi:1'']]) ?st"
      by (simp add: proper_message_def keyed_put_def fresh_put_def py_get_def accept_conn_def tracker_init_def new_conn_def)
    ultimately have "keyed_reach plain_env one_server" unfolding one_server_def by (metis keyed_handled prod.collapse)
    moreover have "(0 :: nat) \<in> set (connections one_server)" by (simp add: one_server_eq)
    moreover have "proper_message 0 (OList [OInt 5, ODict [(''addr'', OList [ONone, OInt 9090]), (''key'', OStr ''server:rpi'')]]) one_server"
      by (simp add: proper_message_def py_get_def)
    ultimately show ?thesis unfolding server_reported_def by (metis keyed_handled prod.collapse)
  qed
  moreover have "env_ok plain_env" by (simp add: env_ok_def plain_env_def)
  moreover have "0 \<in> set (connections server_reported)" "map_of (cn_info (conns server_reported ! 0)) ''key'' \<noteq> None"
    by (simp_all add: st)
  ultimately obtain st' where "conn_close 0 server_reported = (Inr (), st')"
    "map_of (scheduler_map st') (OStr ''rpi'')
      = map_option (\<lambda>s. s\<lparr>sched_values := filter (\<lambda>v. fst v \<noteq> 0) (sched_values s)\<rparr>) (map_of (scheduler_map server_reported) (OStr ''rpi''))"
    using close_withdraws_resources [of plain_env server_reported 0] by blast
  then show ?thesis by (simp add: st)
qed

theorem on_message_framing_witness:
  "on_message plain_env 0 [0, 49, 1, 0] ((tracker_init ONone)\<lparr>conns := [(new_conn ''a'')\<lparr>cn_greeted := True, cn_data := [1, 0, 0]\<rparr>]\<rparr>)
    = serve plain_env 0 [[49]] [1, 0] ((tracker_init ONone)\<lparr>conns := [(new_conn ''a'')\<lparr>cn_greeted := True, cn_data := [1, 0, 0]\<rparr>]\<rparr>)"
  by (rule on_message_framing)
    (simp_all add: new_conn_def size_read_def frame_def pack_i32_def payload_ok_def unfinished_def)

end
