(* ===== verification/ModelTuner.thy ===== *)
theory ModelTuner
  imports Tuner SAOptimizer
begin

text \<open>
  The model based tuner of \<open>autotvm/tuner/model_based_tuner.py\<close>. The cost model and the model
  optimiser are its interfaces \<open>CostModel\<close> and \<open>ModelOptimizer\<close>: the first is a record of its
  methods, the second a function \<open>find_max\<close>. The set of visited indices is a list without repetition.
\<close>

section \<open>Interfaces\<close>

record 'm cost_model =
  cm_fit :: "'m \<Rightarrow> int list \<Rightarrow> pyfloat list \<Rightarrow> int \<Rightarrow> 'm"
  cm_fit_log :: "'m \<Rightarrow> measured list \<Rightarrow> int \<Rightarrow> int \<Rightarrow> bool \<times> 'm"
  cm_predict :: "'m \<Rightarrow> int list \<Rightarrow> rat list"
  cm_load_basemodel :: "'m \<Rightarrow> 'm \<Rightarrow> 'm"
  cm_spawn_base_model :: "'m \<Rightarrow> 'm"

type_synonym 'o find_max = "(int list \<Rightarrow> rat list) \<Rightarrow> 'o \<Rightarrow> int \<Rightarrow> int set \<Rightarrow> draws \<Rightarrow> (int list \<times> 'o \<times> draws) res"

section \<open>Feature cache\<close>

type_synonym 'c feature_cache = "(string \<times> (int \<times> 'c) list) list"

definition fc_get :: "'c feature_cache \<Rightarrow> string \<Rightarrow> (int \<times> 'c) list \<times> 'c feature_cache" where
  "fc_get fc key =
     (case map_of fc key of None \<Rightarrow> ([], fc @ [(key, [])]) | Some d \<Rightarrow> (d, fc))"

definition fc_size :: "'c feature_cache \<Rightarrow> string \<Rightarrow> nat" where
  "fc_size fc key = (case map_of fc key of None \<Rightarrow> 0 | Some d \<Rightarrow> length d)"

definition fc_clear :: "'c feature_cache \<Rightarrow> string \<Rightarrow> 'c feature_cache res" where
  "fc_clear fc key =
     (if map_of fc key = None then Inl KeyError else Inr (AList.delete key fc @ [(key, [])]))"

section \<open>Submodular selection\<close>

text \<open>The gain of position \<open>x\<close>: its score and a weight for each knob value that is not yet selected.\<close>

fun knob_gain :: "rat \<Rightarrow> int list \<Rightarrow> int list list \<Rightarrow> rat res" where
  "knob_gain w knob [] = Inr 0"
| "knob_gain w knob (seen # seens) =
     (case knob of
        [] \<Rightarrow> Inl IndexError
      | k # ks \<Rightarrow> res_bind (knob_gain w ks seens) (\<lambda>g. Inr (if k \<notin> set seen then w + g else g)))"

definition pick_gain :: "rat list \<Rightarrow> int list list \<Rightarrow> rat \<Rightarrow> int list list \<Rightarrow> nat \<Rightarrow> rat res" where
  "pick_gain scores knobs w knobs_set x = res_bind (knob_gain w (knobs ! x) knobs_set) (\<lambda>g. Inr (scores ! x + g))"

text \<open>The inner loop: the first position with the largest gain above \<open>-1e9\<close>; \<open>None\<close> is \<open>max_x = -1\<close>.\<close>

fun pick_position :: "rat list \<Rightarrow> int list list \<Rightarrow> rat \<Rightarrow> int list list \<Rightarrow> nat list \<Rightarrow> nat option \<times> rat \<Rightarrow> (nat option \<times> rat) res" where
  "pick_position scores knobs w knobs_set [] best = Inr best"
| "pick_position scores knobs w knobs_set (x # xs) best =
     res_bind (pick_gain scores knobs w knobs_set x) (\<lambda>g.
       pick_position scores knobs w knobs_set xs (if g > snd best then (Some x, g) else best))"

fun pick_loop :: "nat \<Rightarrow> rat list \<Rightarrow> int list list \<Rightarrow> rat \<Rightarrow> nat list \<Rightarrow> int list list \<Rightarrow> nat list res" where
  "pick_loop 0 scores knobs w remain knobs_set = Inr []"
| "pick_loop (Suc n) scores knobs w remain knobs_set =
     res_bind (pick_position scores knobs w knobs_set remain (None, - (10 ^ 9))) (\<lambda>(best, _).
       case best of
         None \<Rightarrow> Inl ValueError
       | Some x \<Rightarrow>
           res_bind (pick_loop n scores knobs w (remove1 x remain)
               (map (\<lambda>(k, seen). List.insert k seen) (zip (knobs ! x) knobs_set))) (\<lambda>rest. Inr (x # rest)))"

definition submodular_pick :: "rat list \<Rightarrow> int list list \<Rightarrow> int \<Rightarrow> rat \<Rightarrow> nat list res" where
  "submodular_pick scores knobs n_pick w =
     (if length scores \<noteq> length knobs then Inl AssertionError
      else case knobs of
             [] \<Rightarrow> Inl IndexError
           | knob # _ \<Rightarrow> pick_loop (nat n_pick) scores knobs w [0..<length scores] (replicate (length knob) []))"

section \<open>The tuner\<close>

record ('m, 'o) mb_tuner =
  mb_space :: config_space
  plan_size :: int
  mb_dims :: "int list"
  mb_model :: 'm
  mb_optimizer :: 'o
  diversity_filter_ratio :: pyobj
  trials :: "int list"
  trials_array :: bool
  trial_pt :: nat
  mb_visited :: "int list"
  mb_xs :: "int list"
  mb_ys :: "pyfloat list"
  flops_max :: pyfloat
  train_ct :: int
  mb_draws :: draws

definition ratio_set :: "pyobj \<Rightarrow> bool" where
  "ratio_set r = (case r of OInt i \<Rightarrow> i \<noteq> 0 | OFloat q \<Rightarrow> q \<noteq> 0 | _ \<Rightarrow> False)"

definition mb_init ::
  "config_space \<Rightarrow> 'm \<Rightarrow> 'o \<Rightarrow> int \<Rightarrow> pyobj \<Rightarrow> draws \<Rightarrow> ('m, 'o) mb_tuner res" where
  "mb_init cs model opt plan ratio ds =
     (if fst (cs_len cs) < 0 then Inl ValueError
      else if ratio_set ratio \<and> \<not> (case ratio of OInt i \<Rightarrow> 1 \<le> i | OFloat q \<Rightarrow> 1 \<le> q | _ \<Rightarrow> True) then Inl AssertionError
      else Inr \<lparr>mb_space = snd (cs_len cs), plan_size = plan, mb_dims = cs_dims cs, mb_model = model, mb_optimizer = opt,
                diversity_filter_ratio = ratio, trials = [], trials_array = False, trial_pt = 0, mb_visited = [],
                mb_xs = [], mb_ys = [], flops_max = Fin 0, train_ct = 0, mb_draws = ds\<rparr>)"

text \<open>
  The inner \<open>while\<close> loop over the plan from \<open>trial_pt\<close> on, with the last value of \<open>index\<close>, which is
  unbound at first.
\<close>

fun skip_visited :: "int list \<Rightarrow> int list \<Rightarrow> nat \<Rightarrow> int option \<Rightarrow> nat \<times> int option" where
  "skip_visited visited [] pt index = (pt, index)"
| "skip_visited visited (t # ts) pt index =
     (if t \<notin> set visited then (pt, Some t) else skip_visited visited ts (Suc pt) (Some t))"

text \<open>\<open>int(0.05 * plan_size)\<close>.\<close>

definition greedy_tail :: "int \<Rightarrow> int" where
  "greedy_tail plan = (if plan < 0 then - (- plan div 20) else plan div 20)"

fun mb_batch_loop :: "nat \<Rightarrow> int option \<Rightarrow> ('m, 'o) mb_tuner \<Rightarrow> (config_entity list \<times> ('m, 'o) mb_tuner) res" where
  "mb_batch_loop 0 index s = Inr ([], s)"
| "mb_batch_loop (Suc k) index s =
     (let (n, cs1) = cs_len (mb_space s)
      in if int (length (mb_visited s)) \<ge> n then Inr ([], s\<lparr>mb_space := cs1\<rparr>)
         else let (pt, index1) = skip_visited (mb_visited s) (drop (trial_pt s) (trials s)) (trial_pt s) index
           in res_bind
                (if int pt \<ge> int (length (trials s)) - greedy_tail (plan_size s)
                 then sample_new 0 n (mb_visited s) (mb_draws s)
                 else case index1 of None \<Rightarrow> Inl UnboundLocalError | Some i \<Rightarrow> Inr (i, mb_draws s))
                (\<lambda>(i, ds).
                  let (r, cs2) = cs_get cs1 i
                  in res_bind r (\<lambda>c.
                     res_bind (mb_batch_loop k (Some i)
                       (s\<lparr>mb_space := cs2, trial_pt := pt, mb_visited := mb_visited s @ (if i \<in> set (mb_visited s) then [] else [i]),
                          mb_draws := ds\<rparr>))
                       (\<lambda>(cfgs, s'). Inr (c # cfgs, s')))))"

definition mb_next_batch :: "('m, 'o) mb_tuner \<Rightarrow> int \<Rightarrow> (config_entity list \<times> ('m, 'o) mb_tuner) res" where
  "mb_next_batch s batch_size = mb_batch_loop (nat batch_size) None s"

text \<open>The first loop of \<open>update\<close>.\<close>

definition mb_observe_one :: "measured \<Rightarrow> ('m, 'o) mb_tuner \<Rightarrow> ('m, 'o) mb_tuner res" where
  "mb_observe_one pair s =
     (let index = cindex (mi_config (fst pair));
          visited = mb_visited s @ (if index \<in> set (mb_visited s) then [] else [index])
      in if error_no (snd pair) = 0
         then res_bind (measured_flops (fst pair) (snd pair)) (\<lambda>flops.
                Inr (s\<lparr>mb_xs := mb_xs s @ [index], mb_ys := mb_ys s @ [flops],
                       flops_max := (if fgt flops (flops_max s) then flops else flops_max s), mb_visited := visited\<rparr>))
         else Inr (s\<lparr>mb_xs := mb_xs s @ [index], mb_ys := mb_ys s @ [Fin 0], mb_visited := visited\<rparr>))"

fun mb_observe :: "measured list \<Rightarrow> ('m, 'o) mb_tuner \<Rightarrow> ('m, 'o) mb_tuner res" where
  "mb_observe [] s = Inr s"
| "mb_observe (pair # pairs) s = res_bind (mb_observe_one pair s) (mb_observe pairs)"

text \<open>
  The candidates of a new plan. \<open>plan_size * diversity_filter_ratio\<close> is a float when the ratio is
  one, which \<open>range(num)\<close> refuses.
\<close>

definition mb_plan ::
  "'m cost_model \<Rightarrow> 'o find_max \<Rightarrow> ('m, 'o) mb_tuner \<Rightarrow> (int list \<times> bool \<times> 'o \<times> draws) res" where
  "mb_plan cm find_max s =
     (if ratio_set (diversity_filter_ratio s) then
        (case diversity_filter_ratio s of
           OInt ratio \<Rightarrow>
             res_bind (find_max (cm_predict cm (mb_model s)) (mb_optimizer s) (plan_size s * ratio) (set (mb_visited s)) (mb_draws s))
               (\<lambda>(candidate, opt, ds).
             res_bind (res_map (\<lambda>x. point2knob x (mb_dims s)) candidate) (\<lambda>knobs.
             res_bind (submodular_pick (map (\<lambda>sc. 0 * sc) (cm_predict cm (mb_model s) candidate)) knobs (plan_size s) 1) (\<lambda>pick_index.
               Inr (map (\<lambda>i. candidate ! i) pick_index, True, opt, ds))))
         | _ \<Rightarrow> Inl TypeErr)
      else res_bind (find_max (cm_predict cm (mb_model s)) (mb_optimizer s) (plan_size s) (set (mb_visited s)) (mb_draws s))
             (\<lambda>(maximums, opt, ds). Inr (maximums, False, opt, ds)))"

definition mb_update ::
  "'m cost_model \<Rightarrow> 'o find_max \<Rightarrow> ('m, 'o) mb_tuner \<Rightarrow> measured list \<Rightarrow> ('m, 'o) mb_tuner res" where
  "mb_update cm find_max s pairs =
     res_bind (mb_observe pairs s) (\<lambda>s1.
       if int (length (mb_xs s1)) \<ge> plan_size s1 * (train_ct s1 + 1) \<and> fgt (flops_max s1) (Fin (1 / 10 ^ 6)) then
         let s2 = s1\<lparr>mb_model := cm_fit cm (mb_model s1) (mb_xs s1) (mb_ys s1) (plan_size s1)\<rparr>
         in res_bind (mb_plan cm find_max s2) (\<lambda>(maximums, is_array, opt, ds).
              Inr (s2\<lparr>trials := maximums, trials_array := is_array, mb_optimizer := opt, mb_draws := ds, trial_pt := 0,
                     train_ct := train_ct s2 + 1\<rparr>))
       else Inr s1)"

text \<open>
  \<open>not self.trials\<close>: for an array of several elements NumPy refuses, for one element it is that
  element's truth value.
\<close>

definition trials_empty :: "('m, 'o) mb_tuner \<Rightarrow> bool res" where
  "trials_empty s =
     (if trials_array s then
        (case trials s of [] \<Rightarrow> Inr True | [t] \<Rightarrow> Inr (t = 0) | _ \<Rightarrow> Inl ValueError)
      else Inr (trials s = []))"

definition mb_load_history ::
  "'m cost_model \<Rightarrow> 'o find_max \<Rightarrow> ('m, 'o) mb_tuner \<Rightarrow> measured list \<Rightarrow> int \<Rightarrow> ('m, 'o) mb_tuner res" where
  "mb_load_history cm find_max s data_set min_seed_records =
     (let (success, base) = cm_fit_log cm (cm_spawn_base_model cm (mb_model s)) data_set (plan_size s) min_seed_records
      in if \<not> success then Inr s
         else res_bind (trials_empty s) (\<lambda>none.
           res_bind
             (if none then
                res_bind (find_max (cm_predict cm base) (mb_optimizer s) (plan_size s) (set (mb_visited s)) (mb_draws s))
                  (\<lambda>(maximums, opt, ds).
                    Inr (s\<lparr>trials := maximums, trials_array := False, mb_optimizer := opt, mb_draws := ds, trial_pt := 0\<rparr>))
              else Inr s)
             (\<lambda>s1. Inr (s1\<lparr>mb_model := cm_load_basemodel cm (mb_model s1) base\<rparr>))))"

definition mb_has_next :: "('m, 'o) mb_tuner \<Rightarrow> bool" where
  "mb_has_next s \<longleftrightarrow> int (length (mb_visited s)) < fst (cs_len (mb_space s))"

definition mb_class :: "'m cost_model \<Rightarrow> 'o find_max \<Rightarrow> ('m, 'o) mb_tuner tuner_class" where
  "mb_class cm find_max = \<lparr>has_next = mb_has_next, next_batch = mb_next_batch, update = mb_update cm find_max\<rparr>"

end
