(* ===== verification/ModelTunerCorrect.thy ===== *)
theory ModelTunerCorrect
  imports ModelTuner SACorrect TunerCorrect
begin

text \<open>
  Correctness of the model based tuner. The optimiser it relies on is the locale \<open>model_optimizer\<close>,
  which the simulated annealing optimiser interprets; the tuner itself interprets the contract of
  the tuning loop. The submodular selection is greedy.
\<close>

section \<open>Submodular selection\<close>

text \<open>The knobs of position \<open>x\<close> whose value no chosen position has.\<close>

definition new_knobs :: "int list list \<Rightarrow> nat list \<Rightarrow> nat \<Rightarrow> nat list" where
  "new_knobs knobs chosen x = filter (\<lambda>i. \<forall>y \<in> set chosen. knobs ! y ! i \<noteq> knobs ! x ! i) [0..<length (hd knobs)]"

definition gain :: "rat list \<Rightarrow> int list list \<Rightarrow> rat \<Rightarrow> nat list \<Rightarrow> nat \<Rightarrow> rat" where
  "gain scores knobs w chosen x = scores ! x + w * of_nat (length (new_knobs knobs chosen x))"

lemma knob_gain_count:
  "length knob = length seens \<Longrightarrow>
     knob_gain w knob seens = Inr (w * of_nat (length (filter (\<lambda>i. knob ! i \<notin> set (seens ! i)) [0..<length seens])))"
proof (induction seens arbitrary: knob)
  case (Cons seen seens)
  then obtain k ks where knob: "knob = k # ks" "length ks = length seens" by (cases knob) auto
  have "[0..<Suc (length seens)] = 0 # map Suc [0..<length seens]" by (simp add: map_Suc_upt upt_conv_Cons del: upt_Suc)
  then show ?case using Cons.IH [OF knob(2)] knob
    by (simp add: filter_map comp_def algebra_simps del: upt_Suc)
qed simp

definition sees :: "int list list \<Rightarrow> nat list \<Rightarrow> int list list \<Rightarrow> bool" where
  "sees knobs chosen knobs_set \<longleftrightarrow> length knobs_set = length (hd knobs)
     \<and> (\<forall>i < length knobs_set. set (knobs_set ! i) = (\<lambda>y. knobs ! y ! i) ` set chosen)"

lemma pick_gain_eq:
  assumes "sees knobs chosen knobs_set" and "x < length knobs" and "\<forall>k \<in> set knobs. length k = length (hd knobs)"
  shows "pick_gain scores knobs w knobs_set x = Inr (gain scores knobs w chosen x)"
proof -
  have len: "length (knobs ! x) = length knobs_set" using assms by (simp add: sees_def)
  have "filter (\<lambda>i. knobs ! x ! i \<notin> set (knobs_set ! i)) [0..<length knobs_set] = new_knobs knobs chosen x"
    unfolding new_knobs_def using assms(1) by (intro filter_cong) (auto simp: sees_def image_iff)
  then show ?thesis by (simp add: pick_gain_def knob_gain_count [OF len] gain_def)
qed

lemma pick_position_max:
  assumes "\<And>x. x \<in> set xs \<Longrightarrow> pick_gain scores knobs w knobs_set x = Inr (G x)"
  shows "\<exists>r. pick_position scores knobs w knobs_set xs best = Inr r \<and> snd best \<le> snd r \<and> (\<forall>x \<in> set xs. G x \<le> snd r)
    \<and> (r = best \<or> (\<exists>x \<in> set xs. r = (Some x, G x)))"
  using assms
proof (induction xs arbitrary: best)
  case (Cons x xs)
  let ?b = "if G x > snd best then (Some x, G x) else best"
  have "pick_gain scores knobs w knobs_set z = Inr (G z)" if "z \<in> set xs" for z using Cons.prems that by simp
  from Cons.IH [OF this, of ?b] obtain r where "pick_position scores knobs w knobs_set xs ?b = Inr r" "snd ?b \<le> snd r"
    "\<forall>x \<in> set xs. G x \<le> snd r" "r = ?b \<or> (\<exists>x \<in> set xs. r = (Some x, G x))" by blast
  then show ?case using Cons.prems by (intro exI [of _ r]) (auto split: if_splits)
qed simp

lemma sees_step:
  assumes "sees knobs chosen knobs_set" and "x < length knobs" and "\<forall>k \<in> set knobs. length k = length (hd knobs)"
  shows "sees knobs (chosen @ [x]) (map (\<lambda>(k, seen). List.insert k seen) (zip (knobs ! x) knobs_set))"
proof -
  have len: "length (knobs ! x) = length knobs_set" using assms by (simp add: sees_def)
  then show ?thesis using assms(1) by (auto simp: sees_def)
qed

lemma pick_loop_greedy:
  assumes "sees knobs chosen knobs_set" and "\<forall>k \<in> set knobs. length k = length (hd knobs)" and "length scores = length knobs"
    and "\<forall>s \<in> set scores. - (10 ^ 9) < s" and "0 \<le> w" and "distinct remain" and "set remain \<subseteq> {..<length knobs}"
  shows "(n \<le> length remain \<longrightarrow> (\<exists>ps. pick_loop n scores knobs w remain knobs_set = Inr ps \<and> distinct ps \<and> length ps = n
           \<and> set ps \<subseteq> set remain \<and> (\<forall>j < n. \<forall>x \<in> set remain - set (take j ps).
               gain scores knobs w (chosen @ take j ps) x \<le> gain scores knobs w (chosen @ take j ps) (ps ! j))))
    \<and> (length remain < n \<longrightarrow> pick_loop n scores knobs w remain knobs_set = Inl ValueError)"
  using assms(1,6,7)
proof (induction n arbitrary: chosen remain knobs_set)
  case (Suc n)
  let ?G = "gain scores knobs w chosen"
  have "pick_gain scores knobs w knobs_set x = Inr (?G x)" if "x \<in> set remain" for x
    using pick_gain_eq [OF Suc.prems(1) _ assms(2)] that Suc.prems(3) by auto
  from pick_position_max [of remain, OF this] obtain best g where b: "pick_position scores knobs w knobs_set remain (None, - (10 ^ 9)) = Inr (best, g)"
    "\<forall>x \<in> set remain. ?G x \<le> g" "(best, g) = (None, - (10 ^ 9)) \<or> (\<exists>x \<in> set remain. (best, g) = (Some x, ?G x))"
    by (metis prod.collapse)
  show ?case
  proof (cases "remain = []")
    case True
    then show ?thesis using b by simp
  next
    case False
    then obtain y where y: "y \<in> set remain" by (meson list.set_sel(1))
    have "- (10 ^ 9) < scores ! y" using assms(3,4) y Suc.prems(3) by auto
    also have "\<dots> \<le> ?G y" using assms(5) by (simp add: gain_def)
    finally have "g \<noteq> - (10 ^ 9)" using b(2) y by fastforce
    then obtain x where x: "x \<in> set remain" "best = Some x" "g = ?G x" using b(3) by auto
    let ?R = "remove1 x remain" and ?K = "map (\<lambda>(k, seen). List.insert k seen) (zip (knobs ! x) knobs_set)"
    have K: "sees knobs (chosen @ [x]) ?K" using sees_step [OF Suc.prems(1) _ assms(2)] x(1) Suc.prems(3) by auto
    have R: "distinct ?R" "set ?R = set remain - {x}" "length ?R = length remain - 1" "set ?R \<subseteq> {..<length knobs}"
      using Suc.prems(2,3) x(1) by (auto simp: length_remove1)
    note IH = Suc.IH [OF K R(1,4)]
    have run: "pick_loop (Suc n) scores knobs w remain knobs_set
        = res_bind (pick_loop n scores knobs w ?R ?K) (\<lambda>rest. Inr (x # rest))" using b(1) x(2) by simp
    have pos: "0 < length remain" using False by simp
    show ?thesis
    proof (intro conjI impI)
      assume "Suc n \<le> length remain"
      then obtain ps where ps: "pick_loop n scores knobs w ?R ?K = Inr ps" "distinct ps" "length ps = n" "set ps \<subseteq> set ?R"
        "\<forall>j < n. \<forall>z \<in> set ?R - set (take j ps). gain scores knobs w ((chosen @ [x]) @ take j ps) z
           \<le> gain scores knobs w ((chosen @ [x]) @ take j ps) (ps ! j)" using IH R(3) by auto
      have "gain scores knobs w (chosen @ take j (x # ps)) z \<le> gain scores knobs w (chosen @ take j (x # ps)) ((x # ps) ! j)"
        if "j < Suc n" "z \<in> set remain - set (take j (x # ps))" for j z
      proof (cases j)
        case 0
        then show ?thesis using b(2) x(3) that by simp
      next
        case (Suc i)
        then show ?thesis using ps(5) that R(2) by simp
      qed
      then show "\<exists>ps. pick_loop (Suc n) scores knobs w remain knobs_set = Inr ps \<and> distinct ps \<and> length ps = Suc n
           \<and> set ps \<subseteq> set remain \<and> (\<forall>j < Suc n. \<forall>x \<in> set remain - set (take j ps).
               gain scores knobs w (chosen @ take j ps) x \<le> gain scores knobs w (chosen @ take j ps) (ps ! j))"
        using ps(1-4) run R(2) x(1) by (intro exI [of _ "x # ps"]) auto
    next
      assume "length remain < Suc n"
      then show "pick_loop (Suc n) scores knobs w remain knobs_set = Inl ValueError" using IH R(3) run pos by auto
    qed
  qed
qed simp

lemma submodular_pick_ok:
  assumes "length scores = length knobs" and "\<forall>k \<in> set knobs. length k = length (hd knobs)"
    and "\<forall>s \<in> set scores. - (10 ^ 9) < s" and "0 \<le> w" and "0 \<le> n_pick"
  shows "(knobs \<noteq> [] \<and> n_pick \<le> int (length knobs) \<longrightarrow> (\<exists>ps. submodular_pick scores knobs n_pick w = Inr ps
       \<and> distinct ps \<and> int (length ps) = n_pick \<and> set ps \<subseteq> {..<length knobs}
       \<and> (\<forall>j < length ps. \<forall>x < length knobs. x \<notin> set (take j ps) \<longrightarrow>
            gain scores knobs w (take j ps) x \<le> gain scores knobs w (take j ps) (ps ! j))))
    \<and> (knobs \<noteq> [] \<and> int (length knobs) < n_pick \<longrightarrow> submodular_pick scores knobs n_pick w = Inl ValueError)
    \<and> (knobs = [] \<longrightarrow> submodular_pick scores knobs n_pick w = Inl IndexError)"
proof (cases knobs)
  case Nil
  then show ?thesis using assms(1) by (simp add: submodular_pick_def)
next
  case (Cons knob rest)
  have "sees knobs [] (replicate (length knob) [])" using Cons by (simp add: sees_def)
  have run: "submodular_pick scores knobs n_pick w = pick_loop (nat n_pick) scores knobs w [0..<length knobs] (replicate (length knob) [])"
    using Cons assms(1) by (simp add: submodular_pick_def)
  from pick_loop_greedy [OF \<open>sees knobs [] (replicate (length knob) [])\<close> assms(2,1,3,4) distinct_upt, of 0 "length scores" "nat n_pick"]
  have main: "(nat n_pick \<le> length knobs \<longrightarrow> (\<exists>ps. submodular_pick scores knobs n_pick w = Inr ps \<and> distinct ps \<and> length ps = nat n_pick
       \<and> set ps \<subseteq> {0..<length knobs} \<and> (\<forall>j < nat n_pick. \<forall>x \<in> {0..<length knobs} - set (take j ps).
            gain scores knobs w (take j ps) x \<le> gain scores knobs w (take j ps) (ps ! j))))
    \<and> (length knobs < nat n_pick \<longrightarrow> submodular_pick scores knobs n_pick w = Inl ValueError)"
    unfolding run assms(1) by (simp add: atLeast0LessThan)
  show ?thesis
  proof (intro conjI impI)
    assume "knobs \<noteq> [] \<and> n_pick \<le> int (length knobs)"
    then obtain ps where "submodular_pick scores knobs n_pick w = Inr ps" "distinct ps" "length ps = nat n_pick" "set ps \<subseteq> {0..<length knobs}"
      "\<forall>j < nat n_pick. \<forall>x \<in> {0..<length knobs} - set (take j ps).
         gain scores knobs w (take j ps) x \<le> gain scores knobs w (take j ps) (ps ! j)" using main by auto
    then show "\<exists>ps. submodular_pick scores knobs n_pick w = Inr ps \<and> distinct ps \<and> int (length ps) = n_pick \<and> set ps \<subseteq> {..<length knobs}
       \<and> (\<forall>j < length ps. \<forall>x < length knobs. x \<notin> set (take j ps) \<longrightarrow>
            gain scores knobs w (take j ps) x \<le> gain scores knobs w (take j ps) (ps ! j))"
      using assms(5) by (intro exI [of _ ps]) (simp add: atLeast0LessThan)
  qed (use main Cons in simp_all)
qed

text \<open>
  C22. \<open>submodular_pick\<close> selects \<open>n_pick\<close> different positions, each with the largest gain (its score plus the
  weight of the knob values that are new among the positions selected before it). It raises \<open>ValueError\<close> when
  more positions are asked for than there are, and \<open>IndexError\<close> when there are none.
\<close>

theorem submodular_pick_greedy:
  assumes "length scores = length knobs" and "\<forall>k \<in> set knobs. length k = length (hd knobs)"
    and "\<forall>s \<in> set scores. - (10 ^ 9) < s" and "0 \<le> w" and "0 \<le> n_pick"
  shows "(knobs \<noteq> [] \<and> n_pick \<le> int (length knobs) \<longrightarrow> (\<exists>ps. submodular_pick scores knobs n_pick w = Inr ps
       \<and> distinct ps \<and> int (length ps) = n_pick \<and> set ps \<subseteq> {..<length knobs}
       \<and> (\<forall>j < length ps. \<forall>x < length knobs. x \<notin> set (take j ps) \<longrightarrow>
            gain scores knobs w (take j ps) x \<le> gain scores knobs w (take j ps) (ps ! j))))
    \<and> (knobs \<noteq> [] \<and> int (length knobs) < n_pick \<longrightarrow> submodular_pick scores knobs n_pick w = Inl ValueError)
    \<and> (knobs = [] \<longrightarrow> submodular_pick scores knobs n_pick w = Inl IndexError)"
  by (rule submodular_pick_ok [OF assms])

theorem submodular_pick_greedy_witness:
  "\<exists>ps. submodular_pick [0, 0, 0] [[1, 2], [1, 2], [3, 4]] 2 1 = Inr ps \<and> distinct ps \<and> int (length ps) = 2"
  using submodular_pick_greedy [of "[0, 0, 0]" "[[1, 2], [1, 2], [3, 4]]" 1 2] by auto

section \<open>The optimiser's contract\<close>

text \<open>
  For a model that scores every point on its own, an optimiser returns different points of the space outside
  the excluded set, at most as many as asked for, or needs more random numbers.
\<close>

locale model_optimizer =
  fixes find_max :: "'o find_max" and opt_ok :: "int \<Rightarrow> 'o \<Rightarrow> bool"
  assumes find_law: "opt_ok n opt \<Longrightarrow> 0 < num \<Longrightarrow> excl \<subseteq> {0..<n} \<Longrightarrow>
    (case find_max (map f) opt num excl ds of
       Inl err \<Rightarrow> err = NoDraws
     | Inr (ps, opt', ds') \<Rightarrow> opt_ok n opt' \<and> distinct ps \<and> set ps \<subseteq> {0..<n} - excl \<and> int (length ps) \<le> num)"

section \<open>The tuner's contract\<close>

definition pointwise :: "'m cost_model \<Rightarrow> bool" where
  "pointwise cm \<longleftrightarrow> (\<forall>m. \<exists>f. cm_predict cm m = map f)"

definition mb_ok :: "'m cost_model \<Rightarrow> (int \<Rightarrow> 'o \<Rightarrow> bool) \<Rightarrow> int \<Rightarrow> ('m, 'o) mb_tuner \<Rightarrow> bool" where
  "mb_ok cm opt_ok n s \<longleftrightarrow> pointwise cm \<and> cs_ready (mb_space s) \<and> cs_size (mb_space s) = n \<and> 0 < plan_size s \<and> \<not> ratio_set (diversity_filter_ratio s)
     \<and> distinct (mb_visited s) \<and> set (mb_visited s) \<subseteq> {0..<n} \<and> set (trials s) \<subseteq> {0..<n} \<and> opt_ok n (mb_optimizer s)"

definition mb_proposes :: "('m, 'o) mb_tuner \<Rightarrow> config_entity \<Rightarrow> bool" where
  "mb_proposes s c \<longleftrightarrow> cindex c \<in> set (mb_visited s)"

lemma skip_visited_props:
  assumes "skip_visited visited ts pt index = (pt', index')" and "pt' < pt + length ts"
  shows "\<exists>t \<in> set ts. index' = Some t \<and> t \<notin> set visited"
  using assms by (induction visited ts pt index rule: skip_visited.induct) (auto split: if_splits)

text \<open>The index of the next trial, from the plan or at random, is a new index of the space.\<close>

lemma pick_source:
  assumes "mb_ok cm opt_ok n s" and "skip_visited (mb_visited s) (drop (trial_pt s) (trials s)) (trial_pt s) index = (pt, index1)"
    and "int (length (mb_visited s)) < n"
  defines "src \<equiv> if int pt \<ge> int (length (trials s)) - greedy_tail (plan_size s) then sample_new 0 n (mb_visited s) (mb_draws s)
    else case index1 of None \<Rightarrow> Inl UnboundLocalError | Some i \<Rightarrow> Inr (i, mb_draws s)"
  shows "draws_over src \<or> (\<exists>i ds. src = Inr (i, ds) \<and> 0 \<le> i \<and> i < n \<and> i \<notin> set (mb_visited s))"
proof (cases "int pt \<ge> int (length (trials s)) - greedy_tail (plan_size s)")
  case True
  then have src: "src = sample_new 0 n (mb_visited s) (mb_draws s)" by (simp add: src_def)
  show ?thesis
  proof (cases src)
    case (Inl err)
    then show ?thesis using sample_new_err [of 0 n "mb_visited s" "mb_draws s" err] assms(3) src by (simp add: draws_over_def)
  next
    case (Inr r)
    then show ?thesis using sample_new_Inr [of 0 n "mb_visited s" "mb_draws s"] src by (cases r) auto
  qed
next
  case False
  have "0 \<le> greedy_tail (plan_size s)" using assms(1) by (auto simp: mb_ok_def greedy_tail_def pos_imp_zdiv_nonneg_iff)
  then have "pt < length (trials s)" using False by linarith
  then have "pt < trial_pt s + length (drop (trial_pt s) (trials s))" by simp
  from skip_visited_props [OF assms(2) this] obtain t where t: "t \<in> set (trials s)" "index1 = Some t" "t \<notin> set (mb_visited s)"
    by (auto dest: in_set_dropD)
  have "set (trials s) \<subseteq> {0..<n}" using assms(1) by (simp add: mb_ok_def)
  then have "0 \<le> t \<and> t < n" using t(1) by auto
  then show ?thesis using False t by (simp add: src_def)
qed

lemma mb_batch_ok:
  assumes "mb_ok cm opt_ok n s"
  shows "draws_over (mb_batch_loop k index s) \<or> (\<exists>cfgs s'. mb_batch_loop k index s = Inr (cfgs, s') \<and> mb_ok cm opt_ok n s'
    \<and> length cfgs \<le> k \<and> mb_visited s' = mb_visited s @ map cindex cfgs
    \<and> (0 < k \<and> int (length (mb_visited s)) < n \<longrightarrow> cfgs \<noteq> []))"
  using assms
proof (induction k arbitrary: index s)
  case (Suc k)
  have n: "cs_size (mb_space s) = n" and ready: "cs_ready (mb_space s)" using Suc.prems by (auto simp: mb_ok_def)
  show ?case
  proof (cases "int (length (mb_visited s)) \<ge> n")
    case True
    then show ?thesis using Suc.prems by (auto simp: prod.case_eq_if n mb_ok_def)
  next
    case False
    obtain pt index1 where skip: "skip_visited (mb_visited s) (drop (trial_pt s) (trials s)) (trial_pt s) index = (pt, index1)" by force
    let ?src = "if int pt \<ge> int (length (trials s)) - greedy_tail (plan_size s) then sample_new 0 n (mb_visited s) (mb_draws s)
      else case index1 of None \<Rightarrow> Inl UnboundLocalError | Some i \<Rightarrow> Inr (i, mb_draws s)"
    let ?next = "\<lambda>i ds. s\<lparr>mb_space := snd (cs_get (snd (cs_len (mb_space s))) i), trial_pt := pt,
      mb_visited := mb_visited s @ (if i \<in> set (mb_visited s) then [] else [i]), mb_draws := ds\<rparr>"
    have run: "mb_batch_loop (Suc k) index s = res_bind ?src (\<lambda>(i, ds).
        res_bind (cs_at (snd (cs_len (mb_space s))) i) (\<lambda>c.
        res_bind (mb_batch_loop k (Some i) (?next i ds)) (\<lambda>(cfgs, s'). Inr (c # cfgs, s'))))"
      using False skip by (simp add: prod.case_eq_if n Let_def)
    have src: "draws_over ?src \<or> (\<exists>i ds. ?src = Inr (i, ds) \<and> 0 \<le> i \<and> i < n \<and> i \<notin> set (mb_visited s))"
      using pick_source [OF Suc.prems skip] False by (simp add: not_le)
    show ?thesis
    proof (cases "draws_over ?src")
      case True
      then show ?thesis unfolding run by (simp add: draws_over_def)
    next
      case False
      then obtain i ds where i: "?src = Inr (i, ds)" "0 \<le> i" "i < n" "i \<notin> set (mb_visited s)" using src by blast
      then obtain c where c: "cs_at (snd (cs_len (mb_space s))) i = Inr c" "cindex c = i"
        using csp.at_total [of "snd (cs_len (mb_space s))" i] csp.at_index ready n by fastforce
      have ok: "mb_ok cm opt_ok n (?next i ds)" using Suc.prems i(2-4) by (auto simp: mb_ok_def)
      have eq: "mb_batch_loop (Suc k) index s = res_bind (mb_batch_loop k (Some i) (?next i ds)) (\<lambda>(cfgs, s'). Inr (c # cfgs, s'))"
        unfolding run i(1) using c(1) by simp
      from Suc.IH [OF ok, of "Some i"] show ?thesis
      proof
        assume "draws_over (mb_batch_loop k (Some i) (?next i ds))"
        then show ?thesis unfolding eq by (simp add: draws_over_def)
      next
        assume "\<exists>cfgs s'. mb_batch_loop k (Some i) (?next i ds) = Inr (cfgs, s') \<and> mb_ok cm opt_ok n s'
          \<and> length cfgs \<le> k \<and> mb_visited s' = mb_visited (?next i ds) @ map cindex cfgs
          \<and> (0 < k \<and> int (length (mb_visited (?next i ds))) < n \<longrightarrow> cfgs \<noteq> [])"
        then show ?thesis unfolding eq using i(4) c(2) by auto
      qed
    qed
  qed
qed simp

lemma mb_observe_ok:
  assumes "mb_ok cm opt_ok n s" and "good_pairs pairs" and "list_all (\<lambda>pair. mb_proposes s (mi_config (fst pair))) pairs"
  shows "\<exists>s'. mb_observe pairs s = Inr s' \<and> mb_ok cm opt_ok n s' \<and> mb_visited s' = mb_visited s"
  using assms
proof (induction pairs arbitrary: s)
  case (Cons pair pairs)
  have "\<exists>s1. mb_observe_one pair s = Inr s1 \<and> mb_ok cm opt_ok n s1 \<and> mb_visited s1 = mb_visited s"
  proof (cases "error_no (snd pair) = 0")
    case True
    then obtain flops where "measured_flops (fst pair) (snd pair) = Inr flops"
      using measured_flops_total [of "snd pair" "fst pair"] Cons.prems(2) by (auto simp: good_pairs_def prod.case_eq_if)
    then show ?thesis using True Cons.prems by (simp add: mb_observe_one_def mb_proposes_def mb_ok_def Let_def)
  next
    case False
    then show ?thesis using Cons.prems by (simp add: mb_observe_one_def mb_proposes_def mb_ok_def Let_def)
  qed
  then obtain s1 where s1: "mb_observe_one pair s = Inr s1" "mb_ok cm opt_ok n s1" "mb_visited s1 = mb_visited s" by blast
  moreover have "good_pairs pairs" "list_all (\<lambda>pair. mb_proposes s1 (mi_config (fst pair))) pairs"
    using Cons.prems(2,3) s1(3) by (simp_all add: good_pairs_def mb_proposes_def)
  ultimately show ?case using Cons.IH [OF s1(2)] by auto
qed simp

context model_optimizer
begin

lemma update_ok:
  assumes "mb_ok cm opt_ok n s" and "good_pairs pairs" and "list_all (\<lambda>pair. mb_proposes s (mi_config (fst pair))) pairs"
  shows "draws_over (mb_update cm find_max s pairs)
    \<or> (\<exists>s'. mb_update cm find_max s pairs = Inr s' \<and> mb_ok cm opt_ok n s' \<and> mb_visited s' = mb_visited s)"
proof -
  obtain s1 where s1: "mb_observe pairs s = Inr s1" "mb_ok cm opt_ok n s1" "mb_visited s1 = mb_visited s"
    using mb_observe_ok [OF assms] by blast
  show ?thesis
  proof (cases "int (length (mb_xs s1)) \<ge> plan_size s1 * (train_ct s1 + 1) \<and> fgt (flops_max s1) (Fin (1 / 10 ^ 6))")
    case False
    then have "mb_update cm find_max s pairs = Inr s1" unfolding mb_update_def s1(1) by auto
    then show ?thesis using s1 by blast
  next
    case True
    let ?s2 = "s1\<lparr>mb_model := cm_fit cm (mb_model s1) (mb_xs s1) (mb_ys s1) (plan_size s1)\<rparr>"
    have run: "mb_update cm find_max s pairs = res_bind (mb_plan cm find_max ?s2) (\<lambda>(maximums, is_array, opt, ds).
        Inr (?s2\<lparr>trials := maximums, trials_array := is_array, mb_optimizer := opt, mb_draws := ds, trial_pt := 0,
               train_ct := train_ct ?s2 + 1\<rparr>))"
      unfolding mb_update_def s1(1) res_bind.simps if_P [OF True] Let_def ..
    obtain f where f: "cm_predict cm (mb_model ?s2) = map f" using s1(2) unfolding mb_ok_def pointwise_def by metis
    have "opt_ok n (mb_optimizer s1)" "0 < plan_size s1" "set (mb_visited s1) \<subseteq> {0..<n}" using s1(2) by (auto simp: mb_ok_def)
    note law = find_law [OF this, of f "mb_draws s1"]
    have plan: "mb_plan cm find_max ?s2 = res_bind (find_max (map f) (mb_optimizer s1) (plan_size s1) (set (mb_visited s1)) (mb_draws s1))
        (\<lambda>(maximums, opt, ds). Inr (maximums, False, opt, ds))"
      using s1(2) f by (simp add: mb_plan_def mb_ok_def)
    show ?thesis
    proof (cases "find_max (map f) (mb_optimizer s1) (plan_size s1) (set (mb_visited s1)) (mb_draws s1)")
      case (Inl err)
      then show ?thesis using law unfolding run plan by (simp add: draws_over_def)
    next
      case (Inr r)
      obtain ps opt' ds' where r: "r = (ps, opt', ds')" by (cases r)
      have "opt_ok n opt'" "set ps \<subseteq> {0..<n}" using law Inr r by auto
      then have "mb_ok cm opt_ok n (?s2\<lparr>trials := ps, trials_array := False, mb_optimizer := opt', mb_draws := ds', trial_pt := 0,
               train_ct := train_ct ?s2 + 1\<rparr>)" using s1(2) by (simp add: mb_ok_def)
      then show ?thesis using Inr r s1(3) unfolding run plan by simp
    qed
  qed
qed

end

sublocale model_optimizer \<subseteq> mb: recording_tuner "mb_class cm find_max" "mb_ok cm opt_ok n" mb_proposes mb_visited 0 n for cm n
proof unfold_locales
  fix s s' and k :: int and cfgs and pairs :: "measured list"
  show "(\<exists>cfgs s'. next_batch (mb_class cm find_max) s k = Inr (cfgs, s') \<and> mb_ok cm opt_ok n s' \<and> cfgs \<noteq> [] \<and> int (length cfgs) \<le> k
      \<and> list_all (mb_proposes s') cfgs) \<or> draws_over (next_batch (mb_class cm find_max) s k)"
    if "mb_ok cm opt_ok n s" "has_next (mb_class cm find_max) s" "0 < k"
  proof -
    have "int (length (mb_visited s)) < n" using that(1,2) by (simp add: mb_class_def mb_has_next_def mb_ok_def)
    then show ?thesis using mb_batch_ok [OF that(1), of "nat k" None] that(3)
      by (fastforce simp: mb_class_def mb_next_batch_def mb_proposes_def list_all_iff)
  qed
  show "(\<exists>s'. update (mb_class cm find_max) s pairs = Inr s' \<and> mb_ok cm opt_ok n s') \<or> draws_over (update (mb_class cm find_max) s pairs)"
    if "mb_ok cm opt_ok n s" "good_pairs pairs" "list_all (\<lambda>pair. mb_proposes s (mi_config (fst pair))) pairs"
    using update_ok [OF that] by (auto simp: mb_class_def)
  show "mb_visited s' = mb_visited s @ map cindex cfgs" if "mb_ok cm opt_ok n s" "next_batch (mb_class cm find_max) s k = Inr (cfgs, s')"
    using mb_batch_ok [OF that(1), of "nat k" None] that(2) by (auto simp: mb_class_def mb_next_batch_def draws_over_def)
  show "mb_visited s' = mb_visited s" if "mb_ok cm opt_ok n s" "good_pairs pairs" "list_all (\<lambda>pair. mb_proposes s (mi_config (fst pair))) pairs"
      "update (mb_class cm find_max) s pairs = Inr s'"
    using update_ok [OF that(1-3)] that(4) by (auto simp: mb_class_def draws_over_def)
  show "distinct (mb_visited s) \<and> set (mb_visited s) \<subseteq> {0..<n}" if "mb_ok cm opt_ok n s"
    using that by (simp add: mb_ok_def)
qed

interpretation sa: model_optimizer "\<lambda>predict. find_maximums set_iter predict exp_fn"
  "\<lambda>n opt. sa_ok opt \<and> sa_space_len opt = n \<and> (\<forall>xs. mset (set_iter xs) = mset xs)" for set_iter exp_fn
proof unfold_locales
  fix n opt and num :: int and excl f ds
  assume ok: "sa_ok opt \<and> sa_space_len opt = n \<and> (\<forall>xs. mset (set_iter xs) = mset xs)" and num: "0 < num" and excl: "excl \<subseteq> {0..<n}"
  have "\<And>xs. mset (set_iter xs) = mset xs" using ok by blast
  note found = find_maximums_ok [OF this, of opt num excl f exp_fn ds]
  show "case find_maximums set_iter (map f) exp_fn opt num excl ds of
       Inl err \<Rightarrow> err = NoDraws
     | Inr (ps, opt', ds') \<Rightarrow> (sa_ok opt' \<and> sa_space_len opt' = n \<and> (\<forall>xs. mset (set_iter xs) = mset xs)) \<and> distinct ps
         \<and> set ps \<subseteq> {0..<n} - excl \<and> int (length ps) \<le> num"
  proof (cases "find_maximums set_iter (map f) exp_fn opt num excl ds")
    case (Inl err)
    then show ?thesis using found ok num excl by simp
  next
    case (Inr r)
    obtain ps opt' ds' where r: "r = (ps, opt', ds')" by (cases r)
    have "sa_ok opt' \<and> sa_space_len opt' = sa_space_len opt \<and> (\<exists>seen \<subseteq> {0..<sa_space_len opt}.
        best_points f (nat num) excl seen ps \<and> covers_start opt seen)"
      using found ok num excl Inr r by simp
    then show ?thesis using ok num Inr r unfolding best_points_def by auto
  qed
qed

section \<open>Draws that make the tuner proceed\<close>

lemma mb_batch_some:
  assumes "mb_ok cm opt_ok n s"
  shows "\<exists>ds cfgs s'. \<forall>rest. mb_batch_loop k index (s\<lparr>mb_draws := ds @ rest\<rparr>) = Inr (cfgs, s'\<lparr>mb_draws := rest\<rparr>)"
  using assms
proof (induction k arbitrary: index s)
  case (Suc k)
  have n: "cs_size (mb_space s) = n" and ready: "cs_ready (mb_space s)" using Suc.prems by (auto simp: mb_ok_def)
  show ?case
  proof (cases "int (length (mb_visited s)) \<ge> n")
    case True
    then show ?thesis by (intro exI [of _ "[]"] exI [of _ "s\<lparr>mb_space := snd (cs_len (mb_space s))\<rparr>"]) (simp add: prod.case_eq_if n)
  next
    case False
    obtain pt index1 where skip: "skip_visited (mb_visited s) (drop (trial_pt s) (trials s)) (trial_pt s) index = (pt, index1)" by force
    let ?src = "\<lambda>ds. if int pt \<ge> int (length (trials s)) - greedy_tail (plan_size s) then sample_new 0 n (mb_visited s) ds
      else case index1 of None \<Rightarrow> Inl UnboundLocalError | Some i \<Rightarrow> Inr (i, ds)"
    have "\<not> {0..<n} \<subseteq> set (mb_visited s)"
      using False Suc.prems by (auto simp: mb_ok_def dest!: card_mono [rotated] simp: distinct_card)
    then obtain x where "0 \<le> x" "x < n" "x \<notin> set (mb_visited s)" unfolding subset_iff atLeastLessThan_iff by blast
    then have rand: "sample_new 0 n (mb_visited s) (x # ds) = Inr (x, ds)" for ds by (simp add: Let_def)
    have src: "\<exists>i pre. (\<forall>ds. ?src (pre @ ds) = Inr (i, ds)) \<and> 0 \<le> i \<and> i < n \<and> i \<notin> set (mb_visited s)"
    proof (cases "int pt \<ge> int (length (trials s)) - greedy_tail (plan_size s)")
      case True
      then show ?thesis using rand \<open>0 \<le> x\<close> \<open>x < n\<close> \<open>x \<notin> set (mb_visited s)\<close> by (intro exI [of _ x] exI [of _ "[x]"]) simp
    next
      case False
      have "\<not> draws_over (?src (mb_draws s))" using False by (simp add: draws_over_def split: option.split)
      then obtain i ds where "?src (mb_draws s) = Inr (i, ds)" "0 \<le> i" "i < n" "i \<notin> set (mb_visited s)"
        using pick_source [OF Suc.prems skip] \<open>\<not> n \<le> int (length (mb_visited s))\<close> by (meson not_le)
      then show ?thesis using False by (intro exI [of _ i] exI [of _ "[]"]) (simp split: option.splits)
    qed
    then obtain i pre where i: "\<And>ds. ?src (pre @ ds) = Inr (i, ds)" "0 \<le> i" "i < n" "i \<notin> set (mb_visited s)" by blast
    obtain c where c: "cs_at (snd (cs_len (mb_space s))) i = Inr c"
      using csp.at_total [of "snd (cs_len (mb_space s))" i] ready n i(2,3) by auto
    let ?next = "s\<lparr>mb_space := snd (cs_get (snd (cs_len (mb_space s))) i), trial_pt := pt,
      mb_visited := mb_visited s @ (if i \<in> set (mb_visited s) then [] else [i])\<rparr>"
    have "mb_ok cm opt_ok n ?next" using Suc.prems i(2-4) by (auto simp: mb_ok_def)
    from Suc.IH [OF this, of "Some i"] obtain ds cfgs s' where
      ds: "\<And>rest. mb_batch_loop k (Some i) (?next\<lparr>mb_draws := ds @ rest\<rparr>) = Inr (cfgs, s'\<lparr>mb_draws := rest\<rparr>)" by fastforce
    have "mb_batch_loop (Suc k) index (s\<lparr>mb_draws := (pre @ ds) @ rest\<rparr>) = Inr (c # cfgs, s'\<lparr>mb_draws := rest\<rparr>)" for rest
    proof -
    have "mb_batch_loop (Suc k) index (s\<lparr>mb_draws := (pre @ ds) @ rest\<rparr>) = res_bind (?src (pre @ (ds @ rest))) (\<lambda>(i, ds).
        res_bind (cs_at (snd (cs_len (mb_space s))) i) (\<lambda>c.
        res_bind (mb_batch_loop k (Some i) (s\<lparr>mb_space := snd (cs_get (snd (cs_len (mb_space s))) i), trial_pt := pt,
          mb_visited := mb_visited s @ (if i \<in> set (mb_visited s) then [] else [i]), mb_draws := ds\<rparr>))
          (\<lambda>(cfgs, s'). Inr (c # cfgs, s'))))"
      using False skip by (cases index1) (simp_all add: prod.case_eq_if n Let_def)
    also have "\<dots> = Inr (c # cfgs, s'\<lparr>mb_draws := rest\<rparr>)" unfolding i(1) using c ds [of rest] by simp
    finally show ?thesis .
    qed
    then show ?thesis by blast
  qed
next
  case 0
  show ?case by (intro exI [of _ "[]"] exI [of _ s]) simp
qed

lemma mb_observe_draws:
  "mb_observe pairs (s\<lparr>mb_draws := ds\<rparr>) = res_bind (mb_observe pairs s) (\<lambda>s'. Inr (s'\<lparr>mb_draws := ds\<rparr>))"
proof (induction pairs arbitrary: s)
  case (Cons pair pairs)
  have "mb_observe_one pair (s\<lparr>mb_draws := ds\<rparr>) = res_bind (mb_observe_one pair s) (\<lambda>s'. Inr (s'\<lparr>mb_draws := ds\<rparr>))"
    by (cases "measured_flops (fst pair) (snd pair)") (auto simp: mb_observe_one_def Let_def)
  then show ?case using Cons by (cases "mb_observe_one pair s") simp_all
qed simp

lemma mb_observe_frame: "mb_observe pairs s = Inr s' \<Longrightarrow> plan_size s' = plan_size s \<and> mb_optimizer s' = mb_optimizer s"
proof (induction pairs arbitrary: s)
  case (Cons pair pairs)
  then obtain s1 where s1: "mb_observe_one pair s = Inr s1" "mb_observe pairs s1 = Inr s'" by (auto simp: res_bind_eq_Inr)
  have "plan_size s1 = plan_size s \<and> mb_optimizer s1 = mb_optimizer s"
    using s1(1) by (cases "error_no (snd pair) = 0"; cases "measured_flops (fst pair) (snd pair)") (auto simp: mb_observe_one_def Let_def)
  then show ?case using Cons.IH [OF s1(2)] by simp
qed simp

lemma mb_update_some:
  assumes "mb_ok cm opt_ok n s" and "good_pairs pairs" and "list_all (\<lambda>pair. mb_proposes s (mi_config (fst pair))) pairs"
    and "\<And>f. \<exists>ds ps opt'. \<forall>rest. find_max (map f) (mb_optimizer s) (plan_size s) (set (mb_visited s)) (ds @ rest) = Inr (ps, opt', rest)"
  shows "\<exists>ds s'. \<forall>rest. mb_update cm find_max (s\<lparr>mb_draws := ds @ rest\<rparr>) pairs = Inr (s'\<lparr>mb_draws := rest\<rparr>)"
proof -
  obtain s1 where s1: "mb_observe pairs s = Inr s1" "mb_ok cm opt_ok n s1" "mb_visited s1 = mb_visited s"
    using mb_observe_ok [OF assms(1-3)] by blast
  let ?s2 = "\<lambda>ds. s1\<lparr>mb_draws := ds, mb_model := cm_fit cm (mb_model s1) (mb_xs s1) (mb_ys s1) (plan_size s1)\<rparr>"
  obtain f where f: "cm_predict cm (mb_model (?s2 [])) = map f" using s1(2) unfolding mb_ok_def pointwise_def by metis
  obtain ds ps opt where found: "\<And>rest. find_max (map f) (mb_optimizer s1) (plan_size s1) (set (mb_visited s1)) (ds @ rest) = Inr (ps, opt, rest)"
    using assms(4) [of f] s1(3) mb_observe_frame [OF s1(1)] by force
  have plan: "mb_plan cm find_max (?s2 (ds @ rest)) = Inr (ps, False, opt, rest)" for rest
    using s1(2) f found by (simp add: mb_plan_def mb_ok_def)
  show ?thesis
  proof (cases "int (length (mb_xs s1)) \<ge> plan_size s1 * (train_ct s1 + 1) \<and> fgt (flops_max s1) (Fin (1 / 10 ^ 6))")
    case True
    then show ?thesis using plan
      by (intro exI [of _ ds] exI [of _ "(?s2 [])\<lparr>trials := ps, trials_array := False, mb_optimizer := opt, trial_pt := 0, train_ct := train_ct s1 + 1\<rparr>"])
        (simp add: mb_update_def mb_observe_draws s1(1) Let_def)
  next
    case False
    then show ?thesis by (intro exI [of _ "[]"] exI [of _ s1]) (auto simp: mb_update_def mb_observe_draws s1(1))
  qed
qed

section \<open>Runs that return\<close>

text \<open>The loop keeps its measurements apart from the state of the tuner.\<close>

lemma keep_best_sub:
  "keep_best py_str pos pairs (t\<lparr>t_sub := x\<rparr>, ct, errs) = res_bind (keep_best py_str pos pairs (t, ct, errs)) (\<lambda>(t', ct', errs'). Inr (t'\<lparr>t_sub := x\<rparr>, ct', errs'))"
proof (induction pairs arbitrary: pos t ct errs)
  case (Cons pair pairs)
  have "keep_best_one py_str pos pair (t\<lparr>t_sub := x\<rparr>, ct, errs)
      = res_bind (keep_best_one py_str pos pair (t, ct, errs)) (\<lambda>(t', ct', errs'). Inr (t'\<lparr>t_sub := x\<rparr>, ct', errs'))"
    by (cases "measured_flops (fst pair) (snd pair)"; cases "error_text py_str (snd pair)") (auto simp: keep_best_one_def Let_def split: prod.split)
  then show ?case using Cons by (cases "keep_best_one py_str pos pair (t, ct, errs)") auto
qed simp

text \<open>
  A tuner that keeps its random numbers in its state: \<open>feed ds s\<close> is \<open>s\<close> with the random numbers \<open>ds\<close>. Some prefix of them suffices for the next batch and for an update, whatever
  comes after it. Then some random numbers make a whole run return, when the callbacks do not look at them.
\<close>

locale drawing_tuner = recording_tuner +
  fixes feed :: "draws \<Rightarrow> 'a \<Rightarrow> 'a"
  assumes feed_feed: "feed ds (feed ds' s) = feed ds s"
    and feed_same: "invar (feed ds s) = invar s" "has_next cls (feed ds s) = has_next cls s" "proposes (feed ds s) = proposes s" "tried (feed ds s) = tried s"
    and batch_feeds: "invar s \<Longrightarrow> \<exists>pre cfgs s'. \<forall>rest. next_batch cls (feed (pre @ rest) s) n = Inr (cfgs, feed rest s')"
    and update_feeds: "invar s \<Longrightarrow> good_pairs pairs \<Longrightarrow> list_all (\<lambda>pair. proposes s (mi_config (fst pair))) pairs \<Longrightarrow>
      \<exists>pre s'. \<forall>rest. update cls (feed (pre @ rest) s) pairs = Inr (feed rest s')"
begin

definition fed :: "draws \<Rightarrow> ('a, 'e) tune_state \<Rightarrow> ('a, 'e) tune_state" where
  "fed ds st = st\<lparr>ts_tuner := (ts_tuner st)\<lparr>t_sub := feed ds (t_sub (ts_tuner st))\<rparr>\<rparr>"

definition blind :: "('a, 'e) callback list \<Rightarrow> bool" where
  "blind callbacks \<longleftrightarrow> (\<forall>f \<in> set callbacks. \<forall>t e pairs ds. f (t\<lparr>t_sub := feed ds (t_sub t)\<rparr>) e pairs = f t e pairs)"

lemma fed_ok: "loop_ok invar limit (fed ds st) = loop_ok invar limit st" "ts_i (fed ds st) = ts_i st"
  "has_next cls (t_sub (ts_tuner (fed ds st))) = has_next cls (t_sub (ts_tuner st))" "fed ds (fed ds' st) = fed ds st"
  "best_iter (ts_tuner (fed ds st)) = best_iter (ts_tuner st)"
  by (simp_all add: fed_def loop_ok_def feed_same feed_feed)

lemma blind_run:
  "blind callbacks \<Longrightarrow> res_foldl (\<lambda>e f. f (t\<lparr>t_sub := feed ds s\<rparr>) e pairs) e callbacks = res_foldl (\<lambda>e f. f (t\<lparr>t_sub := feed ds' s\<rparr>) e pairs) e callbacks"
proof (induction callbacks arbitrary: e)
  case (Cons f fs)
  have one: "f (t'\<lparr>t_sub := feed ds (t_sub t')\<rparr>) e pairs = f t' e pairs" for t' ds using Cons.prems by (simp add: blind_def)
  have "f (t\<lparr>t_sub := feed ds s\<rparr>) e pairs = f (t\<lparr>t_sub := s\<rparr>) e pairs" for ds
    using one [of ds "t\<lparr>t_sub := s\<rparr>"] by simp
  moreover have "blind fs" using Cons.prems by (simp add: blind_def)
  ultimately show ?case using Cons.IH by (cases "f (t\<lparr>t_sub := s\<rparr>) e pairs") simp_all
qed simp

lemma step_feeds:
  assumes "loop_ok invar limit st" and "good_measure mb" and "ts_i st < limit" and "has_next cls (t_sub (ts_tuner st))"
    and "good_callbacks callbacks" and "blind callbacks"
  obtains pre st' go_on where "\<And>rest. tune_step cls mb callbacks py_str limit early (fed (pre @ rest) st) = Inr (fed rest st', go_on)"
    and "loop_ok invar limit st'" and "ts_i st < ts_i st'"
proof -
  let ?t = "ts_tuner st" and ?n = "min (batch_parallel mb) (limit - ts_i st)"
  have n: "0 < ?n" using assms(2,3) by (simp add: good_measure_def)
  have inv: "invar (t_sub ?t)" and flop: "task_flop (t_task ?t) \<noteq> None" and best: "best_ok ?t (ts_history st)"
    and i: "ts_i st = int (length (ts_history st))" using assms(1) by (auto simp: loop_ok_def)
  obtain pre1 cfgs sub1 where nb: "\<And>rest. next_batch cls (feed (pre1 @ rest) (t_sub ?t)) ?n = Inr (cfgs, feed rest sub1)"
    using batch_feeds [OF inv] by blast
  have "invar (feed (pre1 @ []) (t_sub ?t))" "has_next cls (feed (pre1 @ []) (t_sub ?t))" using inv assms(4) by (simp_all add: feed_same)
  from batch_law [OF this n] nb [of "[]"] have sub1: "invar sub1" "list_all (proposes sub1) cfgs" by (auto simp: feed_same draws_over_def)
  define inputs where "inputs = map (\<lambda>c. \<lparr>mi_target = task_target (t_task ?t), mi_task = t_task ?t, mi_config = c\<rparr>) cfgs"
  obtain results env1 where mb: "batch_call mb (ts_env st) inputs = (results, env1)" by (cases "batch_call mb (ts_env st) inputs")
  then have len: "length results = length inputs" and good: "list_all good_result results" using assms(2) unfolding good_measure_def by (metis fst_conv)+
  define pairs where "pairs = zip inputs results"
  have gp: "good_pairs pairs"
    using good flop by (fastforce simp: good_pairs_def pairs_def inputs_def list_all_iff dest: set_zip_rightD set_zip_leftD)
  have "map (mi_config \<circ> fst) pairs = cfgs"
    using len by (simp add: pairs_def inputs_def comp_def flip: map_map [of mi_config fst, unfolded comp_def])
  then have "list_all (\<lambda>pair. proposes sub1 (mi_config (fst pair))) pairs" using sub1(2) by (fastforce simp: list_all_iff)
  then obtain pre2 sub2 where up: "\<And>rest. update cls (feed (pre2 @ rest) sub1) pairs = Inr (feed rest sub2)" using update_feeds [OF sub1(1) gp] by blast
  obtain t1 ct errs where kb: "keep_best py_str (ts_i st) pairs (?t, ts_error_ct st, ts_errors st) = Inr (t1, ct, errs)"
    using keep_best_ok [OF best gp] unfolding i by fastforce
  let ?t2 = "t1\<lparr>ttl := Some (min (early + best_iter t1) limit - (ts_i st + int (length results)))\<rparr>"
  obtain env2 where "res_foldl (\<lambda>e f. f (?t2\<lparr>t_sub := feed [] sub2\<rparr>) e pairs) env1 callbacks = Inr env2" using good_callbacks_run [OF assms(5) gp] by blast
  then have cb: "res_foldl (\<lambda>e f. f (?t2\<lparr>t_sub := feed rest sub2\<rparr>) e pairs) env1 callbacks = Inr env2" for rest using blind_run [OF assms(6)] by metis
  define go_on where "go_on \<longleftrightarrow> \<not> ts_i st + int (length results) \<ge> best_iter t1 + early"
  define st' where "st' = \<lparr>ts_tuner = ?t2\<lparr>t_sub := sub2\<rparr>, ts_i = ts_i st + int (length results), ts_error_ct = ct, ts_errors = errs,
     ts_debug = (if \<not> go_on then ts_debug st else ct > error_ct_threshold t1), ts_env = env2, ts_history = ts_history st @ pairs\<rparr>"
  have run: "tune_step cls mb callbacks py_str limit early (fed ((pre1 @ pre2) @ rest) st) = Inr (fed rest st', go_on)" for rest
    using nb [of "pre2 @ rest"] up [of rest] cb [of rest] mb kb
    by (simp add: tune_step_def fed_def Let_def keep_best_sub inputs_def [symmetric] pairs_def [symmetric] st'_def go_on_def)
  have "loop_ok invar limit (fed ((pre1 @ pre2) @ []) st)" "ts_i (fed ((pre1 @ pre2) @ []) st) < limit"
    "has_next cls (t_sub (ts_tuner (fed ((pre1 @ pre2) @ []) st)))" using assms(1,3,4) by (simp_all add: fed_ok)
  from step_ok [OF this(1) assms(2) this(2,3) assms(5), of py_str early] run [of "[]"]
  have "loop_ok invar limit st'" "ts_i st < ts_i st'" by (auto simp: fed_ok draws_over_def)
  with that run show thesis .
qed

lemma loop_feeds:
  assumes "loop_ok invar limit st" and "good_measure mb" and "limit - ts_i st \<le> int fuel" and "good_callbacks callbacks" and "blind callbacks"
  shows "\<exists>ds st'. tune_loop fuel cls mb callbacks py_str limit early (fed ds st) = Some (Inr st')"
  using assms(1,3)
proof (induction fuel arbitrary: st)
  case 0
  then show ?case by (auto simp: tune_loop.simps [of 0] fed_ok)
next
  case (Suc fuel)
  show ?case
  proof (cases "ts_i st < limit \<and> has_next cls (t_sub (ts_tuner st))")
    case False
    then show ?thesis by (auto simp: tune_loop.simps [of "Suc fuel"] fed_ok)
  next
    case True
    then obtain pre st' go_on where st': "\<And>rest. tune_step cls mb callbacks py_str limit early (fed (pre @ rest) st) = Inr (fed rest st', go_on)"
      "loop_ok invar limit st'" "ts_i st < ts_i st'"
      using step_feeds [OF Suc.prems(1) assms(2) _ _ assms(4,5), of py_str early] by blast
    have "limit - ts_i st' \<le> int fuel" using st'(3) Suc.prems(2) by simp
    from Suc.IH [OF st'(2) this] obtain ds st'' where "tune_loop fuel cls mb callbacks py_str limit early (fed ds st') = Some (Inr st'')" by blast
    then show ?thesis using st'(1) [of ds] True
      by (intro exI [of _ "pre @ ds"]) (cases go_on; simp add: tune_loop.simps [of "Suc fuel"] fed_ok)
  qed
qed

lemma tune_feeds:
  assumes "invar s" and "task_flop t \<noteq> None" and "good_measure mb" and "0 \<le> limit" and "format_si_prefix 0 si = Inr x" and "good_callbacks callbacks"
    and "blind callbacks"
  shows "\<exists>ds st warned. tune (nat limit) cls mb callbacks py_str (tuner_init t (feed ds s)) env limit early si = Some (Inr (st, warned))"
proof -
  let ?st = "\<lparr>ts_tuner = (tuner_init t s)\<lparr>n_trial := Some limit, early_stopping := Some (early_limit early)\<rparr>,
    ts_i = 0, ts_error_ct = 0, ts_errors = [], ts_debug = False, ts_env = env, ts_history = []\<rparr>"
  have "loop_ok invar limit ?st" using assms by (simp_all add: loop_ok_def best_ok_def tuner_init_def)
  from loop_feeds [OF this assms(3) _ assms(6,7), of "nat limit" py_str "early_limit early"] assms(4) obtain ds st' where
    "tune_loop (nat limit) cls mb callbacks py_str limit (early_limit early) (fed ds ?st) = Some (Inr st')" by auto
  then show ?thesis using assms(5) by (intro exI [of _ ds]) (simp add: tune_def Let_def fed_def tuner_init_def)
qed

end

abbreviation sa_tuner_class ::
  "'m cost_model \<Rightarrow> (int list \<Rightarrow> int list) \<Rightarrow> (rat \<Rightarrow> rat) \<Rightarrow> ('m, sa_optimizer) mb_tuner tuner_class" where
  "sa_tuner_class cm set_iter exp_fn \<equiv> mb_class cm (\<lambda>predict. find_maximums set_iter predict exp_fn)"

abbreviation sa_opt_ok :: "(int list \<Rightarrow> int list) \<Rightarrow> int \<Rightarrow> sa_optimizer \<Rightarrow> bool" where
  "sa_opt_ok set_iter n opt \<equiv> sa_ok opt \<and> sa_space_len opt = n \<and> (\<forall>xs. mset (set_iter xs) = mset xs)"

text \<open>Optimisers that return for some random numbers, whatever comes after them. Simulated annealing is one on a space with two configurations.\<close>

locale feeding_optimizer = model_optimizer +
  assumes find_feeds: "opt_ok n opt \<Longrightarrow> 0 < num \<Longrightarrow> excl \<subseteq> {0..<n} \<Longrightarrow>
    \<exists>ds ps opt'. \<forall>rest. find_max (map f) opt num excl (ds @ rest) = Inr (ps, opt', rest)"

sublocale feeding_optimizer \<subseteq> md: drawing_tuner "mb_class cm find_max" "mb_ok cm opt_ok n" mb_proposes mb_visited 0 n "\<lambda>ds s. s\<lparr>mb_draws := ds\<rparr>" for cm n
proof unfold_locales
  fix s :: "('b, 'a) mb_tuner" and k :: int and pairs :: "measured list" and ds ds' :: draws
  show "s\<lparr>mb_draws := ds', mb_draws := ds\<rparr> = s\<lparr>mb_draws := ds\<rparr>" by simp
  show "mb_ok cm opt_ok n (s\<lparr>mb_draws := ds\<rparr>) = mb_ok cm opt_ok n s" by (simp add: mb_ok_def)
  show "has_next (mb_class cm find_max) (s\<lparr>mb_draws := ds\<rparr>) = has_next (mb_class cm find_max) s" by (simp add: mb_class_def mb_has_next_def)
  show "mb_proposes (s\<lparr>mb_draws := ds\<rparr>) = mb_proposes s" by (simp add: mb_proposes_def fun_eq_iff)
  show "mb_visited (s\<lparr>mb_draws := ds\<rparr>) = mb_visited s" by simp
  show "\<exists>pre cfgs s'. \<forall>rest. next_batch (mb_class cm find_max) (s\<lparr>mb_draws := pre @ rest\<rparr>) k = Inr (cfgs, s'\<lparr>mb_draws := rest\<rparr>)" if "mb_ok cm opt_ok n s"
    using mb_batch_some [OF that, of "nat k" None] by (simp add: mb_class_def mb_next_batch_def)
  show "\<exists>pre s'. \<forall>rest. update (mb_class cm find_max) (s\<lparr>mb_draws := pre @ rest\<rparr>) pairs = Inr (s'\<lparr>mb_draws := rest\<rparr>)"
    if "mb_ok cm opt_ok n s" "good_pairs pairs" "list_all (\<lambda>pair. mb_proposes s (mi_config (fst pair))) pairs"
    using mb_update_some [OF that, of find_max] find_feeds [of n "mb_optimizer s" "plan_size s" "set (mb_visited s)"] that(1) by (simp add: mb_class_def mb_ok_def)
qed

interpretation saf: feeding_optimizer "\<lambda>predict. find_maximums set_iter predict exp_fn"
  "\<lambda>n opt. sa_opt_ok set_iter n opt \<and> list_ex (\<lambda>d. 1 < d) (sa_dims opt)" for set_iter exp_fn
proof unfold_locales
  fix n opt and num :: int and excl f ds
  assume ok: "sa_opt_ok set_iter n opt \<and> list_ex (\<lambda>d. 1 < d) (sa_dims opt)" and num: "0 < num" and excl: "excl \<subseteq> {0..<n}"
  have "\<And>xs. mset (set_iter xs) = mset xs" using ok by blast
  note found = find_maximums_ok [OF this, of opt num excl f exp_fn ds]
  show "case find_maximums set_iter (map f) exp_fn opt num excl ds of
       Inl err \<Rightarrow> err = NoDraws
     | Inr (ps, opt', ds') \<Rightarrow> (sa_opt_ok set_iter n opt' \<and> list_ex (\<lambda>d. 1 < d) (sa_dims opt')) \<and> distinct ps
         \<and> set ps \<subseteq> {0..<n} - excl \<and> int (length ps) \<le> num"
  proof -
    have "case find_maximums set_iter (map f) exp_fn opt num excl ds of
         Inl err \<Rightarrow> err = NoDraws
       | Inr (ps, opt', ds') \<Rightarrow> sa_opt_ok set_iter n opt' \<and> distinct ps \<and> set ps \<subseteq> {0..<n} - excl \<and> int (length ps) \<le> num"
      by (rule sa.find_law) (use ok num excl in auto)
    then show ?thesis using found ok num excl by (auto split: sum.splits)
  qed
  show "\<exists>ds ps opt'. \<forall>rest. find_maximums set_iter (map f) exp_fn opt num excl (ds @ rest) = Inr (ps, opt', rest)"
    using found ok num excl by blast
qed

text \<open>Callbacks that do not look at the random numbers of the tuner.\<close>

definition blind_callbacks :: "(('m, 'o) mb_tuner, 'e) callback list \<Rightarrow> bool" where
  "blind_callbacks callbacks \<longleftrightarrow> (\<forall>f \<in> set callbacks. \<forall>t e pairs ds. f (t\<lparr>t_sub := (t_sub t)\<lparr>mb_draws := ds\<rparr>\<rparr>) e pairs = f t e pairs)"

lemma mb_init_sa_ok:
  assumes "\<And>xs. mset (set_iter xs) = mset xs" and "cs_ready cs" and "cs_dims cs \<noteq> []" and "pointwise cm" and "0 < plan" and "0 \<le> par_size"
    and "mb_init cs model (sa_init cs n_iter temp keep par_size early_sa) plan ONone ds = Inr s"
  shows "mb_ok cm (sa_opt_ok set_iter) (cs_size cs) s" "mb_visited s = []" "sa_dims (mb_optimizer s) = cs_dims cs" "0 < cs_size cs"
    "mb_init cs model (sa_init cs n_iter temp keep par_size early_sa) plan ONone ds' = Inr (s\<lparr>mb_draws := ds'\<rparr>)"
proof -
  have sz: "cs_size cs = prod_list (cs_dims cs)" "0 < cs_size cs"
    using cs_ready_size [OF assms(2)] cs_ready_dims [OF assms(2)] by (auto simp: good_dims_def intro: prod_list_pos)
  let ?opt = "sa_init cs n_iter temp keep par_size early_sa"
  have "sa_ok ?opt" "sa_space_len ?opt = cs_size cs"
    using sz cs_ready_dims [OF assms(2)] assms(3,6) by (simp_all add: sa_ok_def sa_init_def)
  then show "mb_ok cm (sa_opt_ok set_iter) (cs_size cs) s" "mb_visited s = []" "sa_dims (mb_optimizer s) = cs_dims cs"
    "mb_init cs model ?opt plan ONone ds' = Inr (s\<lparr>mb_draws := ds'\<rparr>)"
    using assms(1,2,4,5,7) by (auto simp: mb_init_def mb_ok_def ratio_set_def sa_init_def split: if_splits)
  show "0 < cs_size cs" by (rule sz)
qed

lemma model_tune_records:
  assumes "\<And>xs. mset (set_iter xs) = mset xs" and "cs_ready cs" and "cs_dims cs \<noteq> []" and "pointwise cm"
    and "0 < plan" and "0 \<le> par_size" and "task_flop t \<noteq> None" and "good_measure mb" and "0 \<le> limit" and "format_si_prefix 0 si = Inr x"
    and "mb_init cs model (sa_init cs n_iter temp keep par_size early_sa) plan ONone ds = Inr s" and "good_callbacks callbacks"
  shows "tune (nat limit) (sa_tuner_class cm set_iter exp_fn) mb callbacks py_str (tuner_init t s) env limit early si = Some (Inl NoDraws)
    \<or> (\<exists>st warned. tune (nat limit) (sa_tuner_class cm set_iter exp_fn) mb callbacks py_str (tuner_init t s) env limit early si = Some (Inr (st, warned))
        \<and> best_ok (ts_tuner st) (ts_history st)
        \<and> distinct (map (cindex \<circ> (mi_config \<circ> fst)) (ts_history st))
        \<and> set (map (cindex \<circ> (mi_config \<circ> fst)) (ts_history st)) \<subseteq> {0..<cs_size cs}
        \<and> (int (length (ts_history st)) = min limit (cs_size cs)
            \<or> int (length (ts_history st)) \<ge> best_iter (ts_tuner st) + early_limit early))"
proof -
  note init = mb_init_sa_ok [OF assms(1-6,11)]
  show ?thesis
    using sa.mb.tune_records [OF init(1,2) assms(7-10,12), of exp_fn py_str env early]
  proof
    assume "\<exists>st warned. tune (nat limit) (sa_tuner_class cm set_iter exp_fn) mb callbacks py_str (tuner_init t s) env limit early si
          = Some (Inr (st, warned)) \<and> best_ok (ts_tuner st) (ts_history st) \<and> sa.mb.tracks st
      \<and> mb_ok cm (sa_opt_ok set_iter) (cs_size cs) (t_sub (ts_tuner st)) \<and> int (length (ts_history st)) \<le> limit
      \<and> (int (length (ts_history st)) = limit \<or> \<not> has_next (sa_tuner_class cm set_iter exp_fn) (t_sub (ts_tuner st))
        \<or> best_iter (ts_tuner st) + early_limit early \<le> int (length (ts_history st)))"
    then obtain st warned where st: "tune (nat limit) (sa_tuner_class cm set_iter exp_fn) mb callbacks py_str (tuner_init t s) env limit early si = Some (Inr (st, warned))"
      "best_ok (ts_tuner st) (ts_history st)" "sa.mb.tracks st"
      "mb_ok cm (sa_opt_ok set_iter) (cs_size cs) (t_sub (ts_tuner st))" "int (length (ts_history st)) \<le> limit"
      "int (length (ts_history st)) = limit \<or> \<not> has_next (sa_tuner_class cm set_iter exp_fn) (t_sub (ts_tuner st))
        \<or> best_iter (ts_tuner st) + early_limit early \<le> int (length (ts_history st))" by blast
    let ?v = "mb_visited (t_sub (ts_tuner st))"
    have hist: "?v = map (cindex \<circ> (mi_config \<circ> fst)) (ts_history st)" using st(3) by (simp add: sa.mb.tracks_def)
    have v: "distinct ?v" "set ?v \<subseteq> {0..<cs_size cs}" using st(4) by (simp_all add: mb_ok_def)
    have "length ?v \<le> card {0..<cs_size cs}"
      using card_mono [OF finite_atLeastLessThan_int v(2)] distinct_card [OF v(1)] by simp
    then have len: "int (length (ts_history st)) \<le> cs_size cs" using init(4) by (simp add: hist)
    have "cs_size cs \<le> int (length (ts_history st))" if "\<not> has_next (sa_tuner_class cm set_iter exp_fn) (t_sub (ts_tuner st))"
      using that hist st(4) by (simp add: mb_class_def mb_has_next_def mb_ok_def)
    then have "int (length (ts_history st)) = min limit (cs_size cs)
        \<or> int (length (ts_history st)) \<ge> best_iter (ts_tuner st) + early_limit early" using st(5,6) len by linarith
    then show ?thesis using st(1,2) v unfolding hist by blast
  qed simp
qed

text \<open>
  C23. A run of the model based tuner with the simulated annealing optimiser and without a diversity filter (the default, \<open>diversity_filter_ratio = None\<close>; with one, see
  \<open>diversity_filter_failures\<close>), on a ready space, with a model that scores every point on its own, results that have costs and callbacks that do not raise, measures pairwise different
  configurations of the space, at most \<open>n_trial\<close>, and keeps a fastest successful one; it ends at the limit, when the whole space was measured or
  by early stopping. It fails in no other way than by waiting for more random numbers, and on a space with two configurations some random numbers make the whole run return,
  when the callbacks do not look at them.
\<close>

theorem model_based_tune:
  assumes "\<And>xs. mset (set_iter xs) = mset xs" and "cs_ready cs" and "cs_dims cs \<noteq> []" and "pointwise cm"
    and "0 < plan" and "0 \<le> par_size" and "task_flop t \<noteq> None" and "good_measure mb" and "0 \<le> limit" and "format_si_prefix 0 si = Inr x"
    and "mb_init cs model (sa_init cs n_iter temp keep par_size early_sa) plan ONone ds = Inr s" and "good_callbacks callbacks"
  shows "(tune (nat limit) (sa_tuner_class cm set_iter exp_fn) mb callbacks py_str (tuner_init t s) env limit early si = Some (Inl NoDraws)
    \<or> (\<exists>st warned. tune (nat limit) (sa_tuner_class cm set_iter exp_fn) mb callbacks py_str (tuner_init t s) env limit early si = Some (Inr (st, warned))
        \<and> best_ok (ts_tuner st) (ts_history st)
        \<and> distinct (map (cindex \<circ> (mi_config \<circ> fst)) (ts_history st))
        \<and> set (map (cindex \<circ> (mi_config \<circ> fst)) (ts_history st)) \<subseteq> {0..<cs_size cs}
        \<and> (int (length (ts_history st)) = min limit (cs_size cs)
            \<or> int (length (ts_history st)) \<ge> best_iter (ts_tuner st) + early_limit early)))
    \<and> (list_ex (\<lambda>d. 1 < d) (cs_dims cs) \<and> blind_callbacks callbacks \<longrightarrow>
         (\<exists>ds' s' st warned. mb_init cs model (sa_init cs n_iter temp keep par_size early_sa) plan ONone ds' = Inr s'
            \<and> tune (nat limit) (sa_tuner_class cm set_iter exp_fn) mb callbacks py_str (tuner_init t s') env limit early si = Some (Inr (st, warned))))"
proof (intro conjI impI)
  show "tune (nat limit) (sa_tuner_class cm set_iter exp_fn) mb callbacks py_str (tuner_init t s) env limit early si = Some (Inl NoDraws)
    \<or> (\<exists>st warned. tune (nat limit) (sa_tuner_class cm set_iter exp_fn) mb callbacks py_str (tuner_init t s) env limit early si = Some (Inr (st, warned))
        \<and> best_ok (ts_tuner st) (ts_history st)
        \<and> distinct (map (cindex \<circ> (mi_config \<circ> fst)) (ts_history st))
        \<and> set (map (cindex \<circ> (mi_config \<circ> fst)) (ts_history st)) \<subseteq> {0..<cs_size cs}
        \<and> (int (length (ts_history st)) = min limit (cs_size cs)
            \<or> int (length (ts_history st)) \<ge> best_iter (ts_tuner st) + early_limit early))"
    by (rule model_tune_records [OF assms])
next
  note init = mb_init_sa_ok [OF assms(1-6,11)]
  assume a: "list_ex (\<lambda>d. 1 < d) (cs_dims cs) \<and> blind_callbacks callbacks"
  have "mb_ok cm (\<lambda>n opt. sa_opt_ok set_iter n opt \<and> list_ex (\<lambda>d. 1 < d) (sa_dims opt)) (cs_size cs) s"
    using init(1,3) a by (simp add: mb_ok_def)
  moreover have "saf.md.blind callbacks" using a unfolding saf.md.blind_def blind_callbacks_def by blast
  ultimately obtain ds' st warned where
    "tune (nat limit) (sa_tuner_class cm set_iter exp_fn) mb callbacks py_str (tuner_init t (s\<lparr>mb_draws := ds'\<rparr>)) env limit early si = Some (Inr (st, warned))"
    using saf.md.tune_feeds [OF _ assms(7-10,12), of cm set_iter "cs_size cs" s exp_fn py_str env early] by blast
  then show "\<exists>ds' s' st warned. mb_init cs model (sa_init cs n_iter temp keep par_size early_sa) plan ONone ds' = Inr s'
      \<and> tune (nat limit) (sa_tuner_class cm set_iter exp_fn) mb callbacks py_str (tuner_init t s') env limit early si = Some (Inr (st, warned))"
    using init(5) by blast
qed

text \<open>
  The diversity filter: with a fractional ratio the plan raises \<open>TypeError\<close>, because the number of candidates is
  then a float; and when the optimiser returns fewer candidates than \<open>plan_size\<close> it raises \<open>ValueError\<close>, or
  \<open>IndexError\<close> if it returns none.
\<close>

theorem diversity_filter_failures:
  assumes "pointwise cm" and "good_dims (mb_dims s)" and "0 < plan_size s"
  shows "(\<forall>q. diversity_filter_ratio s = OFloat q \<and> q \<noteq> 0 \<longrightarrow> mb_plan cm find_max s = Inl TypeErr)
    \<and> (\<forall>ratio candidate opt ds. diversity_filter_ratio s = OInt ratio \<and> ratio \<noteq> 0
         \<and> find_max (cm_predict cm (mb_model s)) (mb_optimizer s) (plan_size s * ratio) (set (mb_visited s)) (mb_draws s) = Inr (candidate, opt, ds)
         \<and> int (length candidate) < plan_size s \<longrightarrow>
       mb_plan cm find_max s = Inl (if candidate = [] then IndexError else ValueError))"
proof (intro conjI allI impI)
  show "mb_plan cm find_max s = Inl TypeErr" if "diversity_filter_ratio s = OFloat q \<and> q \<noteq> 0" for q
    using that by (simp add: mb_plan_def ratio_set_def)
next
  fix ratio candidate opt ds
  assume a: "diversity_filter_ratio s = OInt ratio \<and> ratio \<noteq> 0
    \<and> find_max (cm_predict cm (mb_model s)) (mb_optimizer s) (plan_size s * ratio) (set (mb_visited s)) (mb_draws s) = Inr (candidate, opt, ds)
    \<and> int (length candidate) < plan_size s"
  let ?knob = "\<lambda>x. projr (point2knob x (mb_dims s))"
  obtain f where f: "cm_predict cm (mb_model s) = map f" using assms(1) unfolding pointwise_def by metis
  have knob: "point2knob x (mb_dims s) = Inr (?knob x)" "length (?knob x) = length (mb_dims s)" for x
    using kc.to_knob_total [OF assms(2), of x] in_dims_length by (metis sum.sel(2))+
  then have knobs: "res_map (\<lambda>x. point2knob x (mb_dims s)) candidate = Inr (map ?knob candidate)" by (intro res_map_total) blast
  have hd_len: "\<forall>k \<in> set (map ?knob candidate). length k = length (hd (map ?knob candidate))"
    using knob(2) by (cases candidate) auto
  have "submodular_pick (map (\<lambda>sc. 0 * sc) (map f candidate)) (map ?knob candidate) (plan_size s) 1
      = Inl (if candidate = [] then IndexError else ValueError)"
    using submodular_pick_ok [OF _ hd_len, of "map (\<lambda>sc. 0 * sc) (map f candidate)" 1 "plan_size s"] assms(3) a by auto
  note pick = this
  have "ratio_set (diversity_filter_ratio s)" "diversity_filter_ratio s = OInt ratio" using a by (simp_all add: ratio_set_def)
  moreover have "find_max (map f) (mb_optimizer s) (plan_size s * ratio) (set (mb_visited s)) (mb_draws s) = Inr (candidate, opt, ds)"
    using a f by simp
  ultimately show "mb_plan cm find_max s = Inl (if candidate = [] then IndexError else ValueError)"
    unfolding mb_plan_def f by (simp only: if_True pyobj.case res_bind.simps prod.case knobs pick)
qed

definition flat_model :: "unit cost_model" where
  "flat_model = \<lparr>cm_fit = (\<lambda>m xs ys n. m), cm_fit_log = (\<lambda>m data n k. (False, m)), cm_predict = (\<lambda>m xs. map (\<lambda>x. 1) xs),
     cm_load_basemodel = (\<lambda>m base. m), cm_spawn_base_model = (\<lambda>m. m)\<rparr>"

definition sample_model_tuner :: "(unit, sa_optimizer) mb_tuner" where
  "sample_model_tuner = projr (mb_init sample_space () (sa_init sample_space 5 (1, 0) True 2 None) 4 ONone [])"

lemma sample_space_dims: "cs_dims sample_space = [3, 2]"
  by (simp add: sample_space_def cs_dims_def space_len_def)

lemma sample_space_size: "cs_size sample_space = 6"
  using cs_ready_size [OF sample_space_ready] by (simp add: sample_space_dims)

text \<open>A run that returns, on a space of six configurations.\<close>

theorem model_based_tune_witness:
  "\<exists>ds s st warned. mb_init sample_space () (sa_init sample_space 5 (1, 0) True 2 None) 4 ONone ds = Inr s
     \<and> tune 10 (sa_tuner_class flat_model rev id) sample_measure [] (\<lambda>_. []) (tuner_init sample_task s) () 10 None ''G'' = Some (Inr (st, warned))
     \<and> distinct (map (cindex \<circ> (mi_config \<circ> fst)) (ts_history st))
     \<and> (length (ts_history st) = 6 \<or> int (length (ts_history st)) \<ge> best_iter (ts_tuner st) + 10 ^ 9)"
proof -
  let ?opt = "sa_init sample_space 5 (1, 0) True 2 None"
  note dims = sample_space_dims and size = sample_space_size
  have init: "mb_init sample_space () ?opt 4 ONone [] = Inr sample_model_tuner"
    by (simp add: sample_model_tuner_def mb_init_def ratio_set_def size)
  have pw: "pointwise flat_model" by (auto simp: pointwise_def flat_model_def)
  obtain x where x: "format_si_prefix 0 ''G'' = Inr x" using format_si_G by blast
  have flop: "task_flop sample_task \<noteq> None" by (simp add: sample_task_def)
  have ne: "cs_dims sample_space \<noteq> []" by (simp add: dims)
  note run = model_based_tune [of rev sample_space flat_model 4 2 sample_task sample_measure 10 "''G''" x "()" 5 "(1, 0)" True None _
        _ "[]" id "\<lambda>_. []" "()" None,
        OF _ sample_space_ready ne pw _ _ flop sample_measure_good _ x _ good_callbacks_none]
  have "blind_callbacks []" by (simp add: blind_callbacks_def)
  then obtain ds s st warned where s: "mb_init sample_space () ?opt 4 ONone ds = Inr s"
    "tune 10 (sa_tuner_class flat_model rev id) sample_measure [] (\<lambda>_. []) (tuner_init sample_task s) () 10 None ''G'' = Some (Inr (st, warned))"
    using run [OF _ _ _ _ init] dims by auto
  moreover have "distinct (map (cindex \<circ> (mi_config \<circ> fst)) (ts_history st))"
    "length (ts_history st) = 6 \<or> int (length (ts_history st)) \<ge> best_iter (ts_tuner st) + 10 ^ 9"
    using run [OF _ _ _ _ s(1)] s(2) by (auto simp: size early_limit_def)
  ultimately show ?thesis by blast
qed

theorem diversity_filter_failures_witness:
  "mb_plan flat_model (\<lambda>predict opt num excl ds. Inr ([0, 1], opt, ds)) (sample_model_tuner\<lparr>diversity_filter_ratio := OInt 2\<rparr>)
     = Inl ValueError"
proof -
  have "pointwise flat_model" by (auto simp: pointwise_def flat_model_def)
  moreover have "good_dims (mb_dims (sample_model_tuner\<lparr>diversity_filter_ratio := OInt 2\<rparr>))"
    by (simp add: sample_model_tuner_def mb_init_def ratio_set_def good_dims_def sample_space_dims sample_space_size)
  moreover have "plan_size (sample_model_tuner\<lparr>diversity_filter_ratio := OInt 2\<rparr>) = 4"
    by (simp add: sample_model_tuner_def mb_init_def ratio_set_def sample_space_size)
  ultimately show ?thesis
    using diversity_filter_failures [of flat_model "sample_model_tuner\<lparr>diversity_filter_ratio := OInt 2\<rparr>"
      "\<lambda>predict opt num excl ds. Inr ([0, 1], opt, ds)"] by simp
qed

end
