(* ===== verification/Metric.thy ===== *)
theory Metric
  imports MeasureCorrect
begin

text \<open>
  The curves of \<open>autotvm/tuner/metric.py\<close> that describe a tuning run, over exact scores; ranks are
  natural numbers, as \<open>get_rank\<close> computes them. Correctness is stated per point of a curve.
\<close>

section \<open>Curves\<close>

fun max_curve_loop :: "rat \<Rightarrow> rat list \<Rightarrow> rat list" where
  "max_curve_loop keep [] = []"
| "max_curve_loop keep (score # scores) =
     (let keep' = (if score > keep then score else keep) in keep' # max_curve_loop keep' scores)"

definition max_curve :: "rat list \<Rightarrow> rat list" where
  "max_curve trial_scores = max_curve_loop (- (10 ^ 9)) trial_scores"

fun mean_curve_loop :: "nat \<Rightarrow> rat \<Rightarrow> rat list \<Rightarrow> rat list" where
  "mean_curve_loop i keep [] = []"
| "mean_curve_loop i keep (score # scores) =
     (let keep' = keep + score in keep' / of_nat (i + 1) # mean_curve_loop (Suc i) keep' scores)"

definition mean_curve :: "rat list \<Rightarrow> rat list" where
  "mean_curve trial_scores = mean_curve_loop 0 0 trial_scores"

definition recall_curve :: "nat list \<Rightarrow> int option \<Rightarrow> pyfloat list" where
  "recall_curve trial_ranks top_k =
     (case top_k of
        None \<Rightarrow> map (\<lambda>i. Fin (of_nat (length (filter (\<lambda>r. r \<le> i) (take i trial_ranks))) / of_nat (i + 1))) [0..<length trial_ranks]
      | Some k \<Rightarrow> map (\<lambda>i. fdiv (of_nat (length (filter (\<lambda>r. int r < k) (take i trial_ranks)))) (Fin (of_int k))) [0..<length trial_ranks])"

text \<open>The \<open>while\<close> loop of \<open>cover_curve\<close>; its counter is \<open>keep + 1\<close>.\<close>

function cover_up :: "nat \<Rightarrow> nat list \<Rightarrow> nat" where
  "cover_up next cover = (if next \<in> set cover then cover_up (Suc next) cover else next)"
  by pat_completeness auto
termination
proof (relation "measure (\<lambda>(next, cover). card {x \<in> set cover. next \<le> x})")
  fix nxt and cover :: "nat list"
  assume mem: "nxt \<in> set cover"
  have "{x \<in> set cover. Suc nxt \<le> x} \<subset> {x \<in> set cover. nxt \<le> x}"
  proof
    show "{x \<in> set cover. Suc nxt \<le> x} \<subseteq> {x \<in> set cover. nxt \<le> x}" by (rule Collect_mono) (simp add: Suc_leD)
    have "nxt \<in> {x \<in> set cover. nxt \<le> x}" "nxt \<notin> {x \<in> set cover. Suc nxt \<le> x}" using mem by simp_all
    then show "{x \<in> set cover. Suc nxt \<le> x} \<noteq> {x \<in> set cover. nxt \<le> x}" by metis
  qed
  from psubset_card_mono [OF _ this]
  show "((Suc nxt, cover), nxt, cover) \<in> measure (\<lambda>(next, cover). card {x \<in> set cover. next \<le> x})"
    by simp
qed simp

declare cover_up.simps [simp del]

fun cover_loop :: "nat list \<Rightarrow> nat \<Rightarrow> nat list \<Rightarrow> nat list" where
  "cover_loop cover next [] = []"
| "cover_loop cover next (rank # ranks) =
     (let next' = cover_up next (rank # cover) in next' # cover_loop (rank # cover) next' ranks)"

definition cover_curve :: "nat list \<Rightarrow> rat list" where
  "cover_curve trial_ranks = map (\<lambda>k. of_nat k / of_nat (length trial_ranks)) (cover_loop [] 0 trial_ranks)"

text \<open>\<open>labels[trials]\<close> takes the labels in the order of the predictions, best first.\<close>

definition average_recall :: "(rat list \<Rightarrow> nat list) \<Rightarrow> rat list \<Rightarrow> rat list \<Rightarrow> nat \<Rightarrow> pyfloat" where
  "average_recall argsort preds labels n =
     (let trials = rev (argsort preds);
          ranks = get_rank argsort (map (\<lambda>i. labels ! i) trials);
          curve = recall_curve ranks None
      in fdiv (sum_list (map (\<lambda>x. case x of Fin q \<Rightarrow> q | _ \<Rightarrow> 0) (take n curve))) (Fin (of_nat n)))"

section \<open>Correctness\<close>

lemma max_curve_loop_nth:
  "i < length xs \<Longrightarrow> max_curve_loop keep xs ! i = Max (insert keep (set (take (Suc i) xs)))"
proof (induction xs arbitrary: i keep)
  case (Cons x xs)
  show ?case
  proof (cases i)
    case 0
    then show ?thesis by (simp add: Let_def max_def)
  next
    case (Suc j)
    then have "max_curve_loop keep (x # xs) ! i = Max (insert (max keep x) (set (take (Suc j) xs)))"
      using Cons by (simp add: Let_def max_def not_less)
    also have "\<dots> = Max (insert keep (insert x (set (take (Suc j) xs))))"
      by (cases "set (take (Suc j) xs) = {}") (auto simp: max.assoc)
    finally show ?thesis using Suc by simp
  qed
qed simp

lemma mean_curve_loop_nth:
  "j < length xs \<Longrightarrow> mean_curve_loop i keep xs ! j = (keep + sum_list (take (Suc j) xs)) / of_nat (i + j + 1)"
proof (induction xs arbitrary: i j keep)
  case (Cons x xs)
  then show ?case by (cases j) (simp_all add: Let_def add.assoc)
qed simp

lemma cover_up_spec: "{..<nxt} \<subseteq> set cover \<Longrightarrow> {..<cover_up nxt cover} \<subseteq> set cover \<and> cover_up nxt cover \<notin> set cover"
proof (induction nxt cover rule: cover_up.induct)
  case (1 nxt cover)
  then show ?case by (cases "nxt \<in> set cover") (simp_all add: cover_up.simps [of nxt] lessThan_Suc)
qed

lemma cover_loop_nth:
  "{..<nxt} \<subseteq> set cover \<Longrightarrow> i < length ranks \<Longrightarrow>
     {..<cover_loop cover nxt ranks ! i} \<subseteq> set cover \<union> set (take (Suc i) ranks)
     \<and> cover_loop cover nxt ranks ! i \<notin> set cover \<union> set (take (Suc i) ranks)"
proof (induction ranks arbitrary: cover nxt i)
  case (Cons r ranks)
  have up: "{..<cover_up nxt (r # cover)} \<subseteq> set (r # cover) \<and> cover_up nxt (r # cover) \<notin> set (r # cover)"
    using Cons.prems(1) by (intro cover_up_spec) auto
  then show ?case using Cons.IH [of "cover_up nxt (r # cover)" "r # cover"] Cons.prems(2)
    by (cases i) (auto simp: Let_def)
qed simp

lemma cover_loop_length: "length (cover_loop cover nxt ranks) = length ranks"
  by (induction ranks arbitrary: cover nxt) (simp_all add: Let_def)

lemma max_curve_length: "length (max_curve_loop keep xs) = length xs"
  by (induction xs arbitrary: keep) (simp_all add: Let_def)

lemma mean_curve_length: "length (mean_curve_loop i keep xs) = length xs"
  by (induction xs arbitrary: i keep) (simp_all add: Let_def)

text \<open>
  Point by point, \<open>max_curve\<close> is the largest score so far, \<open>mean_curve\<close> the mean so far, and \<open>cover_curve\<close>
  the number of best configurations found so far without a gap, as a share of all. \<open>recall_curve\<close> at \<open>i\<close> does not count the trial
  \<open>i\<close> itself: even for trials in the order of their rank it stays below 1.
\<close>

theorem metric_curves:
  assumes "i < length scores" and "i < length ranks"
  shows "max_curve scores ! i = Max (insert (- (10 ^ 9)) (set (take (Suc i) scores)))
    \<and> mean_curve scores ! i = sum_list (take (Suc i) scores) / of_nat (Suc i)
    \<and> (\<exists>k. cover_curve ranks ! i = of_nat k / of_nat (length ranks) \<and> {..<k} \<subseteq> set (take (Suc i) ranks) \<and> k \<notin> set (take (Suc i) ranks))
    \<and> recall_curve ranks None ! i = Fin (of_nat (length (filter (\<lambda>r. r \<le> i) (take i ranks))) / of_nat (Suc i))
    \<and> (ranks = [0..<length ranks] \<longrightarrow> recall_curve ranks None ! i = Fin (of_nat i / of_nat (Suc i)))"
proof -
  have "recall_curve ranks None ! i = Fin (of_nat (length (filter (\<lambda>r. r \<le> i) (take i ranks))) / of_nat (Suc i))"
    using assms(2) by (simp add: recall_curve_def)
  moreover have "length (filter (\<lambda>r. r \<le> i) (take i ranks)) = i" if "ranks = [0..<length ranks]"
  proof -
    have "take i ranks = [0..<i]" using that assms(2) by (metis add.left_neutral less_imp_le_nat take_upt)
    then show ?thesis by simp
  qed
  moreover have "\<exists>k. cover_curve ranks ! i = of_nat k / of_nat (length ranks) \<and> {..<k} \<subseteq> set (take (Suc i) ranks) \<and> k \<notin> set (take (Suc i) ranks)"
    using cover_loop_nth [of 0 "[]" i ranks] assms(2) by (intro exI [of _ "cover_loop [] 0 ranks ! i"]) (simp add: cover_curve_def cover_loop_length)
  ultimately show ?thesis
    using max_curve_loop_nth [OF assms(1)] mean_curve_loop_nth [OF assms(1), of 0 0]
    by (simp add: max_curve_def mean_curve_def)
qed

theorem metric_curves_witness:
  "max_curve [2, 7, 5] ! 2 = Max (insert (- (10 ^ 9)) (set (take (Suc 2) [2, 7, 5]))) \<and> recall_curve [0, 1, 2] None ! 2 = Fin (of_nat 2 / of_nat (Suc 2))"
  using metric_curves [of 2 "[2, 7, 5]" "[0, 1, 2]"] by (simp add: upt_rec)

end
