(* ===== verification/TuneLog.thy ===== *)
theory TuneLog
  imports TaskCorrect MeasureCorrect Tuner
begin

text \<open>
  The tuning log of \<open>autotvm/record.py\<close>: \<open>encode\<close> and \<open>decode\<close> of a measured pair in both protocols, and the
  generators that read a log. What other code provides is an argument: the text of \<open>json.dumps\<close> and
  \<open>json.loads\<close>, \<open>str\<close> of a JSON value, the constructor \<open>Target(_)\<close> and the base64 text of a pickled object.
  A log file is the list of its lines, each with its line end. A generator is the list of what it yields
  and the exception that ends it, if any. The flag \<open>_old_version_warning\<close> only limits how often a message is logged
  and is left out.

  The records of the model are typed: a log row that holds a value of another type where a string, a number or a list belongs
  gives \<open>TypeErr\<close> at once instead of when the value is used.
\<close>

section \<open>Environment\<close>

record rec_env =
  re_dumps :: "pyobj \<Rightarrow> string res"
  re_loads :: "string \<Rightarrow> pyobj res"
  re_str :: "pyobj \<Rightarrow> string"
  re_target :: "string \<Rightarrow> target res"
  re_version :: string
  re_pickle_task :: "string \<times> arg list \<Rightarrow> string"
  re_unpickle_task :: "string \<Rightarrow> (string \<times> arg list) res"
  re_pickle_config :: "config_entity \<Rightarrow> string"
  re_unpickle_config :: "string \<Rightarrow> config_entity res"
  re_pickle_result :: "measure_result \<Rightarrow> string"
  re_unpickle_result :: "string \<Rightarrow> measure_result res"

section \<open>Arguments in JSON\<close>

text \<open>The value that \<open>json.dumps\<close> finds for a task argument; tensors, expressions and arrays have none.\<close>

fun obj_of_arg :: "arg \<Rightarrow> pyobj res" where
  "obj_of_arg (AInt i) = Inr (OInt i)"
| "obj_of_arg (AFloat x) = Inr (OFloat x)"
| "obj_of_arg (AStr s) = Inr (OStr s)"
| "obj_of_arg (ARtString s) = Inr (OStr s)"
| "obj_of_arg ANone = Inr ONone"
| "obj_of_arg (ATuple xs) = res_bind (res_map obj_of_arg xs) (\<lambda>ys. Inr (OTuple ys))"
| "obj_of_arg (AList xs) = res_bind (res_map obj_of_arg xs) (\<lambda>ys. Inr (OList ys))"
| "obj_of_arg _ = Inl TypeErr"

text \<open>
  \<open>clean_json_to_python\<close>: lists become tuples, and \<open>int(True)\<close> is 1. A dictionary stays a dictionary, which is no
  argument the tuner knows.
\<close>

fun clean_json :: "pyobj \<Rightarrow> arg" where
  "clean_json (OList xs) = ATuple (map clean_json xs)"
| "clean_json (OInt i) = AInt i"
| "clean_json (OBool b) = AInt (if b then 1 else 0)"
| "clean_json (OFloat x) = AFloat x"
| "clean_json (OStr s) = AStr s"
| "clean_json ONone = ANone"
| "clean_json _ = AOther"

section \<open>Encoding\<close>

definition AUTOTVM_LOG_VERSION :: rat where
  "AUTOTVM_LOG_VERSION = 2 / 10"

definition target_str :: "target option \<Rightarrow> string" where
  "target_str t = (case t of None \<Rightarrow> ''None'' | Some t \<Rightarrow> tgt_str t)"

text \<open>The dictionary of the JSON protocol. The costs of a failed measurement are replaced.\<close>

definition logged_costs :: "measure_result \<Rightarrow> pyobj list" where
  "logged_costs r = (if error_no r = 0 then costs r else [OFloat (10 ^ 9)])"

definition json_record :: "rec_env \<Rightarrow> measure_input \<Rightarrow> measure_result \<Rightarrow> pyobj res" where
  "json_record env inp r =
     res_bind (res_map obj_of_arg (task_args (mi_task inp))) (\<lambda>args.
       Inr (ODict
         [(''input'', OTuple [OStr (target_str (mi_target inp)), OStr (task_name (mi_task inp)), OTuple args, ODict []]),
          (''config'', to_json_dict (mi_config inp)),
          (''result'', OTuple [OTuple (logged_costs r), OInt (error_no r), OFloat (all_cost r), OFloat (timestamp r)]),
          (''version'', OFloat AUTOTVM_LOG_VERSION),
          (''tvm_version'', OStr (re_version env))]))"

fun str_join :: "string \<Rightarrow> string list \<Rightarrow> string" where
  "str_join sep [] = []"
| "str_join sep [s] = s"
| "str_join sep (s # ss) = s @ sep @ str_join sep ss"

definition encode :: "rec_env \<Rightarrow> measure_input \<Rightarrow> measure_result \<Rightarrow> string \<Rightarrow> string res" where
  "encode env inp r protocol =
     (if protocol = ''json'' then res_bind (json_record env inp r) (re_dumps env)
      else if protocol = ''pickle'' then
        Inr (str_join [CHR 0x09]
          [target_str (mi_target inp), re_pickle_task env (task_name (mi_task inp), task_args (mi_task inp)),
           re_pickle_config env (mi_config inp), re_pickle_result env r, ''0.2'', re_version env])
      else Inl RuntimeError)"

section \<open>Decoding\<close>

definition with_cost :: "config_entity \<Rightarrow> measure_result \<Rightarrow> config_entity res" where
  "with_cost c r = res_bind (mean_costs r) (\<lambda>m. Inr (c\<lparr>cost := Some m\<rparr>))"

text \<open>\<open>MeasureResult(*[...])\<close> with its four fields.\<close>

definition result_of_json :: "pyobj \<Rightarrow> measure_result res" where
  "result_of_json x =
     res_bind (obj_iter x) (\<lambda>fields.
       case fields of
         [OList cs, err, total_cost, stamp] \<Rightarrow>
           res_bind (obj_int err) (\<lambda>err_no.
           res_bind (obj_float total_cost) (\<lambda>all.
           res_bind (obj_float stamp) (\<lambda>time.
             Inr \<lparr>costs = cs, error_no = err_no, all_cost = all, timestamp = time\<rparr>)))
       | _ \<Rightarrow> Inl TypeErr)"

definition is_old_row :: "pyobj \<Rightarrow> bool" where
  "is_old_row row = (case row of ODict kvs \<Rightarrow> map_of kvs ''v'' = Some (OFloat (1 / 10)) | _ \<Rightarrow> False)"

definition decode_json :: "rec_env \<Rightarrow> pyobj \<Rightarrow> measured res" where
  "decode_json env row =
     res_bind (res_bind (dict_get row ''input'') obj_iter) (\<lambda>input.
       case input of
         [tgt, name, args, kwargs] \<Rightarrow>
           res_bind (re_target env (str_replace ''-target'' ''-mtriple'' (case tgt of OStr s \<Rightarrow> s | _ \<Rightarrow> re_str env tgt))) (\<lambda>t.
           res_bind (case (clean_json name, clean_json args) of (AStr n, ATuple as) \<Rightarrow> Inr (task_init n as) | _ \<Rightarrow> Inl TypeErr) (\<lambda>tsk.
           res_bind (res_bind (dict_get row ''config'') from_json_dict) (\<lambda>config.
           res_bind (res_bind (dict_get row ''result'') result_of_json) (\<lambda>r.
           res_bind (with_cost config r) (\<lambda>config'.
             Inr (\<lparr>mi_target = Some t, mi_task = tsk, mi_config = config'\<rparr>, r))))))
       | _ \<Rightarrow> Inl ValueError)"

definition decode_pickle :: "rec_env \<Rightarrow> string list \<Rightarrow> measured res" where
  "decode_pickle env items =
     res_bind (py_get items 0) (\<lambda>tgt.
     res_bind (re_target env tgt) (\<lambda>t.
     res_bind (res_bind (py_get items 1) (re_unpickle_task env)) (\<lambda>(name, args).
     res_bind (res_bind (py_get items 2) (re_unpickle_config env)) (\<lambda>config.
     res_bind (res_bind (py_get items 3) (re_unpickle_result env)) (\<lambda>r.
     res_bind (with_cost config r) (\<lambda>config'.
       Inr (\<lparr>mi_target = Some t, mi_task = task_init name args, mi_config = config'\<rparr>, r)))))))"

definition decode :: "rec_env \<Rightarrow> string \<Rightarrow> string \<Rightarrow> measured option res" where
  "decode env row protocol =
     (if protocol = ''json'' then
        res_bind (re_loads env row) (\<lambda>x.
          if is_old_row x then Inr None else res_bind (decode_json env x) (\<lambda>m. Inr (Some m)))
      else if protocol = ''pickle'' then
        let items = str_split CHR 0x09 row
        in if length items = 4 then Inr None else res_bind (decode_pickle env items) (\<lambda>m. Inr (Some m))
      else Inl RuntimeError)"

section \<open>Reading a log\<close>

type_synonym 'a gen = "'a list \<times> py_err option"

fun load_from_buffer :: "rec_env \<Rightarrow> string list \<Rightarrow> measured gen" where
  "load_from_buffer env [] = ([], None)"
| "load_from_buffer env (row # rows) =
     (if row \<noteq> [] \<and> \<not> str_startswith row ''#'' then
        (case decode env row ''json'' of
           Inl err \<Rightarrow> ([], Some err)
         | Inr None \<Rightarrow> load_from_buffer env rows
         | Inr (Some m) \<Rightarrow> (case load_from_buffer env rows of (ms, err) \<Rightarrow> (m # ms, err)))
      else load_from_buffer env rows)"

text \<open>A file system maps the names of the files to their lines.\<close>

definition load_from_file :: "rec_env \<Rightarrow> (string \<rightharpoonup> string list) \<Rightarrow> string \<Rightarrow> measured gen" where
  "load_from_file env files path =
     (case files path of None \<Rightarrow> ([], Some IOErr) | Some rows \<Rightarrow> load_from_buffer env rows)"

text \<open>
  \<open>measure_str_key\<close>; \<open>str\<close> of the arguments and of a configuration are functions of these values, and
  \<open>kwargs\<close> is always empty.
\<close>

record key_env =
  str_args :: "arg list \<Rightarrow> string"
  str_config :: "config_entity \<Rightarrow> string"

definition measure_str_key :: "key_env \<Rightarrow> measure_input \<Rightarrow> bool \<Rightarrow> string" where
  "measure_str_key kenv inp include_config =
     target_str (mi_target inp) @ task_name (mi_task inp) @ str_args kenv (task_args (mi_task inp)) @ ''{}''
     @ (if include_config then str_config kenv (mi_config inp) else [])"

end
