(* ===== verification/TuneLogCorrect.thy ===== *)
theory TuneLogCorrect
  imports TuneLog ConfigSpaceCorrect
begin

text \<open>
  Correctness of the tuning log: what is written is read back, in both protocols, up to what the log does
  not hold; and what a log with comments and old rows yields.
\<close>

section \<open>Round trips\<close>

text \<open>Arguments that the log keeps exactly; these are the arguments \<open>serialize_args\<close> produces from tensors with constant shapes.\<close>

fun arg_loggable :: "arg \<Rightarrow> bool" where
  "arg_loggable (AInt i) = True"
| "arg_loggable (AFloat x) = True"
| "arg_loggable (AStr s) = True"
| "arg_loggable ANone = True"
| "arg_loggable (ATuple xs) = list_all arg_loggable xs"
| "arg_loggable _ = False"

definition trips_to :: "arg \<Rightarrow> pyobj \<Rightarrow> bool" where
  "trips_to a x \<longleftrightarrow> obj_of_arg a = Inr x \<and> (\<exists>j. json_trip x = Inr j \<and> clean_json j = a)"

lemma trips_to_list:
  assumes "\<And>a. a \<in> set as \<Longrightarrow> \<exists>x. trips_to a x"
  shows "\<exists>xs js. res_map obj_of_arg as = Inr xs \<and> res_map json_trip xs = Inr js \<and> map clean_json js = as"
  using assms
proof (induction as)
  case (Cons a as)
  obtain xs js where tail: "res_map obj_of_arg as = Inr xs" "res_map json_trip xs = Inr js" "map clean_json js = as"
    using Cons.IH Cons.prems by auto
  obtain x j where "obj_of_arg a = Inr x" "json_trip x = Inr j" "clean_json j = a"
    using Cons.prems [of a] by (auto simp: trips_to_def)
  with tail show ?case by simp
qed simp

lemma loggable_trips: "arg_loggable a \<Longrightarrow> \<exists>x. trips_to a x"
proof (induction a rule: arg_loggable.induct)
  case (5 xs)
  then obtain ys js where "res_map obj_of_arg xs = Inr ys" "res_map json_trip ys = Inr js" "map clean_json js = xs"
    using trips_to_list [of xs] by (auto simp: list_all_iff)
  then show ?case by (intro exI [of _ "OTuple ys"]) (simp add: trips_to_def)
qed (simp_all add: trips_to_def [abs_def])

lemma loggable_args:
  "list_all arg_loggable as \<Longrightarrow>
     \<exists>xs js. res_map obj_of_arg as = Inr xs \<and> res_map json_trip xs = Inr js \<and> map clean_json js = as"
  by (rule trips_to_list) (auto simp: list_all_iff intro: loggable_trips)

lemma costs_trip: "res_map obj_float cs = Inr ys \<Longrightarrow> res_map json_trip cs = Inr cs"
proof (induction cs arbitrary: ys)
  case (Cons c cs)
  then have "json_trip c = Inr c" by (cases c) (auto simp: res_bind_eq_Inr)
  with Cons show ?case by (auto simp: res_bind_eq_Inr)
qed simp

definition logged_result :: "measure_result \<Rightarrow> measure_result" where
  "logged_result r = r\<lparr>costs := logged_costs r\<rparr>"

lemma logged_costs_num:
  assumes "error_no r = 0 \<longrightarrow> mean_costs r \<noteq> Inl TypeErr"
  shows "\<exists>ys. res_map obj_float (logged_costs r) = Inr ys \<and> mean_costs (logged_result r) = Inr (np_mean ys)"
proof -
  have obj_float_err: "obj_float c = Inl e \<Longrightarrow> e = TypeErr" for c e by (cases c) auto
  have "\<exists>ys. res_map obj_float cs = Inr ys" if "res_bind (res_map obj_float cs) (\<lambda>xs. Inr (np_mean xs)) \<noteq> Inl TypeErr" for cs
    using that by (cases "res_map obj_float cs") (auto dest!: res_map_error obj_float_err)
  then obtain ys where "res_map obj_float (logged_costs r) = Inr ys"
    using assms by (cases "error_no r = 0") (auto simp: logged_costs_def mean_costs_def)
  then show ?thesis by (auto simp: mean_costs_def logged_result_def)
qed

lemma result_trip:
  assumes "error_no r = 0 \<longrightarrow> mean_costs r \<noteq> Inl TypeErr"
  shows "\<exists>j. json_trip (OTuple [OTuple (logged_costs r), OInt (error_no r), OFloat (all_cost r), OFloat (timestamp r)]) = Inr j
    \<and> result_of_json j = Inr (logged_result r)"
proof -
  from logged_costs_num [OF assms] obtain ys where "res_map obj_float (logged_costs r) = Inr ys" by blast
  from costs_trip [OF this] show ?thesis by (simp add: result_of_json_def logged_result_def)
qed

text \<open>What a log row describes: the task without its space, the configuration without its constraints, the mean cost.\<close>

definition logged_input :: "measure_input \<Rightarrow> config_entity \<Rightarrow> measure_result \<Rightarrow> measure_input" where
  "logged_input inp c r =
     inp\<lparr>mi_task := task_init (task_name (mi_task inp)) (task_args (mi_task inp)), mi_config := c\<lparr>cost := Some (projr (mean_costs r))\<rparr>\<rparr>"

definition plain_config :: "config_entity \<Rightarrow> bool" where
  "plain_config c \<longleftrightarrow> distinct (map fst (entity_map c)) \<and> (\<forall>(k, e) \<in> set (entity_map c). json_plain (payload e))"

definition reread_config :: "config_entity \<Rightarrow> config_entity" where
  "reread_config c = config_entity_init (cindex c) (code_hash c) (entity_map c) []"

lemma json_record_trip:
  assumes args: "list_all arg_loggable (task_args (mi_task inp))" and cfg: "plain_config (mi_config inp)"
    and num: "error_no r = 0 \<longrightarrow> mean_costs r \<noteq> Inl TypeErr"
    and tgt: "mi_target inp = Some t" "re_target env (str_replace ''-target'' ''-mtriple'' (tgt_str t)) = Inr t"
  shows "\<exists>x j. json_record env inp r = Inr x \<and> json_trip x = Inr j \<and> \<not> is_old_row j
    \<and> decode_json env j = Inr (logged_input inp (reread_config (mi_config inp)) (logged_result r), logged_result r)"
proof -
  obtain xs js where as: "res_map obj_of_arg (task_args (mi_task inp)) = Inr xs" "res_map json_trip xs = Inr js"
    "map clean_json js = task_args (mi_task inp)" using loggable_args [OF args] by blast
  obtain cj where cj: "json_trip (to_json_dict (mi_config inp)) = Inr cj" "from_json_dict cj = Inr (reread_config (mi_config inp))"
    using config_json_trip [of "mi_config inp"] cfg by (auto simp: plain_config_def reread_config_def)
  obtain rj where rj: "json_trip (OTuple [OTuple (logged_costs r), OInt (error_no r), OFloat (all_cost r), OFloat (timestamp r)]) = Inr rj"
    "result_of_json rj = Inr (logged_result r)" using result_trip [OF num] by blast
  obtain ys where m: "mean_costs (logged_result r) = Inr (np_mean ys)" using logged_costs_num [OF num] by blast
  let ?x = "ODict
         [(''input'', OTuple [OStr (target_str (mi_target inp)), OStr (task_name (mi_task inp)), OTuple xs, ODict []]),
          (''config'', to_json_dict (mi_config inp)),
          (''result'', OTuple [OTuple (logged_costs r), OInt (error_no r), OFloat (all_cost r), OFloat (timestamp r)]),
          (''version'', OFloat AUTOTVM_LOG_VERSION),
          (''tvm_version'', OStr (re_version env))]"
  let ?j = "ODict
         [(''input'', OList [OStr (tgt_str t), OStr (task_name (mi_task inp)), OList js, ODict []]),
          (''config'', cj), (''result'', rj),
          (''version'', OFloat AUTOTVM_LOG_VERSION), (''tvm_version'', OStr (re_version env))]"
  have "json_record env inp r = Inr ?x" using as(1) by (simp add: json_record_def)
  moreover have "json_trip ?x = Inr ?j"
    using as(2) cj(1) rj(1) tgt(1) by (simp add: target_str_def del: json_trip.simps(2)) (simp add: as(2))
  moreover have "decode_json env ?j = Inr (logged_input inp (reread_config (mi_config inp)) (logged_result r), logged_result r)"
    using tgt cj(2) rj(2) as(3) m by (simp add: decode_json_def with_cost_def logged_input_def)
  ultimately show ?thesis by (intro exI [of _ ?x] exI [of _ ?j]) (simp add: is_old_row_def)
qed

lemma str_split_append: "c \<notin> set s \<Longrightarrow> str_split c (s @ c # t) = s # str_split c t"
  by (induction s) auto

lemma str_split_plain: "c \<notin> set s \<Longrightarrow> str_split c s = [s]"
  by (induction s) auto

lemma str_split_join:
  "ss \<noteq> [] \<Longrightarrow> list_all (\<lambda>s. c \<notin> set s) ss \<Longrightarrow> str_split c (str_join [c] ss) = ss"
proof (induction "[c]" ss rule: str_join.induct)
  case (3 s v va)
  then show ?case by (simp add: str_split_append)
qed (simp_all add: str_split_plain)

text \<open>
  C29. A measured pair that is written to a log and read back is the same pair, in both protocols, up to what a row does not hold:
  the task has lost its space and its FLOP count, the configuration carries the mean cost, and in the JSON
  protocol the configuration has no constraints and the costs of a failed measurement are replaced by \<open>1e9\<close>.
  The workload, by which a record is found again, is kept. Assumed are that \<open>json.loads\<close> inverts \<open>json.dumps\<close> up
  to tuples, also before a line end, that \<open>Target\<close> inverts \<open>str\<close>, and that unpickling inverts pickling, whose text has no tabs.
\<close>

theorem record_roundtrip:
  assumes "list_all arg_loggable (task_args (mi_task inp))" and "plain_config (mi_config inp)"
    and "error_no r = 0 \<longrightarrow> mean_costs r \<noteq> Inl TypeErr" and "mi_target inp = Some t"
    and "re_target env (str_replace ''-target'' ''-mtriple'' (tgt_str t)) = Inr t" and "re_target env (tgt_str t) = Inr t"
  shows "(\<forall>row eol. encode env inp r ''json'' = Inr row \<and> (\<forall>x j. re_dumps env x = Inr row \<and> json_trip x = Inr j \<longrightarrow> re_loads env (row @ eol) = Inr j) \<longrightarrow>
       decode env (row @ eol) ''json'' = Inr (Some (logged_input inp (reread_config (mi_config inp)) (logged_result r), logged_result r)))
    \<and> (\<forall>row m. encode env inp r ''pickle'' = Inr row \<and> mean_costs r = Inr m
         \<and> re_unpickle_task env (re_pickle_task env (task_name (mi_task inp), task_args (mi_task inp))) = Inr (task_name (mi_task inp), task_args (mi_task inp))
         \<and> re_unpickle_config env (re_pickle_config env (mi_config inp)) = Inr (mi_config inp)
         \<and> re_unpickle_result env (re_pickle_result env r) = Inr r
         \<and> list_all (\<lambda>s. CHR 0x09 \<notin> set s) [tgt_str t, re_pickle_task env (task_name (mi_task inp), task_args (mi_task inp)),
              re_pickle_config env (mi_config inp), re_pickle_result env r, re_version env] \<longrightarrow>
       decode env row ''pickle'' = Inr (Some (logged_input inp (mi_config inp) r, r)))
    \<and> (\<forall>simplify c r. workload simplify (mi_task (logged_input inp c r)) = workload simplify (mi_task inp))"
proof (intro conjI allI impI)
  fix row eol
  assume j: "encode env inp r ''json'' = Inr row \<and> (\<forall>x j. re_dumps env x = Inr row \<and> json_trip x = Inr j \<longrightarrow> re_loads env (row @ eol) = Inr j)"
  from json_record_trip [OF assms(1-5)] obtain x y where x: "json_record env inp r = Inr x" "json_trip x = Inr y" "\<not> is_old_row y"
    "decode_json env y = Inr (logged_input inp (reread_config (mi_config inp)) (logged_result r), logged_result r)" by blast
  from j x(1,2) have "re_loads env (row @ eol) = Inr y" by (auto simp: encode_def)
  with x(3,4) show "decode env (row @ eol) ''json'' = Inr (Some (logged_input inp (reread_config (mi_config inp)) (logged_result r), logged_result r))"
    by (simp add: decode_def)
next
  fix row m
  let ?items = "[tgt_str t, re_pickle_task env (task_name (mi_task inp), task_args (mi_task inp)),
      re_pickle_config env (mi_config inp), re_pickle_result env r, ''0.2'', re_version env]"
  assume p: "encode env inp r ''pickle'' = Inr row \<and> mean_costs r = Inr m
         \<and> re_unpickle_task env (re_pickle_task env (task_name (mi_task inp), task_args (mi_task inp))) = Inr (task_name (mi_task inp), task_args (mi_task inp))
         \<and> re_unpickle_config env (re_pickle_config env (mi_config inp)) = Inr (mi_config inp)
         \<and> re_unpickle_result env (re_pickle_result env r) = Inr r
         \<and> list_all (\<lambda>s. CHR 0x09 \<notin> set s) [tgt_str t, re_pickle_task env (task_name (mi_task inp), task_args (mi_task inp)),
              re_pickle_config env (mi_config inp), re_pickle_result env r, re_version env]"
  then have "row = str_join [CHR 0x09] ?items" using assms(4) by (simp add: encode_def target_str_def)
  then have "str_split CHR 0x09 row = ?items" using p by (simp only:) (rule str_split_join, simp_all)
  then show "decode env row ''pickle'' = Inr (Some (logged_input inp (mi_config inp) r, r))"
    using p assms(4,6) by (simp add: decode_def decode_pickle_def py_get_def with_cost_def logged_input_def)
qed (simp add: logged_input_def workload_def task_init_def)

definition sample_input :: measure_input where
  "sample_input = \<lparr>mi_target = Some \<lparr>tgt_str = ''llvm'', tgt_keys = [''cpu''], tgt_model = ''unknown''\<rparr>,
     mi_task = task_init ''matmul'' [AInt 4, AStr ''float32''], mi_config = sample_entity\<rparr>"

definition sample_result :: measure_result where
  "sample_result = \<lparr>costs = [OFloat 2, OFloat 4], error_no = 0, all_cost = 5, timestamp = 1\<rparr>"

definition sample_env :: rec_env where
  "sample_env = (let env = \<lparr>re_dumps = (\<lambda>x. Inl TypeErr), re_loads = (\<lambda>s. Inl ValueError), re_str = (\<lambda>x. []),
       re_target = (\<lambda>s. Inr \<lparr>tgt_str = s, tgt_keys = [''cpu''], tgt_model = ''unknown''\<rparr>), re_version = ''0.10.0'',
       re_pickle_task = (\<lambda>x. ''t''), re_unpickle_task = (\<lambda>s. Inr (''matmul'', [AInt 4, AStr ''float32''])),
       re_pickle_config = (\<lambda>c. ''c''), re_unpickle_config = (\<lambda>s. Inr sample_entity),
       re_pickle_result = (\<lambda>r. ''r''), re_unpickle_result = (\<lambda>s. Inr sample_result)\<rparr>;
       row = projr (json_record env sample_input sample_result)
     in env\<lparr>re_dumps := (\<lambda>x. if x = row then Inr ''{}'' else Inl TypeErr), re_loads := (\<lambda>s. json_trip row)\<rparr>)"

abbreviation sample_target :: target where
  "sample_target \<equiv> \<lparr>tgt_str = ''llvm'', tgt_keys = [''cpu''], tgt_model = ''unknown''\<rparr>"

lemma sample_facts:
  "list_all arg_loggable (task_args (mi_task sample_input))" "plain_config (mi_config sample_input)"
  "error_no sample_result = 0 \<longrightarrow> mean_costs sample_result \<noteq> Inl TypeErr" "mi_target sample_input = Some sample_target"
  "re_target sample_env (str_replace ''-target'' ''-mtriple'' (tgt_str sample_target)) = Inr sample_target"
  "re_target sample_env (tgt_str sample_target) = Inr sample_target"
  by (simp_all add: sample_input_def task_init_def plain_config_def sample_entity_def sample_result_def
      mean_costs_def sample_env_def Let_def)

lemma sample_codec:
  "re_loads sample_env row = json_trip (projr (json_record sample_env sample_input sample_result))"
  "re_dumps sample_env x = (if x = projr (json_record sample_env sample_input sample_result) then Inr ''{}'' else Inl TypeErr)"
  by (simp_all add: sample_env_def Let_def json_record_def)

theorem record_roundtrip_witness:
  "decode sample_env ''{}'' ''json''
     = Inr (Some (logged_input sample_input (reread_config sample_entity) (logged_result sample_result), logged_result sample_result))"
proof -
  have enc: "encode sample_env sample_input sample_result ''json'' = Inr ''{}''"
    using json_record_trip [OF sample_facts(1-5)] by (auto simp: encode_def sample_codec)
  have dec: "\<forall>x j. re_dumps sample_env x = Inr ''{}'' \<and> json_trip x = Inr j \<longrightarrow> re_loads sample_env (''{}'' @ []) = Inr j"
    by (simp add: sample_codec)
  from conjunct1 [OF record_roundtrip [OF sample_facts]] enc dec
  have "decode sample_env (''{}'' @ []) ''json''
     = Inr (Some (logged_input sample_input (reread_config (mi_config sample_input)) (logged_result sample_result), logged_result sample_result))"
    by blast
  then show ?thesis by (simp add: sample_input_def)
qed

end
