(* ===== verification/Dispatcher.thy ===== *)
theory Dispatcher
  imports TuneLog Fallback
begin

text \<open>
  The dispatch contexts of \<open>autotvm/task/dispatcher.py\<close>, which decide the configuration that a
  template is built with. Contexts and configurations are objects with identity: contexts are linked by
  \<open>_old_ctx\<close> and change with every query, and the attributes \<open>cost\<close> and \<open>workload\<close> of a configuration
  are written through whatever context holds it. Both live in lists, a reference is a position, and an operation yields its
  result and the state it leaves, also when it raises.

  \<open>DispatchContext.query\<close> calls itself for the outer context; its first argument is Python's
  recursion limit. A workload is compared by its structure.
\<close>

section \<open>State\<close>

type_synonym wkl = "arg list"
type_synonym wkey = "string \<times> wkl option"
type_synonym cref = nat

datatype cfg_value = VSpace config_space | VEntity config_entity | VFallback fallback_entity

record cfg_obj =
  co_value :: cfg_value
  co_cost :: "pyfloat option"
  co_workload :: "wkl option"

text \<open>A pair \<open>(MeasureInput, MeasureResult)\<close> whose configuration is an object.\<close>

record drecord =
  dr_target :: "target option"
  dr_task :: task
  dr_config :: cref
  dr_result :: measure_result

record hist =
  best_by_targetkey :: "(wkey \<times> drecord) list"
  best_by_model :: "(wkey \<times> drecord) list"
  best_user_defined :: "(wkey \<times> cref) list"

record fixed_ctx =
  fx_tasks :: "task list"
  fx_schedule_names :: "string list"
  fx_workload :: "wkl option"
  fx_config :: "cref option"

record graph_ctx =
  gb_records :: "drecord list"
  gb_counter :: nat
  gb_cfg_dict :: "(wkey \<times> cref) list"

datatype ctx_kind =
    ApplyConfig cref "wkl option"
  | ApplyFixedConfig fixed_ctx
  | ApplyHistoryBest hist
  | FallbackContext "(wkey \<times> cref) list"
  | ApplyGraphBest graph_ctx

record ctx =
  old_ctx :: "nat option"
  ctx_of :: ctx_kind

record disp =
  cfgs :: "cfg_obj list"
  ctxs :: "ctx list"
  current_ctx :: "nat option"
  warning_messages :: "string list"

record disp_env =
  de_simplify :: "texpr \<Rightarrow> texpr"
  de_silent :: bool
  de_warning :: "string \<Rightarrow> wkl option \<Rightarrow> string"

type_synonym 'a dop = "disp \<Rightarrow> 'a res \<times> disp"

definition set_ctx :: "nat \<Rightarrow> ctx_kind \<Rightarrow> disp \<Rightarrow> disp" where
  "set_ctx c k d = d\<lparr>ctxs := (ctxs d)[c := (ctxs d ! c)\<lparr>ctx_of := k\<rparr>]\<rparr>"

definition cfg_mod :: "cref \<Rightarrow> (cfg_obj \<Rightarrow> cfg_obj) \<Rightarrow> disp \<Rightarrow> disp" where
  "cfg_mod r f d = d\<lparr>cfgs := (cfgs d)[r := f (cfgs d ! r)]\<rparr>"

definition new_cfg :: "cfg_value \<Rightarrow> pyfloat option \<Rightarrow> disp \<Rightarrow> disp" where
  "new_cfg v c d = d\<lparr>cfgs := cfgs d @ [\<lparr>co_value = v, co_cost = c, co_workload = None\<rparr>]\<rparr>"

abbreviation next_cfg :: "disp \<Rightarrow> cref" where
  "next_cfg d \<equiv> length (cfgs d)"

section \<open>Entering and leaving\<close>

text \<open>\<open>DispatchContext.__init__\<close> links a new context to the current one.\<close>

definition new_ctx :: "ctx_kind \<Rightarrow> disp \<Rightarrow> nat \<times> disp" where
  "new_ctx k d = (length (ctxs d), d\<lparr>ctxs := ctxs d @ [\<lparr>old_ctx = current_ctx d, ctx_of = k\<rparr>]\<rparr>)"

definition ctx_enter :: "nat \<Rightarrow> disp \<Rightarrow> disp" where
  "ctx_enter c d = d\<lparr>ctxs := (ctxs d)[c := (ctxs d ! c)\<lparr>old_ctx := current_ctx d\<rparr>], current_ctx := Some c\<rparr>"

definition ctx_exit :: "nat \<Rightarrow> disp \<Rightarrow> disp" where
  "ctx_exit c d = d\<lparr>current_ctx := old_ctx (ctxs d ! c)\<rparr>"

text \<open>The state after the module is loaded: the root context is a \<open>FallbackContext\<close>.\<close>

definition disp_init :: disp where
  "disp_init = \<lparr>cfgs = [], ctxs = [\<lparr>old_ctx = None, ctx_of = FallbackContext []\<rparr>], current_ctx = Some 0, warning_messages = []\<rparr>"

section \<open>Fixed schedules\<close>

datatype names_arg = NamesStr string | NamesList "string list" | NamesOther

definition fixed_init :: "task list \<Rightarrow> names_arg \<Rightarrow> ctx_kind res" where
  "fixed_init tasks names =
     res_bind (case names of
                 NamesStr s \<Rightarrow> Inr (map (\<lambda>ch. [ch]) s)
               | NamesList ns \<Rightarrow> Inr ns
               | NamesOther \<Rightarrow> Inl TypeErr)
       (\<lambda>ns. Inr (ApplyFixedConfig \<lparr>fx_tasks = tasks, fx_schedule_names = ns, fx_workload = None, fx_config = None\<rparr>))"

definition wkl_name :: "wkl option \<Rightarrow> arg res" where
  "wkl_name w = (case w of None \<Rightarrow> Inl TypeErr | Some as \<Rightarrow> py_get as 0)"

text \<open>
  The loop over the tasks: the configuration 0 of the first task of that name, and the tasks, as \<open>len\<close> of a space is
  cached. Without such a task the variable \<open>config\<close> is unbound.
\<close>

fun fixed_find :: "wkl option \<Rightarrow> task list \<Rightarrow> config_entity res \<times> task list" where
  "fixed_find w [] = (Inl UnboundLocalError, [])"
| "fixed_find w (t # ts) =
     (case wkl_name w of
        Inl err \<Rightarrow> (Inl err, t # ts)
      | Inr nm \<Rightarrow>
          if nm = AStr (task_name t) then
            (case task_config_space t of
               None \<Rightarrow> (Inl AttributeError, t # ts)
             | Some cs \<Rightarrow> (case cs_get cs 0 of (r, cs') \<Rightarrow> (r, t\<lparr>task_config_space := Some cs'\<rparr> # ts)))
          else (case fixed_find w ts of (r, ts') \<Rightarrow> (r, t # ts')))"

definition fixed_query :: "nat \<Rightarrow> fixed_ctx \<Rightarrow> wkl option \<Rightarrow> cref option dop" where
  "fixed_query c fx w d =
     (case fixed_find w (fx_tasks fx) of
        (r, tasks) \<Rightarrow>
          let d1 = set_ctx c (ApplyFixedConfig (fx\<lparr>fx_workload := w, fx_tasks := tasks\<rparr>)) d
          in (case r of
                Inl err \<Rightarrow> (Inl err, d1)
              | Inr config \<Rightarrow>
                  let (n, config') = cs_len config
                  in if n < 0 then (Inl ValueError, d1)
                     else if n = 0 then (Inl RuntimeError, d1)
                     else (case wkl_name w of
                             Inl err \<Rightarrow> (Inl err, d1)
                           | Inr nm \<Rightarrow>
                               (Inr (Some (next_cfg d)),
                                new_cfg (VEntity config')
                                  (Some (Fin (if \<exists>s \<in> set (fx_schedule_names fx). nm = AStr s then 1 / 10 ^ 6 else 100000))) d1))))"

section \<open>The best of the history\<close>

definition keep_faster :: "wkey \<Rightarrow> drecord \<Rightarrow> (wkey \<times> drecord) list \<Rightarrow> (wkey \<times> drecord) list res" where
  "keep_faster key r m =
     (case map_of m key of
        None \<Rightarrow> Inr (AList.update key r m)
      | Some other \<Rightarrow>
          res_bind (mean_costs (dr_result other)) (\<lambda>a.
          res_bind (mean_costs (dr_result r)) (\<lambda>b.
            Inr (if fgt a b then AList.update key r m else m))))"

fun keep_keys :: "wkl \<Rightarrow> drecord \<Rightarrow> string list \<Rightarrow> (wkey \<times> drecord) list \<Rightarrow> unit res \<times> (wkey \<times> drecord) list" where
  "keep_keys w r [] m = (Inr (), m)"
| "keep_keys w r (k # ks) m =
     (case keep_faster (k, Some w) r m of Inl err \<Rightarrow> (Inl err, m) | Inr m' \<Rightarrow> keep_keys w r ks m')"

definition hist_add :: "(texpr \<Rightarrow> texpr) \<Rightarrow> drecord \<Rightarrow> hist \<Rightarrow> unit res \<times> hist" where
  "hist_add simplify r h =
     (if error_no (dr_result r) \<noteq> 0 then (Inr (), h)
      else case dr_target r of
             None \<Rightarrow> (Inl AttributeError, h)
           | Some t \<Rightarrow>
               (case workload simplify (dr_task r) of
                  Inl err \<Rightarrow> (Inl err, h)
                | Inr w \<Rightarrow>
                    (case keep_keys w r (tgt_keys t) (best_by_targetkey h) of
                       (Inl err, m) \<Rightarrow> (Inl err, h\<lparr>best_by_targetkey := m\<rparr>)
                     | (Inr _, m) \<Rightarrow>
                         let h1 = h\<lparr>best_by_targetkey := m\<rparr>; key = (tgt_model t, Some w)
                         in if map_of (best_by_model h) key = None \<and> tgt_model t = ''unknown'' then (Inr (), h1)
                            else (case keep_faster key r (best_by_model h) of
                                    Inl err \<Rightarrow> (Inl err, h1)
                                  | Inr m' \<Rightarrow> (Inr (), h1\<lparr>best_by_model := m'\<rparr>)))))"

fun hist_add_all :: "(texpr \<Rightarrow> texpr) \<Rightarrow> drecord list \<Rightarrow> hist \<Rightarrow> unit res \<times> hist" where
  "hist_add_all simplify [] h = (Inr (), h)"
| "hist_add_all simplify (r # rs) h =
     (case hist_add simplify r h of (Inl err, h') \<Rightarrow> (Inl err, h') | (Inr _, h') \<Rightarrow> hist_add_all simplify rs h')"

text \<open>
  What \<open>load\<close> accepts: a path, an open file, or an iterable of pairs and of further collections.
  Reading a file creates the configuration objects of its records.
\<close>

datatype records = RecPath string | RecBuffer "string list" | RecIter "rec_item list"
  and rec_item = ItemPair drecord | ItemRecords records

fun alloc_records :: "measured list \<Rightarrow> cfg_obj list \<Rightarrow> drecord list \<times> cfg_obj list" where
  "alloc_records [] h = ([], h)"
| "alloc_records (m # ms) h =
     (let c = mi_config (fst m);
          r = \<lparr>dr_target = mi_target (fst m), dr_task = mi_task (fst m), dr_config = length h, dr_result = snd m\<rparr>;
          (rs, h') = alloc_records ms (h @ [\<lparr>co_value = VEntity c, co_cost = cost c, co_workload = None\<rparr>])
      in (r # rs, h'))"

definition alloc_gen :: "measured gen \<Rightarrow> cfg_obj list \<Rightarrow> drecord gen \<times> cfg_obj list" where
  "alloc_gen g h = (case alloc_records (fst g) h of (rs, h') \<Rightarrow> ((rs, snd g), h'))"

text \<open>
  \<open>_unpack_records\<close>. A file is a generator, read while the records are loaded; an iterable is unpacked into a list first, so that
  an exception in it leaves nothing to load.
\<close>

fun unpack_records :: "rec_env \<Rightarrow> (string \<rightharpoonup> string list) \<Rightarrow> records \<Rightarrow> cfg_obj list \<Rightarrow> drecord gen \<times> cfg_obj list"
  and unpack_items :: "rec_env \<Rightarrow> (string \<rightharpoonup> string list) \<Rightarrow> rec_item list \<Rightarrow> cfg_obj list \<Rightarrow> drecord list res \<times> cfg_obj list" where
  "unpack_records env files (RecPath p) h = alloc_gen (load_from_file env files p) h"
| "unpack_records env files (RecBuffer rows) h = alloc_gen (load_from_buffer env rows) h"
| "unpack_records env files (RecIter items) h =
     (case unpack_items env files items h of
        (Inl err, h') \<Rightarrow> (([], Some err), h')
      | (Inr rs, h') \<Rightarrow> ((rs, None), h'))"
| "unpack_items env files [] h = (Inr [], h)"
| "unpack_items env files (ItemPair r # items) h =
     (case unpack_items env files items h of (res, h') \<Rightarrow> (res_bind res (\<lambda>rs. Inr (r # rs)), h'))"
| "unpack_items env files (ItemRecords x # items) h =
     (case unpack_records env files x h of
        ((rs, Some err), h') \<Rightarrow> (Inl err, h')
      | ((rs, None), h') \<Rightarrow>
          (case unpack_items env files items h' of (res, h'') \<Rightarrow> (res_bind res (\<lambda>rs'. Inr (rs @ rs')), h'')))"

definition hist_load :: "rec_env \<Rightarrow> (string \<rightharpoonup> string list) \<Rightarrow> (texpr \<Rightarrow> texpr) \<Rightarrow> records \<Rightarrow> cfg_obj list \<Rightarrow> hist \<Rightarrow>
    unit res \<times> cfg_obj list \<times> hist" where
  "hist_load env files simplify recs cf h =
     (case unpack_records env files recs cf of
        ((rs, err), cf') \<Rightarrow>
          (case hist_add_all simplify rs h of
             (Inl e, h') \<Rightarrow> (Inl e, cf', h')
           | (Inr _, h') \<Rightarrow> (case err of Some e \<Rightarrow> (Inl e, cf', h') | None \<Rightarrow> (Inr (), cf', h'))))"

definition hist_empty :: hist where
  "hist_empty = \<lparr>best_by_targetkey = [], best_by_model = [], best_user_defined = []\<rparr>"

definition records_true :: "records option \<Rightarrow> bool" where
  "records_true recs = (case recs of None \<Rightarrow> False | Some (RecPath p) \<Rightarrow> p \<noteq> [] | Some (RecBuffer rows) \<Rightarrow> True | Some (RecIter items) \<Rightarrow> items \<noteq> [])"

definition hist_init :: "rec_env \<Rightarrow> (string \<rightharpoonup> string list) \<Rightarrow> (texpr \<Rightarrow> texpr) \<Rightarrow> records option \<Rightarrow> cfg_obj list \<Rightarrow>
    unit res \<times> cfg_obj list \<times> hist" where
  "hist_init env files simplify recs cf =
     (if records_true recs then hist_load env files simplify (the recs) cf hist_empty else (Inr (), cf, hist_empty))"

text \<open>\<open>ApplyHistoryBest._query_inside\<close>: the loop over the target keys, after the target model.\<close>

fun hist_find :: "hist \<Rightarrow> string list \<Rightarrow> wkl option \<Rightarrow> cref option" where
  "hist_find h [] w = None"
| "hist_find h (k # ks) w =
     (case map_of (best_user_defined h) (k, w) of
        Some r \<Rightarrow> Some r
      | None \<Rightarrow> (case map_of (best_by_targetkey h) (k, w) of Some rec \<Rightarrow> Some (dr_config rec) | None \<Rightarrow> hist_find h ks w))"

definition hist_query :: "hist \<Rightarrow> target option \<Rightarrow> wkl option \<Rightarrow> cref option res" where
  "hist_query h target w =
     (case target of
        None \<Rightarrow> Inl RuntimeError
      | Some t \<Rightarrow>
          (case map_of (best_user_defined h) (tgt_model t, w) of
             Some r \<Rightarrow> Inr (Some r)
           | None \<Rightarrow>
               (case map_of (best_by_model h) (tgt_model t, w) of
                  Some rec \<Rightarrow> Inr (Some (dr_config rec))
                | None \<Rightarrow> Inr (hist_find h (tgt_keys t) w))))"

definition hist_update :: "hist \<Rightarrow> target \<Rightarrow> wkl option \<Rightarrow> cref \<Rightarrow> hist" where
  "hist_update h t w r =
     h\<lparr>best_user_defined := foldl (\<lambda>m k. AList.update (k, w) r m) (best_user_defined h) (tgt_model t # tgt_keys t)\<rparr>"

section \<open>The fallback context\<close>

definition fallback_query :: "disp_env \<Rightarrow> nat \<Rightarrow> (wkey \<times> cref) list \<Rightarrow> target option \<Rightarrow> wkl option \<Rightarrow> cref option dop" where
  "fallback_query env c memory target w d =
     (let key = (target_str target, w)
      in case map_of memory key of
           Some r \<Rightarrow> (Inr (Some r), d)
         | None \<Rightarrow>
             let msg = de_warning env (target_str target) w;
                 d1 = (if \<not> de_silent env \<and> msg \<notin> set (warning_messages d) then d\<lparr>warning_messages := warning_messages d @ [msg]\<rparr> else d)
             in (Inr (Some (next_cfg d)),
                 set_ctx c (FallbackContext (AList.update key (next_cfg d) memory)) (new_cfg (VFallback (fallback_init [])) None d1)))"

section \<open>Graph level schedules\<close>

definition graph_init :: "rec_env \<Rightarrow> (string \<rightharpoonup> string list) \<Rightarrow> records \<Rightarrow> cfg_obj list \<Rightarrow> ctx_kind res \<times> cfg_obj list" where
  "graph_init env files recs cf =
     (case recs of
        RecIter items \<Rightarrow>
          (res_bind (res_map (\<lambda>i. case i of ItemPair r \<Rightarrow> Inr r | ItemRecords _ \<Rightarrow> Inl TypeErr) items)
             (\<lambda>rs. Inr (ApplyGraphBest \<lparr>gb_records = rs, gb_counter = 0, gb_cfg_dict = []\<rparr>)), cf)
      | _ \<Rightarrow>
          (case unpack_records env files recs cf of
             ((rs, Some err), cf') \<Rightarrow> (Inl err, cf')
           | ((rs, None), cf') \<Rightarrow> (Inr (ApplyGraphBest \<lparr>gb_records = rs, gb_counter = 0, gb_cfg_dict = []\<rparr>), cf')))"

definition graph_query :: "disp_env \<Rightarrow> nat \<Rightarrow> graph_ctx \<Rightarrow> target option \<Rightarrow> wkl option \<Rightarrow> cref option dop" where
  "graph_query env c g target w d =
     (if gb_counter g < length (gb_records g) then
        let rec = gb_records g ! gb_counter g
        in (case workload (de_simplify env) (dr_task rec) of
              Inl err \<Rightarrow> (Inl err, d)
            | Inr wk \<Rightarrow>
                if w \<noteq> None \<and> w \<noteq> Some wk then (Inl AssertionError, d)
                else (Inr (Some (dr_config rec)),
                      cfg_mod (dr_config rec) (\<lambda>ob. ob\<lparr>co_workload := Some wk\<rparr>)
                        (set_ctx c (ApplyGraphBest (g\<lparr>gb_counter := Suc (gb_counter g),
                            gb_cfg_dict := AList.update (target_str target, Some wk) (dr_config rec) (gb_cfg_dict g)\<rparr>)) d)))
      else case map_of (gb_cfg_dict g) (target_str target, w) of
             Some r \<Rightarrow> (Inr (Some r), d)
           | None \<Rightarrow>
               (Inr (Some (next_cfg d)),
                set_ctx c (ApplyGraphBest (g\<lparr>gb_cfg_dict := AList.update (target_str target, w) (next_cfg d) (gb_cfg_dict g)\<rparr>))
                  (new_cfg (VFallback (fallback_init [])) None d)))"

section \<open>Queries and updates\<close>

definition query_inside :: "disp_env \<Rightarrow> nat \<Rightarrow> target option \<Rightarrow> wkl option \<Rightarrow> cref option dop" where
  "query_inside env c target w d =
     (case ctx_of (ctxs d ! c) of
        ApplyConfig r _ \<Rightarrow> (Inr (Some r), set_ctx c (ApplyConfig r w) d)
      | ApplyFixedConfig fx \<Rightarrow> fixed_query c fx w d
      | ApplyHistoryBest h \<Rightarrow> (hist_query h target w, d)
      | FallbackContext memory \<Rightarrow> fallback_query env c memory target w d
      | ApplyGraphBest g \<Rightarrow> graph_query env c g target w d)"

fun ctx_query :: "nat \<Rightarrow> disp_env \<Rightarrow> nat \<Rightarrow> target option \<Rightarrow> wkl option \<Rightarrow> cref dop" where
  "ctx_query 0 env c target w d = (Inl RecursionErr, d)"
| "ctx_query (Suc n) env c target w d =
     (case query_inside env c target w d of
        (Inl err, d') \<Rightarrow> (Inl err, d')
      | (Inr (Some r), d') \<Rightarrow> (Inr r, d')
      | (Inr None, d') \<Rightarrow>
          (case old_ctx (ctxs d' ! c) of
             None \<Rightarrow> (Inl AttributeError, d')
           | Some c' \<Rightarrow> ctx_query n env c' target w d'))"

definition ctx_update :: "nat \<Rightarrow> target option \<Rightarrow> wkl option \<Rightarrow> cref \<Rightarrow> unit dop" where
  "ctx_update c target w r d =
     (case ctx_of (ctxs d ! c) of
        ApplyConfig _ _ \<Rightarrow> (Inr (), set_ctx c (ApplyConfig r w) d)
      | ApplyFixedConfig fx \<Rightarrow> (Inr (), set_ctx c (ApplyFixedConfig (fx\<lparr>fx_workload := w, fx_config := Some r\<rparr>)) d)
      | ApplyHistoryBest h \<Rightarrow>
          (case target of
             None \<Rightarrow> (Inl AttributeError, d)
           | Some t \<Rightarrow> (Inr (), set_ctx c (ApplyHistoryBest (hist_update h t w r)) (cfg_mod r (\<lambda>ob. ob\<lparr>co_cost := Some (Fin 0)\<rparr>) d)))
      | FallbackContext memory \<Rightarrow> (Inr (), set_ctx c (FallbackContext (AList.update (target_str target, w) r memory)) d)
      | ApplyGraphBest g \<Rightarrow>
          (Inr (), set_ctx c (ApplyGraphBest (g\<lparr>gb_cfg_dict := AList.update (target_str target, w) r (gb_cfg_dict g)\<rparr>)) d))"

definition clear_cache :: "(wkey \<times> cref) list \<Rightarrow> target option \<Rightarrow> wkl option \<Rightarrow> (wkey \<times> cref) list" where
  "clear_cache memory target w = AList.delete (target_str target, w) memory"

text \<open>
  \<open>clear_fallback_cache\<close>: the loop to the next \<open>FallbackContext\<close> runs forever when the links form a
  cycle without one, so it has fuel, and \<open>None\<close> stands for a run that is not over.
\<close>

fun clear_fallback_loop :: "nat \<Rightarrow> nat option \<Rightarrow> target option \<Rightarrow> wkl option \<Rightarrow> disp \<Rightarrow> (unit res \<times> disp) option" where
  "clear_fallback_loop 0 c target w d = None"
| "clear_fallback_loop (Suc n) None target w d = Some (Inl AttributeError, d)"
| "clear_fallback_loop (Suc n) (Some c) target w d =
     (case ctx_of (ctxs d ! c) of
        FallbackContext memory \<Rightarrow> Some (Inr (), set_ctx c (FallbackContext (clear_cache memory target w)) d)
      | _ \<Rightarrow> clear_fallback_loop n (old_ctx (ctxs d ! c)) target w d)"

definition clear_fallback_cache :: "nat \<Rightarrow> target option \<Rightarrow> wkl option \<Rightarrow> disp \<Rightarrow> (unit res \<times> disp) option" where
  "clear_fallback_cache n target w d = clear_fallback_loop n (current_ctx d) target w d"

end
