(* ===== verification/DispatcherCorrect.thy ===== *)
theory DispatcherCorrect
  imports Dispatcher
begin

text \<open>
  Correctness of the dispatch contexts: which record of a history answers a query, the contract of \<open>update\<close> and
  \<open>query\<close>, the stack of contexts, and the contexts that do not keep to it.
\<close>

section \<open>The fastest record\<close>

definition mean_of :: "drecord \<Rightarrow> pyfloat" where
  "mean_of r = projr (mean_costs (dr_result r))"

definition keep :: "drecord option \<Rightarrow> drecord \<Rightarrow> drecord option" where
  "keep best r = (case best of None \<Rightarrow> Some r | Some b \<Rightarrow> if fgt (mean_of b) (mean_of r) then Some r else Some b)"

lemma keep_eqs: "keep None r = Some r" "keep (Some b) r = (if fgt (mean_of b) (mean_of r) then Some r else Some b)"
  by (simp_all add: keep_def)

text \<open>The first record of a list that no other one beats.\<close>

definition fastest :: "drecord list \<Rightarrow> drecord option" where
  "fastest rs = foldl keep None rs"

lemma foldl_keep:
  "foldl keep (Some b) rs = Some r \<Longrightarrow>
     r \<in> set (b # rs) \<and> (r = b \<or> fgt (mean_of b) (mean_of r)) \<and> (\<forall>r' \<in> set (b # rs). \<not> fgt (mean_of r) (mean_of r'))"
proof (induction rs arbitrary: b)
  case Nil
  then show ?case by (simp add: fgt_irrefl)
next
  case (Cons x rs)
  show ?case
  proof (cases "fgt (mean_of b) (mean_of x)")
    case True
    then have "foldl keep (Some x) rs = Some r" using Cons.prems by (simp add: keep_eqs)
    from Cons.IH [OF this] True show ?thesis by (auto dest: fgt_trans simp: fgt_irrefl)
  next
    case False
    then have "foldl keep (Some b) rs = Some r" using Cons.prems by (simp add: keep_eqs)
    from Cons.IH [OF this] False show ?thesis by (auto dest: fgt_trans)
  qed
qed

lemma foldl_keep_some: "\<exists>r. foldl keep (Some b) rs = Some r"
  by (induction rs arbitrary: b) (simp_all add: keep_eqs)

lemma fastest_none: "fastest rs = None \<longleftrightarrow> rs = []"
  using foldl_keep_some by (cases rs) (force simp: fastest_def keep_eqs)+

lemma fastest_some: "fastest rs = Some r \<Longrightarrow> r \<in> set rs \<and> (\<forall>r' \<in> set rs. \<not> fgt (mean_of r) (mean_of r'))"
  using foldl_keep by (cases rs) (force simp: fastest_def keep_eqs)+

section \<open>Loading a history\<close>

text \<open>A record that can be loaded: it failed, or its target, workload and costs can be read.\<close>

definition readable :: "(texpr \<Rightarrow> texpr) \<Rightarrow> drecord \<Rightarrow> bool" where
  "readable simplify r \<longleftrightarrow> error_no (dr_result r) \<noteq> 0
     \<or> dr_target r \<noteq> None \<and> (\<exists>w. workload simplify (dr_task r) = Inr w) \<and> (\<exists>m. mean_costs (dr_result r) = Inr m)"

definition succeeded :: "(texpr \<Rightarrow> texpr) \<Rightarrow> wkl \<Rightarrow> drecord \<Rightarrow> bool" where
  "succeeded simplify w r \<longleftrightarrow> error_no (dr_result r) = 0 \<and> workload simplify (dr_task r) = Inr w"

definition of_key :: "(texpr \<Rightarrow> texpr) \<Rightarrow> string \<Rightarrow> wkl \<Rightarrow> drecord \<Rightarrow> bool" where
  "of_key simplify k w r \<longleftrightarrow> succeeded simplify w r \<and> k \<in> set (tgt_keys (the (dr_target r)))"

definition of_model :: "(texpr \<Rightarrow> texpr) \<Rightarrow> string \<Rightarrow> wkl \<Rightarrow> drecord \<Rightarrow> bool" where
  "of_model simplify model w r \<longleftrightarrow> succeeded simplify w r \<and> tgt_model (the (dr_target r)) = model"

definition hist_costs_ok :: "(wkey \<times> drecord) list \<Rightarrow> bool" where
  "hist_costs_ok m \<longleftrightarrow> (\<forall>key r. map_of m key = Some r \<longrightarrow> (\<exists>c. mean_costs (dr_result r) = Inr c))"

lemma keep_faster_map:
  assumes "hist_costs_ok m" and "mean_costs (dr_result r) = Inr c"
  shows "\<exists>m'. keep_faster key r m = Inr m' \<and> map_of m' = (map_of m)(key := keep (map_of m key) r) \<and> hist_costs_ok m'"
proof (cases "map_of m key")
  case None
  then show ?thesis using assms by (auto simp: keep_faster_def keep_def hist_costs_ok_def update_conv')
next
  case (Some b)
  then obtain a where "mean_costs (dr_result b) = Inr a" using assms(1) unfolding hist_costs_ok_def by blast
  then show ?thesis using assms Some
    by (auto simp: keep_faster_def keep_def hist_costs_ok_def update_conv' mean_of_def fun_upd_triv)
qed

lemma keep_again: "keep (keep b r) r = keep b r"
  by (cases b) (simp_all add: keep_eqs fgt_irrefl)

lemma keep_keys_map:
  assumes "hist_costs_ok m" and "mean_costs (dr_result r) = Inr c"
  shows "\<exists>m'. keep_keys w r ks m = (Inr (), m') \<and> hist_costs_ok m'
    \<and> (\<forall>k x. map_of m' (k, x) = (if k \<in> set ks \<and> x = Some w then keep (map_of m (k, x)) r else map_of m (k, x)))"
  using assms(1)
proof (induction ks arbitrary: m)
  case (Cons k ks)
  obtain m1 where m1: "keep_faster (k, Some w) r m = Inr m1" "map_of m1 = (map_of m)((k, Some w) := keep (map_of m (k, Some w)) r)"
    "hist_costs_ok m1" using keep_faster_map [OF Cons.prems assms(2)] by blast
  from Cons.IH [OF m1(3)] obtain m' where m': "keep_keys w r ks m1 = (Inr (), m')" "hist_costs_ok m'"
    "\<And>k x. map_of m' (k, x) = (if k \<in> set ks \<and> x = Some w then keep (map_of m1 (k, x)) r else map_of m1 (k, x))" by blast
  then show ?case using m1(1,2) by (intro exI [of _ m']) (auto simp: keep_again)
qed simp

definition hist_ok :: "hist \<Rightarrow> bool" where
  "hist_ok h \<longleftrightarrow> hist_costs_ok (best_by_targetkey h) \<and> hist_costs_ok (best_by_model h)
     \<and> (\<forall>w. map_of (best_by_model h) (''unknown'', w) = None)"

definition add_best :: "(drecord \<Rightarrow> bool) \<Rightarrow> drecord option \<Rightarrow> drecord \<Rightarrow> drecord option" where
  "add_best P b r = (if P r then keep b r else b)"

lemma hist_add_map:
  assumes "hist_ok h" and "readable simplify r"
  shows "\<exists>h'. hist_add simplify r h = (Inr (), h') \<and> hist_ok h' \<and> best_user_defined h' = best_user_defined h
    \<and> (\<forall>k w. map_of (best_by_targetkey h') (k, Some w) = add_best (of_key simplify k w) (map_of (best_by_targetkey h) (k, Some w)) r)
    \<and> (\<forall>k w. k \<noteq> ''unknown'' \<longrightarrow> map_of (best_by_model h') (k, Some w) = add_best (of_model simplify k w) (map_of (best_by_model h) (k, Some w)) r)"
proof (cases "error_no (dr_result r) = 0")
  case False
  then show ?thesis using assms(1) by (simp add: hist_add_def add_best_def of_key_def of_model_def succeeded_def)
next
  case True
  then obtain t w c where r: "dr_target r = Some t" "workload simplify (dr_task r) = Inr w" "mean_costs (dr_result r) = Inr c"
    using assms(2) by (auto simp: readable_def)
  have ok: "hist_costs_ok (best_by_targetkey h)" "hist_costs_ok (best_by_model h)" "\<And>w. map_of (best_by_model h) (''unknown'', w) = None"
    using assms(1) by (auto simp: hist_ok_def)
  obtain m where m: "keep_keys w r (tgt_keys t) (best_by_targetkey h) = (Inr (), m)" "hist_costs_ok m"
    "\<And>k x. map_of m (k, x) = (if k \<in> set (tgt_keys t) \<and> x = Some w then keep (map_of (best_by_targetkey h) (k, x)) r else map_of (best_by_targetkey h) (k, x))"
    using keep_keys_map [OF ok(1) r(3)] by blast
  obtain m2 where m2: "keep_faster (tgt_model t, Some w) r (best_by_model h) = Inr m2"
    "map_of m2 = (map_of (best_by_model h))((tgt_model t, Some w) := keep (map_of (best_by_model h) (tgt_model t, Some w)) r)" "hist_costs_ok m2"
    using keep_faster_map [OF ok(2) r(3)] by blast
  let ?h1 = "h\<lparr>best_by_targetkey := m\<rparr>"
  let ?h' = "if tgt_model t = ''unknown'' then ?h1 else ?h1\<lparr>best_by_model := m2\<rparr>"
  have add: "hist_add simplify r h = (Inr (), ?h')"
    using True r(1,2) m(1) m2(1) ok(3) by (simp add: hist_add_def Let_def)
  have keys: "best_by_targetkey ?h' = m" and model: "best_by_model ?h' = (if tgt_model t = ''unknown'' then best_by_model h else m2)" by simp_all
  have "map_of m (k, Some v) = add_best (of_key simplify k v) (map_of (best_by_targetkey h) (k, Some v)) r" for k v
    using True r(1,2) m(3) by (simp add: add_best_def of_key_def succeeded_def)
  moreover have "map_of (best_by_model ?h') (k, Some v) = add_best (of_model simplify k v) (map_of (best_by_model h) (k, Some v)) r"
    if "k \<noteq> ''unknown''" for k v
    using True r(1,2) m2(2) that by (auto simp: model add_best_def of_model_def succeeded_def)
  moreover have "hist_ok ?h'" using m(2) m2(2,3) ok by (auto simp: hist_ok_def)
  ultimately show ?thesis using add keys by (intro exI [of _ ?h']) simp
qed

lemma foldl_add_best: "foldl (add_best P) b rs = foldl keep b (filter P rs)"
  by (induction rs arbitrary: b) (simp_all add: add_best_def)

text \<open>Loading continues from the history that is there.\<close>

lemma hist_add_all_map:
  assumes "hist_ok h" and "list_all (readable simplify) rs"
  shows "\<exists>h'. hist_add_all simplify rs h = (Inr (), h') \<and> hist_ok h' \<and> best_user_defined h' = best_user_defined h
    \<and> (\<forall>k w. map_of (best_by_targetkey h') (k, Some w) = foldl keep (map_of (best_by_targetkey h) (k, Some w)) (filter (of_key simplify k w) rs))
    \<and> (\<forall>k w. k \<noteq> ''unknown'' \<longrightarrow>
         map_of (best_by_model h') (k, Some w) = foldl keep (map_of (best_by_model h) (k, Some w)) (filter (of_model simplify k w) rs))"
  using assms
proof (induction rs arbitrary: h)
  case (Cons r rs)
  obtain h1 where h1: "hist_add simplify r h = (Inr (), h1)" "hist_ok h1" "best_user_defined h1 = best_user_defined h"
    "\<And>k w. map_of (best_by_targetkey h1) (k, Some w) = add_best (of_key simplify k w) (map_of (best_by_targetkey h) (k, Some w)) r"
    "\<And>k w. k \<noteq> ''unknown'' \<Longrightarrow> map_of (best_by_model h1) (k, Some w) = add_best (of_model simplify k w) (map_of (best_by_model h) (k, Some w)) r"
    using hist_add_map [of h simplify r] Cons.prems by auto
  from Cons.IH [OF h1(2)] Cons.prems(2) h1 show ?case by (auto simp: add_best_def)
qed simp

section \<open>Answers\<close>

text \<open>The specification of a query: the fastest record of the model, then those of the target keys, in order.\<close>

fun first_some :: "'a option list \<Rightarrow> 'a option" where
  "first_some [] = None"
| "first_some (x # xs) = (case x of None \<Rightarrow> first_some xs | Some y \<Rightarrow> Some y)"

definition best_answer :: "(texpr \<Rightarrow> texpr) \<Rightarrow> drecord list \<Rightarrow> target \<Rightarrow> wkl \<Rightarrow> drecord option" where
  "best_answer simplify rs t w =
     first_some ((if tgt_model t = ''unknown'' then [] else [fastest (filter (of_model simplify (tgt_model t) w) rs)])
       @ map (\<lambda>k. fastest (filter (of_key simplify k w) rs)) (tgt_keys t))"

lemma hist_find_first:
  assumes "best_user_defined h = []"
  shows "hist_find h ks w = map_option dr_config (first_some (map (\<lambda>k. map_of (best_by_targetkey h) (k, w)) ks))"
  using assms by (induction ks) (simp_all split: option.splits)

lemma hist_query_best:
  assumes "list_all (readable simplify) rs"
  shows "\<exists>h. hist_add_all simplify rs hist_empty = (Inr (), h)
    \<and> (\<forall>t w. hist_query h (Some t) (Some w) = Inr (map_option dr_config (best_answer simplify rs t w)))"
proof -
  have "hist_ok hist_empty" by (simp add: hist_ok_def hist_empty_def hist_costs_ok_def)
  from hist_add_all_map [OF this assms] obtain h where h: "hist_add_all simplify rs hist_empty = (Inr (), h)" "hist_ok h"
    "best_user_defined h = []"
    "\<And>k w. map_of (best_by_targetkey h) (k, Some w) = fastest (filter (of_key simplify k w) rs)"
    "\<And>k w. k \<noteq> ''unknown'' \<Longrightarrow> map_of (best_by_model h) (k, Some w) = fastest (filter (of_model simplify k w) rs)"
    by (auto simp: hist_empty_def fastest_def)
  have "hist_query h (Some t) (Some w) = Inr (map_option dr_config (best_answer simplify rs t w))" for t w
  proof (cases "tgt_model t = ''unknown''")
    case True
    then show ?thesis using h(2-4) by (simp add: hist_query_def hist_find_first best_answer_def hist_ok_def)
  next
    case False
    then show ?thesis using h(3,4) h(5) [OF False]
      by (simp add: hist_query_def hist_find_first best_answer_def split: option.splits)
  qed
  then show ?thesis using h(1) by blast
qed

text \<open>
  C24. After loading any list of readable records, a query is answered with the configuration of the fastest successful record of its
  workload: of those for the target's model, if it is known and there are any, else of those that share the
  first target key for which there are any. The fastest is the first one that no other beats. Without such a
  record the query is passed on.
\<close>

theorem history_best:
  assumes "list_all (readable simplify) rs"
  shows "(\<exists>h. hist_add_all simplify rs hist_empty = (Inr (), h)
       \<and> (\<forall>t w. hist_query h (Some t) (Some w) = Inr (map_option dr_config (best_answer simplify rs t w))))
    \<and> (\<forall>P r. fastest (filter P rs) = Some r \<longrightarrow> r \<in> set rs \<and> P r \<and> (\<forall>r' \<in> set rs. P r' \<longrightarrow> \<not> fgt (mean_of r) (mean_of r')))
    \<and> (\<forall>P. fastest (filter P rs) = None \<longleftrightarrow> (\<forall>r \<in> set rs. \<not> P r))"
proof -
  obtain h where "hist_add_all simplify rs hist_empty = (Inr (), h)" "\<And>t w. hist_query h (Some t) (Some w) = Inr (map_option dr_config (best_answer simplify rs t w))"
    using hist_query_best [OF assms] by blast
  moreover have "r \<in> set rs \<and> P r \<and> (\<forall>r' \<in> set rs. P r' \<longrightarrow> \<not> fgt (mean_of r) (mean_of r'))"
    if "fastest (filter P rs) = Some r" for P r using fastest_some [OF that] by simp
  moreover have "fastest (filter P rs) = None \<longleftrightarrow> (\<forall>r \<in> set rs. \<not> P r)" for P
    by (simp add: fastest_none filter_empty_conv)
  ultimately show ?thesis by blast
qed

section \<open>Updates and queries\<close>

text \<open>
  The contract between \<open>update\<close> and a query inside a context: what was stored for a target and a workload is
  found, and other workloads keep their answers.
\<close>

locale config_store =
  fixes ask :: "'c \<Rightarrow> target \<Rightarrow> wkl option \<Rightarrow> cref option"
    and put :: "'c \<Rightarrow> target \<Rightarrow> wkl option \<Rightarrow> cref \<Rightarrow> 'c"
  assumes ask_put: "ask (put c t w r) t w = Some r"
    and ask_put_other: "w' \<noteq> w \<Longrightarrow> ask (put c t w r) t' w' = ask c t' w'"
begin

lemma ask_put_all_other:
  "w \<notin> fst ` set wrs \<Longrightarrow> ask (foldl (\<lambda>c (w, r). put c t w r) c wrs) t' w = ask c t' w"
  by (induction wrs arbitrary: c) (auto simp: ask_put_other)

lemma ask_put_all:
  "distinct (map fst wrs) \<Longrightarrow> (w, r) \<in> set wrs \<Longrightarrow> ask (foldl (\<lambda>c (w, r). put c t w r) c wrs) t w = Some r"
proof (induction wrs arbitrary: c)
  case (Cons x wrs)
  then show ?case by (cases x) (auto simp: ask_put ask_put_all_other)
qed simp

end

lemma map_of_update_keys:
  "map_of (foldl (\<lambda>m k. AList.update (k, w) r m) m ks) (k', w') = (if k' \<in> set ks \<and> w' = w then Some r else map_of m (k', w'))"
  by (induction ks arbitrary: m) (auto simp: update_conv')

abbreviation hist_ask :: "hist \<Rightarrow> target \<Rightarrow> wkl option \<Rightarrow> cref option" where
  "hist_ask h t w \<equiv> projr (hist_query h (Some t) w)"

lemma hist_update_fields:
  "best_by_targetkey (hist_update h t w r) = best_by_targetkey h" "best_by_model (hist_update h t w r) = best_by_model h"
  "map_of (best_user_defined (hist_update h t w r)) (k, w') =
     (if k \<in> set (tgt_model t # tgt_keys t) \<and> w' = w then Some r else map_of (best_user_defined h) (k, w'))"
  unfolding hist_update_def by (simp_all add: map_of_update_keys del: foldl_Cons)

lemma hist_update_other:
  assumes "w' \<noteq> w"
  shows "hist_query (hist_update h t w r) t' w' = hist_query h t' w'"
proof -
  have "hist_find (hist_update h t w r) ks w' = hist_find h ks w'" for ks
    using assms by (induction ks) (simp_all add: hist_update_fields split: option.split)
  then show ?thesis using assms by (simp add: hist_query_def hist_update_fields split: option.split)
qed

lemma hist_update_same: "hist_query (hist_update h t w r) (Some t) w = Inr (Some r)"
  by (simp add: hist_query_def hist_update_fields)

interpretation hstore: config_store hist_ask hist_update
  by unfold_locales (simp_all add: hist_update_same hist_update_other)

interpretation mstore: config_store "\<lambda>m t w. map_of m (tgt_str t, w)" "\<lambda>m t w r. AList.update (tgt_str t, w) r m"
  by unfold_locales (simp_all add: update_conv')

section \<open>The stack of contexts\<close>

text \<open>
  What a program does with contexts when it uses \<open>with\<close> blocks and does not enter a context that is active:
  \<open>disp_reach env d cs\<close> tracks the active contexts \<open>cs\<close>, the current one first. A block is left in the order of
  entering; queries, updates, loading and clearing may happen at any time and on any context.
\<close>

definition same_links :: "disp \<Rightarrow> disp \<Rightarrow> bool" where
  "same_links d d' \<longleftrightarrow> current_ctx d' = current_ctx d \<and> length (ctxs d') = length (ctxs d)
     \<and> (\<forall>c < length (ctxs d). old_ctx (ctxs d' ! c) = old_ctx (ctxs d ! c))
     \<and> (\<forall>c < length (ctxs d). (\<exists>m. ctx_of (ctxs d ! c) = FallbackContext m) \<longleftrightarrow> (\<exists>m. ctx_of (ctxs d' ! c) = FallbackContext m))"

inductive disp_reach :: "disp_env \<Rightarrow> disp \<Rightarrow> nat list \<Rightarrow> bool" for env where
  reach_init: "disp_reach env disp_init [0]"
| reach_new: "disp_reach env d cs \<Longrightarrow> disp_reach env (snd (new_ctx k d)) cs"
| reach_enter: "disp_reach env d cs \<Longrightarrow> c < length (ctxs d) \<Longrightarrow> c \<notin> set cs \<Longrightarrow> disp_reach env (ctx_enter c d) (c # cs)"
| reach_exit: "disp_reach env d (c # cs) \<Longrightarrow> cs \<noteq> [] \<Longrightarrow> disp_reach env (ctx_exit c d) cs"
| reach_query: "disp_reach env d cs \<Longrightarrow> c < length (ctxs d) \<Longrightarrow> disp_reach env (snd (ctx_query n env c target w d)) cs"
| reach_update: "disp_reach env d cs \<Longrightarrow> c < length (ctxs d) \<Longrightarrow> disp_reach env (snd (ctx_update c target w r d)) cs"
| reach_load: "disp_reach env d cs \<Longrightarrow> c < length (ctxs d) \<Longrightarrow> ctx_of (ctxs d ! c) = ApplyHistoryBest h \<Longrightarrow>
    hist_load renv files (de_simplify env) recs (cfgs d) h = (res, cf, h') \<Longrightarrow>
    disp_reach env (set_ctx c (ApplyHistoryBest h') (d\<lparr>cfgs := cf\<rparr>)) cs"
| reach_clear: "disp_reach env d cs \<Longrightarrow> clear_fallback_cache n target w d = Some (res, d') \<Longrightarrow> disp_reach env d' cs"

fun linked :: "disp \<Rightarrow> nat list \<Rightarrow> bool" where
  "linked d [] = False"
| "linked d [c] = (\<exists>m. ctx_of (ctxs d ! c) = FallbackContext m)"
| "linked d (c # c' # cs) = (old_ctx (ctxs d ! c) = Some c' \<and> linked d (c' # cs))"

definition stack_ok :: "disp \<Rightarrow> nat list \<Rightarrow> bool" where
  "stack_ok d cs \<longleftrightarrow> cs \<noteq> [] \<and> current_ctx d = Some (hd cs) \<and> distinct cs \<and> set cs \<subseteq> {..<length (ctxs d)} \<and> linked d cs"

lemma same_links_refl: "same_links d d"
  by (simp add: same_links_def)

lemma same_links_trans: "same_links d d' \<Longrightarrow> same_links d' d'' \<Longrightarrow> same_links d d''"
  by (simp add: same_links_def)

lemma same_links_linked: "same_links d d' \<Longrightarrow> set cs \<subseteq> {..<length (ctxs d)} \<Longrightarrow> linked d cs \<Longrightarrow> linked d' cs"
  by (induction cs rule: linked.induct) (auto simp: same_links_def)

lemma same_links_stack: "same_links d d' \<Longrightarrow> stack_ok d cs \<Longrightarrow> stack_ok d' cs"
  using same_links_linked [of d d' cs] by (auto simp: stack_ok_def same_links_def)

text \<open>Changing a context keeps the links if it does not change whether it is a fallback context.\<close>

definition is_fallback_ctx :: "ctx_kind \<Rightarrow> bool" where
  "is_fallback_ctx k \<longleftrightarrow> (case k of FallbackContext m \<Rightarrow> True | _ \<Rightarrow> False)"

lemma is_fallback_iff: "is_fallback_ctx k \<longleftrightarrow> (\<exists>m. k = FallbackContext m)"
  by (cases k) (auto simp: is_fallback_ctx_def)

lemma same_links_set:
  assumes "c < length (ctxs d)" and "is_fallback_ctx k \<longleftrightarrow> is_fallback_ctx (ctx_of (ctxs d ! c))"
    and "ctxs d' = ctxs d" and "current_ctx d' = current_ctx d"
  shows "same_links d (set_ctx c k d')"
  unfolding same_links_def is_fallback_iff [symmetric] set_ctx_def
  using assms by (auto simp: nth_list_update)

lemma same_links_cfgs: "ctxs d' = ctxs d \<Longrightarrow> current_ctx d' = current_ctx d \<Longrightarrow> same_links d d'"
  by (simp add: same_links_def)

lemma cfg_only [simp]:
  "ctxs (new_cfg v k d) = ctxs d" "current_ctx (new_cfg v k d) = current_ctx d"
  "ctxs (cfg_mod r f d) = ctxs d" "current_ctx (cfg_mod r f d) = current_ctx d"
  by (simp_all add: new_cfg_def cfg_mod_def)

lemma same_links_set_cfgs:
  assumes "c < length (ctxs d)" and "is_fallback_ctx k \<longleftrightarrow> is_fallback_ctx (ctx_of (ctxs d ! c))"
  shows "same_links d (set_ctx c k d)" "same_links d (set_ctx c k (new_cfg v x d))"
    "same_links d (new_cfg v x (set_ctx c k d))" "same_links d (cfg_mod r f (set_ctx c k d))" "same_links d (set_ctx c k (cfg_mod r f d))"
    "same_links d (set_ctx c k (d\<lparr>cfgs := cf\<rparr>))" "same_links d (set_ctx c k (new_cfg v x (d\<lparr>warning_messages := ws\<rparr>)))"
  using same_links_set [OF assms] same_links_cfgs [THEN same_links_trans [OF same_links_set [OF assms refl refl]]] by simp_all

lemma fixed_query_links:
  assumes "c < length (ctxs d)" and "ctx_of (ctxs d ! c) = ApplyFixedConfig fx"
  shows "same_links d (snd (fixed_query c fx w d)) \<and> fst (fixed_query c fx w d) \<noteq> Inr None"
  using assms same_links_set_cfgs [of c d]
  by (simp add: fixed_query_def is_fallback_ctx_def Let_def split: prod.split sum.split)

lemma graph_query_links:
  assumes "c < length (ctxs d)" and "ctx_of (ctxs d ! c) = ApplyGraphBest g"
  shows "same_links d (snd (graph_query env c g target w d)) \<and> fst (graph_query env c g target w d) \<noteq> Inr None"
  using assms same_links_set_cfgs [of c d] same_links_refl
  by (simp add: graph_query_def is_fallback_ctx_def Let_def split: option.split sum.split)

lemma fallback_query_links:
  assumes "c < length (ctxs d)" and "ctx_of (ctxs d ! c) = FallbackContext m"
  shows "same_links d (snd (fallback_query env c m target w d)) \<and> (\<exists>r. fst (fallback_query env c m target w d) = Inr (Some r))"
  using assms same_links_set_cfgs [of c d] same_links_refl
  by (simp add: fallback_query_def is_fallback_ctx_def Let_def split: option.split)

text \<open>Only a history without an answer passes a query on.\<close>

definition no_answer :: "disp \<Rightarrow> target option \<Rightarrow> wkl option \<Rightarrow> nat \<Rightarrow> bool" where
  "no_answer d target w c \<longleftrightarrow> (case ctx_of (ctxs d ! c) of ApplyHistoryBest h \<Rightarrow> hist_query h target w = Inr None | _ \<Rightarrow> False)"

lemma query_inside_links:
  assumes "c < length (ctxs d)"
  shows "same_links d (snd (query_inside env c target w d)) \<and> (no_answer d target w c \<longrightarrow> query_inside env c target w d = (Inr None, d))
    \<and> (\<not> no_answer d target w c \<longrightarrow> fst (query_inside env c target w d) \<noteq> Inr None)"
proof (cases "ctx_of (ctxs d ! c)")
  case (ApplyConfig r x)
  then show ?thesis using same_links_set_cfgs(1) [OF assms] by (simp add: query_inside_def no_answer_def is_fallback_ctx_def)
next
  case (ApplyFixedConfig fx)
  then show ?thesis using fixed_query_links [OF assms ApplyFixedConfig] by (simp add: query_inside_def no_answer_def)
next
  case (ApplyHistoryBest h)
  then show ?thesis using same_links_refl by (simp add: query_inside_def no_answer_def)
next
  case (FallbackContext m)
  then show ?thesis using fallback_query_links [OF assms FallbackContext, of env target w] by (auto simp: query_inside_def no_answer_def)
next
  case (ApplyGraphBest g)
  then show ?thesis using graph_query_links [OF assms ApplyGraphBest] by (simp add: query_inside_def no_answer_def)
qed

definition links_ok :: "disp \<Rightarrow> bool" where
  "links_ok d \<longleftrightarrow> (\<forall>c < length (ctxs d). \<forall>c'. old_ctx (ctxs d ! c) = Some c' \<longrightarrow> c' < length (ctxs d))
     \<and> (\<forall>c. current_ctx d = Some c \<longrightarrow> c < length (ctxs d))"

lemma same_links_ok: "same_links d d' \<Longrightarrow> links_ok d \<Longrightarrow> links_ok d'"
  by (simp add: same_links_def links_ok_def)

lemma ctx_query_links: "links_ok d \<Longrightarrow> c < length (ctxs d) \<Longrightarrow> same_links d (snd (ctx_query n env c target w d))"
proof (induction n arbitrary: c)
  case 0
  then show ?case by (simp add: same_links_refl)
next
  case (Suc n)
  note inside = query_inside_links [OF Suc.prems(2), of env target w]
  show ?case
  proof (cases "no_answer d target w c")
    case True
    then have q: "query_inside env c target w d = (Inr None, d)" using inside by blast
    show ?thesis
    proof (cases "old_ctx (ctxs d ! c)")
      case None
      then show ?thesis using q by (simp add: same_links_refl)
    next
      case (Some c')
      then have "c' < length (ctxs d)" using Suc.prems by (simp add: links_ok_def)
      from Suc.IH [OF Suc.prems(1) this] show ?thesis using q Some by simp
    qed
  next
    case False
    obtain r d' where q: "query_inside env c target w d = (r, d')" by force
    with False inside have "r \<noteq> Inr None" "same_links d d'" by auto
    then show ?thesis using q by (auto split: sum.split option.split)
  qed
qed

lemma ctx_update_links: "c < length (ctxs d) \<Longrightarrow> same_links d (snd (ctx_update c target w r d))"
  using same_links_set_cfgs [of c d] same_links_refl
  by (cases "ctx_of (ctxs d ! c)") (simp_all add: ctx_update_def is_fallback_ctx_def split: option.split)

lemma clear_links:
  "links_ok d \<Longrightarrow> (\<forall>c. p = Some c \<longrightarrow> c < length (ctxs d)) \<Longrightarrow> clear_fallback_loop n p target w d = Some (res, d') \<Longrightarrow> same_links d d'"
proof (induction n p target w d rule: clear_fallback_loop.induct)
  case (3 n c target w d)
  then have c: "c < length (ctxs d)" by simp
  then have "same_links d (set_ctx c (FallbackContext m') d)" if "ctx_of (ctxs d ! c) = FallbackContext m" for m m'
    using same_links_set_cfgs(1) [OF c, of "FallbackContext m'"] that by (simp add: is_fallback_ctx_def)
  moreover have "\<forall>c'. old_ctx (ctxs d ! c) = Some c' \<longrightarrow> c' < length (ctxs d)" using "3.prems"(1) c by (simp add: links_ok_def)
  ultimately show ?case using "3.IH" "3.prems" by (auto split: ctx_kind.splits)
qed (auto simp: same_links_refl)

lemma linked_cong:
  "(\<And>c. c \<in> set cs \<Longrightarrow> ctxs d' ! c = ctxs d ! c) \<Longrightarrow> linked d' cs = linked d cs"
  by (induction cs rule: linked.induct) auto

lemma disp_reach_ok: "disp_reach env d cs \<Longrightarrow> links_ok d \<and> stack_ok d cs"
proof (induction rule: disp_reach.induct)
  case reach_init
  show ?case by (simp add: links_ok_def stack_ok_def disp_init_def)
next
  case (reach_new d cs k)
  have range: "c < length (ctxs d)" if "c \<in> set cs" for c using reach_new.IH that by (auto simp: stack_ok_def)
  then have "linked (snd (new_ctx k d)) cs = linked d cs" by (intro linked_cong) (simp add: new_ctx_def nth_append)
  then have "linked (snd (new_ctx k d)) cs" using reach_new.IH by (simp add: stack_ok_def)
  moreover have "links_ok (snd (new_ctx k d))"
    using reach_new.IH by (fastforce simp: links_ok_def new_ctx_def nth_append less_Suc_eq)
  ultimately show ?case using reach_new.IH by (auto simp: stack_ok_def new_ctx_def)
next
  case (reach_enter d cs c)
  have "linked (ctx_enter c d) cs = linked d cs"
    using reach_enter.hyps(3) by (intro linked_cong) (simp add: ctx_enter_def, metis nth_list_update_neq)
  then have "linked (ctx_enter c d) cs" using reach_enter.IH by (simp add: stack_ok_def)
  moreover obtain c1 cs1 where "cs = c1 # cs1" "current_ctx d = Some c1" using reach_enter.IH by (cases cs) (auto simp: stack_ok_def)
  ultimately have "stack_ok (ctx_enter c d) (c # cs)"
    using reach_enter by (auto simp: stack_ok_def ctx_enter_def)
  moreover have "links_ok (ctx_enter c d)" using reach_enter by (auto simp: links_ok_def ctx_enter_def nth_list_update)
  ultimately show ?case by blast
next
  case (reach_exit d c cs)
  then obtain c1 cs1 where cs: "cs = c1 # cs1" by (cases cs) auto
  have "linked (ctx_exit c d) cs = linked d cs" by (intro linked_cong) (simp add: ctx_exit_def)
  then have "linked (ctx_exit c d) cs" using reach_exit.IH cs by (simp add: stack_ok_def)
  then have "stack_ok (ctx_exit c d) cs" using reach_exit cs by (auto simp: stack_ok_def ctx_exit_def)
  moreover have "links_ok (ctx_exit c d)" using reach_exit by (auto simp: links_ok_def ctx_exit_def stack_ok_def)
  ultimately show ?case by blast
next
  case (reach_query d cs c n target w)
  then show ?case using ctx_query_links same_links_stack same_links_ok by blast
next
  case (reach_update d cs c target w r)
  then show ?case using ctx_update_links same_links_stack same_links_ok by blast
next
  case (reach_load d cs c h renv files recs res cf h')
  have "same_links d (set_ctx c (ApplyHistoryBest h') (d\<lparr>cfgs := cf\<rparr>))"
    using reach_load by (intro same_links_set_cfgs) (simp_all add: is_fallback_ctx_def)
  then show ?case using reach_load.IH same_links_stack same_links_ok by blast
next
  case (reach_clear d cs n target w res d')
  then have "\<forall>c. current_ctx d = Some c \<longrightarrow> c < length (ctxs d)" by (simp add: links_ok_def)
  then show ?case using reach_clear clear_links [of d "current_ctx d"] same_links_stack same_links_ok
    unfolding clear_fallback_cache_def by blast
qed

text \<open>A query runs through the stack to the first context that answers.\<close>

lemma linked_query:
  assumes "linked d cs" and "set cs \<subseteq> {..<length (ctxs d)}" and "length cs \<le> n"
  shows "\<exists>c \<in> set cs. dropWhile (no_answer d target w) cs \<noteq> [] \<and> c = hd (dropWhile (no_answer d target w) cs)
    \<and> \<not> no_answer d target w c
    \<and> ctx_query n env (hd cs) target w d = (case query_inside env c target w d of (r, d') \<Rightarrow> (map_sum id the r, d'))"
  using assms
proof (induction cs arbitrary: n)
  case (Cons c cs)
  then obtain n1 where n: "n = Suc n1" by (cases n) auto
  have c: "c < length (ctxs d)" using Cons.prems(2) by simp
  note inside = query_inside_links [OF c, of env target w]
  show ?case
  proof (cases "no_answer d target w c")
    case True
    then obtain c1 cs1 where cs: "cs = c1 # cs1" using Cons.prems(1) by (cases cs) (auto simp: no_answer_def)
    have "ctx_query n env c target w d = ctx_query n1 env c1 target w d"
      using inside True Cons.prems(1) n cs by simp
    then show ?thesis using Cons.IH [of n1] Cons.prems n cs True by simp
  next
    case False
    obtain r d' where q: "query_inside env c target w d = (r, d')" by force
    with False inside have "r \<noteq> Inr None" by auto
    then show ?thesis using q n False by (auto split: sum.split option.split)
  qed
qed simp

lemma linked_clear:
  "linked d cs \<Longrightarrow> length cs \<le> n \<Longrightarrow> \<exists>d'. clear_fallback_loop n (Some (hd cs)) target w d = Some (Inr (), d')"
proof (induction cs arbitrary: n)
  case (Cons c cs)
  then obtain n1 where n: "n = Suc n1" by (cases n) auto
  show ?case
  proof (cases cs)
    case Nil
    then show ?thesis using Cons.prems n by auto
  next
    case (Cons c1 cs1)
    then show ?thesis using Cons.IH [of n1] Cons.prems n by (auto split: ctx_kind.split)
  qed
qed simp

text \<open>
  C25. As long as no active context is entered again, the current context is the top of the stack of active contexts, which ends
  in a \<open>FallbackContext\<close>. A query of the current context is decided by the first active context that has an answer, and
  with a recursion limit of at least the height of the stack it does not fail for want of one. Clearing the fallback
  cache ends. Leaving a block makes the context current that was current before.
\<close>

theorem dispatch_stack:
  assumes "disp_reach env d cs" and "length cs \<le> n"
  shows "(\<exists>c0 m. current_ctx d = Some (hd cs) \<and> c0 = last cs \<and> ctx_of (ctxs d ! c0) = FallbackContext m)
    \<and> (\<forall>target w. \<exists>c \<in> set cs. c = hd (dropWhile (no_answer d target w) cs)
         \<and> ctx_query n env (hd cs) target w d = (case query_inside env c target w d of (r, d') \<Rightarrow> (map_sum id the r, d')))
    \<and> (\<forall>target w. \<exists>d'. clear_fallback_cache n target w d = Some (Inr (), d'))
    \<and> (\<forall>c. c < length (ctxs d) \<and> c \<notin> set cs \<longrightarrow> current_ctx (ctx_exit c (ctx_enter c d)) = current_ctx d)"
proof -
  have ok: "stack_ok d cs" "links_ok d" using disp_reach_ok [OF assms(1)] by blast+
  have "linked d cs \<Longrightarrow> \<exists>m. ctx_of (ctxs d ! last cs) = FallbackContext m" for cs by (induction cs rule: linked.induct) auto
  then have "\<exists>c0 m. current_ctx d = Some (hd cs) \<and> c0 = last cs \<and> ctx_of (ctxs d ! c0) = FallbackContext m"
    using ok(1) by (auto simp: stack_ok_def)
  moreover have "\<exists>c \<in> set cs. c = hd (dropWhile (no_answer d target w) cs)
         \<and> ctx_query n env (hd cs) target w d = (case query_inside env c target w d of (r, d') \<Rightarrow> (map_sum id the r, d'))" for target w
    using linked_query [of d cs n target w env] ok(1) assms(2) unfolding stack_ok_def by blast
  moreover have "\<exists>d'. clear_fallback_cache n target w d = Some (Inr (), d')" for target w
    using linked_clear [of d cs n target w] ok(1) assms(2) by (simp add: stack_ok_def clear_fallback_cache_def)
  moreover have "current_ctx (ctx_exit c (ctx_enter c d)) = current_ctx d" if "c < length (ctxs d)" for c
    using that by (simp add: ctx_exit_def ctx_enter_def)
  ultimately show ?thesis by blast
qed

definition one_target :: target where
  "one_target = \<lparr>tgt_str = ''cuda'', tgt_keys = [''cuda'', ''gpu''], tgt_model = ''v100''\<rparr>"

definition one_record :: "rat \<Rightarrow> cref \<Rightarrow> drecord" where
  "one_record cst r = \<lparr>dr_target = Some one_target, dr_task = task_init ''conv'' [AInt 3], dr_config = r,
     dr_result = \<lparr>costs = [OFloat cst], error_no = 0, all_cost = 1, timestamp = 1\<rparr>\<rparr>"

theorem history_best_witness:
  "\<exists>h. hist_add_all (\<lambda>e. e) [one_record 3 0, one_record 1 1, one_record 2 2] hist_empty = (Inr (), h)
     \<and> hist_query h (Some one_target) (Some [AStr ''conv'', AInt 3]) = Inr (Some 1)"
proof -
  let ?rs = "[one_record 3 0, one_record 1 1, one_record 2 2]"
  have "list_all (readable (\<lambda>e. e)) ?rs"
    by (simp add: readable_def one_record_def task_init_def workload_def serialize_args_def mean_costs_def)
  from conjunct1 [OF history_best [OF this]]
  obtain h where h: "hist_add_all (\<lambda>e. e) ?rs hist_empty = (Inr (), h)"
    "hist_query h (Some one_target) (Some [AStr ''conv'', AInt 3])
       = Inr (map_option dr_config (best_answer (\<lambda>e. e) ?rs one_target [AStr ''conv'', AInt 3]))" by blast
  have "best_answer (\<lambda>e. e) ?rs one_target [AStr ''conv'', AInt 3] = Some (one_record 1 1)"
    by (simp add: best_answer_def fastest_def keep_def mean_of_def of_model_def succeeded_def one_record_def one_target_def
        task_init_def workload_def serialize_args_def mean_costs_def np_mean_def)
  then show ?thesis using h by (simp add: one_record_def)
qed

theorem dispatch_stack_witness:
  "\<exists>d'. clear_fallback_cache 2 None None (ctx_enter 1 (snd (new_ctx (ApplyHistoryBest hist_empty) disp_init))) = Some (Inr (), d')"
proof -
  let ?d = "snd (new_ctx (ApplyHistoryBest hist_empty) disp_init)"
  have "disp_reach env (ctx_enter 1 ?d) [1, 0]" for env
    by (rule reach_enter [OF reach_new [OF reach_init]]) (simp_all add: new_ctx_def disp_init_def)
  from dispatch_stack [OF this, of 2] show ?thesis by simp
qed

section \<open>Updating a context\<close>

lemma set_ctx_of: "c < length (ctxs d) \<Longrightarrow> ctx_of (ctxs (set_ctx c k d) ! c) = k"
  by (simp add: set_ctx_def)

fun answers_updates :: "ctx_kind \<Rightarrow> bool" where
  "answers_updates (ApplyFixedConfig fx) = False"
| "answers_updates (ApplyGraphBest g) = (length (gb_records g) \<le> gb_counter g)"
| "answers_updates _ = True"

text \<open>
  A configuration stored with \<open>update\<close> is the answer to the next query for that target and workload, in every
  context except \<open>ApplyFixedConfig\<close>, whose queries ignore updates, and \<open>ApplyGraphBest\<close>
  while it still has records. In a history it is so for any number of updates for different workloads, whatever was loaded, and
  the configuration gets the cost 0.
\<close>

theorem update_then_query:
  assumes "c < length (ctxs d)"
  shows "(answers_updates (ctx_of (ctxs d ! c)) \<longrightarrow>
       fst (query_inside env c (Some t) w (snd (ctx_update c (Some t) w r d))) = Inr (Some r))
    \<and> (\<forall>fx. ctx_of (ctxs d ! c) = ApplyFixedConfig fx \<longrightarrow>
         fst (query_inside env c (Some t) w (snd (ctx_update c (Some t) w' r d))) = fst (query_inside env c (Some t) w d))
    \<and> (\<forall>h wrs. distinct (map fst wrs) \<and> (w, r) \<in> set wrs \<longrightarrow>
         hist_query (foldl (\<lambda>h (w, r). hist_update h t w r) h wrs) (Some t) w = Inr (Some r))
    \<and> (\<forall>h. ctx_of (ctxs d ! c) = ApplyHistoryBest h \<and> r < length (cfgs d) \<longrightarrow>
         co_cost (cfgs (snd (ctx_update c (Some t) w r d)) ! r) = Some (Fin 0))"
proof (intro conjI allI impI)
  assume "answers_updates (ctx_of (ctxs d ! c))"
  then show "fst (query_inside env c (Some t) w (snd (ctx_update c (Some t) w r d))) = Inr (Some r)"
    using assms by (cases "ctx_of (ctxs d ! c)")
      (simp_all add: ctx_update_def query_inside_def set_ctx_of cfg_mod_def hist_update_same fallback_query_def graph_query_def target_str_def update_conv')
next
  fix fx assume "ctx_of (ctxs d ! c) = ApplyFixedConfig fx"
  then show "fst (query_inside env c (Some t) w (snd (ctx_update c (Some t) w' r d))) = fst (query_inside env c (Some t) w d)"
    using assms by (simp add: ctx_update_def query_inside_def set_ctx_of fixed_query_def Let_def split: prod.split sum.split) (simp add: set_ctx_def)
next
  fix h wrs assume "distinct (map fst wrs) \<and> (w, r) \<in> set wrs"
  then have "hist_ask (foldl (\<lambda>h (w, r). hist_update h t w r) h wrs) t w = Some r" using hstore.ask_put_all by blast
  moreover have "\<exists>x. hist_query h' (Some t) w = Inr x" for h' by (auto simp: hist_query_def split: option.split)
  ultimately show "hist_query (foldl (\<lambda>h (w, r). hist_update h t w r) h wrs) (Some t) w = Inr (Some r)" by (metis sum.sel(2))
next
  fix h assume "ctx_of (ctxs d ! c) = ApplyHistoryBest h \<and> r < length (cfgs d)"
  then show "co_cost (cfgs (snd (ctx_update c (Some t) w r d)) ! r) = Some (Fin 0)"
    by (simp add: ctx_update_def set_ctx_def cfg_mod_def)
qed

theorem update_then_query_witness:
  "fst (query_inside \<lparr>de_simplify = (\<lambda>e. e), de_silent = True, de_warning = (\<lambda>s w. s)\<rparr> 0 (Some one_target) (Some [AStr ''conv''])
     (snd (ctx_update 0 (Some one_target) (Some [AStr ''conv'']) 5 disp_init))) = Inr (Some 5)"
  using update_then_query [of 0 disp_init] by (simp add: disp_init_def)

section \<open>Contexts that do not keep to the contract\<close>

text \<open>
  C26. A history context that is entered again while it is active links to itself: a query that it cannot
  answer recurses until the limit, whatever the limit, instead of reaching the outer contexts; clearing the
  fallback cache does not end; and after leaving both blocks the context is still the current one.
\<close>

theorem reentered_context:
  assumes "c < length (ctxs d)" and "ctx_of (ctxs d ! c) = ApplyHistoryBest h" and "hist_query h target w = Inr None"
    and "d2 = ctx_enter c (ctx_enter c d)"
  shows "ctx_query n env c target w d2 = (Inl RecursionErr, d2) \<and> clear_fallback_cache n target w d2 = None
    \<and> current_ctx (ctx_exit c (ctx_exit c d2)) = Some c"
proof -
  have link: "old_ctx (ctxs d2 ! c) = Some c" "ctx_of (ctxs d2 ! c) = ApplyHistoryBest h" "current_ctx d2 = Some c"
    using assms by (simp_all add: ctx_enter_def)
  have "ctx_query n env c target w d2 = (Inl RecursionErr, d2)"
    using link assms(3) by (induction n) (simp_all add: query_inside_def)
  moreover have "clear_fallback_loop n (Some c) target w d2 = None" using link by (induction n) simp_all
  ultimately show ?thesis using link by (simp add: clear_fallback_cache_def ctx_exit_def)
qed

theorem reentered_context_witness:
  "ctx_query 1000 \<lparr>de_simplify = (\<lambda>e. e), de_silent = True, de_warning = (\<lambda>s w. s)\<rparr> 1 (Some one_target) None
       (ctx_enter 1 (ctx_enter 1 (snd (new_ctx (ApplyHistoryBest hist_empty) disp_init))))
     = (Inl RecursionErr, ctx_enter 1 (ctx_enter 1 (snd (new_ctx (ApplyHistoryBest hist_empty) disp_init))))"
  using reentered_context [of 1 "snd (new_ctx (ApplyHistoryBest hist_empty) disp_init)" hist_empty "Some one_target" None]
  by (simp add: new_ctx_def disp_init_def hist_query_def hist_empty_def one_target_def)

text \<open>
  \<open>ApplyFixedConfig\<close> with a schedule name that is given as a string, as its documentation allows: \<open>list(name)\<close> splits it into its
  letters, so the schedule of that name gets the high cost unless the name is a single letter; and a
  workload without a task raises \<open>UnboundLocalError\<close> instead of the \<open>RuntimeError\<close> that the code has for it.
\<close>

theorem fixed_config_names:
  assumes "fixed_init tasks (NamesStr s) = Inr (ApplyFixedConfig fx)"
  shows "(\<forall>r d'. length s \<noteq> 1 \<and> fixed_query c fx (Some (AStr s # as)) d = (Inr (Some r), d') \<longrightarrow> co_cost (cfgs d' ! r) = Some (Fin 100000))
    \<and> (list_all (\<lambda>t. task_name t \<noteq> s) tasks \<longrightarrow> fst (fixed_query c fx (Some (AStr s # as)) d) = Inl UnboundLocalError)"
proof -
  have fx: "fx_schedule_names fx = map (\<lambda>ch. [ch]) s" "fx_tasks fx = tasks" using assms by (auto simp: fixed_init_def)
  have "s \<notin> set (map (\<lambda>ch. [ch]) s)" if "length s \<noteq> 1" using that by auto
  moreover have "fst (fixed_find (Some (AStr s # as)) ts) = Inl UnboundLocalError" if "list_all (\<lambda>t. task_name t \<noteq> s) ts" for ts
    using that by (induction ts) (auto simp: wkl_name_def py_get_def split: prod.split)
  ultimately show ?thesis
    by (auto simp: fixed_query_def fx Let_def wkl_name_def py_get_def new_cfg_def set_ctx_def split: prod.splits sum.splits if_splits)
      (metis fst_conv sum.distinct(1) sum.inject(1))+
qed

section \<open>Graph level tuning\<close>

text \<open>A number of queries in a row, as building a graph makes them.\<close>

fun ask_times :: "disp_env \<Rightarrow> nat \<Rightarrow> nat \<Rightarrow> target option \<Rightarrow> cref list dop" where
  "ask_times env 0 c target d = (Inr [], d)"
| "ask_times env (Suc n) c target d =
     (case query_inside env c target None d of
        (Inl err, d') \<Rightarrow> (Inl err, d')
      | (Inr r, d') \<Rightarrow> (case ask_times env n c target d' of (rs, d'') \<Rightarrow> (res_bind rs (\<lambda>rs. Inr (the r # rs)), d'')))"

lemma graph_step:
  assumes "c < length (ctxs d)" and "ctx_of (ctxs d ! c) = ApplyGraphBest g" and "gb_counter g < length (gb_records g)"
    and "workload (de_simplify env) (dr_task (gb_records g ! gb_counter g)) = Inr wk"
  shows "\<exists>d'. query_inside env c target None d = (Inr (Some (dr_config (gb_records g ! gb_counter g))), d') \<and> c < length (ctxs d')
    \<and> ctx_of (ctxs d' ! c) = ApplyGraphBest (g\<lparr>gb_counter := Suc (gb_counter g),
         gb_cfg_dict := AList.update (target_str target, Some wk) (dr_config (gb_records g ! gb_counter g)) (gb_cfg_dict g)\<rparr>)"
  using assms by (simp add: query_inside_def graph_query_def Let_def set_ctx_def)

theorem graph_best_in_order:
  assumes "c < length (ctxs d)" and "ctx_of (ctxs d ! c) = ApplyGraphBest g" and "gb_counter g + n \<le> length (gb_records g)"
    and "list_all (\<lambda>r. \<exists>wk. workload (de_simplify env) (dr_task r) = Inr wk) (gb_records g)"
  shows "fst (ask_times env n c target d) = Inr (map dr_config (take n (drop (gb_counter g) (gb_records g))))"
  using assms
proof (induction n arbitrary: d g)
  case (Suc n)
  let ?r = "gb_records g ! gb_counter g"
  have lt: "gb_counter g < length (gb_records g)" using Suc.prems(3) by simp
  then obtain wk where "workload (de_simplify env) (dr_task ?r) = Inr wk" using Suc.prems(4) by (auto simp: list_all_length)
  from graph_step [OF Suc.prems(1,2) lt this] obtain d' where d':
    "query_inside env c target None d = (Inr (Some (dr_config ?r)), d')" "c < length (ctxs d')"
    "ctx_of (ctxs d' ! c) = ApplyGraphBest (g\<lparr>gb_counter := Suc (gb_counter g),
       gb_cfg_dict := AList.update (target_str target, Some wk) (dr_config ?r) (gb_cfg_dict g)\<rparr>)" by blast
  from Suc.IH [OF d'(2,3)] have "fst (ask_times env n c target d') = Inr (map dr_config (take n (drop (Suc (gb_counter g)) (gb_records g))))"
    using Suc.prems(3,4) by simp
  moreover have "take (Suc n) (drop (gb_counter g) (gb_records g)) = ?r # take n (drop (Suc (gb_counter g)) (gb_records g))"
    using lt by (simp add: Cons_nth_drop_Suc [symmetric])
  ultimately show ?case using d'(1) by (cases "ask_times env n c target d'") simp
qed simp

end
