(* ===== verification/LogTools.thy ===== *)
theory LogTools
  imports DispatcherCorrect TuneLogCorrect
begin

text \<open>
  The two tools of \<open>autotvm/record.py\<close> that rewrite tuning logs: \<open>pick_best\<close> distills the best records of a
  log, \<open>split_workload\<close> splits a log by workload. A file system is a map from names to lines; a tool
  yields its result and the file system it leaves. \<open>split_workload\<close> names its output after the global variable \<open>args\<close> of
  the command line, which exists only when the module is run as a script: \<open>script_in\<close>.
\<close>

section \<open>Picking the best records\<close>

type_synonym files = "string \<rightharpoonup> string list"

definition log_line :: "rec_env \<Rightarrow> measured \<Rightarrow> string res" where
  "log_line env m = res_bind (encode env (fst m) (snd m) ''json'') (\<lambda>row. Inr (row @ [CHR 0x0A]))"

definition log_key :: "key_env \<Rightarrow> measured \<Rightarrow> string" where
  "log_key kenv m = measure_str_key kenv (fst m) True"

fun write_best :: "rec_env \<Rightarrow> key_env \<Rightarrow> measured list \<Rightarrow> string list \<Rightarrow> string gen" where
  "write_best env kenv [] best = ([], None)"
| "write_best env kenv (m # ms) best =
     (if log_key kenv m \<in> set best then
        (case log_line env m of
           Inl err \<Rightarrow> ([], Some err)
         | Inr row \<Rightarrow>
             (case write_best env kenv ms (filter (\<lambda>k. k \<noteq> log_key kenv m) best) of (rows, err) \<Rightarrow> (row # rows, err)))
      else write_best env kenv ms best)"

text \<open>The records of \<open>ms\<close> as objects: the configuration of the \<open>i\<close>-th is the \<open>i\<close>-th configuration object.\<close>

definition recs_of :: "measured list \<Rightarrow> drecord list" where
  "recs_of ms = fst (alloc_records ms [])"

definition best_keys :: "key_env \<Rightarrow> measured list \<Rightarrow> hist \<Rightarrow> string list" where
  "best_keys kenv ms h =
     remdups (map (\<lambda>(key, v). log_key kenv (ms ! dr_config v)) (best_by_model h @ best_by_targetkey h))"

definition pick_input :: "rec_env \<Rightarrow> files \<Rightarrow> string \<Rightarrow> string \<Rightarrow> measured gen" where
  "pick_input env files in_file out_file =
     (case load_from_file env files in_file of
        (ms, Some err) \<Rightarrow> (ms, Some err)
      | (ms, None) \<Rightarrow>
          if files out_file = None then (ms, None)
          else (case load_from_file env files out_file of (ms', err) \<Rightarrow> (ms @ ms', err)))"

definition pick_best :: "rec_env \<Rightarrow> key_env \<Rightarrow> (texpr \<Rightarrow> texpr) \<Rightarrow> files \<Rightarrow> string \<Rightarrow> string \<Rightarrow> unit res \<times> files" where
  "pick_best env kenv simplify files in_file out_file =
     (case pick_input env files in_file out_file of
        (ms, Some err) \<Rightarrow> (Inl err, files)
      | (ms, None) \<Rightarrow>
          (case hist_add_all simplify (recs_of ms) hist_empty of
             (Inl err, h) \<Rightarrow> (Inl err, files)
           | (Inr _, h) \<Rightarrow>
               (case write_best env kenv ms (best_keys kenv ms h) of
                  (rows, err) \<Rightarrow> (case err of None \<Rightarrow> Inr () | Some e \<Rightarrow> Inl e, files(out_file \<mapsto> rows)))))"

section \<open>Splitting by workload\<close>

definition group_add :: "key_env \<Rightarrow> measured \<Rightarrow> (string \<times> measured list) list \<Rightarrow> (string \<times> measured list) list" where
  "group_add kenv m gs =
     (let wk = measure_str_key kenv (fst m) False
      in case map_of gs wk of None \<Rightarrow> AList.update wk [m] gs | Some ms \<Rightarrow> AList.update wk (ms @ [m]) gs)"

definition workload_groups :: "key_env \<Rightarrow> measured list \<Rightarrow> (string \<times> measured list) list" where
  "workload_groups kenv ms = foldl (\<lambda>gs m. group_add kenv m gs) [] ms"

fun clean_dups :: "key_env \<Rightarrow> string list \<Rightarrow> measured list \<Rightarrow> measured list" where
  "clean_dups kenv added [] = []"
| "clean_dups kenv added (m # ms) =
     (if log_key kenv m \<in> set added then clean_dups kenv added ms
      else m # clean_dups kenv (log_key kenv m # added) ms)"

definition pad3 :: "nat \<Rightarrow> string" where
  "pad3 n = replicate (3 - length (str_of_nat n)) CHR ''0'' @ str_of_nat n"

fun write_lines :: "rec_env \<Rightarrow> measured list \<Rightarrow> string gen" where
  "write_lines env [] = ([], None)"
| "write_lines env (m # ms) =
     (case log_line env m of
        Inl err \<Rightarrow> ([], Some err)
      | Inr row \<Rightarrow> (case write_lines env ms of (rows, err) \<Rightarrow> (row # rows, err)))"

fun write_groups :: "rec_env \<Rightarrow> string option \<Rightarrow> nat \<Rightarrow> measured list list \<Rightarrow> files \<Rightarrow> unit res \<times> files" where
  "write_groups env script_in i [] files = (Inr (), files)"
| "write_groups env script_in i (g # gs) files =
     (case script_in of
        None \<Rightarrow> (Inl NameErr, files)
      | Some nm \<Rightarrow>
          (case write_lines env g of
             (rows, err) \<Rightarrow>
               let files' = files(nm @ ''.'' @ pad3 i @ ''.wkl'' \<mapsto> rows)
               in (case err of Some e \<Rightarrow> (Inl e, files') | None \<Rightarrow> write_groups env script_in (Suc i) gs files')))"

definition split_workload :: "rec_env \<Rightarrow> key_env \<Rightarrow> string option \<Rightarrow> files \<Rightarrow> string \<Rightarrow> bool \<Rightarrow> unit res \<times> files" where
  "split_workload env kenv script_in files in_file clean =
     (case files in_file of
        None \<Rightarrow> (Inl IOErr, files)
      | Some lines \<Rightarrow>
          (case res_map (\<lambda>row. decode env row ''json'') lines of
             Inl err \<Rightarrow> (Inl err, files)
           | Inr ms \<Rightarrow>
               let groups = workload_groups kenv (List.map_filter (\<lambda>m. m) ms)
               in write_groups env script_in 0 (map (\<lambda>(k, v). if clean then clean_dups kenv [] v else v) groups) files))"

section \<open>The best records are kept\<close>

definition rec_at :: "measured \<Rightarrow> nat \<Rightarrow> drecord" where
  "rec_at m i = \<lparr>dr_target = mi_target (fst m), dr_task = mi_task (fst m), dr_config = i, dr_result = snd m\<rparr>"

lemma alloc_records_eq: "fst (alloc_records ms h) = map (\<lambda>i. rec_at (ms ! i) (length h + i)) [0..<length ms]"
proof (induction ms arbitrary: h)
  case (Cons m ms)
  let ?h = "h @ [\<lparr>co_value = VEntity (mi_config (fst m)), co_cost = cost (mi_config (fst m)), co_workload = None\<rparr>]"
  have "fst (alloc_records (m # ms) h) = rec_at m (length h) # fst (alloc_records ms ?h)"
    by (simp add: Let_def rec_at_def split: prod.split)
  also have "\<dots> = rec_at m (length h) # map (\<lambda>i. rec_at (ms ! i) (length h + Suc i)) [0..<length ms]"
    by (simp add: Cons.IH)
  finally show ?case by (simp add: upt_conv_Cons map_Suc_upt [symmetric] del: upt_Suc)
qed simp

lemma recs_of_eq: "recs_of ms = map (\<lambda>i. rec_at (ms ! i) i) [0..<length ms]"
  by (simp add: recs_of_def alloc_records_eq)

text \<open>For finite mean costs, the fastest record is the first one with the least cost.\<close>

definition mean_cost :: "drecord \<Rightarrow> rat" where
  "mean_cost r = (case mean_of r of Fin q \<Rightarrow> q | _ \<Rightarrow> 0)"

definition finite_cost :: "drecord \<Rightarrow> bool" where
  "finite_cost r \<longleftrightarrow> (\<exists>q. mean_of r = Fin q)"

lemma fgt_mean: "finite_cost a \<Longrightarrow> finite_cost b \<Longrightarrow> fgt (mean_of a) (mean_of b) \<longleftrightarrow> mean_cost b < mean_cost a"
  by (auto simp: finite_cost_def mean_cost_def)

definition first_least :: "drecord list \<Rightarrow> drecord \<Rightarrow> bool" where
  "first_least rs r \<longleftrightarrow> (\<exists>ys zs. rs = ys @ r # zs \<and> (\<forall>y \<in> set ys. mean_cost r < mean_cost y) \<and> (\<forall>z \<in> set zs. mean_cost r \<le> mean_cost z))"

lemma fastest_snoc: "fastest (rs @ [x]) = keep (fastest rs) x"
  by (simp add: fastest_def)

lemma fastest_first_least: "list_all finite_cost rs \<Longrightarrow> fastest rs = Some r \<Longrightarrow> first_least rs r"
proof (induction rs arbitrary: r rule: rev_induct)
  case Nil
  then show ?case by (simp add: fastest_def)
next
  case (snoc x rs)
  show ?case
  proof (cases "fastest rs")
    case None
    then have "rs = []" by (simp add: fastest_none)
    then have "r = x" using snoc.prems(2) by (simp add: fastest_def keep_eqs)
    with \<open>rs = []\<close> show ?thesis unfolding first_least_def by (intro exI [of _ "[]"]) simp
  next
    case (Some b)
    from snoc.IH [OF _ Some] snoc.prems(1) obtain ys zs where b: "rs = ys @ b # zs"
      "\<forall>y \<in> set ys. mean_cost b < mean_cost y" "\<forall>z \<in> set zs. mean_cost b \<le> mean_cost z" by (auto simp: first_least_def)
    have fin: "finite_cost b" "finite_cost x" using b(1) snoc.prems(1) by auto
    show ?thesis
    proof (cases "mean_cost x < mean_cost b")
      case True
      then have "r = x" using snoc.prems(2) Some fin by (simp add: fastest_snoc keep_eqs fgt_mean)
      moreover have "\<forall>y \<in> set rs. mean_cost x < mean_cost y" using b True by force
      ultimately show ?thesis unfolding first_least_def by (intro exI [of _ rs] exI [of _ "[]"]) simp
    next
      case False
      then have "r = b" using snoc.prems(2) Some fin by (simp add: fastest_snoc keep_eqs fgt_mean)
      then show ?thesis using b False unfolding first_least_def by (intro exI [of _ ys] exI [of _ "zs @ [x]"]) auto
    qed
  qed
qed

lemma first_least_fastest:
  assumes "list_all finite_cost rs" and "first_least rs r"
  shows "fastest rs = Some r"
proof -
  obtain ys zs where rs: "rs = ys @ r # zs" "\<forall>y \<in> set ys. mean_cost r < mean_cost y" "\<forall>z \<in> set zs. mean_cost r \<le> mean_cost z"
    using assms(2) by (auto simp: first_least_def)
  have fin: "finite_cost r" "\<forall>y \<in> set ys. finite_cost y" "\<forall>z \<in> set zs. finite_cost z" using assms(1) rs(1) by (auto simp: list_all_iff)
  have "keep (fastest ys) r = Some r"
  proof (cases "fastest ys")
    case (Some b)
    then have "b \<in> set ys" using fastest_some by blast
    then show ?thesis using Some rs(2) fin by (simp add: keep_eqs fgt_mean)
  qed (simp add: keep_eqs)
  moreover have "foldl keep (Some r) zs = Some r"
    using rs(3) fin(1,3) by (induction zs) (auto simp: keep_eqs fgt_mean)
  ultimately show ?thesis unfolding rs(1) by (simp add: fastest_def)
qed

text \<open>A part of the records that contains the fastest one has the same fastest one.\<close>

lemma fastest_part:
  assumes "list_all finite_cost rs" and "\<And>r. fastest rs = Some r \<Longrightarrow> Q r"
  shows "fastest (filter Q rs) = fastest rs"
proof (cases "fastest rs")
  case None
  then show ?thesis by (simp add: fastest_none)
next
  case (Some r)
  from fastest_first_least [OF assms(1) this] obtain ys zs where rs: "rs = ys @ r # zs"
    "\<forall>y \<in> set ys. mean_cost r < mean_cost y" "\<forall>z \<in> set zs. mean_cost r \<le> mean_cost z" by (auto simp: first_least_def)
  then have "first_least (filter Q rs) r" using assms(2) [OF Some] unfolding first_least_def
    by (intro exI [of _ "filter Q ys"] exI [of _ "filter Q zs"]) simp
  moreover have "list_all finite_cost (filter Q rs)" using assms(1) by (auto simp: list_all_iff)
  ultimately show ?thesis using first_least_fastest Some by simp
qed

lemma fastest_map:
  assumes "\<And>r. mean_of (f r) = mean_of r"
  shows "fastest (map f rs) = map_option f (fastest rs)"
proof (induction rs rule: rev_induct)
  case Nil
  show ?case by (simp add: fastest_def)
next
  case (snoc x rs)
  then show ?case by (cases "fastest rs") (simp_all add: fastest_snoc keep_eqs assms)
qed

text \<open>The records of a part of a log are those of the log with other addresses.\<close>

definition readdress :: "(measured \<Rightarrow> bool) \<Rightarrow> measured list \<Rightarrow> drecord \<Rightarrow> drecord" where
  "readdress K ms r = r\<lparr>dr_config := length (filter K (take (dr_config r) ms))\<rparr>"

lemma recs_of_snoc: "recs_of (ms @ [m]) = recs_of ms @ [rec_at m (length ms)]"
  by (simp add: recs_of_eq nth_append)

lemma recs_of_config: "r \<in> set (recs_of ms) \<Longrightarrow> dr_config r < length ms \<and> r = rec_at (ms ! dr_config r) (dr_config r)"
  by (auto simp: recs_of_eq rec_at_def)

lemma recs_of_filter: "recs_of (filter K ms) = map (readdress K ms) (filter (\<lambda>r. K (ms ! dr_config r)) (recs_of ms))"
proof (induction ms rule: rev_induct)
  case Nil
  show ?case by (simp add: recs_of_eq)
next
  case (snoc m ms)
  let ?ms = "ms @ [m]"
  have flt: "filter (\<lambda>r. K (?ms ! dr_config r)) (recs_of ms) = filter (\<lambda>r. K (ms ! dr_config r)) (recs_of ms)"
    using recs_of_config by (intro filter_cong) (auto simp: nth_append)
  have "readdress K ?ms r = readdress K ms r" if "r \<in> set (recs_of ms)" for r
    using recs_of_config [OF that] by (simp add: readdress_def)
  then have mp: "map (readdress K ?ms) (filter (\<lambda>r. K (?ms ! dr_config r)) (recs_of ms)) = recs_of (filter K ms)"
    unfolding snoc.IH flt by (intro map_cong) auto
  show ?case
  proof (cases "K m")
    case True
    have "readdress K ?ms (rec_at m (length ms)) = rec_at m (length (filter K ms))"
      by (simp add: readdress_def rec_at_def)
    then show ?thesis using mp True by (simp add: recs_of_snoc rec_at_def nth_append)
  next
    case False
    then show ?thesis using mp by (simp add: recs_of_snoc rec_at_def nth_append)
  qed
qed

lemma nth_filter_take: "i < length ms \<Longrightarrow> K (ms ! i) \<Longrightarrow> filter K ms ! length (filter K (take i ms)) = ms ! i"
proof (induction ms arbitrary: i)
  case (Cons m ms)
  then show ?case by (cases i) auto
qed simp

lemma readdress_pred [simp]:
  "mean_of (readdress K ms r) = mean_of r" "of_key simplify k w (readdress K ms r) = of_key simplify k w r"
  "of_model simplify k w (readdress K ms r) = of_model simplify k w r"
  by (simp_all add: readdress_def mean_of_def of_key_def of_model_def succeeded_def)

lemma first_some_map: "first_some (map (map_option f) xs) = map_option f (first_some xs)"
  by (induction xs) (simp_all split: option.split)

lemma first_some_in: "first_some xs = Some y \<Longrightarrow> Some y \<in> set xs"
  by (induction xs) (auto split: option.splits)

definition usable :: "(texpr \<Rightarrow> texpr) \<Rightarrow> measured \<Rightarrow> bool" where
  "usable simplify m \<longleftrightarrow> (error_no (snd m) = 0 \<longrightarrow> mi_target (fst m) \<noteq> None \<and> (\<exists>w. workload simplify (mi_task (fst m)) = Inr w)
     \<and> (\<exists>q. mean_costs (snd m) = Inr (Fin q)))"

lemma usable_recs:
  assumes "list_all (usable simplify) ms" and "r \<in> set (recs_of ms)"
  shows "readable simplify r" and "error_no (dr_result r) = 0 \<Longrightarrow> finite_cost r"
proof -
  have r: "dr_config r < length ms" "r = rec_at (ms ! dr_config r) (dr_config r)" using recs_of_config [OF assms(2)] by blast+
  then have "usable simplify (ms ! dr_config r)" using assms(1) by (simp add: list_all_length)
  moreover have "dr_target r = mi_target (fst (ms ! dr_config r))" "dr_task r = mi_task (fst (ms ! dr_config r))"
    "dr_result r = snd (ms ! dr_config r)" by (subst r(2), simp add: rec_at_def)+
  ultimately show "readable simplify r" and "error_no (dr_result r) = 0 \<Longrightarrow> finite_cost r"
    by (auto simp: usable_def readable_def finite_cost_def mean_of_def)
qed

lemma part_fastest:
  assumes "list_all (usable simplify) ms" and "\<And>r. P r \<Longrightarrow> error_no (dr_result r) = 0"
    and "\<And>r. P (readdress K ms r) = P r" and "\<And>r. fastest (filter P (recs_of ms)) = Some r \<Longrightarrow> K (ms ! dr_config r)"
  shows "fastest (filter P (recs_of (filter K ms))) = map_option (readdress K ms) (fastest (filter P (recs_of ms)))"
proof -
  have "filter P (recs_of (filter K ms)) = map (readdress K ms) (filter (\<lambda>r. K (ms ! dr_config r)) (filter P (recs_of ms)))"
    by (simp add: recs_of_filter filter_map comp_def assms(3) conj_commute)
  moreover have "list_all finite_cost (filter P (recs_of ms))" using usable_recs(2) [OF assms(1)] assms(2) by (auto simp: list_all_iff)
  ultimately show ?thesis using fastest_part [of "filter P (recs_of ms)" "\<lambda>r. K (ms ! dr_config r)"] assms(4)
    by (simp add: fastest_map)
qed

lemma write_best_filter:
  assumes "distinct (map (log_key kenv) ms)" and "\<forall>m \<in> set ms. \<exists>row. log_line env m = Inr row"
  shows "write_best env kenv ms best = (map (\<lambda>m. projr (log_line env m)) (filter (\<lambda>m. log_key kenv m \<in> set best) ms), None)"
  using assms
proof (induction ms arbitrary: best)
  case (Cons m ms)
  have "filter (\<lambda>x. log_key kenv x \<in> set best \<and> log_key kenv x \<noteq> log_key kenv m) ms = filter (\<lambda>x. log_key kenv x \<in> set best) ms"
    using Cons.prems(1) by (intro filter_cong) (auto simp: image_iff)
  then show ?case using Cons by (auto simp: conj_commute split: sum.split)
qed simp

lemma part_answers:
  assumes "list_all (usable simplify) ms"
    and keysK: "\<And>k w r. fastest (filter (of_key simplify k w) (recs_of ms)) = Some r \<Longrightarrow> K (ms ! dr_config r)"
    and modelK: "\<And>k w r. k \<noteq> ''unknown'' \<Longrightarrow> fastest (filter (of_model simplify k w) (recs_of ms)) = Some r \<Longrightarrow> K (ms ! dr_config r)"
  shows "map_option (\<lambda>r. filter K ms ! dr_config r) (best_answer simplify (recs_of (filter K ms)) t w)
    = map_option (\<lambda>r. ms ! dr_config r) (best_answer simplify (recs_of ms) t w)"
proof -
  have keys: "fastest (filter (of_key simplify k w) (recs_of (filter K ms)))
      = map_option (readdress K ms) (fastest (filter (of_key simplify k w) (recs_of ms)))" for k w
    using keysK by (intro part_fastest [OF assms(1)]) (auto simp: of_key_def [of simplify k w] succeeded_def)
  have model: "fastest (filter (of_model simplify k w) (recs_of (filter K ms)))
      = map_option (readdress K ms) (fastest (filter (of_model simplify k w) (recs_of ms)))" if "k \<noteq> ''unknown''" for k w
    using modelK [OF that] by (intro part_fastest [OF assms(1)]) (auto simp: of_model_def [of simplify k w] succeeded_def)
  let ?xs = "\<lambda>rs. (if tgt_model t = ''unknown'' then [] else [fastest (filter (of_model simplify (tgt_model t) w) rs)])
      @ map (\<lambda>k. fastest (filter (of_key simplify k w) rs)) (tgt_keys t)"
  have "?xs (recs_of (filter K ms)) = map (map_option (readdress K ms)) (?xs (recs_of ms))"
    by (simp add: keys model)
  then have "best_answer simplify (recs_of (filter K ms)) t w = map_option (readdress K ms) (best_answer simplify (recs_of ms) t w)"
    by (simp only: best_answer_def first_some_map)
  moreover have "filter K ms ! dr_config (readdress K ms r) = ms ! dr_config r" if r: "best_answer simplify (recs_of ms) t w = Some r" for r
  proof -
    have "\<exists>P. fastest (filter P (recs_of ms)) = Some r \<and> K (ms ! dr_config r)"
      using first_some_in [OF r [unfolded best_answer_def]] keysK modelK by (auto split: if_splits)
    then have "dr_config r < length ms" "K (ms ! dr_config r)" using fastest_some recs_of_config by fastforce+
    then show ?thesis by (simp add: readdress_def nth_filter_take)
  qed
  ultimately show ?thesis by (cases "best_answer simplify (recs_of ms) t w") simp_all
qed

text \<open>
  C40. \<open>pick_best\<close> keeps every answer: on a log (with an existing output file taken into account) of records with different
  keys, the rows it writes are those of a part of the records, and a history loaded from that part
  answers every query with the same record as one loaded from all of them. When the log has several records with one key, the
  first of them is written (\<open>pick_best_first_duplicate\<close>), and the answers can change.
\<close>

theorem pick_best_keeps_answers:
  assumes "pick_input env files in_file out_file = (ms, None)" and "list_all (usable simplify) ms"
    and "distinct (map (log_key kenv) ms)" and "\<forall>m \<in> set ms. \<exists>row. log_line env m = Inr row"
  shows "\<exists>K. pick_best env kenv simplify files in_file out_file = (Inr (), files(out_file \<mapsto> map (\<lambda>m. projr (log_line env m)) (filter K ms)))
    \<and> (\<forall>t w. map_option (\<lambda>r. filter K ms ! dr_config r) (best_answer simplify (recs_of (filter K ms)) t w)
            = map_option (\<lambda>r. ms ! dr_config r) (best_answer simplify (recs_of ms) t w))"
proof -
  have "list_all (readable simplify) (recs_of ms)" using usable_recs(1) [OF assms(2)] by (simp add: list_all_iff)
  moreover have "hist_ok hist_empty" by (simp add: hist_ok_def hist_empty_def hist_costs_ok_def)
  ultimately obtain h where h: "hist_add_all simplify (recs_of ms) hist_empty = (Inr (), h)"
    "\<And>k w. map_of (best_by_targetkey h) (k, Some w) = fastest (filter (of_key simplify k w) (recs_of ms))"
    "\<And>k w. k \<noteq> ''unknown'' \<Longrightarrow> map_of (best_by_model h) (k, Some w) = fastest (filter (of_model simplify k w) (recs_of ms))"
    using hist_add_all_map [of hist_empty simplify "recs_of ms"] by (auto simp: hist_empty_def fastest_def)
  define best where "best = best_keys kenv ms h"
  define K where "K = (\<lambda>m. log_key kenv m \<in> set best)"
  have inK: "K (ms ! dr_config v)" if "map_of (best_by_model h) key = Some v \<or> map_of (best_by_targetkey h) key = Some v" for key v
    using that unfolding K_def best_def best_keys_def by (auto dest!: map_of_SomeD intro: rev_image_eqI)
  have run: "pick_best env kenv simplify files in_file out_file = (Inr (), files(out_file \<mapsto> map (\<lambda>m. projr (log_line env m)) (filter K ms)))"
    using assms(1) h(1) write_best_filter [OF assms(3,4), of best] by (simp add: pick_best_def best_def K_def)
  have "map_option (\<lambda>r. filter K ms ! dr_config r) (best_answer simplify (recs_of (filter K ms)) t w)
      = map_option (\<lambda>r. ms ! dr_config r) (best_answer simplify (recs_of ms) t w)" for t w
    using inK h(2,3) by (intro part_answers [OF assms(2)]) metis+
  then show ?thesis using run by blast
qed

definition plain_keys :: key_env where
  "plain_keys = \<lparr>str_args = (\<lambda>as. []), str_config = (\<lambda>c. [])\<rparr>"

definition logged_sample :: measured where
  "logged_sample = (logged_input sample_input (reread_config sample_entity) (logged_result sample_result), logged_result sample_result)"

lemma logged_sample_line: "log_line sample_env logged_sample = Inr [CHR ''{'', CHR ''}'', CHR 0x0A]"
proof -
  have "json_record sample_env (fst logged_sample) (snd logged_sample) = json_record sample_env sample_input sample_result"
    by (simp add: json_record_def logged_sample_def logged_input_def sample_input_def task_init_def reread_config_def
        sample_entity_def to_json_dict_def logged_result_def logged_costs_def sample_result_def)
  moreover obtain x where "json_record sample_env sample_input sample_result = Inr x" using json_record_trip [OF sample_facts(1-5)] by blast
  ultimately show ?thesis by (simp add: log_line_def encode_def sample_codec)
qed

lemma decode_sample: "decode sample_env row ''json'' = Inr (Some logged_sample)"
proof -
  have cfg: "mi_config sample_input = sample_entity" by (simp add: sample_input_def)
  obtain x j where "json_record sample_env sample_input sample_result = Inr x" "json_trip x = Inr j" "\<not> is_old_row j"
    "decode_json sample_env j = Inr logged_sample"
    using json_record_trip [OF sample_facts(1-5)] unfolding logged_sample_def cfg by blast
  then show ?thesis by (simp add: decode_def sample_codec)
qed

theorem pick_best_keeps_answers_witness:
  "\<exists>K. pick_best sample_env plain_keys (\<lambda>e. e) [''log'' \<mapsto> [''x'']] ''log'' ''best''
     = (Inr (), [''log'' \<mapsto> [''x''], ''best'' \<mapsto> map (\<lambda>m. projr (log_line sample_env m)) (filter K [logged_sample])])"
proof -
  have "pick_input sample_env [''log'' \<mapsto> [''x'']] ''log'' ''best'' = ([logged_sample], None)"
    by (simp add: pick_input_def load_from_file_def decode_sample)
  moreover have "list_all (usable (\<lambda>e. e)) [logged_sample]"
    by (simp add: usable_def logged_sample_def logged_input_def logged_result_def sample_input_def sample_result_def task_init_def
        workload_def serialize_args_def mean_costs_def logged_costs_def np_mean_def)
  moreover have "\<forall>m \<in> set [logged_sample]. \<exists>row. log_line sample_env m = Inr row" by (simp add: logged_sample_line)
  ultimately show ?thesis using pick_best_keeps_answers [of sample_env "[''log'' \<mapsto> [''x'']]" "''log''" "''best''" "[logged_sample]" "\<lambda>e. e" plain_keys]
    by auto
qed

text \<open>
  When a configuration was measured more than once, \<open>pick_best\<close> writes the first measurement of it, which need not be
  the best one and may even have failed.
\<close>

theorem pick_best_first_duplicate:
  assumes "log_key kenv m1 = log_key kenv m2" and "log_line env m1 = Inr row"
  shows "write_best env kenv [m1, m2] [log_key kenv m2] = ([row], None)"
  using assms by simp

section \<open>The split is a partition\<close>

abbreviation wkl_key :: "key_env \<Rightarrow> measured \<Rightarrow> string" where
  "wkl_key kenv m \<equiv> measure_str_key kenv (fst m) False"

lemma group_add_map:
  "map_of (group_add kenv m gs) k =
     (if k = wkl_key kenv m then Some ((case map_of gs k of None \<Rightarrow> [] | Some ms \<Rightarrow> ms) @ [m]) else map_of gs k)"
  by (auto simp: group_add_def Let_def update_conv' split: option.split)

lemma group_add_keys: "map fst (group_add kenv m gs) = (if wkl_key kenv m \<in> fst ` set gs then map fst gs else map fst gs @ [wkl_key kenv m])"
  by (auto simp: group_add_def Let_def update_keys split: option.split)

lemma groups_snoc: "workload_groups kenv (ms @ [m]) = group_add kenv m (workload_groups kenv ms)"
  by (simp add: workload_groups_def)

lemma groups_spec:
  "distinct (map fst (workload_groups kenv ms)) \<and> fst ` set (workload_groups kenv ms) = wkl_key kenv ` set ms
   \<and> (\<forall>k. map_of (workload_groups kenv ms) k = (if k \<in> wkl_key kenv ` set ms then Some (filter (\<lambda>m. wkl_key kenv m = k) ms) else None))"
proof (induction ms rule: rev_induct)
  case Nil
  show ?case by (simp add: workload_groups_def)
next
  case (snoc m ms)
  let ?gs = "workload_groups kenv ms"
  have "distinct (map fst (group_add kenv m ?gs))" using snoc.IH by (auto simp: group_add_keys)
  moreover have "fst ` set (group_add kenv m ?gs) = insert (wkl_key kenv m) (fst ` set ?gs)"
    using arg_cong [OF group_add_keys, of set kenv m ?gs] by (auto split: if_splits)
  moreover have "filter (\<lambda>x. wkl_key kenv x = wkl_key kenv m) ms = []" if "wkl_key kenv m \<notin> wkl_key kenv ` set ms"
    using that by (auto simp: filter_empty_conv image_iff)
  ultimately show ?case using snoc.IH by (auto simp: groups_snoc group_add_map)
qed

lemma clean_dups_spec:
  "distinct (map (log_key kenv) (clean_dups kenv added ms)) \<and> set (clean_dups kenv added ms) \<subseteq> set ms
   \<and> log_key kenv ` set (clean_dups kenv added ms) = log_key kenv ` set ms - set added"
proof (induction ms arbitrary: added)
  case (Cons m ms)
  show ?case
  proof (cases "log_key kenv m \<in> set added")
    case True
    then show ?thesis using Cons.IH [of added] by auto
  next
    case False
    have "log_key kenv m \<notin> log_key kenv ` set (clean_dups kenv (log_key kenv m # added) ms)"
      using Cons.IH [of "log_key kenv m # added"] by simp
    then show ?thesis using False Cons.IH [of "log_key kenv m # added"] by auto
  qed
qed simp

text \<open>
  \<open>split_workload\<close> writes one file per workload: the groups have different workloads, every workload of the log has one, and
  it holds the records of that workload in the order of the log. Cleaning leaves exactly one record per
  configuration. Called as a function, without the command line, it raises \<open>NameError\<close> on every log with a record and writes nothing.
\<close>

theorem split_workload_partition:
  shows "distinct (map fst (workload_groups kenv ms)) \<and> fst ` set (workload_groups kenv ms) = wkl_key kenv ` set ms
    \<and> (\<forall>(k, v) \<in> set (workload_groups kenv ms). v = filter (\<lambda>m. wkl_key kenv m = k) ms
         \<and> distinct (map (log_key kenv) (clean_dups kenv [] v)) \<and> set (clean_dups kenv [] v) \<subseteq> set v
         \<and> log_key kenv ` set (clean_dups kenv [] v) = log_key kenv ` set v)
    \<and> (files in_file = Some lines \<and> res_map (\<lambda>row. decode env row ''json'') lines = Inr rs \<and> List.map_filter (\<lambda>m. m) rs \<noteq> [] \<longrightarrow>
         split_workload env kenv None files in_file clean = (Inl NameErr, files))"
proof (intro conjI impI ballI)
  show "distinct (map fst (workload_groups kenv ms))" "fst ` set (workload_groups kenv ms) = wkl_key kenv ` set ms"
    using groups_spec by blast+
  fix g assume g: "g \<in> set (workload_groups kenv ms)"
  obtain k v where kv: "g = (k, v)" by (cases g)
  then have "map_of (workload_groups kenv ms) k = Some v" using g groups_spec by (metis map_of_is_SomeI)
  then have "v = filter (\<lambda>m. wkl_key kenv m = k) ms" using groups_spec [of kenv ms] by (auto split: if_splits)
  then show "case g of (k, v) \<Rightarrow> v = filter (\<lambda>m. wkl_key kenv m = k) ms
         \<and> distinct (map (log_key kenv) (clean_dups kenv [] v)) \<and> set (clean_dups kenv [] v) \<subseteq> set v
         \<and> log_key kenv ` set (clean_dups kenv [] v) = log_key kenv ` set v"
    using kv clean_dups_spec [of kenv "[]" v] by simp
next
  assume a: "files in_file = Some lines \<and> res_map (\<lambda>row. decode env row ''json'') lines = Inr rs \<and> List.map_filter (\<lambda>m. m) rs \<noteq> []"
  have "workload_groups kenv (List.map_filter (\<lambda>m. m) rs) \<noteq> []"
    using groups_spec [of kenv "List.map_filter (\<lambda>m. m) rs"] a by auto
  then show "split_workload env kenv None files in_file clean = (Inl NameErr, files)"
    using a by (cases "workload_groups kenv (List.map_filter (\<lambda>m. m) rs)") (simp_all add: split_workload_def)
qed

theorem split_workload_partition_witness:
  "split_workload sample_env plain_keys None [''log'' \<mapsto> [''x'']] ''log'' True = (Inl NameErr, [''log'' \<mapsto> [''x'']])"
  using split_workload_partition [of plain_keys "[]" "[''log'' \<mapsto> [''x'']]" "''log''" "[''x'']" sample_env "[Some logged_sample]" True]
  by (simp add: decode_sample List.map_filter_def)

end
