(* ===== verification/Callback.thy ===== *)
theory Callback
  imports LogTools TunerCorrect
begin

text \<open>
  The callbacks of \<open>autotvm/tuner/callback.py\<close>, which a tuner calls after every batch: they log the measured pairs to a file or a database, collect scores, or show progress. Each acts on a part of
  its own of the environment of the tuning loop. What the progress bar writes to the terminal is the list of the numbers it shows; the level of the logger is an argument. A callback
  gets the inputs and the results paired; where the measurement returns one result per input, the count of the progress bar is that of the inputs. An exception of a callback ends the run, and
  the model keeps nothing of the environment then.
\<close>

section \<open>Log to a file\<close>

text \<open>Appending to a file of lines: the first row continues a last line without line end.\<close>

definition append_rows :: "string list \<Rightarrow> string list \<Rightarrow> string list" where
  "append_rows old rows =
     (if old = [] \<or> rows = [] \<or> (last old \<noteq> [] \<and> last (last old) = CHR 0x0A) then old @ rows
      else butlast old @ (last old @ hd rows) # tl rows)"

definition log_row :: "rec_env \<Rightarrow> string \<Rightarrow> measured \<Rightarrow> string res" where
  "log_row env protocol m = res_bind (encode env (fst m) (snd m) protocol) (\<lambda>row. Inr (row @ [CHR 0x0A]))"

definition log_to_file :: "rec_env \<Rightarrow> string \<Rightarrow> string \<Rightarrow> ('s, files) callback" where
  "log_to_file env path protocol t fs pairs =
     res_bind (res_map (log_row env protocol) pairs) (\<lambda>rows.
       Inr (fs(path \<mapsto> append_rows (case fs path of None \<Rightarrow> [] | Some old \<Rightarrow> old) rows)))"

definition log_to_database :: "('d \<Rightarrow> measured \<Rightarrow> 'd res) \<Rightarrow> ('s, 'd) callback" where
  "log_to_database save t db pairs = res_foldl save db pairs"

section \<open>Monitor\<close>

record monitor =
  mo_scores :: "pyfloat list"
  mo_timestamps :: "rat list"

definition monitor_init :: monitor where
  "monitor_init = \<lparr>mo_scores = [], mo_timestamps = []\<rparr>"

definition trial_flops :: "measured \<Rightarrow> pyfloat res" where
  "trial_flops m = (if error_no (snd m) = 0 then measured_flops (fst m) (snd m) else Inr (Fin 0))"

definition monitor_call :: "('s, monitor) callback" where
  "monitor_call t mo pairs =
     res_foldl (\<lambda>mo m. res_bind (trial_flops m) (\<lambda>f.
       Inr (mo\<lparr>mo_scores := mo_scores mo @ [f], mo_timestamps := mo_timestamps mo @ [timestamp (snd m)]\<rparr>))) mo pairs"

definition monitor_reset :: "monitor \<Rightarrow> monitor" where
  "monitor_reset mo = mo\<lparr>mo_scores := [], mo_timestamps := []\<rparr>"

definition trial_scores :: "monitor \<Rightarrow> pyfloat list" where
  "trial_scores mo = mo_scores mo"

definition trial_timestamps :: "monitor \<Rightarrow> rat list" where
  "trial_timestamps mo = mo_timestamps mo"

section \<open>Progress bar\<close>

text \<open>A line of the bar shows the current and the best speed and how many of the trials are over.\<close>

record progress =
  pg_best_flops :: pyfloat
  pg_cur_flops :: pyfloat
  pg_ct :: int
  pg_total :: int
  pg_shown :: "(pyfloat \<times> pyfloat \<times> int \<times> int) list"

text \<open>The first line is written when the level of the logger is below that of debug messages, the later ones when debug messages are off.\<close>

definition progress_bar :: "int \<Rightarrow> int \<Rightarrow> string \<Rightarrow> progress res" where
  "progress_bar level trials si_prefix =
     res_bind (format_si_prefix 0 si_prefix) (\<lambda>_.
       Inr \<lparr>pg_best_flops = Fin 0, pg_cur_flops = Fin 0, pg_ct = 0, pg_total = trials,
            pg_shown = (if level < 10 then [(Fin 0, Fin 0, 0, trials)] else [])\<rparr>)"

definition progress_call :: "bool \<Rightarrow> ('s, progress) callback" where
  "progress_call debug_enabled t pg pairs =
     res_bind (res_foldl (\<lambda>flops m. if error_no (snd m) = 0 then measured_flops (fst m) (snd m) else Inr flops) (Fin 0) pairs) (\<lambda>flops.
       let ct = pg_ct pg + int (length pairs)
       in Inr (if debug_enabled then pg\<lparr>pg_ct := ct\<rparr>
               else pg\<lparr>pg_ct := ct, pg_cur_flops := flops, pg_best_flops := best_flops t, pg_shown := pg_shown pg @ [(flops, best_flops t, ct, pg_total pg)]\<rparr>))"

section \<open>Callbacks beside the measurement\<close>

text \<open>
  A callback that has a part of the environment to itself, next to the part that the measurement function uses.
\<close>

definition beside :: "('s, 'x) callback \<Rightarrow> ('s, 'e \<times> 'x) callback" where
  "beside f t = (\<lambda>(e, x) pairs. res_bind (f t x pairs) (\<lambda>x'. Inr (e, x')))"

definition alongside :: "'e batch_fn \<Rightarrow> ('e \<times> 'x) batch_fn" where
  "alongside mb = \<lparr>batch_call = (\<lambda>(e, x) inputs. case batch_call mb e inputs of (rs, e') \<Rightarrow> (rs, (e', x))), batch_parallel = batch_parallel mb\<rparr>"

definition with_part :: "'x \<Rightarrow> ('s, 'e) tune_state \<Rightarrow> ('s, 'e \<times> 'x) tune_state" where
  "with_part x st = \<lparr>ts_tuner = ts_tuner st, ts_i = ts_i st, ts_error_ct = ts_error_ct st, ts_errors = ts_errors st, ts_debug = ts_debug st,
     ts_env = (ts_env st, x), ts_history = ts_history st\<rparr>"

lemma with_part_sel [simp]:
  "ts_tuner (with_part x st) = ts_tuner st" "ts_i (with_part x st) = ts_i st" "ts_error_ct (with_part x st) = ts_error_ct st" "ts_errors (with_part x st) = ts_errors st"
  "ts_debug (with_part x st) = ts_debug st" "ts_env (with_part x st) = (ts_env st, x)" "ts_history (with_part x st) = ts_history st"
  by (simp_all add: with_part_def)

text \<open>One step of the loop with a callback beside the measurement does what the step without it does, and calls it once, with the new pairs.\<close>

lemma tune_step_part:
  assumes "tune_step cls mb [] py_str trials early st = Inr (st1, go_on)"
  shows "\<exists>pairs. ts_history st1 = ts_history st @ pairs
    \<and> tune_step cls (alongside mb) [beside f] py_str trials early (with_part x st) = res_bind (f (ts_tuner st1) x pairs) (\<lambda>x'. Inr (with_part x' st1, go_on))"
proof -
  let ?t = "ts_tuner st"
  obtain cfgs sub1 where nb: "next_batch cls (t_sub ?t) (min (batch_parallel mb) (trials - ts_i st)) = Inr (cfgs, sub1)"
    using assms by (auto simp: tune_step_def Let_def res_bind_eq_Inr)
  define inputs where "inputs = map (\<lambda>c. \<lparr>mi_target = task_target (t_task ?t), mi_task = t_task ?t, mi_config = c\<rparr>) cfgs"
  obtain results env1 where mb: "batch_call mb (ts_env st) inputs = (results, env1)" by fastforce
  define pairs where "pairs = zip inputs results"
  obtain t1 ct errs where kb: "keep_best py_str (ts_i st) pairs (?t\<lparr>t_sub := sub1\<rparr>, ts_error_ct st, ts_errors st) = Inr (t1, ct, errs)"
    using assms nb mb by (auto simp: tune_step_def Let_def res_bind_eq_Inr inputs_def pairs_def split: prod.splits)
  define t2 where "t2 = t1\<lparr>ttl := Some (min (early + best_iter t1) trials - (ts_i st + int (length results)))\<rparr>"
  obtain sub2 where up: "update cls (t_sub t2) pairs = Inr sub2"
    using assms nb mb kb by (auto simp: tune_step_def Let_def res_bind_eq_Inr inputs_def pairs_def t2_def split: prod.splits)
  have st1: "st1 = \<lparr>ts_tuner = t2\<lparr>t_sub := sub2\<rparr>, ts_i = ts_i st + int (length results), ts_error_ct = ct, ts_errors = errs,
      ts_debug = (if ts_i st + int (length results) \<ge> best_iter t2 + early then ts_debug st else ct > error_ct_threshold t2), ts_env = env1, ts_history = ts_history st @ pairs\<rparr>"
    "go_on \<longleftrightarrow> \<not> ts_i st + int (length results) \<ge> best_iter t2 + early"
    using assms nb mb kb up by (auto simp: tune_step_def Let_def inputs_def pairs_def t2_def)
  have "tune_step cls (alongside mb) [beside f] py_str trials early (with_part x st) = res_bind (f (ts_tuner st1) x pairs) (\<lambda>x'. Inr (with_part x' st1, go_on))"
    using nb mb kb up
    by (cases "f (ts_tuner st1) x pairs") (auto simp: tune_step_def Let_def alongside_def beside_def inputs_def pairs_def t2_def st1 with_part_def)
  then show ?thesis using st1(1) by auto
qed

lemma tune_loop_grows:
  "tune_loop fuel cls mb [] py_str trials early st = Some (Inr st') \<Longrightarrow> \<exists>ms. ts_history st' = ts_history st @ ms"
proof (induction fuel arbitrary: st)
  case 0
  then show ?case by (auto simp: tune_loop.simps [of 0] split: if_splits)
next
  case (Suc fuel)
  show ?case
  proof (cases "\<not> ts_i st < trials \<or> \<not> has_next cls (t_sub (ts_tuner st))")
    case True
    then show ?thesis using Suc.prems by (auto simp: tune_loop.simps [of "Suc fuel"])
  next
    case False
    then obtain st1 go_on where step: "tune_step cls mb [] py_str trials early st = Inr (st1, go_on)"
      using Suc.prems by (auto simp: tune_loop.simps [of "Suc fuel"] split: sum.splits)
    obtain pairs where h: "ts_history st1 = ts_history st @ pairs" using tune_step_part [OF step, of "\<lambda>t x p. Inr x" "()"] by blast
    have "tune_loop fuel cls mb [] py_str trials early st1 = Some (Inr st') \<or> st' = st1"
      using Suc.prems False step by (auto simp: tune_loop.simps [of "Suc fuel"] split: if_splits)
    then show ?thesis using Suc.IH [of st1] h by auto
  qed
qed

text \<open>A whole run: what holds of the part before, and is kept by every call with pairs of the run, holds of the part in the end.\<close>

lemma tune_loop_part:
  assumes "tune_loop fuel cls mb [] py_str trials early st = Some (Inr st')" and "R (ts_history st) x"
    and "\<And>t hist pairs x. R hist x \<Longrightarrow> set pairs \<subseteq> set (ts_history st') \<Longrightarrow> \<exists>x'. f t x pairs = Inr x' \<and> R (hist @ pairs) x'"
  shows "\<exists>x'. tune_loop fuel cls (alongside mb) [beside f] py_str trials early (with_part x st) = Some (Inr (with_part x' st')) \<and> R (ts_history st') x'"
  using assms(1,2)
proof (induction fuel arbitrary: st x)
  case 0
  then show ?case by (auto simp: tune_loop.simps [of 0] split: if_splits)
next
  case (Suc fuel)
  show ?case
  proof (cases "\<not> ts_i st < trials \<or> \<not> has_next cls (t_sub (ts_tuner st))")
    case True
    then show ?thesis using Suc.prems by (auto simp: tune_loop.simps [of "Suc fuel"])
  next
    case False
    then obtain st1 go_on where step: "tune_step cls mb [] py_str trials early st = Inr (st1, go_on)"
      using Suc.prems by (auto simp: tune_loop.simps [of "Suc fuel"] split: sum.splits)
    have rest: "if go_on then tune_loop fuel cls mb [] py_str trials early st1 = Some (Inr st') else st' = st1"
      using Suc.prems False step by (auto simp: tune_loop.simps [of "Suc fuel"] split: if_splits)
    obtain pairs where h: "ts_history st1 = ts_history st @ pairs"
      and run: "tune_step cls (alongside mb) [beside f] py_str trials early (with_part x st) = res_bind (f (ts_tuner st1) x pairs) (\<lambda>x'. Inr (with_part x' st1, go_on))"
      using tune_step_part [OF step, of f x] by blast
    have "set pairs \<subseteq> set (ts_history st')" using rest tune_loop_grows [of fuel cls mb py_str trials early st1 st'] h by (auto split: if_splits)
    then obtain x1 where x1: "f (ts_tuner st1) x pairs = Inr x1" "R (ts_history st1) x1" using assms(3) [OF Suc.prems(2)] h by metis
    have go: "\<not> (\<not> ts_i (with_part x st) < trials \<or> \<not> has_next cls (t_sub (ts_tuner (with_part x st))))" using False by simp
    show ?thesis
    proof (cases go_on)
      case True
      then show ?thesis using Suc.IH [of st1 x1] rest x1 run go by (simp add: tune_loop.simps [of "Suc fuel"])
    next
      case False
      then show ?thesis using rest x1 run go by (intro exI [of _ x1]) (simp add: tune_loop.simps [of "Suc fuel"])
    qed
  qed
qed

lemma tune_part:
  assumes "tune fuel cls mb [] py_str tn env trials early si = Some (Inr (st, warned))" and "R [] x"
    and "\<And>t hist pairs x. R hist x \<Longrightarrow> set pairs \<subseteq> set (ts_history st) \<Longrightarrow> \<exists>x'. f t x pairs = Inr x' \<and> R (hist @ pairs) x'"
  shows "\<exists>x'. tune fuel cls (alongside mb) [beside f] py_str tn (env, x) trials early si = Some (Inr (with_part x' st, warned)) \<and> R (ts_history st) x'"
proof -
  let ?st = "\<lparr>ts_tuner = tn\<lparr>n_trial := Some trials, early_stopping := Some (early_limit early)\<rparr>, ts_i = 0, ts_error_ct = 0, ts_errors = [], ts_debug = False,
    ts_env = env, ts_history = []\<rparr>"
  obtain y where y: "format_si_prefix 0 si = Inr y" using assms(1) by (auto simp: tune_def Let_def split: sum.splits)
  have loop: "tune_loop fuel cls mb [] py_str trials (early_limit early) ?st = Some (Inr st)" and w: "warned \<longleftrightarrow> ts_error_ct st = ts_i st"
    using assms(1) y by (auto simp: tune_def Let_def res_bind_eq_Inr)
  from tune_loop_part [OF loop, of R x f] assms(2,3) obtain x' where
    "tune_loop fuel cls (alongside mb) [beside f] py_str trials (early_limit early) (with_part x ?st) = Some (Inr (with_part x' st))" "R (ts_history st) x'" by auto
  moreover have "with_part x ?st = \<lparr>ts_tuner = tn\<lparr>n_trial := Some trials, early_stopping := Some (early_limit early)\<rparr>, ts_i = 0, ts_error_ct = 0, ts_errors = [], ts_debug = False,
    ts_env = (env, x), ts_history = []\<rparr>" by (simp add: with_part_def)
  ultimately show ?thesis using y w by (auto simp: tune_def Let_def)
qed

text \<open>A monitor beside a run that returns holds one score per measurement, in the order of the measurements.\<close>

lemma monitor_appends:
  assumes "\<forall>m \<in> set pairs. \<exists>f. trial_flops m = Inr f"
  shows "\<exists>fs. res_map trial_flops pairs = Inr fs
    \<and> monitor_call t mo pairs = Inr (mo\<lparr>mo_scores := mo_scores mo @ fs, mo_timestamps := mo_timestamps mo @ map (\<lambda>m. timestamp (snd m)) pairs\<rparr>)"
  using assms
proof (induction pairs arbitrary: mo)
  case (Cons m pairs)
  then obtain f where f: "trial_flops m = Inr f" by auto
  show ?case using Cons.IH [of "mo\<lparr>mo_scores := mo_scores mo @ [f], mo_timestamps := mo_timestamps mo @ [timestamp (snd m)]\<rparr>"] Cons.prems f
    by (auto simp: monitor_call_def)
qed (simp add: monitor_call_def)

lemma monitored_run:
  fixes cls :: "'s tuner_class"
  assumes run: "tune fuel cls mb [] py_str tn e trials early si = Some (Inr (st, warned))" and flops: "\<forall>m \<in> set (ts_history st). \<exists>f. trial_flops m = Inr f"
  shows "\<exists>mo. tune fuel cls (alongside mb) [beside monitor_call] py_str tn (e, monitor_init) trials early si = Some (Inr (with_part mo st, warned))
    \<and> res_map trial_flops (ts_history st) = Inr (trial_scores mo) \<and> trial_timestamps mo = map (\<lambda>m. timestamp (snd m)) (ts_history st)"
proof -
  define seen :: "measured list \<Rightarrow> monitor \<Rightarrow> bool" where "seen hist mo \<longleftrightarrow> res_map trial_flops hist = Inr (mo_scores mo) \<and> mo_timestamps mo = map (\<lambda>m. timestamp (snd m)) hist" for hist mo
  have both: "res_map trial_flops (xs @ ys) = Inr (us @ vs)" if "res_map trial_flops xs = Inr us" "res_map trial_flops ys = Inr vs" for xs ys us vs
    using that by (induction xs arbitrary: us) (auto simp: res_bind_eq_Inr)
  have keep: "\<exists>mo'. monitor_call t mo ps = Inr mo' \<and> seen (hist @ ps) mo'" if "seen hist mo" "set ps \<subseteq> set (ts_history st)" for t :: "'s tuner" and hist ps mo
  proof -
    have "\<forall>m \<in> set ps. \<exists>f. trial_flops m = Inr f" using that(2) flops by blast
    from monitor_appends [OF this, of t mo] show ?thesis using that(1) both by (auto simp: seen_def)
  qed
  obtain mo where "tune fuel cls (alongside mb) [beside monitor_call] py_str tn (e, monitor_init) trials early si = Some (Inr (with_part mo st, warned))" "seen (ts_history st) mo"
    using tune_part [where R = seen and f = monitor_call and x = monitor_init, OF run] keep by (auto simp: seen_def monitor_init_def)
  then show ?thesis by (auto simp: seen_def trial_scores_def trial_timestamps_def)
qed

end
