(* ===== verification/Database.thy ===== *)
theory Database
  imports Callback
begin

text \<open>
  The record database of \<open>autotvm/database.py\<close>: a dictionary from the text key of a measurement input to the encoded records of it, joined by a dollar sign. The dictionary of \<open>DummyDatabase\<close> keeps
  the order of insertion; the Redis server, which holds the same dictionary for \<open>RedisDatabase\<close>, is not modelled. The second half is the contract of a database as a locale, a replay of measurements
  against it, and the refinement of a dictionary from keys to lists of measured pairs.
\<close>

section \<open>The dictionary\<close>

type_synonym database = "(string \<times> string) list"

abbreviation MAGIC_SPLIT :: char where
  "MAGIC_SPLIT \<equiv> CHR ''$''"

definition db_flush :: "database \<Rightarrow> database" where
  "db_flush db = []"

definition db_set :: "string \<Rightarrow> string \<Rightarrow> database \<Rightarrow> database" where
  "db_set key value db = AList.update key value db"

definition db_get :: "database \<Rightarrow> string \<Rightarrow> string option" where
  "db_get db key = map_of db key"

section \<open>Load, save, filter\<close>

text \<open>\<open>max(results, key=lambda result: result.timestamp)\<close>: the first with the greatest time stamp.\<close>

fun latest_from :: "measure_result \<Rightarrow> measure_result list \<Rightarrow> measure_result" where
  "latest_from r [] = r"
| "latest_from r (x # xs) = latest_from (if timestamp r < timestamp x then x else r) xs"

definition latest :: "measure_result list \<Rightarrow> measure_result res" where
  "latest rs = (case rs of [] \<Rightarrow> Inl ValueError | r # rs \<Rightarrow> Inr (latest_from r rs))"

definition db_records :: "rec_env \<Rightarrow> string \<Rightarrow> measured list res" where
  "db_records env current =
     res_bind (res_map (\<lambda>x. decode env x ''json'') (str_split MAGIC_SPLIT current)) (\<lambda>records. Inr (map the (filter (\<lambda>r. r \<noteq> None) records)))"

datatype loaded = NoResult | AllResults "measure_result list" | OneResult measure_result

definition db_load :: "rec_env \<Rightarrow> key_env \<Rightarrow> database \<Rightarrow> measure_input \<Rightarrow> bool \<Rightarrow> loaded res" where
  "db_load env kenv db inp get_all =
     (case db_get db (measure_str_key kenv inp True) of
        None \<Rightarrow> Inr NoResult
      | Some current \<Rightarrow>
          res_bind (db_records env current) (\<lambda>records.
            if get_all then Inr (AllResults (map snd records)) else res_bind (latest (map snd records)) (\<lambda>r. Inr (OneResult r))))"

definition db_save :: "rec_env \<Rightarrow> key_env \<Rightarrow> measure_input \<Rightarrow> measure_result \<Rightarrow> bool \<Rightarrow> database \<Rightarrow> database res" where
  "db_save env kenv inp r ext db =
     (let key = measure_str_key kenv inp True
      in case (if ext then db_get db key else None) of
           None \<Rightarrow> res_bind (encode env inp r ''json'') (\<lambda>row. Inr (db_set key (str_join [MAGIC_SPLIT] [row]) db))
         | Some current \<Rightarrow>
             res_bind (encode env inp r ''json'') (\<lambda>row. Inr (db_set key (str_join [MAGIC_SPLIT] (str_split MAGIC_SPLIT current @ [row])) db)))"

fun db_filter_keys :: "rec_env \<Rightarrow> database \<Rightarrow> (measure_input \<Rightarrow> measure_result list \<Rightarrow> bool) \<Rightarrow> string list \<Rightarrow> measured list res" where
  "db_filter_keys env db func [] = Inr []"
| "db_filter_keys env db func (key # keys) =
     (case (case db_get db key of None \<Rightarrow> Inr [] | Some current \<Rightarrow> db_records env current) of
        Inl TypeErr \<Rightarrow> db_filter_keys env db func keys
      | Inl err \<Rightarrow> Inl err
      | Inr [] \<Rightarrow> db_filter_keys env db func keys
      | Inr (m # ms) \<Rightarrow>
          (if \<not> func (fst m) (map snd (m # ms)) then db_filter_keys env db func keys
           else res_bind (latest (map snd (m # ms))) (\<lambda>r. res_bind (db_filter_keys env db func keys) (\<lambda>rest. Inr ((fst m, r) # rest)))))"

definition db_filter :: "rec_env \<Rightarrow> database \<Rightarrow> (measure_input \<Rightarrow> measure_result list \<Rightarrow> bool) \<Rightarrow> measured list res" where
  "db_filter env db func = db_filter_keys env db func (map fst db)"

text \<open>\<open>filter_inputs\<close> uses a database only through \<open>load\<close>.\<close>

fun filter_inputs :: "('d \<Rightarrow> measure_input \<Rightarrow> measure_result option res) \<Rightarrow> 'd \<Rightarrow> bool \<Rightarrow> measure_input list \<Rightarrow> (measure_result option list \<times> measure_input list) res" where
  "filter_inputs load db retry [] = Inr ([], [])"
| "filter_inputs load db retry (inp # inps) =
     res_bind (load db inp) (\<lambda>found. res_bind (filter_inputs load db retry inps) (\<lambda>(partial, unsaved).
       case found of
         None \<Rightarrow> Inr (None # partial, inp # unsaved)
       | Some r \<Rightarrow> if retry \<and> error_no r \<noteq> 0 then Inr (None # partial, inp # unsaved) else Inr (Some r # partial, unsaved)))"

text \<open>The calls \<open>load(inp)\<close> and \<open>save(inp, res)\<close> with the default arguments.\<close>

definition load_latest :: "rec_env \<Rightarrow> key_env \<Rightarrow> database \<Rightarrow> measure_input \<Rightarrow> measure_result option res" where
  "load_latest env kenv db inp = res_bind (db_load env kenv db inp False) (\<lambda>l. Inr (case l of OneResult r \<Rightarrow> Some r | _ \<Rightarrow> None))"

definition save_one :: "rec_env \<Rightarrow> key_env \<Rightarrow> database \<Rightarrow> measured \<Rightarrow> database res" where
  "save_one env kenv db m = db_save env kenv (fst m) (snd m) False db"

section \<open>The contract of a database\<close>

text \<open>
  What a client of a database relies on: a measured pair that can be saved is saved, the next \<open>load\<close> of its key returns what was stored for it, and \<open>load\<close> of another key is as before.
\<close>

locale record_db =
  fixes key :: "measure_input \<Rightarrow> string" and load :: "'d \<Rightarrow> measure_input \<Rightarrow> measure_result option res" and save :: "'d \<Rightarrow> measured \<Rightarrow> 'd res"
    and good :: "measured \<Rightarrow> bool" and kept :: "measure_result \<Rightarrow> measure_result"
  assumes save_load: "good m \<Longrightarrow> \<exists>db'. save db m = Inr db' \<and> (\<forall>inp. load db' inp = (if key inp = key (fst m) then Inr (Some (kept (snd m))) else load db inp))"
begin

lemma saved_all:
  assumes "\<forall>m \<in> set ms. good m"
  shows "\<exists>db'. log_to_database save t db ms = Inr db'
    \<and> (\<forall>inp. load db' inp = (case filter (\<lambda>m. key (fst m) = key inp) ms of [] \<Rightarrow> load db inp | ps \<Rightarrow> Inr (Some (kept (snd (last ps))))))"
  using assms
proof (induction ms arbitrary: db)
  case (Cons m ms)
  then obtain db1 where db1: "save db m = Inr db1" "\<And>inp. load db1 inp = (if key inp = key (fst m) then Inr (Some (kept (snd m))) else load db inp)"
    using save_load [of m db] by auto
  obtain db' where db': "log_to_database save t db1 ms = Inr db'"
    "\<And>inp. load db' inp = (case filter (\<lambda>m. key (fst m) = key inp) ms of [] \<Rightarrow> load db1 inp | ps \<Rightarrow> Inr (Some (kept (snd (last ps)))))"
    using Cons.IH [of db1] Cons.prems by auto
  show ?case using db1 db' by (intro exI [of _ db']) (auto simp: log_to_database_def split: list.splits)
qed (simp add: log_to_database_def)

lemma replay:
  assumes "\<forall>m \<in> set ms. good m" and "log_to_database save t db ms = Inr db'"
  shows "filter_inputs load db' False (map fst ms) = Inr (map (\<lambda>m. Some (kept (snd (last (filter (\<lambda>p. key (fst p) = key (fst m)) ms))))) ms, [])"
proof -
  have loads: "\<And>inp. load db' inp = (case filter (\<lambda>m. key (fst m) = key inp) ms of [] \<Rightarrow> load db inp | ps \<Rightarrow> Inr (Some (kept (snd (last ps)))))"
    using saved_all [OF assms(1), of t db] assms(2) by auto
  have "load db' (fst m) = Inr (Some (kept (snd (last (filter (\<lambda>p. key (fst p) = key (fst m)) ms)))))" if "m \<in> set ms" for m
  proof -
    have "filter (\<lambda>p. key (fst p) = key (fst m)) ms \<noteq> []" using that by (auto simp: filter_empty_conv)
    then show ?thesis by (auto simp: loads split: list.split)
  qed
  then have "filter_inputs load db' False (map fst xs) = Inr (map (\<lambda>m. Some (kept (snd (last (filter (\<lambda>p. key (fst p) = key (fst m)) ms))))) xs, [])" if "set xs \<subseteq> set ms" for xs
    using that by (induction xs) auto
  then show ?thesis by blast
qed

end

section \<open>Refinement of a dictionary of measured pairs\<close>

text \<open>A row of the database: text without the separator that is read as a measured pair.\<close>

definition row_of :: "rec_env \<Rightarrow> string \<Rightarrow> measured \<Rightarrow> bool" where
  "row_of env row m \<longleftrightarrow> MAGIC_SPLIT \<notin> set row \<and> decode env row ''json'' = Inr (Some m)"

definition text_of :: "rec_env \<Rightarrow> string \<Rightarrow> measured list \<Rightarrow> bool" where
  "text_of env line ms \<longleftrightarrow> (\<exists>rows. rows \<noteq> [] \<and> line = str_join [MAGIC_SPLIT] rows \<and> list_all2 (row_of env) rows ms)"

definition db_rel :: "rec_env \<Rightarrow> database \<Rightarrow> (string \<times> measured list) list \<Rightarrow> bool" where
  "db_rel env = list_all2 (\<lambda>(k, line) (k', ms). k = k' \<and> text_of env line ms)"

lemma text_records: "text_of env line ms \<Longrightarrow> db_records env line = Inr ms \<and> ms \<noteq> []"
proof -
  assume "text_of env line ms"
  then obtain rows where rows: "rows \<noteq> []" "line = str_join [MAGIC_SPLIT] rows" "list_all2 (row_of env) rows ms" by (auto simp: text_of_def)
  have "list_all (\<lambda>s. MAGIC_SPLIT \<notin> set s) rows" using rows(3) by (auto simp: list_all_length list_all2_conv_all_nth row_of_def)
  then have "str_split MAGIC_SPLIT line = rows" using rows(1,2) str_split_join by simp
  moreover have "res_map (\<lambda>x. decode env x ''json'') rows = Inr (map Some ms)" using rows(3) by (induction rows arbitrary: ms) (auto simp: list_all2_Cons1 row_of_def)
  ultimately show ?thesis using rows(1,3) by (auto simp: db_records_def filter_map comp_def)
qed

lemma text_single: "row_of env row m \<Longrightarrow> text_of env (str_join [MAGIC_SPLIT] [row]) [m]"
  unfolding text_of_def by (intro exI [of _ "[row]"]) simp

lemma text_extend:
  assumes "text_of env line ms" and "row_of env row m"
  shows "text_of env (str_join [MAGIC_SPLIT] (str_split MAGIC_SPLIT line @ [row])) (ms @ [m])"
proof -
  obtain rows where rows: "rows \<noteq> []" "line = str_join [MAGIC_SPLIT] rows" "list_all2 (row_of env) rows ms" using assms(1) by (auto simp: text_of_def)
  have "list_all (\<lambda>s. MAGIC_SPLIT \<notin> set s) rows" using rows(3) by (auto simp: list_all_length list_all2_conv_all_nth row_of_def)
  then have "str_split MAGIC_SPLIT line = rows" using rows(1,2) str_split_join by simp
  moreover have "list_all2 (row_of env) (rows @ [row]) (ms @ [m])" using rows(3) assms(2) by (simp add: list_all2_appendI)
  ultimately show ?thesis unfolding text_of_def by (intro exI [of _ "rows @ [row]"]) simp
qed

lemma db_rel_set: "db_rel env db ad \<Longrightarrow> text_of env line ms \<Longrightarrow> db_rel env (db_set k line db) (AList.update k ms ad)"
  unfolding db_rel_def db_set_def by (induction db ad rule: list_all2_induct) (auto split: prod.splits)

lemma db_rel_get: "db_rel env db ad \<Longrightarrow> rel_option (text_of env) (db_get db k) (map_of ad k)"
  unfolding db_rel_def db_get_def by (induction db ad rule: list_all2_induct) (auto split: prod.splits)

text \<open>The dictionary of measured pairs, and what \<open>save\<close> does to it. \<open>reads\<close> is the pair as it is read back.\<close>

definition pairs_save :: "key_env \<Rightarrow> (measured \<Rightarrow> measured) \<Rightarrow> (string \<times> measured list) list \<Rightarrow> measured \<times> bool \<Rightarrow> (string \<times> measured list) list" where
  "pairs_save kenv reads ad = (\<lambda>(m, ext). let key = measure_str_key kenv (fst m) True
     in AList.update key ((if ext then case map_of ad key of None \<Rightarrow> [] | Some ms \<Rightarrow> ms else []) @ [reads m]) ad)"

definition storable :: "rec_env \<Rightarrow> (measured \<Rightarrow> measured) \<Rightarrow> measured \<Rightarrow> bool" where
  "storable env reads m \<longleftrightarrow> (\<exists>row. encode env (fst m) (snd m) ''json'' = Inr row \<and> row_of env row (reads m))"

lemma save_refines:
  assumes "db_rel env db ad" and "storable env reads m"
  shows "\<exists>db'. db_save env kenv (fst m) (snd m) ext db = Inr db' \<and> db_rel env db' (pairs_save kenv reads ad (m, ext))"
proof -
  obtain row where row: "encode env (fst m) (snd m) ''json'' = Inr row" "row_of env row (reads m)" using assms(2) by (auto simp: storable_def)
  let ?key = "measure_str_key kenv (fst m) True"
  have get: "rel_option (text_of env) (db_get db ?key) (map_of ad ?key)" by (rule db_rel_get [OF assms(1)])
  show ?thesis
  proof (cases "if ext then db_get db ?key else None")
    case None
    then have "ext \<Longrightarrow> map_of ad ?key = None" using get by (auto split: if_splits)
    then show ?thesis using None row db_rel_set [OF assms(1) text_single [OF row(2)], of ?key] by (simp add: db_save_def pairs_save_def Let_def)
  next
    case (Some line)
    then have ext: "ext" "db_get db ?key = Some line" by (auto split: if_splits)
    then obtain ms where ms: "map_of ad ?key = Some ms" "text_of env line ms" using get by (cases "map_of ad ?key") auto
    show ?thesis using ext ms row db_rel_set [OF assms(1) text_extend [OF ms(2) row(2)], of ?key] by (simp add: db_save_def pairs_save_def Let_def)
  qed
qed

lemma load_refines:
  assumes "db_rel env db ad"
  shows "db_load env kenv db inp get_all = (case map_of ad (measure_str_key kenv inp True) of None \<Rightarrow> Inr NoResult
    | Some ms \<Rightarrow> if get_all then Inr (AllResults (map snd ms)) else Inr (OneResult (latest_from (snd (hd ms)) (tl (map snd ms)))))"
proof -
  have "rel_option (text_of env) (db_get db (measure_str_key kenv inp True)) (map_of ad (measure_str_key kenv inp True))" by (rule db_rel_get [OF assms])
  then show ?thesis
    by (cases "map_of ad (measure_str_key kenv inp True)") (auto simp: db_load_def option_rel_Some2 latest_def dest!: text_records split: list.splits)
qed

text \<open>The filter of the dictionary: the first input and the latest result of the keys that match.\<close>

definition pairs_filter :: "(measure_input \<Rightarrow> measure_result list \<Rightarrow> bool) \<Rightarrow> (string \<times> measured list) list \<Rightarrow> measured list" where
  "pairs_filter func ad = map (\<lambda>(k, ms). (fst (hd ms), latest_from (snd (hd ms)) (tl (map snd ms)))) (filter (\<lambda>(k, ms). func (fst (hd ms)) (map snd ms)) ad)"

lemma filter_keys_refines:
  assumes "db_rel env db ad" and "list_all2 (\<lambda>(k, line) (k', ms). k = k' \<and> map_of db k = Some line \<and> text_of env line ms) xs ys"
  shows "db_filter_keys env db func (map fst xs) = Inr (pairs_filter func ys)"
  using assms(2)
proof (induction xs ys rule: list_all2_induct)
  case (Cons x xs y ys)
  obtain k line ms where x: "x = (k, line)" "y = (k, ms)" "map_of db k = Some line" "text_of env line ms" using Cons(1) by (auto split: prod.splits)
  then show ?case using text_records [OF x(4)] Cons.IH by (cases ms) (auto simp: db_get_def latest_def pairs_filter_def)
qed (simp add: pairs_filter_def)

lemma filter_refines:
  assumes "db_rel env db ad" and "distinct (map fst ad)"
  shows "db_filter env db func = Inr (pairs_filter func ad)"
proof -
  have keys: "map fst db = map fst ad" using assms(1) unfolding db_rel_def by (induction db ad rule: list_all2_induct) auto
  then have "map_of db k = Some line" if "(k, line) \<in> set db" for k line using that assms(2) by simp
  then have "list_all2 (\<lambda>(k, line) (k', ms). k = k' \<and> map_of db k = Some line \<and> text_of env line ms) db ad"
    using assms(1) unfolding db_rel_def by (auto elim!: list_all2_mono simp: list_all2_conv_all_nth)
  then show ?thesis unfolding db_filter_def by (rule filter_keys_refines [OF assms(1)])
qed

text \<open>The database implements the contract, with the keys of the inputs and the results as they are read back.\<close>

lemma pairs_distinct: "distinct (map fst ad) \<Longrightarrow> distinct (map fst (pairs_save kenv reads ad op))"
  by (cases op) (simp add: pairs_save_def Let_def distinct_update)

text \<open>A database that was filled by \<open>save\<close>.\<close>

definition db_run :: "rec_env \<Rightarrow> key_env \<Rightarrow> (measured \<times> bool) list \<Rightarrow> database \<Rightarrow> database res" where
  "db_run env kenv ops db = res_foldl (\<lambda>db (m, ext). db_save env kenv (fst m) (snd m) ext db) db ops"

lemma run_refines:
  assumes "\<forall>(m, ext) \<in> set ops. storable env reads m" and "db_rel env db ad" and "distinct (map fst ad)"
  shows "\<exists>db'. db_run env kenv ops db = Inr db' \<and> db_rel env db' (foldl (pairs_save kenv reads) ad ops) \<and> distinct (map fst (foldl (pairs_save kenv reads) ad ops))"
  using assms
proof (induction ops arbitrary: db ad)
  case (Cons op ops)
  obtain m ext where op: "op = (m, ext)" by fastforce
  obtain db1 where db1: "db_save env kenv (fst m) (snd m) ext db = Inr db1" "db_rel env db1 (pairs_save kenv reads ad op)"
    using save_refines [OF Cons.prems(2), of reads m kenv ext] Cons.prems(1) op by auto
  show ?case using Cons.IH [OF _ db1(2) pairs_distinct [OF Cons.prems(3)]] Cons.prems(1) db1(1) by (auto simp: db_run_def op)
qed (simp add: db_run_def)

interpretation dict_db: record_db "\<lambda>inp. measure_str_key kenv inp True" "load_latest env kenv" "save_one env kenv"
  "storable env (\<lambda>m. (inp' m, kept (snd m)))" kept for env kenv inp' kept
proof
  fix m db assume "storable env (\<lambda>m. (inp' m, kept (snd m))) m"
  then obtain row where row: "encode env (fst m) (snd m) ''json'' = Inr row" "row_of env row (inp' m, kept (snd m))" by (auto simp: storable_def)
  let ?key = "\<lambda>inp. measure_str_key kenv inp True"
  let ?db = "db_set (?key (fst m)) (str_join [MAGIC_SPLIT] [row]) db"
  have "db_records env row = Inr [(inp' m, kept (snd m))]" using text_records [OF text_single [OF row(2)]] by simp
  then have "load_latest env kenv ?db inp = (if ?key inp = ?key (fst m) then Inr (Some (kept (snd m))) else load_latest env kenv db inp)" for inp
    by (simp add: load_latest_def db_load_def db_get_def db_set_def update_conv' latest_def)
  then show "\<exists>db'. save_one env kenv db m = Inr db' \<and> (\<forall>inp. load_latest env kenv db' inp = (if ?key inp = ?key (fst m) then Inr (Some (kept (snd m))) else load_latest env kenv db inp))"
    using row(1) by (intro exI [of _ ?db]) (simp add: save_one_def db_save_def)
qed

lemma latest_from_spec:
  "\<exists>ys zs. r # rs = ys @ latest_from r rs # zs \<and> (\<forall>y \<in> set ys. timestamp y < timestamp (latest_from r rs)) \<and> (\<forall>z \<in> set zs. timestamp z \<le> timestamp (latest_from r rs))"
proof (induction rs arbitrary: r)
  case (Cons x xs)
  define b where "b = (if timestamp r < timestamp x then x else r)"
  define l where "l = latest_from b xs"
  have l: "latest_from r (x # xs) = l" by (simp add: l_def b_def)
  obtain ys zs where s: "b # xs = ys @ l # zs" "\<forall>y \<in> set ys. timestamp y < timestamp l" "\<forall>z \<in> set zs. timestamp z \<le> timestamp l" using Cons.IH [of b] by (auto simp: l_def)
  have bl: "timestamp b \<le> timestamp l" using s by (cases ys) auto
  have "\<exists>ys zs. r # x # xs = ys @ l # zs \<and> (\<forall>y \<in> set ys. timestamp y < timestamp l) \<and> (\<forall>z \<in> set zs. timestamp z \<le> timestamp l)"
  proof (cases "timestamp r < timestamp x")
    case True
    then show ?thesis using s bl by (intro exI [of _ "r # ys"] exI [of _ zs]) (auto simp: b_def)
  next
    case False
    show ?thesis
    proof (cases ys)
      case Nil
      then show ?thesis using False s by (intro exI [of _ "[]"] exI [of _ "x # zs"]) (auto simp: b_def)
    next
      case (Cons y ys')
      then show ?thesis using False s by (intro exI [of _ "r # x # ys'"] exI [of _ zs]) (auto simp: b_def)
    qed
  qed
  then show ?case by (simp only: l)
qed (auto intro: exI [of _ "[]"])

text \<open>
  C27. The database. After any sequence of saves, each either extending or replacing what is stored for its key, \<open>load\<close> with \<open>get_all\<close> returns the results saved for the key of the input since the
  last replacement, in order, and without it the latest of them, the first one among equal time stamps; \<open>filter\<close> returns the first input and the latest result of the keys it selects, in
  the order in which the keys were first saved. Assumed is that the text of a record has no dollar sign and is read back as a record.
\<close>

theorem database_refines:
  assumes "\<forall>(m, ext) \<in> set ops. storable env reads m"
  shows "\<exists>db. db_run env kenv ops (db_flush db0) = Inr db
    \<and> (\<forall>inp. case map_of (foldl (pairs_save kenv reads) [] ops) (measure_str_key kenv inp True) of
         None \<Rightarrow> db_load env kenv db inp True = Inr NoResult \<and> db_load env kenv db inp False = Inr NoResult
       | Some ms \<Rightarrow> db_load env kenv db inp True = Inr (AllResults (map snd ms))
           \<and> (\<exists>ys r zs. map snd ms = ys @ r # zs \<and> db_load env kenv db inp False = Inr (OneResult r)
               \<and> (\<forall>y \<in> set ys. timestamp y < timestamp r) \<and> (\<forall>z \<in> set zs. timestamp z \<le> timestamp r)))
    \<and> (\<forall>func. db_filter env db func = Inr (pairs_filter func (foldl (pairs_save kenv reads) [] ops)))"
proof -
  let ?ad = "foldl (pairs_save kenv reads) [] ops"
  obtain db where db: "db_run env kenv ops [] = Inr db" "db_rel env db ?ad" "distinct (map fst ?ad)"
    using run_refines [OF assms, of "[]" "[]"] by (auto simp: db_rel_def)
  have "\<exists>ys r zs. map snd ms = ys @ r # zs \<and> db_load env kenv db inp False = Inr (OneResult r)
      \<and> (\<forall>y \<in> set ys. timestamp y < timestamp r) \<and> (\<forall>z \<in> set zs. timestamp z \<le> timestamp r)" if ms: "map_of ?ad (measure_str_key kenv inp True) = Some ms" for inp ms
  proof -
    obtain line where "text_of env line ms" using db_rel_get [OF db(2), of "measure_str_key kenv inp True"] ms by (auto simp: option_rel_Some2)
    then have ne: "ms \<noteq> []" using text_records by blast
    then have "map snd ms = snd (hd ms) # tl (map snd ms)" by (cases ms) auto
    then show ?thesis using latest_from_spec [of "snd (hd ms)" "tl (map snd ms)"] load_refines [OF db(2), of kenv inp False] ms by auto
  qed
  then show ?thesis using db(1) load_refines [OF db(2), of kenv] filter_refines [OF db(2,3)] by (intro exI [of _ db]) (simp add: db_flush_def split: option.split)
qed

lemma sample_storable: "storable sample_env (\<lambda>m. logged_sample) logged_sample"
proof -
  have "encode sample_env (fst logged_sample) (snd logged_sample) ''json'' = Inr ''{}''"
    using logged_sample_line by (cases "encode sample_env (fst logged_sample) (snd logged_sample) ''json''") (auto simp: log_line_def)
  then show ?thesis using decode_sample [of "''{}''"] by (auto simp: storable_def row_of_def)
qed

theorem database_refines_witness:
  "\<exists>db. db_run sample_env plain_keys [(logged_sample, False), (logged_sample, True)] (db_flush []) = Inr db
    \<and> db_load sample_env plain_keys db (fst logged_sample) True = Inr (AllResults [snd logged_sample, snd logged_sample])
    \<and> db_filter sample_env db (\<lambda>inp rs. length rs = 2) = Inr [logged_sample]"
proof -
  let ?ops = "[(logged_sample, False), (logged_sample, True)]" and ?reads = "\<lambda>m. logged_sample"
  let ?k = "measure_str_key plain_keys (fst logged_sample) True"
  have ad: "foldl (pairs_save plain_keys ?reads) [] ?ops = [(?k, [logged_sample, logged_sample])]" by (simp add: pairs_save_def Let_def)
  have "\<forall>(m, ext) \<in> set ?ops. storable sample_env ?reads m" using sample_storable by simp
  from database_refines [OF this, of plain_keys "[]"] obtain db where "db_run sample_env plain_keys ?ops (db_flush []) = Inr db"
    "db_load sample_env plain_keys db (fst logged_sample) True = Inr (AllResults [snd logged_sample, snd logged_sample])"
    "\<And>func. db_filter sample_env db func = Inr (pairs_filter func [(?k, [logged_sample, logged_sample])])" unfolding ad by (auto split: option.splits)
  then show ?thesis by (intro exI [of _ db]) (simp add: pairs_filter_def)
qed

end
