(* ===== verification/TunedDispatch.thy ===== *)
theory TunedDispatch
  imports Database
begin

text \<open>
  From tuning to compilation: a tuner that logs to a file, and a dispatch context that reads the file. What a compiler is given for the workload of the task is the configuration that the tuner
  found best, or nothing when no measurement succeeded. A run that logs to a database can be replayed from it.
\<close>

section \<open>What a run measures\<close>

text \<open>A pair that a run on a space can measure.\<close>

definition run_pair :: "config_space \<Rightarrow> task \<Rightarrow> 'e batch_fn \<Rightarrow> measured \<Rightarrow> bool" where
  "run_pair cs t mb m \<longleftrightarrow> mi_target (fst m) = task_target t \<and> mi_task (fst m) = t \<and> (\<exists>i. cs_at cs i = Inr (mi_config (fst m)))
     \<and> (\<exists>e inputs. snd m \<in> set (fst (batch_call mb e inputs)))"

lemma keep_best_task: "keep_best py_str i pairs (t, ct, errs) = Inr (t', ct', errs') \<Longrightarrow> t_task t' = t_task t \<and> t_sub t' = t_sub t"
proof (induction pairs arbitrary: i t ct errs)
  case (Cons m pairs)
  then obtain t1 ct1 errs1 where one: "keep_best_one py_str i m (t, ct, errs) = Inr (t1, ct1, errs1)" "keep_best py_str (i + 1) pairs (t1, ct1, errs1) = Inr (t', ct', errs')"
    by (auto simp: res_bind_eq_Inr)
  have "t_task t1 = t_task t \<and> t_sub t1 = t_sub t" using one(1) by (auto simp: keep_best_one_def Let_def res_bind_eq_Inr split: prod.splits if_splits)
  then show ?case using Cons.IH [OF one(2)] by simp
qed simp

lemma tune_step_pairs:
  assumes "tune_step cls mb [] py_str trials early st = Inr (st1, go_on)" and "ok (t_sub (ts_tuner st))"
    and "\<And>s n confs s'. ok s \<Longrightarrow> next_batch cls s n = Inr (confs, s') \<Longrightarrow> ok s' \<and> (\<forall>c \<in> set confs. \<exists>i. cs_at cs i = Inr c)"
    and "\<And>s pairs s'. ok s \<Longrightarrow> update cls s pairs = Inr s' \<Longrightarrow> ok s'"
  shows "ok (t_sub (ts_tuner st1)) \<and> t_task (ts_tuner st1) = t_task (ts_tuner st)
    \<and> (\<forall>m \<in> set (ts_history st1). m \<in> set (ts_history st) \<or> run_pair cs (t_task (ts_tuner st)) mb m)"
proof -
  let ?t = "ts_tuner st"
  obtain confs sub1 where nb: "next_batch cls (t_sub ?t) (min (batch_parallel mb) (trials - ts_i st)) = Inr (confs, sub1)"
    using assms(1) by (auto simp: tune_step_def Let_def res_bind_eq_Inr)
  define inputs where "inputs = map (\<lambda>c. \<lparr>mi_target = task_target (t_task ?t), mi_task = t_task ?t, mi_config = c\<rparr>) confs"
  obtain results env1 where mb: "batch_call mb (ts_env st) inputs = (results, env1)" by fastforce
  define pairs where "pairs = zip inputs results"
  obtain t1 ct errs where kb: "keep_best py_str (ts_i st) pairs (?t\<lparr>t_sub := sub1\<rparr>, ts_error_ct st, ts_errors st) = Inr (t1, ct, errs)"
    using assms(1) nb mb by (auto simp: tune_step_def Let_def res_bind_eq_Inr inputs_def pairs_def split: prod.splits)
  obtain sub2 where up: "update cls (t_sub t1) pairs = Inr sub2"
    using assms(1) nb mb kb by (auto simp: tune_step_def Let_def res_bind_eq_Inr inputs_def pairs_def split: prod.splits)
  have st1: "t_sub (ts_tuner st1) = sub2" "t_task (ts_tuner st1) = t_task t1" "ts_history st1 = ts_history st @ pairs"
    using assms(1) nb mb kb up by (auto simp: tune_step_def Let_def inputs_def pairs_def)
  have ok: "ok sub1" "\<forall>c \<in> set confs. \<exists>i. cs_at cs i = Inr c" using assms(3) [OF assms(2) nb] by auto
  have "run_pair cs (t_task ?t) mb m" if "m \<in> set pairs" for m
  proof -
    have "fst m \<in> set inputs" "snd m \<in> set results" using that unfolding pairs_def by (metis prod.collapse set_zip_leftD, metis prod.collapse set_zip_rightD)
    moreover from this have "snd m \<in> set (fst (batch_call mb (ts_env st) inputs))" using mb by simp
    then have "\<exists>e ins. snd m \<in> set (fst (batch_call mb e ins))" by blast
    ultimately show ?thesis using ok(2) unfolding run_pair_def inputs_def by auto
  qed
  then show ?thesis using st1 keep_best_task [OF kb] ok(1) assms(4) up by auto
qed

lemma tune_loop_pairs:
  assumes "tune_loop fuel cls mb [] py_str trials early st = Some (Inr st')" and "ok (t_sub (ts_tuner st))"
    and "\<And>s n confs s'. ok s \<Longrightarrow> next_batch cls s n = Inr (confs, s') \<Longrightarrow> ok s' \<and> (\<forall>c \<in> set confs. \<exists>i. cs_at cs i = Inr c)"
    and "\<And>s pairs s'. ok s \<Longrightarrow> update cls s pairs = Inr s' \<Longrightarrow> ok s'" and "\<forall>m \<in> set (ts_history st). run_pair cs (t_task (ts_tuner st)) mb m"
  shows "\<forall>m \<in> set (ts_history st'). run_pair cs (t_task (ts_tuner st)) mb m"
  using assms(1,2,5)
proof (induction fuel arbitrary: st)
  case 0
  then show ?case by (auto simp: tune_loop.simps [of 0] split: if_splits)
next
  case (Suc fuel)
  show ?case
  proof (cases "\<not> ts_i st < trials \<or> \<not> has_next cls (t_sub (ts_tuner st))")
    case True
    then show ?thesis using Suc.prems by (auto simp: tune_loop.simps [of "Suc fuel"])
  next
    case False
    then obtain st1 go_on where step: "tune_step cls mb [] py_str trials early st = Inr (st1, go_on)"
      using Suc.prems by (auto simp: tune_loop.simps [of "Suc fuel"] split: sum.splits)
    have s1: "ok (t_sub (ts_tuner st1)) \<and> t_task (ts_tuner st1) = t_task (ts_tuner st)
        \<and> (\<forall>m \<in> set (ts_history st1). m \<in> set (ts_history st) \<or> run_pair cs (t_task (ts_tuner st)) mb m)"
      by (rule tune_step_pairs [where ok = ok and cs = cs, OF step Suc.prems(2)]) (fact assms(3), fact assms(4))
    have "tune_loop fuel cls mb [] py_str trials early st1 = Some (Inr st') \<or> st' = st1"
      using Suc.prems False step by (auto simp: tune_loop.simps [of "Suc fuel"] split: if_splits)
    then show ?thesis using Suc.IH [of st1] s1 Suc.prems(3) by auto
  qed
qed

text \<open>Grid search proposes configurations of its space.\<close>

lemma cs_get_cached: "cs_get (snd (cs_len cs)) i = (cs_at cs i, snd (cs_len cs))"
  by (auto simp: cs_get_def cs_len_def Let_def cs_dims_def split: option.splits prod.splits)

lemma grid_loop_space:
  "grid_loop n s = Inr (confs, s') \<Longrightarrow> it_space s = snd (cs_len cs) \<Longrightarrow> it_space s' = snd (cs_len cs) \<and> (\<forall>c \<in> set confs. \<exists>i. cs_at cs i = Inr c)"
proof (induction n arbitrary: s confs)
  case (Suc n)
  show ?case
  proof (cases "counter s \<ge> range_length s")
    case True
    then show ?thesis using Suc.prems by auto
  next
    case False
    let ?i = "counter s + index_offset s"
    obtain c confs1 where c: "cs_at cs ?i = Inr c" "confs = c # confs1" "grid_loop n (s\<lparr>it_space := snd (cs_len cs), counter := counter s + 1\<rparr>) = Inr (confs1, s')"
      using Suc.prems False by (auto simp: cs_get_cached res_bind_eq_Inr)
    then show ?thesis using Suc.IH [OF c(3)] by auto
  qed
qed simp

lemma grid_run_pairs:
  assumes "tune fuel grid_tuner mb [] py_str (tuner_init t s) env trials early si = Some (Inr (st, warned))" and "index_tuner_init cs None = Inr s"
  shows "\<forall>m \<in> set (ts_history st). run_pair cs t mb m"
proof -
  let ?st = "\<lparr>ts_tuner = (tuner_init t s)\<lparr>n_trial := Some trials, early_stopping := Some (early_limit early)\<rparr>, ts_i = 0, ts_error_ct = 0, ts_errors = [], ts_debug = False,
    ts_env = env, ts_history = []\<rparr>"
  let ?ok = "\<lambda>s. it_space s = snd (cs_len cs)"
  have loop: "tune_loop fuel grid_tuner mb [] py_str trials (early_limit early) ?st = Some (Inr st)"
    using assms(1) by (auto simp: tune_def Let_def res_bind_eq_Inr split: sum.splits)
  have start: "?ok s" using assms(2) by (auto simp: index_tuner_init_def Let_def split: prod.splits if_splits)
  have batch: "?ok s' \<and> (\<forall>c \<in> set confs. \<exists>i. cs_at cs i = Inr c)" if "?ok s" "next_batch grid_tuner s n = Inr (confs, s')" for s n confs s'
    using that grid_loop_space by (auto simp: grid_tuner_def grid_next_batch_def)
  have up: "?ok s'" if "?ok s" "update grid_tuner s pairs = Inr s'" for s pairs s' using that by (simp add: grid_tuner_def)
  have "\<forall>m \<in> set (ts_history st). run_pair cs (t_task (ts_tuner ?st)) mb m"
  proof (rule tune_loop_pairs [where ok = ?ok and cs = cs, OF loop])
    show "it_space (t_sub (ts_tuner ?st)) = snd (cs_len cs)" using start by (simp add: tuner_init_def)
  next
    show "it_space s' = snd (cs_len cs) \<and> (\<forall>c \<in> set confs. \<exists>i. cs_at cs i = Inr c)"
      if "it_space s = snd (cs_len cs)" "next_batch grid_tuner s n = Inr (confs, s')" for s n confs s' using that by (rule batch)
  next
    show "it_space s' = snd (cs_len cs)" if "it_space s = snd (cs_len cs)" "update grid_tuner s pairs = Inr s'" for s pairs s' using that by (rule up)
  qed simp
  then show ?thesis by (simp add: tuner_init_def)
qed

lemma grid_run_nonempty:
  assumes "tune fuel grid_tuner mb [] py_str (tuner_init t s) env trials early si = Some (Inr (st, warned))"
    and "index_ok 0 n s" "counter s = 0" "0 < n" "0 < trials" "task_flop t \<noteq> None" "good_measure mb"
  shows "ts_history st \<noteq> []"
proof -
  let ?st = "\<lparr>ts_tuner = (tuner_init t s)\<lparr>n_trial := Some trials, early_stopping := Some (early_limit early)\<rparr>, ts_i = 0, ts_error_ct = 0, ts_errors = [], ts_debug = False,
    ts_env = env, ts_history = []\<rparr>"
  have loop: "tune_loop fuel grid_tuner mb [] py_str trials (early_limit early) ?st = Some (Inr st)"
    using assms(1) by (auto simp: tune_def Let_def res_bind_eq_Inr split: sum.splits)
  have more: "has_next grid_tuner (t_sub (ts_tuner ?st))" using assms(2-4) by (simp add: grid_tuner_def index_has_next_def index_ok_def tuner_init_def)
  have "loop_ok (index_ok 0 n) trials ?st" "grid.tracks ?st"
    using assms(2,3,5,6) by (simp_all add: loop_ok_def best_ok_def tuner_init_def grid.tracks_def grid_tried_def py_range_1)
  from grid.step_draws [OF this assms(7) _ more good_callbacks_none, of py_str "early_limit early"] assms(5)
  obtain st1 go_on where step: "tune_step grid_tuner mb [] py_str trials (early_limit early) ?st = Inr (st1, go_on)" "loop_ok (index_ok 0 n) trials st1" "0 < ts_i st1" by auto
  obtain k where k: "fuel = Suc k" using loop more assms(5) by (cases fuel) (auto simp: tune_loop.simps [of 0])
  have "tune_loop k grid_tuner mb [] py_str trials (early_limit early) st1 = Some (Inr st) \<or> st = st1"
    using loop more assms(5) step(1) unfolding k by (auto simp: tune_loop.simps [of "Suc k"] split: if_splits)
  then have "\<exists>ms. ts_history st = ts_history st1 @ ms" using tune_loop_grows by auto
  moreover have "ts_history st1 \<noteq> []" using step(2,3) by (auto simp: loop_ok_def)
  ultimately show ?thesis by auto
qed

section \<open>The log of a run\<close>

text \<open>A pair as it comes back from the log.\<close>

definition reread :: "measured \<Rightarrow> measured" where
  "reread m = (logged_input (fst m) (reread_config (mi_config (fst m))) (logged_result (snd m)), logged_result (snd m))"

text \<open>A pair that is logged as one line, from which it is read back.\<close>

definition logs :: "rec_env \<Rightarrow> measured \<Rightarrow> string \<Rightarrow> bool" where
  "logs env m row \<longleftrightarrow> log_row env ''json'' m = Inr row \<and> row \<noteq> [] \<and> last row = CHR 0x0A \<and> \<not> str_startswith row ''#'' \<and> decode env row ''json'' = Inr (Some (reread m))"

lemma load_logged: "list_all2 (logs env) ms rows \<Longrightarrow> load_from_buffer env rows = (map reread ms, None)"
  by (induction rule: list_all2_induct) (auto simp: logs_def)

lemma log_callback:
  assumes "\<forall>m \<in> set all. \<exists>row. logs env m row" and "set pairs \<subseteq> set all"
    and "\<exists>rows. fs = fs0(path \<mapsto> rows) \<and> list_all2 (logs env) hist rows"
  shows "\<exists>fs'. log_to_file env path ''json'' t fs pairs = Inr fs' \<and> (\<exists>rows. fs' = fs0(path \<mapsto> rows) \<and> list_all2 (logs env) (hist @ pairs) rows)"
proof -
  obtain old where old: "fs = fs0(path \<mapsto> old)" "list_all2 (logs env) hist old" using assms(3) by blast
  have "\<exists>new. list_all2 (logs env) pairs new"
    using assms(1,2)
  proof (induction pairs)
    case (Cons m pairs)
    then obtain row new where "logs env m row" "list_all2 (logs env) pairs new" by auto
    then show ?case by (intro exI [of _ "row # new"]) simp
  qed auto
  then obtain new where new: "list_all2 (logs env) pairs new" by blast
  have "res_map (log_row env ''json'') pairs = Inr new" using new by (induction rule: list_all2_induct) (auto simp: logs_def)
  moreover have "append_rows old new = old @ new"
  proof (cases "old = []")
    case False
    have "\<exists>m. logs env m (last old)" using old(2) False by (metis last_in_set in_set_conv_nth list_all2_conv_all_nth)
    then show ?thesis by (auto simp: append_rows_def logs_def)
  qed (simp add: append_rows_def)
  ultimately have "log_to_file env path ''json'' t fs pairs = Inr (fs0(path \<mapsto> old @ new))" using old(1) by (simp add: log_to_file_def)
  then show ?thesis using old(2) new by (auto intro: list_all2_appendI)
qed

section \<open>The best of a run is the answer\<close>

lemma alloc_cells:
  "snd (alloc_records ms h) = h @ map (\<lambda>m. \<lparr>co_value = VEntity (mi_config (fst m)), co_cost = cost (mi_config (fst m)), co_workload = None\<rparr>) ms"
  by (induction ms arbitrary: h) (simp_all add: Let_def prod.case_eq_if)

lemma first_some_same: "xs \<noteq> [] \<Longrightarrow> \<forall>x \<in> set xs. x = y \<Longrightarrow> first_some xs = y"
proof (induction xs)
  case (Cons x xs)
  then show ?case by (cases xs) (auto split: option.split)
qed simp

text \<open>Measurements of one task that took time when they succeeded.\<close>

definition timed :: "(texpr \<Rightarrow> texpr) \<Rightarrow> target \<Rightarrow> wkl \<Rightarrow> rat \<Rightarrow> measured \<Rightarrow> bool" where
  "timed simplify tgt w fl m \<longleftrightarrow> mi_target (fst m) = Some tgt \<and> workload simplify (mi_task (fst m)) = Inr w \<and> task_flop (mi_task (fst m)) = Some fl
     \<and> (error_no (snd m) = 0 \<longrightarrow> (\<exists>q > 0. mean_costs (snd m) = Inr (Fin q)))"

lemma reread_record:
  assumes "timed simplify tgt w fl m"
  shows "dr_target (rec_at (reread m) i) = Some tgt" "workload simplify (dr_task (rec_at (reread m) i)) = Inr w"
    "error_no (dr_result (rec_at (reread m) i)) = error_no (snd m)" "error_no (snd m) = 0 \<Longrightarrow> mean_costs (dr_result (rec_at (reread m) i)) = mean_costs (snd m)"
  using assms by (simp_all add: timed_def rec_at_def reread_def logged_input_def logged_result_def logged_costs_def workload_def task_init_def mean_costs_def)

lemma best_answer_run:
  assumes ms: "\<forall>m \<in> set ms. timed simplify tgt w fl m" and keys: "tgt_model tgt \<noteq> ''unknown'' \<or> tgt_keys tgt \<noteq> []"
  shows "best_answer simplify (recs_of (map reread ms)) tgt w = fastest (filter (\<lambda>r. error_no (dr_result r) = 0) (recs_of (map reread ms)))"
proof -
  let ?rs = "recs_of (map reread ms)" and ?ok = "\<lambda>r. error_no (dr_result r) = 0"
  have rec: "dr_target r = Some tgt" "workload simplify (dr_task r) = Inr w" if r: "r \<in> set ?rs" for r
  proof -
    obtain i where i: "i < length ms" "r = rec_at (reread (ms ! i)) i" using r by (auto simp: recs_of_eq)
    have "timed simplify tgt w fl (ms ! i)" using ms i(1) by simp
    then show "dr_target r = Some tgt" "workload simplify (dr_task r) = Inr w" using reread_record(1,2) i(2) by auto
  qed
  have model: "filter (of_model simplify (tgt_model tgt) w) ?rs = filter ?ok ?rs" using rec by (intro filter_cong) (auto simp: of_model_def succeeded_def)
  have key: "filter (of_key simplify k w) ?rs = filter ?ok ?rs" if "k \<in> set (tgt_keys tgt)" for k
    using rec that by (intro filter_cong) (auto simp: of_key_def succeeded_def)
  show ?thesis unfolding best_answer_def model using keys key by (intro first_some_same) (auto split: if_splits)
qed

lemma run_best_first:
  assumes ms: "\<forall>m \<in> set ms. timed simplify tgt w fl m" and fl: "0 < fl" and best: "best_ok tn ms"
  shows "fastest (filter (\<lambda>r. error_no (dr_result r) = 0) (recs_of (map reread ms)))
    = (case best_measure_pair tn of None \<Rightarrow> None | Some p \<Rightarrow> Some (rec_at (reread (ms ! nat (best_iter tn))) (nat (best_iter tn))))"
proof -
  let ?ok = "\<lambda>r. error_no (dr_result r) = 0" and ?rec = "\<lambda>i. rec_at (reread (ms ! i)) i"
  have recs: "recs_of (map reread ms) = map ?rec [0..<length ms]" by (simp add: recs_of_eq)
  define q where "q i = mean_cost (?rec i)" for i
  have at: "timed simplify tgt w fl (ms ! i)" if "i < length ms" for i using ms that by simp
  have ok: "?ok (?rec i) \<longleftrightarrow> error_no (snd (ms ! i)) = 0" if "i < length ms" for i using reread_record(3) [OF at [OF that]] by simp
  have cost: "0 < q i" "mean_of (?rec i) = Fin (q i)" "measured_flops (fst (ms ! i)) (snd (ms ! i)) = Inr (Fin (fl / q i))"
    if i: "i < length ms" "error_no (snd (ms ! i)) = 0" for i
  proof -
    obtain x where x: "0 < x" "mean_costs (snd (ms ! i)) = Inr (Fin x)" using at [OF i(1)] i(2) by (auto simp: timed_def)
    then show m: "mean_of (?rec i) = Fin (q i)" using reread_record(4) [OF at [OF i(1)] i(2)] by (simp add: mean_of_def q_def mean_cost_def)
    then have qx: "q i = x" using reread_record(4) [OF at [OF i(1)] i(2)] x by (simp add: mean_of_def)
    show "0 < q i" using x(1) qx by simp
    show "measured_flops (fst (ms ! i)) (snd (ms ! i)) = Inr (Fin (fl / q i))"
      using x qx at [OF i(1)] by (simp add: measured_flops_def timed_def)
  qed
  have below: "\<not> fgt (Fin (fl / q i)) (best_flops tn)" if i: "i < length ms" "error_no (snd (ms ! i)) = 0" for i
  proof -
    have "(fst (ms ! i), snd (ms ! i)) \<in> set ms" using i(1) by simp
    then show ?thesis using best i(2) cost(3) [OF i] unfolding best_ok_def by fast
  qed
  show ?thesis
  proof (cases "best_measure_pair tn")
    case None
    then have "best_flops tn = Fin 0" using best by (simp add: best_ok_def)
    then have "\<not> error_no (snd (ms ! i)) = 0" if "i < length ms" for i using below [OF that] cost(1) [OF that] fl by auto
    then have "filter ?ok (recs_of (map reread ms)) = []" using ok by (auto simp: recs filter_empty_conv)
    then show ?thesis using None by (simp add: fastest_def)
  next
    case (Some p)
    define b where "b = nat (best_iter tn)"
    have b: "b < length ms" "error_no (snd (ms ! b)) = 0" "best_flops tn = Fin (fl / q b)"
    proof -
      obtain inp r where p: "p = (inp, r)" by fastforce
      have facts: "error_no r = 0" "measured_flops inp r = Inr (best_flops tn)" "b < length ms" "ms ! b = (inp, r)"
        using best Some unfolding best_ok_def p b_def by auto
      then show "b < length ms" "error_no (snd (ms ! b)) = 0" by simp_all
      then show "best_flops tn = Fin (fl / q b)" using cost(3) [of b] facts by simp
    qed
    have earlier: "q b < q i" if i: "i < b" "error_no (snd (ms ! i)) = 0" for i
    proof -
      have len: "i < length ms" using i(1) b(1) by simp
      have "ms ! i \<in> set (take b ms)" using i(1) b(1) by (auto simp: in_set_conv_nth intro: exI [of _ i])
      then have "measured_flops (fst (ms ! i)) (snd (ms ! i)) \<noteq> Inr (best_flops tn)"
        using best Some i(2) unfolding best_ok_def b_def by (auto split: prod.splits)
      then have "fl / q i \<noteq> fl / q b" using cost(3) [OF len i(2)] b(3) by simp
      moreover have "fl / q i \<le> fl / q b" using below [OF len i(2)] b(3) by simp
      ultimately have "fl / q i < fl / q b" by (metis order_less_le)
      then show ?thesis using cost(1) [OF len i(2)] cost(1) [OF b(1,2)] fl by (simp add: divide_less_cancel frac_less2 field_simps)
    qed
    have later: "q b \<le> q i" if i: "i < length ms" "error_no (snd (ms ! i)) = 0" for i
    proof -
      have "fl / q i \<le> fl / q b" using below [OF i] b(3) by simp
      then show ?thesis using cost(1) [OF i] cost(1) [OF b(1,2)] fl by (simp add: field_simps)
    qed
    let ?ys = "filter ?ok (map ?rec [0..<b])" and ?zs = "filter ?ok (map ?rec [Suc b..<length ms])"
    have "[0..<length ms] = [0..<b] @ b # [Suc b..<length ms]" using b(1) by (metis less_imp_add_positive upt_add_eq_append upt_conv_Cons le_add1 plus_nat.add_0)
    then have split: "filter ?ok (recs_of (map reread ms)) = ?ys @ ?rec b # ?zs" using ok [OF b(1)] b(2) by (simp add: recs)
    have "first_least (?ys @ ?rec b # ?zs) (?rec b)"
      unfolding first_least_def
    proof (intro exI conjI ballI)
      show "?ys @ ?rec b # ?zs = ?ys @ ?rec b # ?zs" ..
      show "mean_cost (?rec b) < mean_cost y" if "y \<in> set ?ys" for y using that ok b(1) earlier by (auto simp: q_def)
      show "mean_cost (?rec b) \<le> mean_cost z" if "z \<in> set ?zs" for z using that ok b(1) later by (auto simp: q_def)
    qed
    moreover have "list_all finite_cost (filter ?ok (recs_of (map reread ms)))"
      using cost(2) ok by (auto simp: recs list_all_iff finite_cost_def)
    ultimately show ?thesis using first_least_fastest split Some by (simp add: b_def)
  qed
qed

section \<open>From tuning to compilation\<close>

text \<open>A space whose options can be written to JSON.\<close>

definition plain_space :: "config_space \<Rightarrow> bool" where
  "plain_space cs \<longleftrightarrow> (\<forall>(name, sp) \<in> set (space_map cs). \<forall>e \<in> set (sp_entities sp). json_plain (payload e))"

lemma get_entities_plain:
  "get_entities m i = Inr es \<Longrightarrow> \<forall>(name, sp) \<in> set m. \<forall>e \<in> set (sp_entities sp). json_plain (payload e) \<Longrightarrow>
     map fst es = map fst m \<and> (\<forall>(k, e) \<in> set es. json_plain (payload e))"
proof (induction m i arbitrary: es rule: get_entities.induct)
  case (2 name sp m t)
  obtain e es' where e: "space_getitem sp (t mod space_len sp) = Inr e" "get_entities m (t div space_len sp) = Inr es'" "es = (name, e) # es'" "space_len sp \<noteq> 0"
    using "2.prems"(1) by (auto simp: res_bind_eq_Inr split: if_splits)
  have "e \<in> set (sp_entities sp)" using e(1) by (auto simp: space_getitem_def py_get_def split: if_splits)
  then show ?case using "2.IH" e "2.prems"(2) by auto
qed simp

lemma cs_at_plain: "cs_ready cs \<Longrightarrow> plain_space cs \<Longrightarrow> cs_at cs i = Inr c \<Longrightarrow> plain_config c"
  using get_entities_plain [of "space_map cs" i]
  by (auto simp: cs_get_def Let_def res_bind_eq_Inr plain_space_def plain_config_def cs_ready_def cs_wf_def config_entity_init_def config_space.defs config_entity.defs
      split: prod.splits if_splits)

text \<open>The JSON module: what it writes for the records of a run is one line, from which it reads the record back.\<close>

definition json_lines :: "rec_env \<Rightarrow> config_space \<Rightarrow> task \<Rightarrow> 'e batch_fn \<Rightarrow> bool" where
  "json_lines env cs t mb \<longleftrightarrow> (\<forall>m x j. run_pair cs t mb m \<longrightarrow> json_record env (fst m) (snd m) = Inr x \<longrightarrow> json_trip x = Inr j \<longrightarrow>
     (\<exists>row. re_dumps env x = Inr row \<and> \<not> str_startswith (row @ [CHR 0x0A]) ''#'' \<and> re_loads env (row @ [CHR 0x0A]) = Inr j))"

lemma run_pair_logs:
  assumes "run_pair cs t mb m" and "cs_ready cs" and "plain_space cs" and "list_all arg_loggable (task_args t)" and "task_target t = Some tgt"
    and "re_target env (str_replace ''-target'' ''-mtriple'' (tgt_str tgt)) = Inr tgt" and "json_lines env cs t mb" and "error_no (snd m) = 0 \<longrightarrow> mean_costs (snd m) \<noteq> Inl TypeErr"
  shows "\<exists>row. logs env m row"
proof -
  have m: "mi_target (fst m) = Some tgt" "mi_task (fst m) = t" "plain_config (mi_config (fst m))" using assms(1-3,5) cs_at_plain by (auto simp: run_pair_def)
  obtain x j where x: "json_record env (fst m) (snd m) = Inr x" "json_trip x = Inr j" "\<not> is_old_row j" "decode_json env j = Inr (reread m)"
    using json_record_trip [of "fst m" "snd m" tgt env] m assms(4,6,8) by (auto simp: reread_def)
  obtain row where row: "re_dumps env x = Inr row" "\<not> str_startswith (row @ [CHR 0x0A]) ''#''" "re_loads env (row @ [CHR 0x0A]) = Inr j"
    using assms(7) [unfolded json_lines_def, rule_format, OF assms(1) x(1,2)] by blast
  have "logs env m (row @ [CHR 0x0A])"
    using x row by (simp add: logs_def log_row_def encode_def decode_def)
  then show ?thesis by blast
qed

lemma logged_run:
  fixes cls :: "'s tuner_class"
  assumes run: "tune fuel cls mb [] py_str tn e trials early si = Some (Inr (st, warned))" and logged: "\<forall>m \<in> set (ts_history st). \<exists>row. logs env m row"
    and fresh: "files path = None"
  shows "\<exists>fs. tune fuel cls (alongside mb) [beside (log_to_file env path ''json'')] py_str tn (e, files) trials early si = Some (Inr (with_part fs st, warned))
    \<and> (ts_history st \<noteq> [] \<longrightarrow> (\<exists>rows. fs path = Some rows \<and> list_all2 (logs env) (ts_history st) rows))"
proof -
  let ?ms = "ts_history st"
  define logged_as where "logged_as hist fs \<longleftrightarrow> (hist = [] \<and> fs = files) \<or> (\<exists>rows. fs = files(path \<mapsto> rows) \<and> list_all2 (logs env) hist rows)" for hist fs
  have keep: "\<exists>fs'. log_to_file env path ''json'' t fs ps = Inr fs' \<and> logged_as (hist @ ps) fs'" if "logged_as hist fs" "set ps \<subseteq> set ?ms" for t :: "'s tuner" and hist ps fs
  proof (cases "hist = [] \<and> fs = files")
    case True
    have "log_to_file env path ''json'' t fs ps = log_to_file env path ''json'' t (files(path \<mapsto> [])) ps" using True fresh by (simp add: log_to_file_def)
    then show ?thesis using log_callback [OF logged that(2), of "files(path \<mapsto> [])" files path "[]" t] True by (auto simp: logged_as_def)
  next
    case False
    then show ?thesis using log_callback [OF logged that(2), of fs files path hist t] that(1) by (auto simp: logged_as_def)
  qed
  obtain fs where fs: "tune fuel cls (alongside mb) [beside (log_to_file env path ''json'')] py_str tn (e, files) trials early si = Some (Inr (with_part fs st, warned))"
    "logged_as ?ms fs" using tune_part [where R = logged_as and f = "log_to_file env path ''json''" and x = files, OF run] keep by (auto simp: logged_as_def)
  then show ?thesis by (auto simp: logged_as_def)
qed

lemma dispatch_log:
  assumes timed: "\<forall>m \<in> set ms. timed simplify tgt w fl m" and fl: "0 < fl" and best: "best_ok tn ms" and keys: "tgt_model tgt \<noteq> ''unknown'' \<or> tgt_keys tgt \<noteq> []"
    and rows: "fs path = Some rows" "list_all2 (logs env) ms rows" and path: "path \<noteq> []"
  shows "\<exists>cells h. hist_init env fs simplify (Some (RecPath path)) [] = (Inr (), cells, h)
    \<and> (case best_config tn of
         None \<Rightarrow> hist_query h (Some tgt) (Some w) = Inr None
       | Some c \<Rightarrow> \<exists>k q. hist_query h (Some tgt) (Some w) = Inr (Some k) \<and> k < length cells \<and> co_value (cells ! k) = VEntity ((reread_config c)\<lparr>cost := Some q\<rparr>))"
proof -
  let ?rs = "recs_of (map reread ms)" and ?cells = "snd (alloc_records (map reread ms) [])"
  have load: "unpack_records env fs (RecPath path) [] = ((?rs, None), ?cells)"
    using rows load_logged by (simp add: load_from_file_def alloc_gen_def recs_of_def split: prod.split)
  have readable: "list_all (readable simplify) ?rs"
    unfolding list_all_iff
  proof
    fix r assume "r \<in> set ?rs"
    then obtain i where i: "i < length ms" "r = rec_at (reread (ms ! i)) i" by (auto simp: recs_of_eq)
    have m: "timed simplify tgt w fl (ms ! i)" using timed i(1) by simp
    show "readable simplify r" using reread_record [OF m, of i] m unfolding readable_def i(2) by (auto simp: timed_def)
  qed
  obtain h where h: "hist_add_all simplify ?rs hist_empty = (Inr (), h)" "hist_query h (Some tgt) (Some w) = Inr (map_option dr_config (best_answer simplify ?rs tgt w))"
    using hist_query_best [OF readable] by blast
  have init: "hist_init env fs simplify (Some (RecPath path)) [] = (Inr (), ?cells, h)" using load h(1) path by (simp add: hist_init_def records_true_def hist_load_def)
  have answer: "best_answer simplify ?rs tgt w = (case best_measure_pair tn of None \<Rightarrow> None | Some p \<Rightarrow> Some (rec_at (reread (ms ! nat (best_iter tn))) (nat (best_iter tn))))"
    using best_answer_run [OF timed keys] run_best_first [OF timed fl best] by simp
  have "case best_config tn of None \<Rightarrow> hist_query h (Some tgt) (Some w) = Inr None
      | Some c \<Rightarrow> \<exists>k q. hist_query h (Some tgt) (Some w) = Inr (Some k) \<and> k < length ?cells \<and> co_value (?cells ! k) = VEntity ((reread_config c)\<lparr>cost := Some q\<rparr>)"
    using best h(2) answer by (cases "best_measure_pair tn") (auto simp: best_ok_def alloc_cells rec_at_def reread_def logged_input_def)
  then show ?thesis using init by blast
qed

text \<open>
  C2. From tuning to compilation. A grid search that logs its measurements to a new file returns; a history context made from the file loads it; and its answer for the target and the workload of the
  task is the best configuration of the tuner, read back from the log with the mean of its costs, or no configuration when no measurement succeeded.
\<close>

theorem tuned_config_dispatched:
  assumes space: "cs_ready cs" "plain_space cs" "index_tuner_init cs None = Inr s"
    and task: "task_flop t = Some fl" "0 < fl" "task_target t = Some tgt" "list_all arg_loggable (task_args t)" "workload simplify t = Inr w"
    and meas: "good_measure mb" "\<forall>e inputs. \<forall>r \<in> set (fst (batch_call mb e inputs)). error_no r = 0 \<longrightarrow> (\<exists>q > 0. mean_costs r = Inr (Fin q))"
    and target: "re_target env (str_replace ''-target'' ''-mtriple'' (tgt_str tgt)) = Inr tgt" "tgt_model tgt \<noteq> ''unknown'' \<or> tgt_keys tgt \<noteq> []"
    and json: "json_lines env cs t mb" and fresh: "files path = None" "path \<noteq> []"
    and run: "0 < cs_size cs" "0 < trials" "format_si_prefix 0 si = Inr x"
  shows "\<exists>st warned cells h. tune (nat trials) grid_tuner (alongside mb) [beside (log_to_file env path ''json'')] py_str (tuner_init t s) (e, files) trials early si = Some (Inr (st, warned))
    \<and> hist_init env (snd (ts_env st)) simplify (Some (RecPath path)) [] = (Inr (), cells, h)
    \<and> (case best_config (ts_tuner st) of
         None \<Rightarrow> hist_query h (Some tgt) (Some w) = Inr None
       | Some c \<Rightarrow> \<exists>k q. hist_query h (Some tgt) (Some w) = Inr (Some k) \<and> k < length cells \<and> co_value (cells ! k) = VEntity ((reread_config c)\<lparr>cost := Some q\<rparr>))"
proof -
  have s: "index_ok 0 (cs_size cs) s" "counter s = 0" using index_tuner_init_ok [OF space(1)] space(3) by (auto simp: index_ok_def)
  then have "grid_tried s = []" by (simp add: grid_tried_def py_range_1)
  from grid.tune_exhausts [OF s(1) this _ meas(1) _ run(3) good_callbacks_none, of t trials py_str e early] task(1) run(2)
  obtain st warned where st: "tune (nat trials) grid_tuner mb [] py_str (tuner_init t s) e trials early si = Some (Inr (st, warned))" "best_ok (ts_tuner st) (ts_history st)"
    by auto
  let ?ms = "ts_history st"
  have pairs: "\<forall>m \<in> set ?ms. run_pair cs t mb m" by (rule grid_run_pairs [OF st(1) space(3)])
  have timed: "\<forall>m \<in> set ?ms. timed simplify tgt w fl m"
  proof
    fix m assume "m \<in> set ?ms"
    then have m: "run_pair cs t mb m" using pairs by blast
    then obtain e inputs where "snd m \<in> set (fst (batch_call mb e inputs))" by (auto simp: run_pair_def)
    then show "timed simplify tgt w fl m" using m task meas(2) by (simp add: run_pair_def timed_def)
  qed
  have "error_no (snd m) = 0 \<longrightarrow> mean_costs (snd m) \<noteq> Inl TypeErr" if "m \<in> set ?ms" for m using timed that by (auto simp: timed_def)
  then have logged: "\<forall>m \<in> set ?ms. \<exists>row. logs env m row"
    using pairs run_pair_logs [OF _ space(1,2) task(4,3) target(1) json] by blast
  obtain fs where fs: "tune (nat trials) grid_tuner (alongside mb) [beside (log_to_file env path ''json'')] py_str (tuner_init t s) (e, files) trials early si = Some (Inr (with_part fs st, warned))"
    "?ms \<noteq> [] \<longrightarrow> (\<exists>rows. fs path = Some rows \<and> list_all2 (logs env) ?ms rows)" using logged_run [OF st(1) logged, of files path] fresh(1) by blast
  have "?ms \<noteq> []" using grid_run_nonempty [OF st(1) s run(1,2) _ meas(1)] task(1) by simp
  then obtain rows where rows: "fs path = Some rows" "list_all2 (logs env) ?ms rows" using fs(2) by blast
  show ?thesis using fs(1) dispatch_log [where fs = fs and path = path and rows = rows and env = env, OF timed task(2) st(2) target(2) rows fresh(2)] by (intro exI [of _ "with_part fs st"] exI [of _ warned]) simp
qed

text \<open>An example: a space of six configurations, and a JSON module that knows the six records of the run by their number.\<close>

definition tuned_task :: task where
  "tuned_task = (task_init ''dense'' [])\<lparr>task_flop := Some 1000, task_target := Some sample_target\<rparr>"

definition tuned_records :: "pyobj list" where
  "tuned_records = map (\<lambda>i. projr (json_record sample_env \<lparr>mi_target = Some sample_target, mi_task = tuned_task, mi_config = projr (cs_at sample_space i)\<rparr>
     \<lparr>costs = [OFloat 2], error_no = 0, all_cost = 1, timestamp = 0\<rparr>)) [0, 1, 2, 3, 4, 5]"

definition table_env :: rec_env where
  "table_env = sample_env\<lparr>re_dumps := (\<lambda>x. Inr (replicate (length (takeWhile (\<lambda>y. y \<noteq> x) tuned_records)) CHR ''x'')),
     re_loads := (\<lambda>s. json_trip (tuned_records ! length (filter (\<lambda>c. c \<noteq> CHR 0x0A) s)))\<rparr>"

lemma table_env_rows:
  assumes m: "run_pair sample_space tuned_task sample_measure m" and x: "json_record table_env (fst m) (snd m) = Inr x" "json_trip x = Inr j" and eol: "set eol \<subseteq> {CHR 0x0A}"
  shows "\<exists>row. re_dumps table_env x = Inr row \<and> set row \<subseteq> {CHR ''x''} \<and> re_loads table_env (row @ eol) = Inr j"
proof -
  obtain i where i: "cs_at sample_space i = Inr (mi_config (fst m))" using m by (auto simp: run_pair_def)
  have "cs_size sample_space = 6" using cs_ready_size [OF sample_space_ready] by (simp add: sample_space_def cs_dims_def space_len_def)
  then have "0 \<le> i \<and> i < 6" using i by (auto simp: cs_get_def Let_def split: prod.splits if_splits)
  then have "i \<in> {0, 1, 2, 3, 4, 5}" by auto
  moreover have "snd m = \<lparr>costs = [OFloat 2], error_no = 0, all_cost = 1, timestamp = 0\<rparr>" using m by (auto simp: run_pair_def sample_measure_def)
  moreover have "json_record table_env inp r = json_record sample_env inp r" for inp r by (simp add: json_record_def table_env_def)
  moreover have "fst m = \<lparr>mi_target = Some sample_target, mi_task = tuned_task, mi_config = projr (cs_at sample_space i)\<rparr>"
    using m i by (cases "fst m") (simp add: run_pair_def tuned_task_def)
  ultimately have mem: "x \<in> set tuned_records" using x(1) by (auto simp: tuned_records_def)
  let ?k = "length (takeWhile (\<lambda>y. y \<noteq> x) tuned_records)"
  have "length (takeWhile (\<lambda>y. y \<noteq> x) ys) < length ys" if "x \<in> set ys" for ys using that by (induction ys) auto
  then have "?k < length tuned_records" using mem by blast
  then have "tuned_records ! ?k = x" using nth_length_takeWhile by fastforce
  moreover have "filter (\<lambda>c. c \<noteq> CHR 0x0A) eol = []" using eol by (auto simp: filter_empty_conv)
  ultimately show ?thesis using x(2) by (auto simp: table_env_def filter_replicate)
qed

lemma table_env_lines: "json_lines table_env sample_space tuned_task sample_measure"
  unfolding json_lines_def
proof (intro allI impI)
  fix m x j assume m: "run_pair sample_space tuned_task sample_measure m" "json_record table_env (fst m) (snd m) = Inr x" "json_trip x = Inr j"
  obtain row where "re_dumps table_env x = Inr row" "set row \<subseteq> {CHR ''x''}" "re_loads table_env (row @ [CHR 0x0A]) = Inr j" using table_env_rows [OF m, of "[CHR 0x0A]"] by auto
  then show "\<exists>row. re_dumps table_env x = Inr row \<and> \<not> str_startswith (row @ [CHR 0x0A]) ''#'' \<and> re_loads table_env (row @ [CHR 0x0A]) = Inr j"
    by (cases row) auto
qed

lemma sample_space_plain: "plain_space sample_space"
  by (simp add: plain_space_def sample_space_def)

theorem tuned_config_dispatched_witness:
  "\<exists>s st warned cells h. index_tuner_init sample_space None = Inr s
    \<and> tune (nat 10) grid_tuner (alongside sample_measure) [beside (log_to_file table_env ''log'' ''json'')] (\<lambda>_. []) (tuner_init tuned_task s) ((), Map.empty) 10 None ''G''
        = Some (Inr (st, warned))
    \<and> hist_init table_env (snd (ts_env st)) (\<lambda>x. x) (Some (RecPath ''log'')) [] = (Inr (), cells, h)
    \<and> (case best_config (ts_tuner st) of
         None \<Rightarrow> hist_query h (Some sample_target) (Some (projr (workload (\<lambda>x. x) tuned_task))) = Inr None
       | Some c \<Rightarrow> \<exists>k q. hist_query h (Some sample_target) (Some (projr (workload (\<lambda>x. x) tuned_task))) = Inr (Some k) \<and> k < length cells
             \<and> co_value (cells ! k) = VEntity ((reread_config c)\<lparr>cost := Some q\<rparr>))"
proof -
  obtain s where s: "index_tuner_init sample_space None = Inr s" using index_tuner_init_ok [OF sample_space_ready] by blast
  obtain x where x: "format_si_prefix 0 ''G'' = Inr x" using format_si_G by blast
  have size: "0 < cs_size sample_space" using cs_ready_size [OF sample_space_ready] by (simp add: sample_space_def cs_dims_def space_len_def)
  have meas: "\<forall>e inputs. \<forall>r \<in> set (fst (batch_call sample_measure e inputs)). error_no r = 0 \<longrightarrow> (\<exists>q > 0. mean_costs r = Inr (Fin q))"
    by (auto simp: sample_measure_def mean_costs_def np_mean_def)
  have w: "workload (\<lambda>x. x) tuned_task = Inr (projr (workload (\<lambda>x. x) tuned_task))" by (simp add: tuned_task_def task_init_def workload_def serialize_args_def)
  have tgt: "re_target table_env (str_replace ''-target'' ''-mtriple'' (tgt_str sample_target)) = Inr sample_target" by (simp add: table_env_def sample_env_def Let_def)
  have "task_flop tuned_task = Some 1000" "task_target tuned_task = Some sample_target" "list_all arg_loggable (task_args tuned_task)" by (simp_all add: tuned_task_def task_init_def)
  from tuned_config_dispatched [OF sample_space_ready sample_space_plain s this(1) _ this(2,3) w sample_measure_good meas tgt _ table_env_lines _ _ size _ x, of Map.empty "''log''" 10 "\<lambda>_. []" "()" None]
  show ?thesis using s by auto
qed

section \<open>Replay\<close>

lemma reread_fun: "reread = (\<lambda>m. (logged_input (fst m) (reread_config (mi_config (fst m))) (logged_result (snd m)), logged_result (snd m)))"
  by (rule ext) (simp add: reread_def)

text \<open>
  C28. Replay of a tuning run. A run that returns, of any tuner, also returns with the callback \<open>log_to_database\<close>, with the same measurements; afterwards \<open>filter_inputs\<close> of the inputs that were
  measured finds every one of them: no input is left to be measured, and the result of an input is that of the last measurement with its key, as it is read back from its text.
\<close>

theorem tuned_run_replayed:
  fixes cls :: "'s tuner_class"
  assumes run: "tune fuel cls mb [] py_str tn e trials early si = Some (Inr (st, warned))"
    and rows: "\<forall>m \<in> set (ts_history st). storable env reread m"
  shows "\<exists>db. tune fuel cls (alongside mb) [beside (log_to_database (save_one env kenv))] py_str tn (e, []) trials early si = Some (Inr (with_part db st, warned))
    \<and> filter_inputs (load_latest env kenv) db False (map fst (ts_history st))
        = Inr (map (\<lambda>m. Some (logged_result (snd (last (filter (\<lambda>p. measure_str_key kenv (fst p) True = measure_str_key kenv (fst m) True) (ts_history st)))))) (ts_history st), [])"
proof -
  let ?save = "save_one env kenv" and ?key = "\<lambda>inp. measure_str_key kenv inp True"
  define logged where "logged hist db \<longleftrightarrow> res_foldl ?save [] hist = Inr db" for hist db
  have keep: "\<exists>db'. log_to_database ?save t db ps = Inr db' \<and> logged (hist @ ps) db'" if h: "logged hist db" "set ps \<subseteq> set (ts_history st)" for t :: "'s tuner" and hist ps db
  proof -
    have "\<forall>m \<in> set ps. storable env reread m" using rows h(2) by blast
    from dict_db.saved_all [OF this [unfolded reread_fun], of kenv t db] obtain db' where "log_to_database ?save t db ps = Inr db'" by blast
    then show ?thesis using h(1) by (auto simp: logged_def log_to_database_def res_foldl_append)
  qed
  obtain db where db: "tune fuel cls (alongside mb) [beside (log_to_database ?save)] py_str tn (e, []) trials early si = Some (Inr (with_part db st, warned))" "logged (ts_history st) db"
    using tune_part [where R = logged and f = "log_to_database ?save" and x = "[]", OF run] keep by (auto simp: logged_def)
  have "log_to_database ?save (ts_tuner st) [] (ts_history st) = Inr db" using db(2) by (simp add: logged_def log_to_database_def)
  then show ?thesis using db(1) dict_db.replay [OF rows [unfolded reread_fun], of kenv "ts_tuner st" "[]" db] by blast
qed

theorem tuned_run_replayed_witness:
  "\<exists>s st warned db. index_tuner_init sample_space None = Inr s
    \<and> tune (nat 10) grid_tuner (alongside sample_measure) [beside (log_to_database (save_one table_env plain_keys))] (\<lambda>_. []) (tuner_init tuned_task s) ((), []) 10 None ''G''
        = Some (Inr (with_part db st, warned))
    \<and> ts_history st \<noteq> [] \<and> filter_inputs (load_latest table_env plain_keys) db False (map fst (ts_history st))
        = Inr (map (\<lambda>m. Some (logged_result (snd (last (filter (\<lambda>p. measure_str_key plain_keys (fst p) True = measure_str_key plain_keys (fst m) True) (ts_history st)))))) (ts_history st), [])"
proof -
  obtain s where s: "index_tuner_init sample_space None = Inr s" "index_ok 0 (cs_size sample_space) s" and c0: "counter s = 0" using index_tuner_init_ok [OF sample_space_ready] by blast
  have c: "counter s = 0" "grid_tried s = []" using c0 by (simp_all add: grid_tried_def py_range_1)
  obtain x where x: "format_si_prefix 0 ''G'' = Inr x" using format_si_G by blast
  have size: "0 < cs_size sample_space" using cs_ready_size [OF sample_space_ready] by (simp add: sample_space_def cs_dims_def space_len_def)
  have task: "task_flop tuned_task = Some 1000" "task_target tuned_task = Some sample_target" "list_all arg_loggable (task_args tuned_task)" by (simp_all add: tuned_task_def task_init_def)
  from grid.tune_exhausts [OF s(2) c(2) _ sample_measure_good _ x good_callbacks_none, of tuned_task 10 "\<lambda>_. []" "()" None] task(1)
  obtain st warned where st: "tune (nat 10) grid_tuner sample_measure [] (\<lambda>_. []) (tuner_init tuned_task s) () 10 None ''G'' = Some (Inr (st, warned))" by auto
  have "storable table_env reread m" if "m \<in> set (ts_history st)" for m
  proof -
    have m: "run_pair sample_space tuned_task sample_measure m" using grid_run_pairs [OF st s(1)] that by blast
    have facts: "mi_target (fst m) = Some sample_target" "mi_task (fst m) = tuned_task" "plain_config (mi_config (fst m))" "error_no (snd m) = 0 \<longrightarrow> mean_costs (snd m) \<noteq> Inl TypeErr"
      using m cs_at_plain [OF sample_space_ready sample_space_plain] task(2) by (auto simp: run_pair_def sample_measure_def mean_costs_def)
    obtain y j where y: "json_record table_env (fst m) (snd m) = Inr y" "json_trip y = Inr j" "\<not> is_old_row j" "decode_json table_env j = Inr (reread m)"
      using json_record_trip [of "fst m" "snd m" sample_target table_env] facts task(3) by (auto simp: reread_def table_env_def sample_env_def Let_def)
    obtain row where "re_dumps table_env y = Inr row" "set row \<subseteq> {CHR ''x''}" "re_loads table_env (row @ []) = Inr j" using table_env_rows [OF m y(1,2), of "[]"] by auto
    then show ?thesis using y by (auto simp: storable_def encode_def row_of_def decode_def)
  qed
  then have rows: "\<forall>m \<in> set (ts_history st). storable table_env reread m" by blast
  show ?thesis using tuned_run_replayed [OF st rows, of plain_keys] s(1) grid_run_nonempty [OF st s(2) c(1) size _ _ sample_measure_good] task(1) by auto
qed

end
