(* ===== verification/GraphNode.thy ===== *)
theory GraphNode
  imports PyObj
begin

text \<open>
  The nodes of the graph that the graph tuners of \<open>autotvm/graph_tuner/\<close> work on, and the tests of \<open>utils/utils.py\<close> on them. A node is what \<open>expr2graph\<close> makes of a Relay expression: its operator, its name, the indices of its inputs, and, once the
  records are read, the costs of its schedule candidates.
\<close>

section \<open>Nodes of the graph\<close>

record gnode =
  gn_op :: "string option"
  gn_name :: "string option"
  gn_inputs :: "nat list"
  gn_costs :: "rat list"

definition LAYOUT_FIXED_OP :: "string list" where
  "LAYOUT_FIXED_OP = [''nn.batch_flatten'', ''transpose'', ''reshape'', ''vision.multibox_prior'',
     ''vision.multibox_transform_loc'', ''where'', ''vision.non_max_suppression'', ''strided_slice'']"

definition is_boundary_node :: "gnode \<Rightarrow> string list \<Rightarrow> bool" where
  "is_boundary_node g input_names \<longleftrightarrow>
     (case gn_op g of None \<Rightarrow> False | Some p \<Rightarrow> p \<in> set LAYOUT_FIXED_OP)
     \<or> (case gn_name g of None \<Rightarrow> False | Some n \<Rightarrow> n \<in> set input_names)"

text \<open>
  \<open>has_multiple_inputs\<close> follows the inputs of nodes that are opted out; only the last such input decides.
  The first argument is Python's recursion limit; the inputs of a node come before it, so one more than its index is enough.
\<close>

fun has_multiple_inputs :: "nat \<Rightarrow> gnode list \<Rightarrow> nat \<Rightarrow> string list \<Rightarrow> string list \<Rightarrow> bool res" where
  "has_multiple_inputs 0 nodes idx input_names opt_out = Inl RecursionErr"
| "has_multiple_inputs (Suc fuel) nodes idx input_names opt_out =
     (if idx \<ge> length nodes then Inl IndexError
      else res_bind (res_foldl (\<lambda>num in_idx.
          if in_idx \<ge> length nodes then Inl IndexError
          else let g = nodes ! in_idx
               in if (case gn_op g of None \<Rightarrow> False | Some p \<Rightarrow> p \<in> set opt_out) then
                    res_bind (res_foldl (\<lambda>_ t. has_multiple_inputs fuel nodes t input_names opt_out) False (gn_inputs g))
                      (\<lambda>increase. Inr (if increase then num + 1 else num))
                  else Inr (if gn_op g \<noteq> None \<or> (case gn_name g of None \<Rightarrow> False | Some n \<Rightarrow> n \<in> set input_names)
                            then num + 1 else num)) (0 :: nat) (gn_inputs (nodes ! idx)))
        (\<lambda>num. Inr (num > 1)))"

definition INVALID_LAYOUT_TIME :: rat where
  "INVALID_LAYOUT_TIME = 10 * 10 ^ 9"

section \<open>Dictionaries and lists\<close>

definition dget :: "('k \<rightharpoonup> 'v) \<Rightarrow> 'k \<Rightarrow> 'v res" where
  "dget m k = (case m k of None \<Rightarrow> Inl KeyError | Some v \<Rightarrow> Inr v)"

definition list_remove :: "'a \<Rightarrow> 'a list \<Rightarrow> 'a list res" where
  "list_remove x xs = (if x \<in> set xs then Inr (remove1 x xs) else Inl ValueError)"

end
