(* ===== verification/Pbqp.thy ===== *)
theory Pbqp
  imports GraphNode
begin

text \<open>
  The graph tuner of \<open>autotvm/graph_tuner/pbqp_tuner.py\<close>, which selects one schedule per node such that the
  execution times and the layout transformations between neighbours cost little in total. It reduces nodes
  of degree one and two exactly, fixes nodes of higher degree greedily, and then decides the reduced nodes in reverse order.

  Dictionaries are maps. A cost matrix is a Python list of lists that is changed in place and that two keys of
  \<open>_layout_transform_interlayer_cost\<close> may share, so the dictionary holds addresses into \<open>pq_heap\<close>. Costs are exact rationals.
  An exception ends the run; the state it leaves is of no use and is dropped.
\<close>

section \<open>State\<close>

type_synonym matrix = "rat list list"

record pq =
  pq_adj :: "nat \<rightharpoonup> nat list"
  pq_rc :: "nat \<rightharpoonup> rat list"
  pq_cost :: "nat \<times> nat \<rightharpoonup> nat"
  pq_heap :: "matrix list"
  pq_degree :: "nat \<rightharpoonup> nat"
  pq_max_degree :: int
  pq_buckets :: "nat list list"
  pq_stack :: "nat list"
  pq_is_optimal :: bool
  pq_record :: "nat \<rightharpoonup> nat"

definition bucket :: "pq \<Rightarrow> nat \<Rightarrow> nat list res" where
  "bucket s d = (if d < length (pq_buckets s) then Inr (pq_buckets s ! d) else Inl IndexError)"

definition layout_cost :: "pq \<Rightarrow> nat \<Rightarrow> nat \<Rightarrow> matrix res" where
  "layout_cost s u v = res_bind (dget (pq_cost s) (u, v)) (\<lambda>a. Inr (pq_heap s ! a))"

section \<open>Setting up\<close>

text \<open>
  \<open>__init__\<close>, given the input and output nodes in the order of their dictionaries. Boundary nodes are taken out of
  the inputs; \<open>remove\<close> raises when a node is not there.
\<close>

definition drop_boundary ::
  "gnode list \<Rightarrow> string list \<Rightarrow> (nat \<times> nat list) list \<Rightarrow> (nat \<times> nat list) list \<Rightarrow> (nat \<times> nat list) list res" where
  "drop_boundary nodes input_names in_nodes out_nodes =
     res_foldl (\<lambda>ins (n, outs).
       if n \<ge> length nodes then Inl IndexError
       else if is_boundary_node (nodes ! n) input_names then
         res_foldl (\<lambda>ins o1.
           res_bind (dget (map_of ins) o1) (\<lambda>xs.
           res_bind (list_remove n xs) (\<lambda>ys. Inr (AList.update o1 ys ins)))) ins outs
       else Inr ins) in_nodes out_nodes"

definition pq_init ::
  "gnode list \<Rightarrow> string list \<Rightarrow> (nat \<times> nat list) list \<Rightarrow> (nat \<times> nat list) list \<Rightarrow>
   (nat \<times> nat \<rightharpoonup> nat) \<Rightarrow> matrix list \<Rightarrow> pq res" where
  "pq_init nodes input_names in_nodes out_nodes cost heap =
     res_bind (drop_boundary nodes input_names in_nodes out_nodes) (\<lambda>ins.
     res_bind (res_map (\<lambda>(n, xs). res_bind (dget (map_of out_nodes) n) (\<lambda>ys. Inr (n, xs @ ys))) ins) (\<lambda>adj.
     res_bind (res_map (\<lambda>(n, xs). if n < length nodes then Inr (n, gn_costs (nodes ! n)) else Inl IndexError) ins) (\<lambda>rc.
       let max_degree = foldl max (- 1) (map (int \<circ> length \<circ> snd) adj);
           order = sort (map fst ins)
       in Inr \<lparr>pq_adj = map_of adj, pq_rc = map_of rc, pq_cost = cost, pq_heap = heap,
               pq_degree = map_of (map (\<lambda>(n, xs). (n, length xs)) adj), pq_max_degree = max_degree,
               pq_buckets = map (\<lambda>d. filter (\<lambda>n. length (the (map_of adj n)) = d) order) [0..<nat (max_degree + 2)],
               pq_stack = [], pq_is_optimal = True, pq_record = Map.empty\<rparr>)))"

section \<open>Changing the graph\<close>

definition reorder_adj_nodes :: "nat \<Rightarrow> pq \<Rightarrow> pq res" where
  "reorder_adj_nodes n s =
     res_bind (dget (pq_adj s) n) (\<lambda>adjs.
       res_foldl (\<lambda>s a.
         res_bind (dget (pq_adj s) a) (\<lambda>xs.
         res_bind (dget (pq_degree s) a) (\<lambda>prev.
           let cur = length xs
           in if prev \<noteq> cur then
                res_bind (bucket s prev) (\<lambda>b.
                res_bind (list_remove a b) (\<lambda>b'.
                  let s1 = s\<lparr>pq_buckets := (pq_buckets s)[prev := b']\<rparr>
                  in res_bind (bucket s1 cur) (\<lambda>c.
                       Inr (s1\<lparr>pq_buckets := (pq_buckets s1)[cur := a # c], pq_degree := (pq_degree s1)(a \<mapsto> cur)\<rparr>))))
              else Inr s))) s adjs)"

definition remove_node :: "nat \<Rightarrow> pq \<Rightarrow> pq res" where
  "remove_node n s =
     res_bind (dget (pq_adj s) n) (\<lambda>adjs.
     res_bind (bucket s (length adjs)) (\<lambda>b.
     res_bind (list_remove n b) (\<lambda>b'.
       res_foldl (\<lambda>s a.
         res_bind (dget (pq_adj s) a) (\<lambda>xs.
         res_bind (list_remove n xs) (\<lambda>ys. Inr (s\<lparr>pq_adj := (pq_adj s)(a \<mapsto> ys)\<rparr>))))
         (s\<lparr>pq_buckets := (pq_buckets s)[length adjs := b']\<rparr>) adjs)))"

text \<open>The transposed matrix, as \<open>_insert_edge\<close> builds it column by column.\<close>

definition reverse_matrix :: "matrix \<Rightarrow> matrix res" where
  "reverse_matrix m =
     (case m of
        [] \<Rightarrow> Inl IndexError
      | row # _ \<Rightarrow>
          if list_all (\<lambda>r. length row \<le> length r) m then Inr (map (\<lambda>i. map (\<lambda>r. r ! i) m) [0..<length row])
          else Inl IndexError)"

definition insert_edge :: "nat \<Rightarrow> nat \<Rightarrow> matrix \<Rightarrow> pq \<Rightarrow> pq res" where
  "insert_edge x y m s =
     res_bind (reverse_matrix m) (\<lambda>rm.
       let a = length (pq_heap s)
       in res_bind (dget (pq_adj s) x) (\<lambda>xs.
          let adj1 = (pq_adj s)(x \<mapsto> xs @ [y])
          in res_bind (dget adj1 y) (\<lambda>ys.
               Inr (s\<lparr>pq_cost := (pq_cost s)((x, y) \<mapsto> a, (y, x) \<mapsto> Suc a), pq_heap := pq_heap s @ [m, rm],
                      pq_adj := adj1(y \<mapsto> ys @ [x])\<rparr>))))"

section \<open>Reductions\<close>

definition backward_insert_node :: "nat \<Rightarrow> pq \<Rightarrow> pq res" where
  "backward_insert_node n s =
     res_bind (dget (pq_adj s) n) (\<lambda>adjs.
       res_foldl (\<lambda>s a. res_bind (dget (pq_adj s) a) (\<lambda>xs. Inr (s\<lparr>pq_adj := (pq_adj s)(a \<mapsto> xs @ [n])\<rparr>))) s adjs)"

text \<open>\<open>xs[i] += ds[i]\<close> for every position of \<open>ds\<close>.\<close>

definition add_all :: "rat list \<Rightarrow> rat list \<Rightarrow> rat list res" where
  "add_all xs ds =
     (if length ds \<le> length xs then Inr (map2 (+) xs ds @ drop (length ds) xs) else Inl IndexError)"

text \<open>The least of \<open>f k\<close> and the time of an invalid layout.\<close>

definition min_cost :: "rat list \<Rightarrow> rat" where
  "min_cost xs = foldl min INVALID_LAYOUT_TIME xs"

definition finish_reduction :: "nat \<Rightarrow> pq \<Rightarrow> pq res" where
  "finish_reduction n s =
     res_bind (remove_node n s) (\<lambda>s1.
     res_bind (reorder_adj_nodes n s1) (\<lambda>s2. Inr (s2\<lparr>pq_stack := pq_stack s2 @ [n]\<rparr>)))"

definition RI_row :: "nat \<Rightarrow> nat \<Rightarrow> (nat \<rightharpoonup> rat list) \<Rightarrow> nat \<times> rat list \<Rightarrow> (nat \<rightharpoonup> rat list) res" where
  "RI_row n adj rc = (\<lambda>(i, row).
     res_bind (dget rc n) (\<lambda>rcn.
     res_bind (if length row \<le> length rcn then Inr (min_cost (map2 (+) row rcn)) else Inl IndexError) (\<lambda>c.
     res_bind (dget rc adj) (\<lambda>rca.
       if i < length rca then Inr (rc(adj \<mapsto> rca[i := rca ! i + c])) else Inl IndexError))))"

definition RI_reduction :: "nat \<Rightarrow> pq \<Rightarrow> pq res" where
  "RI_reduction n s =
     res_bind (res_bind (dget (pq_adj s) n) (\<lambda>xs. py_get xs 0)) (\<lambda>adj.
     res_bind (layout_cost s adj n) (\<lambda>m.
     res_bind (res_foldl (RI_row n adj) (pq_rc s) (enumerate 0 m)) (\<lambda>rc. finish_reduction n (s\<lparr>pq_rc := rc\<rparr>))))"

definition delta_cost :: "rat list \<Rightarrow> rat list \<Rightarrow> rat list \<Rightarrow> rat res" where
  "delta_cost rcn row_x row_y =
     (if length rcn \<le> length row_x \<and> length rcn \<le> length row_y
      then Inr (min_cost (map (\<lambda>k. row_x ! k + row_y ! k + rcn ! k) [0..<length rcn])) else Inl IndexError)"

text \<open>\<open>m[i][j] += d[i][j]\<close> for every position of \<open>d\<close>.\<close>

definition add_matrix :: "matrix \<Rightarrow> matrix \<Rightarrow> matrix res" where
  "add_matrix m d =
     (if length d \<le> length m
      then res_bind (res_map (\<lambda>(row, dr). add_all row dr) (zip m d)) (\<lambda>rows. Inr (rows @ drop (length d) m))
      else Inl IndexError)"

definition RII_reduction :: "nat \<Rightarrow> pq \<Rightarrow> pq res" where
  "RII_reduction n s =
     res_bind (dget (pq_adj s) n) (\<lambda>adjs.
     res_bind (case adjs of [x, y] \<Rightarrow> Inr (x, y) | _ \<Rightarrow> Inl ValueError) (\<lambda>(x, y).
     res_bind (layout_cost s x n) (\<lambda>mx.
     res_bind (layout_cost s y n) (\<lambda>my.
     res_bind (dget (pq_rc s) n) (\<lambda>rcn.
     res_bind (res_map (\<lambda>rx. res_map (delta_cost rcn rx) my) mx) (\<lambda>delta.
     res_bind
       (if x = y then
          res_bind (dget (pq_rc s) x) (\<lambda>rcx.
          res_bind (res_map (\<lambda>i. py_get (delta ! i) (int i)) [0..<length delta]) (\<lambda>diag.
          res_bind (add_all rcx diag) (\<lambda>rcx'. Inr (s\<lparr>pq_rc := (pq_rc s)(x \<mapsto> rcx')\<rparr>))))
        else res_bind (dget (pq_adj s) y) (\<lambda>adj_y.
          if x \<in> set adj_y then
            res_bind (dget (pq_cost s) (x, y)) (\<lambda>a.
            res_bind (add_matrix (pq_heap s ! a) delta) (\<lambda>m1.
            res_bind (dget (pq_cost s) (y, x)) (\<lambda>b.
            res_bind (if delta = [] then Inr [] else reverse_matrix delta) (\<lambda>rdelta.
            res_bind (add_matrix ((pq_heap s)[a := m1] ! b) rdelta) (\<lambda>m2.
              Inr (s\<lparr>pq_heap := (pq_heap s)[a := m1, b := m2]\<rparr>))))))
          else insert_edge x y delta s))
       (finish_reduction n)))))))"

definition adjacent_min :: "pq \<Rightarrow> nat \<Rightarrow> nat \<Rightarrow> nat \<Rightarrow> rat res" where
  "adjacent_min s n i a =
     res_bind (layout_cost s n a) (\<lambda>m.
     res_bind (dget (pq_rc s) a) (\<lambda>rca.
     res_bind (py_get m (int i)) (\<lambda>row.
     res_bind (add_all rca row) (\<lambda>xs. if xs = [] then Inl ValueError else Inr (Min (set xs))))))"

text \<open>The first schedule of least estimated cost below \<open>INVALID_LAYOUT_TIME\<close>; \<open>None\<close> is \<open>record_idx = -1\<close>.\<close>

definition RN_choose :: "nat \<Rightarrow> pq \<Rightarrow> nat option res" where
  "RN_choose n s =
     res_bind (dget (pq_rc s) n) (\<lambda>rcn.
     res_bind (dget (pq_adj s) n) (\<lambda>adjs.
     res_bind (res_foldl (\<lambda>(best, least) i.
         res_bind (res_map (adjacent_min s n i) adjs) (\<lambda>ms.
           let c = rcn ! i + sum_list ms
           in Inr (if c < least then (Some i, c) else (best, least))))
       (None, INVALID_LAYOUT_TIME) [0..<length rcn]) (\<lambda>(best, _). Inr best)))"

definition RN_reduction :: "nat \<Rightarrow> pq \<Rightarrow> pq res" where
  "RN_reduction n s =
     res_bind (RN_choose n s) (\<lambda>best.
       case best of
         None \<Rightarrow> Inl RuntimeError
       | Some i \<Rightarrow>
           res_bind (dget (pq_adj s) n) (\<lambda>adjs.
           res_bind (res_foldl (\<lambda>s a.
               res_bind (layout_cost s n a) (\<lambda>m.
               res_bind (py_get m (int i)) (\<lambda>row.
               res_bind (dget (pq_rc s) a) (\<lambda>rca.
               res_bind (add_all rca row) (\<lambda>rca'. Inr (s\<lparr>pq_rc := (pq_rc s)(a \<mapsto> rca')\<rparr>))))))
             (s\<lparr>pq_record := (pq_record s)(n \<mapsto> i), pq_is_optimal := False\<rparr>) adjs) (finish_reduction n)))"

section \<open>The two passes\<close>

text \<open>One iteration of \<open>_forward\<close>; \<open>None\<close> leaves the loop.\<close>

definition forward_step :: "pq \<Rightarrow> pq option res" where
  "forward_step s =
     res_bind (bucket s 1) (\<lambda>b1.
       case b1 of
         n # _ \<Rightarrow> res_bind (RI_reduction n s) (\<lambda>s'. Inr (Some s'))
       | [] \<Rightarrow>
           if pq_max_degree s \<ge> 2 \<and> pq_buckets s ! 2 \<noteq> [] then
             res_bind (RII_reduction (hd (pq_buckets s ! 2)) s) (\<lambda>s'. Inr (Some s'))
           else if pq_max_degree s \<ge> 3 then
             (case filter (\<lambda>d. pq_buckets s ! d \<noteq> []) (rev [3..<nat (pq_max_degree s + 1)]) of
                [] \<Rightarrow> Inr None
              | d # _ \<Rightarrow> res_bind (RN_reduction (hd (pq_buckets s ! d)) s) (\<lambda>s'. Inr (Some s')))
           else Inr None)"

text \<open>The loop ends because every reduction takes a node out of the buckets.\<close>

definition bucket_total :: "pq \<Rightarrow> nat" where
  "bucket_total s = sum_list (map length (pq_buckets s))"

lemma sum_length_update:
  "i < length bs \<Longrightarrow> sum_list (map length (bs[i := b])) + length (bs ! i) = sum_list (map length bs) + length b"
  by (induction bs arbitrary: i) (auto split: nat.split)

lemma bucket_Inr: "bucket s d = Inr b \<longleftrightarrow> d < length (pq_buckets s) \<and> b = pq_buckets s ! d"
  by (auto simp: bucket_def)

lemma dget_Inr: "dget m k = Inr v \<longleftrightarrow> m k = Some v"
  by (simp add: dget_def split: option.split)

lemma list_remove_Inr: "list_remove x xs = Inr ys \<longleftrightarrow> x \<in> set xs \<and> ys = remove1 x xs"
  by (auto simp: list_remove_def)

lemmas pq_Inr = res_bind_eq_Inr bucket_Inr dget_Inr list_remove_Inr

lemma remove_total: "x \<in> set b \<Longrightarrow> Suc (length (remove1 x b)) = length b"
  using length_pos_if_in_set [of x b] by (simp add: length_remove1)

lemma reorder_total: "reorder_adj_nodes n s = Inr s' \<Longrightarrow> bucket_total s' = bucket_total s"
proof -
  assume "reorder_adj_nodes n s = Inr s'"
  then obtain adjs where run: "res_foldl (\<lambda>s a.
         res_bind (dget (pq_adj s) a) (\<lambda>xs.
         res_bind (dget (pq_degree s) a) (\<lambda>prev.
           let cur = length xs
           in if prev \<noteq> cur then
                res_bind (bucket s prev) (\<lambda>b.
                res_bind (list_remove a b) (\<lambda>b'.
                  let s1 = s\<lparr>pq_buckets := (pq_buckets s)[prev := b']\<rparr>
                  in res_bind (bucket s1 cur) (\<lambda>c.
                       Inr (s1\<lparr>pq_buckets := (pq_buckets s1)[cur := a # c], pq_degree := (pq_degree s1)(a \<mapsto> cur)\<rparr>))))
              else Inr s))) s adjs = Inr s'" by (auto simp: reorder_adj_nodes_def pq_Inr)
  have step: "sum_list (map length (bs[p := remove1 a (bs ! p), c := a # bs ! c])) = sum_list (map length bs)"
    if "p < length bs" "c < length bs" "a \<in> set (bs ! p)" "p \<noteq> c" for bs p c and a :: nat
    using sum_length_update [of p bs "remove1 a (bs ! p)"] sum_length_update [of c "bs[p := remove1 a (bs ! p)]" "a # bs ! c"]
      that remove_total [OF that(3)] by simp
  show ?thesis
    using run by (rule res_foldl_invariant [where P = "\<lambda>t. bucket_total t = bucket_total s"])
      (auto simp: bucket_total_def pq_Inr Let_def step split: if_splits)
qed

lemma finish_total: "finish_reduction n s = Inr s' \<Longrightarrow> bucket_total s' < bucket_total s"
proof -
  assume "finish_reduction n s = Inr s'"
  then obtain s1 s2 where s: "remove_node n s = Inr s1" "reorder_adj_nodes n s1 = Inr s2" "s' = s2\<lparr>pq_stack := pq_stack s2 @ [n]\<rparr>"
    by (auto simp: finish_reduction_def pq_Inr)
  obtain adjs where adjs: "length adjs < length (pq_buckets s)" "n \<in> set (pq_buckets s ! length adjs)"
    and run: "res_foldl (\<lambda>s a. res_bind (dget (pq_adj s) a) (\<lambda>xs. res_bind (list_remove n xs) (\<lambda>ys. Inr (s\<lparr>pq_adj := (pq_adj s)(a \<mapsto> ys)\<rparr>))))
         (s\<lparr>pq_buckets := (pq_buckets s)[length adjs := remove1 n (pq_buckets s ! length adjs)]\<rparr>) adjs = Inr s1"
    using s(1) by (auto simp: remove_node_def pq_Inr)
  have "pq_buckets s1 = (pq_buckets s)[length adjs := remove1 n (pq_buckets s ! length adjs)]"
    using run by (rule res_foldl_invariant) (auto simp: pq_Inr)
  then have "Suc (bucket_total s1) = bucket_total s"
    using sum_length_update [OF adjs(1), of "remove1 n (pq_buckets s ! length adjs)"] remove_total [OF adjs(2)]
    by (simp add: bucket_total_def)
  then show ?thesis using reorder_total [OF s(2)] s(3) by (simp add: bucket_total_def)
qed

lemma RI_total: "RI_reduction n s = Inr s' \<Longrightarrow> bucket_total s' < bucket_total s"
  unfolding RI_reduction_def by (auto simp: pq_Inr bucket_total_def dest!: finish_total)

lemma RII_total: "RII_reduction n s = Inr s' \<Longrightarrow> bucket_total s' < bucket_total s"
proof -
  assume "RII_reduction n s = Inr s'"
  then obtain s1 where s1: "finish_reduction n s1 = Inr s'" "pq_buckets s1 = pq_buckets s"
    by (auto simp: RII_reduction_def pq_Inr insert_edge_def Let_def split: if_splits)
  then show ?thesis using finish_total [OF s1(1)] by (simp add: bucket_total_def)
qed

lemma RN_total: "RN_reduction n s = Inr s' \<Longrightarrow> bucket_total s' < bucket_total s"
proof -
  assume "RN_reduction n s = Inr s'"
  then obtain i adjs s1 where s1: "finish_reduction n s1 = Inr s'"
    "res_foldl (\<lambda>s a.
               res_bind (layout_cost s n a) (\<lambda>m.
               res_bind (py_get m (int i)) (\<lambda>row.
               res_bind (dget (pq_rc s) a) (\<lambda>rca.
               res_bind (add_all rca row) (\<lambda>rca'. Inr (s\<lparr>pq_rc := (pq_rc s)(a \<mapsto> rca')\<rparr>))))))
             (s\<lparr>pq_record := (pq_record s)(n \<mapsto> i), pq_is_optimal := False\<rparr>) adjs = Inr s1"
    by (auto simp: RN_reduction_def pq_Inr split: option.splits)
  from s1(2) have "pq_buckets s1 = pq_buckets s" by (rule res_foldl_invariant) (auto simp: pq_Inr)
  then show ?thesis using finish_total [OF s1(1)] by (simp add: bucket_total_def)
qed

lemma forward_step_total: "forward_step s = Inr (Some s') \<Longrightarrow> bucket_total s' < bucket_total s"
  by (auto simp: forward_step_def pq_Inr split: list.splits if_splits dest: RI_total RII_total RN_total)

function forward :: "pq \<Rightarrow> pq res" where
  "forward s = res_bind (forward_step s) (\<lambda>next. case next of None \<Rightarrow> Inr s | Some s' \<Rightarrow> forward s')"
  by pat_completeness auto
termination
  by (relation "measure bucket_total") (auto dest: forward_step_total)

declare forward.simps [simp del]

text \<open>\<open>record_costs.index(min(record_costs))\<close>.\<close>

definition argmin :: "rat list \<Rightarrow> nat res" where
  "argmin xs = (if xs = [] then Inl ValueError else py_index xs (Min (set xs)))"

definition decide :: "nat \<Rightarrow> pq \<Rightarrow> nat res" where
  "decide n s =
     res_bind (dget (pq_rc s) n) (\<lambda>rcn.
     res_bind (dget (pq_adj s) n) (\<lambda>adjs.
     res_bind (res_foldl (\<lambda>costs a.
         res_bind (dget (pq_record s) a) (\<lambda>j.
         res_map (\<lambda>i.
           res_bind (layout_cost s n a) (\<lambda>m.
           res_bind (py_get m (int i)) (\<lambda>row. res_bind (py_get row (int j)) (\<lambda>c. Inr (costs ! i + c))))) [0..<length costs]))
       rcn adjs) argmin))"

definition backward :: "pq \<Rightarrow> pq res" where
  "backward s =
     res_bind (bucket s 0) (\<lambda>b0.
     res_bind (res_foldl (\<lambda>s n.
         res_bind (res_bind (dget (pq_rc s) n) argmin) (\<lambda>i. Inr (s\<lparr>pq_record := (pq_record s)(n \<mapsto> i)\<rparr>))) s b0) (\<lambda>s1.
       res_foldl (\<lambda>s n.
         res_bind (backward_insert_node n s) (\<lambda>s'.
           if pq_record s' n = None
           then res_bind (decide n s') (\<lambda>i. Inr (s'\<lparr>pq_record := (pq_record s')(n \<mapsto> i)\<rparr>))
           else Inr s')) s1 (rev (pq_stack s1))))"

text \<open>
  \<open>run\<close> first gives every node with several inputs the candidates of its first input that is not a boundary node: changing
  them costs the time of an invalid layout, and the other inputs pay what a transformation to that first input costs, \<^emph>\<open>with the matrix
  that is already there\<close>. Then it adds the transposed matrices.
\<close>

definition diagonal :: "nat \<Rightarrow> matrix" where
  "diagonal n = map (\<lambda>j. map (\<lambda>k. if j = k then 0 else INVALID_LAYOUT_TIME) [0..<n]) [0..<n]"

fun after_first :: "('a \<Rightarrow> bool) \<Rightarrow> 'a list \<Rightarrow> ('a \<times> 'a list) option" where
  "after_first P [] = None"
| "after_first P (x # xs) = (if P x then Some (x, xs) else after_first P xs)"

definition virtual_costs ::
  "(nat \<Rightarrow> bool) \<Rightarrow> (nat \<Rightarrow> bool) \<Rightarrow> (nat \<Rightarrow> nat) \<Rightarrow> (nat \<times> nat list) list \<Rightarrow> pq \<Rightarrow>
   ((nat \<times> nat) \<times> nat) list res \<times> matrix list" where
  "virtual_costs multi boundary num_records in_nodes s =
     foldl (\<lambda>(temp, heap) (key, val).
       if multi key then
         (case after_first (\<lambda>i. \<not> boundary i) val of
            None \<Rightarrow> (temp, heap)
          | Some (t, rest) \<Rightarrow>
              (res_bind temp (\<lambda>tm.
                 res_foldl (\<lambda>tm i.
                   if boundary i then Inr tm
                   else res_bind (dget (pq_cost s) (i, t)) (\<lambda>a. Inr (AList.update (i, key) a tm)))
                   (AList.update (t, key) (length heap) tm) rest),
               heap @ [diagonal (num_records t)]))
       else (temp, heap)) (Inr [], pq_heap s) in_nodes"

text \<open>The transposed matrix, as \<open>run\<close> builds it row by row; on rows of different lengths it differs from \<open>_insert_edge\<close>.\<close>

definition reverse_rows :: "matrix \<Rightarrow> matrix res" where
  "reverse_rows m =
     (case m of
        [] \<Rightarrow> Inl IndexError
      | row # _ \<Rightarrow>
          if list_all (\<lambda>r. length r \<le> length row) m
          then Inr (map (\<lambda>j. map (\<lambda>r. r ! j) (filter (\<lambda>r. j < length r) m)) [0..<length row])
          else Inl IndexError)"

definition add_reverses :: "((nat \<times> nat) \<times> nat) list \<Rightarrow> matrix list \<Rightarrow> (((nat \<times> nat) \<times> nat) list \<times> matrix list) res" where
  "add_reverses cost heap =
     res_bind (res_map (\<lambda>((u, v), a). reverse_rows (heap ! a)) cost) (\<lambda>rms.
       Inr (foldl (\<lambda>c (i, (u, v), a). AList.update (v, u) (length heap + i) c) cost (enumerate 0 cost), heap @ rms))"

definition pq_prepare ::
  "(nat \<Rightarrow> bool) \<Rightarrow> (nat \<Rightarrow> bool) \<Rightarrow> (nat \<Rightarrow> nat) \<Rightarrow> (nat \<times> nat list) list \<Rightarrow> ((nat \<times> nat) \<times> nat) list \<Rightarrow> pq \<Rightarrow> pq res" where
  "pq_prepare multi boundary num_records in_nodes cost s =
     (case virtual_costs multi boundary num_records in_nodes (s\<lparr>pq_cost := map_of cost\<rparr>) of
        (temp, heap) \<Rightarrow>
          res_bind temp (\<lambda>tm.
          res_bind (add_reverses (foldl (\<lambda>c (k, a). AList.update k a c) cost tm) heap) (\<lambda>(cost', heap').
            Inr (s\<lparr>pq_cost := map_of cost', pq_heap := heap'\<rparr>))))"

definition pq_solve :: "pq \<Rightarrow> pq res" where
  "pq_solve s = res_bind (forward s) backward"

definition pq_run ::
  "(nat \<Rightarrow> bool) \<Rightarrow> (nat \<Rightarrow> bool) \<Rightarrow> (nat \<Rightarrow> nat) \<Rightarrow> (nat \<times> nat list) list \<Rightarrow> ((nat \<times> nat) \<times> nat) list \<Rightarrow> pq \<Rightarrow> pq res" where
  "pq_run multi boundary num_records in_nodes cost s = res_bind (pq_prepare multi boundary num_records in_nodes cost s) pq_solve"

end
