(* ===== verification/PbqpGraph.thy ===== *)
theory PbqpGraph
  imports Pbqp
begin

text \<open>
  Two layers below the correctness of the PBQP tuner: the cost of an assignment on an abstract graph and what eliminating a node
  does to it, and the bookkeeping of adjacency lists and buckets, under which taking a node out never fails.
\<close>

section \<open>Assignments on a graph\<close>

text \<open>Nodes \<open>V\<close> with neighbours \<open>N\<close>, node costs \<open>r\<close> and edge costs \<open>m\<close>; every edge is seen from both its ends.\<close>

definition gcost :: "nat set \<Rightarrow> (nat \<Rightarrow> nat set) \<Rightarrow> (nat \<Rightarrow> nat \<Rightarrow> rat) \<Rightarrow> (nat \<Rightarrow> nat \<Rightarrow> nat \<Rightarrow> nat \<Rightarrow> rat) \<Rightarrow> (nat \<Rightarrow> nat) \<Rightarrow> rat" where
  "gcost V N r m a = (\<Sum>u\<in>V. r u (a u)) + (\<Sum>u\<in>V. \<Sum>v\<in>N u. m u v (a u) (a v)) / 2"

definition graph_sym :: "nat set \<Rightarrow> (nat \<Rightarrow> nat set) \<Rightarrow> bool" where
  "graph_sym V N \<longleftrightarrow> finite V \<and> (\<forall>u\<in>V. N u \<subseteq> V - {u} \<and> (\<forall>v\<in>N u. u \<in> N v))"

lemma gcost_remove:
  assumes "graph_sym V N" and "n \<in> V" and sym: "\<And>v. v \<in> N n \<Longrightarrow> m v n (a v) (a n) = m n v (a n) (a v)"
  shows "gcost V N r m a = gcost (V - {n}) (\<lambda>u. N u - {n}) r m a + (r n (a n) + (\<Sum>v\<in>N n. m n v (a n) (a v)))"
proof -
  have fin: "finite V" "finite (N u)" if "u \<in> V" for u
    using assms(1) that by (auto simp: graph_sym_def intro: finite_subset)
  have finV: "finite V" using assms(1) by (simp add: graph_sym_def)
  have sub: "N n \<subseteq> V - {n}" using assms(1,2) by (auto simp: graph_sym_def)
  have N: "(\<Sum>v\<in>N u. m u v (a u) (a v)) = (\<Sum>v\<in>N u - {n}. m u v (a u) (a v)) + (if u \<in> N n then m n u (a n) (a u) else 0)"
    if u: "u \<in> V - {n}" for u
  proof (cases "u \<in> N n")
    case True
    then have "n \<in> N u" using assms(1,2) by (auto simp: graph_sym_def)
    then show ?thesis using True sym [OF True] fin(2) u by (simp add: sum.remove [of "N u" n])
  next
    case False
    then have "n \<notin> N u" using assms(1) u by (auto simp: graph_sym_def)
    then show ?thesis using False by simp
  qed
  have "(\<Sum>u\<in>V - {n}. if u \<in> N n then m n u (a n) (a u) else 0) = (\<Sum>u\<in>N n. m n u (a n) (a u))"
    using sub finV by (simp add: sum.If_cases Int_absorb1 inf.absorb2)
  then have "(\<Sum>u\<in>V - {n}. \<Sum>v\<in>N u. m u v (a u) (a v))
      = (\<Sum>u\<in>V - {n}. \<Sum>v\<in>N u - {n}. m u v (a u) (a v)) + (\<Sum>u\<in>N n. m n u (a n) (a u))"
    by (simp add: N sum.distrib)
  then show ?thesis using finV assms(2) unfolding gcost_def by (simp add: sum.remove [of V n] algebra_simps)
qed

lemma gcost_nonneg:
  assumes "\<And>u. u \<in> V \<Longrightarrow> 0 \<le> r u (a u)" and "\<And>u v. u \<in> V \<Longrightarrow> v \<in> N u \<Longrightarrow> 0 \<le> m u v (a u) (a v)"
  shows "0 \<le> gcost V N r m a"
  unfolding gcost_def using assms by (intro add_nonneg_nonneg divide_nonneg_pos sum_nonneg) auto

lemma gcost_cong:
  assumes "\<And>u. u \<in> V \<Longrightarrow> r u (a u) = r' u (b u)" and "\<And>u. u \<in> V \<Longrightarrow> N u = N' u"
    and "\<And>u v. u \<in> V \<Longrightarrow> v \<in> N u \<Longrightarrow> m u v (a u) (a v) = m' u v (b u) (b v)"
  shows "gcost V N r m a = gcost V N' r' m' b"
  unfolding gcost_def using assms by (intro arg_cong2 [where f = "(+)"] arg_cong2 [where f = "(/)"] sum.cong) auto

text \<open>Adding to one node, and adding an edge or to the edge between two nodes.\<close>

lemma gcost_add_node:
  assumes "finite V" and "x \<in> V" and "\<And>u. u \<in> V \<Longrightarrow> r' u (a u) = r u (a u) + (if u = x then d else 0)"
  shows "gcost V N r' m a = gcost V N r m a + d"
proof -
  have "(\<Sum>u\<in>V. r' u (a u)) = (\<Sum>u\<in>V. r u (a u)) + d"
    using assms by (simp add: sum.distrib)
  then show ?thesis by (simp add: gcost_def)
qed

lemma gcost_add_edge:
  assumes "finite V" and "x \<in> V" "y \<in> V" "x \<noteq> y" and fin: "\<And>u. u \<in> V \<Longrightarrow> finite (N u)"
    and N': "\<And>u. N' u = N u \<union> (if u = x then {y} else {}) \<union> (if u = y then {x} else {})"
    and m': "\<And>u v. u \<in> V \<Longrightarrow> v \<in> N' u \<Longrightarrow>
      m' u v (a u) (a v) = (if v \<in> N u then m u v (a u) (a v) else 0) + (if {u, v} = {x, y} then d else 0)"
  shows "gcost V N' r m' a = gcost V N r m a + d"
proof -
  have "(\<Sum>v\<in>N' u. m' u v (a u) (a v)) = (\<Sum>v\<in>N u. m u v (a u) (a v)) + (if u = x \<or> u = y then d else 0)" if u: "u \<in> V" for u
  proof -
    have finN': "finite (N' u)" using fin [OF u] N' by simp
    have "(\<Sum>v\<in>N' u. m' u v (a u) (a v))
        = (\<Sum>v\<in>N' u. if v \<in> N u then m u v (a u) (a v) else 0) + (\<Sum>v\<in>N' u. if {u, v} = {x, y} then d else 0)"
      using m' [OF u] by (simp add: sum.distrib)
    also have "(\<Sum>v\<in>N' u. if v \<in> N u then m u v (a u) (a v) else 0) = (\<Sum>v\<in>N u. m u v (a u) (a v))"
    proof -
      have "N' u \<inter> {v. v \<in> N u} = N u" using N' by auto
      then show ?thesis using finN' by (simp add: sum.If_cases)
    qed
    also have "(\<Sum>v\<in>N' u. if {u, v} = {x, y} then d else 0) = (if u = x \<or> u = y then d else 0)"
    proof -
      consider "u = x" | "u = y" | "u \<noteq> x" "u \<noteq> y" by blast
      then show ?thesis
      proof cases
        case 1
        then have "(\<Sum>v\<in>N' u. if {u, v} = {x, y} then d else 0) = (\<Sum>v\<in>N' u. if v = y then d else 0)"
          using assms(4) by (intro sum.cong) (auto simp: doubleton_eq_iff)
        then show ?thesis using 1 finN' N' by simp
      next
        case 2
        then have "(\<Sum>v\<in>N' u. if {u, v} = {x, y} then d else 0) = (\<Sum>v\<in>N' u. if v = x then d else 0)"
          using assms(4) by (intro sum.cong) (auto simp: doubleton_eq_iff)
        then show ?thesis using 2 finN' N' assms(4) by simp
      next
        case 3
        then show ?thesis by (auto simp: doubleton_eq_iff)
      qed
    qed
    finally show ?thesis .
  qed
  then have "(\<Sum>u\<in>V. \<Sum>v\<in>N' u. m' u v (a u) (a v)) = (\<Sum>u\<in>V. \<Sum>v\<in>N u. m u v (a u) (a v)) + (\<Sum>u\<in>V. if u = x \<or> u = y then d else 0)"
    by (simp add: sum.distrib)
  also have "(\<Sum>u\<in>V. if u = x \<or> u = y then d else 0) = 2 * d"
  proof -
    have "V \<inter> {u. u = x \<or> u = y} = {x, y}" using assms(2,3) by auto
    then have "(\<Sum>u\<in>V. if u = x \<or> u = y then d else 0) = (\<Sum>u\<in>{x, y}. d)" using assms(1) by (simp add: sum.If_cases)
    then show ?thesis using assms(4) by simp
  qed
  finally show ?thesis by (simp add: gcost_def)
qed

section \<open>Eliminating a node\<close>

text \<open>
  A node \<open>n\<close> with \<open>k\<close> choices is eliminated: the cost of the rest is what is left plus the best choice for \<open>n\<close>, cut off at
  the time of an invalid layout. A least assignment of the rest, extended by the best choice, is a least assignment, as soon as
  some assignment costs less than the cut.
\<close>

lemma eliminate_lower:
  fixes rest :: "(nat \<Rightarrow> nat) \<Rightarrow> rat" and cap :: rat
  assumes "cost b = rest b + part b (b n)" and "b n < k" and "cost' b = rest b + min cap (Min (part b ` {..<k}))"
  shows "cost' b \<le> cost b"
proof -
  have "Min (part b ` {..<k}) \<le> part b (b n)" using assms(2) by (intro Min_le) auto
  then have "min cap (Min (part b ` {..<k})) \<le> part b (b n)" by (rule min.coboundedI2)
  then show ?thesis using assms by (simp del: min_le_iff_disj Min_le_iff)
qed

lemma eliminate_optimal:
  fixes rest :: "(nat \<Rightarrow> nat) \<Rightarrow> rat" and cap :: rat
  assumes full: "\<And>b. ok b \<Longrightarrow> cost b = rest b + part b (b n)" and valid: "\<And>b. ok b \<Longrightarrow> ok' b \<and> b n < k"
    and part: "\<And>b i. part (b(n := i)) = part b" "\<And>b i. rest (b(n := i)) = rest b"
    and reduced: "\<And>b. ok' b \<Longrightarrow> cost' b = rest b + min cap (Min (part b ` {..<k}))" and nonneg: "\<And>b. ok' b \<Longrightarrow> 0 \<le> rest b"
    and least: "ok' a" "\<And>b. ok' b \<Longrightarrow> cost' a \<le> cost' b"
    and below: "ok e" "cost e < cap" and choice: "part a i = Min (part a ` {..<k})" and ext: "ok (a(n := i))" and b: "ok b"
  shows "cost (a(n := i)) \<le> cost b"
proof -
  have lower: "cost' b \<le> cost b" if "ok b" for b
    using eliminate_lower [of cost b rest part n k cost' cap] full [OF that] reduced [of b] valid [OF that] by blast
  then have "cost' a < cap" using least(2) valid [OF below(1)] lower [OF below(1)] below(2) by fastforce
  then have "Min (part a ` {..<k}) < cap" using reduced [OF least(1)] nonneg [OF least(1)] by (auto simp: min_def split: if_splits)
  then have "cost (a(n := i)) = cost' a" using full [OF ext] reduced [OF least(1)] choice part by simp
  then show ?thesis using least(2) valid [OF b] lower [OF b] by fastforce
qed

section \<open>Adjacency and buckets\<close>

abbreviation nb :: "pq \<Rightarrow> nat \<Rightarrow> nat list" where
  "nb s u \<equiv> the (pq_adj s u)"

definition adj_ok :: "pq \<Rightarrow> nat set \<Rightarrow> bool" where
  "adj_ok s V \<longleftrightarrow> finite V \<and> (\<forall>u\<in>V. pq_adj s u \<noteq> None \<and> distinct (nb s u) \<and> set (nb s u) \<subseteq> V - {u} \<and> (\<forall>v\<in>set (nb s u). u \<in> set (nb s v)))"

text \<open>Every node is in the bucket of its recorded degree, once and nowhere else.\<close>

definition bk_ok :: "pq \<Rightarrow> nat set \<Rightarrow> bool" where
  "bk_ok s V \<longleftrightarrow> (\<forall>u\<in>V. \<exists>d < length (pq_buckets s). pq_degree s u = Some d \<and> u \<in> set (pq_buckets s ! d))
     \<and> (\<forall>d < length (pq_buckets s). distinct (pq_buckets s ! d) \<and> (\<forall>u\<in>set (pq_buckets s ! d). u \<in> V \<and> pq_degree s u = Some d))"

text \<open>The recorded degrees are the degrees, and the buckets reach up to the largest.\<close>

definition deg_ok :: "pq \<Rightarrow> nat set \<Rightarrow> bool" where
  "deg_ok s V \<longleftrightarrow> bk_ok s V \<and> int (length (pq_buckets s)) = pq_max_degree s + 2
     \<and> (\<forall>u\<in>V. pq_degree s u = Some (length (nb s u)) \<and> int (length (nb s u)) \<le> pq_max_degree s)"

lemma adj_okD:
  assumes "adj_ok s V" and "u \<in> V"
  shows "pq_adj s u = Some (nb s u)" "distinct (nb s u)" "set (nb s u) \<subseteq> V" "u \<notin> set (nb s u)" "\<And>v. v \<in> set (nb s u) \<Longrightarrow> u \<in> set (nb s v)"
  using assms unfolding adj_ok_def by auto

lemma bk_ok_cong: "bk_ok s V \<Longrightarrow> pq_buckets t = pq_buckets s \<Longrightarrow> pq_degree t = pq_degree s \<Longrightarrow> bk_ok t V"
  by (simp add: bk_ok_def)

lemma adj_ok_cong: "adj_ok s V \<Longrightarrow> pq_adj t = pq_adj s \<Longrightarrow> adj_ok t V"
  by (simp add: adj_ok_def)

lemma deg_ok_cong:
  "deg_ok s V \<Longrightarrow> pq_adj t = pq_adj s \<Longrightarrow> pq_buckets t = pq_buckets s \<Longrightarrow> pq_degree t = pq_degree s \<Longrightarrow>
   pq_max_degree t = pq_max_degree s \<Longrightarrow> deg_ok t V"
  using bk_ok_cong [of s V t] by (simp add: deg_ok_def)

lemma dget_adj: "adj_ok s V \<Longrightarrow> u \<in> V \<Longrightarrow> dget (pq_adj s) u = Inr (nb s u)"
  by (auto simp: adj_ok_def dget_def)

lemma graph_sym_adj: "adj_ok s V \<Longrightarrow> graph_sym V (\<lambda>u. set (nb s u))"
  unfolding adj_ok_def graph_sym_def by auto

text \<open>The loop of \<open>_remove_node\<close> over the neighbours.\<close>

definition remove_one :: "nat \<Rightarrow> pq \<Rightarrow> nat \<Rightarrow> pq res" where
  "remove_one n s a =
     res_bind (dget (pq_adj s) a) (\<lambda>xs. res_bind (list_remove n xs) (\<lambda>ys. Inr (s\<lparr>pq_adj := (pq_adj s)(a \<mapsto> ys)\<rparr>)))"

lemma remove_loop:
  assumes "distinct as" and "\<And>a. a \<in> set as \<Longrightarrow> \<exists>xs. pq_adj s a = Some xs \<and> n \<in> set xs"
  shows "res_foldl (remove_one n) s as = Inr (s\<lparr>pq_adj := (\<lambda>u. if u \<in> set as then Some (remove1 n (nb s u)) else pq_adj s u)\<rparr>)"
  using assms
proof (induction as arbitrary: s)
  case (Cons a as)
  obtain xs where xs: "pq_adj s a = Some xs" "n \<in> set xs" using Cons.prems(2) by auto
  let ?s = "s\<lparr>pq_adj := (pq_adj s)(a \<mapsto> remove1 n xs)\<rparr>"
  have step: "remove_one n s a = Inr ?s" using xs by (simp add: remove_one_def dget_def list_remove_def)
  have "\<exists>ys. pq_adj ?s b = Some ys \<and> n \<in> set ys" if "b \<in> set as" for b
    using Cons.prems that by auto
  then have IH: "res_foldl (remove_one n) ?s as
      = Inr (?s\<lparr>pq_adj := (\<lambda>u. if u \<in> set as then Some (remove1 n (nb ?s u)) else pq_adj ?s u)\<rparr>)"
    using Cons.IH [of ?s] Cons.prems(1) by simp
  have "(\<lambda>u. if u \<in> set as then Some (remove1 n (nb ?s u)) else pq_adj ?s u)
      = (\<lambda>u. if u \<in> set (a # as) then Some (remove1 n (nb s u)) else pq_adj s u)"
    using xs(1) Cons.prems(1) by (auto simp: fun_eq_iff)
  then show ?case using step IH by simp
qed simp

lemma remove_eq: "remove_node n s =
    res_bind (dget (pq_adj s) n) (\<lambda>adjs.
    res_bind (bucket s (length adjs)) (\<lambda>b.
    res_bind (list_remove n b) (\<lambda>b'. res_foldl (remove_one n) (s\<lparr>pq_buckets := (pq_buckets s)[length adjs := b']\<rparr>) adjs)))"
  by (simp add: remove_node_def remove_one_def [abs_def])

lemma nth_update_distinct:
  "distinct (bs ! i) \<Longrightarrow> i < length bs \<Longrightarrow> u \<in> set ((bs[i := remove1 x (bs ! i)]) ! d) \<longleftrightarrow> u \<in> set (bs ! d) \<and> \<not> (d = i \<and> u = x)"
  by (cases "d = i") auto

lemma remove_node_ok:
  assumes adj: "adj_ok s V" and bk: "bk_ok s V" and n: "n \<in> V" and deg: "pq_degree s n = Some (length (nb s n))"
  shows "\<exists>bs. remove_node n s = Inr (s\<lparr>pq_buckets := bs, pq_adj := (\<lambda>u. if u \<in> set (nb s n) then Some (remove1 n (nb s u)) else pq_adj s u)\<rparr>)
    \<and> length bs = length (pq_buckets s) \<and> bk_ok (s\<lparr>pq_buckets := bs\<rparr>) (V - {n})"
proof -
  let ?d = "length (nb s n)"
  let ?bs = "(pq_buckets s)[?d := remove1 n (pq_buckets s ! ?d)]"
  have b: "?d < length (pq_buckets s)" "n \<in> set (pq_buckets s ! ?d)" "distinct (pq_buckets s ! ?d)"
    using bk n deg by (fastforce simp: bk_ok_def)+
  have "\<exists>xs. pq_adj s a = Some xs \<and> n \<in> set xs" if "a \<in> set (nb s n)" for a
  proof -
    have "a \<in> V" "n \<in> set (nb s a)" using adj_okD(3,5) [OF adj n] that by auto
    then show ?thesis using adj_okD(1) [OF adj] by blast
  qed
  then have "remove_node n s = Inr (s\<lparr>pq_buckets := ?bs, pq_adj := (\<lambda>u. if u \<in> set (nb s n) then Some (remove1 n (nb s u)) else pq_adj s u)\<rparr>)"
    using adj_okD(2) [OF adj n] b(1,2) remove_loop [of "nb s n" "s\<lparr>pq_buckets := ?bs\<rparr>" n]
    by (simp add: remove_eq dget_adj [OF adj n] bucket_def list_remove_def cong: if_cong)
  moreover have "bk_ok (s\<lparr>pq_buckets := ?bs\<rparr>) (V - {n})"
  proof -
    have mem: "u \<in> set (?bs ! d) \<longleftrightarrow> u \<in> set (pq_buckets s ! d) \<and> \<not> (d = ?d \<and> u = n)" for u d
      using nth_update_distinct [OF b(3,1)] .
    have "distinct (?bs ! d)" if "d < length (pq_buckets s)" for d
      using bk that b(3) by (cases "d = ?d") (auto simp: bk_ok_def)
    moreover have "\<exists>d < length (pq_buckets s). pq_degree s u = Some d \<and> u \<in> set (?bs ! d)" if "u \<in> V - {n}" for u
      using bk that unfolding bk_ok_def mem by auto
    moreover have "u \<in> V - {n} \<and> pq_degree s u = Some d" if "d < length (pq_buckets s)" "u \<in> set (?bs ! d)" for u d
      using bk that deg unfolding bk_ok_def mem by fastforce
    ultimately show ?thesis by (simp add: bk_ok_def)
  qed
  ultimately show ?thesis by (intro exI [of _ ?bs]) simp
qed

text \<open>The loop of \<open>_reorder_adj_nodes\<close> brings the recorded degrees up to date.\<close>

definition reorder_one :: "pq \<Rightarrow> nat \<Rightarrow> pq res" where
  "reorder_one s a =
     res_bind (dget (pq_adj s) a) (\<lambda>xs.
     res_bind (dget (pq_degree s) a) (\<lambda>prev.
       let cur = length xs
       in if prev \<noteq> cur then
            res_bind (bucket s prev) (\<lambda>b.
            res_bind (list_remove a b) (\<lambda>b'.
              let s1 = s\<lparr>pq_buckets := (pq_buckets s)[prev := b']\<rparr>
              in res_bind (bucket s1 cur) (\<lambda>c.
                   Inr (s1\<lparr>pq_buckets := (pq_buckets s1)[cur := a # c], pq_degree := (pq_degree s1)(a \<mapsto> cur)\<rparr>))))
          else Inr s))"

lemma reorder_one_ok:
  assumes bk: "bk_ok s V" and a: "a \<in> V" "pq_adj s a = Some xs" "length xs < length (pq_buckets s)"
  shows "\<exists>bs. reorder_one s a = Inr (s\<lparr>pq_buckets := bs, pq_degree := (pq_degree s)(a \<mapsto> length xs)\<rparr>)
    \<and> length bs = length (pq_buckets s) \<and> bk_ok (s\<lparr>pq_buckets := bs, pq_degree := (pq_degree s)(a \<mapsto> length xs)\<rparr>) V"
proof -
  obtain p where p: "p < length (pq_buckets s)" "pq_degree s a = Some p" "a \<in> set (pq_buckets s ! p)"
    using bk a(1) by (auto simp: bk_ok_def)
  let ?c = "length xs"
  show ?thesis
  proof (cases "p = ?c")
    case True
    have same: "(pq_degree s)(a \<mapsto> length xs) = pq_degree s" using True p(2) by auto
    have "reorder_one s a = Inr s" using True p(2) a(2) by (simp add: reorder_one_def dget_def)
    then show ?thesis unfolding same using bk by (intro exI [of _ "pq_buckets s"]) simp
  next
    case False
    let ?bs = "(pq_buckets s)[p := remove1 a (pq_buckets s ! p), ?c := a # pq_buckets s ! ?c]"
    have dis: "distinct (pq_buckets s ! d)" and mem: "\<And>u. u \<in> set (pq_buckets s ! d) \<Longrightarrow> u \<in> V \<and> pq_degree s u = Some d"
      if "d < length (pq_buckets s)" for d
      using bk that by (auto simp: bk_ok_def)
    have notin: "a \<notin> set (pq_buckets s ! d)" if "d < length (pq_buckets s)" "d \<noteq> p" for d
      using mem [OF that(1), of a] p(2) that(2) by auto
    have run: "reorder_one s a = Inr (s\<lparr>pq_buckets := ?bs, pq_degree := (pq_degree s)(a \<mapsto> ?c)\<rparr>)"
      using False p a by (simp add: reorder_one_def dget_def bucket_def list_remove_def Let_def)
    have nth: "?bs ! d = (if d = ?c then a # pq_buckets s ! ?c else if d = p then remove1 a (pq_buckets s ! p) else pq_buckets s ! d)"
      if "d < length (pq_buckets s)" for d
      using that False p(1) by (auto simp: nth_list_update)
    have dis': "distinct (?bs ! d) \<and> (\<forall>u\<in>set (?bs ! d). u \<in> V \<and> ((pq_degree s)(a \<mapsto> ?c)) u = Some d)" if d: "d < length (pq_buckets s)" for d
    proof -
      consider "d = ?c" | "d \<noteq> ?c" "d = p" | "d \<noteq> ?c" "d \<noteq> p" by blast
      then show ?thesis
      proof cases
        case 1
        then show ?thesis using nth [OF d] dis [OF d] notin [OF d] mem [OF d] False a(1) by auto
      next
        case 2
        then show ?thesis using nth [OF d] dis [OF d] mem [OF d] by auto
      next
        case 3
        then show ?thesis using nth [OF d] dis [OF d] mem [OF d] notin [OF d] by auto
      qed
    qed
    have all: "\<exists>d < length (pq_buckets s). ((pq_degree s)(a \<mapsto> ?c)) u = Some d \<and> u \<in> set (?bs ! d)" if u: "u \<in> V" for u
    proof (cases "u = a")
      case True
      then show ?thesis using a(3) nth [OF a(3)] by (intro exI [of _ ?c]) simp
    next
      case False
      obtain d where d: "d < length (pq_buckets s)" "pq_degree s u = Some d" "u \<in> set (pq_buckets s ! d)" using bk u by (auto simp: bk_ok_def)
      then have "u \<in> set (?bs ! d)" using nth [OF d(1)] False by (auto simp: in_set_remove1)
      then show ?thesis using d False by auto
    qed
    have "bk_ok (s\<lparr>pq_buckets := ?bs, pq_degree := (pq_degree s)(a \<mapsto> ?c)\<rparr>) V"
      unfolding bk_ok_def using dis' all by simp
    then show ?thesis using run by (intro exI [of _ ?bs]) simp
  qed
qed

lemma reorder_loop:
  assumes "bk_ok s V" and "\<And>a. a \<in> set as \<Longrightarrow> a \<in> V \<and> (\<exists>xs. pq_adj s a = Some xs \<and> length xs < length (pq_buckets s))"
  shows "\<exists>bs. res_foldl reorder_one s as = Inr (s\<lparr>pq_buckets := bs, pq_degree := (\<lambda>u. if u \<in> set as then Some (length (nb s u)) else pq_degree s u)\<rparr>)
    \<and> length bs = length (pq_buckets s)
    \<and> bk_ok (s\<lparr>pq_buckets := bs, pq_degree := (\<lambda>u. if u \<in> set as then Some (length (nb s u)) else pq_degree s u)\<rparr>) V"
  using assms
proof (induction as arbitrary: s)
  case Nil
  then show ?case by (intro exI [of _ "pq_buckets s"]) simp
next
  case (Cons a as)
  obtain xs where xs: "a \<in> V" "pq_adj s a = Some xs" "length xs < length (pq_buckets s)" using Cons.prems(2) by auto
  from reorder_one_ok [OF Cons.prems(1) this] obtain bs where bs:
    "reorder_one s a = Inr (s\<lparr>pq_buckets := bs, pq_degree := (pq_degree s)(a \<mapsto> length xs)\<rparr>)" "length bs = length (pq_buckets s)"
    "bk_ok (s\<lparr>pq_buckets := bs, pq_degree := (pq_degree s)(a \<mapsto> length xs)\<rparr>) V" by blast
  let ?s = "s\<lparr>pq_buckets := bs, pq_degree := (pq_degree s)(a \<mapsto> length xs)\<rparr>"
  obtain cs where cs:
    "res_foldl reorder_one ?s as = Inr (?s\<lparr>pq_buckets := cs, pq_degree := (\<lambda>u. if u \<in> set as then Some (length (nb ?s u)) else pq_degree ?s u)\<rparr>)"
    "length cs = length (pq_buckets ?s)"
    "bk_ok (?s\<lparr>pq_buckets := cs, pq_degree := (\<lambda>u. if u \<in> set as then Some (length (nb ?s u)) else pq_degree ?s u)\<rparr>) V"
    using Cons.IH [OF bs(3)] Cons.prems(2) bs(2) by fastforce
  have deg: "(\<lambda>u. if u \<in> set as then Some (length (nb ?s u)) else pq_degree ?s u) = (\<lambda>u. if u \<in> set (a # as) then Some (length (nb s u)) else pq_degree s u)"
    using xs(2) by (auto simp: fun_eq_iff)
  show ?case using bs(1,2) cs unfolding deg by (intro exI [of _ cs]) simp
qed

lemma reorder_eq: "reorder_adj_nodes n s = res_bind (dget (pq_adj s) n) (res_foldl reorder_one s)"
  by (simp add: reorder_adj_nodes_def reorder_one_def [abs_def])

text \<open>
  Together they take a node out. Before that, the recorded degrees of its neighbours may be out of date, and a neighbour
  may have one neighbour more than the largest degree.
\<close>

lemma finish_reduction_ok:
  assumes adj: "adj_ok s V" and bk: "bk_ok s V" and n: "n \<in> V" and len: "int (length (pq_buckets s)) = pq_max_degree s + 2"
    and deg: "\<And>u. u \<in> V \<Longrightarrow> u \<notin> set (nb s n) \<Longrightarrow> pq_degree s u = Some (length (nb s u)) \<and> int (length (nb s u)) \<le> pq_max_degree s"
    and over: "\<And>u. u \<in> set (nb s n) \<Longrightarrow> int (length (nb s u)) \<le> pq_max_degree s + 1"
  shows "\<exists>bs dg. finish_reduction n s = Inr (s\<lparr>pq_adj := (\<lambda>u. if u \<in> set (nb s n) then Some (remove1 n (nb s u)) else pq_adj s u),
           pq_buckets := bs, pq_degree := dg, pq_stack := pq_stack s @ [n]\<rparr>)
    \<and> adj_ok (s\<lparr>pq_adj := (\<lambda>u. if u \<in> set (nb s n) then Some (remove1 n (nb s u)) else pq_adj s u)\<rparr>) (V - {n})
    \<and> deg_ok (s\<lparr>pq_buckets := bs, pq_degree := dg, pq_adj := (\<lambda>u. if u \<in> set (nb s n) then Some (remove1 n (nb s u)) else pq_adj s u)\<rparr>) (V - {n})"
proof -
  let ?adj = "\<lambda>u. if u \<in> set (nb s n) then Some (remove1 n (nb s u)) else pq_adj s u"
  have nn: "n \<notin> set (nb s n)" "set (nb s n) \<subseteq> V" using adj_okD [OF adj n] by auto
  have mem: "n \<in> set (nb s u)" if "u \<in> set (nb s n)" for u using adj_okD(5) [OF adj n that] .
  obtain bs where bs: "remove_node n s = Inr (s\<lparr>pq_buckets := bs, pq_adj := ?adj\<rparr>)" "length bs = length (pq_buckets s)"
    "bk_ok (s\<lparr>pq_buckets := bs\<rparr>) (V - {n})"
    using remove_node_ok [OF adj bk n] deg [OF n nn(1)] by blast
  let ?s = "s\<lparr>pq_buckets := bs, pq_adj := ?adj\<rparr>"
  have "bk_ok ?s (V - {n})" by (rule bk_ok_cong [OF bs(3)]) simp_all
  moreover have "a \<in> V - {n} \<and> (\<exists>xs. pq_adj ?s a = Some xs \<and> length xs < length (pq_buckets ?s))" if "a \<in> set (nb s n)" for a
    using that nn mem [OF that] over [OF that] bs(2) len by (auto simp: length_remove1)
  ultimately obtain cs where cs:
    "res_foldl reorder_one ?s (nb s n) = Inr (?s\<lparr>pq_buckets := cs, pq_degree := (\<lambda>u. if u \<in> set (nb s n) then Some (length (nb ?s u)) else pq_degree ?s u)\<rparr>)"
    "length cs = length (pq_buckets ?s)"
    "bk_ok (?s\<lparr>pq_buckets := cs, pq_degree := (\<lambda>u. if u \<in> set (nb s n) then Some (length (nb ?s u)) else pq_degree ?s u)\<rparr>) (V - {n})"
    using reorder_loop [of ?s "V - {n}" "nb s n"] by blast
  let ?dg = "\<lambda>u. if u \<in> set (nb s n) then Some (length (nb ?s u)) else pq_degree s u"
  have "dget (pq_adj ?s) n = Inr (nb s n)" using nn(1) dget_adj [OF adj n] by (simp add: dget_def)
  then have run: "finish_reduction n s = Inr (s\<lparr>pq_adj := ?adj, pq_buckets := cs, pq_degree := ?dg, pq_stack := pq_stack s @ [n]\<rparr>)"
    using cs(1) by (simp add: finish_reduction_def bs(1) reorder_eq cong: if_cong)
  have ok: "adj_ok (s\<lparr>pq_adj := ?adj\<rparr>) (V - {n})"
  proof -
    have "pq_adj s u \<noteq> None" "distinct (nb s u)" "set (nb s u) \<subseteq> V - {u}" "\<And>v. v \<in> set (nb s u) \<Longrightarrow> u \<in> set (nb s v)"
      if "u \<in> V" for u using adj_okD [OF adj that] by auto
    moreover have "v \<in> set (nb s n)" if "v \<in> V" "n \<in> set (nb s v)" for v using adj_okD(5) [OF adj that] .
    ultimately show ?thesis using adj nn unfolding adj_ok_def by (auto dest: in_set_remove1 notin_set_remove1)
  qed
  have "deg_ok (s\<lparr>pq_buckets := cs, pq_degree := ?dg, pq_adj := ?adj\<rparr>) (V - {n})"
    unfolding deg_ok_def
  proof (intro conjI ballI)
    show "bk_ok (s\<lparr>pq_buckets := cs, pq_degree := ?dg, pq_adj := ?adj\<rparr>) (V - {n})"
      by (rule bk_ok_cong [OF cs(3)]) (simp_all cong: if_cong)
    show "int (length (pq_buckets (s\<lparr>pq_buckets := cs, pq_degree := ?dg, pq_adj := ?adj\<rparr>)))
        = pq_max_degree (s\<lparr>pq_buckets := cs, pq_degree := ?dg, pq_adj := ?adj\<rparr>) + 2" using cs(2) bs(2) len by simp
  next
    fix u assume u: "u \<in> V - {n}"
    show "pq_degree (s\<lparr>pq_buckets := cs, pq_degree := ?dg, pq_adj := ?adj\<rparr>) u = Some (length (nb (s\<lparr>pq_buckets := cs, pq_degree := ?dg, pq_adj := ?adj\<rparr>) u))"
      using deg [of u] u by simp
    show "int (length (nb (s\<lparr>pq_buckets := cs, pq_degree := ?dg, pq_adj := ?adj\<rparr>) u)) \<le> pq_max_degree (s\<lparr>pq_buckets := cs, pq_degree := ?dg, pq_adj := ?adj\<rparr>)"
      using deg [of u] u over [of u] mem [of u] length_pos_if_in_set [of n "nb s u"] by (auto simp: length_remove1 of_nat_diff Suc_le_eq)
  qed
  then show ?thesis using run ok by blast
qed

end
