(* ===== verification/PbqpCorrect.thy ===== *)
theory PbqpCorrect
  imports PbqpGraph
begin

text \<open>
  The PBQP tuner is exact as long as it needs no reduction of a node of degree three or more: every reduction keeps the
  tables well-formed, the reductions of degree one and two keep the least cost, and the backward pass extends a
  least assignment of the reduced graph by the best choice for the reduced node.
\<close>

section \<open>Tables of costs\<close>

abbreviation rcv :: "pq \<Rightarrow> nat \<Rightarrow> rat list" where
  "rcv s u \<equiv> the (pq_rc s u)"

abbreviation nrec :: "pq \<Rightarrow> nat \<Rightarrow> nat" where
  "nrec s u \<equiv> length (rcv s u)"

abbreviation mt :: "pq \<Rightarrow> nat \<Rightarrow> nat \<Rightarrow> matrix" where
  "mt s u v \<equiv> pq_heap s ! the (pq_cost s (u, v))"

definition node_ok :: "pq \<Rightarrow> nat \<Rightarrow> bool" where
  "node_ok s u \<longleftrightarrow> pq_rc s u \<noteq> None \<and> rcv s u \<noteq> [] \<and> (\<forall>c\<in>set (rcv s u). 0 \<le> c) \<and> pq_record s u = None"

definition mat_ok :: "matrix \<Rightarrow> nat \<Rightarrow> nat \<Rightarrow> bool" where
  "mat_ok m r c \<longleftrightarrow> length m = r \<and> (\<forall>row\<in>set m. length row = c \<and> (\<forall>x\<in>set row. 0 \<le> x))"

definition edge_ok :: "pq \<Rightarrow> nat \<Rightarrow> nat \<Rightarrow> bool" where
  "edge_ok s u v \<longleftrightarrow> pq_cost s (u, v) \<noteq> None \<and> the (pq_cost s (u, v)) < length (pq_heap s) \<and> mat_ok (mt s u v) (nrec s u) (nrec s v)
     \<and> (\<forall>i < nrec s u. \<forall>j < nrec s v. mt s u v ! i ! j = mt s v u ! j ! i)"

definition pairs :: "pq \<Rightarrow> nat set \<Rightarrow> (nat \<times> nat) set" where
  "pairs s V = {(u, v). u \<in> V \<and> v \<in> V \<and> v \<in> set (nb s u)}"

text \<open>No two of the keys in use share a matrix.\<close>

definition data_ok :: "pq \<Rightarrow> nat set \<Rightarrow> bool" where
  "data_ok s V \<longleftrightarrow> (\<forall>u\<in>V. node_ok s u) \<and> (\<forall>(u, v)\<in>pairs s V. edge_ok s u v) \<and> inj_on (pq_cost s) (pairs s V)"

definition pq_ok :: "pq \<Rightarrow> nat set \<Rightarrow> bool" where
  "pq_ok s V \<longleftrightarrow> adj_ok s V \<and> deg_ok s V \<and> data_ok s V"

definition valid_on :: "pq \<Rightarrow> nat set \<Rightarrow> (nat \<Rightarrow> nat) \<Rightarrow> bool" where
  "valid_on s V a \<longleftrightarrow> (\<forall>u\<in>V. a u < nrec s u)"

text \<open>The cost of an assignment: the schedules of all nodes, and the layout transformation of every edge, counted once.\<close>

definition pcost :: "pq \<Rightarrow> nat set \<Rightarrow> (nat \<Rightarrow> nat) \<Rightarrow> rat" where
  "pcost s V a = gcost V (\<lambda>u. set (nb s u)) (\<lambda>u i. rcv s u ! i) (\<lambda>u v i j. mt s u v ! i ! j) a"

definition rest_cost :: "pq \<Rightarrow> nat set \<Rightarrow> nat \<Rightarrow> (nat \<Rightarrow> nat) \<Rightarrow> rat" where
  "rest_cost s V n a = gcost (V - {n}) (\<lambda>u. set (nb s u) - {n}) (\<lambda>u i. rcv s u ! i) (\<lambda>u v i j. mt s u v ! i ! j) a"

definition node_cost :: "pq \<Rightarrow> nat \<Rightarrow> (nat \<Rightarrow> nat) \<Rightarrow> nat \<Rightarrow> rat" where
  "node_cost s n a i = rcv s n ! i + (\<Sum>v\<in>set (nb s n). mt s n v ! i ! a v)"

lemma pq_okD: "pq_ok s V \<Longrightarrow> adj_ok s V" "pq_ok s V \<Longrightarrow> deg_ok s V" "pq_ok s V \<Longrightarrow> data_ok s V"
  by (auto simp: pq_ok_def)

lemma node_okD: "data_ok s V \<Longrightarrow> u \<in> V \<Longrightarrow> node_ok s u"
  by (simp add: data_ok_def)

lemma edge_okD: "data_ok s V \<Longrightarrow> adj_ok s V \<Longrightarrow> u \<in> V \<Longrightarrow> v \<in> set (nb s u) \<Longrightarrow> edge_ok s u v"
  using adj_okD(3) by (fastforce simp: data_ok_def pairs_def)

lemma dget_rc: "node_ok s u \<Longrightarrow> dget (pq_rc s) u = Inr (rcv s u)"
  by (auto simp: node_ok_def dget_def)

lemma layout_cost_edge: "edge_ok s u v \<Longrightarrow> layout_cost s u v = Inr (mt s u v)"
  by (auto simp: edge_ok_def layout_cost_def dget_def)

lemma mat_ok_nth: "mat_ok m r c \<Longrightarrow> i < r \<Longrightarrow> length (m ! i) = c"
  "mat_ok m r c \<Longrightarrow> i < r \<Longrightarrow> j < c \<Longrightarrow> 0 \<le> m ! i ! j"
  by (simp_all add: mat_ok_def) (metis nth_mem)

lemma edge_ok_nth:
  assumes "edge_ok s u v" and "i < nrec s u"
  shows "length (mt s u v) = nrec s u" "length (mt s u v ! i) = nrec s v" "j < nrec s v \<Longrightarrow> 0 \<le> mt s u v ! i ! j"
    "j < nrec s v \<Longrightarrow> mt s v u ! j ! i = mt s u v ! i ! j"
  using assms mat_ok_nth [of "mt s u v" "nrec s u" "nrec s v" i] by (simp_all add: edge_ok_def) (simp add: mat_ok_def)

lemma pcost_split:
  assumes "pq_ok s V" and "n \<in> V" and "valid_on s V a"
  shows "pcost s V a = rest_cost s V n a + node_cost s n a (a n)"
proof -
  have "mt s v n ! a v ! a n = mt s n v ! a n ! a v" if "v \<in> set (nb s n)" for v
  proof -
    have "v \<in> V" using adj_okD(3) [OF pq_okD(1) [OF assms(1)] assms(2)] that by auto
    then show ?thesis
      using edge_okD [OF pq_okD(3,1) [OF assms(1)] assms(2) that] assms(2,3) edge_ok_nth(4) [of s n v "a n" "a v"] by (auto simp: valid_on_def)
  qed
  then show ?thesis
    unfolding pcost_def rest_cost_def node_cost_def
    by (intro gcost_remove [OF graph_sym_adj [OF pq_okD(1) [OF assms(1)]] assms(2)]) simp
qed

lemma cost_upd: "node_cost s n (a(n := i)) = node_cost s n a" if "adj_ok s V" "n \<in> V"
proof -
  have "n \<notin> set (nb s n)" using adj_okD(4) [OF that] .
  then have "(\<Sum>v\<in>set (nb s n). mt s n v ! j ! (a(n := i)) v) = (\<Sum>v\<in>set (nb s n). mt s n v ! j ! a v)" for j
    by (intro sum.cong) auto
  then show ?thesis by (auto simp: node_cost_def fun_eq_iff)
qed

lemma rest_cost_upd: "rest_cost s V n (a(n := i)) = rest_cost s V n a"
  unfolding rest_cost_def by (rule gcost_cong) auto

lemma rest_cost_nonneg:
  assumes "pq_ok s V" and "valid_on s (V - {n}) a"
  shows "0 \<le> rest_cost s V n a"
  unfolding rest_cost_def
proof (rule gcost_nonneg)
  fix u assume "u \<in> V - {n}"
  then show "0 \<le> rcv s u ! a u"
    using node_okD [OF pq_okD(3) [OF assms(1)], of u] assms(2) by (auto simp: node_ok_def valid_on_def)
next
  fix u v assume u: "u \<in> V - {n}" and v: "v \<in> set (nb s u) - {n}"
  then have "v \<in> V" using adj_okD(3) [OF pq_okD(1) [OF assms(1)]] by auto
  then show "0 \<le> mt s u v ! a u ! a v"
    using edge_okD [OF pq_okD(3,1) [OF assms(1)], of u v] u v assms(2) edge_ok_nth(3) [of s u v "a u" "a v"] by (auto simp: valid_on_def)
qed

text \<open>The least cost, cut off at the time of an invalid layout.\<close>

lemma foldl_min: "foldl min c xs = (if xs = [] then c else min c (Min (set xs)))" for c :: rat
proof (induction xs arbitrary: c)
  case (Cons x xs)
  then show ?case by (cases "xs = []") (simp_all add: min.assoc)
qed simp

lemma min_cost_map: "0 < k \<Longrightarrow> min_cost (map f [0..<k]) = min INVALID_LAYOUT_TIME (Min (f ` {..<k}))"
  by (auto simp: min_cost_def foldl_min atLeast0LessThan)

lemma min_cost_nonneg: "\<forall>x\<in>set xs. 0 \<le> x \<Longrightarrow> 0 \<le> min_cost xs"
  by (auto simp: min_cost_def foldl_min INVALID_LAYOUT_TIME_def)

section \<open>One reduction\<close>

text \<open>
  What a reduction of \<open>n\<close> does to the rest of the state: the reduced graph is well-formed again, and nothing that the backward pass
  will need for nodes that are gone is touched, neither their lists nor their matrices.
\<close>

definition reduces :: "pq \<Rightarrow> nat set \<Rightarrow> nat \<Rightarrow> pq \<Rightarrow> bool" where
  "reduces s V n s' \<longleftrightarrow> pq_ok s' (V - {n}) \<and> pq_stack s' = pq_stack s @ [n] \<and> pq_max_degree s' = pq_max_degree s
     \<and> (\<forall>u. u \<notin> V - {n} \<longrightarrow> pq_adj s' u = pq_adj s u \<and> pq_rc s' u = pq_rc s u \<and> (\<forall>v. pq_cost s' (u, v) = pq_cost s (u, v)))
     \<and> (\<forall>u. u \<notin> V \<longrightarrow> pq_record s' u = pq_record s u)
     \<and> (\<forall>u\<in>V. nrec s' u = nrec s u)
     \<and> pq_cost s' ` pairs s' (V - {n}) \<subseteq> pq_cost s ` pairs s (V - {n}) \<union> {Some p |p. length (pq_heap s) \<le> p}
     \<and> length (pq_heap s) \<le> length (pq_heap s')
     \<and> (\<forall>p < length (pq_heap s). Some p \<notin> pq_cost s ` pairs s (V - {n}) \<longrightarrow> pq_heap s' ! p = pq_heap s ! p)"

text \<open>An exact reduction adds the best choice for \<open>n\<close> to the costs of the rest; a fixing one records a choice and gives up optimality.\<close>

definition exact :: "pq \<Rightarrow> nat set \<Rightarrow> nat \<Rightarrow> pq \<Rightarrow> bool" where
  "exact s V n s' \<longleftrightarrow> pq_record s' n = None \<and> pq_is_optimal s' = pq_is_optimal s
     \<and> (\<forall>b. valid_on s (V - {n}) b \<longrightarrow>
          pcost s' (V - {n}) b = rest_cost s V n b + min INVALID_LAYOUT_TIME (Min (node_cost s n b ` {..<nrec s n})))"

definition fixes_node :: "pq \<Rightarrow> nat \<Rightarrow> pq \<Rightarrow> bool" where
  "fixes_node s n s' \<longleftrightarrow> (\<exists>i < nrec s n. pq_record s' n = Some i) \<and> \<not> pq_is_optimal s'"

lemma pairs_mono: "V' \<subseteq> V \<Longrightarrow> pairs s V' \<subseteq> pairs s V"
  by (auto simp: pairs_def)

lemma data_ok_mono: "data_ok s V \<Longrightarrow> V' \<subseteq> V \<Longrightarrow> data_ok s V'"
  using pairs_mono [of V' V s] by (auto simp: data_ok_def intro: inj_on_subset)

lemma edge_ok_cong:
  assumes "edge_ok s u v" and "pq_cost s1 (u, v) = pq_cost s (u, v)" "pq_cost s1 (v, u) = pq_cost s (v, u)" "pq_heap s1 = pq_heap s"
    and "nrec s1 u = nrec s u" "nrec s1 v = nrec s v"
  shows "edge_ok s1 u v"
  using assms by (simp add: edge_ok_def)

text \<open>The tables of \<open>s1\<close> are those of \<open>s\<close>, but for node costs that have grown.\<close>

lemma data_ok_rc:
  assumes "data_ok s V" and "pq_adj s1 = pq_adj s" "pq_cost s1 = pq_cost s" "pq_heap s1 = pq_heap s"
    and "\<And>u. u \<in> V \<Longrightarrow> pq_record s1 u = None \<and> pq_rc s1 u \<noteq> None \<and> nrec s1 u = nrec s u \<and> (\<forall>c\<in>set (rcv s1 u). 0 \<le> c)"
  shows "data_ok s1 V"
proof -
  have "node_ok s1 u" if "u \<in> V" for u
    using assms(5) [OF that] node_okD [OF assms(1) that] by (auto simp: node_ok_def)
  moreover have "edge_ok s1 u v" if "(u, v) \<in> pairs s V" for u v
  proof (rule edge_ok_cong)
    show "edge_ok s u v" using assms(1) that by (auto simp: data_ok_def)
  qed (use assms that in \<open>auto simp: pairs_def\<close>)
  ultimately show ?thesis using assms(1-3) by (simp add: data_ok_def pairs_def)
qed

text \<open>Every reduction ends by taking \<open>n\<close> out of the graph.\<close>

lemma finish_reduces:
  assumes adj: "adj_ok s1 V" and n: "n \<in> V" and bk: "bk_ok s1 V" "int (length (pq_buckets s1)) = pq_max_degree s1 + 2"
    and deg: "\<And>u. u \<in> V \<Longrightarrow> u \<notin> set (nb s1 n) \<Longrightarrow> pq_degree s1 u = Some (length (nb s1 u)) \<and> int (length (nb s1 u)) \<le> pq_max_degree s1"
    and over: "\<And>u. u \<in> set (nb s1 n) \<Longrightarrow> int (length (nb s1 u)) \<le> pq_max_degree s1 + 1"
    and data: "data_ok s1 (V - {n})" and stack: "pq_stack s1 = pq_stack s" "pq_max_degree s1 = pq_max_degree s"
    and gone: "\<And>u. u \<notin> V - {n} \<Longrightarrow> pq_adj s1 u = pq_adj s u \<and> pq_rc s1 u = pq_rc s u \<and> (\<forall>v. pq_cost s1 (u, v) = pq_cost s (u, v))"
    and rec: "\<And>u. u \<notin> V \<Longrightarrow> pq_record s1 u = pq_record s u" and len: "\<And>u. u \<in> V \<Longrightarrow> nrec s1 u = nrec s u"
    and addr: "pq_cost s1 ` pairs s1 (V - {n}) \<subseteq> pq_cost s ` pairs s (V - {n}) \<union> {Some p |p. length (pq_heap s) \<le> p}"
    and heap: "length (pq_heap s) \<le> length (pq_heap s1)"
      "\<And>p. p < length (pq_heap s) \<Longrightarrow> Some p \<notin> pq_cost s ` pairs s (V - {n}) \<Longrightarrow> pq_heap s1 ! p = pq_heap s ! p"
  shows "\<exists>s'. finish_reduction n s1 = Inr s' \<and> reduces s V n s' \<and> pq_record s' = pq_record s1 \<and> pq_is_optimal s' = pq_is_optimal s1
    \<and> (\<forall>b. pcost s' (V - {n}) b = gcost (V - {n}) (\<lambda>u. set (nb s1 u) - {n}) (\<lambda>u i. rcv s1 u ! i) (\<lambda>u v i j. mt s1 u v ! i ! j) b)"
proof -
  let ?adj = "\<lambda>u. if u \<in> set (nb s1 n) then Some (remove1 n (nb s1 u)) else pq_adj s1 u"
  obtain bs dg where run: "finish_reduction n s1 = Inr (s1\<lparr>pq_adj := ?adj, pq_buckets := bs, pq_degree := dg, pq_stack := pq_stack s1 @ [n]\<rparr>)"
    and ok: "adj_ok (s1\<lparr>pq_adj := ?adj\<rparr>) (V - {n})" "deg_ok (s1\<lparr>pq_buckets := bs, pq_degree := dg, pq_adj := ?adj\<rparr>) (V - {n})"
    using finish_reduction_ok [OF adj bk(1) n bk(2) deg over] by blast
  let ?s = "s1\<lparr>pq_adj := ?adj, pq_buckets := bs, pq_degree := dg, pq_stack := pq_stack s1 @ [n]\<rparr>"
  have nbs: "set (nb ?s u) = set (nb s1 u) - {n}" if "u \<in> V - {n}" for u
  proof (cases "u \<in> set (nb s1 n)")
    case True
    then show ?thesis using adj_okD(2) [OF adj, of u] that by simp
  next
    case False
    then have "n \<notin> set (nb s1 u)" using adj_okD(5) [OF adj, of u n] that by auto
    then show ?thesis using False by simp
  qed
  then have pairs: "pairs ?s (V - {n}) = pairs s1 (V - {n})" unfolding pairs_def by blast
  have data': "data_ok ?s (V - {n})" using data unfolding data_ok_def pairs by (auto simp: node_ok_def intro: edge_ok_cong [of s1])
  have "pq_ok ?s (V - {n})" using adj_ok_cong [OF ok(1)] deg_ok_cong [OF ok(2)] data' by (simp add: pq_ok_def)
  moreover have "?adj u = pq_adj s u" if "u \<notin> V - {n}" for u
    using gone [OF that] that adj_okD(3,4) [OF adj n] by auto
  ultimately have "reduces s V n ?s"
    unfolding reduces_def using gone rec len addr heap pairs stack by simp
  moreover have "pcost ?s (V - {n}) b = gcost (V - {n}) (\<lambda>u. set (nb s1 u) - {n}) (\<lambda>u i. rcv s1 u ! i) (\<lambda>u v i j. mt s1 u v ! i ! j) b" for b
    unfolding pcost_def by (rule gcost_cong) (use nbs in auto)
  ultimately show ?thesis using run by auto
qed

text \<open>The case in which only node costs and the contents of matrices have changed.\<close>

lemma finish_same_graph:
  assumes ok: "pq_ok s V" and n: "n \<in> V"
    and same: "pq_adj s1 = pq_adj s" "pq_cost s1 = pq_cost s" "pq_buckets s1 = pq_buckets s" "pq_degree s1 = pq_degree s"
      "pq_max_degree s1 = pq_max_degree s" "pq_stack s1 = pq_stack s"
    and data: "data_ok s1 (V - {n})" and rc: "\<And>u. u \<notin> V - {n} \<Longrightarrow> pq_rc s1 u = pq_rc s u" "\<And>u. u \<in> V \<Longrightarrow> nrec s1 u = nrec s u"
    and rec: "\<And>u. u \<notin> V \<Longrightarrow> pq_record s1 u = pq_record s u" and heap: "length (pq_heap s1) = length (pq_heap s)"
      "\<And>p. p < length (pq_heap s) \<Longrightarrow> Some p \<notin> pq_cost s ` pairs s (V - {n}) \<Longrightarrow> pq_heap s1 ! p = pq_heap s ! p"
  shows "\<exists>s'. finish_reduction n s1 = Inr s' \<and> reduces s V n s' \<and> pq_record s' = pq_record s1 \<and> pq_is_optimal s' = pq_is_optimal s1
    \<and> (\<forall>b. pcost s' (V - {n}) b = gcost (V - {n}) (\<lambda>u. set (nb s u) - {n}) (\<lambda>u i. rcv s1 u ! i) (\<lambda>u v i j. mt s1 u v ! i ! j) b)"
proof -
  have deg: "int (length (pq_buckets s)) = pq_max_degree s + 2"
    "\<And>u. u \<in> V \<Longrightarrow> pq_degree s u = Some (length (nb s u)) \<and> int (length (nb s u)) \<le> pq_max_degree s"
    using pq_okD(2) [OF ok] by (auto simp: deg_ok_def)
  have "u \<in> V" if "u \<in> set (nb s n)" for u using adj_okD(3) [OF pq_okD(1) [OF ok] n] that by auto
  then have over: "int (length (nb s u)) \<le> pq_max_degree s + 1" if "u \<in> set (nb s n)" for u using deg(2) that by fastforce
  have "adj_ok s1 V" "bk_ok s1 V" using adj_ok_cong [OF pq_okD(1) [OF ok]] bk_ok_cong [of s V s1] pq_okD(2) [OF ok] same by (auto simp: deg_ok_def)
  then have "\<exists>s'. finish_reduction n s1 = Inr s' \<and> reduces s V n s' \<and> pq_record s' = pq_record s1 \<and> pq_is_optimal s' = pq_is_optimal s1
    \<and> (\<forall>b. pcost s' (V - {n}) b = gcost (V - {n}) (\<lambda>u. set (nb s1 u) - {n}) (\<lambda>u i. rcv s1 u ! i) (\<lambda>u v i j. mt s1 u v ! i ! j) b)"
    using n deg over data rc rec heap by (intro finish_reduces) (auto simp: same pairs_def)
  then show ?thesis by (simp add: same)
qed

section \<open>Degree one\<close>

lemma RI_loop:
  assumes "rc n = Some rcn" and "n \<noteq> v" and "\<forall>row\<in>set m. length row \<le> length rcn" and "rc v = Some rcv'" and "k + length m \<le> length rcv'"
  shows "res_foldl (RI_row n v) rc (enumerate k m) = Inr (rc(v \<mapsto> map (\<lambda>i. if k \<le> i \<and> i < k + length m
           then rcv' ! i + min_cost (map2 (+) (m ! (i - k)) rcn) else rcv' ! i) [0..<length rcv']))"
  using assms
proof (induction m arbitrary: k rc rcv')
  case Nil
  have "map (\<lambda>i. if k \<le> i \<and> i < k + length ([] :: matrix) then rcv' ! i + min_cost (map2 (+) ([] ! (i - k)) rcn) else rcv' ! i) [0..<length rcv'] = rcv'"
    by (rule nth_equalityI) auto
  then show ?case using Nil.prems by (simp only: enumerate_simps res_foldl.simps) (simp add: fun_upd_idem)
next
  case (Cons row m)
  let ?d = "min_cost (map2 (+) row rcn)"
  let ?r = "rcv'[k := rcv' ! k + ?d]"
  have step: "RI_row n v rc (k, row) = Inr (rc(v \<mapsto> ?r))" using Cons.prems by (simp add: RI_row_def dget_def)
  have "res_foldl (RI_row n v) (rc(v \<mapsto> ?r)) (enumerate (Suc k) m) = Inr ((rc(v \<mapsto> ?r))(v \<mapsto> map (\<lambda>i. if Suc k \<le> i \<and> i < Suc k + length m
           then ?r ! i + min_cost (map2 (+) (m ! (i - Suc k)) rcn) else ?r ! i) [0..<length ?r]))"
    using Cons.prems by (intro Cons.IH) auto
  moreover have "map (\<lambda>i. if Suc k \<le> i \<and> i < Suc k + length m
           then ?r ! i + min_cost (map2 (+) (m ! (i - Suc k)) rcn) else ?r ! i) [0..<length ?r]
      = map (\<lambda>i. if k \<le> i \<and> i < k + length (row # m)
           then rcv' ! i + min_cost (map2 (+) ((row # m) ! (i - k)) rcn) else rcv' ! i) [0..<length rcv']"
    by (rule map_cong) (auto simp: nth_list_update nth_Cons' Suc_diff_Suc not_less_eq_eq)
  ultimately show ?case by (simp only: enumerate_simps res_foldl.simps step res_bind.simps fun_upd_upd)
qed

lemma map2_nth: "length xs = k \<Longrightarrow> length ys = k \<Longrightarrow> map2 f xs ys = map (\<lambda>i. f (xs ! i) (ys ! i)) [0..<k]"
  by (rule nth_equalityI) auto

lemma RI_ok:
  assumes ok: "pq_ok s V" and n: "n \<in> V" and one: "nb s n = [v]"
  shows "\<exists>s'. RI_reduction n s = Inr s' \<and> reduces s V n s' \<and> exact s V n s'"
proof -
  note adj = pq_okD(1) [OF ok] and data = pq_okD(3) [OF ok] and deg = pq_okD(2) [OF ok]
  have v: "v \<in> V" "v \<noteq> n" "n \<in> set (nb s v)" using adj_okD [OF adj n] one by auto
  have e: "edge_ok s v n" using edge_okD [OF data adj v(1,3)] .
  have nn: "node_ok s n" "node_ok s v" using node_okD [OF data] n v(1) by auto
  let ?k = "nrec s n" and ?d = "\<lambda>i. min_cost (map2 (+) (mt s v n ! i) (rcv s n))"
  let ?r = "map (\<lambda>i. rcv s v ! i + ?d i) [0..<nrec s v]"
  let ?s = "s\<lparr>pq_rc := (pq_rc s)(v \<mapsto> ?r)\<rparr>"
  have k: "0 < ?k" using nn(1) by (simp add: node_ok_def)
  have len: "length (mt s v n) = nrec s v" "\<forall>row\<in>set (mt s v n). length row = ?k" using e by (auto simp: edge_ok_def mat_ok_def)
  have d: "?d i = min INVALID_LAYOUT_TIME (Min ((\<lambda>j. mt s v n ! i ! j + rcv s n ! j) ` {..<?k}))" if "i < nrec s v" for i
    using that len k by (simp add: map2_nth [of _ ?k] min_cost_map)
  have pos: "0 \<le> ?d i" if "i < nrec s v" for i
    using that len nn(1) edge_ok_nth(3) [OF e that]
    by (auto simp: map2_nth [of _ ?k] node_ok_def intro!: min_cost_nonneg add_nonneg_nonneg)
  obtain x y where xy: "pq_rc s n = Some x" "pq_rc s v = Some y" using nn by (auto simp: node_ok_def)
  have "res_foldl (RI_row n v) (pq_rc s) (enumerate 0 (mt s v n)) = Inr ((pq_rc s)(v \<mapsto> ?r))"
    using RI_loop [of "pq_rc s" n x v "mt s v n" y 0] xy v(2) len by (auto cong: map_cong)
  then have run: "RI_reduction n s = finish_reduction n ?s"
    by (simp add: RI_reduction_def dget_adj [OF adj n] one py_get_def layout_cost_edge [OF e])
  have data1: "data_ok ?s (V - {n})"
  proof (rule data_ok_rc [OF data_ok_mono [OF data]])
    fix u assume "u \<in> V - {n}"
    then have "node_ok s u" using node_okD [OF data] by auto
    then show "pq_record ?s u = None \<and> pq_rc ?s u \<noteq> None \<and> nrec ?s u = nrec s u \<and> (\<forall>c\<in>set (rcv ?s u). 0 \<le> c)"
      using nn(2) pos by (auto simp: node_ok_def)
  qed auto
  obtain s' where s': "finish_reduction n ?s = Inr s'" "reduces s V n s'" "pq_record s' = pq_record s" "pq_is_optimal s' = pq_is_optimal s"
    "\<And>b. pcost s' (V - {n}) b = gcost (V - {n}) (\<lambda>u. set (nb s u) - {n}) (\<lambda>u i. rcv ?s u ! i) (\<lambda>u v i j. mt s u v ! i ! j) b"
  proof -
    have "\<exists>s'. finish_reduction n ?s = Inr s' \<and> reduces s V n s' \<and> pq_record s' = pq_record ?s \<and> pq_is_optimal s' = pq_is_optimal ?s
      \<and> (\<forall>b. pcost s' (V - {n}) b = gcost (V - {n}) (\<lambda>u. set (nb s u) - {n}) (\<lambda>u i. rcv ?s u ! i) (\<lambda>u v i j. mt ?s u v ! i ! j) b)"
      by (rule finish_same_graph [OF ok n]) (use data1 v in auto)
    then show ?thesis using that by auto
  qed
  have "pcost s' (V - {n}) b = rest_cost s V n b + min INVALID_LAYOUT_TIME (Min (node_cost s n b ` {..<?k}))" if b: "valid_on s (V - {n}) b" for b
  proof -
    have bv: "b v < nrec s v" using b v by (auto simp: valid_on_def)
    have "node_cost s n b j = mt s v n ! b v ! j + rcv s n ! j" if "j < ?k" for j
      using edge_ok_nth(4) [OF e bv that] by (simp add: node_cost_def one)
    then have "node_cost s n b ` {..<?k} = (\<lambda>j. mt s v n ! b v ! j + rcv s n ! j) ` {..<?k}" by (intro image_cong) auto
    then have "?d (b v) = min INVALID_LAYOUT_TIME (Min (node_cost s n b ` {..<?k}))" using d [OF bv] by simp
    moreover have "gcost (V - {n}) (\<lambda>u. set (nb s u) - {n}) (\<lambda>u i. rcv ?s u ! i) (\<lambda>u v i j. mt s u v ! i ! j) b = rest_cost s V n b + ?d (b v)"
      unfolding rest_cost_def using adj v bv by (intro gcost_add_node [where x = v]) (auto simp: adj_ok_def)
    ultimately show ?thesis using s'(5) by simp
  qed
  then have "exact s V n s'" using s'(3,4) nn(1) by (simp add: exact_def node_ok_def)
  then show ?thesis using run s'(1,2) by auto
qed

section \<open>Degree two\<close>

definition tabulate :: "nat \<Rightarrow> nat \<Rightarrow> (nat \<Rightarrow> nat \<Rightarrow> rat) \<Rightarrow> matrix" where
  "tabulate r c f = map (\<lambda>i. map (f i) [0..<c]) [0..<r]"

lemma tabulate_nth [simp]: "i < r \<Longrightarrow> j < c \<Longrightarrow> tabulate r c f ! i ! j = f i j" "length (tabulate r c f) = r"
  "i < r \<Longrightarrow> length (tabulate r c f ! i) = c"
  by (simp_all add: tabulate_def)

lemma mat_ok_tabulate: "(\<And>i j. i < r \<Longrightarrow> j < c \<Longrightarrow> 0 \<le> f i j) \<Longrightarrow> mat_ok (tabulate r c f) r c"
  by (auto simp: mat_ok_def tabulate_def)

lemma mat_ok_tabulated: "mat_ok m r c \<Longrightarrow> m = tabulate r c (\<lambda>i j. m ! i ! j)"
  by (auto simp: mat_ok_def tabulate_def intro!: nth_equalityI)

lemma reverse_matrix_tabulate: "0 < r \<Longrightarrow> reverse_matrix (tabulate r c f) = Inr (tabulate c r (\<lambda>j i. f i j))"
proof -
  assume "0 < r"
  then obtain row rows where m: "tabulate r c f = row # rows" by (cases "tabulate r c f") (auto simp: tabulate_def)
  have len: "length r' = c" if "r' \<in> set (tabulate r c f)" for r' using that by (auto simp: tabulate_def)
  have "reverse_matrix (tabulate r c f) = Inr (map (\<lambda>i. map (\<lambda>r'. r' ! i) (tabulate r c f)) [0..<c])"
    using len m by (simp add: reverse_matrix_def list_all_iff)
  also have "map (\<lambda>i. map (\<lambda>r'. r' ! i) (tabulate r c f)) [0..<c] = tabulate c r (\<lambda>j i. f i j)"
    by (auto simp: tabulate_def)
  finally show ?thesis .
qed

lemma add_all_eq: "length ds = length xs \<Longrightarrow> add_all xs ds = Inr (map2 (+) xs ds)"
  by (simp add: add_all_def)

lemma add_matrix_tabulate: "add_matrix (tabulate r c f) (tabulate r c g) = Inr (tabulate r c (\<lambda>i j. f i j + g i j))"
proof -
  have "res_map (\<lambda>(row, dr). add_all row dr) (zip (tabulate r c f) (tabulate r c g)) = Inr (tabulate r c (\<lambda>i j. f i j + g i j))"
    by (auto simp: res_map_Inr tabulate_def add_all_eq intro!: nth_equalityI)
  then show ?thesis by (simp add: add_matrix_def)
qed

text \<open>The table of the best choices for \<open>n\<close>.\<close>

definition delta :: "pq \<Rightarrow> nat \<Rightarrow> nat \<Rightarrow> nat \<Rightarrow> nat \<Rightarrow> nat \<Rightarrow> rat" where
  "delta s n x y i j = min_cost (map (\<lambda>k. mt s x n ! i ! k + mt s y n ! j ! k + rcv s n ! k) [0..<nrec s n])"

lemma delta_loop:
  assumes "edge_ok s x n" and "edge_ok s y n"
  shows "res_map (\<lambda>rx. res_map (delta_cost (rcv s n) rx) (mt s y n)) (mt s x n) = Inr (tabulate (nrec s x) (nrec s y) (delta s n x y))"
  using assms
  by (auto simp: res_map_Inr edge_ok_def mat_ok_def tabulate_def delta_cost_def delta_def)

lemma delta_node_cost:
  assumes "node_ok s n" and "edge_ok s x n" "edge_ok s y n" and "nb s n = [x, y]" "x \<noteq> y" and "b x < nrec s x" "b y < nrec s y"
  shows "delta s n x y (b x) (b y) = min INVALID_LAYOUT_TIME (Min (node_cost s n b ` {..<nrec s n}))"
proof -
  have "node_cost s n b k = mt s x n ! b x ! k + mt s y n ! b y ! k + rcv s n ! k" if "k < nrec s n" for k
    using assms(4,5) edge_ok_nth(4) [OF assms(2,6) that] edge_ok_nth(4) [OF assms(3,7) that] by (simp add: node_cost_def)
  then have "node_cost s n b ` {..<nrec s n} = (\<lambda>k. mt s x n ! b x ! k + mt s y n ! b y ! k + rcv s n ! k) ` {..<nrec s n}"
    by (intro image_cong) auto
  then show ?thesis using assms(1) by (simp add: delta_def min_cost_map node_ok_def)
qed

lemma delta_nonneg:
  assumes "node_ok s n" and "edge_ok s x n" "edge_ok s y n" and "i < nrec s x" "j < nrec s y"
  shows "0 \<le> delta s n x y i j"
  using assms(1) edge_ok_nth(3) [OF assms(2,4)] edge_ok_nth(3) [OF assms(3,5)]
  by (auto simp: delta_def node_ok_def intro!: min_cost_nonneg add_nonneg_nonneg)

text \<open>The neighbours are adjacent already: the table is added to their matrices, in place.\<close>

lemma RII_add_ok:
  assumes ok: "pq_ok s V" and n: "n \<in> V" and two: "nb s n = [x, y]" and xy: "x \<in> set (nb s y)"
  shows "\<exists>s'. RII_reduction n s = Inr s' \<and> reduces s V n s' \<and> exact s V n s'"
proof -
  note adj = pq_okD(1) [OF ok] and data = pq_okD(3) [OF ok]
  have v: "x \<in> V" "y \<in> V" "x \<noteq> n" "y \<noteq> n" "n \<in> set (nb s x)" "n \<in> set (nb s y)" "x \<noteq> y" using adj_okD [OF adj n] two by auto
  have finV: "finite V" using adj by (simp add: adj_ok_def)
  have yx: "y \<in> set (nb s x)" using adj_okD(5) [OF adj v(2) xy] .
  have nn: "node_ok s n" "node_ok s x" "node_ok s y" using node_okD [OF data] n v by auto
  have e: "edge_ok s x n" "edge_ok s y n" "edge_ok s x y" "edge_ok s y x" using edge_okD [OF data adj] v xy yx by auto
  obtain a b where ab: "pq_cost s (x, y) = Some a" "pq_cost s (y, x) = Some b" using e(3,4) by (auto simp: edge_ok_def)
  have in_pairs: "(x, y) \<in> pairs s (V - {n})" "(y, x) \<in> pairs s (V - {n})" using v xy yx by (auto simp: pairs_def)
  have inj: "inj_on (pq_cost s) (pairs s (V - {n}))" using data_ok_mono [OF data, of "V - {n}"] by (auto simp: data_ok_def)
  have "a \<noteq> b" using inj_onD [OF inj _ in_pairs] ab v(7) by auto
  have lt: "a < length (pq_heap s)" "b < length (pq_heap s)" using e(3,4) ab by (auto simp: edge_ok_def)
  let ?r = "nrec s x" and ?c = "nrec s y" and ?D = "delta s n x y"
  let ?m1 = "tabulate ?r ?c (\<lambda>i j. mt s x y ! i ! j + ?D i j)" and ?m2 = "tabulate ?c ?r (\<lambda>j i. mt s y x ! j ! i + ?D i j)"
  let ?s = "s\<lparr>pq_heap := (pq_heap s)[a := ?m1, b := ?m2]\<rparr>"
  have r: "0 < ?r" using nn(2) by (simp add: node_ok_def)
  have mats: "pq_heap s ! a = tabulate ?r ?c (\<lambda>i j. mt s x y ! i ! j)" "pq_heap s ! b = tabulate ?c ?r (\<lambda>j i. mt s y x ! j ! i)"
    using mat_ok_tabulated [of "mt s x y" ?r ?c] mat_ok_tabulated [of "mt s y x" ?c ?r] e(3,4) ab by (auto simp: edge_ok_def)
  have adds: "add_matrix (pq_heap s ! a) (tabulate ?r ?c ?D) = Inr ?m1" "add_matrix (pq_heap s ! b) (tabulate ?c ?r (\<lambda>j i. ?D i j)) = Inr ?m2"
    unfolding mats by (simp_all only: add_matrix_tabulate)
  have ne: "tabulate ?r ?c ?D \<noteq> []" using r by (auto simp: tabulate_def)
  have dg: "dget (pq_cost s) (x, y) = Inr a" "dget (pq_cost s) (y, x) = Inr b" by (simp_all add: dget_def ab)
  have run: "RII_reduction n s = finish_reduction n ?s"
    using \<open>a \<noteq> b\<close> xy v(7) by (simp add: RII_reduction_def dget_adj [OF adj] n v two layout_cost_edge e dget_rc nn delta_loop dg
        adds ne reverse_matrix_tabulate [OF r])
  have mt1: "mt ?s x y = ?m1" "mt ?s y x = ?m2" using ab lt \<open>a \<noteq> b\<close> by auto
  have mt_other: "mt ?s u w = mt s u w" if "(u, w) \<in> pairs s (V - {n})" "(u, w) \<noteq> (x, y)" "(u, w) \<noteq> (y, x)" for u w
  proof -
    have "pq_cost s (u, w) \<noteq> Some a" "pq_cost s (u, w) \<noteq> Some b"
      using inj_on_eq_iff [OF inj that(1) in_pairs(1)] inj_on_eq_iff [OF inj that(1) in_pairs(2)] that(2,3) by (simp_all only: ab) simp_all
    moreover have "pq_cost s (u, w) \<noteq> None" using data_ok_mono [OF data, of "V - {n}"] that(1) by (auto simp: data_ok_def edge_ok_def)
    ultimately show ?thesis by auto
  qed
  have pos: "0 \<le> mt s x y ! i ! j + ?D i j" "0 \<le> mt s y x ! j ! i + ?D i j" if "i < ?r" "j < ?c" for i j
    using edge_ok_nth(3) [OF e(3) that(1)] edge_ok_nth(3) [OF e(4) that(2)] delta_nonneg [OF nn(1) e(1,2) that] that by (auto intro: add_nonneg_nonneg)
  have data1: "data_ok ?s (V - {n})"
  proof -
    have "edge_ok ?s u w" if uw: "(u, w) \<in> pairs s (V - {n})" for u w
    proof (cases "(u, w) = (x, y) \<or> (u, w) = (y, x)")
      case True
      have "mat_ok ?m1 ?r ?c" "mat_ok ?m2 ?c ?r" using pos by (auto intro: mat_ok_tabulate)
      then show ?thesis using True ab lt mt1 edge_ok_nth(4) [OF e(3)] by (auto simp: edge_ok_def)
    next
      case False
      have "(w, u) \<in> pairs s (V - {n})" using uw adj_okD(5) [OF adj] by (auto simp: pairs_def)
      then have "mt ?s u w = mt s u w" "mt ?s w u = mt s w u" using mt_other [of u w] mt_other [of w u] uw False by auto
      moreover have "edge_ok s u w" using data_ok_mono [OF data, of "V - {n}"] uw by (auto simp: data_ok_def)
      ultimately show ?thesis by (simp add: edge_ok_def)
    qed
    moreover have "node_ok ?s u" if "u \<in> V - {n}" for u using node_okD [OF data, of u] that by (simp add: node_ok_def)
    ultimately show ?thesis using inj by (auto simp: data_ok_def pairs_def)
  qed
  obtain s' where s': "finish_reduction n ?s = Inr s'" "reduces s V n s'" "pq_record s' = pq_record s" "pq_is_optimal s' = pq_is_optimal s"
    "\<And>b. pcost s' (V - {n}) b = gcost (V - {n}) (\<lambda>u. set (nb s u) - {n}) (\<lambda>u i. rcv s u ! i) (\<lambda>u v i j. mt ?s u v ! i ! j) b"
  proof -
    have "\<exists>s'. finish_reduction n ?s = Inr s' \<and> reduces s V n s' \<and> pq_record s' = pq_record ?s \<and> pq_is_optimal s' = pq_is_optimal ?s
      \<and> (\<forall>b. pcost s' (V - {n}) b = gcost (V - {n}) (\<lambda>u. set (nb s u) - {n}) (\<lambda>u i. rcv ?s u ! i) (\<lambda>u v i j. mt ?s u v ! i ! j) b)"
    proof (rule finish_same_graph [OF ok n])
      fix p assume "Some p \<notin> pq_cost s ` pairs s (V - {n})"
      then have "p \<noteq> a" "p \<noteq> b" using in_pairs ab by (metis image_eqI)+
      then show "pq_heap ?s ! p = pq_heap s ! p" by simp
    qed (use data1 in auto)
    then show ?thesis using that by auto
  qed
  have "pcost s' (V - {n}) f = rest_cost s V n f + ?D (f x) (f y)" if f: "valid_on s (V - {n}) f" for f
  proof -
    have fxy: "f x < ?r" "f y < ?c" using f v by (auto simp: valid_on_def)
    show ?thesis
      unfolding s'(5) rest_cost_def
    proof (rule gcost_add_edge [where x = x and y = y])
      fix u w assume u: "u \<in> V - {n}" and w: "w \<in> set (nb s u) - {n}"
      then have uw: "(u, w) \<in> pairs s (V - {n})" using adj_okD(3) [OF adj, of u] by (auto simp: pairs_def)
      show "mt ?s u w ! f u ! f w = (if w \<in> set (nb s u) - {n} then mt s u w ! f u ! f w else 0) + (if {u, w} = {x, y} then ?D (f x) (f y) else 0)"
        using mt_other [OF uw] mt1 fxy w by (auto simp: doubleton_eq_iff)
    qed (use v xy yx finV in auto)
  qed
  then have "exact s V n s'"
    unfolding exact_def using s'(3,4) nn(1) v delta_node_cost [OF nn(1) e(1,2) two v(7)] by (auto simp: valid_on_def node_ok_def)
  then show ?thesis using run s'(1,2) by auto
qed

text \<open>The neighbours are not adjacent: the table becomes the matrix of a new edge.\<close>

definition with_edge :: "pq \<Rightarrow> nat \<Rightarrow> nat \<Rightarrow> matrix \<Rightarrow> matrix \<Rightarrow> pq" where
  "with_edge s x y m rm = s\<lparr>pq_cost := (pq_cost s)((x, y) \<mapsto> length (pq_heap s), (y, x) \<mapsto> Suc (length (pq_heap s))),
     pq_heap := pq_heap s @ [m, rm], pq_adj := (pq_adj s)(x \<mapsto> nb s x @ [y], y \<mapsto> nb s y @ [x])\<rparr>"

lemma with_edge_sel [simp]:
  "pq_rc (with_edge s x y m rm) = pq_rc s" "pq_record (with_edge s x y m rm) = pq_record s" "pq_is_optimal (with_edge s x y m rm) = pq_is_optimal s"
  "pq_stack (with_edge s x y m rm) = pq_stack s" "pq_max_degree (with_edge s x y m rm) = pq_max_degree s"
  "pq_buckets (with_edge s x y m rm) = pq_buckets s" "pq_degree (with_edge s x y m rm) = pq_degree s"
  "pq_heap (with_edge s x y m rm) = pq_heap s @ [m, rm]"
  "x \<noteq> y \<Longrightarrow> pq_cost (with_edge s x y m rm) (x, y) = Some (length (pq_heap s))"
  "pq_cost (with_edge s x y m rm) (y, x) = Some (Suc (length (pq_heap s)))"
  by (simp_all add: with_edge_def)

lemma with_edge_cost_upd:
  "pq_cost (with_edge s x y m rm) = (pq_cost s)((x, y) \<mapsto> length (pq_heap s), (y, x) \<mapsto> Suc (length (pq_heap s)))"
  by (simp add: with_edge_def)

lemma with_edge_cost: "q \<noteq> (x, y) \<Longrightarrow> q \<noteq> (y, x) \<Longrightarrow> pq_cost (with_edge s x y m rm) q = pq_cost s q"
  by (simp only: with_edge_cost_upd fun_upd_apply if_False)

lemma with_edge_nb: "x \<noteq> y \<Longrightarrow> nb (with_edge s x y m rm) u = (if u = x then nb s x @ [y] else if u = y then nb s y @ [x] else nb s u)"
  by (simp add: with_edge_def)

lemma with_edge_set: "x \<noteq> y \<Longrightarrow> set (nb (with_edge s x y m rm) u) = set (nb s u) \<union> (if u = x then {y} else {}) \<union> (if u = y then {x} else {})"
  by (auto simp: with_edge_nb)

lemma with_edge_adj_ok:
  assumes "adj_ok s V" and "x \<in> V" "y \<in> V" "x \<noteq> y" "x \<notin> set (nb s y)"
  shows "adj_ok (with_edge s x y m rm) V"
proof -
  have yx: "y \<notin> set (nb s x)" using adj_okD(5) [OF assms(1,2)] assms(5) by auto
  have "pq_adj (with_edge s x y m rm) u \<noteq> None" if "u \<in> V" for u
    using assms(1) that by (auto simp: with_edge_def adj_ok_def)
  moreover have "distinct (nb (with_edge s x y m rm) u)" if "u \<in> V" for u
    using adj_okD(2) [OF assms(1) that] assms(4,5) yx by (auto simp: with_edge_nb)
  moreover have "set (nb (with_edge s x y m rm) u) \<subseteq> V - {u}" if "u \<in> V" for u
    using adj_okD(3,4) [OF assms(1) that] assms(2-4) that by (auto simp: with_edge_set)
  moreover have "u \<in> set (nb (with_edge s x y m rm) w)" if "u \<in> V" "w \<in> set (nb (with_edge s x y m rm) u)" for u w
    using that adj_okD(5) [OF assms(1) that(1), of w] assms(2-4) by (auto simp: with_edge_set split: if_splits)
  ultimately show ?thesis using assms(1) by (simp add: adj_ok_def)
qed

lemma insert_edge_eq:
  assumes "adj_ok s V" and "x \<in> V" "y \<in> V" "x \<noteq> y" and "reverse_matrix m = Inr rm"
  shows "insert_edge x y m s = Inr (with_edge s x y m rm)"
proof -
  obtain xs ys where "pq_adj s x = Some xs" "pq_adj s y = Some ys" using adj_okD(1) [OF assms(1)] assms(2,3) by blast
  then show ?thesis using assms(4,5) by (simp add: insert_edge_def with_edge_def dget_def Let_def)
qed

lemma with_edge_data_ok:
  assumes adj: "adj_ok s V" and data: "data_ok s V'" and sub: "V' \<subseteq> V" and v: "x \<in> V'" "y \<in> V'" "x \<noteq> y" "x \<notin> set (nb s y)"
    and pos: "\<forall>i < nrec s x. \<forall>j < nrec s y. 0 \<le> D i j"
  defines "s1 \<equiv> with_edge s x y (tabulate (nrec s x) (nrec s y) D) (tabulate (nrec s y) (nrec s x) (\<lambda>j i. D i j))"
  shows "data_ok s1 V'" and "pairs s1 V' = pairs s V' \<union> {(x, y), (y, x)}" and "(x, y) \<notin> pairs s V'" "(y, x) \<notin> pairs s V'"
    and "\<And>u w. (u, w) \<in> pairs s V' \<Longrightarrow> mt s1 u w = mt s u w"
proof -
  show new: "(x, y) \<notin> pairs s V'" "(y, x) \<notin> pairs s V'" using v adj_okD(5) [OF adj, of x y] sub by (auto simp: pairs_def)
  show pairs: "pairs s1 V' = pairs s V' \<union> {(x, y), (y, x)}" using v by (auto simp: pairs_def s1_def with_edge_set split: if_splits)
  have cost: "pq_cost s1 (u, w) = pq_cost s (u, w)" "edge_ok s u w" if "(u, w) \<in> pairs s V'" for u w
    using that new data with_edge_cost [of "(u, w)" x y s] by (auto simp: s1_def data_ok_def)
  show same: "mt s1 u w = mt s u w" if "(u, w) \<in> pairs s V'" for u w
    using cost [OF that] by (auto simp: s1_def edge_ok_def nth_append)
  have "edge_ok s1 u w" if "(u, w) \<in> pairs s V'" for u w
  proof -
    have "(w, u) \<in> pairs s V'" using that adj_okD(5) [OF adj] sub by (auto simp: pairs_def)
    then have "mt s1 w u = mt s w u" "mt s1 u w = mt s u w" using same that by auto
    then show ?thesis using cost [OF that] by (auto simp: edge_ok_def s1_def)
  qed
  moreover have "edge_ok s1 x y" "edge_ok s1 y x"
    using v(3) pos by (auto simp: edge_ok_def s1_def nth_append intro!: mat_ok_tabulate)
  moreover have "node_ok s1 u" if "u \<in> V'" for u using node_okD [OF data that] by (simp add: node_ok_def s1_def)
  moreover have "inj_on (pq_cost s1) (pairs s1 V')"
  proof -
    have lt: "the (pq_cost s1 (u, w)) < length (pq_heap s)" if "(u, w) \<in> pairs s V'" for u w
      using cost [OF that] by (auto simp: edge_ok_def)
    have "inj_on (pq_cost s1) (pairs s V')"
      using data inj_on_cong [of "pairs s V'" "pq_cost s1" "pq_cost s"] cost(1) by (auto simp: data_ok_def)
    moreover have "pq_cost s1 (x, y) \<notin> pq_cost s1 ` pairs s V'" "pq_cost s1 (y, x) \<notin> pq_cost s1 ` pairs s V'"
    proof -
      have "c < length (pq_heap s)" if "Some c \<in> pq_cost s1 ` pairs s V'" for c
        using that lt by (metis image_iff option.sel surj_pair)
      then show "pq_cost s1 (x, y) \<notin> pq_cost s1 ` pairs s V'" "pq_cost s1 (y, x) \<notin> pq_cost s1 ` pairs s V'"
        using v(3) by (fastforce simp: s1_def)+
    qed
    moreover have "pq_cost s1 (x, y) \<noteq> pq_cost s1 (y, x)" using v(3) by (simp add: s1_def)
    ultimately show ?thesis unfolding pairs by (simp add: inj_on_insert) blast
  qed
  ultimately show "data_ok s1 V'" unfolding data_ok_def pairs by auto
qed

lemma RII_insert_ok:
  assumes ok: "pq_ok s V" and n: "n \<in> V" and two: "nb s n = [x, y]" and xy: "x \<notin> set (nb s y)"
  shows "\<exists>s'. RII_reduction n s = Inr s' \<and> reduces s V n s' \<and> exact s V n s'"
proof -
  note adj = pq_okD(1) [OF ok] and data = pq_okD(3) [OF ok] and deg = pq_okD(2) [OF ok]
  have v: "x \<in> V" "y \<in> V" "x \<noteq> n" "y \<noteq> n" "n \<in> set (nb s x)" "n \<in> set (nb s y)" "x \<noteq> y" using adj_okD [OF adj n] two by auto
  have finV: "finite V" using adj by (simp add: adj_ok_def)
  have nn: "node_ok s n" "node_ok s x" "node_ok s y" using node_okD [OF data] n v by auto
  have e: "edge_ok s x n" "edge_ok s y n" using edge_okD [OF data adj] v by auto
  let ?D = "delta s n x y"
  let ?m = "tabulate (nrec s x) (nrec s y) ?D" and ?rm = "tabulate (nrec s y) (nrec s x) (\<lambda>j i. ?D i j)"
  let ?s = "with_edge s x y ?m ?rm"
  have r: "0 < nrec s x" using nn(2) by (simp add: node_ok_def)
  have run: "RII_reduction n s = finish_reduction n ?s"
    using xy v(7) by (simp add: RII_reduction_def dget_adj [OF adj] n v two layout_cost_edge e dget_rc nn delta_loop
        insert_edge_eq [OF adj v(1,2,7) reverse_matrix_tabulate [OF r]])
  have v': "x \<in> V - {n}" "y \<in> V - {n}" using v by auto
  have sub: "V - {n} \<subseteq> V" by auto
  have pos: "\<forall>i < nrec s x. \<forall>j < nrec s y. 0 \<le> ?D i j" using delta_nonneg [OF nn(1) e] by blast
  note new = with_edge_data_ok [OF adj data_ok_mono [OF data sub] sub v' v(7) xy pos]
  have nbn: "nb ?s n = [x, y]" using v two by (simp add: with_edge_nb)
  have deg': "pq_degree s u = Some (length (nb s u)) \<and> int (length (nb s u)) \<le> pq_max_degree s" if "u \<in> V" for u
    using deg that by (simp add: deg_ok_def)
  have "\<exists>s'. finish_reduction n ?s = Inr s' \<and> reduces s V n s' \<and> pq_record s' = pq_record ?s \<and> pq_is_optimal s' = pq_is_optimal ?s
    \<and> (\<forall>b. pcost s' (V - {n}) b = gcost (V - {n}) (\<lambda>u. set (nb ?s u) - {n}) (\<lambda>u i. rcv ?s u ! i) (\<lambda>u v i j. mt ?s u v ! i ! j) b)"
  proof (rule finish_reduces)
    show "adj_ok ?s V" by (rule with_edge_adj_ok [OF adj v(1,2,7) xy])
    show "bk_ok ?s V" using bk_ok_cong [of s V ?s] deg by (simp add: deg_ok_def)
    show "int (length (pq_buckets ?s)) = pq_max_degree ?s + 2" using deg by (simp add: deg_ok_def)
    show "data_ok ?s (V - {n})" using new(1) .
    show "pq_cost ?s ` pairs ?s (V - {n}) \<subseteq> pq_cost s ` pairs s (V - {n}) \<union> {Some p |p. length (pq_heap s) \<le> p}"
    proof -
      have "pq_cost ?s q = pq_cost s q" if "q \<in> pairs s (V - {n})" for q
        using new(3,4) that by (intro with_edge_cost) auto
      then have "pq_cost ?s ` pairs s (V - {n}) = pq_cost s ` pairs s (V - {n})" by (rule image_cong [OF refl])
      moreover have "pq_cost ?s ` pairs ?s (V - {n}) = pq_cost ?s ` (pairs s (V - {n}) \<union> {(x, y), (y, x)})" by (simp only: new(2))
      ultimately show ?thesis using v(7) by auto
    qed
  next
    fix u assume "u \<in> V" "u \<notin> set (nb ?s n)"
    then show "pq_degree ?s u = Some (length (nb ?s u)) \<and> int (length (nb ?s u)) \<le> pq_max_degree ?s"
      using deg' unfolding nbn by (simp add: with_edge_nb v(7))
  next
    fix u assume "u \<in> set (nb ?s n)"
    then show "int (length (nb ?s u)) \<le> pq_max_degree ?s + 1"
      using deg' [OF v(1)] deg' [OF v(2)] unfolding nbn by (auto simp: with_edge_nb v(7))
  next
    fix u assume u: "u \<notin> V - {n}"
    then have "u \<noteq> x" "u \<noteq> y" using v by auto
    then have "pq_cost ?s (u, w) = pq_cost s (u, w)" for w by (intro with_edge_cost) auto
    then show "pq_adj ?s u = pq_adj s u \<and> pq_rc ?s u = pq_rc s u \<and> (\<forall>w. pq_cost ?s (u, w) = pq_cost s (u, w))"
      using \<open>u \<noteq> x\<close> \<open>u \<noteq> y\<close> by (simp add: with_edge_def)
  qed (use n in \<open>auto simp: nth_append\<close>)
  then obtain s' where s': "finish_reduction n ?s = Inr s'" "reduces s V n s'" "pq_record s' = pq_record s" "pq_is_optimal s' = pq_is_optimal s"
    "\<And>b. pcost s' (V - {n}) b = gcost (V - {n}) (\<lambda>u. set (nb ?s u) - {n}) (\<lambda>u i. rcv s u ! i) (\<lambda>u v i j. mt ?s u v ! i ! j) b" by auto
  have "pcost s' (V - {n}) f = rest_cost s V n f + ?D (f x) (f y)" if f: "valid_on s (V - {n}) f" for f
  proof -
    have fxy: "f x < nrec s x" "f y < nrec s y" using f v by (auto simp: valid_on_def)
    have mt1: "mt ?s x y = ?m" "mt ?s y x = ?rm" using v(7) by (simp_all add: nth_append)
    show ?thesis
      unfolding s'(5) rest_cost_def
    proof (rule gcost_add_edge [where x = x and y = y])
      fix u assume "u \<in> V - {n}"
      fix w assume w: "w \<in> set (nb ?s u) - {n}"
      show "mt ?s u w ! f u ! f w = (if w \<in> set (nb s u) - {n} then mt s u w ! f u ! f w else 0) + (if {u, w} = {x, y} then ?D (f x) (f y) else 0)"
      proof (cases "(u, w) = (x, y) \<or> (u, w) = (y, x)")
        case True
        then have "w \<notin> set (nb s u)" using xy adj_okD(5) [OF adj v(1), of y] by auto
        then show ?thesis using True mt1 fxy by auto
      next
        case False
        then have wu: "w \<in> set (nb s u)" using w v(7) by (auto simp: with_edge_set split: if_splits)
        then have "(u, w) \<in> pairs s (V - {n})" using adj_okD(3) [OF adj, of u] \<open>u \<in> V - {n}\<close> w by (auto simp: pairs_def)
        then have "mt ?s u w = mt s u w" by (rule new(5))
        moreover have "{u, w} \<noteq> {x, y}" using False by (auto simp: doubleton_eq_iff)
        ultimately show ?thesis using wu w by simp
      qed
    qed (use v finV in \<open>auto simp: with_edge_set\<close>)
  qed
  then have "exact s V n s'"
    unfolding exact_def using s'(3,4) nn(1) v delta_node_cost [OF nn(1) e two v(7)] by (auto simp: valid_on_def node_ok_def)
  then show ?thesis using run s'(1,2) by auto
qed

lemma RII_ok:
  assumes "pq_ok s V" and "n \<in> V" and "length (nb s n) = 2"
  shows "\<exists>s'. RII_reduction n s = Inr s' \<and> reduces s V n s' \<and> exact s V n s'"
proof -
  obtain x y where "nb s n = [x, y]" using assms(3) by (auto simp: numeral_2_eq_2 length_Suc_conv)
  then show ?thesis using RII_add_ok [OF assms(1,2)] RII_insert_ok [OF assms(1,2)] by blast
qed

section \<open>Higher degrees\<close>

lemma RN_choose_ok:
  assumes ok: "pq_ok s V" and n: "n \<in> V"
  shows "\<exists>best. RN_choose n s = Inr best \<and> (\<forall>i. best = Some i \<longrightarrow> i < nrec s n)"
proof -
  note adj = pq_okD(1) [OF ok] and data = pq_okD(3) [OF ok]
  have nn: "node_ok s n" using node_okD [OF data n] .
  have total: "\<exists>c. adjacent_min s n i v = Inr c" if i: "i < nrec s n" and v: "v \<in> set (nb s n)" for i v
  proof -
    have "v \<in> V" using adj_okD(3) [OF adj n] v by auto
    then have "node_ok s v" using node_okD [OF data] by auto
    moreover have e: "edge_ok s n v" using edge_okD [OF data adj n v] .
    ultimately show ?thesis
      using edge_ok_nth(1,2) [OF e i] i by (auto simp: adjacent_min_def layout_cost_edge dget_rc py_get_nat add_all_eq node_ok_def)
  qed
  have "\<exists>ms. res_map (adjacent_min s n i) (nb s n) = Inr ms" if "i < nrec s n" for i
    using res_map_total [of "nb s n" "adjacent_min s n i" "\<lambda>v. projr (adjacent_min s n i v)"] total [OF that] by (metis sum.sel(2))
  then obtain F where F: "\<And>i. i < nrec s n \<Longrightarrow> res_map (adjacent_min s n i) (nb s n) = Inr (F i)" by metis
  have "\<exists>best least. res_foldl (\<lambda>(best, least) i. res_bind (res_map (adjacent_min s n i) (nb s n)) (\<lambda>ms.
           let c = rcv s n ! i + sum_list ms in Inr (if c < least then (Some i, c) else (best, least)))) (b, l) is = Inr (best, least)
       \<and> (\<forall>i. best = Some i \<longrightarrow> i < nrec s n)"
    if "\<forall>i\<in>set is. i < nrec s n" "\<forall>i. b = Some i \<longrightarrow> i < nrec s n" for b l "is"
    using that by (induction "is" arbitrary: b l) (auto simp: F Let_def)
  from this [of "[0..<nrec s n]" None INVALID_LAYOUT_TIME] show ?thesis
    unfolding RN_choose_def by (auto simp: dget_rc nn dget_adj [OF adj n])
qed

text \<open>The loop that charges the neighbours for the choice.\<close>

definition RN_one :: "nat \<Rightarrow> nat \<Rightarrow> pq \<Rightarrow> nat \<Rightarrow> pq res" where
  "RN_one n i s a =
     res_bind (layout_cost s n a) (\<lambda>m.
     res_bind (py_get m (int i)) (\<lambda>row.
     res_bind (dget (pq_rc s) a) (\<lambda>rca.
     res_bind (add_all rca row) (\<lambda>rca'. Inr (s\<lparr>pq_rc := (pq_rc s)(a \<mapsto> rca')\<rparr>)))))"

lemma RN_loop:
  assumes "distinct as" and "\<And>a. a \<in> set as \<Longrightarrow> layout_cost s n a = Inr (M a) \<and> i < length (M a)
      \<and> (\<exists>rca. pq_rc s a = Some rca \<and> length (M a ! i) = length rca)"
  shows "res_foldl (RN_one n i) s as = Inr (s\<lparr>pq_rc := (\<lambda>u. if u \<in> set as then Some (map2 (+) (rcv s u) (M u ! i)) else pq_rc s u)\<rparr>)"
  using assms
proof (induction as arbitrary: s)
  case (Cons a as)
  obtain rca where a: "layout_cost s n a = Inr (M a)" "i < length (M a)" "pq_rc s a = Some rca" "length (M a ! i) = length rca"
    using Cons.prems(2) by (meson list.set_intros(1))
  let ?s = "s\<lparr>pq_rc := (pq_rc s)(a \<mapsto> map2 (+) rca (M a ! i))\<rparr>"
  have step: "RN_one n i s a = Inr ?s" using a by (simp add: RN_one_def py_get_nat dget_def add_all_eq)
  have "res_foldl (RN_one n i) ?s as = Inr (?s\<lparr>pq_rc := (\<lambda>u. if u \<in> set as then Some (map2 (+) (rcv ?s u) (M u ! i)) else pq_rc ?s u)\<rparr>)"
    using Cons.prems by (intro Cons.IH) (auto simp: layout_cost_def)
  moreover have "(\<lambda>u. if u \<in> set as then Some (map2 (+) (rcv ?s u) (M u ! i)) else pq_rc ?s u)
      = (\<lambda>u. if u \<in> set (a # as) then Some (map2 (+) (rcv s u) (M u ! i)) else pq_rc s u)"
    using a(3) Cons.prems(1) by (auto simp: fun_eq_iff)
  ultimately show ?case using step by simp
qed simp

lemma RN_eq: "RN_reduction n s = res_bind (RN_choose n s) (\<lambda>best.
       case best of
         None \<Rightarrow> Inl RuntimeError
       | Some i \<Rightarrow> res_bind (dget (pq_adj s) n) (\<lambda>adjs.
           res_bind (res_foldl (RN_one n i) (s\<lparr>pq_record := (pq_record s)(n \<mapsto> i), pq_is_optimal := False\<rparr>) adjs) (finish_reduction n)))"
  unfolding RN_reduction_def RN_one_def [abs_def] by (rule refl)

lemma RN_ok:
  assumes ok: "pq_ok s V" and n: "n \<in> V"
  shows "RN_reduction n s = Inl RuntimeError \<or> (\<exists>s'. RN_reduction n s = Inr s' \<and> reduces s V n s' \<and> fixes_node s n s')"
proof -
  note adj = pq_okD(1) [OF ok] and data = pq_okD(3) [OF ok]
  obtain best where best: "RN_choose n s = Inr best" "\<forall>i. best = Some i \<longrightarrow> i < nrec s n" using RN_choose_ok [OF ok n] by blast
  show ?thesis
  proof (cases best)
    case None
    then show ?thesis using best(1) by (simp add: RN_eq)
  next
    case (Some i)
    then have i: "i < nrec s n" using best(2) by blast
    let ?t = "s\<lparr>pq_record := (pq_record s)(n \<mapsto> i), pq_is_optimal := False\<rparr>"
    let ?s = "?t\<lparr>pq_rc := (\<lambda>u. if u \<in> set (nb s n) then Some (map2 (+) (rcv s u) (mt s n u ! i)) else pq_rc s u)\<rparr>"
    have e: "edge_ok s n v" "node_ok s v" if "v \<in> set (nb s n)" for v
      using edge_okD [OF data adj n that] node_okD [OF data] adj_okD(3) [OF adj n] that by auto
    have "res_foldl (RN_one n i) ?t (nb s n) = Inr (?t\<lparr>pq_rc := (\<lambda>u. if u \<in> set (nb s n) then Some (map2 (+) (rcv ?t u) (mt s n u ! i)) else pq_rc ?t u)\<rparr>)"
    proof (rule RN_loop [OF adj_okD(2) [OF adj n]])
      fix v assume v: "v \<in> set (nb s n)"
      have "layout_cost ?t n v = Inr (mt s n v)" using layout_cost_edge [OF e(1) [OF v]] by (simp add: layout_cost_def)
      then show "layout_cost ?t n v = Inr (mt s n v) \<and> i < length (mt s n v) \<and> (\<exists>rca. pq_rc ?t v = Some rca \<and> length (mt s n v ! i) = length rca)"
        using e [OF v] i edge_ok_nth(1,2) [OF e(1) [OF v] i] by (auto simp: node_ok_def)
    qed
    then have "res_foldl (RN_one n i) ?t (nb s n) = Inr ?s" by (simp cong: if_cong)
    then have run: "RN_reduction n s = finish_reduction n ?s"
      using best(1) Some by (simp add: RN_eq dget_adj [OF adj n])
    have len: "length (map2 (+) (rcv s v) (mt s n v ! i)) = nrec s v" if "v \<in> set (nb s n)" for v
      using edge_ok_nth(2) [OF e(1) [OF that] i] by simp
    have nonneg: "0 \<le> c" if c: "c \<in> set (map2 (+) (rcv s v) (mt s n v ! i))" and v: "v \<in> set (nb s n)" for c v
    proof -
      obtain j where "j < nrec s v" "c = rcv s v ! j + mt s n v ! i ! j"
        using c edge_ok_nth(2) [OF e(1) [OF v] i] by (auto simp: in_set_conv_nth)
      then show ?thesis using e [OF v] edge_ok_nth(3) [OF e(1) [OF v] i] by (auto simp: node_ok_def)
    qed
    have data1: "data_ok ?s (V - {n})"
    proof (rule data_ok_rc [OF data_ok_mono [OF data]])
      fix u assume "u \<in> V - {n}"
      then have "node_ok s u" "u \<noteq> n" using node_okD [OF data] by auto
      then show "pq_record ?s u = None \<and> pq_rc ?s u \<noteq> None \<and> nrec ?s u = nrec s u \<and> (\<forall>c\<in>set (rcv ?s u). 0 \<le> c)"
        using len [of u] nonneg [of _ u] by (auto simp: node_ok_def)
    qed auto
    have "\<exists>s'. finish_reduction n ?s = Inr s' \<and> reduces s V n s' \<and> pq_record s' = pq_record ?s \<and> pq_is_optimal s' = pq_is_optimal ?s
      \<and> (\<forall>b. pcost s' (V - {n}) b = gcost (V - {n}) (\<lambda>u. set (nb s u) - {n}) (\<lambda>u i. rcv ?s u ! i) (\<lambda>u v i j. mt ?s u v ! i ! j) b)"
    proof (rule finish_same_graph [OF ok n])
      fix u assume "u \<notin> V - {n}"
      then show "pq_rc ?s u = pq_rc s u" using adj_okD(3,4) [OF adj n] by auto
    next
      fix u show "nrec ?s u = nrec s u" using len [of u] by simp
    qed (use data1 n in auto)
    then show ?thesis using run i by (auto simp: fixes_node_def)
  qed
qed

end
