(* ===== verification/PbqpSolve.thy ===== *)
theory PbqpSolve
  imports PbqpCorrect
begin

text \<open>
  The two passes of the PBQP tuner, by induction over the forward pass: the backward pass never fails, and its choices are of least
  cost as long as no node had to be fixed.
\<close>

section \<open>The forward pass\<close>

lemma bucket_member:
  assumes "pq_ok s V" and "d < length (pq_buckets s)" and "n \<in> set (pq_buckets s ! d)"
  shows "n \<in> V" "length (nb s n) = d"
proof -
  have "n \<in> V \<and> pq_degree s n = Some d" using assms pq_okD(2) [OF assms(1)] by (auto simp: deg_ok_def bk_ok_def)
  then show "n \<in> V" "length (nb s n) = d" using pq_okD(2) [OF assms(1)] by (auto simp: deg_ok_def)
qed

lemma forward_step_ok:
  assumes ok: "pq_ok s V" and "0 \<le> pq_max_degree s"
  obtains (finished) "forward_step s = Inr None" "\<And>u. u \<in> V \<Longrightarrow> nb s u = []"
  | (stuck) "forward_step s = Inl RuntimeError" "3 \<le> pq_max_degree s"
  | (exact) n s' where "n \<in> V" "forward_step s = Inr (Some s')" "reduces s V n s'" "exact s V n s'"
  | (fixed) n s' where "n \<in> V" "forward_step s = Inr (Some s')" "reduces s V n s'" "fixes_node s n s'" "3 \<le> pq_max_degree s"
proof -
  have len: "int (length (pq_buckets s)) = pq_max_degree s + 2" using pq_okD(2) [OF ok] by (simp add: deg_ok_def)
  then have b1: "bucket s 1 = Inr (pq_buckets s ! 1)" using assms(2) by (simp add: bucket_def)
  let ?ds = "filter (\<lambda>d. pq_buckets s ! d \<noteq> []) (rev [3..<nat (pq_max_degree s + 1)])"
  consider (one) n ns where "pq_buckets s ! 1 = n # ns"
    | (two) "pq_buckets s ! 1 = []" "2 \<le> pq_max_degree s" "pq_buckets s ! 2 \<noteq> []"
    | (more) d ds where "pq_buckets s ! 1 = []" "\<not> (2 \<le> pq_max_degree s \<and> pq_buckets s ! 2 \<noteq> [])" "3 \<le> pq_max_degree s" "?ds = d # ds"
    | (none) "pq_buckets s ! 1 = []" "\<not> (2 \<le> pq_max_degree s \<and> pq_buckets s ! 2 \<noteq> [])" "3 \<le> pq_max_degree s \<longrightarrow> ?ds = []"
    by (cases "pq_buckets s ! 1"; cases ?ds) blast+
  then show ?thesis
  proof cases
    case one
    then have n: "n \<in> V" "length (nb s n) = 1" using bucket_member [OF ok, of 1 n] len assms(2) by auto
    then obtain v where "nb s n = [v]" by (auto simp: length_Suc_conv)
    then show ?thesis using RI_ok [OF ok n(1)] exact [OF n(1)] one b1 by (auto simp: forward_step_def)
  next
    case two
    have n: "hd (pq_buckets s ! 2) \<in> V" "length (nb s (hd (pq_buckets s ! 2))) = 2"
      using bucket_member [OF ok, of 2 "hd (pq_buckets s ! 2)"] len two by auto
    then show ?thesis using RII_ok [OF ok n] exact [OF n(1)] two b1 by (auto simp: forward_step_def)
  next
    case more
    have "d \<in> set ?ds" unfolding more(4) by simp
    then have d: "d < length (pq_buckets s)" "pq_buckets s ! d \<noteq> []" using len by auto
    have n: "hd (pq_buckets s ! d) \<in> V" using bucket_member [OF ok d(1)] d(2) by simp
    have step: "forward_step s = res_bind (RN_reduction (hd (pq_buckets s ! d)) s) (\<lambda>s'. Inr (Some s'))"
      using b1 more by (simp add: forward_step_def)
    show ?thesis using RN_ok [OF ok n] stuck fixed [OF n] more(3) by (auto simp: step)
  next
    case none
    have "nb s u = []" if u: "u \<in> V" for u
    proof -
      let ?d = "length (nb s u)"
      have d: "int ?d \<le> pq_max_degree s" "u \<in> set (pq_buckets s ! ?d)"
        using pq_okD(2) [OF ok] u by (fastforce simp: deg_ok_def bk_ok_def)+
      have "?d \<noteq> 1" "\<not> (?d = 2)" using d none(1,2) by auto
      moreover have "\<not> 3 \<le> ?d"
      proof
        assume "3 \<le> ?d"
        then have "?d \<in> set ?ds" using d by auto
        then show False using none(3) d(1) \<open>3 \<le> ?d\<close> by auto
      qed
      ultimately have "?d = 0" by linarith
      then show ?thesis by simp
    qed
    moreover have "forward_step s = Inr None" using b1 none by (auto simp: forward_step_def)
    ultimately show ?thesis using finished by blast
  qed
qed

section \<open>Choosing\<close>

lemma argmin_least: "xs \<noteq> [] \<Longrightarrow> \<exists>i < length xs. argmin xs = Inr i \<and> xs ! i = Min (set xs)"
  using py_index_total [of "Min (set xs)" xs] py_index_Inr [of xs "Min (set xs)"] by (auto simp: argmin_def)

lemma Min_map_upt: "Min (set (map f [0..<k])) = Min (f ` {..<k})"
  by (simp add: atLeast0LessThan)

text \<open>The costs that \<open>_backward\<close> adds up for a node, neighbour by neighbour.\<close>

definition decide_one :: "nat \<Rightarrow> pq \<Rightarrow> rat list \<Rightarrow> nat \<Rightarrow> rat list res" where
  "decide_one n s costs a =
     res_bind (dget (pq_record s) a) (\<lambda>j.
     res_map (\<lambda>i.
       res_bind (layout_cost s n a) (\<lambda>m.
       res_bind (py_get m (int i)) (\<lambda>row. res_bind (py_get row (int j)) (\<lambda>c. Inr (costs ! i + c))))) [0..<length costs])"

lemma decide_eq: "decide n s =
    res_bind (dget (pq_rc s) n) (\<lambda>rcn. res_bind (dget (pq_adj s) n) (\<lambda>adjs. res_bind (res_foldl (decide_one n s) rcn adjs) argmin))"
  unfolding decide_def decide_one_def [abs_def] by (rule refl)

lemma decide_loop:
  assumes "\<And>v. v \<in> set vs \<Longrightarrow> pq_record s v = Some (a v) \<and> layout_cost s n v = Inr (M v) \<and> length (M v) = k \<and> (\<forall>i < k. a v < length (M v ! i))"
    and "length costs = k"
  shows "res_foldl (decide_one n s) costs vs = Inr (map (\<lambda>i. costs ! i + sum_list (map (\<lambda>v. M v ! i ! a v) vs)) [0..<k])"
  using assms
proof (induction vs arbitrary: costs)
  case Nil
  then show ?case by (auto intro: nth_equalityI)
next
  case (Cons v vs)
  let ?c = "map (\<lambda>i. costs ! i + M v ! i ! a v) [0..<k]"
  have v: "dget (pq_record s) v = Inr (a v)" "layout_cost s n v = Inr (M v)" "length (M v) = k" "\<And>i. i < k \<Longrightarrow> a v < length (M v ! i)"
    using Cons.prems(1) [of v] by (auto simp: dget_def)
  have "decide_one n s costs v = Inr ?c"
    unfolding decide_one_def v(1,2) res_bind.simps Cons.prems(2) by (rule res_map_total) (use v(3,4) in \<open>simp add: py_get_nat\<close>)
  moreover have "res_foldl (decide_one n s) ?c vs = Inr (map (\<lambda>i. ?c ! i + sum_list (map (\<lambda>v. M v ! i ! a v) vs)) [0..<k])"
    using Cons.prems(1) by (intro Cons.IH) auto
  moreover have "map (\<lambda>i. ?c ! i + sum_list (map (\<lambda>v. M v ! i ! a v) vs)) [0..<k]
      = map (\<lambda>i. costs ! i + sum_list (map (\<lambda>v. M v ! i ! a v) (v # vs))) [0..<k]" by simp
  ultimately show ?case by (simp only: res_foldl.simps res_bind.simps)
qed

lemma decide_least:
  assumes "node_ok s n" and edges: "\<And>v. v \<in> set (nb s n) \<Longrightarrow> edge_ok s n v" and "distinct (nb s n)"
    and rc: "pq_rc t n = pq_rc s n" and adj: "pq_adj t n = Some (nb s n)"
    and mats: "\<And>v. v \<in> set (nb s n) \<Longrightarrow> layout_cost t n v = Inr (mt s n v)"
    and recs: "\<And>v. v \<in> set (nb s n) \<Longrightarrow> \<exists>i < nrec s v. pq_record t v = Some i"
  shows "\<exists>i < nrec s n. decide n t = Inr i
    \<and> node_cost s n (\<lambda>u. the (pq_record t u)) i = Min (node_cost s n (\<lambda>u. the (pq_record t u)) ` {..<nrec s n})"
proof -
  let ?a = "\<lambda>u. the (pq_record t u)" and ?k = "nrec s n"
  have k: "0 < ?k" using assms(1) by (simp add: node_ok_def)
  have "pq_record t v = Some (?a v) \<and> layout_cost t n v = Inr (mt s n v) \<and> length (mt s n v) = ?k \<and> (\<forall>i < ?k. ?a v < length (mt s n v ! i))"
    if "v \<in> set (nb s n)" for v
    using mats [OF that] recs [OF that] edge_ok_nth(1,2) [OF edges [OF that]] k by auto
  from decide_loop [of "nb s n", OF this refl]
  have "res_foldl (decide_one n t) (rcv s n) (nb s n)
      = Inr (map (\<lambda>i. rcv s n ! i + sum_list (map (\<lambda>v. mt s n v ! i ! ?a v) (nb s n))) [0..<?k])" .
  also have "map (\<lambda>i. rcv s n ! i + sum_list (map (\<lambda>v. mt s n v ! i ! ?a v) (nb s n))) [0..<?k] = map (node_cost s n ?a) [0..<?k]"
    using assms(3) by (simp add: node_cost_def sum_list_distinct_conv_sum_set)
  finally have "decide n t = argmin (map (node_cost s n ?a) [0..<?k])"
    using rc adj dget_rc [OF assms(1)] by (simp add: decide_eq dget_def)
  moreover obtain i where "i < ?k" "argmin (map (node_cost s n ?a) [0..<?k]) = Inr i" "node_cost s n ?a i = Min (set (map (node_cost s n ?a) [0..<?k]))"
    using argmin_least [of "map (node_cost s n ?a) [0..<?k]"] k by auto
  ultimately show ?thesis by (auto simp only: Min_map_upt)
qed

section \<open>The backward pass\<close>

definition leaf_one :: "pq \<Rightarrow> nat \<Rightarrow> pq res" where
  "leaf_one s n = res_bind (res_bind (dget (pq_rc s) n) argmin) (\<lambda>i. Inr (s\<lparr>pq_record := (pq_record s)(n \<mapsto> i)\<rparr>))"

definition back_one :: "pq \<Rightarrow> nat \<Rightarrow> pq res" where
  "back_one s n =
     res_bind (backward_insert_node n s) (\<lambda>s'.
       if pq_record s' n = None then res_bind (decide n s') (\<lambda>i. Inr (s'\<lparr>pq_record := (pq_record s')(n \<mapsto> i)\<rparr>)) else Inr s')"

lemma backward_eq: "backward s = res_bind (bucket s 0) (\<lambda>b0. res_bind (res_foldl leaf_one s b0) (\<lambda>s1. res_foldl back_one s1 (rev (pq_stack s1))))"
  unfolding backward_def leaf_one_def [abs_def] back_one_def [abs_def] by (rule refl)

lemma leaf_loop:
  assumes "\<And>u. u \<in> set us \<Longrightarrow> pq_rc s u \<noteq> None \<and> rcv s u \<noteq> []"
  shows "\<exists>r. res_foldl leaf_one s us = Inr (s\<lparr>pq_record := r\<rparr>) \<and> (\<forall>u. u \<notin> set us \<longrightarrow> r u = pq_record s u)
    \<and> (\<forall>u\<in>set us. \<exists>i < nrec s u. r u = Some i \<and> rcv s u ! i = Min (set (rcv s u)))"
  using assms
proof (induction us arbitrary: s)
  case Nil
  then show ?case by (intro exI [of _ "pq_record s"]) simp
next
  case (Cons u us)
  obtain x where x: "pq_rc s u = Some x" "x \<noteq> []" using Cons.prems [of u] by auto
  obtain i where i: "i < length x" "argmin x = Inr i" "x ! i = Min (set x)" using argmin_least [OF x(2)] by blast
  let ?s = "s\<lparr>pq_record := (pq_record s)(u \<mapsto> i)\<rparr>"
  have step: "leaf_one s u = Inr ?s" using x(1) i(2) by (simp add: leaf_one_def dget_def)
  obtain r where r: "res_foldl leaf_one ?s us = Inr (?s\<lparr>pq_record := r\<rparr>)" "\<forall>w. w \<notin> set us \<longrightarrow> r w = pq_record ?s w"
    "\<forall>w\<in>set us. \<exists>i < nrec ?s w. r w = Some i \<and> rcv ?s w ! i = Min (set (rcv ?s w))"
    using Cons.IH [of ?s] Cons.prems by auto
  have "\<exists>i < nrec s w. r w = Some i \<and> rcv s w ! i = Min (set (rcv s w))" if "w \<in> set (u # us)" for w
    using r(2,3) that x(1) i by (cases "w \<in> set us") auto
  then show ?case using step r by (intro exI [of _ r]) auto
qed

definition append_one :: "nat \<Rightarrow> pq \<Rightarrow> nat \<Rightarrow> pq res" where
  "append_one n s a = res_bind (dget (pq_adj s) a) (\<lambda>xs. Inr (s\<lparr>pq_adj := (pq_adj s)(a \<mapsto> xs @ [n])\<rparr>))"

lemma append_loop:
  assumes "\<forall>v\<in>set vs. pq_adj s v \<noteq> None"
  shows "\<exists>f. res_foldl (append_one n) s vs = Inr (s\<lparr>pq_adj := f\<rparr>) \<and> (\<forall>u. u \<notin> set vs \<longrightarrow> f u = pq_adj s u)
    \<and> (\<forall>u. f u = None \<longleftrightarrow> pq_adj s u = None)"
  using assms
proof (induction vs arbitrary: s)
  case Nil
  then show ?case by (intro exI [of _ "pq_adj s"]) simp
next
  case (Cons v vs)
  obtain xs where xs: "pq_adj s v = Some xs" using Cons.prems by auto
  let ?s = "s\<lparr>pq_adj := (pq_adj s)(v \<mapsto> xs @ [n])\<rparr>"
  have step: "append_one n s v = Inr ?s" using xs by (simp add: append_one_def dget_def)
  have "\<forall>w\<in>set vs. pq_adj ?s w \<noteq> None" using Cons.prems by auto
  from Cons.IH [OF this] obtain f where
    f: "res_foldl (append_one n) ?s vs = Inr (?s\<lparr>pq_adj := f\<rparr>)" "\<forall>u. u \<notin> set vs \<longrightarrow> f u = pq_adj ?s u" "\<forall>u. f u = None \<longleftrightarrow> pq_adj ?s u = None"
    by blast
  have "res_foldl (append_one n) s (v # vs) = Inr (s\<lparr>pq_adj := f\<rparr>)" using step f(1) by simp
  then show ?case using f(2,3) xs by (intro exI [of _ f]) auto
qed

lemma insert_back:
  assumes "pq_adj s n = Some ns" and "\<And>v. v \<in> set ns \<Longrightarrow> pq_adj s v \<noteq> None"
  shows "\<exists>f. backward_insert_node n s = Inr (s\<lparr>pq_adj := f\<rparr>) \<and> (\<forall>u. u \<notin> set ns \<longrightarrow> f u = pq_adj s u) \<and> (\<forall>u. f u = None \<longleftrightarrow> pq_adj s u = None)"
proof -
  have "backward_insert_node n s = res_bind (dget (pq_adj s) n) (res_foldl (append_one n) s)"
    unfolding backward_insert_node_def append_one_def [abs_def] by (rule refl)
  then show ?thesis using append_loop [of ns s n] assms by (simp add: dget_def)
qed

section \<open>Both passes\<close>

text \<open>What the forward pass on \<open>V\<close> leaves alone.\<close>

definition frozen :: "pq \<Rightarrow> nat set \<Rightarrow> pq \<Rightarrow> bool" where
  "frozen s V t \<longleftrightarrow> (\<forall>u. u \<notin> V \<longrightarrow> pq_adj t u = pq_adj s u \<and> pq_rc t u = pq_rc s u \<and> pq_record t u = pq_record s u \<and> (\<forall>v. pq_cost t (u, v) = pq_cost s (u, v)))
     \<and> (\<forall>p < length (pq_heap s). Some p \<notin> pq_cost s ` pairs s V \<longrightarrow> pq_heap t ! p = pq_heap s ! p)"

lemma frozen_addr:
  assumes "reduces s V n s'" and "frozen s' (V - {n}) t" and "p < length (pq_heap s)" and "Some p \<notin> pq_cost s ` pairs s (V - {n})"
  shows "pq_heap t ! p = pq_heap s ! p"
proof -
  have "Some p \<notin> pq_cost s' ` pairs s' (V - {n})" using assms(1,3,4) by (auto simp: reduces_def subset_iff)
  then show ?thesis using assms by (auto simp: reduces_def frozen_def)
qed

lemma frozen_trans:
  assumes "reduces s V n s'" and "frozen s' (V - {n}) t"
  shows "frozen s V t"
proof -
  have "pq_heap t ! p = pq_heap s ! p" if "p < length (pq_heap s)" "Some p \<notin> pq_cost s ` pairs s V" for p
    using frozen_addr [OF assms that(1)] pairs_mono [of "V - {n}" V s] that(2) by blast
  moreover have "pq_adj t u = pq_adj s u \<and> pq_rc t u = pq_rc s u \<and> pq_record t u = pq_record s u \<and> (\<forall>v. pq_cost t (u, v) = pq_cost s (u, v))"
    if "u \<notin> V" for u
    using assms that by (simp add: reduces_def frozen_def)
  ultimately show ?thesis by (simp add: frozen_def)
qed

text \<open>In particular the tables of the reduced node itself.\<close>

lemma frozen_node:
  assumes ok: "pq_ok s V" and n: "n \<in> V" and red: "reduces s V n s'" and fr: "frozen s' (V - {n}) t" and v: "v \<in> set (nb s n)"
  shows "layout_cost t n v = Inr (mt s n v)"
proof -
  have e: "edge_ok s n v" using edge_okD [OF pq_okD(3,1) [OF ok] n v] .
  then obtain p where p: "pq_cost s (n, v) = Some p" "p < length (pq_heap s)" by (auto simp: edge_ok_def)
  have "(n, v) \<in> pairs s V" using n v adj_okD(3) [OF pq_okD(1) [OF ok] n] by (auto simp: pairs_def)
  then have "Some p \<notin> pq_cost s ` pairs s (V - {n})"
    using pq_okD(3) [OF ok] p(1) pairs_mono [of "V - {n}" V s] unfolding data_ok_def by (force simp: inj_on_def pairs_def)
  then have "pq_heap t ! p = pq_heap s ! p" using frozen_addr [OF red fr p(2)] by blast
  moreover have "pq_cost t (n, v) = Some p" using red fr p(1) by (auto simp: reduces_def frozen_def)
  ultimately show ?thesis using p by (simp add: layout_cost_def dget_def)
qed

text \<open>The outcome of both passes for the nodes of \<open>V\<close>.\<close>

definition choice :: "pq \<Rightarrow> nat \<Rightarrow> nat" where
  "choice t u = the (pq_record t u)"

definition least_on :: "pq \<Rightarrow> nat set \<Rightarrow> (nat \<Rightarrow> nat) \<Rightarrow> bool" where
  "least_on s V a \<longleftrightarrow> (\<forall>b. valid_on s V b \<longrightarrow> pcost s V a \<le> pcost s V b)"

definition affordable :: "pq \<Rightarrow> nat set \<Rightarrow> bool" where
  "affordable s V \<longleftrightarrow> (\<exists>b. valid_on s V b \<and> pcost s V b < INVALID_LAYOUT_TIME)"

definition solved :: "pq \<Rightarrow> nat set \<Rightarrow> pq \<Rightarrow> nat list \<Rightarrow> pq \<Rightarrow> bool" where
  "solved s V sf rest t \<longleftrightarrow> pq_stack sf = pq_stack s @ rest \<and> frozen s V sf \<and> pq_buckets sf \<noteq> []
     \<and> res_bind (res_foldl leaf_one sf (pq_buckets sf ! 0)) (\<lambda>s1. res_foldl back_one s1 (rev rest)) = Inr t
     \<and> pq_rc t = pq_rc sf \<and> pq_cost t = pq_cost sf \<and> pq_heap t = pq_heap sf \<and> pq_stack t = pq_stack sf \<and> pq_is_optimal t = pq_is_optimal sf
     \<and> (\<forall>u\<in>V. pq_adj t u \<noteq> None \<and> (\<exists>i < nrec s u. pq_record t u = Some i))
     \<and> (\<forall>u. u \<notin> V \<longrightarrow> pq_adj t u = pq_adj sf u \<and> pq_record t u = pq_record sf u)
     \<and> (pq_is_optimal sf \<longrightarrow> pq_is_optimal s \<and> (affordable s V \<longrightarrow> least_on s V (choice t)))
     \<and> (pq_max_degree s < 3 \<longrightarrow> pq_is_optimal sf = pq_is_optimal s)"

lemma solvedD:
  assumes "solved s V sf rest t"
  shows "pq_stack sf = pq_stack s @ rest" "frozen s V sf" "pq_buckets sf \<noteq> []"
    "res_bind (res_foldl leaf_one sf (pq_buckets sf ! 0)) (\<lambda>s1. res_foldl back_one s1 (rev rest)) = Inr t"
    "pq_rc t = pq_rc sf" "pq_cost t = pq_cost sf" "pq_heap t = pq_heap sf" "pq_stack t = pq_stack sf" "pq_is_optimal t = pq_is_optimal sf"
    "\<And>u. u \<in> V \<Longrightarrow> pq_adj t u \<noteq> None" "\<And>u. u \<in> V \<Longrightarrow> \<exists>i < nrec s u. pq_record t u = Some i"
    "\<And>u. u \<notin> V \<Longrightarrow> pq_adj t u = pq_adj sf u \<and> pq_record t u = pq_record sf u"
    "pq_is_optimal sf \<Longrightarrow> pq_is_optimal s \<and> (affordable s V \<longrightarrow> least_on s V (choice t))"
    "pq_max_degree s < 3 \<Longrightarrow> pq_is_optimal sf = pq_is_optimal s"
  using assms unfolding solved_def by blast+

lemma solved_leaves:
  assumes ok: "pq_ok s V" and "0 \<le> pq_max_degree s" and none: "\<And>u. u \<in> V \<Longrightarrow> nb s u = []"
  shows "\<exists>t. solved s V s [] t"
proof -
  note adj = pq_okD(1) [OF ok] and data = pq_okD(3) [OF ok]
  have len: "0 < length (pq_buckets s)" using pq_okD(2) [OF ok] assms(2) by (auto simp: deg_ok_def)
  have "u \<in> set (pq_buckets s ! 0)" if "u \<in> V" for u
    using pq_okD(2) [OF ok] none [OF that] that by (fastforce simp: deg_ok_def bk_ok_def)
  then have b0: "set (pq_buckets s ! 0) = V" using bucket_member(1) [OF ok len] by auto
  obtain r where r: "res_foldl leaf_one s (pq_buckets s ! 0) = Inr (s\<lparr>pq_record := r\<rparr>)" "\<forall>u. u \<notin> V \<longrightarrow> r u = pq_record s u"
    "\<forall>u\<in>V. \<exists>i < nrec s u. r u = Some i \<and> rcv s u ! i = Min (set (rcv s u))"
    using leaf_loop [of "pq_buckets s ! 0" s] node_okD [OF data] unfolding b0 by (auto simp: node_ok_def)
  let ?t = "s\<lparr>pq_record := r\<rparr>"
  have cost: "pcost s V a = (\<Sum>u\<in>V. rcv s u ! a u)" for a by (simp add: pcost_def gcost_def none)
  have "least_on s V (choice ?t)"
  proof -
    have "rcv s u ! choice ?t u \<le> rcv s u ! b u" if "valid_on s V b" "u \<in> V" for b u
    proof -
      have "rcv s u ! choice ?t u = Min (set (rcv s u))" using r(3) that(2) by (auto simp: choice_def)
      then show ?thesis using that by (simp add: valid_on_def)
    qed
    then show ?thesis by (auto simp: least_on_def cost intro: sum_mono)
  qed
  then have "solved s V s [] ?t"
    using r len adj by (auto simp: solved_def frozen_def adj_ok_def)
  then show ?thesis by blast
qed

lemma solved_step:
  assumes ok: "pq_ok s V" and n: "n \<in> V" and red: "reduces s V n s'" and kind: "exact s V n s' \<or> fixes_node s n s' \<and> 3 \<le> pq_max_degree s"
    and sol: "solved s' (V - {n}) sf rest t'"
  shows "\<exists>t. solved s V sf (n # rest) t"
proof -
  note adj = pq_okD(1) [OF ok] and data = pq_okD(3) [OF ok]
  note fr = solvedD(2) [OF sol] and t' = solvedD(5,6,7) [OF sol]
  have keep: "pq_adj t' u = pq_adj s u" "pq_rc t' u = pq_rc s u" if "u \<notin> V - {n}" for u
    using solvedD(12) [OF sol that] t'(1) fr red that by (simp_all add: frozen_def reduces_def)
  have recn: "pq_record t' n = pq_record s' n" using solvedD(12) [OF sol, of n] fr by (simp add: frozen_def)
  have len: "nrec s' u = nrec s u" if "u \<in> V" for u using red that by (simp add: reduces_def)
  have adjn: "pq_adj t' n = Some (nb s n)" using keep(1) [of n] adj_okD(1) [OF adj n] by simp
  have nbs: "v \<in> V - {n}" if "v \<in> set (nb s n)" for v using adj_okD(3,4) [OF adj n] that by auto
  have rec: "pq_adj t' v \<noteq> None" "\<exists>i < nrec s v. pq_record t' v = Some i" if "v \<in> V - {n}" for v
    using solvedD(10,11) [OF sol that] len [of v] that by auto
  obtain f where f: "backward_insert_node n t' = Inr (t'\<lparr>pq_adj := f\<rparr>)" "\<forall>u. u \<notin> set (nb s n) \<longrightarrow> f u = pq_adj t' u"
    "\<forall>u. f u = None \<longleftrightarrow> pq_adj t' u = None"
    using insert_back [OF adjn] rec(1) nbs by blast
  let ?t = "t'\<lparr>pq_adj := f\<rparr>"
  have "layout_cost ?t n v = Inr (mt s n v)" if "v \<in> set (nb s n)" for v
    using frozen_node [OF ok n red fr that] t' by (simp add: layout_cost_def)
  then obtain i where i: "i < nrec s n" "decide n ?t = Inr i" "node_cost s n (choice t') i = Min (node_cost s n (choice t') ` {..<nrec s n})"
    using decide_least [of s n ?t] node_okD [OF data n] edge_okD [OF data adj n] adj_okD(2,4) [OF adj n] keep(2) [of n] f(2) adjn rec(2) nbs
    by (auto simp: choice_def [abs_def])
  obtain c where c: "back_one t' n = Inr (?t\<lparr>pq_record := (pq_record t')(n \<mapsto> c)\<rparr>)" "c < nrec s n" "exact s V n s' \<Longrightarrow> c = i"
  proof (cases "pq_record t' n")
    case None
    then have "back_one t' n = Inr (?t\<lparr>pq_record := (pq_record t')(n \<mapsto> i)\<rparr>)" using f(1) i(2) by (simp add: back_one_def)
    then show ?thesis using that i(1) by blast
  next
    case (Some c)
    then have "back_one t' n = Inr (?t\<lparr>pq_record := (pq_record t')(n \<mapsto> c)\<rparr>)" using f(1) by (simp add: back_one_def fun_upd_idem)
    moreover have "c < nrec s n" "\<not> exact s V n s'" using Some recn kind by (auto simp: fixes_node_def exact_def)
    ultimately show ?thesis using that by blast
  qed
  let ?r = "?t\<lparr>pq_record := (pq_record t')(n \<mapsto> c)\<rparr>"
  have ch: "choice ?r = (choice t')(n := c)" by (auto simp: choice_def fun_eq_iff)
  have opt: "pq_is_optimal s \<and> (affordable s V \<longrightarrow> least_on s V (choice ?r))" if o: "pq_is_optimal sf"
  proof -
    have s': "pq_is_optimal s'" "affordable s' (V - {n}) \<longrightarrow> least_on s' (V - {n}) (choice t')" using solvedD(13) [OF sol o] by auto
    then have ex: "exact s V n s'" using kind by (auto simp: fixes_node_def)
    have valid': "valid_on s' (V - {n}) = valid_on s (V - {n})" using len by (auto simp: valid_on_def fun_eq_iff)
    have red_cost: "pcost s' (V - {n}) b = rest_cost s V n b + min INVALID_LAYOUT_TIME (Min (node_cost s n b ` {..<nrec s n}))"
      if "valid_on s (V - {n}) b" for b using ex that by (simp add: exact_def)
    have sub: "valid_on s (V - {n}) b \<and> b n < nrec s n" if "valid_on s V b" for b using that n by (auto simp: valid_on_def)
    have a: "valid_on s (V - {n}) (choice t')" using rec(2) by (fastforce simp: valid_on_def choice_def)
    have "least_on s V (choice ?r)" if aff: "affordable s V"
    proof -
      obtain b0 where b0: "valid_on s V b0" "pcost s V b0 < INVALID_LAYOUT_TIME" using aff by (auto simp: affordable_def)
      have "pcost s' (V - {n}) b0 \<le> pcost s V b0"
        using eliminate_lower [of "pcost s V" b0 "rest_cost s V n" "node_cost s n" n "nrec s n"] pcost_split [OF ok n b0(1)] red_cost sub [OF b0(1)] by blast
      then have least: "pcost s' (V - {n}) (choice t') \<le> pcost s' (V - {n}) b" if "valid_on s (V - {n}) b" for b
        using s'(2) b0 sub [OF b0(1)] that by (auto simp: affordable_def least_on_def valid')
      have "valid_on s V ((choice t')(n := i))" using a i(1) by (auto simp: valid_on_def)
      then have "pcost s V ((choice t')(n := i)) \<le> pcost s V b" if "valid_on s V b" for b
        using least a b0 i(3) that pcost_split [OF ok n] sub red_cost rest_cost_nonneg [OF ok, of n]
        by (intro eliminate_optimal [where cost = "pcost s V" and n = n and ok = "valid_on s V" and ok' = "valid_on s (V - {n})"
            and rest = "rest_cost s V n" and part = "node_cost s n" and k = "nrec s n" and cost' = "pcost s' (V - {n})" and cap = INVALID_LAYOUT_TIME and e = b0])
          (simp_all add: cost_upd [OF adj n] rest_cost_upd)
      then show ?thesis using ch c(3) [OF ex] by (simp add: least_on_def)
    qed
    then show ?thesis using s'(1) ex by (simp add: exact_def)
  qed
  have rest: "pq_stack sf = pq_stack s @ n # rest" using solvedD(1) [OF sol] red by (simp add: reduces_def)
  have run: "res_bind (res_foldl leaf_one sf (pq_buckets sf ! 0)) (\<lambda>s1. res_foldl back_one s1 (rev (n # rest))) = Inr ?r"
    using solvedD(4) [OF sol] c(1) by (auto simp: res_foldl_append res_bind_eq_Inr)
  have "pq_adj ?r u \<noteq> None \<and> (\<exists>j < nrec s u. pq_record ?r u = Some j)" if "u \<in> V" for u
    using rec [of u] f(3) adjn c(2) that by (cases "u = n") auto
  moreover have "pq_adj ?r u = pq_adj sf u \<and> pq_record ?r u = pq_record sf u" if "u \<notin> V" for u
  proof -
    have "u \<notin> set (nb s n)" using nbs that by blast
    then show ?thesis using solvedD(12) [OF sol, of u] f(2) that n by auto
  qed
  moreover have "pq_is_optimal sf = pq_is_optimal s" if "pq_max_degree s < 3"
  proof -
    have "pq_max_degree s' < 3" "exact s V n s'" using that red kind by (auto simp: reduces_def)
    then show ?thesis using solvedD(14) [OF sol] by (simp add: exact_def)
  qed
  ultimately have "solved s V sf (n # rest) ?r"
    unfolding solved_def using rest run frozen_trans [OF red fr] solvedD(3,5-9) [OF sol] opt by simp
  then show ?thesis by blast
qed

lemma forward_solved:
  assumes "pq_ok s V" and "0 \<le> pq_max_degree s"
  shows "(forward s = Inl RuntimeError \<and> 3 \<le> pq_max_degree s) \<or> (\<exists>sf rest t. forward s = Inr sf \<and> solved s V sf rest t)"
  using assms
proof (induction s arbitrary: V rule: forward.induct)
  case (1 s)
  have step: "\<exists>sf rest t. forward s = Inr sf \<and> solved s V sf rest t \<or> forward s = Inl RuntimeError \<and> 3 \<le> pq_max_degree s"
    if n: "n \<in> V" and s': "forward_step s = Inr (Some s')" and red: "reduces s V n s'"
      and kind: "exact s V n s' \<or> fixes_node s n s' \<and> 3 \<le> pq_max_degree s" for n s'
  proof -
    have fs: "forward s = forward s'" using s' by (simp add: forward.simps [of s])
    have "pq_ok s' (V - {n})" "pq_max_degree s' = pq_max_degree s" using red by (simp_all add: reduces_def)
    then have "(forward s' = Inl RuntimeError \<and> 3 \<le> pq_max_degree s) \<or> (\<exists>sf rest t. forward s' = Inr sf \<and> solved s' (V - {n}) sf rest t)"
      using "1.IH" [OF s' refl] "1.prems"(2) by simp
    then show ?thesis using solved_step [OF "1.prems"(1) n red kind] unfolding fs by blast
  qed
  show ?case
  proof (rule forward_step_ok [OF "1.prems"])
    assume "forward_step s = Inr None" and "\<And>u. u \<in> V \<Longrightarrow> nb s u = []"
    then show ?thesis using solved_leaves [OF "1.prems"] by (auto simp: forward.simps [of s])
  next
    assume "forward_step s = Inl RuntimeError" "3 \<le> pq_max_degree s"
    then show ?thesis by (simp add: forward.simps [of s])
  qed (use step in blast)+
qed

lemma backward_solved:
  assumes "solved s V sf rest t" and "pq_stack s = []"
  shows "backward sf = Inr t"
proof -
  have "bucket sf 0 = Inr (pq_buckets sf ! 0)" using solvedD(3) [OF assms(1)] by (simp add: bucket_def)
  moreover obtain s1 where s1: "res_foldl leaf_one sf (pq_buckets sf ! 0) = Inr s1" "res_foldl back_one s1 (rev rest) = Inr t"
    using solvedD(4) [OF assms(1)] by (auto simp: res_bind_eq_Inr)
  moreover have "pq_stack s1 = pq_stack sf"
    using s1(1) by (rule res_foldl_invariant) (auto simp: leaf_one_def res_bind_eq_Inr)
  ultimately show ?thesis using solvedD(1) [OF assms(1)] assms(2) by (simp add: backward_eq)
qed

text \<open>
  C31. On a graph whose lists and matrices agree and in which no two edges share a matrix, the two passes return a choice for every
  node, or raise \<open>RuntimeError\<close> for a node of degree three or more. A result that is called optimal is a choice of least total cost, provided
  some choice costs less than an invalid layout; with degrees of at most two the tuner always returns, and its result is optimal.
\<close>

theorem pbqp_optimal:
  assumes "pq_ok s V" and "0 \<le> pq_max_degree s" and "pq_stack s = []" and "pq_is_optimal s"
    and "valid_on s V b" and "pcost s V b < INVALID_LAYOUT_TIME"
  shows "(pq_solve s = Inl RuntimeError \<and> 3 \<le> pq_max_degree s)
    \<or> (\<exists>t. pq_solve s = Inr t \<and> (\<forall>u\<in>V. \<exists>i < nrec s u. pq_record t u = Some i)
         \<and> (pq_is_optimal t \<longrightarrow> (\<forall>a. valid_on s V a \<longrightarrow> pcost s V (\<lambda>u. the (pq_record t u)) \<le> pcost s V a))
         \<and> (pq_max_degree s < 3 \<longrightarrow> pq_is_optimal t))"
  using forward_solved [OF assms(1,2)]
proof
  assume "\<exists>sf rest t. forward s = Inr sf \<and> solved s V sf rest t"
  then obtain sf rest t where t: "forward s = Inr sf" "solved s V sf rest t" by blast
  have "pq_solve s = Inr t" using t(1) backward_solved [OF t(2) assms(3)] by (simp add: pq_solve_def)
  moreover have "affordable s V" using assms(5,6) by (auto simp: affordable_def)
  ultimately show ?thesis
    using solvedD(9,11,13,14) [OF t(2)] assms(4) by (auto simp: least_on_def choice_def [abs_def])
qed (simp add: pq_solve_def)

definition triangle :: pq where
  "triangle = \<lparr>pq_adj = [0 \<mapsto> [1, 2], 1 \<mapsto> [0, 2], 2 \<mapsto> [0, 1]], pq_rc = [0 \<mapsto> [5, 1], 1 \<mapsto> [2, 4], 2 \<mapsto> [3, 3]],
     pq_cost = [(0, 1) \<mapsto> 0, (1, 0) \<mapsto> 1, (0, 2) \<mapsto> 2, (2, 0) \<mapsto> 3, (1, 2) \<mapsto> 4, (2, 1) \<mapsto> 5],
     pq_heap = [[[0, 7], [6, 0]], [[0, 6], [7, 0]], [[1, 0], [0, 2]], [[1, 0], [0, 2]], [[0, 3], [4, 0]], [[0, 4], [3, 0]]],
     pq_degree = [0 \<mapsto> 2, 1 \<mapsto> 2, 2 \<mapsto> 2], pq_max_degree = 2, pq_buckets = [[], [], [0, 1, 2], []], pq_stack = [], pq_is_optimal = True,
     pq_record = Map.empty\<rparr>"

lemma triangle_ok: "pq_ok triangle {0, 1, 2}"
proof -
  have pairs: "pairs triangle {0, 1, 2} = {(0, 1), (0, 2), (1, 0), (1, 2), (2, 0), (2, 1)}" by (auto simp: pairs_def triangle_def)
  have "adj_ok triangle {0, 1, 2}" by (simp add: adj_ok_def triangle_def)
  moreover have "deg_ok triangle {0, 1, 2}"
    by (simp add: deg_ok_def bk_ok_def triangle_def All_less_Suc)
  moreover have "data_ok triangle {0, 1, 2}"
    unfolding data_ok_def pairs by (simp add: node_ok_def edge_ok_def mat_ok_def triangle_def All_less_Suc)
  ultimately show ?thesis by (simp add: pq_ok_def)
qed

theorem pbqp_optimal_witness:
  "\<exists>t. pq_solve triangle = Inr t \<and> pq_is_optimal t
     \<and> (\<forall>a. valid_on triangle {0, 1, 2} a \<longrightarrow> pcost triangle {0, 1, 2} (\<lambda>u. the (pq_record t u)) \<le> pcost triangle {0, 1, 2} a)"
proof -
  have "valid_on triangle {0, 1, 2} (\<lambda>_. 0)" by (simp add: valid_on_def triangle_def)
  moreover have "pcost triangle {0, 1, 2} (\<lambda>_. 0) < INVALID_LAYOUT_TIME" by code_simp
  ultimately have "(pq_solve triangle = Inl RuntimeError \<and> 3 \<le> pq_max_degree triangle)
    \<or> (\<exists>t. pq_solve triangle = Inr t \<and> (\<forall>u\<in>{0, 1, 2}. \<exists>i < nrec triangle u. pq_record t u = Some i)
         \<and> (pq_is_optimal t \<longrightarrow> (\<forall>a. valid_on triangle {0, 1, 2} a \<longrightarrow> pcost triangle {0, 1, 2} (\<lambda>u. the (pq_record t u)) \<le> pcost triangle {0, 1, 2} a))
         \<and> (pq_max_degree triangle < 3 \<longrightarrow> pq_is_optimal t))"
    by (intro pbqp_optimal [OF triangle_ok]) (simp_all add: triangle_def)
  moreover have "pq_max_degree triangle < 3" by (simp add: triangle_def)
  ultimately show ?thesis by auto
qed

section \<open>Shared matrices\<close>

text \<open>
  A residual block: convolution 1 reads convolution 0, and the additions 2 and 3 read both. \<open>run\<close> gives the edges from 0 to 2
  and 3 the very list that holds the costs of the edge from 0 to 1.
\<close>

definition residual_nodes :: "gnode list" where
  "residual_nodes = map (\<lambda>costs. \<lparr>gn_op = Some ''nn.conv2d'', gn_name = None, gn_inputs = [], gn_costs = costs\<rparr>) [[0, 7], [0], [0], [0]]"

definition residual_in :: "(nat \<times> nat list) list" where
  "residual_in = [(0, []), (1, [0]), (2, [1, 0]), (3, [1, 0])]"

definition residual_out :: "(nat \<times> nat list) list" where
  "residual_out = [(0, [1, 2, 3]), (1, [2, 3]), (2, []), (3, [])]"

definition residual_state :: "pq res" where
  "residual_state = res_bind (pq_init residual_nodes [] residual_in residual_out Map.empty [[[2], [0]]])
     (pq_prepare (\<lambda>k. 2 \<le> k) (\<lambda>_. False) (\<lambda>i. length (gn_costs (residual_nodes ! i))) residual_in [((0, 1), 0)])"

text \<open>
  Sharing matters: on the residual block, the in-place additions of one degree two reduction reach the costs of another edge
  through the shared list, and the tuner reports as optimal a choice that costs more than another one.
\<close>

theorem pbqp_shared_matrices:
  "\<exists>s t. residual_state = Inr s \<and> pq_cost s (0, 2) = pq_cost s (0, 1) \<and> pq_solve s = Inr t \<and> pq_is_optimal t
     \<and> pcost s {0, 1, 2, 3} (\<lambda>_. 0) < pcost s {0, 1, 2, 3} (\<lambda>u. the (pq_record t u))"
proof -
  have "case residual_state of Inl _ \<Rightarrow> False | Inr s \<Rightarrow> pq_cost s (0, 2) = pq_cost s (0, 1) \<and>
      (case pq_solve s of Inl _ \<Rightarrow> False | Inr t \<Rightarrow> pq_is_optimal t
         \<and> pcost s {0, 1, 2, 3} (\<lambda>_. 0) < pcost s {0, 1, 2, 3} (\<lambda>u. the (pq_record t u)))"
    by code_simp
  then show ?thesis by (auto split: sum.splits)
qed

end
