(* ===== verification/GraphTraverse.thy ===== *)
theory GraphTraverse
  imports GraphNode
begin

text \<open>
  The traversal of \<open>autotvm/graph_tuner/utils/traverse_graph.py\<close> that finds, for every node that a graph tuner looks at, the closest ancestors it depends on.
  The part of the file that walks over Relay expressions calls the compiler and is left out: the list of nodes is given, and \<open>skipped\<close> are the indices of those that are Relay tuples.
\<close>

section \<open>Closest ancestors\<close>

definition OPT_OUT_OP :: "string list" where
  "OPT_OUT_OP = [''layout_transform'']"

definition is_target :: "string list \<Rightarrow> gnode \<Rightarrow> bool" where
  "is_target target_ops g = (case gn_op g of None \<Rightarrow> False | Some p \<Rightarrow> p \<in> set target_ops)"

text \<open>
  \<open>get_direct_ancestor\<close> returns its list and the table of visited nodes, which is a dictionary in insertion order. The first argument is the recursion limit.
\<close>

fun get_direct_ancestor ::
  "nat \<Rightarrow> gnode list \<Rightarrow> (nat \<times> nat list) list \<Rightarrow> string list \<Rightarrow> nat \<Rightarrow> string list \<Rightarrow> (nat list \<times> (nat \<times> nat list) list) res" where
  "get_direct_ancestor 0 nodes visited target_ops idx input_names = Inl RecursionErr"
| "get_direct_ancestor (Suc fuel) nodes visited target_ops idx input_names =
     (case map_of visited idx of
        Some xs \<Rightarrow> Inr (xs, visited)
      | None \<Rightarrow>
          if idx \<ge> length nodes then Inl IndexError
          else if is_boundary_node (nodes ! idx) input_names then Inr ([idx], visited)
          else res_bind (res_foldl (\<lambda>(anc, vis) i.
                   if i \<ge> length nodes then Inl IndexError
                   else res_bind (has_multiple_inputs fuel nodes i input_names OPT_OUT_OP) (\<lambda>multi.
                        if is_target target_ops (nodes ! i) \<or> multi then Inr (anc @ [i], vis)
                        else res_bind (get_direct_ancestor fuel nodes vis target_ops i input_names) (\<lambda>(tmp, vis').
                             Inr (foldl (\<lambda>a t. if t \<in> set a then a else a @ [t]) anc tmp, vis'))))
                 ([], visited) (gn_inputs (nodes ! idx)))
               (\<lambda>(anc, vis). Inr (anc, AList.update idx anc vis)))"

definition get_out_nodes :: "(nat \<times> nat list) list \<Rightarrow> (nat \<times> nat list) list" where
  "get_out_nodes in_nodes =
     foldl (\<lambda>out (key, val). foldl (\<lambda>out item. AList.update item (case map_of out item of Some xs \<Rightarrow> xs @ [key] | None \<Rightarrow> [key]) out) out val)
       (map (\<lambda>(key, val). (key, [])) in_nodes) in_nodes"

text \<open>
  The loop over the inputs of one node when boundary nodes are reduced. It removes elements from the list it runs over, so the element
  after a removed one is skipped; a node is noted as boundary for every removed input that no kept one precedes.
\<close>

function scan_inputs :: "(nat \<Rightarrow> bool res) \<Rightarrow> nat \<Rightarrow> nat \<Rightarrow> nat list \<Rightarrow> bool \<Rightarrow> nat list \<Rightarrow> (nat list \<times> nat list) res" where
  "scan_inputs keep key i val is_boundary boundary_nodes =
     (if i < length val
      then res_bind (keep (val ! i)) (\<lambda>k.
             if k then scan_inputs keep key (i + 1) val False boundary_nodes
             else scan_inputs keep key (i + 1) (remove1 (val ! i) val) is_boundary
                    (if is_boundary then boundary_nodes @ [key] else boundary_nodes))
      else Inr (val, boundary_nodes))"
  by pat_completeness auto
termination
  by (relation "measure (\<lambda>(keep, key, i, val, bd, nodes). length val - i)") (auto simp: length_remove1)

declare scan_inputs.simps [simp del]

definition keep_input :: "gnode list \<Rightarrow> string list \<Rightarrow> nat list \<Rightarrow> nat \<Rightarrow> bool res" where
  "keep_input nodes input_names keys i =
     (if i \<ge> length nodes then Inl IndexError else Inr (\<not> is_boundary_node (nodes ! i) input_names \<and> i \<in> set keys))"

definition reduce_pass ::
  "gnode list \<Rightarrow> string list \<Rightarrow> string list \<Rightarrow> (nat \<times> nat list) list \<Rightarrow> ((nat \<times> nat list) list \<times> nat list) res" where
  "reduce_pass nodes target_ops input_names in_nodes =
     res_foldl (\<lambda>(ins, bnd) (key, val).
       if key \<ge> length nodes then Inl IndexError
       else if is_target target_ops (nodes ! key) then Inr (ins, bnd)
       else res_bind (scan_inputs (keep_input nodes input_names (map fst in_nodes)) key 0 val True bnd) (\<lambda>(val', bnd').
              Inr (AList.update key val' ins, bnd'))) (in_nodes, []) in_nodes"

text \<open>Both loops end because every round but the last deletes a key.\<close>

lemma scan_inputs_keys: "scan_inputs keep key i val bd bnd = Inr (val', bnd') \<Longrightarrow> set bnd' \<subseteq> insert key (set bnd)"
proof (induction keep key i val bd bnd rule: scan_inputs.induct)
  case (1 keep key i val bd bnd)
  show ?case
  proof (cases "i < length val")
    case True
    then obtain k where k: "keep (val ! i) = Inr k" using "1.prems" by (cases "keep (val ! i)") (auto simp: scan_inputs.simps [of _ _ i])
    show ?thesis
    proof (cases k)
      case t: True
      then show ?thesis using "1.IH"(1) [OF True k t] "1.prems" k True by (simp add: scan_inputs.simps [of _ _ i])
    next
      case f: False
      then show ?thesis using "1.IH"(2) [OF True k f] "1.prems" k True by (auto simp: scan_inputs.simps [of _ _ i] split: if_splits)
    qed
  qed (use "1.prems" in \<open>auto simp: scan_inputs.simps [of _ _ i]\<close>)
qed

lemma reduce_pass_keys:
  assumes "reduce_pass nodes target_ops input_names in_nodes = Inr (ins, bnd)"
  shows "map fst ins = map fst in_nodes" "set bnd \<subseteq> set (map fst in_nodes)"
proof -
  define P where "P st \<longleftrightarrow> map fst (fst st) = map fst in_nodes \<and> set (snd st) \<subseteq> set (map fst in_nodes)" for st :: "(nat \<times> nat list) list \<times> nat list"
  have upd: "map fst (AList.update key val' xs) = map fst xs" if "key \<in> set (map fst xs)" for key and val' :: "nat list" and xs
    using that by (induction xs) auto
  have "P (ins, bnd)"
    using assms unfolding reduce_pass_def
  proof (rule res_foldl_invariant)
    fix s x s' assume x: "x \<in> set in_nodes" "P s"
      and step: "(case s of (ins, bnd) \<Rightarrow> \<lambda>(key, val).
         if key \<ge> length nodes then Inl IndexError
         else if is_target target_ops (nodes ! key) then Inr (ins, bnd)
         else res_bind (scan_inputs (keep_input nodes input_names (map fst in_nodes)) key 0 val True bnd) (\<lambda>(val', bnd').
              Inr (AList.update key val' ins, bnd'))) x = Inr s'"
    obtain ins bnd key val where eq: "s = (ins, bnd)" "x = (key, val)" by fastforce
    have key: "key \<in> set (map fst ins)" using x by (force simp: P_def eq)
    have len: "\<not> length nodes \<le> key" using step by (auto simp: eq)
    show "P s'"
    proof (cases "is_target target_ops (nodes ! key)")
      case True
      then show ?thesis using step x len by (simp add: eq)
    next
      case False
      then obtain val' bnd' where sc: "scan_inputs (keep_input nodes input_names (map fst in_nodes)) key 0 val True bnd = Inr (val', bnd')"
        and s': "s' = (AList.update key val' ins, bnd')"
        using step len by (auto simp: eq res_bind_eq_Inr)
      show ?thesis using scan_inputs_keys [OF sc] x key by (auto simp: s' P_def eq upd)
    qed
  qed (simp add: P_def)
  then show "map fst ins = map fst in_nodes" "set bnd \<subseteq> set (map fst in_nodes)" by (auto simp: P_def)
qed

definition delete_all :: "nat list \<Rightarrow> (nat \<times> nat list) list \<Rightarrow> (nat \<times> nat list) list" where
  "delete_all ks ins = foldl (\<lambda>ins k. AList.delete k ins) ins ks"

lemma delete_all_filter: "delete_all ks ins = filter (\<lambda>q. fst q \<notin> set ks) ins"
  by (induction ks arbitrary: ins) (auto simp: delete_all_def AList.delete_eq intro!: filter_cong)

lemma delete_all_shorter:
  assumes "ks \<noteq> []" and "set ks \<subseteq> set (map fst ins)"
  shows "length (delete_all ks ins) < length ins"
proof -
  obtain q where "q \<in> set ins" "fst q \<in> set ks" using assms by (cases ks) auto
  then show ?thesis by (auto simp: delete_all_filter intro: length_filter_less)
qed

function reduce_loop ::
  "gnode list \<Rightarrow> string list \<Rightarrow> string list \<Rightarrow> (nat \<times> nat list) list \<Rightarrow> (nat \<times> nat list) list res" where
  "reduce_loop nodes target_ops input_names in_nodes =
     res_bind (reduce_pass nodes target_ops input_names in_nodes) (\<lambda>(ins, bnd).
       if bnd = [] then Inr ins else reduce_loop nodes target_ops input_names (delete_all bnd ins))"
  by pat_completeness auto
termination
proof (relation "measure (\<lambda>(nodes, target_ops, input_names, in_nodes). length in_nodes)")
  fix nodes target_ops input_names in_nodes x ins bnd
  assume "reduce_pass nodes target_ops input_names in_nodes = Inr x" "(ins, bnd) = x" "bnd \<noteq> []"
  then show "((nodes, target_ops, input_names, delete_all bnd ins), nodes, target_ops, input_names, in_nodes)
      \<in> measure (\<lambda>(nodes, target_ops, input_names, in_nodes). length in_nodes)"
    using reduce_pass_keys [of nodes target_ops input_names in_nodes ins bnd] delete_all_shorter [of bnd ins]
    by (auto dest: map_eq_imp_length_eq)
qed simp

declare reduce_loop.simps [simp del]

text \<open>Taking one empty node out; the nodes it was an input of are looked up in the table made before the reduction.\<close>

definition drop_empty :: "(nat \<times> nat list) list \<Rightarrow> (nat \<times> nat list) list \<Rightarrow> nat \<Rightarrow> (nat \<times> nat list) list res" where
  "drop_empty out_nodes ins n =
     (if map_of ins n = None then Inl KeyError
      else res_foldl (\<lambda>ins q.
             res_bind (dget (map_of ins) q) (\<lambda>xs. res_bind (list_remove n xs) (\<lambda>ys. Inr (AList.update q ys ins))))
             (AList.delete n ins) (case map_of out_nodes n of None \<Rightarrow> [] | Some qs \<Rightarrow> qs))"

definition empty_pass :: "(nat \<times> nat list) list \<Rightarrow> nat list \<Rightarrow> (nat \<times> nat list) list \<Rightarrow> (nat \<times> nat list) list res" where
  "empty_pass out_nodes es ins = res_foldl (drop_empty out_nodes) ins es"

lemma drop_empty_keys:
  assumes "drop_empty out_nodes ins n = Inr ins'"
  shows "map fst ins' = filter (\<lambda>k. k \<noteq> n) (map fst ins)" "n \<in> set (map fst ins)"
proof -
  have upd: "map fst (AList.update key val' xs) = map fst xs" if "map_of xs key \<noteq> None" for key and val' :: "nat list" and xs
    using that by (induction xs) (auto split: if_splits)
  show n: "n \<in> set (map fst ins)" using assms by (auto simp: drop_empty_def map_of_eq_None_iff split: if_splits)
  let ?f = "\<lambda>ins q. res_bind (dget (map_of ins) q) (\<lambda>xs. res_bind (list_remove n xs) (\<lambda>ys. Inr (AList.update q ys ins)))"
  have "res_foldl ?f (AList.delete n ins) (case map_of out_nodes n of None \<Rightarrow> [] | Some qs \<Rightarrow> qs) = Inr ins'"
    using assms by (simp add: drop_empty_def split: if_splits)
  then have "map fst ins' = map fst (AList.delete n ins)"
    by (rule res_foldl_invariant) (auto simp: res_bind_eq_Inr dget_def upd split: option.splits)
  then show "map fst ins' = filter (\<lambda>k. k \<noteq> n) (map fst ins)" by (simp add: AList.delete_eq filter_map comp_def split_def eq_commute)
qed

lemma empty_pass_shorter:
  assumes "empty_pass out_nodes es ins = Inr ins'" and "es \<noteq> []"
  shows "length ins' < length ins"
proof -
  have le: "length b \<le> length a" if "empty_pass out_nodes ks a = Inr b" for ks a b
    using that
  proof (induction ks arbitrary: a)
    case (Cons k ks)
    then obtain c where "drop_empty out_nodes a k = Inr c" "empty_pass out_nodes ks c = Inr b" by (auto simp: empty_pass_def res_bind_eq_Inr)
    then show ?case using drop_empty_keys(1) [of out_nodes a k c] Cons.IH [of c]
      by (metis (no_types, lifting) dual_order.trans length_filter_le length_map)
  qed (simp add: empty_pass_def)
  obtain e ks where es: "es = e # ks" using assms(2) by (cases es) auto
  then obtain c where c: "drop_empty out_nodes ins e = Inr c" "empty_pass out_nodes ks c = Inr ins'"
    using assms(1) by (auto simp: empty_pass_def res_bind_eq_Inr)
  have "length (map fst c) < length (map fst ins)"
    unfolding drop_empty_keys(1) [OF c(1)] using drop_empty_keys(2) [OF c(1)] by (intro length_filter_less [of e]) auto
  then show ?thesis using le [OF c(2)] by simp
qed

definition empty_nodes :: "(nat \<times> nat list) list \<Rightarrow> nat list" where
  "empty_nodes ins = map fst (filter (\<lambda>q. snd q = []) ins)"

function empty_loop :: "(nat \<times> nat list) list \<Rightarrow> (nat \<times> nat list) list \<Rightarrow> (nat \<times> nat list) list res" where
  "empty_loop out_nodes ins =
     (if empty_nodes ins = [] then Inr ins
      else res_bind (empty_pass out_nodes (empty_nodes ins) ins) (empty_loop out_nodes))"
  by pat_completeness auto
termination
  by (relation "measure (\<lambda>(out_nodes, ins). length ins)") (auto dest: empty_pass_shorter)

declare empty_loop.simps [simp del]

definition get_in_nodes :: "nat \<Rightarrow> gnode list \<Rightarrow> nat set \<Rightarrow> string list \<Rightarrow> string list \<Rightarrow> (nat \<times> nat list) list res" where
  "get_in_nodes fuel nodes skipped target_ops input_names =
     res_bind (res_foldl (\<lambda>visited i.
         if is_boundary_node (nodes ! i) input_names \<or> i \<in> skipped then Inr visited
         else res_bind (get_direct_ancestor fuel nodes visited target_ops i input_names) (\<lambda>(_, visited'). Inr visited'))
       [] [0..<length nodes]) (\<lambda>visited.
     res_bind (res_foldl (\<lambda>ins (key, val).
         res_bind (has_multiple_inputs fuel nodes key input_names OPT_OUT_OP) (\<lambda>multi.
           Inr (if is_target target_ops (nodes ! key) \<or> multi then ins @ [(key, val)] else ins)))
       [] visited) (\<lambda>in_nodes.
     res_bind (reduce_loop nodes target_ops input_names in_nodes) (empty_loop (get_out_nodes in_nodes))))"

end
