(* ===== verification/GraphTraverseCorrect.thy ===== *)
theory GraphTraverseCorrect
  imports GraphTraverse
begin

text \<open>
  What the traversal finds: the closest ancestors of a node, by a search with a table of visited nodes, and the input and output tables made from them.
  The nodes are in the order in which \<open>expr2graph\<close> lists them, inputs first.
\<close>

lemma res_foldl_pure: "(\<And>s x. x \<in> set xs \<Longrightarrow> f s x = Inr (g s x)) \<Longrightarrow> res_foldl f s xs = Inr (foldl g s xs)"
  by (induction xs arbitrary: s) auto

section \<open>Closest ancestors\<close>

definition topo :: "gnode list \<Rightarrow> bool" where
  "topo nodes \<longleftrightarrow> (\<forall>i < length nodes. \<forall>j\<in>set (gn_inputs (nodes ! i)). j < i)"

definition multi :: "gnode list \<Rightarrow> string list \<Rightarrow> nat \<Rightarrow> bool" where
  "multi nodes input_names i = (has_multiple_inputs (Suc i) nodes i input_names OPT_OUT_OP = Inr True)"

lemma has_multiple_inputs_total:
  assumes "topo nodes" and "i < length nodes" and "i < fuel"
  shows "has_multiple_inputs fuel nodes i input_names OPT_OUT_OP = Inr (multi nodes input_names i)"
  using assms(2,3)
proof (induction i arbitrary: fuel rule: less_induct)
  case (less i)
  define num where "num k j = (let g = nodes ! j in if (case gn_op g of None \<Rightarrow> False | Some p \<Rightarrow> p \<in> set OPT_OUT_OP)
      then (if foldl (\<lambda>_ t. multi nodes input_names t) False (gn_inputs g) then k + 1 else k)
      else if gn_op g \<noteq> None \<or> (case gn_name g of None \<Rightarrow> False | Some n \<Rightarrow> n \<in> set input_names) then k + 1 else k)" for k :: nat and j
  have run: "has_multiple_inputs (Suc f) nodes i input_names OPT_OUT_OP = Inr (foldl num 0 (gn_inputs (nodes ! i)) > 1)" if f: "i \<le> f" for f
  proof -
    have "has_multiple_inputs f nodes t input_names OPT_OUT_OP = Inr (multi nodes input_names t)"
      if "j \<in> set (gn_inputs (nodes ! i))" "t \<in> set (gn_inputs (nodes ! j))" for j t
    proof (rule less.IH)
      have j: "j < i" using assms(1) that(1) less.prems(1) by (auto simp: topo_def)
      then have "t < j" using assms(1) that(2) less.prems(1) by (auto simp: topo_def)
      then show "t < i" "t < length nodes" "t < f" using j f less.prems(1) by auto
    qed
    then have inner: "res_foldl (\<lambda>_ t. has_multiple_inputs f nodes t input_names OPT_OUT_OP) False (gn_inputs (nodes ! j))
        = Inr (foldl (\<lambda>_ t. multi nodes input_names t) False (gn_inputs (nodes ! j)))" if "j \<in> set (gn_inputs (nodes ! i))" for j
      using that by (intro res_foldl_pure) blast
    have "j < length nodes" if "j \<in> set (gn_inputs (nodes ! i))" for j using assms(1) that less.prems(1) by (force simp: topo_def)
    then have "res_foldl (\<lambda>k j. if j \<ge> length nodes then Inl IndexError
          else let g = nodes ! j
               in if (case gn_op g of None \<Rightarrow> False | Some p \<Rightarrow> p \<in> set OPT_OUT_OP) then
                    res_bind (res_foldl (\<lambda>_ t. has_multiple_inputs f nodes t input_names OPT_OUT_OP) False (gn_inputs g))
                      (\<lambda>increase. Inr (if increase then k + 1 else k))
                  else Inr (if gn_op g \<noteq> None \<or> (case gn_name g of None \<Rightarrow> False | Some n \<Rightarrow> n \<in> set input_names) then k + 1 else k))
        (0 :: nat) (gn_inputs (nodes ! i)) = Inr (foldl num 0 (gn_inputs (nodes ! i)))"
      by (intro res_foldl_pure) (simp add: inner num_def Let_def not_le)
    then show ?thesis using less.prems(1) by simp
  qed
  obtain f where "fuel = Suc f" "i \<le> f" using less.prems(2) by (cases fuel) auto
  then show ?case using run [of f] run [of i] by (simp add: multi_def)
qed

inductive closest :: "gnode list \<Rightarrow> string list \<Rightarrow> string list \<Rightarrow> nat \<Rightarrow> nat \<Rightarrow> bool" for nodes target_ops input_names where
  here: "is_boundary_node (nodes ! i) input_names \<Longrightarrow> closest nodes target_ops input_names i i"
| found: "\<lbrakk>\<not> is_boundary_node (nodes ! i) input_names; k \<in> set (gn_inputs (nodes ! i)); is_target target_ops (nodes ! k) \<or> multi nodes input_names k\<rbrakk>
    \<Longrightarrow> closest nodes target_ops input_names i k"
| through: "\<lbrakk>\<not> is_boundary_node (nodes ! i) input_names; k \<in> set (gn_inputs (nodes ! i)); \<not> (is_target target_ops (nodes ! k) \<or> multi nodes input_names k);
     closest nodes target_ops input_names k j\<rbrakk> \<Longrightarrow> closest nodes target_ops input_names i j"

inductive_cases closestE: "closest nodes target_ops input_names i j"

lemma closest_boundary: "is_boundary_node (nodes ! i) input_names \<Longrightarrow> {j. closest nodes target_ops input_names i j} = {i}"
  by (auto intro: here elim: closestE)

lemma closest_inner:
  "\<not> is_boundary_node (nodes ! i) input_names \<Longrightarrow> {j. closest nodes target_ops input_names i j} =
     (\<Union>k\<in>set (gn_inputs (nodes ! i)). if is_target target_ops (nodes ! k) \<or> multi nodes input_names k then {k} else {j. closest nodes target_ops input_names k j})"
  by (auto intro: found through elim: closestE split: if_splits)

text \<open>The table of visited nodes is right.\<close>

definition memo_ok :: "gnode list \<Rightarrow> string list \<Rightarrow> string list \<Rightarrow> (nat \<times> nat list) list \<Rightarrow> bool" where
  "memo_ok nodes target_ops input_names vis \<longleftrightarrow> distinct (map fst vis)
     \<and> (\<forall>i xs. map_of vis i = Some xs \<longrightarrow> i < length nodes \<and> \<not> is_boundary_node (nodes ! i) input_names \<and> set xs = {j. closest nodes target_ops input_names i j})"

lemma memo_ok_update:
  assumes "memo_ok nodes target_ops input_names vis" and "i < length nodes" "\<not> is_boundary_node (nodes ! i) input_names"
    "set xs = {j. closest nodes target_ops input_names i j}"
  shows "memo_ok nodes target_ops input_names (AList.update i xs vis)"
  using assms by (auto simp: memo_ok_def update_conv' distinct_update split: if_splits)

lemma append_missing: "set (foldl (\<lambda>a t. if t \<in> set a then a else a @ [t]) anc tmp) = set anc \<union> set tmp"
  by (induction tmp arbitrary: anc) auto

definition gather ::
  "nat \<Rightarrow> gnode list \<Rightarrow> string list \<Rightarrow> string list \<Rightarrow> nat list \<times> (nat \<times> nat list) list \<Rightarrow> nat \<Rightarrow> (nat list \<times> (nat \<times> nat list) list) res" where
  "gather fuel nodes target_ops input_names = (\<lambda>(anc, vis) i.
     if i \<ge> length nodes then Inl IndexError
     else res_bind (has_multiple_inputs fuel nodes i input_names OPT_OUT_OP) (\<lambda>multi.
          if is_target target_ops (nodes ! i) \<or> multi then Inr (anc @ [i], vis)
          else res_bind (get_direct_ancestor fuel nodes vis target_ops i input_names) (\<lambda>(tmp, vis').
               Inr (foldl (\<lambda>a t. if t \<in> set a then a else a @ [t]) anc tmp, vis'))))"

lemma get_direct_ancestor_unfold:
  "get_direct_ancestor (Suc fuel) nodes visited target_ops idx input_names =
     (case map_of visited idx of
        Some xs \<Rightarrow> Inr (xs, visited)
      | None \<Rightarrow>
          if idx \<ge> length nodes then Inl IndexError
          else if is_boundary_node (nodes ! idx) input_names then Inr ([idx], visited)
          else res_bind (res_foldl (gather fuel nodes target_ops input_names) ([], visited) (gn_inputs (nodes ! idx)))
               (\<lambda>(anc, vis). Inr (anc, AList.update idx anc vis)))"
  by (simp add: gather_def [abs_def] split: option.split)

declare get_direct_ancestor.simps(2) [simp del]

lemma get_direct_ancestor_ok:
  assumes "topo nodes" and "i < length nodes" and "i < fuel" and "memo_ok nodes target_ops input_names vis"
  shows "\<exists>xs vis'. get_direct_ancestor fuel nodes vis target_ops i input_names = Inr (xs, vis') \<and> set xs = {j. closest nodes target_ops input_names i j}
    \<and> memo_ok nodes target_ops input_names vis' \<and> dom (map_of vis) \<subseteq> dom (map_of vis') \<and> (is_boundary_node (nodes ! i) input_names \<or> i \<in> dom (map_of vis'))"
  using assms(2-)
proof (induction fuel arbitrary: i vis)
  case (Suc fuel)
  consider (seen) xs where "map_of vis i = Some xs" | (boundary) "map_of vis i = None" "is_boundary_node (nodes ! i) input_names"
    | (fresh) "map_of vis i = None" "\<not> is_boundary_node (nodes ! i) input_names" by fastforce
  then show ?case
  proof cases
    case seen
    then show ?thesis using Suc.prems(3) by (auto simp: memo_ok_def get_direct_ancestor_unfold)
  next
    case boundary
    then show ?thesis using Suc.prems closest_boundary [OF boundary(2)] by (simp add: get_direct_ancestor_unfold not_le)
  next
    case fresh
    let ?part = "\<lambda>k. if is_target target_ops (nodes ! k) \<or> multi nodes input_names k then {k} else {j. closest nodes target_ops input_names k j}"
    have "\<exists>xs vis'. res_foldl (gather fuel nodes target_ops input_names) (anc, v) ks = Inr (xs, vis') \<and> set xs = set anc \<union> (\<Union>k\<in>set ks. ?part k)
        \<and> memo_ok nodes target_ops input_names vis' \<and> dom (map_of v) \<subseteq> dom (map_of vis')"
      if "memo_ok nodes target_ops input_names v" "\<forall>k\<in>set ks. k < i" for anc v ks
      using that
    proof (induction ks arbitrary: anc v)
      case (Cons k ks)
      have k: "k < length nodes" "k < fuel" using Cons.prems(2) Suc.prems(1,2) by auto
      have "\<exists>a w. gather fuel nodes target_ops input_names (anc, v) k = Inr (a, w) \<and> set a = set anc \<union> ?part k \<and> memo_ok nodes target_ops input_names w
          \<and> dom (map_of v) \<subseteq> dom (map_of w)"
      proof (cases "is_target target_ops (nodes ! k) \<or> multi nodes input_names k")
        case True
        then show ?thesis using Cons.prems(1) k has_multiple_inputs_total [OF assms(1) k] by (simp add: gather_def not_le)
      next
        case False
        obtain tmp w where t: "get_direct_ancestor fuel nodes v target_ops k input_names = Inr (tmp, w)"
          "set tmp = {j. closest nodes target_ops input_names k j}" "memo_ok nodes target_ops input_names w" "dom (map_of v) \<subseteq> dom (map_of w)"
          using Suc.IH [OF k Cons.prems(1)] by blast
        let ?a = "foldl (\<lambda>a t. if t \<in> set a then a else a @ [t]) anc tmp"
        have "gather fuel nodes target_ops input_names (anc, v) k = Inr (?a, w)"
          using False k has_multiple_inputs_total [OF assms(1) k] t(1) by (simp add: gather_def not_le)
        moreover have "set ?a = set anc \<union> ?part k" using False t(2) by (simp add: append_missing)
        ultimately show ?thesis using t(3,4) by blast
      qed
      then obtain a w where a: "gather fuel nodes target_ops input_names (anc, v) k = Inr (a, w)" "set a = set anc \<union> ?part k"
        "memo_ok nodes target_ops input_names w" "dom (map_of v) \<subseteq> dom (map_of w)" by blast
      have "\<forall>k\<in>set ks. k < i" using Cons.prems(2) by simp
      from Cons.IH [OF a(3) this, of a] obtain xs vis' where
        r: "res_foldl (gather fuel nodes target_ops input_names) (a, w) ks = Inr (xs, vis')" "set xs = set a \<union> (\<Union>k\<in>set ks. ?part k)"
        "memo_ok nodes target_ops input_names vis'" "dom (map_of w) \<subseteq> dom (map_of vis')" by blast
      have "res_foldl (gather fuel nodes target_ops input_names) (anc, v) (k # ks) = Inr (xs, vis')" using a(1) r(1) by simp
      moreover have "set xs = set anc \<union> (\<Union>k\<in>set (k # ks). ?part k)" unfolding r(2) a(2) by (simp only: list.simps UN_insert Un_assoc)
      moreover have "dom (map_of v) \<subseteq> dom (map_of vis')" using a(4) r(4) by (rule subset_trans)
      ultimately show ?case using r(3) by blast
    qed auto
    from this [OF Suc.prems(3), of "gn_inputs (nodes ! i)" "[]"] obtain xs vis' where
      r: "res_foldl (gather fuel nodes target_ops input_names) ([], vis) (gn_inputs (nodes ! i)) = Inr (xs, vis')"
      "set xs = (\<Union>k\<in>set (gn_inputs (nodes ! i)). ?part k)" "memo_ok nodes target_ops input_names vis'" "dom (map_of vis) \<subseteq> dom (map_of vis')"
      using assms(1) Suc.prems(1) by (auto simp: topo_def)
    have xs: "set xs = {j. closest nodes target_ops input_names i j}" using r(2) closest_inner [OF fresh(2), of target_ops] by simp
    have "memo_ok nodes target_ops input_names (AList.update i xs vis')" using memo_ok_update [OF r(3) Suc.prems(1) fresh(2) xs] .
    moreover have "get_direct_ancestor (Suc fuel) nodes vis target_ops i input_names = Inr (xs, AList.update i xs vis')"
      using r(1) fresh Suc.prems(1) by (simp add: get_direct_ancestor_unfold not_le)
    moreover have "dom (map_of vis) \<subseteq> dom (map_of (AList.update i xs vis'))" "i \<in> dom (map_of (AList.update i xs vis'))"
      using r(4) by (auto simp: update_conv')
    ultimately show ?thesis using xs by blast
  qed
qed simp

section \<open>The table of inputs\<close>

text \<open>
  Every entry of the table is a tuned operator or a node of several inputs with some of its closest ancestors; a tuned operator has all
  of them that are boundary nodes or still in the table.
\<close>

definition entry_ok :: "gnode list \<Rightarrow> string list \<Rightarrow> string list \<Rightarrow> nat set \<Rightarrow> nat \<Rightarrow> nat list \<Rightarrow> bool" where
  "entry_ok nodes target_ops input_names keys k val \<longleftrightarrow>
     k < length nodes \<and> \<not> is_boundary_node (nodes ! k) input_names \<and> (is_target target_ops (nodes ! k) \<or> multi nodes input_names k)
     \<and> set val \<subseteq> {j. closest nodes target_ops input_names k j}
     \<and> (is_target target_ops (nodes ! k) \<longrightarrow>
          {j. closest nodes target_ops input_names k j \<and> (is_boundary_node (nodes ! j) input_names \<or> j \<in> keys)} \<subseteq> set val)"

definition ins_ok :: "gnode list \<Rightarrow> string list \<Rightarrow> string list \<Rightarrow> (nat \<times> nat list) list \<Rightarrow> bool" where
  "ins_ok nodes target_ops input_names ins \<longleftrightarrow> distinct (map fst ins) \<and>
     (\<forall>k val. map_of ins k = Some val \<longrightarrow> entry_ok nodes target_ops input_names (dom (map_of ins)) k val)"

lemma entry_ok_subset:
  "entry_ok nodes target_ops input_names keys k val \<Longrightarrow> set val' \<subseteq> set val \<Longrightarrow> \<not> is_target target_ops (nodes ! k) \<Longrightarrow> entry_ok nodes target_ops input_names keys k val'"
  unfolding entry_ok_def by fast

lemma entry_ok_mono:
  "entry_ok nodes target_ops input_names keys k val \<Longrightarrow> keys' \<subseteq> keys \<Longrightarrow> entry_ok nodes target_ops input_names keys' k val"
  unfolding entry_ok_def by fast

lemma entry_ok_remove1:
  assumes "entry_ok nodes target_ops input_names keys k val" and "n \<notin> keys" and "\<not> is_boundary_node (nodes ! n) input_names"
  shows "entry_ok nodes target_ops input_names keys k (remove1 n val)"
proof -
  have "set (remove1 n val) \<subseteq> set val" by (rule set_remove1_subset)
  moreover have "set val - {n} \<subseteq> set (remove1 n val)" using in_set_remove1 by fastforce
  ultimately show ?thesis using assms unfolding entry_ok_def by (intro conjI) auto
qed

lemma ins_ok_update:
  assumes "ins_ok nodes target_ops input_names ins" and "map_of ins k = Some val" and "entry_ok nodes target_ops input_names (dom (map_of ins)) k val'"
  shows "ins_ok nodes target_ops input_names (AList.update k val' ins)"
proof -
  have "dom (map_of (AList.update k val' ins)) = dom (map_of ins)" using assms(2) by (auto simp: update_conv')
  then show ?thesis using assms unfolding ins_ok_def by (simp add: update_conv' distinct_update)
qed

lemma ins_ok_filter:
  assumes "ins_ok nodes target_ops input_names ins"
  shows "ins_ok nodes target_ops input_names (filter (\<lambda>q. P (fst q)) ins)"
proof -
  have m: "map_of (filter (\<lambda>q. P (fst q)) xs) k = (if P k then map_of xs k else None)" for k and xs :: "(nat \<times> nat list) list"
    by (induction xs) auto
  have "dom (map_of (filter (\<lambda>q. P (fst q)) ins)) \<subseteq> dom (map_of ins)" unfolding dom_def m by auto
  moreover have "distinct (map fst (filter (\<lambda>q. P (fst q)) ins))" using assms by (simp add: ins_ok_def distinct_map_filter)
  moreover have "map_of ins k = Some val" if "map_of (filter (\<lambda>q. P (fst q)) ins) k = Some val" for k val using that m [of ins k] by (simp split: if_splits)
  ultimately show ?thesis using assms entry_ok_mono unfolding ins_ok_def by blast
qed

lemma scan_inputs_subset: "scan_inputs keep key i val bd bnd = Inr (val', bnd') \<Longrightarrow> set val' \<subseteq> set val"
proof (induction keep key i val bd bnd rule: scan_inputs.induct)
  case (1 keep key i val bd bnd)
  show ?case
  proof (cases "i < length val")
    case True
    then obtain k where k: "keep (val ! i) = Inr k" using "1.prems" by (cases "keep (val ! i)") (auto simp: scan_inputs.simps [of _ _ i])
    show ?thesis
    proof (cases k)
      case t: True
      then show ?thesis using "1.IH"(1) [OF True k t] "1.prems" k True by (simp add: scan_inputs.simps [of _ _ i])
    next
      case f: False
      then have "set val' \<subseteq> set (remove1 (val ! i) val)" using "1.IH"(2) [OF True k f] "1.prems" k True by (simp add: scan_inputs.simps [of _ _ i])
      then show ?thesis using set_remove1_subset by fast
    qed
  qed (use "1.prems" in \<open>auto simp: scan_inputs.simps [of _ _ i]\<close>)
qed

lemma reduce_pass_ok:
  assumes "reduce_pass nodes target_ops input_names in_nodes = Inr (ins, bnd)" and "ins_ok nodes target_ops input_names in_nodes"
  shows "ins_ok nodes target_ops input_names ins"
proof -
  define P where "P st \<longleftrightarrow> ins_ok nodes target_ops input_names (fst st) \<and> dom (map_of (fst st)) = dom (map_of in_nodes)
      \<and> (\<forall>k. map_of (fst st) k \<noteq> None \<longrightarrow> set (the (map_of (fst st) k)) \<subseteq> set (the (map_of in_nodes k)))" for st :: "(nat \<times> nat list) list \<times> nat list"
  have "P (ins, bnd)"
    using assms(1) unfolding reduce_pass_def
  proof (rule res_foldl_invariant)
    show "P (in_nodes, [])" using assms(2) by (simp add: P_def)
    fix s x s' assume x: "x \<in> set in_nodes" "P s"
      and step: "(case s of (ins, bnd) \<Rightarrow> \<lambda>(key, val).
         if key \<ge> length nodes then Inl IndexError
         else if is_target target_ops (nodes ! key) then Inr (ins, bnd)
         else res_bind (scan_inputs (keep_input nodes input_names (map fst in_nodes)) key 0 val True bnd) (\<lambda>(val', bnd').
              Inr (AList.update key val' ins, bnd'))) x = Inr s'"
    obtain ins bnd key val where eq: "s = (ins, bnd)" "x = (key, val)" by fastforce
    have len: "\<not> length nodes \<le> key" using step by (auto simp: eq)
    have key: "map_of in_nodes key = Some val" using x(1) assms(2) by (simp add: eq ins_ok_def)
    show "P s'"
    proof (cases "is_target target_ops (nodes ! key)")
      case True
      then show ?thesis using step x len by (simp add: eq)
    next
      case False
      then obtain val' bnd' where sc: "scan_inputs (keep_input nodes input_names (map fst in_nodes)) key 0 val True bnd = Inr (val', bnd')"
        and s': "s' = (AList.update key val' ins, bnd')"
        using step len by (auto simp: eq res_bind_eq_Inr)
      have ins: "ins_ok nodes target_ops input_names ins" "dom (map_of ins) = dom (map_of in_nodes)" using x(2) by (auto simp: P_def eq)
      obtain old where old: "map_of ins key = Some old" using ins(2) key by (metis domD domI)
      have "entry_ok nodes target_ops input_names (dom (map_of ins)) key val" using assms(2) key ins(2) by (simp add: ins_ok_def)
      then have "entry_ok nodes target_ops input_names (dom (map_of ins)) key val'" using scan_inputs_subset [OF sc] False entry_ok_subset by blast
      then show ?thesis using ins_ok_update [OF ins(1) old] scan_inputs_subset [OF sc] x(2) key by (auto simp: s' P_def eq update_conv')
    qed
  qed
  then show ?thesis by (simp add: P_def)
qed

lemma reduce_loop_ok:
  "reduce_loop nodes target_ops input_names in_nodes = Inr ins \<Longrightarrow> ins_ok nodes target_ops input_names in_nodes \<Longrightarrow> ins_ok nodes target_ops input_names ins"
proof (induction nodes target_ops input_names in_nodes rule: reduce_loop.induct)
  case (1 nodes target_ops input_names in_nodes)
  obtain mid bnd where p: "reduce_pass nodes target_ops input_names in_nodes = Inr (mid, bnd)"
    using "1.prems"(1) by (auto simp: reduce_loop.simps [of _ _ _ in_nodes] res_bind_eq_Inr)
  have mid: "ins_ok nodes target_ops input_names mid" using reduce_pass_ok [OF p "1.prems"(2)] .
  show ?case
  proof (cases "bnd = []")
    case True
    then show ?thesis using "1.prems"(1) mid by (simp add: reduce_loop.simps [of _ _ _ in_nodes] p)
  next
    case False
    have "ins_ok nodes target_ops input_names (delete_all bnd mid)" unfolding delete_all_filter by (rule ins_ok_filter [OF mid])
    moreover have "reduce_loop nodes target_ops input_names (delete_all bnd mid) = Inr ins"
      using "1.prems"(1) False by (simp add: reduce_loop.simps [of _ _ _ in_nodes] p)
    ultimately show ?thesis using "1.IH" [OF p refl False] by blast
  qed
qed

lemma drop_empty_ok:
  assumes "drop_empty out_nodes ins n = Inr ins'" and "ins_ok nodes target_ops input_names ins"
  shows "ins_ok nodes target_ops input_names ins'"
proof -
  obtain v where v: "map_of ins n = Some v" using assms(1) by (auto simp: drop_empty_def split: if_splits)
  then have bd: "\<not> is_boundary_node (nodes ! n) input_names" using assms(2) by (auto simp: ins_ok_def entry_ok_def)
  define P where "P xs \<longleftrightarrow> ins_ok nodes target_ops input_names xs \<and> map_of xs n = None" for xs
  let ?f = "\<lambda>ins q. res_bind (dget (map_of ins) q) (\<lambda>xs. res_bind (list_remove n xs) (\<lambda>ys. Inr (AList.update q ys ins)))"
  have "res_foldl ?f (AList.delete n ins) (case map_of out_nodes n of None \<Rightarrow> [] | Some qs \<Rightarrow> qs) = Inr ins'"
    using assms(1) by (simp add: drop_empty_def split: if_splits)
  then have "P ins'"
  proof (rule res_foldl_invariant)
    have "AList.delete n ins = filter (\<lambda>q. fst q \<noteq> n) ins" by (auto simp: AList.delete_eq intro!: filter_cong)
    then have "ins_ok nodes target_ops input_names (AList.delete n ins)" using ins_ok_filter [OF assms(2), of "\<lambda>k. k \<noteq> n"] by simp
    then show "P (AList.delete n ins)" by (simp add: P_def delete_conv')
    fix s q s' assume P: "P s" and st: "?f s q = Inr s'"
    obtain xs where xs: "map_of s q = Some xs" "s' = AList.update q (remove1 n xs) s"
      using st by (auto simp: res_bind_eq_Inr dget_def list_remove_def split: option.splits if_splits)
    have "entry_ok nodes target_ops input_names (dom (map_of s)) q (remove1 n xs)"
      using P xs(1) bd by (intro entry_ok_remove1) (auto simp: P_def ins_ok_def)
    then show "P s'" using ins_ok_update [of nodes target_ops input_names s q xs] P xs by (auto simp: P_def update_conv')
  qed
  then show ?thesis by (simp add: P_def)
qed

lemma empty_loop_ok:
  "empty_loop out_nodes ins = Inr ins' \<Longrightarrow> ins_ok nodes target_ops input_names ins \<Longrightarrow>
     ins_ok nodes target_ops input_names ins' \<and> (\<forall>k val. map_of ins' k = Some val \<longrightarrow> val \<noteq> [])"
proof (induction out_nodes ins rule: empty_loop.induct)
  case (1 out_nodes ins)
  show ?case
  proof (cases "empty_nodes ins = []")
    case True
    then have "\<forall>q\<in>set ins. snd q \<noteq> []" by (auto simp: empty_nodes_def filter_empty_conv)
    then show ?thesis using "1.prems" True by (auto simp: empty_loop.simps [of _ ins] dest!: map_of_SomeD)
  next
    case False
    then obtain mid where m: "empty_pass out_nodes (empty_nodes ins) ins = Inr mid" "empty_loop out_nodes mid = Inr ins'"
      using "1.prems"(1) by (auto simp: empty_loop.simps [of _ ins] res_bind_eq_Inr)
    have "ins_ok nodes target_ops input_names mid"
      using m(1) unfolding empty_pass_def by (rule res_foldl_invariant) (use "1.prems"(2) drop_empty_ok in auto)
    then show ?thesis using "1.IH" [OF False m(1)] m(2) by blast
  qed
qed

lemma visited_ok:
  assumes "topo nodes" and "length nodes \<le> fuel"
    and "res_foldl (\<lambda>visited i. if is_boundary_node (nodes ! i) input_names \<or> i \<in> skipped then Inr visited
         else res_bind (get_direct_ancestor fuel nodes visited target_ops i input_names) (\<lambda>(_, visited'). Inr visited')) [] [0..<length nodes] = Inr visited"
  shows "memo_ok nodes target_ops input_names visited"
  using assms(3)
proof (rule res_foldl_invariant)
  show "memo_ok nodes target_ops input_names []" by (simp add: memo_ok_def)
  fix s i s' assume "i \<in> set [0..<length nodes]" "memo_ok nodes target_ops input_names s"
    "(if is_boundary_node (nodes ! i) input_names \<or> i \<in> skipped then Inr s
      else res_bind (get_direct_ancestor fuel nodes s target_ops i input_names) (\<lambda>(_, visited'). Inr visited')) = Inr s'"
  then show "memo_ok nodes target_ops input_names s'"
    using get_direct_ancestor_ok [OF assms(1), of i fuel target_ops input_names s] assms(2) by (auto split: if_splits)
qed

lemma selected_ok:
  assumes topo: "topo nodes" and fuel: "length nodes \<le> fuel" and memo: "memo_ok nodes target_ops input_names visited"
    and sel: "res_foldl (\<lambda>ins (key, val). res_bind (has_multiple_inputs fuel nodes key input_names OPT_OUT_OP) (\<lambda>multi.
           Inr (if is_target target_ops (nodes ! key) \<or> multi then ins @ [(key, val)] else ins))) [] visited = Inr in_nodes"
  shows "ins_ok nodes target_ops input_names in_nodes"
proof -
  let ?sel = "\<lambda>q. is_target target_ops (nodes ! fst q) \<or> multi nodes input_names (fst q)"
  have key: "fst q < length nodes" if "q \<in> set visited" for q
    using memo that unfolding memo_ok_def by (metis map_of_is_SomeI prod.collapse)
  have "res_foldl (\<lambda>ins (key, val). res_bind (has_multiple_inputs fuel nodes key input_names OPT_OUT_OP) (\<lambda>multi.
           Inr (if is_target target_ops (nodes ! key) \<or> multi then ins @ [(key, val)] else ins))) [] visited
      = Inr (foldl (\<lambda>ins q. if ?sel q then ins @ [q] else ins) [] visited)"
  proof (rule res_foldl_pure)
    fix s and q :: "nat \<times> nat list" assume "q \<in> set visited"
    then have "has_multiple_inputs fuel nodes (fst q) input_names OPT_OUT_OP = Inr (multi nodes input_names (fst q))"
      using key [of q] fuel by (intro has_multiple_inputs_total [OF topo]) linarith+
    then show "(case q of (key, val) \<Rightarrow> res_bind (has_multiple_inputs fuel nodes key input_names OPT_OUT_OP) (\<lambda>multi.
           Inr (if is_target target_ops (nodes ! key) \<or> multi then s @ [(key, val)] else s))) = Inr (if ?sel q then s @ [q] else s)"
      by (cases q) simp
  qed
  moreover have "foldl (\<lambda>ins q. if ?sel q then ins @ [q] else ins) acc xs = acc @ filter ?sel xs" for acc and xs :: "(nat \<times> nat list) list"
    by (induction xs arbitrary: acc) auto
  ultimately have ins: "in_nodes = filter ?sel visited" using sel by simp
  have "distinct (map fst in_nodes)" using memo by (simp add: ins memo_ok_def distinct_map_filter)
  moreover have "entry_ok nodes target_ops input_names (dom (map_of in_nodes)) k val" if "map_of in_nodes k = Some val" for k val
  proof -
    have "(k, val) \<in> set visited" "?sel (k, val)" using that by (auto simp: ins dest: map_of_SomeD)
    then have "map_of visited k = Some val" using memo by (simp add: memo_ok_def)
    then show ?thesis using memo \<open>?sel (k, val)\<close> by (auto simp: memo_ok_def entry_ok_def)
  qed
  ultimately show ?thesis by (simp add: ins_ok_def)
qed

text \<open>
  C33. The input table of a graph: its keys are different nodes, each a tuned operator or a node of several inputs; the inputs it lists for a key are among its closest ancestors, the ones reached
  without passing another such node or a boundary; no list is empty; and a tuned operator has all closest ancestors that are boundary nodes or in the table.
\<close>

theorem get_in_nodes_spec:
  assumes "topo nodes" and "length nodes \<le> fuel" and "get_in_nodes fuel nodes skipped target_ops input_names = Inr ins"
  shows "distinct (map fst ins) \<and> (\<forall>(k, val)\<in>set ins. k < length nodes \<and> \<not> is_boundary_node (nodes ! k) input_names
      \<and> (is_target target_ops (nodes ! k) \<or> multi nodes input_names k) \<and> val \<noteq> [] \<and> set val \<subseteq> {j. closest nodes target_ops input_names k j}
      \<and> (is_target target_ops (nodes ! k) \<longrightarrow>
           {j. closest nodes target_ops input_names k j \<and> (is_boundary_node (nodes ! j) input_names \<or> j \<in> set (map fst ins))} \<subseteq> set val))"
proof -
  let ?visit = "res_foldl (\<lambda>visited i. if is_boundary_node (nodes ! i) input_names \<or> i \<in> skipped then Inr visited
         else res_bind (get_direct_ancestor fuel nodes visited target_ops i input_names) (\<lambda>(_, visited'). Inr visited')) [] [0..<length nodes]"
  obtain visited where v: "?visit = Inr visited" using assms(3) unfolding get_in_nodes_def res_bind_eq_Inr by blast
  obtain in_nodes where i: "res_foldl (\<lambda>ins (key, val). res_bind (has_multiple_inputs fuel nodes key input_names OPT_OUT_OP) (\<lambda>multi.
           Inr (if is_target target_ops (nodes ! key) \<or> multi then ins @ [(key, val)] else ins))) [] visited = Inr in_nodes"
    and r: "res_bind (reduce_loop nodes target_ops input_names in_nodes) (empty_loop (get_out_nodes in_nodes)) = Inr ins"
    using assms(3) v unfolding get_in_nodes_def by (auto simp: res_bind_eq_Inr)
  obtain mid where m: "reduce_loop nodes target_ops input_names in_nodes = Inr mid" "empty_loop (get_out_nodes in_nodes) mid = Inr ins"
    using r by (auto simp: res_bind_eq_Inr)
  have "ins_ok nodes target_ops input_names in_nodes" using selected_ok [OF assms(1,2) visited_ok [OF assms(1,2) v] i] .
  then have ok: "ins_ok nodes target_ops input_names ins" "\<forall>k val. map_of ins k = Some val \<longrightarrow> val \<noteq> []"
    using empty_loop_ok [OF m(2)] reduce_loop_ok [OF m(1)] by auto
  have "map_of ins k = Some val" if "(k, val) \<in> set ins" for k val using that ok(1) by (simp add: ins_ok_def)
  moreover have "dom (map_of ins) = set (map fst ins)" by (simp add: dom_map_of_conv_image_fst)
  ultimately show ?thesis using ok unfolding ins_ok_def entry_ok_def by fastforce
qed

text \<open>
  The output table is the converse of the input table: a node has the keys that list it as an input, in their order and as often as they list it; the other keys have no outputs, and no other node is in it.
\<close>

lemma get_out_nodes_map:
  "map_of (get_out_nodes ins) j =
     (if j \<in> set (map fst ins) \<or> (\<exists>(k, val)\<in>set ins. j \<in> set val) then Some (concat (map (\<lambda>(k, val). replicate (count_list val j) k) ins)) else None)"
proof -
  have inner: "map_of (foldl (\<lambda>out item. AList.update item (case map_of out item of Some xs \<Rightarrow> xs @ [key] | None \<Rightarrow> [key]) out) out val) j
      = (if j \<in> set val then Some ((case map_of out j of Some xs \<Rightarrow> xs | None \<Rightarrow> []) @ replicate (count_list val j) key) else map_of out j)" for out val and key :: nat
  proof (induction val arbitrary: out)
    case (Cons x val)
    then show ?case by (auto simp: update_conv' count_list_0_iff replicate_append_same split: option.split)
  qed simp
  have outer: "map_of (foldl (\<lambda>out (key, val). foldl (\<lambda>out item. AList.update item (case map_of out item of Some xs \<Rightarrow> xs @ [key] | None \<Rightarrow> [key]) out) out val) out xs) j
      = (if \<exists>(k, val)\<in>set xs. j \<in> set val then Some ((case map_of out j of Some ys \<Rightarrow> ys | None \<Rightarrow> []) @ concat (map (\<lambda>(k, val). replicate (count_list val j) k) xs))
         else map_of out j)" for out and xs :: "(nat \<times> nat list) list"
  proof (induction xs arbitrary: out)
    case (Cons q xs)
    then show ?case by (cases q) (auto simp: inner count_list_0_iff split: option.split)
  qed simp
  have start: "map_of (map (\<lambda>(key, val). (key, [])) ins) j = (if j \<in> set (map fst ins) then Some ([] :: nat list) else None)" for ins :: "(nat \<times> nat list) list"
    by (induction ins) auto
  have "concat (map (\<lambda>(k, val). replicate (count_list val j) k) ins) = []" if "\<not> (\<exists>(k, val)\<in>set ins. j \<in> set val)"
    using that by (auto simp: count_list_0_iff)
  then show ?thesis unfolding get_out_nodes_def outer start by auto
qed

lemma get_out_nodes_distinct:
  assumes "distinct (map fst ins)"
  shows "distinct (map fst (get_out_nodes ins))"
proof -
  have inner: "distinct (map fst out) \<Longrightarrow> distinct (map fst (foldl (\<lambda>out item. AList.update item (f out item) out) out val))" for f and out :: "(nat \<times> nat list) list" and val :: "nat list"
    by (induction val arbitrary: out) (auto intro: distinct_update)
  have outer: "distinct (map fst out) \<Longrightarrow> distinct (map fst (foldl (\<lambda>out (key, val). foldl (\<lambda>out item. AList.update item (f key out item) out) out val) out xs))"
    for f and out :: "(nat \<times> nat list) list" and xs :: "(nat \<times> nat list) list"
    by (induction xs arbitrary: out) (auto intro: inner)
  have eq: "map fst (map (\<lambda>(key, val). (key, [] :: nat list)) ins) = map fst ins" by (induction ins) auto
  show ?thesis unfolding get_out_nodes_def by (rule outer) (simp only: eq assms)
qed

text \<open>Two convolutions with a shortcut from the input around the first; the flag says whether the shortcut is the first argument of the addition.\<close>

definition shortcut_nodes :: "bool \<Rightarrow> gnode list" where
  "shortcut_nodes first =
     [\<lparr>gn_op = None, gn_name = Some ''data'', gn_inputs = [], gn_costs = []\<rparr>,
      \<lparr>gn_op = None, gn_name = Some ''w1'', gn_inputs = [], gn_costs = []\<rparr>,
      \<lparr>gn_op = Some ''nn.conv2d'', gn_name = None, gn_inputs = [0, 1], gn_costs = [5, 1]\<rparr>,
      \<lparr>gn_op = Some ''add'', gn_name = None, gn_inputs = (if first then [0, 2] else [2, 0]), gn_costs = [5, 1]\<rparr>,
      \<lparr>gn_op = None, gn_name = Some ''w2'', gn_inputs = [], gn_costs = []\<rparr>,
      \<lparr>gn_op = Some ''nn.conv2d'', gn_name = None, gn_inputs = [3, 4], gn_costs = [1, 2]\<rparr>]"

lemma shortcut_topo: "topo (shortcut_nodes first)"
  by (auto simp: topo_def shortcut_nodes_def less_Suc_eq numeral_eq_Suc nth_Cons')

definition shortcut_ins :: "(nat \<times> nat list) list" where
  "shortcut_ins = [(2, [0]), (3, [2]), (5, [3])]"

lemma shortcut_in_nodes: "get_in_nodes 6 (shortcut_nodes False) {} [''nn.conv2d''] [''data''] = Inr shortcut_ins"
  by code_simp

theorem get_in_nodes_spec_witness:
  "(5, [3]) \<in> set shortcut_ins \<and> closest (shortcut_nodes False) [''nn.conv2d''] [''data''] 5 3
   \<and> {j. closest (shortcut_nodes False) [''nn.conv2d''] [''data''] 5 j
         \<and> (is_boundary_node (shortcut_nodes False ! j) [''data''] \<or> j \<in> set (map fst shortcut_ins))} \<subseteq> {3}"
proof -
  let ?n = "shortcut_nodes False"
  have len: "length ?n \<le> 6" by (simp add: shortcut_nodes_def)
  have mem: "(5, [3]) \<in> set shortcut_ins" by (simp add: shortcut_ins_def)
  have "is_target [''nn.conv2d''] (?n ! 5)" by (simp add: is_target_def shortcut_nodes_def)
  then show ?thesis using bspec [OF conjunct2 [OF get_in_nodes_spec [OF shortcut_topo len shortcut_in_nodes]] mem] mem by auto
qed

text \<open>
  Which argument of an addition is the shortcut decides whether the addition is tuned. When the input comes second, the addition is in the table with the convolution it depends on; when it comes
  first, removing it ends the search through the arguments, the addition counts as a boundary and is dropped, and the convolution behind it refers to a node that is neither a boundary nor in the table.
\<close>

theorem shortcut_order:
  "get_in_nodes 6 (shortcut_nodes False) {} [''nn.conv2d''] [''data''] = Inr [(2, [0]), (3, [2]), (5, [3])]
   \<and> get_in_nodes 6 (shortcut_nodes True) {} [''nn.conv2d''] [''data''] = Inr [(2, [0]), (5, [3])]
   \<and> \<not> is_boundary_node (shortcut_nodes True ! 3) [''data'']"
  by (intro conjI; code_simp)

end
