(* ===== verification/PbqpSetup.thy ===== *)
theory PbqpSetup
  imports PbqpSolve GraphTraverseCorrect
begin

text \<open>
  From the inputs of the PBQP tuner to its result: the constructor drops the boundary nodes from the table of inputs, and the state that it and the first part of \<open>run\<close> build is well-formed when
  the table of outputs is the one made from the inputs and every edge has its own matrix.
\<close>

section \<open>Inputs of the tuner\<close>

abbreviation gin :: "(nat \<times> nat list) list \<Rightarrow> nat \<Rightarrow> nat list" where
  "gin ins u \<equiv> the (map_of ins u)"

abbreviation ncosts :: "gnode list \<Rightarrow> nat \<Rightarrow> rat list" where
  "ncosts nodes u \<equiv> gn_costs (nodes ! u)"

text \<open>Without the boundary inputs, the table of inputs mirrors that of the outputs; there are no self loops and no pair of opposite edges.\<close>

definition graph_ok :: "gnode list \<Rightarrow> string list \<Rightarrow> (nat \<times> nat list) list \<Rightarrow> (nat \<times> nat list) list \<Rightarrow> bool" where
  "graph_ok nodes names ins outs \<longleftrightarrow> distinct (map fst ins) \<and> distinct (map fst outs) \<and> fst ` set ins \<subseteq> fst ` set outs
     \<and> (\<forall>u\<in>fst ` set ins. u < length nodes \<and> \<not> is_boundary_node (nodes ! u) names \<and> ncosts nodes u \<noteq> [] \<and> (\<forall>c\<in>set (ncosts nodes u). 0 \<le> c)
          \<and> distinct (gin ins u @ gin outs u) \<and> u \<notin> set (gin ins u)
          \<and> set (gin ins u @ gin outs u) \<subseteq> fst ` set ins \<and> (\<forall>v\<in>fst ` set ins. v \<in> set (gin outs u) \<longleftrightarrow> u \<in> set (gin ins v)))"

text \<open>Every edge has a matrix of its own, of the right size.\<close>

definition costs_ok :: "gnode list \<Rightarrow> (nat \<times> nat list) list \<Rightarrow> ((nat \<times> nat) \<times> nat) list \<Rightarrow> matrix list \<Rightarrow> bool" where
  "costs_ok nodes ins cost heap \<longleftrightarrow> distinct (map fst cost) \<and> distinct (map snd cost)
     \<and> (\<forall>((u, v), a)\<in>set cost. (v, u) \<notin> fst ` set cost \<and> a < length heap \<and> u < length nodes \<and> v < length nodes
          \<and> mat_ok (heap ! a) (length (ncosts nodes u)) (length (ncosts nodes v)) \<and> ncosts nodes u \<noteq> [])
     \<and> (\<forall>v\<in>fst ` set ins. \<forall>u\<in>set (gin ins v). (u, v) \<in> fst ` set cost)"

text \<open>What is to be minimised: the execution times and, for every input of every node, the layout transformation.\<close>

definition total_cost :: "gnode list \<Rightarrow> (nat \<times> nat list) list \<Rightarrow> ((nat \<times> nat) \<times> nat) list \<Rightarrow> matrix list \<Rightarrow> (nat \<Rightarrow> nat) \<Rightarrow> rat" where
  "total_cost nodes ins cost heap a =
     (\<Sum>u\<in>fst ` set ins. ncosts nodes u ! a u + (\<Sum>v\<in>set (gin ins u). heap ! the (map_of cost (v, u)) ! a v ! a u))"

section \<open>Setting up\<close>

lemma map_of_keyed: "map_of (map (\<lambda>(n, xs). (n, f n xs)) ins) u = map_option (f u) (map_of ins u)"
  by (induction ins) auto

lemma map_of_keyed': "map_of (map (\<lambda>q. (fst q, f (fst q) (snd q))) ins) u = map_option (f u) (map_of ins u)"
  by (induction ins) auto

lemma foldl_max_ge: "x \<in> insert c (set xs) \<Longrightarrow> x \<le> foldl max c xs" for c :: int
proof (induction xs arbitrary: c x)
  case (Cons y xs)
  have "max c y \<le> foldl max (max c y) xs" using Cons.IH [of "max c y" "max c y"] by simp
  then show ?case using Cons by auto
qed simp

lemma map_of_gin: "u \<in> fst ` set ins \<Longrightarrow> map_of ins u = Some (gin ins u)"
  by (metis map_of_eq_None_iff option.collapse)

section \<open>Boundary inputs\<close>

text \<open>
  A table of inputs as \<open>get_in_nodes\<close> makes it: the keys are no boundary nodes, an input is a boundary node or a key, no node is twice an input of another or, directly or in a pair, of itself.
\<close>

definition table_ok :: "gnode list \<Rightarrow> string list \<Rightarrow> (nat \<times> nat list) list \<Rightarrow> bool" where
  "table_ok nodes names ins \<longleftrightarrow> distinct (map fst ins)
     \<and> (\<forall>(u, xs)\<in>set ins. u < length nodes \<and> \<not> is_boundary_node (nodes ! u) names \<and> ncosts nodes u \<noteq> [] \<and> (\<forall>c\<in>set (ncosts nodes u). 0 \<le> c) \<and> distinct xs
          \<and> (\<forall>v\<in>set xs. v < length nodes \<and> v \<noteq> u \<and> (is_boundary_node (nodes ! v) names \<or> v \<in> fst ` set ins \<and> u \<notin> set (gin ins v))))"

text \<open>What is left of the table without its boundary inputs.\<close>

definition inner_table :: "gnode list \<Rightarrow> string list \<Rightarrow> (nat \<times> nat list) list \<Rightarrow> (nat \<times> nat list) list" where
  "inner_table nodes names = map (\<lambda>(u, xs). (u, filter (\<lambda>v. \<not> is_boundary_node (nodes ! v) names) xs))"

abbreviation filtered :: "(nat \<times> nat list) list \<Rightarrow> (nat \<Rightarrow> nat \<Rightarrow> bool) \<Rightarrow> (nat \<times> nat list) list" where
  "filtered ins K \<equiv> map (\<lambda>(u, xs). (u, filter (K u) xs)) ins"

lemma filtered_update:
  "distinct (map fst ins) \<Longrightarrow> (u, xs) \<in> set ins \<Longrightarrow>
     AList.update u (filter (\<lambda>v. K u v \<and> v \<noteq> n) xs) (filtered ins K) = filtered ins (\<lambda>w v. K w v \<and> \<not> (w = u \<and> v = n))"
proof (induction ins)
  case (Cons q ins)
  obtain w ys where q: "q = (w, ys)" by fastforce
  show ?case
  proof (cases "w = u")
    case True
    then have "u \<notin> fst ` set ins" using Cons.prems(1) by (simp add: q)
    then have "w' \<noteq> u" if "(w', b) \<in> set ins" for w' b using that by force
    then have rest: "filtered ins (\<lambda>w v. K w v \<and> \<not> (w = u \<and> v = n)) = filtered ins K" by (auto intro!: filter_cong)
    have "xs = ys" using Cons.prems(2) True \<open>u \<notin> fst ` set ins\<close> by (force simp: q)
    then show ?thesis using True rest by (simp add: q)
  next
    case False
    then show ?thesis using Cons by (auto simp: q)
  qed
qed simp

lemma remove_filtered: "distinct xs \<Longrightarrow> n \<in> set xs \<Longrightarrow> P n \<Longrightarrow> list_remove n (filter P xs) = Inr (filter (\<lambda>v. P v \<and> v \<noteq> n) xs)"
  by (simp add: list_remove_def distinct_remove1_removeAll removeAll_filter_not_eq conj_commute eq_commute)

lemma drop_one:
  assumes "distinct (map fst ins)" and "distinct ys" and "\<forall>u\<in>set ys. \<exists>xs. (u, xs) \<in> set ins \<and> distinct xs \<and> n \<in> set xs \<and> K u n"
  shows "res_foldl (\<lambda>ins o1. res_bind (dget (map_of ins) o1) (\<lambda>xs. res_bind (list_remove n xs) (\<lambda>ys. Inr (AList.update o1 ys ins)))) (filtered ins K) ys
    = Inr (filtered ins (\<lambda>u v. K u v \<and> \<not> (u \<in> set ys \<and> v = n)))"
  using assms(2,3)
proof (induction ys arbitrary: K)
  case (Cons u ys)
  obtain xs where xs: "(u, xs) \<in> set ins" "distinct xs" "n \<in> set xs" "K u n" using Cons.prems(2) by auto
  have "map_of ins u = Some xs" using xs(1) assms(1) by simp
  then have get: "dget (map_of (filtered ins K)) u = Inr (filter (K u) xs)" by (simp add: dget_def map_of_keyed)
  let ?K = "\<lambda>w v. K w v \<and> \<not> (w = u \<and> v = n)"
  have "\<forall>w\<in>set ys. \<exists>xs. (w, xs) \<in> set ins \<and> distinct xs \<and> n \<in> set xs \<and> ?K w n" using Cons.prems by fastforce
  then have "res_foldl (\<lambda>ins o1. res_bind (dget (map_of ins) o1) (\<lambda>xs. res_bind (list_remove n xs) (\<lambda>ys. Inr (AList.update o1 ys ins)))) (filtered ins ?K) ys
      = Inr (filtered ins (\<lambda>w v. ?K w v \<and> \<not> (w \<in> set ys \<and> v = n)))" using Cons.prems(1) by (intro Cons.IH) auto
  then show ?case
    using get remove_filtered [of xs n "K u"] xs filtered_update [OF assms(1) xs(1), of K n] by (auto intro!: filter_cong)
qed simp

lemma distinct_count_one: "distinct xs \<Longrightarrow> count_list xs v = (if v \<in> set xs then 1 else 0)"
  by (induction xs) auto

lemma table_outs:
  assumes "table_ok nodes names ins"
  shows "map_of (get_out_nodes ins) v = (if v \<in> fst ` set ins \<or> (\<exists>(k, xs)\<in>set ins. v \<in> set xs) then Some (map fst (filter (\<lambda>(k, xs). v \<in> set xs) ins)) else None)"
proof -
  have "concat (map (\<lambda>(k, xs). replicate (count_list xs v) k) qs) = map fst (filter (\<lambda>(k, xs). v \<in> set xs) qs)" if "set qs \<subseteq> set ins" for qs
    using that
  proof (induction qs)
    case (Cons q qs)
    then have "distinct (snd q)" using assms by (auto simp: table_ok_def)
    then have "count_list (snd q) v = (if v \<in> set (snd q) then 1 else 0)" by (rule distinct_count_one)
    then show ?case using Cons by (cases q) simp
  qed simp
  then show ?thesis unfolding get_out_nodes_map by simp
qed

lemma drop_boundary_table:
  assumes t: "table_ok nodes names ins"
  shows "drop_boundary nodes names ins (get_out_nodes ins) = Inr (inner_table nodes names ins)"
proof -
  let ?bd = "\<lambda>v. is_boundary_node (nodes ! v) names" and ?outs = "get_out_nodes ins"
  define step where "step ins' q = (case q of (n, ys) \<Rightarrow>
       if n \<ge> length nodes then Inl IndexError
       else if ?bd n then res_foldl (\<lambda>ins o1. res_bind (dget (map_of ins) o1) (\<lambda>xs. res_bind (list_remove n xs) (\<lambda>ys. Inr (AList.update o1 ys ins)))) ins' ys
       else Inr ins')" for ins' and q :: "nat \<times> nat list"
  have dis: "distinct (map fst ins)" "distinct (map fst ?outs)" using t get_out_nodes_distinct by (auto simp: table_ok_def)
  have out: "n < length nodes" "distinct ys" "set ys = {u. \<exists>xs. (u, xs) \<in> set ins \<and> n \<in> set xs}" if q: "(n, ys) \<in> set ?outs" for n ys
  proof -
    have "map_of ?outs n = Some ys" using q dis(2) by simp
    then have n: "n \<in> fst ` set ins \<or> (\<exists>(k, xs)\<in>set ins. n \<in> set xs)" and ys: "ys = map fst (filter (\<lambda>(k, xs). n \<in> set xs) ins)"
      unfolding table_outs [OF t] by (auto split: if_splits)
    show "n < length nodes" using n t by (fastforce simp: table_ok_def)
    show "distinct ys" unfolding ys using dis(1) by (rule distinct_map_filter)
    show "set ys = {u. \<exists>xs. (u, xs) \<in> set ins \<and> n \<in> set xs}" unfolding ys by force
  qed
  have "res_foldl step (filtered ins (\<lambda>u v. v \<notin> P \<or> \<not> ?bd v)) qs = Inr (filtered ins (\<lambda>u v. v \<notin> P \<union> fst ` set qs \<or> \<not> ?bd v))"
    if "set qs \<subseteq> set ?outs" "distinct (map fst qs)" "P \<inter> fst ` set qs = {}" for qs P
    using that
  proof (induction qs arbitrary: P)
    case (Cons q qs)
    obtain n ys where q: "q = (n, ys)" by fastforce
    note o = out [of n ys]
    have mem: "(n, ys) \<in> set ?outs" "n \<notin> P" using Cons.prems q by auto
    have "step (filtered ins (\<lambda>u v. v \<notin> P \<or> \<not> ?bd v)) q = Inr (filtered ins (\<lambda>u v. v \<notin> insert n P \<or> \<not> ?bd v))"
    proof (cases "?bd n")
      case True
      have "\<forall>u\<in>set ys. \<exists>xs. (u, xs) \<in> set ins \<and> distinct xs \<and> n \<in> set xs \<and> (n \<notin> P \<or> \<not> ?bd n)"
        using o(3) [OF mem(1)] mem(2) t by (auto simp: table_ok_def)
      from drop_one [where K = "\<lambda>u v. v \<notin> P \<or> \<not> ?bd v", OF dis(1) o(2) [OF mem(1)] this]
      have "step (filtered ins (\<lambda>u v. v \<notin> P \<or> \<not> ?bd v)) q = Inr (filtered ins (\<lambda>u v. (v \<notin> P \<or> \<not> ?bd v) \<and> \<not> (u \<in> set ys \<and> v = n)))"
        using True o(1) [OF mem(1)] by (simp add: step_def q)
      also have "filtered ins (\<lambda>u v. (v \<notin> P \<or> \<not> ?bd v) \<and> \<not> (u \<in> set ys \<and> v = n)) = filtered ins (\<lambda>u v. v \<notin> insert n P \<or> \<not> ?bd v)"
        unfolding o(3) [OF mem(1)] using True by (auto intro!: filter_cong)
      finally show ?thesis .
    next
      case False
      then have "filtered ins (\<lambda>u v. v \<notin> insert n P \<or> \<not> ?bd v) = filtered ins (\<lambda>u v. v \<notin> P \<or> \<not> ?bd v)" by (auto intro!: filter_cong)
      then show ?thesis using False o(1) [OF mem(1)] by (simp add: step_def q)
    qed
    then show ?case using Cons.IH [of "insert n P"] Cons.prems q by auto
  qed simp
  from this [of ?outs "{}"] dis(2) have "res_foldl step (filtered ins (\<lambda>u v. True)) ?outs = Inr (filtered ins (\<lambda>u v. v \<notin> fst ` set ?outs \<or> \<not> ?bd v))" by simp
  moreover have "filtered ins (\<lambda>u v. True) = ins" by (induction ins) auto
  moreover have "v \<in> fst ` set ?outs" if "(u, xs) \<in> set ins" "v \<in> set xs" for u xs v
  proof -
    have "map_of ?outs v \<noteq> None" using that by (auto simp: table_outs [OF t])
    then show ?thesis by (metis map_of_eq_None_iff)
  qed
  then have "filtered ins (\<lambda>u v. v \<notin> fst ` set ?outs \<or> \<not> ?bd v) = inner_table nodes names ins" unfolding inner_table_def by (auto intro!: filter_cong)
  ultimately show ?thesis unfolding drop_boundary_def step_def [abs_def] by simp
qed

lemma inner_table_keys: "fst ` set (inner_table nodes names ins) = fst ` set ins" "map fst (inner_table nodes names ins) = map fst ins"
  by (force simp: inner_table_def) (auto simp: inner_table_def)

lemma inner_table_gin: "u \<in> fst ` set ins \<Longrightarrow> gin (inner_table nodes names ins) u = filter (\<lambda>v. \<not> is_boundary_node (nodes ! v) names) (gin ins u)"
proof -
  assume "u \<in> fst ` set ins"
  then obtain xs where "map_of ins u = Some xs" using map_of_gin by blast
  then show ?thesis by (simp add: inner_table_def map_of_keyed)
qed

lemma inner_table_graph:
  assumes t: "table_ok nodes names ins"
  shows "graph_ok nodes names (inner_table nodes names ins) (get_out_nodes ins)"
proof -
  let ?V = "fst ` set ins" and ?bd = "\<lambda>v. is_boundary_node (nodes ! v) names" and ?outs = "get_out_nodes ins" and ?I = "inner_table nodes names ins"
  have dis: "distinct (map fst ins)" using t by (simp add: table_ok_def)
  have row: "(u, gin ins u) \<in> set ins" if "u \<in> ?V" for u using map_of_gin [OF that] by (rule map_of_SomeD)
  have gu: "u < length nodes" "\<not> ?bd u" "ncosts nodes u \<noteq> []" "\<forall>c\<in>set (ncosts nodes u). 0 \<le> c" "distinct (gin ins u)"
    "\<And>v. v \<in> set (gin ins u) \<Longrightarrow> v \<noteq> u \<and> (?bd v \<or> v \<in> ?V \<and> u \<notin> set (gin ins v))" if u: "u \<in> ?V" for u
  proof -
    note r = bspec [OF conjunct2 [OF t [unfolded table_ok_def]] row [OF u], unfolded prod.case]
    show "u < length nodes" "\<not> ?bd u" "ncosts nodes u \<noteq> []" "\<forall>c\<in>set (ncosts nodes u). 0 \<le> c" "distinct (gin ins u)"
      "\<And>v. v \<in> set (gin ins u) \<Longrightarrow> v \<noteq> u \<and> (?bd v \<or> v \<in> ?V \<and> u \<notin> set (gin ins v))" using r by blast+
  qed
  have keyed: "xs = gin ins u" if "(u, xs) \<in> set ins" for u xs using that dis by simp
  have outs: "gin ?outs u = map fst (filter (\<lambda>(k, xs). u \<in> set xs) ins)" if "u \<in> ?V" for u using that by (simp add: table_outs [OF t])
  have mem: "v \<in> set (gin ?outs u) \<longleftrightarrow> v \<in> ?V \<and> u \<in> set (gin ins v)" if "u \<in> ?V" for u v
    unfolding outs [OF that] using keyed row by force
  have outs_distinct: "distinct (gin ?outs u)" if "u \<in> ?V" for u unfolding outs [OF that] by (rule distinct_map_filter [OF dis])
  have keys: "v \<in> fst ` set ?outs" if "v \<in> ?V" for v
  proof -
    have "map_of ?outs v \<noteq> None" using that by (simp add: table_outs [OF t])
    then show ?thesis by (metis map_of_eq_None_iff)
  qed
  show ?thesis
    unfolding graph_ok_def inner_table_keys
  proof (intro conjI ballI)
    show "distinct (map fst ins)" "distinct (map fst ?outs)" by (fact dis, rule get_out_nodes_distinct [OF dis])
    show "?V \<subseteq> fst ` set ?outs" using keys by blast
    fix u assume u: "u \<in> ?V"
    note i = inner_table_gin [OF u, of nodes names]
    show "u < length nodes" "\<not> ?bd u" "ncosts nodes u \<noteq> []" using gu(1-3) [OF u] by simp_all
    show "0 \<le> c" if "c \<in> set (ncosts nodes u)" for c using gu(4) [OF u] that by blast
    show "set (gin ?I u @ gin ?outs u) \<subseteq> ?V" using gu(6) [OF u] mem [OF u] unfolding i set_append set_filter by blast
    have "set (gin ?I u) \<inter> set (gin ?outs u) = {}" using gu(6) [OF u] mem [OF u] unfolding i set_filter by blast
    then show "distinct (gin ?I u @ gin ?outs u)" using outs_distinct [OF u] gu(5) [OF u] by (simp add: i)
    show "u \<notin> set (gin ?I u)" using gu(6) [OF u] unfolding i set_filter by blast
    fix v assume v: "v \<in> ?V"
    show "(v \<in> set (gin ?outs u)) = (u \<in> set (gin ?I v))"
      unfolding mem [OF u] inner_table_gin [OF v] set_filter using v gu(2) [OF u] by blast
  qed
qed

section \<open>The constructor\<close>

lemma pq_init_eq:
  assumes "graph_ok nodes names ins outs" and drop: "drop_boundary nodes names raw outs = Inr ins"
  shows "\<exists>s. pq_init nodes names raw outs cost heap = Inr s
    \<and> pq_adj s = (\<lambda>u. map_option (\<lambda>xs. xs @ gin outs u) (map_of ins u)) \<and> pq_rc s = (\<lambda>u. map_option (\<lambda>_. ncosts nodes u) (map_of ins u))
    \<and> pq_degree s = (\<lambda>u. map_option (\<lambda>xs. length (xs @ gin outs u)) (map_of ins u))
    \<and> pq_max_degree s = foldl max (- 1) (map (\<lambda>(u, xs). int (length (xs @ gin outs u))) ins)
    \<and> pq_buckets s = map (\<lambda>d. filter (\<lambda>u. length (gin ins u @ gin outs u) = d) (sort (map fst ins))) [0..<nat (pq_max_degree s + 2)]
    \<and> pq_stack s = [] \<and> pq_is_optimal s \<and> pq_record s = Map.empty"
proof -
  have keys: "u \<in> fst ` set ins" if "(u, xs) \<in> set ins" for u xs using that by force
  have outs: "fst ` set ins \<subseteq> fst ` set outs" using assms(1) by (simp add: graph_ok_def)
  have adj: "res_map (\<lambda>(n, xs). res_bind (dget (map_of outs) n) (\<lambda>ys. Inr (n, xs @ ys))) ins = Inr (map (\<lambda>(u, xs). (u, xs @ gin outs u)) ins)"
  proof (rule res_map_total)
    fix q assume q: "q \<in> set ins"
    then have "fst q \<in> fst ` set outs" using outs by auto
    then obtain ys where "map_of outs (fst q) = Some ys" using map_of_gin by blast
    then show "(case q of (n, xs) \<Rightarrow> res_bind (dget (map_of outs) n) (\<lambda>ys. Inr (n, xs @ ys))) = Inr (case q of (u, xs) \<Rightarrow> (u, xs @ gin outs u))"
      by (cases q) (simp add: dget_def)
  qed
  have rc: "res_map (\<lambda>(n, xs). if n < length nodes then Inr (n, ncosts nodes n) else Inl IndexError) ins = Inr (map (\<lambda>(u, xs). (u, ncosts nodes u)) ins)"
    using assms(1) keys by (intro res_map_total) (fastforce simp: graph_ok_def split: prod.split)
  have deg: "length (the (map_of (map (\<lambda>(u, xs). (u, xs @ gin outs u)) ins) u)) = length (gin ins u @ gin outs u)" if "u \<in> set (sort (map fst ins))" for u
  proof -
    obtain xs where "map_of ins u = Some xs" using \<open>u \<in> set (sort (map fst ins))\<close> map_of_gin [of u ins] by auto
    then show ?thesis by (simp add: map_of_keyed)
  qed
  show ?thesis
    unfolding pq_init_def drop adj rc res_bind.simps Let_def
    using deg by (auto simp: map_of_keyed' [of "\<lambda>u xs. xs @ gin outs u"] map_of_keyed' [of "\<lambda>u _. ncosts nodes u"]
        map_of_keyed' [of "\<lambda>u xs. length xs + length (gin outs u)"] fun_eq_iff comp_def case_prod_beta' cong: map_cong intro!: filter_cong)
qed

text \<open>Without nodes of several inputs, \<open>run\<close> only adds the transposed matrices.\<close>

lemma virtual_costs_none: "virtual_costs (\<lambda>_. False) boundary k ins s = (Inr [], pq_heap s)"
proof -
  have "foldl (\<lambda>(temp, heap) (key, val). (temp, heap)) st ins = st" for st :: "((nat \<times> nat) \<times> nat) list res \<times> matrix list"
    by (induction ins arbitrary: st) auto
  then show ?thesis by (simp add: virtual_costs_def)
qed

lemma reverse_rows_tabulate: "mat_ok m r c \<Longrightarrow> 0 < r \<Longrightarrow> reverse_rows m = Inr (tabulate c r (\<lambda>j i. m ! i ! j))"
proof -
  assume m: "mat_ok m r c" "0 < r"
  then obtain row rows where rows: "m = row # rows" "length row = c" by (cases m) (auto simp: mat_ok_def)
  have "filter (\<lambda>r. j < length r) m = m" if "j < c" for j using m(1) that by (auto simp: mat_ok_def filter_id_conv)
  then have "map (\<lambda>j. map (\<lambda>r. r ! j) (filter (\<lambda>r. j < length r) m)) [0..<c] = tabulate c r (\<lambda>j i. m ! i ! j)"
    using m(1) by (auto simp: tabulate_def mat_ok_def intro!: nth_equalityI)
  moreover have "list_all (\<lambda>r. length r \<le> length row) m" using m(1) rows(2) by (auto simp: mat_ok_def list_all_iff)
  ultimately show ?thesis using rows by (simp add: reverse_rows_def)
qed

abbreviation reversed :: "nat \<Rightarrow> ((nat \<times> nat) \<times> nat) list \<Rightarrow> (nat \<times> (nat \<times> nat) \<times> nat) list \<Rightarrow> ((nat \<times> nat) \<times> nat) list" where
  "reversed L \<equiv> foldl (\<lambda>c (i, (u, v), a). AList.update (v, u) (L + i) c)"

lemma reversed_other: "(x, y) \<notin> fst ` set cs \<Longrightarrow> map_of (reversed L cost (enumerate k cs)) (y, x) = map_of cost (y, x)"
  by (induction cs arbitrary: k cost) (auto simp: update_conv')

lemma reversed_entry:
  assumes "distinct (map fst cs)" and "i < length cs" and "fst (cs ! i) = (u, v)"
  shows "map_of (reversed L cost (enumerate k cs)) (v, u) = Some (L + k + i)"
  using assms
proof (induction cs arbitrary: i k cost)
  case (Cons c cs)
  obtain x y a where c: "c = ((x, y), a)" by (metis surj_pair)
  show ?case
  proof (cases i)
    case 0
    then show ?thesis using Cons.prems c reversed_other [of u v cs L] by (simp add: update_conv')
  next
    case (Suc j)
    then show ?thesis using Cons.IH [of j "AList.update (y, x) (L + k) cost" "Suc k"] Cons.prems c by simp
  qed
qed simp

text \<open>The prepared state: every edge has its matrix and, from the other side, the transposed one.\<close>

definition prepared :: "gnode list \<Rightarrow> ((nat \<times> nat) \<times> nat) list \<Rightarrow> matrix list \<Rightarrow> pq \<Rightarrow> bool" where
  "prepared nodes cost heap s \<longleftrightarrow>
     (\<forall>i < length cost. \<forall>u v a. cost ! i = ((u, v), a) \<longrightarrow>
        pq_cost s (u, v) = Some a \<and> pq_heap s ! a = heap ! a \<and> pq_cost s (v, u) = Some (length heap + i)
        \<and> pq_heap s ! (length heap + i) = tabulate (length (ncosts nodes v)) (length (ncosts nodes u)) (\<lambda>j k. heap ! a ! k ! j))
     \<and> length (pq_heap s) = length heap + length cost"

lemma prepare_ok:
  assumes "costs_ok nodes ins cost heap" and "pq_heap s = heap"
  shows "\<exists>c h. pq_prepare (\<lambda>_. False) boundary k ins cost s = Inr (s\<lparr>pq_cost := c, pq_heap := h\<rparr>)
    \<and> prepared nodes cost heap (s\<lparr>pq_cost := c, pq_heap := h\<rparr>)"
proof -
  have entry: "(v, u) \<notin> fst ` set cost" "a < length heap" "mat_ok (heap ! a) (length (ncosts nodes u)) (length (ncosts nodes v))" "ncosts nodes u \<noteq> []"
    if "((u, v), a) \<in> set cost" for u v a using assms(1) that by (auto simp: costs_ok_def)
  let ?t = "\<lambda>((u, v), a). tabulate (length (ncosts nodes v)) (length (ncosts nodes u)) (\<lambda>j k. heap ! a ! k ! j)"
  have rms: "res_map (\<lambda>((u, v), a). reverse_rows (heap ! a)) cost = Inr (map ?t cost)"
    using entry by (intro res_map_total) (auto simp: reverse_rows_tabulate)
  let ?c = "map_of (reversed (length heap) cost (enumerate 0 cost))" and ?h = "heap @ map ?t cost"
  have "pq_prepare (\<lambda>_. False) boundary k ins cost s = Inr (s\<lparr>pq_cost := ?c, pq_heap := ?h\<rparr>)"
    using assms(2) by (simp add: pq_prepare_def virtual_costs_none add_reverses_def rms)
  moreover have "prepared nodes cost heap (s\<lparr>pq_cost := ?c, pq_heap := ?h\<rparr>)"
    unfolding prepared_def
  proof (intro conjI allI impI)
    fix i u v a assume i: "i < length cost" "cost ! i = ((u, v), a)"
    then have mem: "((u, v), a) \<in> set cost" by (metis nth_mem)
    have dis: "distinct (map fst cost)" using assms(1) by (simp add: costs_ok_def)
    show "pq_cost (s\<lparr>pq_cost := ?c, pq_heap := ?h\<rparr>) (u, v) = Some a"
      using reversed_other [OF entry(1) [OF mem]] map_of_is_SomeI [OF dis mem] by simp
    show "pq_cost (s\<lparr>pq_cost := ?c, pq_heap := ?h\<rparr>) (v, u) = Some (length heap + i)"
      using reversed_entry [OF dis i(1)] i(2) by simp
    show "pq_heap (s\<lparr>pq_cost := ?c, pq_heap := ?h\<rparr>) ! a = heap ! a" using entry(2) [OF mem] by (simp add: nth_append)
    show "pq_heap (s\<lparr>pq_cost := ?c, pq_heap := ?h\<rparr>) ! (length heap + i)
        = tabulate (length (ncosts nodes v)) (length (ncosts nodes u)) (\<lambda>j k. heap ! a ! k ! j)" using i by (simp add: nth_append)
  qed simp
  ultimately show ?thesis by blast
qed

section \<open>The prepared state is well-formed\<close>

lemma setup_graph:
  assumes g: "graph_ok nodes names ins outs" and drop: "drop_boundary nodes names raw outs = Inr ins" and init: "pq_init nodes names raw outs cost heap = Inr s"
  shows "adj_ok s (fst ` set ins)" "deg_ok s (fst ` set ins)" "\<And>u. u \<in> fst ` set ins \<Longrightarrow> nb s u = gin ins u @ gin outs u"
    "\<And>u. u \<in> fst ` set ins \<Longrightarrow> pq_rc s u = Some (ncosts nodes u)"
proof -
  let ?V = "fst ` set ins" and ?deg = "\<lambda>u. length (gin ins u @ gin outs u)"
  obtain s1 where s1: "pq_init nodes names raw outs cost heap = Inr s1"
    "pq_adj s1 = (\<lambda>u. map_option (\<lambda>xs. xs @ gin outs u) (map_of ins u))" "pq_rc s1 = (\<lambda>u. map_option (\<lambda>_. ncosts nodes u) (map_of ins u))"
    "pq_degree s1 = (\<lambda>u. map_option (\<lambda>xs. length (xs @ gin outs u)) (map_of ins u))"
    "pq_max_degree s1 = foldl max (- 1) (map (\<lambda>(u, xs). int (length (xs @ gin outs u))) ins)"
    "pq_buckets s1 = map (\<lambda>d. filter (\<lambda>u. ?deg u = d) (sort (map fst ins))) [0..<nat (pq_max_degree s1 + 2)]"
    using pq_init_eq [OF g drop] by blast
  then have "s1 = s" using init by simp
  note s = s1(2-6) [unfolded this]
  have mem: "\<exists>xs. map_of ins u = Some xs" if "u \<in> ?V" for u using map_of_gin [OF that] by blast
  show nb: "nb s u = gin ins u @ gin outs u" if "u \<in> ?V" for u using mem [OF that] s(1) by auto
  show "pq_rc s u = Some (ncosts nodes u)" if "u \<in> ?V" for u using mem [OF that] s(2) by auto
  have gu: "distinct (gin ins u @ gin outs u)" "u \<notin> set (gin ins u)" "set (gin ins u @ gin outs u) \<subseteq> ?V"
    "\<And>v. v \<in> ?V \<Longrightarrow> v \<in> set (gin outs u) \<longleftrightarrow> u \<in> set (gin ins v)" if "u \<in> ?V" for u
    using g that unfolding graph_ok_def by blast+
  show "adj_ok s ?V"
    unfolding adj_ok_def
  proof (intro conjI ballI)
    fix u assume u: "u \<in> ?V"
    show "pq_adj s u \<noteq> None" using mem [OF u] s(1) by auto
    show "distinct (nb s u)" using gu(1) [OF u] by (simp only: nb [OF u])
    show "set (nb s u) \<subseteq> ?V - {u}" using gu(2,3,4) [OF u] u unfolding nb [OF u] by auto
    fix v assume v: "v \<in> set (nb s u)"
    then have vV: "v \<in> ?V" using gu(3) [OF u] unfolding nb [OF u] by blast
    show "u \<in> set (nb s v)" using v gu(4) [OF u vV] gu(4) [OF vV u] unfolding nb [OF u] nb [OF vV] by auto
  qed simp
  have deg: "pq_degree s u = Some (?deg u)" if "u \<in> ?V" for u using mem [OF that] s(3) by auto
  have le: "int (?deg u) \<le> pq_max_degree s" if u: "u \<in> ?V" for u
  proof -
    obtain xs where xs: "map_of ins u = Some xs" using mem [OF u] by blast
    then have "(u, xs) \<in> set ins" by (rule map_of_SomeD)
    then have "int (?deg u) \<in> set (map (\<lambda>(u, xs). int (length (xs @ gin outs u))) ins)" using xs by force
    then show ?thesis unfolding s(4) by (intro foldl_max_ge) blast
  qed
  have "- 1 \<le> pq_max_degree s" unfolding s(4) by (intro foldl_max_ge) simp
  then have len: "int (length (pq_buckets s)) = pq_max_degree s + 2" unfolding s(5) by simp
  have nth: "pq_buckets s ! d = filter (\<lambda>u. ?deg u = d) (sort (map fst ins))" if "d < length (pq_buckets s)" for d
    using that unfolding s(5) by simp
  have "\<exists>d < length (pq_buckets s). pq_degree s u = Some d \<and> u \<in> set (pq_buckets s ! d)" if "u \<in> ?V" for u
    using deg [OF that] le [OF that] len that by (intro exI [of _ "?deg u"]) (simp add: nth)
  moreover have "distinct (pq_buckets s ! d) \<and> (\<forall>u\<in>set (pq_buckets s ! d). u \<in> ?V \<and> pq_degree s u = Some d)" if "d < length (pq_buckets s)" for d
    using g deg nth [OF that] by (auto simp: graph_ok_def)
  ultimately have "bk_ok s ?V" by (simp add: bk_ok_def)
  then show "deg_ok s ?V" using len deg le nb by (simp add: deg_ok_def)
qed

lemma edge_entry:
  assumes c: "costs_ok nodes ins cost heap" and p: "prepared nodes cost heap s" and v: "v \<in> fst ` set ins" and u: "u \<in> set (gin ins v)"
    and rc: "rcv s u = ncosts nodes u" "rcv s v = ncosts nodes v"
  shows "edge_ok s u v" "edge_ok s v u" "\<exists>i < length cost. fst (cost ! i) = (u, v) \<and> pq_cost s (u, v) = Some (snd (cost ! i))
      \<and> snd (cost ! i) < length heap \<and> pq_cost s (v, u) = Some (length heap + i)" "mt s u v = heap ! the (map_of cost (u, v))"
proof -
  have "(u, v) \<in> fst ` set cost" using c v u by (auto simp: costs_ok_def)
  then obtain i a where i: "i < length cost" "cost ! i = ((u, v), a)" by (auto simp: in_set_conv_nth)
  then have mem: "((u, v), a) \<in> set cost" by (metis nth_mem)
  have a: "a < length heap" "mat_ok (heap ! a) (nrec s u) (nrec s v)" using c mem rc by (auto simp: costs_ok_def)
  have s: "pq_cost s (u, v) = Some a" "pq_heap s ! a = heap ! a" "pq_cost s (v, u) = Some (length heap + i)"
    "pq_heap s ! (length heap + i) = tabulate (nrec s v) (nrec s u) (\<lambda>j k. heap ! a ! k ! j)" "length (pq_heap s) = length heap + length cost"
    using p i rc by (auto simp: prepared_def)
  have "mat_ok (tabulate (nrec s v) (nrec s u) (\<lambda>j k. heap ! a ! k ! j)) (nrec s v) (nrec s u)"
    using mat_ok_nth(2) [OF a(2)] by (intro mat_ok_tabulate)
  then show "edge_ok s u v" "edge_ok s v u" using s a i(1) by (simp_all add: edge_ok_def)
  show "\<exists>i < length cost. fst (cost ! i) = (u, v) \<and> pq_cost s (u, v) = Some (snd (cost ! i)) \<and> snd (cost ! i) < length heap \<and> pq_cost s (v, u) = Some (length heap + i)"
    using i s a by (intro exI [of _ i]) simp
  have "map_of cost (u, v) = Some a" using c mem by (auto simp: costs_ok_def)
  then show "mt s u v = heap ! the (map_of cost (u, v))" using s by simp
qed

lemma setup_data:
  assumes g: "graph_ok nodes names ins outs" and c: "costs_ok nodes ins cost heap" and p: "prepared nodes cost heap s"
    and adj: "\<And>u. u \<in> fst ` set ins \<Longrightarrow> nb s u = gin ins u @ gin outs u" and rc: "\<And>u. u \<in> fst ` set ins \<Longrightarrow> pq_rc s u = Some (ncosts nodes u)"
    and rec: "pq_record s = Map.empty"
  shows "data_ok s (fst ` set ins)"
proof -
  let ?V = "fst ` set ins" and ?L = "length heap"
  have rcv: "rcv s u = ncosts nodes u" if "u \<in> ?V" for u using rc [OF that] by simp
  have in_or_out: "v \<in> set (gin ins u) \<or> u \<in> set (gin ins v)" "u \<in> ?V" "v \<in> ?V" if "(u, v) \<in> pairs s ?V" for u v
  proof -
    show uv: "u \<in> ?V" "v \<in> ?V" using that by (auto simp: pairs_def)
    have "v \<in> set (gin ins u @ gin outs u)" using that adj [OF uv(1)] by (simp add: pairs_def)
    moreover have "v \<in> set (gin outs u) \<longleftrightarrow> u \<in> set (gin ins v)" using g uv unfolding graph_ok_def by blast
    ultimately show "v \<in> set (gin ins u) \<or> u \<in> set (gin ins v)" by auto
  qed
  have "node_ok s u" if "u \<in> ?V" for u using rc [OF that] g that rec by (auto simp: node_ok_def graph_ok_def)
  moreover have "edge_ok s u v" if "(u, v) \<in> pairs s ?V" for u v
    using in_or_out [OF that] edge_entry(1) [OF c p _ _ rcv rcv, of v u] edge_entry(2) [OF c p _ _ rcv rcv, of u v] by blast
  moreover have "inj_on (pq_cost s) (pairs s ?V)"
  proof (rule inj_onI)
    have addr: "\<exists>i < length cost. (fst (cost ! i) = q \<and> pq_cost s q = Some (snd (cost ! i)) \<and> snd (cost ! i) < ?L)
        \<or> (fst (cost ! i) = prod.swap q \<and> pq_cost s q = Some (?L + i))" if q: "q \<in> pairs s ?V" for q
    proof -
      obtain u v where uv: "q = (u, v)" by fastforce
      note uv' = in_or_out [OF q [unfolded uv]]
      from uv'(1) show ?thesis
      proof
        assume "v \<in> set (gin ins u)"
        from edge_entry(3) [OF c p uv'(2) this rcv [OF uv'(3)] rcv [OF uv'(2)]] show ?thesis unfolding uv by auto
      next
        assume "u \<in> set (gin ins v)"
        from edge_entry(3) [OF c p uv'(3) this rcv [OF uv'(2)] rcv [OF uv'(3)]] show ?thesis unfolding uv by auto
      qed
    qed
    have inj: "i = j" if "snd (cost ! i) = snd (cost ! j)" "i < length cost" "j < length cost" for i j
      using c that nth_eq_iff_index_eq [of "map snd cost" i j] by (simp add: costs_ok_def)
    fix q r assume qr: "q \<in> pairs s ?V" "r \<in> pairs s ?V" "pq_cost s q = pq_cost s r"
    from addr [OF qr(1)] obtain i where i: "i < length cost" "(fst (cost ! i) = q \<and> pq_cost s q = Some (snd (cost ! i)) \<and> snd (cost ! i) < ?L)
        \<or> (fst (cost ! i) = prod.swap q \<and> pq_cost s q = Some (?L + i))" by blast
    from addr [OF qr(2)] obtain j where j: "j < length cost" "(fst (cost ! j) = r \<and> pq_cost s r = Some (snd (cost ! j)) \<and> snd (cost ! j) < ?L)
        \<or> (fst (cost ! j) = prod.swap r \<and> pq_cost s r = Some (?L + j))" by blast
    from i(2) j(2) show "q = r"
    proof (elim disjE conjE)
      assume "fst (cost ! i) = prod.swap q" "pq_cost s q = Some (?L + i)" "fst (cost ! j) = prod.swap r" "pq_cost s r = Some (?L + j)"
      then show ?thesis using qr(3) by (metis add_left_cancel option.inject swap_swap)
    qed (use qr(3) inj [OF _ i(1) j(1)] in auto)
  qed
  ultimately show ?thesis by (auto simp: data_ok_def)
qed

lemma setup_cost:
  assumes g: "graph_ok nodes names ins outs" and c: "costs_ok nodes ins cost heap" and p: "prepared nodes cost heap s"
    and adj: "\<And>u. u \<in> fst ` set ins \<Longrightarrow> nb s u = gin ins u @ gin outs u" and rc: "\<And>u. u \<in> fst ` set ins \<Longrightarrow> pq_rc s u = Some (ncosts nodes u)"
    and a: "\<And>u. u \<in> fst ` set ins \<Longrightarrow> a u < length (ncosts nodes u)"
  shows "pcost s (fst ` set ins) a = total_cost nodes ins cost heap a"
proof -
  let ?V = "fst ` set ins" and ?E = "\<lambda>u v. heap ! the (map_of cost (u, v)) ! a u ! a v"
  have gu: "distinct (gin ins u @ gin outs u)" "set (gin ins u @ gin outs u) \<subseteq> ?V"
    "\<And>v. v \<in> ?V \<Longrightarrow> v \<in> set (gin outs u) \<longleftrightarrow> u \<in> set (gin ins v)" if "u \<in> ?V" for u
    using g that unfolding graph_ok_def by blast+
  have rcv: "rcv s u = ncosts nodes u" if "u \<in> ?V" for u using rc [OF that] by simp
  have outs: "set (gin outs u) = {v. v \<in> ?V \<and> u \<in> set (gin ins v)}" if "u \<in> ?V" for u
    using gu(2) [OF that] gu(3) [OF that] unfolding set_append by blast
  have ins: "set (gin ins v) = {u. u \<in> ?V \<and> u \<in> set (gin ins v)}" if "v \<in> ?V" for v using gu(2) [OF that] by auto
  have edge: "mt s u v ! a u ! a v = ?E u v" "mt s v u ! a v ! a u = ?E u v" if v: "v \<in> ?V" and u: "u \<in> set (gin ins v)" for u v
  proof -
    have uV: "u \<in> ?V" using gu(2) [OF v] u by auto
    note e = edge_entry [OF c p v u rcv [OF uV] rcv [OF v]]
    show 1: "mt s u v ! a u ! a v = ?E u v" using e(4) by simp
    have "a u < nrec s u" "a v < nrec s v" using a uV v rcv by auto
    from edge_ok_nth(4) [OF e(1) this] show "mt s v u ! a v ! a u = ?E u v" unfolding 1 .
  qed
  have "(\<Sum>v\<in>set (nb s u). mt s u v ! a u ! a v) = (\<Sum>v\<in>set (gin ins u). ?E v u) + (\<Sum>v\<in>set (gin outs u). ?E u v)" if u: "u \<in> ?V" for u
  proof -
    have "set (gin ins u) \<inter> set (gin outs u) = {}" using gu(1) [OF u] by simp
    then have "(\<Sum>v\<in>set (nb s u). mt s u v ! a u ! a v) = (\<Sum>v\<in>set (gin ins u). mt s u v ! a u ! a v) + (\<Sum>v\<in>set (gin outs u). mt s u v ! a u ! a v)"
      unfolding adj [OF u] set_append by (intro sum.union_disjoint) auto
    moreover have "(\<Sum>v\<in>set (gin ins u). mt s u v ! a u ! a v) = (\<Sum>v\<in>set (gin ins u). ?E v u)" using edge(2) [OF u] by (intro sum.cong refl)
    moreover have "(\<Sum>v\<in>set (gin outs u). mt s u v ! a u ! a v) = (\<Sum>v\<in>set (gin outs u). ?E u v)" using edge(1) outs [OF u] by (intro sum.cong refl) auto
    ultimately show ?thesis by simp
  qed
  then have "(\<Sum>u\<in>?V. \<Sum>v\<in>set (nb s u). mt s u v ! a u ! a v)
      = (\<Sum>u\<in>?V. \<Sum>v\<in>set (gin ins u). ?E v u) + (\<Sum>u\<in>?V. \<Sum>v\<in>set (gin outs u). ?E u v)" by (simp add: sum.distrib)
  also have "(\<Sum>u\<in>?V. \<Sum>v\<in>set (gin outs u). ?E u v) = (\<Sum>u\<in>?V. \<Sum>v\<in>{v. v \<in> ?V \<and> u \<in> set (gin ins v)}. ?E u v)" using outs by (intro sum.cong refl) auto
  also have "\<dots> = (\<Sum>v\<in>?V. \<Sum>u\<in>{u. u \<in> ?V \<and> u \<in> set (gin ins v)}. ?E u v)" by (rule sum.swap_restrict) auto
  also have "\<dots> = (\<Sum>v\<in>?V. \<Sum>u\<in>set (gin ins v). ?E u v)" using ins by (intro sum.cong refl) auto
  finally show ?thesis unfolding pcost_def gcost_def total_cost_def using rcv by (simp add: sum.distrib)
qed

lemma pbqp_run_table:
  fixes nodes :: "gnode list" and names :: "string list" and table :: "(nat \<times> nat list) list"
  defines "ins \<equiv> inner_table nodes names table"
  assumes t: "table_ok nodes names table" and c: "costs_ok nodes ins cost heap" and ne: "table \<noteq> []"
    and b: "\<forall>u\<in>fst ` set ins. b u < length (ncosts nodes u)" "total_cost nodes ins cost heap b < INVALID_LAYOUT_TIME"
  shows "\<exists>s. pq_init nodes names table (get_out_nodes table) Map.empty heap = Inr s
    \<and> ((pq_run (\<lambda>_. False) boundary k ins cost s = Inl RuntimeError \<and> 3 \<le> pq_max_degree s)
      \<or> (\<exists>t. pq_run (\<lambda>_. False) boundary k ins cost s = Inr t \<and> (pq_max_degree s < 3 \<longrightarrow> pq_is_optimal t)
          \<and> (\<forall>u\<in>fst ` set ins. \<exists>i < length (ncosts nodes u). pq_record t u = Some i)
          \<and> (pq_is_optimal t \<longrightarrow> (\<forall>a. (\<forall>u\<in>fst ` set ins. a u < length (ncosts nodes u)) \<longrightarrow>
               total_cost nodes ins cost heap (\<lambda>u. the (pq_record t u)) \<le> total_cost nodes ins cost heap a))))"
proof -
  let ?V = "fst ` set ins" and ?outs = "get_out_nodes table"
  have g: "graph_ok nodes names ins ?outs" and drop: "drop_boundary nodes names table ?outs = Inr ins"
    using inner_table_graph [OF t] drop_boundary_table [OF t] by (simp_all add: ins_def)
  obtain s where s: "pq_init nodes names table ?outs Map.empty heap = Inr s" "pq_stack s = []" "pq_is_optimal s" "pq_record s = Map.empty"
    using pq_init_eq [OF g drop] by blast
  note graph = setup_graph [OF g drop s(1)]
  have "pq_heap s = heap" using s(1) by (auto simp: pq_init_def res_bind_eq_Inr Let_def)
  then obtain cm h where prep: "pq_prepare (\<lambda>_. False) boundary k ins cost s = Inr (s\<lparr>pq_cost := cm, pq_heap := h\<rparr>)"
    "prepared nodes cost heap (s\<lparr>pq_cost := cm, pq_heap := h\<rparr>)" using prepare_ok [OF c] by blast
  let ?s = "s\<lparr>pq_cost := cm, pq_heap := h\<rparr>"
  have nb: "nb ?s u = gin ins u @ gin ?outs u" "pq_rc ?s u = Some (ncosts nodes u)" if "u \<in> ?V" for u using graph(3,4) [OF that] by simp_all
  have ok: "pq_ok ?s ?V"
    using adj_ok_cong [OF graph(1)] deg_ok_cong [OF graph(2)] setup_data [OF g c prep(2) nb] s(4) by (simp add: pq_ok_def)
  have valid: "valid_on ?s ?V a \<longleftrightarrow> (\<forall>u\<in>?V. a u < length (ncosts nodes u))" for a using nb(2) by (simp add: valid_on_def)
  have cost: "pcost ?s ?V a = total_cost nodes ins cost heap a" if "\<forall>u\<in>?V. a u < length (ncosts nodes u)" for a
    using setup_cost [OF g c prep(2) nb, of a] that by blast
  obtain u where "u \<in> ?V" using ne inner_table_keys(1) [of nodes names table] by (cases table) (auto simp: ins_def)
  then have "0 \<le> pq_max_degree ?s" using graph(2) by (fastforce simp: deg_ok_def)
  then have "(pq_solve ?s = Inl RuntimeError \<and> 3 \<le> pq_max_degree ?s) \<or> (\<exists>sf rest t. forward ?s = Inr sf \<and> solved ?s ?V sf rest t)"
    using forward_solved [OF ok] by (auto simp: pq_solve_def)
  then show ?thesis
  proof
    assume "pq_solve ?s = Inl RuntimeError \<and> 3 \<le> pq_max_degree ?s"
    then show ?thesis using s(1) prep(1) by (simp add: pq_run_def)
  next
    assume "\<exists>sf rest t. forward ?s = Inr sf \<and> solved ?s ?V sf rest t"
    then obtain sf rest t where t: "forward ?s = Inr sf" "solved ?s ?V sf rest t" by blast
    have run: "pq_run (\<lambda>_. False) boundary k ins cost s = Inr t"
      using t(1) backward_solved [OF t(2)] s(2) prep(1) by (simp add: pq_run_def pq_solve_def)
    have rec: "\<exists>i < length (ncosts nodes u). pq_record t u = Some i" if "u \<in> ?V" for u using solvedD(11) [OF t(2) that] nb(2) [OF that] by simp
    have "affordable ?s ?V" using b cost [OF b(1)] valid unfolding affordable_def by metis
    then have "least_on ?s ?V (\<lambda>u. the (pq_record t u))" if "pq_is_optimal t"
      using solvedD(9,13) [OF t(2)] that by (simp add: choice_def [abs_def])
    moreover have "\<forall>u\<in>?V. the (pq_record t u) < length (ncosts nodes u)" using rec by fastforce
    ultimately have "total_cost nodes ins cost heap (\<lambda>u. the (pq_record t u)) \<le> total_cost nodes ins cost heap a"
      if "pq_is_optimal t" "\<forall>u\<in>?V. a u < length (ncosts nodes u)" for a
      using that cost valid unfolding least_on_def by metis
    then show ?thesis using run s rec solvedD(9,14) [OF t(2)] by auto
  qed
qed

text \<open>
  C30. From the inputs to the result: for a table of inputs as the traversal makes it, with boundary inputs, the table of outputs made from it, a matrix of its own for every edge between inner nodes and no node of
  several inputs, creating the tuner drops the boundary inputs and succeeds, and \<open>run\<close> returns a choice of least total cost whenever it calls its result optimal, which it does
  if no node has more than two inner neighbours. The only failure is the \<open>RuntimeError\<close> of a node of higher degree.
\<close>

theorem pbqp_run_optimal:
  assumes "table_ok nodes names table" and "costs_ok nodes (inner_table nodes names table) cost heap" and "table \<noteq> []"
    and "\<forall>u\<in>fst ` set (inner_table nodes names table). b u < length (ncosts nodes u)" "total_cost nodes (inner_table nodes names table) cost heap b < INVALID_LAYOUT_TIME"
  shows "\<exists>s. pq_init nodes names table (get_out_nodes table) Map.empty heap = Inr s
    \<and> ((pq_run (\<lambda>_. False) boundary k (inner_table nodes names table) cost s = Inl RuntimeError \<and> 3 \<le> pq_max_degree s)
      \<or> (\<exists>t. pq_run (\<lambda>_. False) boundary k (inner_table nodes names table) cost s = Inr t \<and> (pq_max_degree s < 3 \<longrightarrow> pq_is_optimal t)
          \<and> (\<forall>u\<in>fst ` set (inner_table nodes names table). \<exists>i < length (ncosts nodes u). pq_record t u = Some i)
          \<and> (pq_is_optimal t \<longrightarrow> (\<forall>a. (\<forall>u\<in>fst ` set (inner_table nodes names table). a u < length (ncosts nodes u)) \<longrightarrow>
               total_cost nodes (inner_table nodes names table) cost heap (\<lambda>u. the (pq_record t u)) \<le> total_cost nodes (inner_table nodes names table) cost heap a))))"
  by (rule pbqp_run_table [OF assms])

text \<open>An example: the data, three convolutions in a row.\<close>

definition chain_nodes :: "gnode list" where
  "chain_nodes = \<lparr>gn_op = None, gn_name = Some ''data'', gn_inputs = [], gn_costs = []\<rparr>
     # map (\<lambda>costs. \<lparr>gn_op = Some ''nn.conv2d'', gn_name = None, gn_inputs = [], gn_costs = costs\<rparr>) [[5, 1], [2, 4], [3, 3]]"

definition chain_in :: "(nat \<times> nat list) list" where
  "chain_in = [(1, [0]), (2, [1]), (3, [2])]"

definition chain_cost :: "((nat \<times> nat) \<times> nat) list" where
  "chain_cost = [((1, 2), 0), ((2, 3), 1)]"

definition chain_heap :: "matrix list" where
  "chain_heap = [[[0, 7], [6, 0]], [[0, 3], [4, 0]]]"

theorem pbqp_run_optimal_witness:
  "\<exists>s t. pq_init chain_nodes [''data''] chain_in (get_out_nodes chain_in) Map.empty chain_heap = Inr s
     \<and> pq_run (\<lambda>_. False) (\<lambda>_. False) (\<lambda>_. 2) (inner_table chain_nodes [''data''] chain_in) chain_cost s = Inr t \<and> pq_is_optimal t
     \<and> (\<forall>a. (\<forall>u\<in>fst ` set (inner_table chain_nodes [''data''] chain_in). a u < length (ncosts chain_nodes u)) \<longrightarrow>
          total_cost chain_nodes (inner_table chain_nodes [''data''] chain_in) chain_cost chain_heap (\<lambda>u. the (pq_record t u))
            \<le> total_cost chain_nodes (inner_table chain_nodes [''data''] chain_in) chain_cost chain_heap a)"
proof -
  have g: "table_ok chain_nodes [''data''] chain_in" by code_simp
  have c: "costs_ok chain_nodes (inner_table chain_nodes [''data''] chain_in) chain_cost chain_heap" by code_simp
  have ne: "chain_in \<noteq> []" by (simp add: chain_in_def)
  have b: "\<forall>u\<in>fst ` set (inner_table chain_nodes [''data''] chain_in). (\<lambda>_. 0) u < length (ncosts chain_nodes u)" by code_simp
  have t: "total_cost chain_nodes (inner_table chain_nodes [''data''] chain_in) chain_cost chain_heap (\<lambda>_. 0) < INVALID_LAYOUT_TIME" by code_simp
  have d: "case pq_init chain_nodes [''data''] chain_in (get_out_nodes chain_in) Map.empty chain_heap of Inl _ \<Rightarrow> False | Inr s \<Rightarrow> pq_max_degree s < 3" by code_simp
  from pbqp_run_optimal [OF g c ne b t, of "\<lambda>_. False" "\<lambda>_. 2"] d show ?thesis by (auto split: sum.splits)
qed

end
