(* ===== verification/NdArray.thy ===== *)
theory NdArray
  imports GraphNode
begin

text \<open>
  The part of NumPy's arrays that the dynamic programming tuner uses. An array is its shape and its elements in row-major order.
\<close>

type_synonym 'a nda = "nat list \<times> 'a list"

definition indices :: "nat list \<Rightarrow> nat list list" where
  "indices sh = product_lists (map (\<lambda>n. [0..<n]) sh)"

definition ravel :: "nat list \<Rightarrow> nat list \<Rightarrow> nat" where
  "ravel sh ix = foldl (\<lambda>a (n, i). a * n + i) 0 (zip sh ix)"

definition nd_at :: "'a nda \<Rightarrow> nat list \<Rightarrow> 'a" where
  "nd_at a ix = snd a ! ravel (fst a) ix"

definition nd_make :: "nat list \<Rightarrow> (nat list \<Rightarrow> 'a) \<Rightarrow> 'a nda" where
  "nd_make sh f = (sh, map f (indices sh))"

definition np_transpose :: "'a nda \<Rightarrow> nat list \<Rightarrow> 'a nda res" where
  "np_transpose a axes =
     (if sort axes \<noteq> [0..<length (fst a)] then Inl ValueError
      else Inr (nd_make (map (\<lambda>d. fst a ! d) axes) (\<lambda>ix. nd_at a (map (\<lambda>d. the (map_of (zip axes ix) d)) [0..<length (fst a)]))))"

definition np_reshape :: "'a nda \<Rightarrow> nat list \<Rightarrow> 'a nda res" where
  "np_reshape a sh = (if prod_list sh \<noteq> length (snd a) then Inl ValueError else Inr (sh, snd a))"

text \<open>Broadcasting to a shape of the same rank.\<close>

definition np_broadcast :: "'a nda \<Rightarrow> nat list \<Rightarrow> 'a nda res" where
  "np_broadcast a sh =
     (if length (fst a) \<noteq> length sh \<or> \<not> list_all2 (\<lambda>n m. n = m \<or> n = 1) (fst a) sh then Inl ValueError
      else Inr (nd_make sh (\<lambda>ix. nd_at a (map2 (\<lambda>n i. if n = 1 then 0 else i) (fst a) ix))))"

text \<open>Reductions along an axis: the elements along it, from an index of the other axes.\<close>

definition nd_line :: "'a nda \<Rightarrow> nat \<Rightarrow> nat list \<Rightarrow> 'a list" where
  "nd_line a axis ix = map (\<lambda>k. nd_at a (take axis ix @ k # drop axis ix)) [0..<fst a ! axis]"

definition nd_reduce :: "('a list \<Rightarrow> 'b) \<Rightarrow> 'a nda \<Rightarrow> nat \<Rightarrow> 'b nda res" where
  "nd_reduce f a axis =
     (if axis \<ge> length (fst a) then Inl IndexError
      else let sh = take axis (fst a) @ drop (Suc axis) (fst a)
           in if fst a ! axis = 0 \<and> prod_list sh \<noteq> 0 then Inl ValueError else Inr (nd_make sh (\<lambda>ix. f (nd_line a axis ix))))"

definition first_min :: "rat list \<Rightarrow> nat" where
  "first_min xs = length (takeWhile (\<lambda>x. x \<noteq> Min (set xs)) xs)"

definition np_amin :: "rat nda \<Rightarrow> nat \<Rightarrow> rat nda res" where
  "np_amin a axis = nd_reduce (\<lambda>xs. Min (set xs)) a axis"

definition np_argmin_axis :: "rat nda \<Rightarrow> nat \<Rightarrow> nat nda res" where
  "np_argmin_axis a axis = nd_reduce first_min a axis"

definition np_argmin_flat :: "rat nda \<Rightarrow> nat res" where
  "np_argmin_flat a = (if snd a = [] then Inl ValueError else Inr (first_min (snd a)))"

definition np_amax :: "rat nda \<Rightarrow> rat res" where
  "np_amax a = (if snd a = [] then Inl ValueError else Inr (Max (set (snd a))))"

text \<open>\<open>a[i, j, ...]\<close> with indices for the first axes.\<close>

definition np_index :: "'a nda \<Rightarrow> nat list \<Rightarrow> 'a nda res" where
  "np_index a ix =
     (let k = length ix; rest = drop k (fst a); n = prod_list rest
      in if k > length (fst a) \<or> \<not> list_all2 (<) ix (take k (fst a)) then Inl IndexError
         else Inr (rest, take n (drop (ravel (take k (fst a)) ix * n) (snd a))))"

definition np_item :: "'a nda \<Rightarrow> nat list \<Rightarrow> 'a res" where
  "np_item a ix = (if list_all2 (<) ix (fst a) then Inr (nd_at a ix) else Inl IndexError)"

section \<open>Vectors and matrices\<close>

lemma indices_1: "indices [n] = map (\<lambda>i. [i]) [0..<n]"
  by (simp add: indices_def comp_def)

lemma indices_2: "indices [n, m] = concat (map (\<lambda>i. map (\<lambda>j. [i, j]) [0..<m]) [0..<n])"
  by (simp add: indices_def comp_def)

lemma ravel_1 [simp]: "ravel [n] [i] = i" and ravel_2 [simp]: "ravel [n, m] [i, j] = i * m + j"
  by (simp_all add: ravel_def)

lemma nd_make_1: "nd_make [n] f = ([n], map (\<lambda>i. f [i]) [0..<n])"
  by (simp add: nd_make_def indices_1 comp_def)

lemma np_transpose_1: "length xs = n \<Longrightarrow> np_transpose ([n], xs) [0] = Inr ([n], xs)"
  by (auto simp: np_transpose_def nd_make_1 nd_at_def intro: nth_equalityI)

lemma np_broadcast_1: "length xs = n \<Longrightarrow> np_broadcast ([n], xs) [n] = Inr ([n], xs)"
  by (auto simp: np_broadcast_def nd_make_1 nd_at_def intro!: nth_equalityI)

lemma first_min_least:
  assumes "xs \<noteq> []"
  shows "first_min xs < length xs" "xs ! first_min xs = Min (set xs)" "x \<in> set xs \<Longrightarrow> xs ! first_min xs \<le> x"
proof -
  have ex: "\<exists>x\<in>set xs. \<not> x \<noteq> Min (set xs)" using Min_in [of "set xs"] assms by auto
  have less: "length (takeWhile P ys) < length ys" if "\<exists>y\<in>set ys. \<not> P y" for P and ys :: "rat list" using that by (induction ys) auto
  show len: "first_min xs < length xs" unfolding first_min_def by (rule less [OF ex])
  show m: "xs ! first_min xs = Min (set xs)" using nth_length_takeWhile [of "\<lambda>x. x \<noteq> Min (set xs)" xs] len unfolding first_min_def by simp
  show "xs ! first_min xs \<le> x" if "x \<in> set xs" using that by (simp add: m)
qed

text \<open>A row of a matrix, as the reductions along its second axis see it.\<close>

lemma nd_line_2: "nd_line ([n, m], xs) 1 [i] = map (\<lambda>j. xs ! (i * m + j)) [0..<m]"
  by (simp add: nd_line_def nd_at_def)

lemma nd_reduce_2: "0 < m \<Longrightarrow> nd_reduce f ([n, m], xs) 1 = Inr ([n], map (\<lambda>i. f (map (\<lambda>j. xs ! (i * m + j)) [0..<m])) [0..<n])"
  by (simp add: nd_reduce_def nd_make_1 nd_line_2 [simplified])

end
