(* ===== verification/DPTuner.thy ===== *)
theory DPTuner
  imports NdArray GraphTraverse
begin

text \<open>
  The dynamic programming graph tuner: \<open>DPStage\<close> of \<open>autotvm/graph_tuner/dynamic_programming_stage.py\<close> and \<open>DPTuner\<close> of \<open>dynamic_programming_tuner.py\<close>.
  A stage holds, for every schedule of its node and of the nodes it depends on, the least time of what comes before.

  The dictionaries that all stages share are the record \<open>dp\<close>; sets are lists without repetition. Times are exact rationals, while the code rounds them to 32 bits.
  The candidates of a node are the costs \<open>gn_costs\<close>.
\<close>

section \<open>State\<close>

record dp_env =
  de_nodes :: "gnode list"
  de_names :: "string list"
  de_targets :: "string list"
  de_ins :: "(nat \<times> nat list) list"
  de_outs :: "(nat \<times> nat list) list"
  de_cost :: "nat \<times> nat \<rightharpoonup> rat list list"
  de_limit :: nat

record dp_stage =
  st_dep :: "nat list"
  st_states :: "rat nda"
  st_full :: "rat nda"
  st_full_idx :: "nat list option"

record dp =
  dp_stages :: "nat \<rightharpoonup> dp_stage"
  dp_deps :: "nat \<rightharpoonup> nat list"
  dp_counted :: "nat list"
  dp_num_states :: nat

definition dp_init :: dp where
  "dp_init = \<lparr>dp_stages = Map.empty, dp_deps = Map.empty, dp_counted = [], dp_num_states = 0\<rparr>"

definition node_at :: "dp_env \<Rightarrow> nat \<Rightarrow> gnode res" where
  "node_at env i = (if i < length (de_nodes env) then Inr (de_nodes env ! i) else Inl IndexError)"

definition num_candidates :: "dp_env \<Rightarrow> nat \<Rightarrow> nat res" where
  "num_candidates env i = res_bind (node_at env i) (\<lambda>g. Inr (length (gn_costs g)))"

definition layout_time :: "dp_env \<Rightarrow> nat \<Rightarrow> nat \<Rightarrow> nat \<Rightarrow> nat \<Rightarrow> rat res" where
  "layout_time env src dst i j =
     res_bind (dget (de_cost env) (src, dst)) (\<lambda>m. res_bind (py_get m (int i)) (\<lambda>row. py_get row (int j)))"

text \<open>The end of both ways to create states: who still needs the schedules this stage depends on.\<close>

definition update_deps :: "dp_env \<Rightarrow> nat \<Rightarrow> nat list \<Rightarrow> dp \<Rightarrow> dp res" where
  "update_deps env idx deps s =
     res_bind (dget (map_of (de_outs env)) idx) (\<lambda>children.
     res_bind (res_foldl (\<lambda>dd d.
         res_bind (dget dd d) (\<lambda>xs.
           if idx \<in> set xs then Inr (dd(d \<mapsto> foldl (\<lambda>a c. List.insert c a) (remove1 idx xs) children)) else Inl KeyError)) (dp_deps s) deps) (\<lambda>dd.
       Inr (s\<lparr>dp_deps := (if length children > 1 then dd(idx \<mapsto> foldl (\<lambda>a c. List.insert c a) [] children) else dd)\<rparr>)))"

section \<open>Stages of tuned operators\<close>

definition op_times :: "dp_env \<Rightarrow> nat \<Rightarrow> nat \<Rightarrow> bool \<Rightarrow> rat list \<Rightarrow> nat list \<Rightarrow> rat list \<Rightarrow> nat \<Rightarrow> rat list res" where
  "op_times env idx input counted flat dep_sizes costs total_size =
     res_map (\<lambda>(i, j).
       res_bind (layout_time env input idx (j div prod_list dep_sizes) i) (\<lambda>t.
         if i * length flat + j < total_size then Inr (costs ! i + t + (if counted then 0 else flat ! j)) else Inl IndexError))
       (List.product [0..<length costs] [0..<length flat])"

definition op_from_input :: "dp_env \<Rightarrow> nat \<Rightarrow> nat \<Rightarrow> dp \<Rightarrow> (dp_stage \<times> dp) res" where
  "op_from_input env idx input s =
     res_bind (node_at env idx) (\<lambda>g. res_bind (node_at env input) (\<lambda>g_in.
     res_bind (dget (dp_stages s) input) (\<lambda>stage.
     res_bind (res_map (num_candidates env) (st_dep stage)) (\<lambda>dep_sizes.
       let costs = gn_costs g; flat = snd (st_states stage); shape = length costs # length (gn_costs g_in) # dep_sizes;
           counted = input \<in> set (dp_counted s)
       in res_bind (op_times env idx input counted flat dep_sizes costs (prod_list shape)) (\<lambda>times.
          let full = (shape, times @ replicate (prod_list shape - length times) 0);
              s1 = s\<lparr>dp_counted := List.insert input (dp_counted s)\<rparr>
          in res_bind (dget (map_of (de_outs env)) input) (\<lambda>outs.
             if length outs = 1
             then res_bind (np_amin full 1) (\<lambda>states.
                    Inr (\<lparr>st_dep = st_dep stage, st_states = states, st_full = full, st_full_idx = Some (idx # input # st_dep stage)\<rparr>, s1))
             else Inr (\<lparr>st_dep = input # st_dep stage, st_states = full, st_full = full, st_full_idx = Some (idx # input # st_dep stage)\<rparr>, s1)))))))"

definition create_op_states :: "dp_env \<Rightarrow> nat \<Rightarrow> dp \<Rightarrow> (dp_stage \<times> dp) res" where
  "create_op_states env idx s =
     res_bind (dget (map_of (de_ins env)) idx) (\<lambda>ins. res_bind (py_get ins 0) (\<lambda>input.
     res_bind (node_at env input) (\<lambda>g_in. res_bind (node_at env idx) (\<lambda>g.
     res_bind (if is_boundary_node g_in (de_names env)
               then let a = ([length (gn_costs g)], gn_costs g) in Inr (\<lparr>st_dep = [], st_states = a, st_full = a, st_full_idx = None\<rparr>, s)
               else op_from_input env idx input s) (\<lambda>(stage, s1).
     res_bind (update_deps env idx (st_dep stage) s1) (\<lambda>s2. Inr (stage, s2)))))))"

section \<open>Stages of nodes with several inputs\<close>

text \<open>
  \<open>align_states\<close>: one axis for every input and for every dependency of one; the states of each input are spread over all of them. An entry is the
  input, its axis, the product of the sizes of the later axes, and the states.
\<close>

definition align_one :: "(nat \<rightharpoonup> dp_stage) \<Rightarrow> nat list \<Rightarrow> nat list \<Rightarrow> nat \<Rightarrow> (nat \<times> nat \<times> nat \<times> rat nda) res" where
  "align_one stages aligned shape input =
     res_bind (dget stages input) (\<lambda>stage.
       let sidx = input # st_dep stage;
           major = nat (foldl (\<lambda>m (i, x). if x = input then int i else m) (- 1) (enumerate 0 aligned))
       in res_bind (res_map (py_index sidx) (filter (\<lambda>i. i \<in> set sidx) aligned)) (\<lambda>axes.
          res_bind (np_transpose (st_states stage) axes) (\<lambda>a.
          res_bind (np_reshape a (map2 (\<lambda>i n. if i \<in> set sidx then n else 1) aligned shape)) (\<lambda>b.
          res_bind (np_broadcast b shape) (\<lambda>c.
            Inr (input, major, prod_list (drop (Suc major) shape), c))))))"

definition align_states :: "dp_env \<Rightarrow> (nat \<rightharpoonup> dp_stage) \<Rightarrow> nat list \<Rightarrow> ((nat \<times> nat \<times> nat \<times> rat nda) list \<times> nat list) res" where
  "align_states env stages inputs =
     res_bind (res_foldl (\<lambda>al i. res_bind (dget stages i) (\<lambda>st. Inr (foldl (\<lambda>a d. if d \<in> set a then a else a @ [d]) al (st_dep st)))) inputs inputs) (\<lambda>aligned.
     res_bind (res_map (num_candidates env) aligned) (\<lambda>shape.
     res_bind (res_map (align_one stages aligned shape) inputs) (\<lambda>states. Inr (states, aligned))))"

text \<open>
  The time of one combination of schedules: the target's own, and for every other input its time and the transformation of its layout to the target's.
  The table is only written inside the loop over the other inputs: without one it keeps its zeros.
\<close>

definition combined_time :: "dp_env \<Rightarrow> nat list \<Rightarrow> (nat \<times> nat \<times> nat \<times> rat nda) \<Rightarrow> (nat \<times> nat \<times> nat \<times> rat nda) list \<Rightarrow> nat \<Rightarrow> rat res" where
  "combined_time env counted = (\<lambda>(t_idx, t_axis, t_mult, t_states) srcs i.
     if srcs = [] then Inr 0
     else let shape = fst t_states; t_sch = i mod (t_mult * shape ! t_axis) div t_mult
          in res_foldl (\<lambda>acc (s_idx, s_axis, s_mult, s_states).
               res_bind (layout_time env s_idx t_idx (i mod (s_mult * shape ! s_axis) div s_mult) t_sch) (\<lambda>t.
                 Inr (acc + (t + (if s_idx \<in> set counted then 0 else snd s_states ! i))))) (if t_idx \<in> set counted then 0 else snd t_states ! i) srcs)"

text \<open>Taking the least over the axes that no later node needs.\<close>

definition reduce_deps ::
  "nat list \<Rightarrow> rat nda \<Rightarrow> (nat \<rightharpoonup> nat list) \<Rightarrow> (rat nda \<times> nat list \<times> (nat \<rightharpoonup> nat list)) res" where
  "reduce_deps dep_list states dd =
     res_bind (res_foldl (\<lambda>(a, shift, deps, dd) (i, dep).
         if (case dd dep of None \<Rightarrow> True | Some xs \<Rightarrow> length xs = 1)
         then res_bind (np_amin a (i + 1 - shift)) (\<lambda>a'. Inr (a', shift + 1, deps, dd(dep := None)))
         else Inr (a, shift, deps @ [dep], dd)) (states, 0 :: nat, [], dd) (enumerate 0 dep_list)) (\<lambda>(a, _, deps, dd'). Inr (a, deps, dd'))"

definition create_multi_inputs_states :: "dp_env \<Rightarrow> nat \<Rightarrow> dp \<Rightarrow> (dp_stage \<times> dp) res" where
  "create_multi_inputs_states env idx s =
     res_bind (dget (map_of (de_ins env)) idx) (\<lambda>all_ins.
     res_bind (res_map (\<lambda>i. res_bind (node_at env i) (\<lambda>g. Inr (i, is_boundary_node g (de_names env)))) all_ins) (\<lambda>flags.
     res_bind (align_states env (dp_stages s) (map fst (filter (\<lambda>q. \<not> snd q) flags))) (\<lambda>(states, aligned).
       case states of
         [] \<Rightarrow> Inl IndexError
       | target # srcs \<Rightarrow>
           let shape = fst (snd (snd (snd target))); axis = fst (snd target); others = filter (\<lambda>k. k \<noteq> axis) [0..<length shape]
           in res_bind (res_map (combined_time env (dp_counted s) target srcs) [0..<length (snd (snd (snd (snd target))))]) (\<lambda>times.
              res_bind (np_transpose (shape, times) (axis # others)) (\<lambda>a.
              res_bind (reduce_deps (map (\<lambda>k. aligned ! k) others) a (dp_deps s)) (\<lambda>(states', deps, dd).
              res_bind (update_deps env idx deps
                  (s\<lparr>dp_deps := dd, dp_counted := foldl (\<lambda>c st. List.insert (fst st) c) (dp_counted s) states\<rparr>)) (\<lambda>s'.
                Inr (\<lparr>st_dep = deps, st_states = states', st_full = (shape, times), st_full_idx = Some aligned\<rparr>, s'))))))))"

definition create_states :: "dp_env \<Rightarrow> nat \<Rightarrow> dp \<Rightarrow> (dp_stage \<times> dp) res" where
  "create_states env idx s =
     res_bind (node_at env idx) (\<lambda>g.
       if is_target (de_targets env) g then create_op_states env idx s else create_multi_inputs_states env idx s)"

section \<open>Forward pass\<close>

definition check_num_states :: "nat option \<Rightarrow> nat \<Rightarrow> dp \<Rightarrow> dp res" where
  "check_num_states limit n s =
     (let s' = s\<lparr>dp_num_states := dp_num_states s + n\<rparr>
      in case limit of None \<Rightarrow> Inr s' | Some m \<Rightarrow> if dp_num_states s' > m then Inl RuntimeError else Inr s')"

definition dp_forward :: "dp_env \<Rightarrow> nat option \<Rightarrow> dp \<Rightarrow> dp res" where
  "dp_forward env limit s =
     res_foldl (\<lambda>s idx.
       res_bind (create_states env idx s) (\<lambda>(stage, s1).
       res_bind (check_num_states limit (length (snd (st_full stage))) s1) (\<lambda>s2.
         Inr (s2\<lparr>dp_stages := (dp_stages s2)(idx \<mapsto> stage)\<rparr>)))) s (sort (map fst (de_ins env)))"

section \<open>Backward pass\<close>

definition MAX_OUTPUT_NODES :: nat where
  "MAX_OUTPUT_NODES = 16"

definition output_nodes :: "dp_env \<Rightarrow> nat list" where
  "output_nodes env = map fst (filter (\<lambda>q. snd q = []) (de_outs env))"

text \<open>The first position at which the sum over the outputs is below the start value and least; \<open>-1\<close> when it never is below.\<close>

definition least_position :: "rat \<Rightarrow> rat list list \<Rightarrow> nat \<Rightarrow> int" where
  "least_position start xss n =
     snd (foldl (\<lambda>(best, pos) i. let t = sum_list (map (\<lambda>xs. xs ! i) xss) in if best > t then (t, int i) else (best, pos)) (start, - 1) [0..<n])"

definition pick_outputs :: "dp_env \<Rightarrow> nat option \<Rightarrow> dp \<Rightarrow> ((nat \<rightharpoonup> nat) \<times> dp) res" where
  "pick_outputs env limit s =
     res_bind (align_states env (dp_stages s) (output_nodes env)) (\<lambda>(states, aligned).
       case states of
         [] \<Rightarrow> Inl IndexError
       | st # _ \<Rightarrow>
           let shape = fst (snd (snd (snd st))); n = length (snd (snd (snd (snd st))))
           in res_bind (check_num_states limit (n * length states) s) (\<lambda>s'.
              res_bind (res_map (\<lambda>st. np_amax (snd (snd (snd st)))) states) (\<lambda>maxs.
                let pos = least_position (sum_list maxs) (map (\<lambda>st. snd (snd (snd (snd st)))) states) n;
                    rec = foldl (\<lambda>rec (i, (_, axis, mult, _)). rec(aligned ! i \<mapsto> nat (pos mod (int mult * int (shape ! axis)) div int mult)))
                            Map.empty (enumerate 0 states);
                    rec' = foldl (\<lambda>rec i. rec(aligned ! i \<mapsto> nat (pos div int (prod_list (drop (Suc i) shape)) mod int (shape ! i)))) rec
                             [length states..<length aligned]
                in Inr (rec', s'))))"

definition visit_single :: "dp_env \<Rightarrow> dp_stage \<Rightarrow> nat \<Rightarrow> nat \<Rightarrow> nat list \<times> nat list \<times> (nat \<rightharpoonup> nat) \<Rightarrow> (nat list \<times> nat list \<times> (nat \<rightharpoonup> nat)) res" where
  "visit_single env stage node opt = (\<lambda>(q, vis, rec).
     res_bind (dget (map_of (de_ins env)) node) (\<lambda>ins. res_bind (py_get ins 0) (\<lambda>input. res_bind (node_at env input) (\<lambda>g_in.
       if is_boundary_node g_in (de_names env) \<or> input \<in> set vis then Inr (q, vis, rec)
       else if rec input \<noteq> None then Inr (q @ [input], vis, rec)
       else res_bind (res_map (dget rec) (st_dep stage)) (\<lambda>deps.
            res_bind (np_argmin_axis (st_full stage) 1) (\<lambda>tmp.
            res_bind (np_item tmp (opt # deps)) (\<lambda>k. Inr (q @ [input], vis, rec(input \<mapsto> k)))))))))"

text \<open>The positions of the new nodes, decoded from one index into the table of their schedules.\<close>

definition decode_new :: "nat list \<Rightarrow> (nat \<times> nat) list \<Rightarrow> nat \<Rightarrow> (nat \<rightharpoonup> nat) \<Rightarrow> (nat \<rightharpoonup> nat)" where
  "decode_new shape news pos rec =
     (let start = prod_list (map (\<lambda>(i, idx). shape ! i) news)
      in snd (snd (foldl (\<lambda>(mult, p, rec) (i, idx). let m = mult div shape ! i in (m, p mod m, rec(idx \<mapsto> p div m))) (start, pos, rec) news)))"

definition visit_multi :: "dp_env \<Rightarrow> dp_stage \<Rightarrow> nat \<Rightarrow> nat \<Rightarrow> nat list \<times> nat list \<times> (nat \<rightharpoonup> nat) \<Rightarrow> (nat list \<times> nat list \<times> (nat \<rightharpoonup> nat)) res" where
  "visit_multi env stage node opt = (\<lambda>(q, vis, rec).
     res_bind (dget (map_of (de_ins env)) node) (\<lambda>ins. res_bind (py_get ins 0) (\<lambda>input.
       let rec1 = rec(input \<mapsto> opt)
       in case st_full_idx stage of
            None \<Rightarrow> Inl TypeErr
          | Some full_idx \<Rightarrow>
              res_bind (np_index (st_full stage) [opt]) (\<lambda>tmp.
                let later = tl (enumerate 0 full_idx);
                    olds = filter (\<lambda>(i, idx). rec1 idx \<noteq> None) later; news = filter (\<lambda>(i, idx). rec1 idx = None) later
                in res_bind (if olds = [] then Inr tmp
                             else res_bind (np_transpose tmp (map (\<lambda>q. fst q - 1) (olds @ news))) (\<lambda>a. np_index a (map (\<lambda>q. the (rec1 (snd q))) olds))) (\<lambda>a.
                   res_bind (np_argmin_flat a) (\<lambda>pos.
                     Inr (q @ filter (\<lambda>i. i \<notin> set vis) ins, vis, decode_new (fst (st_full stage)) news pos rec1)))))))"

definition bfs_step :: "dp_env \<Rightarrow> dp \<Rightarrow> nat list \<times> nat list \<times> (nat \<rightharpoonup> nat) \<Rightarrow> (nat list \<times> nat list \<times> (nat \<rightharpoonup> nat)) res" where
  "bfs_step env s = (\<lambda>(q, vis, rec).
     let node = hd q; st = (tl q, List.insert node vis, rec)
     in res_bind (node_at env node) (\<lambda>g.
        if is_boundary_node g (de_names env) then Inr st
        else res_bind (dget rec node) (\<lambda>opt. res_bind (dget (dp_stages s) node) (\<lambda>stage.
             res_bind (has_multiple_inputs (de_limit env) (de_nodes env) node (de_names env) OPT_OUT_OP) (\<lambda>multi.
               if multi then visit_multi env stage node opt st else visit_single env stage node opt st)))))"

text \<open>The queue of the backward pass; \<open>None\<close> is a run that is not over.\<close>

fun bfs_loop :: "nat \<Rightarrow> dp_env \<Rightarrow> dp \<Rightarrow> nat list \<times> nat list \<times> (nat \<rightharpoonup> nat) \<Rightarrow> (nat \<rightharpoonup> nat) res option" where
  "bfs_loop fuel env s (q, vis, rec) =
     (if q = [] then Some (Inr rec)
      else case fuel of
        0 \<Rightarrow> None
      | Suc n \<Rightarrow> (case bfs_step env s (q, vis, rec) of Inl e \<Rightarrow> Some (Inl e) | Inr st \<Rightarrow> bfs_loop n env s st))"

declare bfs_loop.simps [simp del]

definition dp_backward :: "nat \<Rightarrow> dp_env \<Rightarrow> nat option \<Rightarrow> dp \<Rightarrow> (nat \<rightharpoonup> nat) res option" where
  "dp_backward fuel env limit s =
     (if length (output_nodes env) > MAX_OUTPUT_NODES then Some (Inr (map_of (map (\<lambda>(k, _). (k, 0)) (de_ins env))))
      else case pick_outputs env limit s of
             Inl e \<Rightarrow> Some (Inl e)
           | Inr (rec, s') \<Rightarrow> bfs_loop fuel env s' (output_nodes env, [], rec))"

definition dp_run :: "nat \<Rightarrow> dp_env \<Rightarrow> nat option \<Rightarrow> (nat \<rightharpoonup> nat) res option" where
  "dp_run fuel env limit = (case dp_forward env limit dp_init of Inl e \<Rightarrow> Some (Inl e) | Inr s \<Rightarrow> dp_backward fuel env limit s)"

end
