(* ===== verification/DPTunerCorrect.thy ===== *)
theory DPTunerCorrect
  imports DPTuner GraphTraverseCorrect
begin

text \<open>
  The dynamic programming tuner on a chain of operators finds a choice of least total time; and an addition with one tuned input, for which it loses the times before it.
\<close>

section \<open>Chains\<close>

text \<open>
  Tuned operators \<open>cs\<close>, each reading from the one before and the first from the boundary node \<open>b\<close>, as \<open>get_in_nodes\<close> reports them; every operator has candidates, and there
  is a matrix of layout transformations for every two neighbours.
\<close>

definition chain :: "dp_env \<Rightarrow> nat \<Rightarrow> nat list \<Rightarrow> bool" where
  "chain env b cs \<longleftrightarrow> cs \<noteq> [] \<and> sorted_wrt (<) (b # cs) \<and> de_ins env = zip cs (map (\<lambda>x. [x]) (b # butlast cs)) \<and> de_outs env = get_out_nodes (de_ins env)
     \<and> (\<forall>c\<in>set (b # cs). c < length (de_nodes env)) \<and> is_boundary_node (de_nodes env ! b) (de_names env)
     \<and> (\<forall>c\<in>set cs. \<not> is_boundary_node (de_nodes env ! c) (de_names env) \<and> is_target (de_targets env) (de_nodes env ! c) \<and> gn_costs (de_nodes env ! c) \<noteq> []
          \<and> has_multiple_inputs (de_limit env) (de_nodes env) c (de_names env) OPT_OUT_OP = Inr False)
     \<and> (\<forall>i. Suc i < length cs \<longrightarrow> (\<exists>m. de_cost env (cs ! i, cs ! Suc i) = Some m \<and> length m = length (gn_costs (de_nodes env ! (cs ! i)))
          \<and> (\<forall>row\<in>set m. length row = length (gn_costs (de_nodes env ! (cs ! Suc i))))))"

definition cand :: "dp_env \<Rightarrow> nat \<Rightarrow> nat" where
  "cand env c = length (gn_costs (de_nodes env ! c))"

definition op_time :: "dp_env \<Rightarrow> nat \<Rightarrow> nat \<Rightarrow> rat" where
  "op_time env c k = gn_costs (de_nodes env ! c) ! k"

definition lay_time :: "dp_env \<Rightarrow> nat \<Rightarrow> nat \<Rightarrow> nat \<Rightarrow> nat \<Rightarrow> rat" where
  "lay_time env c d j k = the (de_cost env (c, d)) ! j ! k"

text \<open>The time of the first operators of a chain, of all of them, and the least time as the stages tabulate it.\<close>

fun prefix_time :: "dp_env \<Rightarrow> nat list \<Rightarrow> nat \<Rightarrow> (nat \<Rightarrow> nat) \<Rightarrow> rat" where
  "prefix_time env cs 0 a = op_time env (cs ! 0) (a (cs ! 0))"
| "prefix_time env cs (Suc i) a =
     prefix_time env cs i a + lay_time env (cs ! i) (cs ! Suc i) (a (cs ! i)) (a (cs ! Suc i)) + op_time env (cs ! Suc i) (a (cs ! Suc i))"

definition chain_time :: "dp_env \<Rightarrow> nat list \<Rightarrow> (nat \<Rightarrow> nat) \<Rightarrow> rat" where
  "chain_time env cs a = prefix_time env cs (length cs - 1) a"

fun least_time :: "dp_env \<Rightarrow> nat list \<Rightarrow> nat \<Rightarrow> nat \<Rightarrow> rat" where
  "least_time env cs 0 k = op_time env (cs ! 0) k"
| "least_time env cs (Suc i) k =
     Min (set (map (\<lambda>j. op_time env (cs ! Suc i) k + lay_time env (cs ! i) (cs ! Suc i) j k + least_time env cs i j) [0..<cand env (cs ! i)]))"

lemma least_time_lower:
  assumes "\<forall>i < length cs. a (cs ! i) < cand env (cs ! i)" and "i < length cs"
  shows "least_time env cs i (a (cs ! i)) \<le> prefix_time env cs i a"
  using assms(2)
proof (induction i)
  case (Suc i)
  let ?f = "\<lambda>j. op_time env (cs ! Suc i) (a (cs ! Suc i)) + lay_time env (cs ! i) (cs ! Suc i) j (a (cs ! Suc i)) + least_time env cs i j"
  have "a (cs ! i) < cand env (cs ! i)" using assms(1) Suc.prems by simp
  then have "least_time env cs (Suc i) (a (cs ! Suc i)) \<le> ?f (a (cs ! i))" by (auto intro!: Min_le)
  then show ?case using Suc.IH Suc.prems by simp
qed simp

section \<open>Forward pass\<close>

definition chain_stage :: "dp_env \<Rightarrow> nat list \<Rightarrow> nat \<Rightarrow> dp_stage" where
  "chain_stage env cs i =
     (let n = cand env (cs ! i); states = ([n], map (least_time env cs i) [0..<n])
      in case i of
           0 \<Rightarrow> \<lparr>st_dep = [], st_states = states, st_full = states, st_full_idx = None\<rparr>
         | Suc h \<Rightarrow> \<lparr>st_dep = [], st_states = states,
             st_full = ([n, cand env (cs ! h)], map (\<lambda>(k, j). op_time env (cs ! i) k + lay_time env (cs ! h) (cs ! i) j k + least_time env cs h j)
                                                  (List.product [0..<n] [0..<cand env (cs ! h)])),
             st_full_idx = Some [cs ! i, cs ! h]\<rparr>)"

lemma chain_distinct: "chain env b cs \<Longrightarrow> distinct (b # cs)"
  unfolding chain_def strict_sorted_iff by blast

lemma chain_ins:
  assumes "chain env b cs" and "i < length cs"
  shows "map_of (de_ins env) (cs ! i) = Some [(b # cs) ! i]"
proof -
  have ins: "de_ins env = zip cs (map (\<lambda>x. [x]) (b # butlast cs))" using assms(1) by (simp add: chain_def)
  have len: "length (b # butlast cs) = length cs" using assms by (cases cs rule: rev_cases) auto
  have "(b # butlast cs) ! i = (b # cs) ! i" using assms(2) by (cases i) (auto simp: nth_butlast)
  then have "map (\<lambda>x. [x]) (b # butlast cs) ! i = [(b # cs) ! i]" using assms(2) len by (simp only: nth_map)
  then have "(cs ! i, [(b # cs) ! i]) \<in> set (de_ins env)"
    unfolding ins in_set_zip using assms(2) len by (intro exI [of _ i]) (simp del: list.map)
  moreover have "distinct (map fst (de_ins env))" using chain_distinct [OF assms(1)] len by (simp add: ins)
  ultimately show ?thesis by simp
qed

lemma chain_keys: "chain env b cs \<Longrightarrow> map fst (de_ins env) = cs"
  by (cases cs rule: rev_cases) (auto simp: chain_def)

lemma chain_ins_set: "chain env b cs \<Longrightarrow> set (de_ins env) = {(cs ! i, [(b # cs) ! i]) | i. i < length cs}"
proof -
  assume ch: "chain env b cs"
  have "(k, v) \<in> set (de_ins env) \<longleftrightarrow> (\<exists>i < length cs. k = cs ! i \<and> v = [(b # cs) ! i])" for k v
  proof -
    have "distinct (map fst (de_ins env))" using chain_keys [OF ch] chain_distinct [OF ch] by simp
    then have "(k, v) \<in> set (de_ins env) \<longleftrightarrow> map_of (de_ins env) k = Some v" by simp
    moreover have "k \<in> set cs" if "map_of (de_ins env) k = Some v" using map_of_SomeD [OF that] chain_keys [OF ch] by (metis fst_conv image_eqI list.set_map)
    ultimately show ?thesis using chain_ins [OF ch] by (metis in_set_conv_nth option.inject)
  qed
  then show ?thesis by auto
qed

lemma chain_outs_eq: "chain env b cs \<Longrightarrow> de_outs env = get_out_nodes (de_ins env)"
  by (simp add: chain_def)

lemma chain_outs:
  assumes ch: "chain env b cs" and i: "i < length cs"
  shows "map_of (de_outs env) (cs ! i) = Some (if Suc i < length cs then [cs ! Suc i] else [])"
proof -
  let ?f = "\<lambda>(k, val). replicate (count_list val (cs ! i)) k"
  have dist: "distinct (b # cs)" using chain_distinct [OF ch] .
  have len: "length (b # butlast cs) = length cs" using i by (cases cs rule: rev_cases) auto
  have ins: "de_ins env = map (\<lambda>h. (cs ! h, [(b # cs) ! h])) [0..<length cs]"
  proof (rule nth_equalityI)
    show "length (de_ins env) = length (map (\<lambda>h. (cs ! h, [(b # cs) ! h])) [0..<length cs])" using chain_keys [OF ch] by (metis diff_zero length_map length_upt)
    fix h assume h: "h < length (de_ins env)"
    then have h': "h < length cs" using chain_keys [OF ch] by (metis length_map)
    have "fst (de_ins env ! h) = cs ! h" using chain_keys [OF ch] h by (metis nth_map)
    moreover have "de_ins env ! h \<in> set (de_ins env)" using h by simp
    ultimately obtain g where "g < length cs" "de_ins env ! h = (cs ! g, [(b # cs) ! g])" "cs ! g = cs ! h"
      unfolding chain_ins_set [OF ch] by auto
    then show "de_ins env ! h = map (\<lambda>h. (cs ! h, [(b # cs) ! h])) [0..<length cs] ! h" using dist h' by (simp add: nth_eq_iff_index_eq)
  qed
  have "?f (cs ! h, [(b # cs) ! h]) = (if h = Suc i then [cs ! Suc i] else [])" if "h < length cs" for h
  proof (cases h)
    case 0
    then show ?thesis using dist i by auto
  next
    case (Suc g)
    then show ?thesis using dist i that by (auto simp: nth_eq_iff_index_eq)
  qed
  then have "concat (map ?f (de_ins env)) = concat (map (\<lambda>h. if h = Suc i then [cs ! Suc i] else []) [0..<length cs])"
    unfolding ins map_map comp_def by (intro arg_cong [where f = concat] map_cong) auto
  also have "\<dots> = (if Suc i < length cs then [cs ! Suc i] else [])"
  proof (cases "Suc i < length cs")
    case True
    have "concat (map (\<lambda>h. if h = Suc i then [cs ! Suc i] else []) [0..<n]) = (if Suc i < n then [cs ! Suc i] else [])" for n by (induction n) auto
    then show ?thesis .
  next
    case False
    then show ?thesis by auto
  qed
  finally have "concat (map ?f (de_ins env)) = (if Suc i < length cs then [cs ! Suc i] else [])" .
  moreover have "cs ! i \<in> set (map fst (de_ins env))" using chain_keys [OF ch] i by simp
  ultimately show ?thesis using get_out_nodes_map [of "de_ins env" "cs ! i"] unfolding chain_outs_eq [OF ch] by auto
qed

lemma chain_output:
  assumes ch: "chain env b cs"
  shows "output_nodes env = [last cs]"
proof -
  have cs: "cs \<noteq> []" "length cs - 1 < length cs" using ch by (auto simp: chain_def)
  have dist: "distinct (map fst (de_outs env))"
    unfolding chain_outs_eq [OF ch] using chain_keys [OF ch] chain_distinct [OF ch] by (intro get_out_nodes_distinct) simp
  have mem: "k \<in> set (output_nodes env) \<longleftrightarrow> map_of (de_outs env) k = Some []" for k
    using dist by (force simp: output_nodes_def)
  have "k = last cs" if k: "k \<in> set (output_nodes env)" for k
  proof -
    have "(\<exists>i < length cs. k = cs ! i) \<or> (\<exists>(q, val)\<in>set (de_ins env). k \<in> set val)"
      using k get_out_nodes_map [of "de_ins env" k] chain_keys [OF ch] unfolding mem chain_outs_eq [OF ch] by (auto simp: in_set_conv_nth split: if_splits)
    then have "k \<in> set (b # cs)"
    proof
      assume "\<exists>(q, val)\<in>set (de_ins env). k \<in> set val"
      then show ?thesis unfolding chain_ins_set [OF ch] using nth_mem [of _ "b # cs"] by fastforce
    qed auto
    moreover have "k \<noteq> b"
    proof
      assume "k = b"
      have "(cs ! 0, [b]) \<in> set (de_ins env)" unfolding chain_ins_set [OF ch] using cs by force
      then have "concat (map (\<lambda>(q, val). replicate (count_list val b) q) (de_ins env)) \<noteq> []" by (force simp: concat_eq_Nil_conv)
      then show False using k \<open>k = b\<close> get_out_nodes_map [of "de_ins env" b] unfolding mem chain_outs_eq [OF ch] by (auto split: if_splits)
    qed
    ultimately obtain i where i: "i < length cs" "k = cs ! i" by (auto simp: in_set_conv_nth)
    then have "\<not> Suc i < length cs" using k chain_outs [OF ch i(1)] by (auto simp: mem)
    then show ?thesis using i cs(1) by (metis Suc_lessI diff_Suc_1 last_conv_nth)
  qed
  moreover have "last cs \<in> set (output_nodes env)" using chain_outs [OF ch cs(2)] cs(1) by (simp add: mem last_conv_nth)
  moreover have "distinct (output_nodes env)" unfolding output_nodes_def using dist by (simp add: distinct_map_filter)
  ultimately have one: "set (output_nodes env) = {last cs}" "distinct (output_nodes env)" by blast+
  then have "length (output_nodes env) = 1" using distinct_card [OF one(2)] by simp
  then show ?thesis using one(1) by (auto simp: length_Suc_conv)
qed

lemma chain_nodes_at:
  assumes "chain env b cs" and "i < length cs"
  shows "node_at env (cs ! i) = Inr (de_nodes env ! (cs ! i))" "node_at env b = Inr (de_nodes env ! b)" "0 < cand env (cs ! i)"
    "\<not> is_boundary_node (de_nodes env ! (cs ! i)) (de_names env)" "is_boundary_node (de_nodes env ! b) (de_names env)" "is_target (de_targets env) (de_nodes env ! (cs ! i))"
    "has_multiple_inputs (de_limit env) (de_nodes env) (cs ! i) (de_names env) OPT_OUT_OP = Inr False"
  using assms nth_mem [OF assms(2)] by (auto simp: chain_def node_at_def cand_def)

lemma chain_layout:
  assumes "chain env b cs" and "Suc i < length cs" and "j < cand env (cs ! i)" and "k < cand env (cs ! Suc i)"
  shows "layout_time env (cs ! i) (cs ! Suc i) j k = Inr (lay_time env (cs ! i) (cs ! Suc i) j k)"
proof -
  obtain m where m: "de_cost env (cs ! i, cs ! Suc i) = Some m" "length m = cand env (cs ! i)" "\<forall>row\<in>set m. length row = cand env (cs ! Suc i)"
    using assms(1,2) unfolding chain_def cand_def by blast
  then have "length (m ! j) = cand env (cs ! Suc i)" using assms(3) by simp
  then show ?thesis using m(1,2) assms(3,4) by (simp add: layout_time_def lay_time_def dget_def py_get_nat)
qed

lemma update_deps_chain:
  assumes "chain env b cs" and "i < length cs"
  shows "update_deps env (cs ! i) [] s = Inr s"
  using chain_outs [OF assms] by (simp add: update_deps_def dget_def)

lemma list_product_row: "j < m \<Longrightarrow> k < n \<Longrightarrow> map f (List.product [0..<n] [0..<m]) ! (k * m + j) = f (k, j)"
proof -
  assume j: "j < m" and k: "k < n"
  have "k * m + j < n * m" using j k by (metis add_lessD1 add_strict_left_mono less_le_trans mult_Suc mult_le_mono1 add.commute Suc_leI)
  then show ?thesis using j k by (simp add: product_nth)
qed

lemma chain_stage_Suc:
  assumes ch: "chain env b cs" and i: "Suc i < length cs" and s: "dp_stages s (cs ! i) = Some (chain_stage env cs i)" "cs ! i \<notin> set (dp_counted s)"
  shows "create_states env (cs ! Suc i) s = Inr (chain_stage env cs (Suc i), s\<lparr>dp_counted := List.insert (cs ! i) (dp_counted s)\<rparr>)"
proof -
  have i': "i < length cs" using i by simp
  let ?n = "cand env (cs ! Suc i)" and ?m = "cand env (cs ! i)"
  let ?f = "\<lambda>(k, j). op_time env (cs ! Suc i) k + lay_time env (cs ! i) (cs ! Suc i) j k + least_time env cs i j"
  let ?times = "map ?f (List.product [0..<?n] [0..<?m])"
  note at = chain_nodes_at [OF ch i] and at' = chain_nodes_at [OF ch i']
  have st: "st_dep (chain_stage env cs i) = []" "snd (st_states (chain_stage env cs i)) = map (least_time env cs i) [0..<?m]"
    by (auto simp: chain_stage_def Let_def split: nat.split)
  have stage: "chain_stage env cs (Suc i) = \<lparr>st_dep = [], st_states = ([?n], map (least_time env cs (Suc i)) [0..<?n]), st_full = ([?n, ?m], ?times),
      st_full_idx = Some [cs ! Suc i, cs ! i]\<rparr>" by (simp add: chain_stage_def Let_def)
  have times: "op_times env (cs ! Suc i) (cs ! i) False (map (least_time env cs i) [0..<?m]) [] (gn_costs (de_nodes env ! (cs ! Suc i))) (?n * ?m) = Inr ?times"
    unfolding op_times_def length_map length_upt diff_zero cand_def [symmetric]
  proof (rule res_map_total)
    fix x assume "x \<in> set (List.product [0..<?n] [0..<?m])"
    then obtain k j where x: "x = (k, j)" "k < ?n" "j < ?m" by auto
    have "k * ?m + j < ?n * ?m" using x(2,3) by (metis add_lessD1 add_strict_left_mono less_le_trans mult_Suc mult_le_mono1 add.commute Suc_leI)
    then show "(case x of (k, j) \<Rightarrow> res_bind (layout_time env (cs ! i) (cs ! Suc i) (j div prod_list []) k) (\<lambda>t.
      if k * ?m + j < ?n * ?m then Inr (gn_costs (de_nodes env ! (cs ! Suc i)) ! k + t + (if False then 0 else map (least_time env cs i) [0..<?m] ! j)) else Inl IndexError)) = Inr (?f x)"
      using x chain_layout [OF ch i x(3,2)] by (simp add: op_time_def)
  qed
  have amin: "np_amin ([?n, ?m], ?times) 1 = Inr ([?n], map (least_time env cs (Suc i)) [0..<?n])"
    unfolding np_amin_def nd_reduce_2 [OF at'(3)] by (auto simp: list_product_row intro!: map_cong arg_cong [where f = Min])
  have ins: "map_of (de_ins env) (cs ! Suc i) = Some [cs ! i]" using chain_ins [OF ch i] by simp
  have outs: "map_of (de_outs env) (cs ! i) = Some [cs ! Suc i]" using chain_outs [OF ch i'] i by simp
  have "op_from_input env (cs ! Suc i) (cs ! i) s = Inr (chain_stage env cs (Suc i), s\<lparr>dp_counted := List.insert (cs ! i) (dp_counted s)\<rparr>)"
    using times amin s(2) unfolding op_from_input_def at(1) at'(1) dget_def s(1)
    by (simp add: st outs Let_def cand_def [symmetric] stage)
  then show ?thesis
    using at at' ins update_deps_chain [OF ch i] by (simp add: create_states_def create_op_states_def dget_def py_get_def stage Let_def)
qed

lemma chain_stage_0:
  assumes ch: "chain env b cs"
  shows "create_states env (cs ! 0) s = Inr (chain_stage env cs 0, s)"
proof -
  have i: "0 < length cs" using ch by (simp add: chain_def)
  have "gn_costs (de_nodes env ! (cs ! 0)) = map (least_time env cs 0) [0..<cand env (cs ! 0)]"
    by (auto simp: cand_def op_time_def intro: nth_equalityI)
  then show ?thesis using chain_nodes_at [OF ch i] chain_ins [OF ch i] update_deps_chain [OF ch i]
    by (simp add: create_states_def create_op_states_def dget_def py_get_def chain_stage_def Let_def cand_def)
qed

definition forward_one :: "dp_env \<Rightarrow> nat option \<Rightarrow> dp \<Rightarrow> nat \<Rightarrow> dp res" where
  "forward_one env limit s idx =
     res_bind (create_states env idx s) (\<lambda>(stage, s1).
     res_bind (check_num_states limit (length (snd (st_full stage))) s1) (\<lambda>s2.
       Inr (s2\<lparr>dp_stages := (dp_stages s2)(idx \<mapsto> stage)\<rparr>)))"

lemma forward_chain:
  assumes ch: "chain env b cs"
  shows "\<exists>s. dp_forward env None dp_init = Inr s \<and> (\<forall>i < length cs. dp_stages s (cs ! i) = Some (chain_stage env cs i))"
proof -
  have dist: "distinct cs" using chain_distinct [OF ch] by simp
  have "\<exists>s. res_foldl (forward_one env None) dp_init (take k cs) = Inr s \<and> (\<forall>i < k. dp_stages s (cs ! i) = Some (chain_stage env cs i))
      \<and> set (dp_counted s) \<subseteq> {cs ! i | i. Suc i < k}" if "k \<le> length cs" for k
    using that
  proof (induction k)
    case 0
    then show ?case by (simp add: dp_init_def)
  next
    case (Suc k)
    then obtain s where s: "res_foldl (forward_one env None) dp_init (take k cs) = Inr s" "\<forall>i < k. dp_stages s (cs ! i) = Some (chain_stage env cs i)"
      "set (dp_counted s) \<subseteq> {cs ! i | i. Suc i < k}" by auto
    have k: "k < length cs" using Suc.prems by simp
    have "\<exists>s1. create_states env (cs ! k) s = Inr (chain_stage env cs k, s1) \<and> dp_stages s1 = dp_stages s \<and> set (dp_counted s1) \<subseteq> {cs ! i | i. Suc i < Suc k}"
    proof (cases k)
      case 0
      then show ?thesis using chain_stage_0 [OF ch, of s] s(3) by auto
    next
      case (Suc h)
      have "cs ! h \<notin> set (dp_counted s)" using s(3) dist k Suc by (auto simp: nth_eq_iff_index_eq)
      then show ?thesis using chain_stage_Suc [OF ch, of h s] s(2,3) k Suc by fastforce
    qed
    then obtain s1 where s1: "create_states env (cs ! k) s = Inr (chain_stage env cs k, s1)" "dp_stages s1 = dp_stages s"
      "set (dp_counted s1) \<subseteq> {cs ! i | i. Suc i < Suc k}" by blast
    let ?s = "s1\<lparr>dp_num_states := dp_num_states s1 + length (snd (st_full (chain_stage env cs k))), dp_stages := (dp_stages s1)(cs ! k \<mapsto> chain_stage env cs k)\<rparr>"
    have "forward_one env None s (cs ! k) = Inr ?s" using s1(1) by (simp add: forward_one_def check_num_states_def)
    moreover have "take (Suc k) cs = take k cs @ [cs ! k]" using k by (rule take_Suc_conv_app_nth)
    moreover have "dp_stages ?s (cs ! i) = Some (chain_stage env cs i)" if "i < Suc k" for i
      using that s(2) s1(2) dist k by (auto simp: less_Suc_eq nth_eq_iff_index_eq)
    ultimately show ?case using s(1) s1(3) by (auto simp: res_foldl_append)
  qed
  from this [of "length cs"] obtain s where "res_foldl (forward_one env None) dp_init cs = Inr s" "\<forall>i < length cs. dp_stages s (cs ! i) = Some (chain_stage env cs i)" by auto
  moreover have "sort (map fst (de_ins env)) = cs" using ch chain_keys [OF ch] by (auto simp: chain_def strict_sorted_iff intro: sorted_sort_id)
  ultimately show ?thesis by (simp add: dp_forward_def forward_one_def [abs_def])
qed

section \<open>Backward pass\<close>

lemma least_position_single:
  assumes "length xs = n" and "0 < n" and "\<forall>x\<in>set xs. x \<le> start" and "start \<in> set xs"
  defines "k \<equiv> nat (least_position start [xs] n mod int n)"
  shows "k < n" "x \<in> set xs \<Longrightarrow> xs ! k \<le> x"
proof -
  define f where "f = (\<lambda>(best, pos) i. let t = sum_list (map (\<lambda>xs. xs ! i) [xs]) in if best > t then (t, int i) else (best, pos))"
  have "\<exists>best pos. foldl f (start, - 1) [0..<m] = (best, pos) \<and> (\<forall>i < m. best \<le> xs ! i)
      \<and> (pos = - 1 \<and> best = start \<or> (\<exists>p < m. pos = int p \<and> best = xs ! p))" if "m \<le> n" for m
    using that
  proof (induction m)
    case (Suc m)
    then obtain best pos where r: "foldl f (start, - 1) [0..<m] = (best, pos)" "\<forall>i < m. best \<le> xs ! i" "pos = - 1 \<and> best = start \<or> (\<exists>p < m. pos = int p \<and> best = xs ! p)"
      by auto
    show ?case
    proof (cases "xs ! m < best")
      case True
      then show ?thesis using r by (fastforce simp: f_def less_Suc_eq)
    next
      case False
      then show ?thesis using r by (auto simp: f_def less_Suc_eq)
    qed
  qed simp
  from this [of n] obtain best pos where r: "foldl f (start, - 1) [0..<n] = (best, pos)" "\<forall>i < n. best \<le> xs ! i"
    "pos = - 1 \<and> best = start \<or> (\<exists>p < n. pos = int p \<and> best = xs ! p)" by auto
  have pos: "least_position start [xs] n = pos" using r(1) by (simp add: least_position_def f_def)
  have "k < n \<and> xs ! k \<le> best"
    using r(3)
  proof
    assume p: "pos = - 1 \<and> best = start"
    have "k = n - 1" using assms(2) p by (simp add: k_def pos zmod_minus1 nat_diff_distrib)
    then show ?thesis using assms(1-3) p by simp
  next
    assume "\<exists>p < n. pos = int p \<and> best = xs ! p"
    then show ?thesis by (auto simp: k_def pos)
  qed
  then show "k < n" "x \<in> set xs \<Longrightarrow> xs ! k \<le> x" using r(2) assms(1) by (auto simp: in_set_conv_nth intro: order_trans)
qed

lemma pick_chain:
  assumes ch: "chain env b cs" and h: "h < length cs" "last cs = cs ! h" and s: "dp_stages s (last cs) = Some (chain_stage env cs h)"
  shows "\<exists>k s'. pick_outputs env None s = Inr ([last cs \<mapsto> k], s') \<and> dp_stages s' = dp_stages s \<and> k < cand env (last cs)
    \<and> (\<forall>j < cand env (last cs). least_time env cs h k \<le> least_time env cs h j)"
proof -
  let ?c = "last cs"
  let ?n = "cand env ?c"
  let ?xs = "map (least_time env cs h) [0..<?n]"
  have at: "node_at env ?c = Inr (de_nodes env ! ?c)" "0 < ?n" using chain_nodes_at [OF ch h(1)] h(2) by auto
  have st: "st_dep (chain_stage env cs h) = []" "st_states (chain_stage env cs h) = ([?n], ?xs)"
    by (auto simp: chain_stage_def Let_def h(2) split: nat.split)
  have "align_states env (dp_stages s) [?c] = Inr ([(?c, 0, 1, ([?n], ?xs))], [?c])"
    using at s by (simp add: Let_def align_states_def align_one_def num_candidates_def dget_def st np_transpose_1 np_broadcast_1 np_reshape_def cand_def [symmetric])
  moreover define k where "k = nat (least_position (Max (set ?xs)) [?xs] ?n mod int ?n)"
  moreover have "?xs \<noteq> []" using at(2) by simp
  ultimately have "pick_outputs env None s = Inr ([?c \<mapsto> k], s\<lparr>dp_num_states := dp_num_states s + ?n\<rparr>)"
    unfolding pick_outputs_def chain_output [OF ch] by (simp add: check_num_states_def np_amax_def Let_def)
  moreover have "k < ?n" "\<And>x. x \<in> set ?xs \<Longrightarrow> ?xs ! k \<le> x"
    unfolding k_def using at(2) \<open>?xs \<noteq> []\<close> by (intro least_position_single; simp)+
  ultimately show ?thesis by fastforce
qed

lemma argmin_chain:
  assumes ch: "chain env b cs" and i: "Suc i < length cs" and k: "k < cand env (cs ! Suc i)"
  shows "\<exists>j < cand env (cs ! i). res_bind (np_argmin_axis (st_full (chain_stage env cs (Suc i))) 1) (\<lambda>tmp. np_item tmp [k]) = Inr j
    \<and> op_time env (cs ! Suc i) k + lay_time env (cs ! i) (cs ! Suc i) j k + least_time env cs i j = least_time env cs (Suc i) k"
proof -
  let ?n = "cand env (cs ! Suc i)" and ?m = "cand env (cs ! i)"
  let ?f = "\<lambda>(k, j). op_time env (cs ! Suc i) k + lay_time env (cs ! i) (cs ! Suc i) j k + least_time env cs i j"
  let ?row = "map (\<lambda>j. ?f (k, j)) [0..<?m]"
  have m: "0 < ?m" using chain_nodes_at(3) [OF ch, of i] i by simp
  have full: "st_full (chain_stage env cs (Suc i)) = ([?n, ?m], map ?f (List.product [0..<?n] [0..<?m]))" by (simp add: chain_stage_def Let_def)
  have row: "map (\<lambda>j. map ?f (List.product [0..<?n] [0..<?m]) ! (k * ?m + j)) [0..<?m] = ?row"
    using k by (intro map_cong) (auto simp: list_product_row)
  have "?row \<noteq> []" using m by simp
  note fm = first_min_least [OF this]
  have "res_bind (np_argmin_axis (st_full (chain_stage env cs (Suc i))) 1) (\<lambda>tmp. np_item tmp [k]) = Inr (first_min ?row)"
    unfolding full np_argmin_axis_def nd_reduce_2 [OF m] res_bind.simps
    using k arg_cong [OF row, of first_min] by (simp only: np_item_def nd_at_def fst_conv snd_conv list_all2_Cons list_all2_Nil simp_thms if_True ravel_1 nth_map_upt add_0 length_upt diff_zero)
  moreover have "first_min ?row < ?m" using fm(1) by simp
  moreover have "?f (k, first_min ?row) = least_time env cs (Suc i) k" using fm(1,2) by simp
  ultimately show ?thesis by auto
qed

lemma bfs_chain:
  assumes ch: "chain env b cs" and st: "\<forall>i < length cs. dp_stages s (cs ! i) = Some (chain_stage env cs i)"
  shows "i < length cs \<Longrightarrow> rec (cs ! i) = Some k \<Longrightarrow> k < cand env (cs ! i) \<Longrightarrow> \<forall>j < i. rec (cs ! j) = None \<and> cs ! j \<notin> set vis \<Longrightarrow> i < fuel \<Longrightarrow>
    \<exists>rec'. bfs_loop fuel env s ([cs ! i], vis, rec) = Some (Inr rec') \<and> (\<forall>x. x \<notin> {cs ! j | j. j < i} \<longrightarrow> rec' x = rec x)
      \<and> (\<forall>j \<le> i. \<exists>l < cand env (cs ! j). rec' (cs ! j) = Some l) \<and> prefix_time env cs i (\<lambda>c. the (rec' c)) = least_time env cs i k"
proof (induction i arbitrary: rec k vis fuel)
  case 0
  note at = chain_nodes_at [OF ch 0(1)]
  obtain f where fuel: "fuel = Suc f" using 0(5) by (cases fuel) auto
  have "bfs_step env s ([cs ! 0], vis, rec) = Inr ([], List.insert (cs ! 0) vis, rec)"
    using at 0 st chain_ins [OF ch 0(1)] by (simp add: bfs_step_def visit_single_def dget_def py_get_def)
  then have "bfs_loop fuel env s ([cs ! 0], vis, rec) = Some (Inr rec)" by (simp add: fuel bfs_loop.simps)
  then show ?case using 0 by auto
next
  case (Suc i)
  note at = chain_nodes_at [OF ch Suc.prems(1)]
  have i: "i < length cs" using Suc.prems(1) by simp
  note at' = chain_nodes_at [OF ch i]
  have dist: "distinct cs" using chain_distinct [OF ch] by simp
  obtain f where fuel: "fuel = Suc f" using Suc.prems(5) by (cases fuel) auto
  obtain j where j: "j < cand env (cs ! i)" "res_bind (np_argmin_axis (st_full (chain_stage env cs (Suc i))) 1) (\<lambda>tmp. np_item tmp [k]) = Inr j"
    "op_time env (cs ! Suc i) k + lay_time env (cs ! i) (cs ! Suc i) j k + least_time env cs i j = least_time env cs (Suc i) k"
    using argmin_chain [OF ch Suc.prems(1,3)] by blast
  let ?vis = "List.insert (cs ! Suc i) vis" and ?rec = "rec(cs ! i \<mapsto> j)"
  have dep: "st_dep (chain_stage env cs (Suc i)) = []" by (simp add: chain_stage_def Let_def)
  have new: "rec (cs ! i) = None" "cs ! i \<notin> set ?vis" using Suc.prems(1,4) dist by (auto simp: nth_eq_iff_index_eq)
  obtain tmp where tmp: "np_argmin_axis (st_full (chain_stage env cs (Suc i))) 1 = Inr tmp" "np_item tmp [k] = Inr j" using j(2) by (auto simp: res_bind_eq_Inr)
  have "bfs_step env s ([cs ! Suc i], vis, rec) = Inr ([cs ! i], ?vis, ?rec)"
    using at at' Suc.prems(1,2) st chain_ins [OF ch Suc.prems(1)] new dep tmp by (simp add: bfs_step_def visit_single_def dget_def py_get_def)
  then have loop: "bfs_loop fuel env s ([cs ! Suc i], vis, rec) = bfs_loop f env s ([cs ! i], ?vis, ?rec)" by (simp add: fuel bfs_loop.simps [of "Suc f"])
  have rest: "\<forall>h < i. ?rec (cs ! h) = None \<and> cs ! h \<notin> set ?vis" using Suc.prems(1,4) dist by (auto simp: nth_eq_iff_index_eq)
  have "?rec (cs ! i) = Some j" "i < f" using Suc.prems(5) fuel by auto
  from Suc.IH [OF i this(1) j(1) rest this(2)] obtain rec' where rec': "bfs_loop f env s ([cs ! i], ?vis, ?rec) = Some (Inr rec')"
    "\<forall>x. x \<notin> {cs ! j | j. j < i} \<longrightarrow> rec' x = ?rec x" "\<forall>j \<le> i. \<exists>l < cand env (cs ! j). rec' (cs ! j) = Some l"
    "prefix_time env cs i (\<lambda>c. the (rec' c)) = least_time env cs i j" by blast
  have "cs ! Suc i \<notin> {cs ! j | j. j < i}" "cs ! i \<notin> {cs ! j | j. j < i}" "cs ! Suc i \<noteq> cs ! i" using dist Suc.prems(1) by (auto simp: nth_eq_iff_index_eq)
  then have vals: "rec' (cs ! Suc i) = Some k" "rec' (cs ! i) = Some j" using rec'(2) Suc.prems(2) by auto
  have "prefix_time env cs (Suc i) (\<lambda>c. the (rec' c)) = least_time env cs (Suc i) k" using rec'(4) vals j(3) by (simp del: least_time.simps add: algebra_simps)
  moreover have "rec' x = rec x" if "x \<notin> {cs ! j | j. j < Suc i}" for x using that rec'(2) by (auto simp: less_Suc_eq)
  moreover have "\<exists>l < cand env (cs ! h). rec' (cs ! h) = Some l" if "h \<le> Suc i" for h
    using that rec'(3) vals(1) Suc.prems(3) by (cases "h = Suc i") auto
  ultimately show ?case using loop rec'(1) by (intro exI [of _ rec']) simp
qed

text \<open>
  On a chain of operators the dynamic programming tuner returns, within one step of the queue per operator, a schedule for every operator, and no other choice of schedules has a smaller total
  of execution and layout transformation times.
\<close>

lemma dp_chain_run:
  assumes ch: "chain env b cs" and fuel: "length cs \<le> fuel"
  shows "\<exists>rec. dp_run fuel env None = Some (Inr rec) \<and> dom rec = set cs \<and> (\<forall>c\<in>set cs. \<exists>k < cand env c. rec c = Some k)
    \<and> (\<forall>a. (\<forall>c\<in>set cs. a c < cand env c) \<longrightarrow> chain_time env cs (\<lambda>c. the (rec c)) \<le> chain_time env cs a)"
proof -
  define h where "h = length cs - 1"
  have h: "h < length cs" "last cs = cs ! h" "h < fuel" using ch fuel by (auto simp: chain_def h_def last_conv_nth intro: less_le_trans)
  have dist: "distinct cs" using chain_distinct [OF ch] by simp
  obtain s where s: "dp_forward env None dp_init = Inr s" "\<forall>i < length cs. dp_stages s (cs ! i) = Some (chain_stage env cs i)" using forward_chain [OF ch] by blast
  obtain k s' where k: "pick_outputs env None s = Inr ([last cs \<mapsto> k], s')" "dp_stages s' = dp_stages s" "k < cand env (last cs)"
    "\<forall>j < cand env (last cs). least_time env cs h k \<le> least_time env cs h j" using pick_chain [OF ch h(1,2), of s] s(2) h by auto
  have "\<exists>rec'. bfs_loop fuel env s' ([cs ! h], [], [cs ! h \<mapsto> k]) = Some (Inr rec') \<and> (\<forall>x. x \<notin> {cs ! j | j. j < h} \<longrightarrow> rec' x = [cs ! h \<mapsto> k] x)
      \<and> (\<forall>j \<le> h. \<exists>l < cand env (cs ! j). rec' (cs ! j) = Some l) \<and> prefix_time env cs h (\<lambda>c. the (rec' c)) = least_time env cs h k"
    using k(2,3) s(2) h dist by (intro bfs_chain [OF ch]) (auto simp: nth_eq_iff_index_eq)
  then obtain rec' where r: "bfs_loop fuel env s' ([cs ! h], [], [cs ! h \<mapsto> k]) = Some (Inr rec')"
    "\<forall>x. x \<notin> {cs ! j | j. j < h} \<longrightarrow> rec' x = [cs ! h \<mapsto> k] x"
    "\<forall>j \<le> h. \<exists>l < cand env (cs ! j). rec' (cs ! j) = Some l" "prefix_time env cs h (\<lambda>c. the (rec' c)) = least_time env cs h k" by blast
  have "dp_run fuel env None = Some (Inr rec')"
    using r(1) k(1) s(1) h(2) chain_output [OF ch] by (simp add: dp_run_def dp_backward_def MAX_OUTPUT_NODES_def)
  moreover have each: "\<forall>c\<in>set cs. \<exists>k < cand env c. rec' c = Some k" using r(3) h(1) by (auto simp: in_set_conv_nth h_def)
  moreover have "dom rec' = set cs"
  proof
    show "set cs \<subseteq> dom rec'" using each by blast
    show "dom rec' \<subseteq> set cs"
    proof
      fix x assume "x \<in> dom rec'"
      then have "x = cs ! h \<or> x \<in> {cs ! j | j. j < h}" using r(2) by (auto split: if_splits)
      then show "x \<in> set cs" using h(1) by auto
    qed
  qed
  moreover have "chain_time env cs (\<lambda>c. the (rec' c)) \<le> chain_time env cs a" if a: "\<forall>c\<in>set cs. a c < cand env c" for a
  proof -
    have "least_time env cs h k \<le> least_time env cs h (a (cs ! h))" using k(4) a h by simp
    also have "\<dots> \<le> prefix_time env cs h a" using a h(1) by (intro least_time_lower) auto
    finally show ?thesis using r(4) by (simp add: chain_time_def h_def)
  qed
  ultimately show ?thesis by blast
qed

section \<open>A node whose second input is the input of the graph\<close>

definition shortcut_env :: "bool \<Rightarrow> dp_env" where
  "shortcut_env first = (let ins = projr (get_in_nodes 6 (shortcut_nodes first) {} [''nn.conv2d''] [''data''])
     in \<lparr>de_nodes = shortcut_nodes first, de_names = [''data''], de_targets = [''nn.conv2d''], de_ins = ins, de_outs = get_out_nodes ins,
         de_cost = map_of [((3, 5), [[0, 10], [10, 0]])], de_limit = 6\<rparr>)"

definition shortcut_time :: "nat \<Rightarrow> nat \<Rightarrow> rat" where
  "shortcut_time k l = op_time (shortcut_env False) 2 k + lay_time (shortcut_env False) 3 5 k l + op_time (shortcut_env False) 5 l"

text \<open>
  An addition of a convolution and the input of the graph, between two convolutions. The tuner finds one stage before the addition, never writes the table of the addition, and so
  forgets the times of the first convolution: it returns the choice of 6 time units, while another one takes 3. With the input as the first argument it raises \<open>KeyError\<close>.
\<close>

theorem dp_shortcut:
  "(case dp_run 4 (shortcut_env False) None of Some (Inr rec) \<Rightarrow> rec 2 = Some 0 \<and> rec 3 = Some 0 \<and> rec 5 = Some 0 | _ \<Rightarrow> False)
   \<and> shortcut_time 0 0 = 6 \<and> shortcut_time 1 1 = 3
   \<and> (case dp_run 4 (shortcut_env True) None of Some (Inl e) \<Rightarrow> e = KeyError | _ \<Rightarrow> False)"
  by (intro conjI; code_simp)

end
