(* ===== verification/GraphTuner.thy ===== *)
theory GraphTuner
  imports GraphTraverse
begin

text \<open>
  The base class of the graph tuners, \<open>autotvm/graph_tuner/base_graph_tuner.py\<close>: schedule candidates from the records of kernel tuning, workloads of nodes with several
  inputs, the layout transformations between neighbours and the matrices of their times, and the records of the chosen schedules.

  The node list and the tables of inputs come from \<open>expr2graph\<close> and \<open>get_in_nodes\<close>. A record is the workload, the configuration and the time of a measurement that
  succeeded. The layouts that a schedule takes and gives are computed by functions of the operator library, and layout transformations are measured
  on a device: parameters of the model.
\<close>

section \<open>State\<close>

record gwkl =
  gw_name :: string
  gw_shape :: "int list"
  gw_dtype :: string
  gw_rest :: "pyobj list"

record grec =
  gr_wkl :: gwkl
  gr_cfg :: nat
  gr_cost :: rat

text \<open>A node entry; \<open>None\<close> in the last three fields is a key that is not there yet. The input that is a boundary has \<open>None\<close> among the workloads and operators.\<close>

record tnode =
  tn_op :: "string option"
  tn_name :: "string option"
  tn_inputs :: "nat list"
  tn_shape :: "int list"
  tn_topi :: "string option list option"
  tn_wkls :: "gwkl option list option"
  tn_cands :: "grec list option"

definition gnode_of :: "tnode \<Rightarrow> gnode" where
  "gnode_of t = \<lparr>gn_op = tn_op t, gn_name = tn_name t, gn_inputs = tn_inputs t, gn_costs = (case tn_cands t of None \<Rightarrow> [] | Some rs \<Rightarrow> map gr_cost rs)\<rparr>"

datatype infer_fn = Conv2dInfer | DepthwiseInfer

type_synonym layouts = "(int list \<times> string) list \<times> (int list \<times> string) list"

definition get_infer_layout :: "string \<Rightarrow> infer_fn res" where
  "get_infer_layout name =
     (if str_startswith name ''conv2d'' then Inr Conv2dInfer
      else if str_startswith name ''depthwise_conv2d'' then Inr DepthwiseInfer else Inl ValueError)"

record gt_env =
  ge_infer :: "infer_fn \<Rightarrow> gwkl \<Rightarrow> nat \<Rightarrow> layouts"
  ge_names :: "string list"
  ge_targets :: "string list"
  ge_max_sch :: int
  ge_dtype :: string
  ge_limit :: nat

definition key_of :: "'a option \<Rightarrow> 'a res" where
  "key_of x = (case x of None \<Rightarrow> Inl KeyError | Some v \<Rightarrow> Inr v)"

definition entry_at :: "tnode list \<Rightarrow> nat \<Rightarrow> tnode res" where
  "entry_at nodes i = (if i < length nodes then Inr (nodes ! i) else Inl IndexError)"

definition is_boundary :: "gt_env \<Rightarrow> tnode \<Rightarrow> bool" where
  "is_boundary env t = is_boundary_node (gnode_of t) (ge_names env)"

definition has_multi :: "gt_env \<Rightarrow> tnode list \<Rightarrow> nat \<Rightarrow> bool res" where
  "has_multi env nodes i = has_multiple_inputs (ge_limit env) (map gnode_of nodes) i (ge_names env) OPT_OUT_OP"

definition infer_of :: "string option \<Rightarrow> infer_fn res" where
  "infer_of p = (case p of None \<Rightarrow> Inl AttributeError | Some name \<Rightarrow> get_infer_layout name)"

section \<open>Schedule candidates\<close>

definition group_records :: "grec list \<Rightarrow> (gwkl \<times> grec list) list" where
  "group_records rs = foldl (\<lambda>d r. AList.update (gr_wkl r) (case map_of d (gr_wkl r) of None \<Rightarrow> [r] | Some xs \<Rightarrow> xs @ [r]) d) [] rs"

text \<open>Of the schedules with the same layouts only the fastest is kept, in the place of the first.\<close>

definition track_layout :: "(grec \<Rightarrow> layouts) \<Rightarrow> (layouts \<times> grec) list \<Rightarrow> grec \<Rightarrow> (layouts \<times> grec) list" where
  "track_layout lay d r =
     (case map_of d (lay r) of
        Some q \<Rightarrow> if gr_cost r < gr_cost q then AList.update (lay r) r d else d
      | None \<Rightarrow> AList.update (lay r) r d)"

definition select_candidates :: "int \<Rightarrow> (grec \<Rightarrow> layouts) \<Rightarrow> grec list \<Rightarrow> grec list" where
  "select_candidates max_sch lay rs = take (nat max_sch) (sort_key gr_cost (map snd (foldl (track_layout lay) [] rs)))"

text \<open>The body of the loop of \<open>_fetch_cfg\<close> over the keys; the state is the node list and the cache.\<close>

definition fetch_one :: "gt_env \<Rightarrow> (gwkl \<times> grec list) list \<Rightarrow> tnode list \<times> (gwkl \<times> grec list) list \<Rightarrow> nat \<Rightarrow> (tnode list \<times> (gwkl \<times> grec list) list) res" where
  "fetch_one env cfg_dict = (\<lambda>(nodes, cache) key.
     res_bind (entry_at nodes key) (\<lambda>t.
       if \<not> is_target (ge_targets env) (gnode_of t) then Inr (nodes, cache)
       else res_bind (key_of (tn_wkls t)) (\<lambda>ws. res_bind (py_get ws 0) (\<lambda>w. res_bind (key_of w) (\<lambda>wkl.
            case map_of cache wkl of
              Some rs \<Rightarrow> Inr (nodes[key := t\<lparr>tn_cands := Some rs\<rparr>], cache)
            | None \<Rightarrow>
                res_bind (key_of (tn_topi t)) (\<lambda>ops. res_bind (py_get ops 0) (\<lambda>p. res_bind (infer_of p) (\<lambda>f.
                res_bind (dget (map_of cfg_dict) wkl) (\<lambda>rs.
                  let cands = select_candidates (ge_max_sch env) (\<lambda>r. ge_infer env f (gr_wkl r) (gr_cfg r)) rs
                  in Inr (nodes[key := t\<lparr>tn_cands := Some cands\<rparr>], AList.update wkl cands cache))))))))))"

definition fetch_cfg :: "gt_env \<Rightarrow> (nat \<times> nat list) list \<Rightarrow> grec list \<Rightarrow> tnode list \<Rightarrow> tnode list res" where
  "fetch_cfg env in_nodes records nodes =
     res_bind (res_foldl (fetch_one env (group_records records)) (nodes, []) (map fst in_nodes)) (\<lambda>(nodes', _). Inr nodes')"

section \<open>Nodes with several inputs\<close>

text \<open>The last loop of \<open>__init__\<close>: such a node takes the operators and workloads of its inputs, with its own shape, and the candidates of the first.\<close>

definition add_workload :: "gt_env \<Rightarrow> tnode list \<Rightarrow> tnode \<Rightarrow> nat \<Rightarrow> tnode res" where
  "add_workload env nodes t i =
     res_bind (entry_at nodes i) (\<lambda>t_in.
     res_bind (key_of (tn_topi t)) (\<lambda>ops. res_bind (key_of (tn_wkls t)) (\<lambda>ws.
       if is_boundary env t_in then Inr (t\<lparr>tn_topi := Some (ops @ [None]), tn_wkls := Some (ws @ [None])\<rparr>)
       else res_bind (key_of (tn_topi t_in)) (\<lambda>in_ops. res_bind (py_get in_ops 0) (\<lambda>p.
            res_bind (key_of (tn_wkls t_in)) (\<lambda>in_ws. res_bind (py_get in_ws 0) (\<lambda>w.
              case w of
                None \<Rightarrow> Inl TypeErr
              | Some wkl \<Rightarrow>
                  let t' = t\<lparr>tn_topi := Some (ops @ [p]), tn_wkls := Some (ws @ [Some (wkl\<lparr>gw_shape := tn_shape t\<rparr>)])\<rparr>
                  in case tn_cands t of
                       Some _ \<Rightarrow> Inr t'
                     | None \<Rightarrow> res_bind (key_of (tn_cands t_in)) (\<lambda>rs. Inr (t'\<lparr>tn_cands := Some rs\<rparr>)))))))))"

definition setup_multi :: "gt_env \<Rightarrow> (nat \<times> nat list) list \<Rightarrow> tnode list \<Rightarrow> tnode list res" where
  "setup_multi env in_nodes nodes =
     res_foldl (\<lambda>nodes key.
       res_bind (has_multi env nodes key) (\<lambda>multi.
         if \<not> multi then Inr nodes
         else res_bind (entry_at nodes key) (\<lambda>t.
              res_bind (res_foldl (add_workload env nodes) (t\<lparr>tn_topi := Some [], tn_wkls := Some []\<rparr>) (the (map_of in_nodes key))) (\<lambda>t'.
                Inr (nodes[key := t']))))) nodes (sort (map fst in_nodes))"

text \<open>The constructor from the traversal of the graph on: the node list, the inputs and the outputs of the nodes in the table.\<close>

definition gt_init :: "gt_env \<Rightarrow> nat set \<Rightarrow> grec list \<Rightarrow> tnode list \<Rightarrow> (tnode list \<times> (nat \<times> nat list) list \<times> (nat \<times> nat list) list) res" where
  "gt_init env skipped records nodes =
     res_bind (get_in_nodes (ge_limit env) (map gnode_of nodes) skipped (ge_targets env) (ge_names env)) (\<lambda>in_nodes.
       if in_nodes = [] then Inl RuntimeError
       else res_bind (fetch_cfg env in_nodes records nodes) (\<lambda>nodes1. res_bind (setup_multi env in_nodes nodes1) (\<lambda>nodes2.
              Inr (nodes2, in_nodes, get_out_nodes in_nodes))))"

section \<open>Layout transformations\<close>

record ltf =
  lt_shape :: "int list"
  lt_dtype :: string
  lt_in :: string
  lt_out :: string

text \<open>A call of the callback: the two nodes, the two schedules and the transformation.\<close>

type_synonym ltf_call = "nat \<times> nat \<times> nat \<times> nat \<times> ltf"

definition single_info :: "layouts \<Rightarrow> layouts \<Rightarrow> bool" where
  "single_info a c \<longleftrightarrow> length (fst a) \<le> 1 \<and> length (snd a) \<le> 1 \<and> length (fst c) \<le> 1 \<and> length (snd c) \<le> 1"

definition pair_call :: "gt_env \<Rightarrow> bool \<Rightarrow> infer_fn \<times> gwkl \<Rightarrow> infer_fn \<times> gwkl \<Rightarrow> grec \<Rightarrow> grec \<Rightarrow> ltf res" where
  "pair_call env target i_fn o_fn i_rec o_rec =
     (let i_info = ge_infer env (fst i_fn) (snd i_fn) (gr_cfg i_rec); o_info = ge_infer env (fst o_fn) (snd o_fn) (gr_cfg o_rec)
      in if \<not> single_info i_info o_info then Inl RuntimeError
         else res_bind (py_get (snd i_info) 0) (\<lambda>(in_shape, in_layout).
              res_bind (py_get (if target then fst o_info else snd o_info) 0) (\<lambda>(_, out_layout).
                Inr \<lparr>lt_shape = in_shape, lt_dtype = ge_dtype env, lt_in = in_layout, lt_out = out_layout\<rparr>)))"

text \<open>The operator and workload of an input whose first entries may stand for a boundary: the first pair with a workload.\<close>

fun first_workload :: "string option list \<Rightarrow> gwkl option list \<Rightarrow> (string option \<times> gwkl) res" where
  "first_workload (p # ops) (Some w # ws) = Inr (p, w)"
| "first_workload (p # ops) (None # ws) = first_workload ops ws"
| "first_workload ops ws = Inl IndexError"

definition wkl_of :: "gwkl option \<Rightarrow> gwkl res" where
  "wkl_of w = (case w of None \<Rightarrow> Inl TypeErr | Some wkl \<Rightarrow> Inr wkl)"

text \<open>
  What the transformation from one input to a node is between: the node that stands for the other end, and the function and workload at both ends. \<open>None\<close> skips the input.
  In a node with several inputs all later ones are transformed to the first that is no boundary.
\<close>

definition target_ends :: "nat \<Rightarrow> string option list \<Rightarrow> gwkl option list \<Rightarrow> tnode \<Rightarrow> (int \<times> (infer_fn \<times> gwkl) \<times> infer_fn \<times> gwkl) res" where
  "target_ends key ops ws t_in =
     res_bind (py_get ops 0) (\<lambda>p. res_bind (infer_of p) (\<lambda>o_fn. res_bind (py_get ws 0) (\<lambda>w.
     res_bind (key_of (tn_topi t_in)) (\<lambda>in_ops. res_bind (key_of (tn_wkls t_in)) (\<lambda>in_ws.
     res_bind (first_workload in_ops in_ws) (\<lambda>(q, i_wkl). res_bind (infer_of q) (\<lambda>i_fn. res_bind (wkl_of w) (\<lambda>o_wkl.
       Inr (int key, (i_fn, i_wkl), o_fn, o_wkl)))))))))"

definition multi_ends :: "int \<times> int \<Rightarrow> nat \<Rightarrow> string option list \<Rightarrow> gwkl option list \<Rightarrow> (int \<times> (infer_fn \<times> gwkl) \<times> infer_fn \<times> gwkl) res" where
  "multi_ends target_input pos ops ws =
     res_bind (py_get ops 0) (\<lambda>p. res_bind (infer_of p) (\<lambda>o_fn. res_bind (py_get ws (snd target_input)) (\<lambda>w.
     res_bind (py_get ops (int pos)) (\<lambda>q. res_bind (infer_of q) (\<lambda>i_fn. res_bind (py_get ws (int pos)) (\<lambda>v.
     res_bind (wkl_of v) (\<lambda>i_wkl. res_bind (wkl_of w) (\<lambda>o_wkl.
       Inr (fst target_input, (i_fn, i_wkl), o_fn, o_wkl)))))))))"

definition ends_of :: "gt_env \<Rightarrow> nat \<Rightarrow> tnode \<Rightarrow> int \<times> int \<Rightarrow> nat \<Rightarrow> tnode \<Rightarrow> (int \<times> (infer_fn \<times> gwkl) \<times> infer_fn \<times> gwkl) option res" where
  "ends_of env key t target_input pos t_in =
     res_bind (key_of (tn_topi t)) (\<lambda>ops. res_bind (key_of (tn_wkls t)) (\<lambda>ws.
       if is_target (ge_targets env) (gnode_of t) then res_bind (target_ends key ops ws t_in) (\<lambda>e. Inr (Some e))
       else if int pos \<le> snd target_input then Inr None
       else res_bind (multi_ends target_input pos ops ws) (\<lambda>e. Inr (Some e))))"

definition pair_calls :: "gt_env \<Rightarrow> bool \<Rightarrow> nat \<Rightarrow> nat \<Rightarrow> infer_fn \<times> gwkl \<Rightarrow> infer_fn \<times> gwkl \<Rightarrow> grec list \<Rightarrow> grec list \<Rightarrow> ltf_call list res" where
  "pair_calls env target i_idx o_idx i_fn o_fn i_recs o_recs =
     res_map (\<lambda>(m, n). res_bind (pair_call env target i_fn o_fn (i_recs ! m) (o_recs ! n)) (\<lambda>l. Inr (i_idx, o_idx, m, n, l)))
       (List.product [0..<length i_recs] [0..<length o_recs])"

definition iterate_input ::
  "gt_env \<Rightarrow> tnode list \<Rightarrow> nat \<Rightarrow> tnode \<Rightarrow> int \<times> int \<Rightarrow> (int \<times> int) list \<times> ltf_call list \<Rightarrow> nat \<times> nat \<Rightarrow> ((int \<times> int) list \<times> ltf_call list) res" where
  "iterate_input env nodes key t target_input = (\<lambda>(pairs, calls) (pos, i_idx).
     res_bind (entry_at nodes i_idx) (\<lambda>t_in.
       if is_boundary env t_in then Inr (pairs, calls)
       else res_bind (ends_of env key t target_input pos t_in) (\<lambda>e.
            case e of
              None \<Rightarrow> Inr (pairs, calls)
            | Some (o_idx, i_fn, o_fn) \<Rightarrow>
                if (int i_idx, o_idx) \<in> set pairs then Inr (pairs, calls)
                else res_bind (key_of (tn_cands t_in)) (\<lambda>i_recs. res_bind (key_of (tn_cands t)) (\<lambda>o_recs.
                     res_bind (pair_calls env (is_target (ge_targets env) (gnode_of t)) i_idx (nat o_idx) i_fn o_fn i_recs o_recs) (\<lambda>cs.
                       Inr (pairs @ [(int i_idx, o_idx)], calls @ cs)))))))"

text \<open>The first input of a node that is no boundary, and its position; \<open>-1\<close> without one or for a node with one input.\<close>

fun first_inner :: "gt_env \<Rightarrow> tnode list \<Rightarrow> (nat \<times> nat) list \<Rightarrow> (int \<times> int) res" where
  "first_inner env nodes [] = Inr (- 1, - 1)"
| "first_inner env nodes ((pos, i) # xs) =
     res_bind (entry_at nodes i) (\<lambda>t. if is_boundary env t then first_inner env nodes xs else Inr (int i, int pos))"

definition target_input_of :: "gt_env \<Rightarrow> tnode list \<Rightarrow> nat \<Rightarrow> nat list \<Rightarrow> (int \<times> int) res" where
  "target_input_of env nodes key val =
     res_bind (has_multi env nodes key) (\<lambda>multi.
       if \<not> multi then Inr (- 1, - 1)
       else first_inner env nodes (enumerate 0 val))"

definition iterate_layout_transform :: "gt_env \<Rightarrow> tnode list \<Rightarrow> (nat \<times> nat list) list \<Rightarrow> ltf_call list res" where
  "iterate_layout_transform env nodes in_nodes =
     res_bind (res_foldl (\<lambda>st (key, val).
         res_bind (entry_at nodes key) (\<lambda>t. res_bind (target_input_of env nodes key val) (\<lambda>target_input.
           res_foldl (iterate_input env nodes key t target_input) st (enumerate 0 val)))) ([], []) in_nodes) (\<lambda>(_, calls). Inr calls)"

section \<open>Matrices\<close>

definition create_matrix_callback :: "(ltf \<rightharpoonup> rat) \<Rightarrow> (nat \<times> nat \<rightharpoonup> rat list list) \<Rightarrow> ltf_call \<Rightarrow> (nat \<times> nat \<rightharpoonup> rat list list) res" where
  "create_matrix_callback perf cost = (\<lambda>(i_idx, o_idx, m, n, l).
     res_bind (if lt_in l = lt_out l then Inr 0 else dget perf l) (\<lambda>t.
       let mat = (case cost (i_idx, o_idx) of None \<Rightarrow> [] | Some xs \<Rightarrow> xs);
           mat' = (if length mat \<le> m then mat @ [[]] else mat)
       in if m < length mat' then Inr (cost((i_idx, o_idx) \<mapsto> mat'[m := mat' ! m @ [t]])) else Inl IndexError))"

text \<open>
  \<open>benchmark_layout_transform\<close>: times from given records, then, for every transformation without one, an estimate from the average time per element or a measurement, whose time is
  \<open>None\<close> when it failed. \<open>out_size\<close> is the number of elements of the transformed tensor. \<open>rpc\<close> is the device key when measurements go to a remote device; the key itself may be missing.
  The tables of times and of matrices are kept in the tuner; both are empty before the first call.
\<close>

definition perf_of_records :: "(ltf \<rightharpoonup> rat) \<Rightarrow> (ltf \<times> rat) list \<Rightarrow> (ltf \<rightharpoonup> rat)" where
  "perf_of_records perf rs = foldl (\<lambda>p (l, t). p(l \<mapsto> t)) perf rs"

definition avg_time :: "(ltf \<times> rat) list \<Rightarrow> rat" where
  "avg_time rs = (let flops = foldl (\<lambda>n (l, t). wrap64 (n + np_prod (lt_shape l))) 0 rs in if flops > 0 then sum_list (map snd rs) / of_int flops else 0)"

definition time_transform :: "bool \<Rightarrow> (ltf \<Rightarrow> int) \<Rightarrow> (ltf \<Rightarrow> rat option) \<Rightarrow> rat \<Rightarrow> (ltf \<rightharpoonup> rat) \<Rightarrow> ltf \<Rightarrow> (ltf \<rightharpoonup> rat)" where
  "time_transform infer out_size timer avg perf l =
     (if perf l \<noteq> None then perf
      else perf(l \<mapsto> if infer then (if prod_list (lt_shape l) \<noteq> out_size l then INVALID_LAYOUT_TIME else of_int (prod_list (lt_shape l)) * avg)
                    else (case timer l of None \<Rightarrow> INVALID_LAYOUT_TIME | Some t \<Rightarrow> t)))"

definition benchmark_layout_transform ::
  "gt_env \<Rightarrow> tnode list \<Rightarrow> (nat \<times> nat list) list \<Rightarrow> (ltf \<rightharpoonup> rat) \<times> (nat \<times> nat \<rightharpoonup> rat list list) \<Rightarrow> (ltf \<times> rat) list option \<Rightarrow> bool \<Rightarrow> string option option \<Rightarrow> (ltf \<Rightarrow> int) \<Rightarrow> (ltf \<Rightarrow> rat option)
   \<Rightarrow> ((ltf \<rightharpoonup> rat) \<times> (nat \<times> nat \<rightharpoonup> rat list list)) res" where
  "benchmark_layout_transform env nodes in_nodes tables records infer rpc out_size timer =
     (if records = None \<and> infer then Inl RuntimeError
      else res_bind (iterate_layout_transform env nodes in_nodes) (\<lambda>calls.
           if rpc = Some None then Inl RuntimeError
           else let rs = (case records of None \<Rightarrow> [] | Some xs \<Rightarrow> xs);
               todo = filter (\<lambda>l. lt_in l \<noteq> lt_out l) (map (\<lambda>(_, _, _, _, l). l) calls);
               perf = foldl (time_transform infer out_size timer (avg_time rs)) (perf_of_records (fst tables) rs) todo
           in res_bind (res_foldl (create_matrix_callback perf) (snd tables) calls) (\<lambda>cost. Inr (perf, cost))))"

section \<open>Results\<close>

definition get_optimal_records :: "gt_env \<Rightarrow> tnode list \<Rightarrow> (nat \<times> nat) list \<Rightarrow> grec list res" where
  "get_optimal_records env nodes optimal =
     res_foldl (\<lambda>ret i.
       res_bind (entry_at nodes i) (\<lambda>t.
         if \<not> is_target (ge_targets env) (gnode_of t) then Inr ret
         else res_bind (key_of (tn_cands t)) (\<lambda>rs. res_bind (py_get rs (int (the (map_of optimal i)))) (\<lambda>r. Inr (ret @ [r]))))) [] (sort (map fst optimal))"

definition write_opt_sch2record_file :: "(grec \<Rightarrow> string) \<Rightarrow> gt_env \<Rightarrow> tnode list \<Rightarrow> (nat \<times> nat) list \<Rightarrow> string \<Rightarrow> string res" where
  "write_opt_sch2record_file enc env nodes optimal file =
     res_bind (get_optimal_records env nodes optimal) (\<lambda>rs. Inr (file @ concat (map (\<lambda>r. enc r @ [CHR 0x0A]) rs)))"

end
