(* ===== verification/GraphTunerCorrect.thy ===== *)
theory GraphTunerCorrect
  imports GraphTuner GraphTraverseCorrect
begin

text \<open>
  The preparation of a graph tuner: the schedule candidates of an operator are its fastest records, one per pair of layouts, and the matrices of layout transformations have an
  entry for every two candidates of neighbouring operators.
\<close>

section \<open>Schedule candidates\<close>

lemma group_records_map: "map_of (group_records rs) w = (if w \<in> gr_wkl ` set rs then Some (filter (\<lambda>r. gr_wkl r = w) rs) else None)"
proof (induction rs rule: rev_induct)
  case (snoc r rs)
  have "group_records (rs @ [r]) = AList.update (gr_wkl r) (case map_of (group_records rs) (gr_wkl r) of None \<Rightarrow> [r] | Some xs \<Rightarrow> xs @ [r]) (group_records rs)"
    by (simp add: group_records_def)
  moreover have "filter (\<lambda>q. gr_wkl q = gr_wkl r) rs = []" if "gr_wkl r \<notin> gr_wkl ` set rs" using that by (auto simp: filter_empty_conv image_iff)
  ultimately show ?case using snoc by (auto simp: update_conv')
qed (simp add: group_records_def)

text \<open>The table of layouts after some records: for each layout that occurred a fastest record with it.\<close>

definition tracked :: "(grec \<Rightarrow> layouts) \<Rightarrow> grec list \<Rightarrow> (layouts \<times> grec) list \<Rightarrow> bool" where
  "tracked lay rs d \<longleftrightarrow> distinct (map fst d) \<and> fst ` set d = lay ` set rs
     \<and> (\<forall>(l, q)\<in>set d. q \<in> set rs \<and> lay q = l \<and> (\<forall>r\<in>set rs. lay r = l \<longrightarrow> gr_cost q \<le> gr_cost r))"

lemma trackedD:
  assumes "tracked lay rs d"
  shows "distinct (map fst d)" "fst ` set d = lay ` set rs" "(l, q) \<in> set d \<Longrightarrow> q \<in> set rs" "(l, q) \<in> set d \<Longrightarrow> lay q = l"
    "(l, q) \<in> set d \<Longrightarrow> r \<in> set rs \<Longrightarrow> lay r = l \<Longrightarrow> gr_cost q \<le> gr_cost r"
  using assms unfolding tracked_def by blast+

lemma tracked_update:
  assumes "tracked lay rs d" and "\<And>q. map_of d (lay r) = Some q \<Longrightarrow> gr_cost r < gr_cost q"
  shows "tracked lay (rs @ [r]) (AList.update (lay r) r d)"
proof -
  have dist: "distinct (map fst (AList.update (lay r) r d))" using assms(1) by (simp add: tracked_def distinct_update)
  have keys: "fst ` set (AList.update (lay r) r d) = insert (lay r) (fst ` set d)" by (auto simp: update_keys simp flip: set_map)
  have mem: "(l, q) \<in> set (AList.update (lay r) r d) \<longleftrightarrow> (if l = lay r then q = r else (l, q) \<in> set d)" for l q

  proof -
    have d: "distinct (map fst d)" using assms(1) by (simp add: tracked_def)
    show ?thesis unfolding map_of_eq_Some_iff [OF dist, symmetric] map_of_eq_Some_iff [OF d, symmetric] update_conv' by auto
  qed
  have "q \<in> set (rs @ [r]) \<and> lay q = l \<and> (\<forall>x\<in>set (rs @ [r]). lay x = l \<longrightarrow> gr_cost q \<le> gr_cost x)" if q: "(l, q) \<in> set (AList.update (lay r) r d)" for l q
  proof (cases "l = lay r")
    case True
    have "gr_cost r \<le> gr_cost x" if x: "x \<in> set rs" "lay x = lay r" for x
    proof -
      have "lay r \<in> fst ` set d" unfolding trackedD(2) [OF assms(1)] using x by (metis image_eqI)
      then obtain p where p: "(lay r, p) \<in> set d" by force
      then have "map_of d (lay r) = Some p" using trackedD(1) [OF assms(1)] by (rule map_of_is_SomeI [rotated])
      moreover have "gr_cost p \<le> gr_cost x" using trackedD(5) [OF assms(1) p x] .
      ultimately show ?thesis using assms(2) by force
    qed
    then show ?thesis using q True by (auto simp: mem)
  next
    case False
    then show ?thesis using q assms(1) by (force simp: mem tracked_def)
  qed
  then show ?thesis using dist keys assms(1) by (auto simp: tracked_def)
qed

lemma track_layout_ok: "tracked lay rs d \<Longrightarrow> tracked lay (rs @ [r]) (track_layout lay d r)"
proof -
  assume d: "tracked lay rs d"
  show ?thesis
  proof (cases "map_of d (lay r)")
    case None
    then show ?thesis using tracked_update [OF d, of r] by (simp add: track_layout_def)
  next
    case (Some q)
    show ?thesis
    proof (cases "gr_cost r < gr_cost q")
      case True
      then show ?thesis using tracked_update [OF d, of r] Some by (simp add: track_layout_def)
    next
      case False
      have q: "(lay r, q) \<in> set d" using Some by (rule map_of_SomeD)
      have "lay r \<in> lay ` set rs" using trackedD(2) [OF d] q by force
      moreover have "x = q" if "(lay r, x) \<in> set d" for x
      proof -
        have "map_of d (lay r) = Some x" using trackedD(1) [OF d] that by (rule map_of_is_SomeI)
        then show ?thesis using Some by simp
      qed
      ultimately have "tracked lay (rs @ [r]) d" using d False by (force simp: tracked_def)
      then show ?thesis using Some False by (simp add: track_layout_def)
    qed
  qed
qed

lemma tracked_all: "tracked lay rs (foldl (track_layout lay) [] rs)"
proof (induction rs rule: rev_induct)
  case Nil
  then show ?case by (simp add: tracked_def)
next
  case (snoc r rs)
  then show ?case using track_layout_ok by simp
qed

text \<open>The candidates of one workload, as a specification.\<close>

definition fastest_layouts :: "int \<Rightarrow> (grec \<Rightarrow> layouts) \<Rightarrow> grec list \<Rightarrow> grec list \<Rightarrow> bool" where
  "fastest_layouts max_sch lay rs cs \<longleftrightarrow> sorted (map gr_cost cs) \<and> distinct (map lay cs) \<and> set cs \<subseteq> set rs \<and> length cs = min (nat max_sch) (card (lay ` set rs))
     \<and> (\<forall>c\<in>set cs. \<forall>r\<in>set rs. lay r = lay c \<or> lay r \<notin> lay ` set cs \<longrightarrow> gr_cost c \<le> gr_cost r)"

lemma select_candidates_fastest: "fastest_layouts max_sch lay rs (select_candidates max_sch lay rs)"
proof -
  define d where "d = foldl (track_layout lay) [] rs"
  have d: "tracked lay rs d" unfolding d_def by (rule tracked_all)
  let ?all = "sort_key gr_cost (map snd d)" and ?n = "nat max_sch"
  have lay: "map lay (map snd d) = map fst d" using d by (auto simp: tracked_def)
  have dist: "distinct (map lay ?all)"
  proof -
    have "distinct (map lay (map snd d))" unfolding lay using d by (simp add: tracked_def)
    moreover have "mset (map lay ?all) = mset (map lay (map snd d))" by (simp add: image_mset.compositionality)
    ultimately show ?thesis by (metis mset_eq_imp_distinct_iff)
  qed
  have set_all: "set ?all = snd ` set d" by simp
  have len: "length ?all = card (lay ` set rs)"
  proof -
    have "card (set (map fst d)) = length d" using d by (simp add: tracked_def distinct_card del: set_map)
    then show ?thesis using d by (simp add: tracked_def)
  qed
  have best: "gr_cost c \<le> gr_cost r" if "c \<in> set ?all" "r \<in> set rs" "lay r = lay c" for c r using that d by (force simp: tracked_def)
  have later: "gr_cost c \<le> gr_cost r" if c: "c \<in> set (take ?n ?all)" and r: "r \<in> set rs" "lay r \<notin> lay ` set (take ?n ?all)" for c r
  proof -
    have "lay r \<in> fst ` set d" using d r by (auto simp: tracked_def)
    then obtain q where in_d: "(lay r, q) \<in> set d" by force
    have q: "q \<in> set ?all" "lay q = lay r"
    proof -
      show "q \<in> set ?all" unfolding set_all using in_d by force
      show "lay q = lay r" using d in_d unfolding tracked_def by blast
    qed
    then have "q \<in> set (drop ?n ?all)" using r(2) by (metis append_take_drop_id image_eqI set_append Un_iff)
    moreover have "sorted (map gr_cost (take ?n ?all @ drop ?n ?all))" by simp
    ultimately have "gr_cost c \<le> gr_cost q" using c unfolding map_append sorted_append by auto
    then show ?thesis using best [OF q(1) r(1)] q(2) by simp
  qed
  have "sorted (map gr_cost (take ?n ?all))" unfolding take_map [symmetric] by (intro sorted_wrt_take) simp
  moreover have "distinct (map lay (take ?n ?all))" using dist by (simp add: take_map [symmetric] distinct_take)
  moreover have "set (take ?n ?all) \<subseteq> set rs" using set_take_subset [of ?n ?all] d by (force simp: tracked_def)
  moreover have "gr_cost c \<le> gr_cost r" if "c \<in> set (take ?n ?all)" "r \<in> set rs" "lay r = lay c" for c r using best that in_set_takeD by fast
  ultimately show ?thesis unfolding fastest_layouts_def select_candidates_def d_def [symmetric] using later len by auto
qed

text \<open>A node whose first workload is \<open>w\<close>, with the operator that the workload is named after.\<close>

definition tuned :: "gt_env \<Rightarrow> tnode \<Rightarrow> gwkl \<Rightarrow> bool" where
  "tuned env t w \<longleftrightarrow> is_target (ge_targets env) (gnode_of t) \<and> tn_wkls t = Some [Some w] \<and> tn_topi t = Some [Some (gw_name w)]"

definition layouts_of :: "gt_env \<Rightarrow> gwkl \<Rightarrow> grec \<Rightarrow> layouts" where
  "layouts_of env w r = ge_infer env (projr (get_infer_layout (gw_name w))) w (gr_cfg r)"

definition candidates_ok :: "gt_env \<Rightarrow> grec list \<Rightarrow> gwkl \<Rightarrow> grec list \<Rightarrow> bool" where
  "candidates_ok env records w cs \<longleftrightarrow> fastest_layouts (ge_max_sch env) (layouts_of env w) (filter (\<lambda>r. gr_wkl r = w) records) cs"

lemma select_candidates_cong: "(\<And>r. r \<in> set rs \<Longrightarrow> lay r = lay' r) \<Longrightarrow> select_candidates n lay rs = select_candidates n lay' rs"
proof -
  assume eq: "\<And>r. r \<in> set rs \<Longrightarrow> lay r = lay' r"
  have "foldl (track_layout lay) d rs = foldl (track_layout lay') d rs" for d
    using eq by (induction rs arbitrary: d) (auto simp: track_layout_def split: option.split)
  then show ?thesis by (simp add: select_candidates_def)
qed

lemma is_target_cands [simp]: "is_target ts (gnode_of (t\<lparr>tn_cands := c\<rparr>)) = is_target ts (gnode_of t)"
  by (simp add: is_target_def gnode_of_def)

lemma fetch_one_ok:
  assumes w: "tuned env (nodes ! key) w" and key: "key < length nodes" and f: "get_infer_layout (gw_name w) = Inr f" and recs: "w \<in> gr_wkl ` set records"
    and cache: "\<forall>v cs. map_of cache v = Some cs \<longrightarrow> candidates_ok env records v cs"
  shows "\<exists>cs cache'. fetch_one env (group_records records) (nodes, cache) key = Inr (nodes[key := (nodes ! key)\<lparr>tn_cands := Some cs\<rparr>], cache')
    \<and> candidates_ok env records w cs \<and> (\<forall>v cs. map_of cache' v = Some cs \<longrightarrow> candidates_ok env records v cs)"
proof (cases "map_of cache w")
  case (Some cs)
  then show ?thesis using w key cache by (auto simp: fetch_one_def entry_at_def tuned_def key_of_def py_get_def)
next
  case None
  let ?rs = "filter (\<lambda>r. gr_wkl r = w) records"
  let ?cs = "select_candidates (ge_max_sch env) (\<lambda>r. ge_infer env f (gr_wkl r) (gr_cfg r)) ?rs"
  have cs: "?cs = select_candidates (ge_max_sch env) (layouts_of env w) ?rs" using f by (intro select_candidates_cong) (auto simp: layouts_of_def)
  have ok: "candidates_ok env records w ?cs" unfolding cs candidates_ok_def by (rule select_candidates_fastest)
  have "fetch_one env (group_records records) (nodes, cache) key = Inr (nodes[key := (nodes ! key)\<lparr>tn_cands := Some ?cs\<rparr>], AList.update w ?cs cache)"
    using w key f recs None by (simp add: fetch_one_def entry_at_def tuned_def key_of_def py_get_def infer_of_def dget_def group_records_map Let_def)
  then show ?thesis using ok cache by (auto simp: update_conv')
qed

lemma fetch_cfg_good:
  assumes keys: "distinct (map fst in_nodes)" "\<forall>k\<in>set (map fst in_nodes). k < length nodes"
    and tuned: "\<forall>k\<in>set (map fst in_nodes). is_target (ge_targets env) (gnode_of (nodes ! k)) \<longrightarrow>
      (\<exists>w f. tuned env (nodes ! k) w \<and> get_infer_layout (gw_name w) = Inr f \<and> w \<in> gr_wkl ` set records)"
  shows "\<exists>nodes'. fetch_cfg env in_nodes records nodes = Inr nodes' \<and> length nodes' = length nodes
    \<and> (\<forall>k < length nodes. if k \<in> set (map fst in_nodes) \<and> is_target (ge_targets env) (gnode_of (nodes ! k))
         then \<exists>cs w. nodes' ! k = (nodes ! k)\<lparr>tn_cands := Some cs\<rparr> \<and> tuned env (nodes ! k) w
                \<and> candidates_ok env records w cs
         else nodes' ! k = nodes ! k)"
proof -
  define good where "good ks ns \<longleftrightarrow> length ns = length nodes \<and> (\<forall>k < length nodes.
      if k \<in> set ks \<and> is_target (ge_targets env) (gnode_of (nodes ! k))
      then \<exists>cs w. ns ! k = (nodes ! k)\<lparr>tn_cands := Some cs\<rparr> \<and> tuned env (nodes ! k) w \<and> candidates_ok env records w cs else ns ! k = nodes ! k)" for ks ns
  have "\<exists>ns cache. res_foldl (fetch_one env (group_records records)) (nodes, []) ks = Inr (ns, cache) \<and> good ks ns
      \<and> (\<forall>v cs. map_of cache v = Some cs \<longrightarrow> candidates_ok env records v cs)" if "set ks \<subseteq> set (map fst in_nodes)" "distinct ks" for ks
    using that
  proof (induction ks rule: rev_induct)
    case Nil
    then show ?case by (simp add: good_def)
  next
    case (snoc key ks)
    then obtain ns cache where ns: "res_foldl (fetch_one env (group_records records)) (nodes, []) ks = Inr (ns, cache)" "good ks ns"
      "\<forall>v cs. map_of cache v = Some cs \<longrightarrow> candidates_ok env records v cs" by auto
    have key: "key < length nodes" "key < length ns" "ns ! key = nodes ! key" using snoc.prems keys(2) ns(2) by (auto simp: good_def)
    show ?case
    proof (cases "is_target (ge_targets env) (gnode_of (nodes ! key))")
      case True
      then obtain w f where w: "tuned env (nodes ! key) w" "get_infer_layout (gw_name w) = Inr f" "w \<in> gr_wkl ` set records" using tuned snoc.prems(1) by auto
      obtain cs cache' where r: "fetch_one env (group_records records) (ns, cache) key = Inr (ns[key := (nodes ! key)\<lparr>tn_cands := Some cs\<rparr>], cache')"
        "candidates_ok env records w cs" "\<forall>v cs. map_of cache' v = Some cs \<longrightarrow> candidates_ok env records v cs"
        using fetch_one_ok [of env ns key w f records cache] w key(2,3) ns(3) by auto
      have "good (ks @ [key]) (ns[key := (nodes ! key)\<lparr>tn_cands := Some cs\<rparr>])"
        using ns(2) w(1) r(2) key True by (auto simp: good_def nth_list_update)
      then show ?thesis using ns(1) r(1,3) by (simp add: res_foldl_append)
    next
      case False
      then have "fetch_one env (group_records records) (ns, cache) key = Inr (ns, cache)" using key by (simp add: fetch_one_def entry_at_def)
      moreover have "good (ks @ [key]) ns" using ns(2) False by (auto simp: good_def)
      ultimately show ?thesis using ns(1,3) by (simp add: res_foldl_append)
    qed
  qed
  from this [of "map fst in_nodes"] obtain ns cache where "res_foldl (fetch_one env (group_records records)) (nodes, []) (map fst in_nodes) = Inr (ns, cache)"
    "good (map fst in_nodes) ns" using keys(1) by auto
  moreover from this have "fetch_cfg env in_nodes records nodes = Inr ns" by (simp add: fetch_cfg_def)
  ultimately show ?thesis unfolding good_def by blast
qed

lemma tuned_cands [simp]: "tuned env (t\<lparr>tn_cands := c\<rparr>) w = tuned env t w"
  by (simp add: tuned_def)

section \<open>Layout transformations\<close>

text \<open>
  A graph of tuned operators: the inputs of every key are boundary nodes or tuned operators with candidates, and the functions of the operator library name one layout on each side.
\<close>

definition wkl_at :: "tnode list \<Rightarrow> nat \<Rightarrow> gwkl" where
  "wkl_at nodes i = the (hd (the (tn_wkls (nodes ! i))))"

definition cands_at :: "tnode list \<Rightarrow> nat \<Rightarrow> grec list" where
  "cands_at nodes i = the (tn_cands (nodes ! i))"

definition operator :: "gt_env \<Rightarrow> tnode list \<Rightarrow> nat \<Rightarrow> bool" where
  "operator env nodes i \<longleftrightarrow> i < length nodes \<and> tuned env (nodes ! i) (wkl_at nodes i) \<and> \<not> isl (get_infer_layout (gw_name (wkl_at nodes i)))
     \<and> (\<exists>r rs. tn_cands (nodes ! i) = Some (r # rs))"

definition op_graph :: "gt_env \<Rightarrow> tnode list \<Rightarrow> (nat \<times> nat list) list \<Rightarrow> bool" where
  "op_graph env nodes in_nodes \<longleftrightarrow> topo (map gnode_of nodes) \<and> length nodes \<le> ge_limit env \<and> distinct (map fst in_nodes)
     \<and> (\<forall>(k, val)\<in>set in_nodes. operator env nodes k \<and> distinct val \<and> (\<forall>i\<in>set val. i < length nodes \<and> (is_boundary env (nodes ! i) \<or> operator env nodes i)))
     \<and> (\<forall>f w c. \<exists>x y. ge_infer env f w c = ([x], [y]))"

text \<open>The transformation between two records of neighbours: from the layout that one gives to the layout that the other takes.\<close>

definition conversion :: "string \<Rightarrow> layouts \<Rightarrow> layouts \<Rightarrow> ltf" where
  "conversion dtype src dst = \<lparr>lt_shape = fst (hd (snd src)), lt_dtype = dtype, lt_in = snd (hd (snd src)), lt_out = snd (hd (fst dst))\<rparr>"

definition link :: "gt_env \<Rightarrow> tnode list \<Rightarrow> nat \<Rightarrow> nat \<Rightarrow> nat \<Rightarrow> nat \<Rightarrow> ltf" where
  "link env nodes i k m n =
     conversion (ge_dtype env) (layouts_of env (wkl_at nodes i) (cands_at nodes i ! m)) (layouts_of env (wkl_at nodes k) (cands_at nodes k ! n))"

definition block :: "gt_env \<Rightarrow> tnode list \<Rightarrow> nat \<times> nat \<Rightarrow> ltf_call list" where
  "block env nodes = (\<lambda>(i, k). map (\<lambda>(m, n). (i, k, m, n, link env nodes i k m n)) (List.product [0..<length (cands_at nodes i)] [0..<length (cands_at nodes k)]))"

definition inner_inputs :: "gt_env \<Rightarrow> tnode list \<Rightarrow> nat list \<Rightarrow> nat list" where
  "inner_inputs env nodes val = filter (\<lambda>i. \<not> is_boundary env (nodes ! i)) val"

definition edges :: "gt_env \<Rightarrow> tnode list \<Rightarrow> (nat \<times> nat list) list \<Rightarrow> (nat \<times> nat) list" where
  "edges env nodes in_nodes = concat (map (\<lambda>(k, val). map (\<lambda>i. (i, k)) (inner_inputs env nodes val)) in_nodes)"

lemma operatorD:
  assumes "operator env nodes i"
  shows "i < length nodes" "is_target (ge_targets env) (gnode_of (nodes ! i))" "tn_wkls (nodes ! i) = Some [Some (wkl_at nodes i)]"
    "tn_topi (nodes ! i) = Some [Some (gw_name (wkl_at nodes i))]" "tn_cands (nodes ! i) = Some (cands_at nodes i)" "cands_at nodes i \<noteq> []"
    "get_infer_layout (gw_name (wkl_at nodes i)) = Inr (projr (get_infer_layout (gw_name (wkl_at nodes i))))"
  using assms by (auto simp: operator_def tuned_def cands_at_def)

lemma pair_calls_block:
  assumes ops: "operator env nodes i" "operator env nodes k" and single: "\<forall>f w c. \<exists>x y. ge_infer env f w c = ([x], [y])"
  shows "pair_calls env True i k (projr (get_infer_layout (gw_name (wkl_at nodes i))), wkl_at nodes i) (projr (get_infer_layout (gw_name (wkl_at nodes k))), wkl_at nodes k)
    (cands_at nodes i) (cands_at nodes k) = Inr (block env nodes (i, k))"
proof -
  let ?fi = "projr (get_infer_layout (gw_name (wkl_at nodes i)))" and ?fk = "projr (get_infer_layout (gw_name (wkl_at nodes k)))"
  have "pair_call env True (?fi, wkl_at nodes i) (?fk, wkl_at nodes k) (cands_at nodes i ! m) (cands_at nodes k ! n) = Inr (link env nodes i k m n)" for m n
  proof -
    obtain x y where a: "ge_infer env ?fi (wkl_at nodes i) (gr_cfg (cands_at nodes i ! m)) = ([x], [y])" using single by blast
    obtain u v where c: "ge_infer env ?fk (wkl_at nodes k) (gr_cfg (cands_at nodes k ! n)) = ([u], [v])" using single by blast
    show ?thesis by (simp add: pair_call_def link_def conversion_def layouts_of_def a c single_info_def py_get_def split: prod.split)
  qed
  then show ?thesis unfolding pair_calls_def block_def prod.case by (intro res_map_total) auto
qed

lemma iterate_inner:
  assumes single: "\<forall>f w c. \<exists>x y. ge_infer env f w c = ([x], [y])" and key: "operator env nodes key"
  shows "\<forall>q\<in>set xs. snd q < length nodes \<and> (is_boundary env (nodes ! snd q) \<or> operator env nodes (snd q)) \<Longrightarrow> distinct (map snd xs) \<Longrightarrow>
    \<forall>q\<in>set xs. (int (snd q), int key) \<notin> set pairs \<Longrightarrow>
    res_foldl (iterate_input env nodes key (nodes ! key) ti) (pairs, calls) xs
      = Inr (pairs @ map (\<lambda>i. (int i, int key)) (inner_inputs env nodes (map snd xs)), calls @ concat (map (\<lambda>i. block env nodes (i, key)) (inner_inputs env nodes (map snd xs))))"
proof (induction xs arbitrary: pairs calls)
  case Nil
  then show ?case by (simp add: inner_inputs_def)
next
  case (Cons q xs)
  obtain pos i where q: "q = (pos, i)" by fastforce
  note k = operatorD [OF key]
  show ?case
  proof (cases "is_boundary env (nodes ! i)")
    case True
    then show ?thesis using Cons by (simp add: q iterate_input_def entry_at_def inner_inputs_def)
  next
    case False
    then have i: "operator env nodes i" using Cons.prems(1) by (simp add: q)
    note d = operatorD [OF i]
    let ?fi = "projr (get_infer_layout (gw_name (wkl_at nodes i)))" and ?fk = "projr (get_infer_layout (gw_name (wkl_at nodes key)))"
    have "ends_of env key (nodes ! key) ti pos (nodes ! i) = Inr (Some (int key, (?fi, wkl_at nodes i), ?fk, wkl_at nodes key))"

    proof -
      obtain fi fk where f: "get_infer_layout (gw_name (wkl_at nodes i)) = Inr fi" "get_infer_layout (gw_name (wkl_at nodes key)) = Inr fk" using d(7) k(7) by blast
      show ?thesis unfolding ends_of_def target_ends_def key_of_def d(3,4) k(3,4) f using k(2) by (simp add: py_get_def infer_of_def wkl_of_def f)
    qed
    then have "iterate_input env nodes key (nodes ! key) ti (pairs, calls) (pos, i) = Inr (pairs @ [(int i, int key)], calls @ block env nodes (i, key))"
      using False d(1,5) k(2,5) pair_calls_block [OF i key single] Cons.prems(3) by (simp add: iterate_input_def entry_at_def key_of_def q)
    moreover have "\<forall>q\<in>set xs. (int (snd q), int key) \<notin> set (pairs @ [(int i, int key)])" using Cons.prems(2,3) by (force simp: q)
    ultimately show ?thesis using Cons.IH [of "pairs @ [(int i, int key)]"] Cons.prems(1,2) False by (simp add: q inner_inputs_def)
  qed
qed

lemma first_inner_total: "\<forall>q\<in>set xs. snd q < length nodes \<Longrightarrow> \<exists>r. first_inner env nodes xs = Inr r"
  by (induction xs) (auto simp: entry_at_def)

lemma iterate_edges:
  assumes "op_graph env nodes in_nodes"
  shows "iterate_layout_transform env nodes in_nodes = Inr (concat (map (block env nodes) (edges env nodes in_nodes)))"
proof -
  have single: "\<forall>f w c. \<exists>x y. ge_infer env f w c = ([x], [y])" using assms by (simp add: op_graph_def)
  let ?step = "\<lambda>st (key, val). res_bind (entry_at nodes key) (\<lambda>t. res_bind (target_input_of env nodes key val) (\<lambda>target_input.
           res_foldl (iterate_input env nodes key t target_input) st (enumerate 0 val)))"
  have "res_foldl ?step (pairs, calls) ins = Inr (pairs @ map (\<lambda>(i, k). (int i, int k)) (edges env nodes ins), calls @ concat (map (block env nodes) (edges env nodes ins)))"
    if "set ins \<subseteq> set in_nodes" "distinct (map fst ins)" "\<forall>(k, val)\<in>set ins. \<forall>i. (i, int k) \<notin> set pairs" for ins pairs calls
    using that
  proof (induction ins arbitrary: pairs calls)
    case Nil
    then show ?case by (simp add: edges_def)
  next
    case (Cons q ins)
    obtain k val where q: "q = (k, val)" by fastforce
    have "(k, val) \<in> set in_nodes" using Cons.prems(1) by (simp add: q)
    then have op: "operator env nodes k" and dist: "distinct val" and val: "\<forall>i\<in>set val. i < length nodes \<and> (is_boundary env (nodes ! i) \<or> operator env nodes i)"
      using assms unfolding op_graph_def by auto
    have "has_multi env nodes k = Inr (multi (map gnode_of nodes) (ge_names env) k)"
      unfolding has_multi_def using assms operatorD(1) [OF op] by (intro has_multiple_inputs_total) (auto simp: op_graph_def)
    moreover have "\<exists>r. first_inner env nodes (enumerate 0 val) = Inr r" using val by (intro first_inner_total) (auto simp: in_set_enumerate_eq)
    ultimately obtain ti where ti: "target_input_of env nodes k val = Inr ti" by (cases "multi (map gnode_of nodes) (ge_names env) k") (auto simp: target_input_of_def)
    let ?new = "map (\<lambda>i. (int i, int k)) (inner_inputs env nodes val)" and ?calls = "concat (map (\<lambda>i. block env nodes (i, k)) (inner_inputs env nodes val))"
    have vals: "\<forall>q\<in>set (enumerate 0 val). snd q < length nodes \<and> (is_boundary env (nodes ! snd q) \<or> operator env nodes (snd q))"
      using val by (auto simp: in_set_enumerate_eq)
    have "\<forall>q\<in>set (enumerate 0 val). (int (snd q), int k) \<notin> set pairs" using Cons.prems(3) by (auto simp: q)
    from iterate_inner [OF single op vals _ this, of ti calls] have inner:
      "res_foldl (iterate_input env nodes k (nodes ! k) ti) (pairs, calls) (enumerate 0 val) = Inr (pairs @ ?new, calls @ ?calls)" using dist by simp
    have "\<forall>(k', val')\<in>set ins. \<forall>i. (i, int k') \<notin> set (pairs @ ?new)" using Cons.prems(2,3) by (force simp: q)
    from Cons.IH [OF _ _ this, of "calls @ ?calls"] have
      "res_foldl ?step (pairs @ ?new, calls @ ?calls) ins = Inr ((pairs @ ?new) @ map (\<lambda>(i, k). (int i, int k)) (edges env nodes ins), (calls @ ?calls) @ concat (map (block env nodes) (edges env nodes ins)))"
      using Cons.prems(1,2) by auto
    moreover have "map (\<lambda>(i, k). (int i, int k)) (edges env nodes (q # ins)) = ?new @ map (\<lambda>(i, k). (int i, int k)) (edges env nodes ins)"
      "concat (map (block env nodes) (edges env nodes (q # ins))) = ?calls @ concat (map (block env nodes) (edges env nodes ins))"
      by (simp_all add: edges_def q comp_def)
    ultimately show ?case using ti inner operatorD(1) [OF op] by (simp add: q entry_at_def)
  qed
  from this [of in_nodes "[]" "[]"] show ?thesis using assms by (simp add: iterate_layout_transform_def op_graph_def)
qed

section \<open>Matrices\<close>

definition link_time :: "(ltf \<rightharpoonup> rat) \<Rightarrow> ltf \<Rightarrow> rat" where
  "link_time perf l = (if lt_in l = lt_out l then 0 else the (perf l))"

lemma create_matrix_row:
  assumes "\<forall>n < N. lt_in (l n) = lt_out (l n) \<or> perf (l n) \<noteq> None" and "0 < N"
    and "(case cost (i, k) of None \<Rightarrow> [] | Some xs \<Rightarrow> xs) = mat" and "length mat = m"
  shows "res_foldl (create_matrix_callback perf) cost (map (\<lambda>n. (i, k, m, n, l n)) [0..<N]) = Inr (cost((i, k) \<mapsto> mat @ [map (\<lambda>n. link_time perf (l n)) [0..<N]]))"
  using assms(1,2)
proof (induction N)
  case (Suc N)
  have t: "(if lt_in (l N) = lt_out (l N) then Inr 0 else dget perf (l N)) = Inr (link_time perf (l N))"
    using Suc.prems(1) by (auto simp: dget_def link_time_def split: option.split)
  show ?case
  proof (cases "N = 0")
    case True
    have "create_matrix_callback perf cost (i, k, m, 0, l 0) = Inr (cost((i, k) \<mapsto> mat @ [[link_time perf (l 0)]]))"
      unfolding create_matrix_callback_def prod.case t [unfolded True] res_bind.simps using assms(3,4) by (simp add: Let_def nth_append list_update_append)
    then show ?thesis using True by (simp add: fun_upd_def)
  next
    case False
    let ?cost = "cost((i, k) \<mapsto> mat @ [map (\<lambda>n. link_time perf (l n)) [0..<N]])"
    have "create_matrix_callback perf ?cost (i, k, m, N, l N) = Inr (cost((i, k) \<mapsto> mat @ [map (\<lambda>n. link_time perf (l n)) [0..<Suc N]]))"
      unfolding create_matrix_callback_def prod.case t res_bind.simps using assms(4) by (simp add: Let_def nth_append list_update_append)
    then show ?thesis using Suc.IH False Suc.prems(1) by (simp add: res_foldl_append fun_upd_def)
  qed
qed simp

lemma create_matrix_block:
  assumes "\<forall>m < M. \<forall>n < N. lt_in (l m n) = lt_out (l m n) \<or> perf (l m n) \<noteq> None" and "0 < N" and "cost (i, k) = None"
  shows "res_foldl (create_matrix_callback perf) cost (map (\<lambda>(m, n). (i, k, m, n, l m n)) (List.product [0..<M] [0..<N]))
    = Inr (if M = 0 then cost else cost((i, k) \<mapsto> map (\<lambda>m. map (\<lambda>n. link_time perf (l m n)) [0..<N]) [0..<M]))"
  using assms(1)
proof (induction M)
  case (Suc M)
  let ?mat = "map (\<lambda>m. map (\<lambda>n. link_time perf (l m n)) [0..<N]) [0..<M]"
  let ?cost = "if M = 0 then cost else cost((i, k) \<mapsto> ?mat)"
  have "List.product [0..<Suc M] [0..<N] = List.product [0..<M] [0..<N] @ map (\<lambda>n. (M, n)) [0..<N]" by (simp add: product_concat_map)
  then have split: "map (\<lambda>(m, n). (i, k, m, n, l m n)) (List.product [0..<Suc M] [0..<N])
      = map (\<lambda>(m, n). (i, k, m, n, l m n)) (List.product [0..<M] [0..<N]) @ map (\<lambda>n. (i, k, M, n, l M n)) [0..<N]" by (simp add: comp_def)
  have "res_foldl (create_matrix_callback perf) ?cost (map (\<lambda>n. (i, k, M, n, l M n)) [0..<N]) = Inr (?cost((i, k) \<mapsto> ?mat @ [map (\<lambda>n. link_time perf (l M n)) [0..<N]]))"
    using Suc.prems assms(2,3) by (intro create_matrix_row) (auto split: option.split)
  moreover have "?cost((i, k) \<mapsto> x) = cost((i, k) \<mapsto> x)" for x by (simp add: fun_eq_iff)
  ultimately show ?case unfolding split res_foldl_append using Suc.IH Suc.prems by (simp add: fun_upd_def)
qed simp

lemma create_matrices:
  assumes "distinct es" and "\<forall>(i, k)\<in>set es. cands_at nodes i \<noteq> [] \<and> cands_at nodes k \<noteq> []" and "\<forall>(i, k)\<in>set es. cost (i, k) = None"
    and "\<forall>(i, k)\<in>set es. \<forall>m < length (cands_at nodes i). \<forall>n < length (cands_at nodes k).
      lt_in (link env nodes i k m n) = lt_out (link env nodes i k m n) \<or> perf (link env nodes i k m n) \<noteq> None"
  shows "res_foldl (create_matrix_callback perf) cost (concat (map (block env nodes) es)) = Inr (\<lambda>(i, k). if (i, k) \<in> set es
    then Some (map (\<lambda>m. map (\<lambda>n. link_time perf (link env nodes i k m n)) [0..<length (cands_at nodes k)]) [0..<length (cands_at nodes i)]) else cost (i, k))"
  using assms
proof (induction es arbitrary: cost)
  case Nil
  then show ?case by (simp add: fun_eq_iff)
next
  case (Cons e es)
  obtain i k where e: "e = (i, k)" by fastforce
  let ?mat = "map (\<lambda>m. map (\<lambda>n. link_time perf (link env nodes i k m n)) [0..<length (cands_at nodes k)]) [0..<length (cands_at nodes i)]"
  let ?cost = "cost((i, k) \<mapsto> ?mat)"
  have one: "res_foldl (create_matrix_callback perf) cost (block env nodes (i, k)) = Inr ?cost"
    unfolding block_def prod.case using create_matrix_block [of "length (cands_at nodes i)" "length (cands_at nodes k)" "link env nodes i k" perf cost i k] Cons.prems(2,3,4)
    by (simp add: e)
  have "\<forall>(i', k')\<in>set es. ?cost (i', k') = None" using Cons.prems(1,3) by (auto simp: e)
  then have ih: "res_foldl (create_matrix_callback perf) ?cost (concat (map (block env nodes) es)) = Inr (\<lambda>(i', k'). if (i', k') \<in> set es
      then Some (map (\<lambda>m. map (\<lambda>n. link_time perf (link env nodes i' k' m n)) [0..<length (cands_at nodes k')]) [0..<length (cands_at nodes i')]) else ?cost (i', k'))"
    using Cons.prems(1,2,4) by (intro Cons.IH) auto
  have "res_foldl (create_matrix_callback perf) cost (concat (map (block env nodes) (e # es))) = Inr (\<lambda>(i', k'). if (i', k') \<in> set es
    then Some (map (\<lambda>m. map (\<lambda>n. link_time perf (link env nodes i' k' m n)) [0..<length (cands_at nodes k')]) [0..<length (cands_at nodes i')]) else ?cost (i', k'))"
    unfolding e list.map concat.simps res_foldl_append one res_bind.simps by (rule ih)
  then show ?case by (auto simp: e fun_eq_iff)
qed

text \<open>The time of one transformation: the last record of it; without one an estimate from the average time per element, or a measurement.\<close>

definition transform_time :: "(ltf \<times> rat) list \<Rightarrow> bool \<Rightarrow> (ltf \<Rightarrow> int) \<Rightarrow> (ltf \<Rightarrow> rat option) \<Rightarrow> ltf \<Rightarrow> rat" where
  "transform_time rs infer out_size timer l =
     (if lt_in l = lt_out l then 0
      else case map_of (rev rs) l of
        Some t \<Rightarrow> t
      | None \<Rightarrow> if \<not> infer then (case timer l of None \<Rightarrow> INVALID_LAYOUT_TIME | Some t \<Rightarrow> t)
                else if prod_list (lt_shape l) = out_size l then of_int (prod_list (lt_shape l)) * avg_time rs else INVALID_LAYOUT_TIME)"

lemma perf_of_records_last: "perf_of_records Map.empty rs = map_of (rev rs)"
proof -
  have "perf_of_records perf rs = perf ++ map_of (rev rs)" for perf
    by (induction rs arbitrary: perf) (auto simp: perf_of_records_def map_add_def fun_eq_iff split: option.split)
  then show ?thesis by simp
qed

lemma time_transform_known: "perf l = Some t \<Longrightarrow> foldl (time_transform infer out_size timer avg) perf ls l = Some t"
proof (induction ls arbitrary: perf)
  case (Cons x ls)
  have "time_transform infer out_size timer avg perf x l = Some t" using Cons.prems by (auto simp: time_transform_def)
  then show ?case using Cons.IH by simp
qed simp

lemma time_transform_all:
  assumes "l \<in> set ls" and "lt_in l \<noteq> lt_out l"
  shows "foldl (time_transform infer out_size timer (avg_time rs)) (map_of (rev rs)) ls l = Some (transform_time rs infer out_size timer l)"
proof (cases "map_of (rev rs) l")
  case None
  have "perf l = None \<Longrightarrow> foldl (time_transform infer out_size timer (avg_time rs)) perf ls l = Some (transform_time rs infer out_size timer l)" for perf
    using assms(1)
  proof (induction ls arbitrary: perf)
    case (Cons x ls)
    show ?case
    proof (cases "x = l")
      case True
      then have "time_transform infer out_size timer (avg_time rs) perf x l = Some (transform_time rs infer out_size timer l)"
        using Cons.prems None assms(2) by (auto simp: time_transform_def transform_time_def)
      then show ?thesis by (simp add: time_transform_known)
    next
      case False
      then have "time_transform infer out_size timer (avg_time rs) perf x l = None" using Cons.prems by (auto simp: time_transform_def)
      then show ?thesis using Cons.IH Cons.prems False by simp
    qed
  qed simp
  then show ?thesis using None by blast
qed (simp add: time_transform_known transform_time_def assms)

lemma edges_mem: "(i, k) \<in> set (edges env nodes in_nodes) \<longleftrightarrow> (\<exists>val. (k, val) \<in> set in_nodes \<and> i \<in> set val \<and> \<not> is_boundary env (nodes ! i))"
  by (auto simp: edges_def inner_inputs_def)

lemma edges_distinct:
  assumes "distinct (map fst in_nodes)" and "\<forall>(k, val)\<in>set in_nodes. distinct val"
  shows "distinct (edges env nodes in_nodes)"
  using assms
proof (induction in_nodes)
  case (Cons q ins)
  obtain k val where q: "q = (k, val)" by fastforce
  have "distinct (map (\<lambda>i. (i, k)) (inner_inputs env nodes val))" using Cons.prems(2) by (simp add: q inner_inputs_def distinct_map inj_on_def)
  moreover have "(i, k) \<notin> set (edges env nodes ins)" for i using Cons.prems(1) by (force simp: edges_mem q)
  moreover have "edges env nodes (q # ins) = map (\<lambda>i. (i, k)) (inner_inputs env nodes val) @ edges env nodes ins" by (simp add: edges_def q)
  ultimately show ?case using Cons by auto
qed (simp add: edges_def)

lemma benchmark_edges:
  assumes graph: "op_graph env nodes in_nodes" and recs: "\<not> (records = None \<and> infer)" "rpc \<noteq> Some None"
  shows "\<exists>perf cost. benchmark_layout_transform env nodes in_nodes (Map.empty, Map.empty) records infer rpc out_size timer = Inr (perf, cost)
    \<and> (\<forall>i k. (i, k) \<in> set (edges env nodes in_nodes) \<longrightarrow>
         (\<exists>mat. cost (i, k) = Some mat \<and> length mat = length (cands_at nodes i) \<and> (\<forall>row\<in>set mat. length row = length (cands_at nodes k))
            \<and> (\<forall>m < length (cands_at nodes i). \<forall>n < length (cands_at nodes k).
                 mat ! m ! n = transform_time (case records of None \<Rightarrow> [] | Some xs \<Rightarrow> xs) infer out_size timer (link env nodes i k m n))))"
proof -
  let ?es = "edges env nodes in_nodes"
  let ?calls = "concat (map (block env nodes) ?es)"
  define rs where "rs = (case records of None \<Rightarrow> [] | Some xs \<Rightarrow> xs)"
  define perf where "perf = foldl (time_transform infer out_size timer (avg_time rs)) (perf_of_records Map.empty rs) (filter (\<lambda>l. lt_in l \<noteq> lt_out l) (map (\<lambda>(_, _, _, _, l). l) ?calls))"
  have ops: "operator env nodes i \<and> operator env nodes k" if "(i, k) \<in> set ?es" for i k
    using that graph unfolding edges_mem op_graph_def by fast
  have nonempty: "cands_at nodes i \<noteq> [] \<and> cands_at nodes k \<noteq> []" if "(i, k) \<in> set ?es" for i k using ops [OF that] operatorD(6) by blast
  have perf: "perf (link env nodes i k m n) = Some (transform_time rs infer out_size timer (link env nodes i k m n))"
    if e: "(i, k) \<in> set ?es" "m < length (cands_at nodes i)" "n < length (cands_at nodes k)" "lt_in (link env nodes i k m n) \<noteq> lt_out (link env nodes i k m n)" for i k m n
  proof -
    have "(i, k, m, n, link env nodes i k m n) \<in> set (block env nodes (i, k))" using e(2,3) by (auto simp: block_def image_iff)
    then have "(i, k, m, n, link env nodes i k m n) \<in> set ?calls" using e(1) by force
    then have "link env nodes i k m n \<in> set (filter (\<lambda>l. lt_in l \<noteq> lt_out l) (map (\<lambda>(_, _, _, _, l). l) ?calls))" using e(4) by force
    then show ?thesis unfolding perf_def perf_of_records_last using e(4) by (rule time_transform_all)
  qed
  have cover: "lt_in (link env nodes i k m n) = lt_out (link env nodes i k m n) \<or> perf (link env nodes i k m n) \<noteq> None"
    if e: "(i, k) \<in> set ?es" "m < length (cands_at nodes i)" "n < length (cands_at nodes k)" for i k m n using perf [OF e] by auto
  have time: "link_time perf (link env nodes i k m n) = transform_time rs infer out_size timer (link env nodes i k m n)"
    if e: "(i, k) \<in> set ?es" "m < length (cands_at nodes i)" "n < length (cands_at nodes k)" for i k m n
    using perf [OF e] by (simp add: link_time_def transform_time_def)
  define cost where "cost = (\<lambda>(i, k). if (i, k) \<in> set ?es
    then Some (map (\<lambda>m. map (\<lambda>n. link_time perf (link env nodes i k m n)) [0..<length (cands_at nodes k)]) [0..<length (cands_at nodes i)]) else None)"
  have "distinct ?es" using graph by (intro edges_distinct) (auto simp: op_graph_def)
  then have "res_foldl (create_matrix_callback perf) Map.empty ?calls = Inr cost"
    unfolding cost_def using cover nonempty by (subst create_matrices [where perf = perf]) (auto simp: fun_eq_iff)
  then have run: "benchmark_layout_transform env nodes in_nodes (Map.empty, Map.empty) records infer rpc out_size timer = Inr (perf, cost)"
    using recs iterate_edges [OF graph] by (auto simp: benchmark_layout_transform_def perf_def rs_def Let_def)
  have "\<exists>mat. cost (i, k) = Some mat \<and> length mat = length (cands_at nodes i) \<and> (\<forall>row\<in>set mat. length row = length (cands_at nodes k))
            \<and> (\<forall>m < length (cands_at nodes i). \<forall>n < length (cands_at nodes k).
                 mat ! m ! n = transform_time rs infer out_size timer (link env nodes i k m n))"
    if "(i, k) \<in> set ?es" for i k
    using that time [OF that] by (auto simp: cost_def)
  then show ?thesis using run unfolding rs_def by blast
qed

section \<open>An example\<close>

text \<open>Two convolutions with the same workload; a schedule with an even number keeps the layout, one with an odd number packs its output.\<close>

definition ex_wkl :: gwkl where
  "ex_wkl = \<lparr>gw_name = ''conv2d_NCHWc.x86'', gw_shape = [1, 8], gw_dtype = ''float32'', gw_rest = []\<rparr>"

definition ex_gt_env :: gt_env where
  "ex_gt_env = \<lparr>ge_infer = (\<lambda>f w c. ([(gw_shape w, ''NCHW'')], [(gw_shape w, if even c then ''NCHW'' else ''NCHW8c'')])), ge_names = [''data''],
     ge_targets = [''nn.conv2d''], ge_max_sch = 20, ge_dtype = ''float32'', ge_limit = 3\<rparr>"

definition ex_records :: "grec list" where
  "ex_records = [\<lparr>gr_wkl = ex_wkl, gr_cfg = 0, gr_cost = 3\<rparr>, \<lparr>gr_wkl = ex_wkl, gr_cfg = 1, gr_cost = 2\<rparr>, \<lparr>gr_wkl = ex_wkl, gr_cfg = 2, gr_cost = 1\<rparr>]"

definition ex_tnodes :: "grec list option \<Rightarrow> tnode list" where
  "ex_tnodes cs =
     [\<lparr>tn_op = None, tn_name = Some ''data'', tn_inputs = [], tn_shape = [1, 8], tn_topi = None, tn_wkls = None, tn_cands = None\<rparr>,
      \<lparr>tn_op = Some ''nn.conv2d'', tn_name = None, tn_inputs = [0], tn_shape = [1, 8], tn_topi = Some [Some ''conv2d_NCHWc.x86''], tn_wkls = Some [Some ex_wkl], tn_cands = cs\<rparr>,
      \<lparr>tn_op = Some ''nn.conv2d'', tn_name = None, tn_inputs = [1], tn_shape = [1, 8], tn_topi = Some [Some ''conv2d_NCHWc.x86''], tn_wkls = Some [Some ex_wkl], tn_cands = cs\<rparr>]"

definition ex_in_nodes :: "(nat \<times> nat list) list" where
  "ex_in_nodes = [(1, [0]), (2, [1])]"

lemma ex_infer: "get_infer_layout (gw_name ex_wkl) = Inr Conv2dInfer"
  by code_simp

lemma ex_tuned: "k \<in> {1, 2} \<Longrightarrow> tuned ex_gt_env (ex_tnodes cs ! k) ex_wkl"
  by (auto simp: tuned_def ex_tnodes_def ex_gt_env_def ex_wkl_def is_target_def gnode_of_def)

lemma ex_op_graph: "op_graph ex_gt_env (ex_tnodes (Some (tl ex_records))) ex_in_nodes"
proof -
  let ?nodes = "ex_tnodes (Some (tl ex_records))"
  have w: "wkl_at ?nodes k = ex_wkl" if "k \<in> {1, 2}" for k using that by (auto simp: wkl_at_def ex_tnodes_def)
  have "operator ex_gt_env ?nodes k" if "k \<in> {1, 2}" for k
    unfolding operator_def w [OF that] ex_infer using ex_tuned [OF that] that by (auto simp: ex_tnodes_def ex_records_def)
  moreover have "topo (map gnode_of ?nodes)" by (auto simp: topo_def ex_tnodes_def gnode_of_def less_Suc_eq numeral_eq_Suc)
  moreover have "is_boundary ex_gt_env (?nodes ! 0)" by (simp add: is_boundary_def is_boundary_node_def ex_gt_env_def ex_tnodes_def gnode_of_def)
  moreover have "length ?nodes = 3" by (simp add: ex_tnodes_def)
  ultimately show ?thesis by (auto simp: op_graph_def ex_in_nodes_def ex_gt_env_def)
qed

section \<open>The properties\<close>

text \<open>
  C34. The schedule candidates: when the records contain every tuned workload, \<open>_fetch_cfg\<close> gives each tuned node at most \<open>max_sch_num\<close> records of its workload, in ascending order of their times and with
  different layouts; none of them is slower than another record with the same layouts or with layouts that are not among them; and only nodes of the table change.
\<close>

theorem fetch_cfg_candidates:
  assumes keys: "distinct (map fst in_nodes)" "\<forall>k\<in>set (map fst in_nodes). k < length nodes"
    and tuned: "\<forall>k\<in>set (map fst in_nodes). is_target (ge_targets env) (gnode_of (nodes ! k)) \<longrightarrow>
      (\<exists>w f. tuned env (nodes ! k) w \<and> get_infer_layout (gw_name w) = Inr f \<and> w \<in> gr_wkl ` set records)"
  shows "\<exists>nodes'. fetch_cfg env in_nodes records nodes = Inr nodes' \<and> length nodes' = length nodes
    \<and> (\<forall>k < length nodes. if k \<in> set (map fst in_nodes) \<and> is_target (ge_targets env) (gnode_of (nodes ! k))
         then \<exists>cs w. nodes' ! k = (nodes ! k)\<lparr>tn_cands := Some cs\<rparr> \<and> tuned env (nodes ! k) w
                \<and> fastest_layouts (ge_max_sch env) (layouts_of env w) (filter (\<lambda>r. gr_wkl r = w) records) cs
         else nodes' ! k = nodes ! k)"
  using fetch_cfg_good [OF assms] unfolding candidates_ok_def .

theorem fetch_cfg_candidates_witness:
  "\<exists>nodes'. fetch_cfg ex_gt_env ex_in_nodes ex_records (ex_tnodes None) = Inr nodes' \<and> length nodes' = length (ex_tnodes None)
    \<and> (\<forall>k < length (ex_tnodes None). if k \<in> set (map fst ex_in_nodes) \<and> is_target (ge_targets ex_gt_env) (gnode_of (ex_tnodes None ! k))
         then \<exists>cs w. nodes' ! k = (ex_tnodes None ! k)\<lparr>tn_cands := Some cs\<rparr> \<and> tuned ex_gt_env (ex_tnodes None ! k) w
                \<and> fastest_layouts (ge_max_sch ex_gt_env) (layouts_of ex_gt_env w) (filter (\<lambda>r. gr_wkl r = w) ex_records) cs
         else nodes' ! k = ex_tnodes None ! k)"
proof (rule fetch_cfg_candidates)
  show "distinct (map fst ex_in_nodes)" "\<forall>k\<in>set (map fst ex_in_nodes). k < length (ex_tnodes None)" by (simp_all add: ex_in_nodes_def ex_tnodes_def)
  have "ex_wkl \<in> gr_wkl ` set ex_records" by (simp add: ex_records_def)
  then show "\<forall>k\<in>set (map fst ex_in_nodes). is_target (ge_targets ex_gt_env) (gnode_of (ex_tnodes None ! k)) \<longrightarrow>
      (\<exists>w f. tuned ex_gt_env (ex_tnodes None ! k) w \<and> get_infer_layout (gw_name w) = Inr f \<and> w \<in> gr_wkl ` set ex_records)"
    using ex_tuned [of _ None] ex_infer by (auto simp: ex_in_nodes_def)
qed

text \<open>
  C35. In a graph of tuned operators, \<open>benchmark_layout_transform\<close> returns a matrix for every operator and every input of it that is no boundary: a row for each candidate of the input, an entry
  in it for each candidate of the operator, which is 0 when the first gives the layout that the second takes; otherwise it is the last time recorded for this transformation, and without one the estimate from the average time per element (an
  invalid transformation counts as \<open>INVALID_LAYOUT_TIME\<close>) or the measured time.
\<close>

theorem benchmark_matrices:
  assumes graph: "op_graph env nodes in_nodes" and recs: "\<not> (records = None \<and> infer)" "rpc \<noteq> Some None"
  shows "\<exists>perf cost. benchmark_layout_transform env nodes in_nodes (Map.empty, Map.empty) records infer rpc out_size timer = Inr (perf, cost)
    \<and> (\<forall>(k, val)\<in>set in_nodes. \<forall>i\<in>set val. \<not> is_boundary env (nodes ! i) \<longrightarrow>
         (\<exists>mat. cost (i, k) = Some mat \<and> length mat = length (cands_at nodes i) \<and> (\<forall>row\<in>set mat. length row = length (cands_at nodes k))
            \<and> (\<forall>m < length (cands_at nodes i). \<forall>n < length (cands_at nodes k).
                 mat ! m ! n = transform_time (case records of None \<Rightarrow> [] | Some xs \<Rightarrow> xs) infer out_size timer (link env nodes i k m n))))"
proof -
  have "(i, k) \<in> set (edges env nodes in_nodes)" if "(k, val) \<in> set in_nodes" "i \<in> set val" "\<not> is_boundary env (nodes ! i)" for i k val
    using that by (auto simp: edges_mem)
  then show ?thesis using benchmark_edges [OF assms, of out_size timer] by fast
qed

theorem benchmark_matrices_witness:
  "\<exists>perf cost. benchmark_layout_transform ex_gt_env (ex_tnodes (Some (tl ex_records))) ex_in_nodes (Map.empty, Map.empty) (Some []) False None (\<lambda>l. 8) (\<lambda>l. Some 7) = Inr (perf, cost)
    \<and> (\<forall>(k, val)\<in>set ex_in_nodes. \<forall>i\<in>set val. \<not> is_boundary ex_gt_env (ex_tnodes (Some (tl ex_records)) ! i) \<longrightarrow>
         (\<exists>mat. cost (i, k) = Some mat \<and> length mat = length (cands_at (ex_tnodes (Some (tl ex_records))) i)
            \<and> (\<forall>row\<in>set mat. length row = length (cands_at (ex_tnodes (Some (tl ex_records))) k))
            \<and> (\<forall>m < length (cands_at (ex_tnodes (Some (tl ex_records))) i). \<forall>n < length (cands_at (ex_tnodes (Some (tl ex_records))) k).
                 mat ! m ! n = transform_time (case Some [] of None \<Rightarrow> [] | Some xs \<Rightarrow> xs) False (\<lambda>l. 8) (\<lambda>l. Some 7) (link ex_gt_env (ex_tnodes (Some (tl ex_records))) i k m n))))"
  by (rule benchmark_matrices [OF ex_op_graph]) simp_all

end
