(* ===== verification/GraphTunerRun.thy ===== *)
theory GraphTunerRun
  imports DPTunerCorrect GraphTunerCorrect
begin

text \<open>
  The graph tuner from its records to its result: the constructor, \<open>benchmark_layout_transform\<close>, the dynamic programming of \<open>DPTuner.run\<close> and \<open>get_optimal_records\<close>, composed. On a chain of
  operators the records that come out have the least total time of all records that went in.
\<close>

section \<open>The tuner object\<close>

text \<open>What \<open>DPTuner.__init__\<close> hands to every stage, once the matrices are made.\<close>

definition dp_tuner :: "gt_env \<Rightarrow> tnode list \<Rightarrow> (nat \<times> nat list) list \<Rightarrow> (nat \<times> nat list) list \<Rightarrow> (nat \<times> nat \<rightharpoonup> rat list list) \<Rightarrow> dp_env" where
  "dp_tuner env nodes in_nodes out_nodes cost =
     \<lparr>de_nodes = map gnode_of nodes, de_names = ge_names env, de_targets = ge_targets env, de_ins = in_nodes, de_outs = out_nodes, de_cost = cost, de_limit = ge_limit env\<rparr>"

section \<open>Fetching candidates leaves the graph as it is\<close>

definition same_graph :: "tnode list \<Rightarrow> tnode list \<Rightarrow> bool" where
  "same_graph nodes nodes' \<longleftrightarrow> length nodes' = length nodes \<and> (\<forall>k < length nodes. \<exists>c. nodes' ! k = (nodes ! k)\<lparr>tn_cands := c\<rparr>)"

lemma same_graph_node:
  assumes "same_graph nodes nodes'" and "k < length nodes"
  shows "gn_op (gnode_of (nodes' ! k)) = gn_op (gnode_of (nodes ! k))" "gn_name (gnode_of (nodes' ! k)) = gn_name (gnode_of (nodes ! k))"
    "gn_inputs (gnode_of (nodes' ! k)) = gn_inputs (gnode_of (nodes ! k))" "tn_wkls (nodes' ! k) = tn_wkls (nodes ! k)"
    "is_boundary env (nodes' ! k) = is_boundary env (nodes ! k)" "is_target ts (gnode_of (nodes' ! k)) = is_target ts (gnode_of (nodes ! k))"
    "tuned env (nodes' ! k) w = tuned env (nodes ! k) w"
proof -
  obtain c where "nodes' ! k = (nodes ! k)\<lparr>tn_cands := c\<rparr>" using assms by (auto simp: same_graph_def)
  then show "gn_op (gnode_of (nodes' ! k)) = gn_op (gnode_of (nodes ! k))" "gn_name (gnode_of (nodes' ! k)) = gn_name (gnode_of (nodes ! k))"
    "gn_inputs (gnode_of (nodes' ! k)) = gn_inputs (gnode_of (nodes ! k))" "tn_wkls (nodes' ! k) = tn_wkls (nodes ! k)"
    "is_boundary env (nodes' ! k) = is_boundary env (nodes ! k)" "is_target ts (gnode_of (nodes' ! k)) = is_target ts (gnode_of (nodes ! k))"
    "tuned env (nodes' ! k) w = tuned env (nodes ! k) w"
    by (simp_all add: gnode_of_def is_boundary_def is_boundary_node_def is_target_def)
qed

lemma has_multiple_inputs_same:
  assumes "length gs' = length gs" and "\<forall>k < length gs. gn_op (gs' ! k) = gn_op (gs ! k) \<and> gn_name (gs' ! k) = gn_name (gs ! k) \<and> gn_inputs (gs' ! k) = gn_inputs (gs ! k)"
  shows "has_multiple_inputs fuel gs' i names opt_out = has_multiple_inputs fuel gs i names opt_out"
proof (induction fuel arbitrary: i)
  case (Suc fuel)
  show ?case using assms by (simp add: Suc.IH Let_def cong: if_cong)
qed simp

section \<open>A chain of operators\<close>

text \<open>
  Tuned operators \<open>cs\<close>, one behind the other and the first behind the boundary node \<open>b\<close>. The workload of each is among the records, and its schedules differ in no more pairs of layouts than
  there may be candidates.
\<close>

definition wkl_records :: "grec list \<Rightarrow> gwkl \<Rightarrow> grec list" where
  "wkl_records records w = filter (\<lambda>r. gr_wkl r = w) records"

definition chain_table :: "nat \<Rightarrow> nat list \<Rightarrow> (nat \<times> nat list) list" where
  "chain_table b cs = zip cs (map (\<lambda>x. [x]) (b # butlast cs))"

definition op_chain :: "gt_env \<Rightarrow> grec list \<Rightarrow> tnode list \<Rightarrow> nat \<Rightarrow> nat list \<Rightarrow> bool" where
  "op_chain env records nodes b cs \<longleftrightarrow> cs \<noteq> [] \<and> sorted_wrt (<) (b # cs) \<and> (\<forall>c\<in>set (b # cs). c < length nodes) \<and> is_boundary env (nodes ! b)
     \<and> topo (map gnode_of nodes) \<and> length nodes \<le> ge_limit env \<and> (\<forall>f w c. \<exists>x y. ge_infer env f w c = ([x], [y]))
     \<and> (\<forall>c\<in>set cs. \<not> is_boundary env (nodes ! c) \<and> has_multi env nodes c = Inr False \<and> tuned env (nodes ! c) (wkl_at nodes c)
          \<and> \<not> isl (get_infer_layout (gw_name (wkl_at nodes c))) \<and> wkl_records records (wkl_at nodes c) \<noteq> []
          \<and> card (layouts_of env (wkl_at nodes c) ` set (wkl_records records (wkl_at nodes c))) \<le> nat (ge_max_sch env))"

lemma op_chainD:
  assumes "op_chain env records nodes b cs"
  shows "cs \<noteq> []" "sorted_wrt (<) (b # cs)" "b < length nodes" "is_boundary env (nodes ! b)" "topo (map gnode_of nodes)" "length nodes \<le> ge_limit env"
    "\<forall>f w c. \<exists>x y. ge_infer env f w c = ([x], [y])" "distinct cs"
    "c \<in> set cs \<Longrightarrow> c < length nodes" "c \<in> set cs \<Longrightarrow> \<not> is_boundary env (nodes ! c)" "c \<in> set cs \<Longrightarrow> has_multi env nodes c = Inr False"
    "c \<in> set cs \<Longrightarrow> tuned env (nodes ! c) (wkl_at nodes c)" "c \<in> set cs \<Longrightarrow> \<not> isl (get_infer_layout (gw_name (wkl_at nodes c)))"
    "c \<in> set cs \<Longrightarrow> wkl_records records (wkl_at nodes c) \<noteq> []"
    "c \<in> set cs \<Longrightarrow> card (layouts_of env (wkl_at nodes c) ` set (wkl_records records (wkl_at nodes c))) \<le> nat (ge_max_sch env)"
  using assms unfolding op_chain_def strict_sorted_iff by auto

lemma chain_table_nth: "chain_table b cs = map (\<lambda>i. (cs ! i, [(b # cs) ! i])) [0..<length cs]"
proof (rule nth_equalityI)
  show len: "length (chain_table b cs) = length (map (\<lambda>i. (cs ! i, [(b # cs) ! i])) [0..<length cs])" by (simp add: chain_table_def)
  fix i assume "i < length (chain_table b cs)"
  then have i: "i < length cs" by (simp add: chain_table_def)
  then have "(b # butlast cs) ! i = (b # cs) ! i" by (cases i) (auto simp: nth_butlast)
  moreover have "chain_table b cs ! i = (cs ! i, [(b # butlast cs) ! i])"
    unfolding chain_table_def using i by (subst nth_zip) (auto simp del: list.map simp: nth_map)
  ultimately show "chain_table b cs ! i = map (\<lambda>i. (cs ! i, [(b # cs) ! i])) [0..<length cs] ! i" using i by simp
qed

lemma chain_table_keys: "map fst (chain_table b cs) = cs"
  by (simp add: chain_table_nth comp_def map_nth)

lemma chain_table_set: "set (chain_table b cs) = {(cs ! i, [(b # cs) ! i]) | i. i < length cs}"
  by (auto simp: chain_table_nth)

lemma tuned_wkl: "tuned env (nodes ! c) w \<Longrightarrow> wkl_at nodes c = w"
  by (simp add: tuned_def wkl_at_def)

lemma fetch_chain:
  assumes "op_chain env records nodes b cs"
  shows "\<exists>nodes'. fetch_cfg env (chain_table b cs) records nodes = Inr nodes' \<and> same_graph nodes nodes'
    \<and> (\<forall>c\<in>set cs. \<exists>rs. tn_cands (nodes' ! c) = Some rs \<and> candidates_ok env records (wkl_at nodes c) rs)"
proof -
  note ch = op_chainD [OF assms]
  note keys = chain_table_keys [of b cs]
  have "\<exists>w f. tuned env (nodes ! k) w \<and> get_infer_layout (gw_name w) = Inr f \<and> w \<in> gr_wkl ` set records" if k: "k \<in> set cs" for k
  proof -
    obtain f where "get_infer_layout (gw_name (wkl_at nodes k)) = Inr f" using ch(13) [OF k] by (cases "get_infer_layout (gw_name (wkl_at nodes k))") auto
    moreover have "wkl_at nodes k \<in> gr_wkl ` set records" using ch(14) [OF k] by (force simp: wkl_records_def filter_empty_conv)
    ultimately show ?thesis using ch(12) [OF k] by blast
  qed
  then obtain nodes' where n: "fetch_cfg env (chain_table b cs) records nodes = Inr nodes'" "length nodes' = length nodes"
    and each: "\<forall>k < length nodes. if k \<in> set cs \<and> is_target (ge_targets env) (gnode_of (nodes ! k))
         then \<exists>rs w. nodes' ! k = (nodes ! k)\<lparr>tn_cands := Some rs\<rparr> \<and> tuned env (nodes ! k) w \<and> candidates_ok env records w rs else nodes' ! k = nodes ! k"
    using fetch_cfg_good [of "chain_table b cs" nodes env records] ch(8,9) unfolding keys by blast
  have "\<exists>c. nodes' ! k = (nodes ! k)\<lparr>tn_cands := c\<rparr>" if "k < length nodes" for k
  proof (cases "k \<in> set cs \<and> is_target (ge_targets env) (gnode_of (nodes ! k))")
    case False
    then have "nodes' ! k = (nodes ! k)\<lparr>tn_cands := tn_cands (nodes ! k)\<rparr>" using each that by auto
    then show ?thesis by blast
  next
    case True
    then show ?thesis using each [rule_format, OF that] by auto
  qed
  then have "same_graph nodes nodes'" using n(2) by (simp add: same_graph_def)
  moreover have "\<exists>rs. tn_cands (nodes' ! c) = Some rs \<and> candidates_ok env records (wkl_at nodes c) rs" if c: "c \<in> set cs" for c
  proof -
    have "is_target (ge_targets env) (gnode_of (nodes ! c))" using ch(12) [OF c] by (simp add: tuned_def)
    then obtain rs w where "nodes' ! c = (nodes ! c)\<lparr>tn_cands := Some rs\<rparr>" "tuned env (nodes ! c) w" "candidates_ok env records w rs"
      using each [rule_format, OF ch(9) [OF c]] c by auto
    then show ?thesis using tuned_wkl by auto
  qed
  ultimately show ?thesis using n(1) by blast
qed

text \<open>The node list after the candidates are there.\<close>

definition fetched :: "gt_env \<Rightarrow> grec list \<Rightarrow> tnode list \<Rightarrow> nat list \<Rightarrow> tnode list \<Rightarrow> bool" where
  "fetched env records nodes cs nodes' \<longleftrightarrow> same_graph nodes nodes'
     \<and> (\<forall>c\<in>set cs. \<exists>rs. tn_cands (nodes' ! c) = Some rs \<and> candidates_ok env records (wkl_at nodes c) rs)"

lemma fetchedD:
  assumes "fetched env records nodes cs nodes'"
  shows "same_graph nodes nodes'" "length nodes' = length nodes" "c \<in> set cs \<Longrightarrow> tn_cands (nodes' ! c) = Some (cands_at nodes' c)"
    "c \<in> set cs \<Longrightarrow> candidates_ok env records (wkl_at nodes c) (cands_at nodes' c)"
  using assms by (auto simp: fetched_def same_graph_def cands_at_def)

lemma fetched_graph:
  assumes ch: "op_chain env records nodes b cs" and pre: "fetched env records nodes cs nodes'"
  shows "topo (map gnode_of nodes')" "has_multi env nodes' = has_multi env nodes" "i < length nodes \<Longrightarrow> wkl_at nodes' i = wkl_at nodes i"
    "is_boundary env (nodes' ! b)" "c \<in> set cs \<Longrightarrow> \<not> is_boundary env (nodes' ! c)" "c \<in> set cs \<Longrightarrow> operator env nodes' c"
proof -
  note same = fetchedD(1) [OF pre] and len = fetchedD(2) [OF pre]
  note node = same_graph_node [OF same]
  show "topo (map gnode_of nodes')" using op_chainD(5) [OF ch] len node(3) by (auto simp: topo_def)
  show "has_multi env nodes' = has_multi env nodes"
    using len node(1,2,3) unfolding has_multi_def fun_eq_iff by (intro allI has_multiple_inputs_same) auto
  show wkl: "wkl_at nodes' i = wkl_at nodes i" if "i < length nodes" for i using node(4) [OF that] by (simp add: wkl_at_def)
  show "is_boundary env (nodes' ! b)" using op_chainD(3,4) [OF ch] node(5) by simp
  show "\<not> is_boundary env (nodes' ! c)" if "c \<in> set cs" for c using op_chainD(9,10) [OF ch that] node(5) by simp
  show "operator env nodes' c" if c: "c \<in> set cs" for c
  proof -
    let ?w = "wkl_at nodes c"
    have "length (cands_at nodes' c) = min (nat (ge_max_sch env)) (card (layouts_of env ?w ` set (wkl_records records ?w)))"
      using fetchedD(4) [OF pre c] by (simp add: candidates_ok_def fastest_layouts_def wkl_records_def)
    moreover have "card (layouts_of env ?w ` set (wkl_records records ?w)) > 0" using op_chainD(14) [OF ch c] by (simp add: card_gt_0_iff)
    ultimately have "cands_at nodes' c \<noteq> []" using op_chainD(15) [OF ch c] by auto
    then obtain r rs where "cands_at nodes' c = r # rs" by (cases "cands_at nodes' c") auto
    then show ?thesis using fetchedD(3) [OF pre c] op_chainD(9,12,13) [OF ch c] len wkl node(7) by (simp add: operator_def)
  qed
qed

lemma res_foldl_idle: "(\<And>x. x \<in> set xs \<Longrightarrow> f s x = Inr s) \<Longrightarrow> res_foldl f s xs = Inr s"
  by (induction xs) auto

lemma setup_chain:
  assumes ch: "op_chain env records nodes b cs" and pre: "fetched env records nodes cs nodes'"
  shows "setup_multi env (chain_table b cs) nodes' = Inr nodes'"
proof -
  have "sort (map fst (chain_table b cs)) = cs" using op_chainD(2) [OF ch] by (simp add: chain_table_keys strict_sorted_iff sorted_sort_id)
  then show ?thesis unfolding setup_multi_def using fetched_graph(2) [OF ch pre] op_chainD(11) [OF ch] by (intro res_foldl_idle) simp
qed

lemma fetched_op_graph:
  assumes ch: "op_chain env records nodes b cs" and pre: "fetched env records nodes cs nodes'"
  shows "op_graph env nodes' (chain_table b cs)"
proof -
  note g = fetched_graph [OF ch pre]
  have "operator env nodes' (cs ! i) \<and> (\<forall>x\<in>set [(b # cs) ! i]. x < length nodes' \<and> (is_boundary env (nodes' ! x) \<or> operator env nodes' x))" if "i < length cs" for i
  proof (cases i)
    case 0
    then show ?thesis using g(4,6) that op_chainD(3) [OF ch] fetchedD(2) [OF pre] by simp
  next
    case (Suc j)
    then have "cs ! j \<in> set cs" using that by simp
    then have "operator env nodes' (cs ! j)" by (rule g(6))
    then show ?thesis using Suc that g(6) operatorD(1) [of env nodes' "cs ! j"] by auto
  qed
  then have "\<forall>(k, val)\<in>set (chain_table b cs). operator env nodes' k \<and> distinct val \<and> (\<forall>i\<in>set val. i < length nodes' \<and> (is_boundary env (nodes' ! i) \<or> operator env nodes' i))"
    unfolding chain_table_set by fastforce
  then show ?thesis
    unfolding op_graph_def chain_table_keys using g(1) op_chainD(6,7,8) [OF ch] fetchedD(2) [OF pre] by simp
qed

section \<open>Total times\<close>

text \<open>The time of a sequence of schedules: their own times and those of the conversions between neighbours.\<close>

fun schedule_time :: "(grec \<Rightarrow> grec \<Rightarrow> rat) \<Rightarrow> grec list \<Rightarrow> rat" where
  "schedule_time t [] = 0"
| "schedule_time t [r] = gr_cost r"
| "schedule_time t (r # q # rs) = gr_cost r + t r q + schedule_time t (q # rs)"

lemma schedule_time_snoc: "schedule_time t (xs @ [q, r]) = schedule_time t (xs @ [q]) + t q r + gr_cost r"
proof (induction xs)
  case (Cons x xs)
  then show ?case by (cases xs) simp_all
qed simp

lemma schedule_time_mono:
  assumes "length rs = length qs" and "\<And>i. i < length rs \<Longrightarrow> lay (rs ! i) = lay (qs ! i) \<and> gr_cost (rs ! i) \<le> gr_cost (qs ! i)"
  shows "schedule_time (\<lambda>r q. u (lay r) (lay q)) rs \<le> schedule_time (\<lambda>r q. u (lay r) (lay q)) qs"
  using assms
proof (induction rs qs rule: list_induct2)
  case (Cons r rs q qs)
  have ih: "schedule_time (\<lambda>r q. u (lay r) (lay q)) rs \<le> schedule_time (\<lambda>r q. u (lay r) (lay q)) qs"
    using Cons.prems [of "Suc i" for i] by (intro Cons.IH) simp
  have hd: "lay r = lay q" "gr_cost r \<le> gr_cost q" using Cons.prems [of 0] by simp_all
  show ?case
  proof (cases rs)
    case Nil
    then show ?thesis using hd Cons.hyps by simp
  next
    case rs: (Cons x xs)
    then obtain y ys where qs: "qs = y # ys" using Cons.hyps by (cases qs) auto
    have "lay x = lay y" using Cons.prems [of 1] by (simp add: rs qs)
    then show ?thesis using ih hd by (simp add: rs qs)
  qed
qed simp

definition record_layouts :: "gt_env \<Rightarrow> grec \<Rightarrow> layouts" where
  "record_layouts env r = layouts_of env (gr_wkl r) r"

definition conversion_time :: "gt_env \<Rightarrow> (ltf \<times> rat) list option \<Rightarrow> bool \<Rightarrow> (ltf \<Rightarrow> int) \<Rightarrow> (ltf \<Rightarrow> rat option) \<Rightarrow> grec \<Rightarrow> grec \<Rightarrow> rat" where
  "conversion_time env layout_records infer out_size timer r q =
     transform_time (case layout_records of None \<Rightarrow> [] | Some xs \<Rightarrow> xs) infer out_size timer (conversion (ge_dtype env) (record_layouts env r) (record_layouts env q))"

text \<open>For every record of a workload there is a candidate with the same layouts that is no slower.\<close>

lemma candidate_for:
  assumes ch: "op_chain env records nodes b cs" and pre: "fetched env records nodes cs nodes'" and c: "c \<in> set cs"
    and r: "r \<in> set records" "gr_wkl r = wkl_at nodes c"
  shows "\<exists>k < length (cands_at nodes' c). record_layouts env (cands_at nodes' c ! k) = record_layouts env r \<and> gr_cost (cands_at nodes' c ! k) \<le> gr_cost r"
proof -
  let ?w = "wkl_at nodes c" and ?cs = "cands_at nodes' c"
  let ?lay = "layouts_of env ?w" and ?rs = "wkl_records records ?w"
  have ok: "distinct (map ?lay ?cs)" "set ?cs \<subseteq> set ?rs" "length ?cs = min (nat (ge_max_sch env)) (card (?lay ` set ?rs))"
    "\<forall>c\<in>set ?cs. \<forall>r\<in>set ?rs. ?lay r = ?lay c \<or> ?lay r \<notin> ?lay ` set ?cs \<longrightarrow> gr_cost c \<le> gr_cost r"
    using fetchedD(4) [OF pre c] by (simp_all add: candidates_ok_def fastest_layouts_def wkl_records_def)
  have "card (?lay ` set ?cs) = card (?lay ` set ?rs)"
    using distinct_card [OF ok(1)] ok(3) op_chainD(15) [OF ch c] by (simp add: min_def split: if_splits)
  then have "?lay ` set ?cs = ?lay ` set ?rs" using ok(2) by (intro card_subset_eq) auto
  moreover have in_rs: "r \<in> set ?rs" using r by (simp add: wkl_records_def)
  ultimately obtain q where q: "q \<in> set ?cs" "?lay q = ?lay r" by (metis (no_types, lifting) image_iff)
  then have "gr_cost q \<le> gr_cost r" using ok(4) in_rs by metis
  moreover have "gr_wkl q = ?w" using q(1) ok(2) by (auto simp: wkl_records_def)
  ultimately show ?thesis using q r(2) by (auto simp: record_layouts_def in_set_conv_nth)
qed

section \<open>The dynamic program on the chain\<close>

text \<open>What \<open>benchmark_layout_transform\<close> leaves in the table of matrices.\<close>

definition matrices :: "gt_env \<Rightarrow> tnode list \<Rightarrow> (nat \<times> nat list) list \<Rightarrow> (ltf \<Rightarrow> rat) \<Rightarrow> (nat \<times> nat \<rightharpoonup> rat list list) \<Rightarrow> bool" where
  "matrices env nodes in_nodes time cost \<longleftrightarrow> (\<forall>i k. (i, k) \<in> set (edges env nodes in_nodes) \<longrightarrow>
     (\<exists>mat. cost (i, k) = Some mat \<and> length mat = length (cands_at nodes i) \<and> (\<forall>row\<in>set mat. length row = length (cands_at nodes k))
        \<and> (\<forall>m < length (cands_at nodes i). \<forall>n < length (cands_at nodes k). mat ! m ! n = time (link env nodes i k m n))))"

lemma chain_edge:
  assumes ch: "op_chain env records nodes b cs" and pre: "fetched env records nodes cs nodes'" and i: "Suc i < length cs"
  shows "(cs ! i, cs ! Suc i) \<in> set (edges env nodes' (chain_table b cs))"
proof -
  have "(cs ! Suc i, [cs ! i]) \<in> set (chain_table b cs)" using i by (force simp: chain_table_set)
  moreover have "\<not> is_boundary env (nodes' ! (cs ! i))" using i by (intro fetched_graph(5) [OF ch pre]) simp
  ultimately show ?thesis by (auto simp: edges_mem)
qed

lemma fetched_chain:
  assumes ch: "op_chain env records nodes b cs" and pre: "fetched env records nodes cs nodes'" and mats: "matrices env nodes' (chain_table b cs) time cost"
  defines "d \<equiv> dp_tuner env nodes' (chain_table b cs) (get_out_nodes (chain_table b cs)) cost"
  shows "chain d b cs" "c \<in> set cs \<Longrightarrow> cand d c = length (cands_at nodes' c)"
    "c \<in> set cs \<Longrightarrow> k < length (cands_at nodes' c) \<Longrightarrow> op_time d c k = gr_cost (cands_at nodes' c ! k)"
    "Suc i < length cs \<Longrightarrow> m < length (cands_at nodes' (cs ! i)) \<Longrightarrow> n < length (cands_at nodes' (cs ! Suc i)) \<Longrightarrow>
       lay_time d (cs ! i) (cs ! Suc i) m n = time (link env nodes' (cs ! i) (cs ! Suc i) m n)"
proof -
  note g = fetched_graph [OF ch pre]
  have len: "length nodes' = length nodes" by (rule fetchedD(2) [OF pre])
  have below: "c < length nodes'" if "c \<in> set cs" for c using op_chainD(9) [OF ch that] len by simp
  have node: "de_nodes d ! c = gnode_of (nodes' ! c)" if "c < length nodes'" for c using that by (simp add: d_def dp_tuner_def)
  have costs: "gn_costs (de_nodes d ! c) = map gr_cost (cands_at nodes' c)" if "c \<in> set cs" for c
    using node [OF below [OF that]] fetchedD(3) [OF pre that] by (simp add: gnode_of_def)
  show "cand d c = length (cands_at nodes' c)" if "c \<in> set cs" for c using costs [OF that] by (simp add: cand_def)
  show "op_time d c k = gr_cost (cands_at nodes' c ! k)" if "c \<in> set cs" "k < length (cands_at nodes' c)" for c k
    using costs [OF that(1)] that(2) by (simp add: op_time_def)
  have mat: "\<exists>mat. de_cost d (cs ! i, cs ! Suc i) = Some mat \<and> length mat = length (cands_at nodes' (cs ! i)) \<and> (\<forall>row\<in>set mat. length row = length (cands_at nodes' (cs ! Suc i)))
      \<and> (\<forall>m < length (cands_at nodes' (cs ! i)). \<forall>n < length (cands_at nodes' (cs ! Suc i)). mat ! m ! n = time (link env nodes' (cs ! i) (cs ! Suc i) m n))"
    if "Suc i < length cs" for i
    using mats chain_edge [OF ch pre that] by (simp add: matrices_def d_def dp_tuner_def)
  show "lay_time d (cs ! i) (cs ! Suc i) m n = time (link env nodes' (cs ! i) (cs ! Suc i) m n)"
    if "Suc i < length cs" "m < length (cands_at nodes' (cs ! i))" "n < length (cands_at nodes' (cs ! Suc i))" for i m n
    using mat [OF that(1)] that(2,3) by (auto simp: lay_time_def)
  have ops: "\<not> is_boundary_node (de_nodes d ! c) (de_names d) \<and> is_target (de_targets d) (de_nodes d ! c) \<and> gn_costs (de_nodes d ! c) \<noteq> []
      \<and> has_multiple_inputs (de_limit d) (de_nodes d) c (de_names d) OPT_OUT_OP = Inr False" if c: "c \<in> set cs" for c
  proof -
    have "has_multi env nodes' c = Inr False" using g(2) op_chainD(11) [OF ch c] by simp
    then have "has_multiple_inputs (de_limit d) (de_nodes d) c (de_names d) OPT_OUT_OP = Inr False" by (simp add: has_multi_def d_def dp_tuner_def)
    moreover have "de_names d = ge_names env" "de_targets d = ge_targets env" by (simp_all add: d_def dp_tuner_def)
    ultimately show ?thesis
      using g(5) [OF c] operatorD(2,6) [OF g(6) [OF c]] node [OF below [OF c]] costs [OF c] by (simp add: is_boundary_def)
  qed
  have "is_boundary_node (de_nodes d ! b) (de_names d)" using g(4) node [of b] op_chainD(3) [OF ch] len by (simp add: is_boundary_def) (simp add: d_def dp_tuner_def)
  moreover have "\<exists>m. de_cost d (cs ! i, cs ! Suc i) = Some m \<and> length m = length (gn_costs (de_nodes d ! (cs ! i)))
          \<and> (\<forall>row\<in>set m. length row = length (gn_costs (de_nodes d ! (cs ! Suc i))))" if "Suc i < length cs" for i
    using mat [OF that] costs [of "cs ! i"] costs [of "cs ! Suc i"] that by auto
  moreover have "de_ins d = zip cs (map (\<lambda>x. [x]) (b # butlast cs))" "de_outs d = get_out_nodes (de_ins d)" by (simp_all add: d_def dp_tuner_def chain_table_def)
  moreover have "\<forall>c\<in>set (b # cs). c < length (de_nodes d)" using op_chainD(3) [OF ch] below len by (simp add: d_def dp_tuner_def)
  ultimately show "chain d b cs" unfolding chain_def using op_chainD(1,2) [OF ch] ops by blast
qed

lemma chain_time_schedule:
  assumes ch: "op_chain env records nodes b cs" and pre: "fetched env records nodes cs nodes'" and mats: "matrices env nodes' (chain_table b cs) time cost"
    and a: "\<forall>c\<in>set cs. a c < length (cands_at nodes' c)"
  shows "chain_time (dp_tuner env nodes' (chain_table b cs) (get_out_nodes (chain_table b cs)) cost) cs a
    = schedule_time (\<lambda>r q. time (conversion (ge_dtype env) (record_layouts env r) (record_layouts env q))) (map (\<lambda>c. cands_at nodes' c ! a c) cs)"
proof -
  let ?d = "dp_tuner env nodes' (chain_table b cs) (get_out_nodes (chain_table b cs)) cost"
  let ?t = "\<lambda>r q. time (conversion (ge_dtype env) (record_layouts env r) (record_layouts env q))"
  let ?r = "\<lambda>j. cands_at nodes' (cs ! j) ! a (cs ! j)"
  note pc = fetched_chain [OF ch pre mats]
  have lay: "record_layouts env (?r j) = layouts_of env (wkl_at nodes' (cs ! j)) (?r j)" if j: "j < length cs" for j
  proof -
    have c: "cs ! j \<in> set cs" using j by simp
    have "?r j \<in> set (cands_at nodes' (cs ! j))" using a c by simp
    then have "gr_wkl (?r j) = wkl_at nodes (cs ! j)" using fetchedD(4) [OF pre c] by (auto simp: candidates_ok_def fastest_layouts_def)
    then show ?thesis using fetched_graph(3) [OF ch pre op_chainD(9) [OF ch c]] by (simp add: record_layouts_def)
  qed
  have "i < length cs \<Longrightarrow> prefix_time ?d cs i a = schedule_time ?t (map ?r [0..<Suc i])" for i
  proof (induction i)
    case 0
    then have "cs ! 0 \<in> set cs" by (intro nth_mem) simp
    then show ?case using pc(3) a by simp
  next
    case (Suc i)
    have c: "cs ! i \<in> set cs" "cs ! Suc i \<in> set cs" using Suc.prems by simp_all
    have "lay_time ?d (cs ! i) (cs ! Suc i) (a (cs ! i)) (a (cs ! Suc i)) = ?t (?r i) (?r (Suc i))"
      using pc(4) [OF Suc.prems] a c lay [of i] lay [of "Suc i"] Suc.prems by (simp add: link_def)
    moreover have "op_time ?d (cs ! Suc i) (a (cs ! Suc i)) = gr_cost (?r (Suc i))" using pc(3) a c by simp
    moreover have "schedule_time ?t (map ?r [0..<Suc (Suc i)]) = schedule_time ?t (map ?r [0..<Suc i]) + ?t (?r i) (?r (Suc i)) + gr_cost (?r (Suc i))"
      using schedule_time_snoc [of ?t "map ?r [0..<i]" "?r i" "?r (Suc i)"] by simp
    ultimately show ?case using Suc.IH Suc.prems by simp
  qed
  from this [of "length cs - 1"] have "chain_time ?d cs a = schedule_time ?t (map ?r [0..<Suc (length cs - 1)])"
    using op_chainD(1) [OF ch] by (simp add: chain_time_def)
  moreover have "map ?r [0..<Suc (length cs - 1)] = map (\<lambda>c. cands_at nodes' c ! a c) cs"
    using op_chainD(1) [OF ch] by (intro nth_equalityI) (auto simp del: upt_Suc)
  ultimately show ?thesis by simp
qed

lemma optimal_records_chain:
  assumes ch: "op_chain env records nodes b cs" and pre: "fetched env records nodes cs nodes'" and k: "\<forall>c\<in>set cs. k c < length (cands_at nodes' c)"
  shows "get_optimal_records env nodes' (map (\<lambda>c. (c, k c)) cs) = Inr (map (\<lambda>c. cands_at nodes' c ! k c) cs)"
proof -
  let ?step = "\<lambda>ret i. res_bind (entry_at nodes' i) (\<lambda>t.
         if \<not> is_target (ge_targets env) (gnode_of t) then Inr ret
         else res_bind (key_of (tn_cands t)) (\<lambda>rs. res_bind (py_get rs (int (the (map_of (map (\<lambda>c. (c, k c)) cs) i)))) (\<lambda>r. Inr (ret @ [r]))))"
  have "sort (map fst (map (\<lambda>c. (c, k c)) cs)) = cs" using op_chainD(2) [OF ch] by (simp add: comp_def strict_sorted_iff sorted_sort_id)
  moreover have "res_foldl ?step [] cs = Inr (foldl (\<lambda>ret c. ret @ [cands_at nodes' c ! k c]) [] cs)"
  proof (rule res_foldl_pure)
    fix ret c assume c: "c \<in> set cs"
    note op = operatorD [OF fetched_graph(6) [OF ch pre c]]
    have "map_of (map (\<lambda>c. (c, k c)) cs) c = Some (k c)" using c by (simp add: map_of_map_restrict)
    then show "?step ret c = Inr (ret @ [cands_at nodes' c ! k c])" using op(1,2,5) bspec [OF k c] by (simp add: entry_at_def key_of_def py_get_def)
  qed
  moreover have "foldl (\<lambda>ret c. ret @ [cands_at nodes' c ! k c]) acc xs = acc @ map (\<lambda>c. cands_at nodes' c ! k c) xs" for acc xs by (induction xs arbitrary: acc) auto
  ultimately show ?thesis by (simp add: get_optimal_records_def)
qed

section \<open>From the records to the result\<close>

text \<open>A record of its own workload for every operator.\<close>

definition record_choice :: "grec list \<Rightarrow> tnode list \<Rightarrow> nat list \<Rightarrow> grec list \<Rightarrow> bool" where
  "record_choice records nodes cs rs \<longleftrightarrow> length rs = length cs \<and> (\<forall>i < length cs. rs ! i \<in> set records \<and> gr_wkl (rs ! i) = wkl_at nodes (cs ! i))"

text \<open>Candidates are records, so a choice of candidates that is best among the candidates is best among all records.\<close>

lemma candidates_suffice:
  assumes ch: "op_chain env records nodes b cs" and pre: "fetched env records nodes cs nodes'" and rs: "record_choice records nodes cs rs"
  shows "\<exists>a. (\<forall>c\<in>set cs. a c < length (cands_at nodes' c))
    \<and> schedule_time (\<lambda>r q. u (record_layouts env r) (record_layouts env q)) (map (\<lambda>c. cands_at nodes' c ! a c) cs)
      \<le> schedule_time (\<lambda>r q. u (record_layouts env r) (record_layouts env q)) rs"
proof -
  have "\<exists>k. \<forall>i < length cs. cs ! i = c \<longrightarrow> k < length (cands_at nodes' c) \<and> record_layouts env (cands_at nodes' c ! k) = record_layouts env (rs ! i)
      \<and> gr_cost (cands_at nodes' c ! k) \<le> gr_cost (rs ! i)" for c
  proof (cases "c \<in> set cs")
    case True
    then obtain i where i: "i < length cs" "cs ! i = c" by (auto simp: in_set_conv_nth)
    have uniq: "j = i" if "j < length cs" "cs ! j = c" for j using that i op_chainD(8) [OF ch] by (metis nth_eq_iff_index_eq)
    obtain k where "k < length (cands_at nodes' c)" "record_layouts env (cands_at nodes' c ! k) = record_layouts env (rs ! i)" "gr_cost (cands_at nodes' c ! k) \<le> gr_cost (rs ! i)"
      using candidate_for [OF ch pre True, of "rs ! i"] rs i by (auto simp: record_choice_def)
    then show ?thesis using uniq by blast
  qed auto
  then obtain a where a: "\<And>i. i < length cs \<Longrightarrow> a (cs ! i) < length (cands_at nodes' (cs ! i))
      \<and> record_layouts env (cands_at nodes' (cs ! i) ! a (cs ! i)) = record_layouts env (rs ! i) \<and> gr_cost (cands_at nodes' (cs ! i) ! a (cs ! i)) \<le> gr_cost (rs ! i)"
    by metis
  then have "\<forall>c\<in>set cs. a c < length (cands_at nodes' c)" by (auto simp: in_set_conv_nth)
  moreover have "schedule_time (\<lambda>r q. u (record_layouts env r) (record_layouts env q)) (map (\<lambda>c. cands_at nodes' c ! a c) cs)
      \<le> schedule_time (\<lambda>r q. u (record_layouts env r) (record_layouts env q)) rs"
    using a rs by (intro schedule_time_mono) (auto simp: record_choice_def)
  ultimately show ?thesis by blast
qed

text \<open>
  C1. The graph tuner on a chain of operators, from its records to its result. When every operator has records and no more pairs of layouts than candidates are allowed, the constructor, the
  benchmark of the layout transformations, the dynamic program and \<open>get_optimal_records\<close> all return; the result has a record of its own workload for every operator, in the order
  of the graph; and no other choice of records has a smaller total of execution and layout transformation times.
\<close>

theorem graph_tuning_optimal:
  assumes ch: "op_chain env records nodes b cs"
    and table: "get_in_nodes (ge_limit env) (map gnode_of nodes) skipped (ge_targets env) (ge_names env) = Inr (chain_table b cs)"
    and recs: "\<not> (layout_records = None \<and> infer)" "rpc \<noteq> Some None" and fuel: "length cs \<le> fuel"
  shows "\<exists>nodes' out_nodes perf cost rec best. gt_init env skipped records nodes = Inr (nodes', chain_table b cs, out_nodes)
    \<and> benchmark_layout_transform env nodes' (chain_table b cs) (Map.empty, Map.empty) layout_records infer rpc out_size timer = Inr (perf, cost)
    \<and> dp_run fuel (dp_tuner env nodes' (chain_table b cs) out_nodes cost) None = Some (Inr rec)
    \<and> get_optimal_records env nodes' (map (\<lambda>c. (c, the (rec c))) (sorted_list_of_set (dom rec))) = Inr best
    \<and> record_choice records nodes cs best
    \<and> (\<forall>rs. record_choice records nodes cs rs \<longrightarrow>
         schedule_time (conversion_time env layout_records infer out_size timer) best \<le> schedule_time (conversion_time env layout_records infer out_size timer) rs)"
proof -
  define time where "time = transform_time (case layout_records of None \<Rightarrow> [] | Some xs \<Rightarrow> xs) infer out_size timer"
  let ?ins = "chain_table b cs" and ?t = "\<lambda>r q. time (conversion (ge_dtype env) (record_layouts env r) (record_layouts env q))"
  have t: "conversion_time env layout_records infer out_size timer = ?t" by (simp add: fun_eq_iff conversion_time_def time_def)
  obtain nodes' where n: "fetch_cfg env ?ins records nodes = Inr nodes'" and pre: "fetched env records nodes cs nodes'"
    using fetch_chain [OF ch] by (auto simp: fetched_def)
  have "?ins \<noteq> []" using chain_table_keys [of b cs] op_chainD(1) [OF ch] by auto
  then have init: "gt_init env skipped records nodes = Inr (nodes', ?ins, get_out_nodes ?ins)" using table n setup_chain [OF ch pre] by (simp add: gt_init_def)
  obtain perf cost where bench: "benchmark_layout_transform env nodes' ?ins (Map.empty, Map.empty) layout_records infer rpc out_size timer = Inr (perf, cost)"
    and mats: "matrices env nodes' ?ins time cost"
    using benchmark_edges [OF fetched_op_graph [OF ch pre] recs, of out_size timer] unfolding matrices_def time_def by blast
  let ?d = "dp_tuner env nodes' ?ins (get_out_nodes ?ins) cost"
  note pc = fetched_chain [OF ch pre mats]
  obtain rec where run: "dp_run fuel ?d None = Some (Inr rec)" "dom rec = set cs" "\<forall>c\<in>set cs. \<exists>k < cand ?d c. rec c = Some k"
    and least: "\<forall>a. (\<forall>c\<in>set cs. a c < cand ?d c) \<longrightarrow> chain_time ?d cs (\<lambda>c. the (rec c)) \<le> chain_time ?d cs a"
    using dp_chain_run [OF pc(1) fuel] by blast
  have rec: "\<forall>c\<in>set cs. the (rec c) < length (cands_at nodes' c)" using run(3) pc(2) by fastforce
  let ?best = "map (\<lambda>c. cands_at nodes' c ! the (rec c)) cs"
  have "sorted_list_of_set (dom rec) = cs" using run(2) op_chainD(2) [OF ch] by (simp add: sorted_list_of_set.idem_if_sorted_distinct strict_sorted_iff)
  then have "get_optimal_records env nodes' (map (\<lambda>c. (c, the (rec c))) (sorted_list_of_set (dom rec))) = Inr ?best"
    using optimal_records_chain [OF ch pre rec] by simp
  moreover have "record_choice records nodes cs ?best"
  proof -
    have "cands_at nodes' c ! the (rec c) \<in> set records \<and> gr_wkl (cands_at nodes' c ! the (rec c)) = wkl_at nodes c" if c: "c \<in> set cs" for c
    proof -
      have "set (cands_at nodes' c) \<subseteq> set (filter (\<lambda>r. gr_wkl r = wkl_at nodes c) records)" using fetchedD(4) [OF pre c] by (simp add: candidates_ok_def fastest_layouts_def)
      moreover have "cands_at nodes' c ! the (rec c) \<in> set (cands_at nodes' c)" using rec c by simp
      ultimately show ?thesis by auto
    qed
    then show ?thesis by (simp add: record_choice_def)
  qed
  moreover have "schedule_time ?t ?best \<le> schedule_time ?t rs" if rs: "record_choice records nodes cs rs" for rs
  proof -
    obtain a where a: "\<forall>c\<in>set cs. a c < length (cands_at nodes' c)" "schedule_time ?t (map (\<lambda>c. cands_at nodes' c ! a c) cs) \<le> schedule_time ?t rs"
      using candidates_suffice [OF ch pre rs, of "\<lambda>x y. time (conversion (ge_dtype env) x y)"] by blast
    have "chain_time ?d cs (\<lambda>c. the (rec c)) \<le> chain_time ?d cs a" using least a(1) pc(2) by simp
    then show ?thesis using a(2) chain_time_schedule [OF ch pre mats rec] chain_time_schedule [OF ch pre mats a(1)] by simp
  qed
  ultimately show ?thesis using init bench run(1) unfolding t by blast
qed

lemma ex_op_chain: "op_chain ex_gt_env ex_records (ex_tnodes None) 0 [1, 2]"
proof -
  let ?nodes = "ex_tnodes None"
  have w: "wkl_at ?nodes c = ex_wkl" if "c \<in> set [1, 2]" for c using that by (auto simp: wkl_at_def ex_tnodes_def)
  have recs: "wkl_records ex_records ex_wkl = ex_records" by (simp add: wkl_records_def ex_records_def)
  have "card (layouts_of ex_gt_env ex_wkl ` set ex_records) \<le> card (set ex_records)" by (rule card_image_le) simp
  also have "\<dots> \<le> length ex_records" by (rule card_length)
  finally have card: "card (layouts_of ex_gt_env ex_wkl ` set ex_records) \<le> nat (ge_max_sch ex_gt_env)" by (simp add: ex_records_def ex_gt_env_def)
  have multi: "has_multi ex_gt_env ?nodes c = Inr False" if "c \<in> set [1, 2]" for c
  proof -
    have "has_multi ex_gt_env ?nodes 1 = Inr False" "has_multi ex_gt_env ?nodes 2 = Inr False" by code_simp+
    then show ?thesis using that by auto
  qed
  have "tuned ex_gt_env (?nodes ! c) ex_wkl" if "c \<in> set [1, 2]" for c using that by (intro ex_tuned) auto
  then have "\<not> is_boundary ex_gt_env (?nodes ! c) \<and> has_multi ex_gt_env ?nodes c = Inr False \<and> tuned ex_gt_env (?nodes ! c) (wkl_at ?nodes c)
      \<and> \<not> isl (get_infer_layout (gw_name (wkl_at ?nodes c))) \<and> wkl_records ex_records (wkl_at ?nodes c) \<noteq> []
      \<and> card (layouts_of ex_gt_env (wkl_at ?nodes c) ` set (wkl_records ex_records (wkl_at ?nodes c))) \<le> nat (ge_max_sch ex_gt_env)" if "c \<in> set [1, 2]" for c
    unfolding w [OF that] recs ex_infer using that multi [OF that] card
    by (auto simp: is_boundary_def is_boundary_node_def LAYOUT_FIXED_OP_def gnode_of_def ex_tnodes_def ex_records_def)
  moreover have "topo (map gnode_of ?nodes)" by (auto simp: topo_def ex_tnodes_def gnode_of_def less_Suc_eq numeral_eq_Suc)
  moreover have "is_boundary ex_gt_env (?nodes ! 0)" by (simp add: is_boundary_def is_boundary_node_def ex_gt_env_def ex_tnodes_def gnode_of_def)
  moreover have "length ?nodes = 3" "ge_limit ex_gt_env = 3" by (simp_all add: ex_tnodes_def ex_gt_env_def)
  moreover have "\<forall>f w c. \<exists>x y. ge_infer ex_gt_env f w c = ([x], [y])" by (simp add: ex_gt_env_def)
  ultimately show ?thesis unfolding op_chain_def by simp
qed

theorem graph_tuning_optimal_witness:
  "\<exists>nodes' out_nodes perf cost rec best. gt_init ex_gt_env {} ex_records (ex_tnodes None) = Inr (nodes', chain_table 0 [1, 2], out_nodes)
    \<and> benchmark_layout_transform ex_gt_env nodes' (chain_table 0 [1, 2]) (Map.empty, Map.empty) None False None (\<lambda>l. 8) (\<lambda>l. Some 7) = Inr (perf, cost)
    \<and> dp_run 2 (dp_tuner ex_gt_env nodes' (chain_table 0 [1, 2]) out_nodes cost) None = Some (Inr rec)
    \<and> get_optimal_records ex_gt_env nodes' (map (\<lambda>c. (c, the (rec c))) (sorted_list_of_set (dom rec))) = Inr best
    \<and> record_choice ex_records (ex_tnodes None) [1, 2] best
    \<and> (\<forall>rs. record_choice ex_records (ex_tnodes None) [1, 2] rs \<longrightarrow>
         schedule_time (conversion_time ex_gt_env None False (\<lambda>l. 8) (\<lambda>l. Some 7)) best \<le> schedule_time (conversion_time ex_gt_env None False (\<lambda>l. 8) (\<lambda>l. Some 7)) rs)"
proof (rule graph_tuning_optimal [OF ex_op_chain])
  show "get_in_nodes (ge_limit ex_gt_env) (map gnode_of (ex_tnodes None)) {} (ge_targets ex_gt_env) (ge_names ex_gt_env) = Inr (chain_table 0 [1, 2])" by code_simp
qed simp_all

end
