(* ===== verification/TaskScheduler.thy ===== *)
theory TaskScheduler
  imports PyObj
begin

text \<open>
  The task scheduler of \<open>auto_scheduler/task_scheduler.py\<close>, which divides a budget of measurements among tasks: a warm-up round,
  then round robin or the task with the steepest expected gain.

  The search policies and the measurer are objects of the C++ runtime: one call of \<open>continue_search_one_round\<close> is the parameter
  \<open>te_round\<close>, which gets the task, the size of the round and the state of the policies, and returns the number of programs that were measured,
  the costs of their results and the new state. The callbacks only print and write a log and are left out. Costs are exact rationals;
  \<open>best_costs\<close> is a NumPy array, so dividing by a cost of zero gives an infinity.
\<close>

section \<open>Arithmetic on floats\<close>

fun fscale :: "rat \<Rightarrow> pyfloat \<Rightarrow> pyfloat" where
  "fscale c NaN = NaN"
| "fscale c (Fin x) = Fin (c * x)"
| "fscale c PosInf = (if c > 0 then PosInf else if c < 0 then NegInf else NaN)"
| "fscale c NegInf = (if c > 0 then NegInf else if c < 0 then PosInf else NaN)"

fun fadd :: "pyfloat \<Rightarrow> pyfloat \<Rightarrow> pyfloat" where
  "fadd NaN y = NaN"
| "fadd x NaN = NaN"
| "fadd (Fin x) (Fin y) = Fin (x + y)"
| "fadd PosInf NegInf = NaN"
| "fadd NegInf PosInf = NaN"
| "fadd (Fin x) y = y"
| "fadd x y = x"

text \<open>A NumPy float divided by a finite number.\<close>

definition fover :: "pyfloat \<Rightarrow> rat \<Rightarrow> pyfloat" where
  "fover x b = (if b \<noteq> 0 then fscale (1 / b) x else case x of Fin y \<Rightarrow> fdiv y (Fin 0) | _ \<Rightarrow> x)"

fun fnonpos :: "pyfloat \<Rightarrow> bool" where
  "fnonpos NaN = False"
| "fnonpos NegInf = True"
| "fnonpos (Fin x) = (x \<le> 0)"
| "fnonpos PosInf = False"

text \<open>Python's \<open>max\<close> over a list and \<open>min\<close> of two values keep the first unless the other compares better.\<close>

definition py_fmax :: "pyfloat list \<Rightarrow> pyfloat res" where
  "py_fmax xs = (case xs of [] \<Rightarrow> Inl ValueError | x # ys \<Rightarrow> Inr (foldl (\<lambda>m y. if fgt y m then y else m) x ys))"

definition py_fmin2 :: "pyfloat \<Rightarrow> pyfloat \<Rightarrow> pyfloat" where
  "py_fmin2 x y = (if fgt x y then y else x)"

definition np_argmin :: "pyfloat list \<Rightarrow> nat" where
  "np_argmin xs = length (takeWhile (\<lambda>x. \<exists>y\<in>set xs. fgt x y) xs)"

section \<open>State\<close>

record sched_task =
  tk_key :: string
  tk_target :: string
  tk_op_tags :: "string option list"
  tk_flop :: rat

record 'p ts_env =
  te_objective :: "rat list \<Rightarrow> rat"
  te_round :: "nat \<Rightarrow> int \<Rightarrow> 'p \<Rightarrow> (nat \<times> rat list list) \<times> 'p"
  te_strategy :: string
  te_alpha :: rat
  te_beta :: rat
  te_window :: int

record 'p tsched =
  task_cts :: "nat list"
  task_best_cts :: "nat list"
  task_costs_history :: "rat list list"
  best_costs :: "rat list"
  cur_score :: rat
  ts_ct :: int
  best_ct :: int
  best_score :: rat
  num_measures_per_round :: int
  early_stopping_all :: int
  early_stopping_task :: int
  dead_tasks :: "nat list"
  task_tags :: "string option list"
  tag_to_group_id :: "(string \<times> nat) list"
  group_task_ids :: "nat list list"
  flop_cts :: "rat list"
  ts_policies :: 'p

definition array_mean :: "rat list \<Rightarrow> rat res" where
  "array_mean xs = (if xs = [] then Inl ZeroDivisionError else Inr (sum_list xs / of_nat (length xs)))"

section \<open>Setting up\<close>

definition str_of_int :: "int \<Rightarrow> string" where
  "str_of_int i = (if i < 0 then CHR ''-'' # str_of_nat (nat (- i)) else str_of_nat (nat i))"

text \<open>The tag of a task; \<open>log_flop\<close> is \<open>int(math.log(x, 1.618))\<close>, which raises for an argument that is not positive.\<close>

definition derive_similarity_tag :: "(rat \<Rightarrow> int) \<Rightarrow> sched_task \<Rightarrow> string res" where
  "derive_similarity_tag log_flop t =
     (let ret = concat (map (\<lambda>tag. case tag of None \<Rightarrow> [] | Some s \<Rightarrow> if s = [] then [] else s @ ''_'') (tk_op_tags t))
      in if ret = [] then Inr []
         else if tk_flop t + 1 \<le> 0 then Inl ValueError else Inr (ret @ str_of_int (log_flop (tk_flop t + 1))))"

text \<open>The objective that is used when none is given.\<close>

definition default_objective :: "rat list option \<Rightarrow> rat list \<Rightarrow> rat" where
  "default_objective weights costs =
     (case weights of Some (w # ws) \<Rightarrow> sum_list (map2 (*) costs (w # ws)) | _ \<Rightarrow> sum_list costs)"

definition add_to_group :: "nat \<Rightarrow> string \<Rightarrow> (string \<times> nat) list \<times> nat list list \<Rightarrow> (string \<times> nat) list \<times> nat list list" where
  "add_to_group i tag = (\<lambda>(ids, groups).
     if tag = [] then (ids, groups)
     else let (ids', groups') = (if map_of ids tag = None then (ids @ [(tag, length ids)], groups @ [[]]) else (ids, groups));
              g = the (map_of ids' tag)
          in (ids', groups'[g := groups' ! g @ [i]]))"

definition sched_init :: "(rat \<Rightarrow> int) \<Rightarrow> 'p ts_env \<Rightarrow> sched_task list \<Rightarrow> 'p \<Rightarrow> 'p tsched res" where
  "sched_init log_flop env tasks p =
     (if tasks = [] then Inl AssertionError
      else if te_strategy env \<notin> {''round-robin'', ''gradient''} then Inl AssertionError
      else let n = length tasks; costs = replicate n (10 ^ 10)
           in res_bind (res_map (derive_similarity_tag log_flop) tasks) (\<lambda>tags.
                let (ids, groups) = foldl (\<lambda>g (i, tag). add_to_group i tag g) ([], []) (enumerate 0 tags)
                in Inr \<lparr>task_cts = replicate n 0, task_best_cts = replicate n 0, task_costs_history = replicate n [],
                        best_costs = costs, cur_score = te_objective env costs, ts_ct = 0, best_ct = 0, best_score = 0,
                        num_measures_per_round = 0, early_stopping_all = 0, early_stopping_task = 0, dead_tasks = [],
                        task_tags = map Some tags, tag_to_group_id = ids, group_task_ids = groups, flop_cts = map tk_flop tasks,
                        ts_policies = p\<rparr>))"

text \<open>Which policy and cost model a name stands for; a list of policies is taken as it is.\<close>

definition search_policy_kind :: "string \<Rightarrow> (string \<times> string) res" where
  "search_policy_kind name =
     (case str_split (CHR ''.'') (if name = ''default'' then ''sketch.xgb'' else name) of
        [policy_type, model_type] \<Rightarrow>
          if model_type \<notin> {''xgb'', ''random''} then Inl ValueError
          else if policy_type \<noteq> ''sketch'' then Inl ValueError else Inr (policy_type, model_type)
      | _ \<Rightarrow> Inl ValueError)"

section \<open>Tuning one task\<close>

fun keep_costs :: "nat \<Rightarrow> rat list list \<Rightarrow> 'p tsched \<Rightarrow> 'p tsched res" where
  "keep_costs i [] s = Inr s"
| "keep_costs i (r # rs) s =
     res_bind (array_mean r) (\<lambda>cost.
       keep_costs i rs (if cost < best_costs s ! i
                        then s\<lparr>task_best_cts := (task_best_cts s)[i := task_cts s ! i], best_costs := (best_costs s)[i := cost]\<rparr>
                        else s))"

definition tune_task :: "'p ts_env \<Rightarrow> nat \<Rightarrow> 'p tsched \<Rightarrow> 'p tsched res" where
  "tune_task env i s =
     (if i \<ge> length (task_cts s) then Inl IndexError
      else let ((num_inputs, results), p) = te_round env i (num_measures_per_round s) (ts_policies s);
               s1 = s\<lparr>ts_policies := p, task_cts := (task_cts s)[i := task_cts s ! i + 1]\<rparr>
           in res_bind (keep_costs i results s1) (\<lambda>s2.
                let no_change_trials = (int (task_cts s2 ! i) - int (task_best_cts s2 ! i)) * num_measures_per_round s2;
                    s3 = (if num_inputs = 0 \<or> no_change_trials > early_stopping_task s2
                          then s2\<lparr>dead_tasks := List.insert i (dead_tasks s2)\<rparr> else s2)
                in Inr (s3\<lparr>task_costs_history := (task_costs_history s3)[i := task_costs_history s3 ! i @ [best_costs s3 ! i]],
                            ts_ct := ts_ct s3 + int num_inputs, cur_score := te_objective env (best_costs s3)\<rparr>)))"

definition group_of :: "'p tsched \<Rightarrow> nat \<Rightarrow> nat option" where
  "group_of s i = (case task_tags s ! i of None \<Rightarrow> None | Some tag \<Rightarrow> map_of (tag_to_group_id s) tag)"

definition speed :: "'p tsched \<Rightarrow> nat \<Rightarrow> pyfloat" where
  "speed s j = fdiv (flop_cts s ! j) (Fin (best_costs s ! j))"

definition adjust_similarity_group :: "'p ts_env \<Rightarrow> nat \<Rightarrow> 'p tsched \<Rightarrow> 'p tsched res" where
  "adjust_similarity_group env i s =
     (case group_of s i of
        None \<Rightarrow> Inr s
      | Some g \<Rightarrow>
          let ids = group_task_ids s ! g
          in if length ids \<le> 1 then Inr s
             else res_bind (py_fmax (map (speed s) ids)) (\<lambda>best.
                  if fgt (fover best (te_beta env)) (speed s i) then
                    (case filter (\<lambda>j. j \<noteq> i) ids of
                       [] \<Rightarrow> Inl ValueError
                     | js \<Rightarrow>
                         if task_cts s ! i > 5 + Max (set (map (\<lambda>j. task_cts s ! j) js)) then
                           if i \<in> set ids
                           then Inr (s\<lparr>task_tags := (task_tags s)[i := None], group_task_ids := (group_task_ids s)[g := remove1 i ids]\<rparr>)
                           else Inl ValueError
                         else Inr s)
                  else Inr s))"

section \<open>Choosing a task\<close>

text \<open>
  Round robin. The loop that skips dead tasks gets as many steps as there are tasks; the main loop only calls it when one of them is alive, and
  then they are enough.
\<close>

fun skip_dead :: "nat \<Rightarrow> nat \<Rightarrow> nat list \<Rightarrow> nat \<Rightarrow> nat" where
  "skip_dead 0 n dead i = i"
| "skip_dead (Suc fuel) n dead i = (if i \<in> set dead then skip_dead fuel n dead ((i + 1) mod n) else i)"

definition backward_grad :: "'p ts_env \<Rightarrow> 'p tsched \<Rightarrow> nat \<Rightarrow> pyfloat res" where
  "backward_grad env s i =
     (let last = int (task_cts s ! i) - 1; hist = task_costs_history s ! i
      in if last < int (length hist) \<and> last - te_window env \<ge> 0
         then res_bind (py_get hist last) (\<lambda>c1. res_bind (py_get hist (last - te_window env)) (\<lambda>c0.
                Inr (fdiv (c1 - c0) (Fin (of_int (te_window env))))))
         else Inr (Fin 0))"

definition gradient :: "'p ts_env \<Rightarrow> 'p tsched \<Rightarrow> nat \<Rightarrow> pyfloat res" where
  "gradient env s i =
     (if i \<in> set (dead_tasks s) then Inr (Fin 0)
      else let delta = 1 / 10000; cost = best_costs s ! i;
               chain_grad = (te_objective env (best_costs s) - te_objective env ((best_costs s)[i := cost - delta])) / delta
           in res_bind (backward_grad env s i) (\<lambda>back.
              let g_next_1 = fadd (Fin cost) (fscale (- 1) (fdiv cost (Fin (of_nat (task_cts s ! i)))))
              in res_bind
                   (case group_of s i of
                      None \<Rightarrow> Inr (Fin (te_beta env * 10 ^ 30))
                    | Some g \<Rightarrow>
                        if length (group_task_ids s ! g) > 1
                        then res_bind (py_fmax (map (speed s) (group_task_ids s ! g))) (\<lambda>best. Inr (fdiv (te_beta env * flop_cts s ! i) best))
                        else Inr (Fin (te_beta env * 10 ^ 30))) (\<lambda>g_next_2.
                 let forward_grad = fadd (Fin (- cost)) (py_fmin2 g_next_1 g_next_2);
                     grad = fscale chain_grad (fadd (fscale (te_alpha env) back) (fscale (1 - te_alpha env) forward_grad))
                 in if fnonpos grad then Inr grad else Inl AssertionError)))"

definition choose_task :: "'p ts_env \<Rightarrow> 'p tsched \<Rightarrow> int \<Rightarrow> draws \<Rightarrow> (nat \<times> draws) res" where
  "choose_task env s task_idx ds =
     (let n = length (task_cts s)
      in if te_strategy env = ''round-robin'' then Inr (skip_dead n n (dead_tasks s) (nat ((task_idx + 1) mod int n)), ds)
         else if te_strategy env = ''gradient'' then
           res_bind (res_map (gradient env s) [0..<n]) (\<lambda>gs.
             if list_all (\<lambda>g. g = hd gs) gs then res_bind (randint (int n) ds) (\<lambda>(i, ds'). Inr (nat i, ds'))
             else Inr (np_argmin gs, ds))
         else Inl ValueError)"

section \<open>The main loop\<close>

definition tune_guard :: "int \<Rightarrow> 'p tsched \<Rightarrow> bool" where
  "tune_guard trials s \<longleftrightarrow> ts_ct s < trials \<and> card (set (dead_tasks s)) < length (task_cts s)"

text \<open>One iteration; the first component of the result says whether the loop is left early.\<close>

definition sched_step :: "'p ts_env \<Rightarrow> int \<times> draws \<times> 'p tsched \<Rightarrow> (bool \<times> int \<times> draws \<times> 'p tsched) res" where
  "sched_step env = (\<lambda>(task_idx, ds, s).
     res_bind (choose_task env s task_idx ds) (\<lambda>(i, ds').
     res_bind (tune_task env i s) (\<lambda>s1.
     res_bind (adjust_similarity_group env i s1) (\<lambda>s2.
       Inr (if cur_score s2 < best_score s2
            then (False, int i, ds', s2\<lparr>best_score := cur_score s2, best_ct := ts_ct s2\<rparr>)
            else (ts_ct s2 - best_ct s2 \<ge> early_stopping_all s2 \<and> list_all (\<lambda>c. c < 10 ^ 9) (best_costs s2), int i, ds', s2))))))"

text \<open>The loop ends: every iteration measures something, finishes off a task, or uses up a random number.\<close>

lemma skip_dead_range: "0 < n \<Longrightarrow> i < n \<Longrightarrow> skip_dead k n dead i < n"
  by (induction k arbitrary: i) auto

lemma skip_dead_steps: "m < k \<Longrightarrow> i < n \<Longrightarrow> (i + m) mod n \<notin> set dead \<Longrightarrow> skip_dead k n dead i \<notin> set dead"
proof (induction k arbitrary: i m)
  case (Suc k)
  show ?case
  proof (cases "i \<in> set dead")
    case True
    then obtain m' where m': "m = Suc m'" using Suc.prems by (cases m) auto
    have "((i + 1) mod n + m') mod n = (i + m) mod n" by (simp add: m' mod_simps)
    then show ?thesis using Suc.IH [of m' "(i + 1) mod n"] Suc.prems True m' by simp
  qed simp
qed simp

lemma skip_dead_alive:
  assumes "i < n" and "j < n" and "j \<notin> set dead"
  shows "skip_dead n n dead i \<notin> set dead"
proof (rule skip_dead_steps [of "(j + (n - i)) mod n"])
  have "(i + (j + (n - i)) mod n) mod n = (i + (j + (n - i))) mod n" by (simp add: mod_simps)
  also have "\<dots> = j" using assms(1,2) by simp
  finally show "(i + (j + (n - i)) mod n) mod n \<notin> set dead" using assms(3) by simp
qed (use assms in auto)

lemma someone_alive:
  assumes "card (set dead) < n"
  shows "\<exists>j < n. j \<notin> set dead"
proof (rule ccontr)
  assume "\<not> ?thesis"
  then have "{..<n} \<subseteq> set dead" by auto
  then have "n \<le> card (set dead)" using card_mono [of "set dead" "{..<n}"] by simp
  then show False using assms by simp
qed

text \<open>On floats that are not NaN, \<open>np.argmin\<close> finds a least element.\<close>

lemma fgt_total: "x \<noteq> NaN \<Longrightarrow> y \<noteq> NaN \<Longrightarrow> x \<noteq> y \<Longrightarrow> fgt x y \<or> fgt y x"
  by (cases x; cases y) auto

lemma least_exists:
  assumes "xs \<noteq> []" and "NaN \<notin> set xs"
  shows "\<exists>x\<in>set xs. \<forall>y\<in>set xs. \<not> fgt x y"
  using assms
proof (induction xs rule: list_nonempty_induct)
  case (single x)
  then show ?case by (auto simp: fgt_irrefl)
next
  case (cons x xs)
  then obtain z where z: "z \<in> set xs" "\<forall>y\<in>set xs. \<not> fgt z y" by auto
  show ?case
  proof (cases "fgt z x")
    case True
    then have "\<not> fgt x y" if "y \<in> set xs" for y using z(2) that fgt_trans [of z x y] by auto
    then show ?thesis by (auto simp: fgt_irrefl)
  next
    case False
    then show ?thesis using z by auto
  qed
qed

lemma np_argmin_least:
  assumes "xs \<noteq> []" and "NaN \<notin> set xs"
  shows "np_argmin xs < length xs" "\<And>y. y \<in> set xs \<Longrightarrow> \<not> fgt (xs ! np_argmin xs) y"
proof -
  let ?P = "\<lambda>x. \<exists>y\<in>set xs. fgt x y"
  have "takeWhile ?P xs \<noteq> xs" using least_exists [OF assms] unfolding takeWhile_eq_all_conv by blast
  moreover have "takeWhile ?P xs = xs" if "length (takeWhile ?P xs) = length xs"
    using that by (metis takeWhile_eq_take take_all order_refl)
  ultimately show len: "np_argmin xs < length xs"
    unfolding np_argmin_def using length_takeWhile_le [of ?P xs] le_neq_implies_less by blast
  then show "\<not> fgt (xs ! np_argmin xs) y" if "y \<in> set xs" for y
    using nth_length_takeWhile [of ?P xs] that unfolding np_argmin_def by blast
qed

lemma argmin_negative:
  assumes "\<forall>x\<in>set xs. fnonpos x" and "\<not> list_all (\<lambda>g. g = hd xs) xs"
  shows "np_argmin xs < length xs" "xs ! np_argmin xs \<noteq> Fin 0"
proof -
  have ne: "xs \<noteq> []" "NaN \<notin> set xs" using assms by auto
  show len: "np_argmin xs < length xs" using np_argmin_least(1) [OF ne] .
  show "xs ! np_argmin xs \<noteq> Fin 0"
  proof
    assume m: "xs ! np_argmin xs = Fin 0"
    have "x = Fin 0" if "x \<in> set xs" for x
      using np_argmin_least(2) [OF ne that] assms(1) that m by (cases x) force+
    then have "\<forall>x\<in>set xs. x = hd xs" using ne(1) by (metis list.set_sel(1))
    then show False using assms(2) by (simp add: list_all_iff)
  qed
qed

lemma keep_costs_frame:
  "keep_costs i rs s = Inr s' \<Longrightarrow> task_cts s' = task_cts s \<and> dead_tasks s' = dead_tasks s \<and> ts_ct s' = ts_ct s \<and> task_costs_history s' = task_costs_history s
     \<and> num_measures_per_round s' = num_measures_per_round s \<and> early_stopping_task s' = early_stopping_task s \<and> early_stopping_all s' = early_stopping_all s
     \<and> task_tags s' = task_tags s \<and> tag_to_group_id s' = tag_to_group_id s \<and> group_task_ids s' = group_task_ids s \<and> flop_cts s' = flop_cts s
     \<and> best_score s' = best_score s \<and> best_ct s' = best_ct s \<and> length (best_costs s') = length (best_costs s) \<and> length (task_best_cts s') = length (task_best_cts s)"
  by (induction rs arbitrary: s) (auto simp: res_bind_eq_Inr split: if_splits)

lemma tune_task_eq:
  assumes "tune_task env i s = Inr s'"
  obtains num rs p s2 d where "i < length (task_cts s)" "te_round env i (num_measures_per_round s) (ts_policies s) = ((num, rs), p)"
    "keep_costs i rs (s\<lparr>ts_policies := p, task_cts := (task_cts s)[i := task_cts s ! i + 1]\<rparr>) = Inr s2"
    "d = (if num = 0 \<or> (int (task_cts s2 ! i) - int (task_best_cts s2 ! i)) * num_measures_per_round s2 > early_stopping_task s2
          then List.insert i (dead_tasks s2) else dead_tasks s2)"
    "s' = s2\<lparr>dead_tasks := d, task_costs_history := (task_costs_history s2)[i := task_costs_history s2 ! i @ [best_costs s2 ! i]],
            ts_ct := ts_ct s2 + int num, cur_score := te_objective env (best_costs s2)\<rparr>"
proof -
  obtain num rs p where r: "te_round env i (num_measures_per_round s) (ts_policies s) = ((num, rs), p)" by (metis surj_pair)
  let ?s1 = "s\<lparr>ts_policies := p, task_cts := (task_cts s)[i := task_cts s ! i + 1]\<rparr>"
  have i: "i < length (task_cts s)" using assms by (simp add: tune_task_def split: if_splits)
  obtain s2 where s2: "keep_costs i rs ?s1 = Inr s2" using assms i r by (auto simp: tune_task_def res_bind_eq_Inr)
  let ?d = "if num = 0 \<or> (int (task_cts s2 ! i) - int (task_best_cts s2 ! i)) * num_measures_per_round s2 > early_stopping_task s2
          then List.insert i (dead_tasks s2) else dead_tasks s2"
  have "s' = s2\<lparr>dead_tasks := ?d, task_costs_history := (task_costs_history s2)[i := task_costs_history s2 ! i @ [best_costs s2 ! i]],
            ts_ct := ts_ct s2 + int num, cur_score := te_objective env (best_costs s2)\<rparr>"
    using assms i r s2 by (auto simp: tune_task_def Let_def split: if_splits)
  from that [OF i r s2 refl this] show ?thesis .
qed

lemma tune_task_frame:
  assumes "tune_task env i s = Inr s'"
  shows "i < length (task_cts s)" "length (task_cts s') = length (task_cts s)" "set (dead_tasks s) \<subseteq> set (dead_tasks s')"
    "ts_ct s \<le> ts_ct s'" "ts_ct s' = ts_ct s \<Longrightarrow> i \<in> set (dead_tasks s')"
proof -
  from assms obtain num rs p s2 d where t: "i < length (task_cts s)"
    "keep_costs i rs (s\<lparr>ts_policies := p, task_cts := (task_cts s)[i := task_cts s ! i + 1]\<rparr>) = Inr s2"
    "d = (if num = 0 \<or> (int (task_cts s2 ! i) - int (task_best_cts s2 ! i)) * num_measures_per_round s2 > early_stopping_task s2
          then List.insert i (dead_tasks s2) else dead_tasks s2)"
    "s' = s2\<lparr>dead_tasks := d, task_costs_history := (task_costs_history s2)[i := task_costs_history s2 ! i @ [best_costs s2 ! i]],
            ts_ct := ts_ct s2 + int num, cur_score := te_objective env (best_costs s2)\<rparr>" by (rule tune_task_eq)
  note k = keep_costs_frame [OF t(2)]
  show "i < length (task_cts s)" using t(1) .
  show "length (task_cts s') = length (task_cts s)" "set (dead_tasks s) \<subseteq> set (dead_tasks s')" "ts_ct s \<le> ts_ct s'"
    using k by (auto simp: t(3,4))
  show "i \<in> set (dead_tasks s')" if "ts_ct s' = ts_ct s" using that k by (simp add: t(3,4))
qed

lemma adjust_frame:
  assumes "adjust_similarity_group env i s = Inr s'"
  shows "\<exists>tags groups. s' = s\<lparr>task_tags := tags, group_task_ids := groups\<rparr>"
proof -
  have "s' = s \<or> (\<exists>tags groups. s' = s\<lparr>task_tags := tags, group_task_ids := groups\<rparr>)"
    using assms by (auto simp: adjust_similarity_group_def Let_def res_bind_eq_Inr split: option.splits if_splits list.splits)
  then show ?thesis
  proof
    assume "s' = s"
    then show ?thesis by (intro exI [of _ "task_tags s"] exI [of _ "group_task_ids s"]) simp
  qed
qed

lemma gradients_nonpos:
  assumes "res_map (gradient env s) is = Inr gs"
  shows "\<forall>g\<in>set gs. fnonpos g" "\<And>k. k < length is \<Longrightarrow> is ! k \<in> set (dead_tasks s) \<Longrightarrow> gs ! k = Fin 0"
proof -
  have gs: "length gs = length is" "\<And>k. k < length is \<Longrightarrow> gradient env s (is ! k) = Inr (gs ! k)" using assms by (auto simp: res_map_Inr)
  have "fnonpos g" if "gradient env s i = Inr g" for i g
    using that by (auto simp: gradient_def Let_def res_bind_eq_Inr split: if_splits)
  then show "\<forall>g\<in>set gs. fnonpos g" using gs by (metis in_set_conv_nth)
  show "gs ! k = Fin 0" if "k < length is" "is ! k \<in> set (dead_tasks s)" for k
    using gs(2) [OF that(1)] that(2) by (simp add: gradient_def)
qed

lemma choose_task_alive:
  assumes "choose_task env s idx ds = Inr (i, ds')" and "card (set (dead_tasks s)) < length (task_cts s)"
  shows "length ds' < length ds \<or> (ds' = ds \<and> i \<notin> set (dead_tasks s))"
proof -
  let ?n = "length (task_cts s)"
  obtain j where j: "j < ?n" "j \<notin> set (dead_tasks s)" using someone_alive [OF assms(2)] by blast
  show ?thesis
  proof (cases "te_strategy env = ''round-robin''")
    case True
    have "nat ((idx + 1) mod int ?n) < ?n" using j(1) pos_mod_bound [of "int ?n" "idx + 1"] by linarith
    then show ?thesis using assms(1) True skip_dead_alive [OF _ j] by (auto simp: choose_task_def Let_def)
  next
    case False
    then obtain gs where gs: "res_map (gradient env s) [0..<?n] = Inr gs"
      "(if list_all (\<lambda>g. g = hd gs) gs then res_bind (randint (int ?n) ds) (\<lambda>(i, ds'). Inr (nat i, ds')) else Inr (np_argmin gs, ds)) = Inr (i, ds')"
      using assms(1) by (auto simp: choose_task_def Let_def res_bind_eq_Inr split: if_splits)
    show ?thesis
    proof (cases "list_all (\<lambda>g. g = hd gs) gs")
      case True
      then show ?thesis using gs(2) by (auto simp: res_bind_eq_Inr dest: randint_shorter)
    next
      case False
      have len: "length gs = ?n" using gs(1) by (simp add: res_map_Inr)
      note m = argmin_negative [OF gradients_nonpos(1) [OF gs(1)] False]
      have "i = np_argmin gs" "ds' = ds" using gs(2) False by simp_all
      then show ?thesis using gradients_nonpos(2) [OF gs(1), of i] m len by auto
    qed
  qed
qed

definition tune_measure :: "int \<Rightarrow> int \<times> draws \<times> 'p tsched \<Rightarrow> nat" where
  "tune_measure trials = (\<lambda>(idx, ds, s). nat (trials - ts_ct s) + (length (task_cts s) - card (set (dead_tasks s) \<inter> {..<length (task_cts s)})) + length ds)"

lemma sched_step_measure:
  assumes "tune_guard trials s" and "sched_step env (idx, ds, s) = Inr (b, st')"
  shows "tune_measure trials st' < tune_measure trials (idx, ds, s)"
proof -
  let ?n = "length (task_cts s)"
  have g: "ts_ct s < trials" "card (set (dead_tasks s)) < ?n" using assms(1) by (auto simp: tune_guard_def)
  obtain i ds' s1 s2 where s: "choose_task env s idx ds = Inr (i, ds')" "tune_task env i s = Inr s1" "adjust_similarity_group env i s1 = Inr s2"
    and st': "\<exists>j t. st' = (j, ds', t) \<and> ts_ct t = ts_ct s2 \<and> dead_tasks t = dead_tasks s2 \<and> task_cts t = task_cts s2"
    using assms(2) by (fastforce simp: sched_step_def res_bind_eq_Inr split: if_splits)
  obtain tags groups where s2: "s2 = s1\<lparr>task_tags := tags, group_task_ids := groups\<rparr>" using adjust_frame [OF s(3)] by blast
  note t = tune_task_frame [OF s(2)]
  let ?D = "set (dead_tasks s) \<inter> {..<?n}" and ?D' = "set (dead_tasks s1) \<inter> {..<?n}"
  have sub: "?D \<subseteq> ?D'" and fin: "finite ?D'" "card ?D' \<le> ?n" "card ?D \<le> card ?D'"
    using t(3) card_mono [of "{..<?n}" ?D'] card_mono [of ?D' ?D] by auto
  have "nat (trials - ts_ct s1) + (?n - card ?D') + length ds' < nat (trials - ts_ct s) + (?n - card ?D) + length ds"
    using choose_task_alive [OF s(1) g(2)]
  proof
    assume "length ds' < length ds"
    moreover have "?n - card ?D' \<le> ?n - card ?D" using fin(3) by (rule diff_le_mono2)
    ultimately show ?thesis using t(4) by linarith
  next
    assume "ds' = ds \<and> i \<notin> set (dead_tasks s)"
    then have alive: "ds' = ds" "i \<notin> set (dead_tasks s)" by auto
    show ?thesis
    proof (cases "ts_ct s1 = ts_ct s")
      case True
      then have "i \<in> ?D'" "i \<notin> ?D" using t(1,5) alive by auto
      then have "card ?D < card ?D'" using sub fin(1) by (metis psubsetI psubset_card_mono)
      then have "?n - card ?D' < ?n - card ?D" using fin(2) by (intro diff_less_mono2) auto
      then show ?thesis using True alive(1) by simp
    next
      case False
      then have "nat (trials - ts_ct s1) < nat (trials - ts_ct s)" using t(4) g(1) by linarith
      moreover have "?n - card ?D' \<le> ?n - card ?D" using fin(3) by (rule diff_le_mono2)
      ultimately show ?thesis unfolding alive(1) by linarith
    qed
  qed
  then show ?thesis using st' s2 t(2) by (auto simp: tune_measure_def)
qed

function sched_loop :: "'p ts_env \<Rightarrow> int \<Rightarrow> int \<times> draws \<times> 'p tsched \<Rightarrow> (int \<times> draws \<times> 'p tsched) res" where
  "sched_loop env trials st =
     (if tune_guard trials (snd (snd st))
      then res_bind (sched_step env st) (\<lambda>(stop, st'). if stop then Inr st' else sched_loop env trials st')
      else Inr st)"
  by pat_completeness auto
termination
  by (relation "measure (\<lambda>(env, trials, st). tune_measure trials st)") (auto dest: sched_step_measure)

declare sched_loop.simps [simp del]

section \<open>Restoring and tuning\<close>

record sched_record =
  sr_target :: string
  sr_key :: string
  sr_error :: int
  sr_costs :: "rat list"

text \<open>The first loop of \<open>_restore_status\<close>; of two tasks with the same workload key, the later one gets the records.\<close>

fun restore_records :: "(string \<times> nat) list \<Rightarrow> string \<Rightarrow> sched_record list \<Rightarrow> 'p tsched \<Rightarrow> 'p tsched res" where
  "restore_records ids str_target [] s = Inr s"
| "restore_records ids str_target (r # rs) s =
     (if sr_target r \<noteq> str_target then restore_records ids str_target rs s
      else case map_of ids (sr_key r) of
        None \<Rightarrow> restore_records ids str_target rs s
      | Some i \<Rightarrow>
          let s1 = s\<lparr>task_cts := (task_cts s)[i := task_cts s ! i + 1]\<rparr>
          in if sr_error r = 0
             then res_bind (keep_costs i [sr_costs r] s1) (restore_records ids str_target rs)
             else restore_records ids str_target rs s1)"

text \<open>\<open>int(x / n + 0.5)\<close>.\<close>

definition rounds_of :: "int \<Rightarrow> nat \<Rightarrow> nat" where
  "rounds_of n x = nat \<lfloor>of_nat x / of_int n + 1 / 2 :: rat\<rfloor>"

definition restore_task :: "int \<Rightarrow> nat \<Rightarrow> 'p tsched \<Rightarrow> 'p tsched" where
  "restore_task per_round i s =
     (let s1 = (if int (task_cts s ! i) - int (task_best_cts s ! i) > early_stopping_task s
                then s\<lparr>dead_tasks := List.insert i (dead_tasks s)\<rparr> else s)
      in s1\<lparr>task_cts := (task_cts s1)[i := rounds_of per_round (task_cts s1 ! i)],
            task_best_cts := (task_best_cts s1)[i := rounds_of per_round (task_best_cts s1 ! i)],
            task_costs_history := (task_costs_history s1)[i := task_costs_history s1 ! i @ [best_costs s1 ! i]]\<rparr>)"

definition restore_status :: "'p ts_env \<Rightarrow> sched_task list \<Rightarrow> sched_record list \<Rightarrow> int \<Rightarrow> 'p tsched \<Rightarrow> 'p tsched res" where
  "restore_status env tasks recs per_round s =
     (let ids = rev (zip (map tk_key tasks) [0..<length tasks])
      in res_bind (restore_records ids (tk_target (hd tasks)) recs s) (\<lambda>s1.
           let s2 = foldl (\<lambda>s i. restore_task per_round i s) s1 [0..<length tasks]
           in Inr (s2\<lparr>cur_score := te_objective env (best_costs s2)\<rparr>)))"

record tune_options =
  to_trials :: int
  to_per_round :: int
  to_early_stopping :: int

definition warm_up :: "'p ts_env \<Rightarrow> 'p tsched \<Rightarrow> 'p tsched res" where
  "warm_up env s = res_foldl (\<lambda>s i. if task_cts s ! i = 0 then tune_task env i s else Inr s) s [0..<length (task_cts s)]"

definition sched_tune ::
  "'p ts_env \<Rightarrow> sched_task list \<Rightarrow> tune_options \<Rightarrow> string option \<Rightarrow> int option \<Rightarrow> sched_record list option \<Rightarrow> draws \<Rightarrow> 'p tsched \<Rightarrow> 'p tsched res" where
  "sched_tune env tasks opts policy per_task_early recs ds s =
     (let per_round = min (to_per_round opts) (to_trials opts div int (length tasks));
          s0 = s\<lparr>early_stopping_all := (if to_early_stopping opts < 0 then 10 ^ 20 else to_early_stopping opts),
                 early_stopping_task := (case per_task_early of None \<Rightarrow> 10 ^ 20 | Some k \<Rightarrow> k), ts_ct := 0, best_ct := 0,
                 num_measures_per_round := per_round\<rparr>
      in if per_round \<le> 0 then Inl ValueError
         else res_bind (case recs of None \<Rightarrow> Inr s0 | Some rs \<Rightarrow> restore_status env tasks rs per_round s0) (\<lambda>s1.
              res_bind (case policy of None \<Rightarrow> Inr () | Some name \<Rightarrow> res_bind (search_policy_kind name) (\<lambda>_. Inr ())) (\<lambda>_.
              res_bind (warm_up env s1) (\<lambda>s2.
              res_bind (sched_loop env (to_trials opts) (- 1, ds, s2\<lparr>best_ct := ts_ct s2, best_score := cur_score s2\<rparr>)) (\<lambda>(_, _, s3). Inr s3)))))"

end
