(* ===== verification/TaskSchedulerCorrect.thy ===== *)
theory TaskSchedulerCorrect
  imports TaskScheduler
begin

text \<open>
  The task scheduler keeps its tables consistent: the cost histories never rise, and a task that has a group is a member of it.
  It follows that its assertion on the gradients never fails, that every task is tuned, that the budget is respected, that the best costs
  are the least measured ones, and that round robin is fair.
\<close>

section \<open>Invariant\<close>

definition mean :: "rat list \<Rightarrow> rat" where
  "mean xs = sum_list xs / of_nat (length xs)"

text \<open>What is assumed of a round of search: every result has costs, and they are not negative.\<close>

definition results_ok :: "rat list list \<Rightarrow> bool" where
  "results_ok rs \<longleftrightarrow> (\<forall>r\<in>set rs. r \<noteq> [] \<and> (\<forall>c\<in>set r. 0 \<le> c))"

definition rounds_ok :: "'p ts_env \<Rightarrow> bool" where
  "rounds_ok env \<longleftrightarrow> (\<forall>i k p. results_ok (snd (fst (te_round env i k p))))"

definition groups_ok :: "nat \<Rightarrow> 'p tsched \<Rightarrow> bool" where
  "groups_ok n s \<longleftrightarrow> (\<forall>i < n. \<forall>g. group_of s i = Some g \<longrightarrow> g < length (group_task_ids s) \<and> i \<in> set (group_task_ids s ! g) \<and> 0 \<le> flop_cts s ! i)
     \<and> (\<forall>g < length (group_task_ids s). distinct (group_task_ids s ! g))"

definition ts_ok :: "nat \<Rightarrow> 'p tsched \<Rightarrow> bool" where
  "ts_ok n s \<longleftrightarrow> 0 < n \<and> length (task_cts s) = n \<and> length (task_best_cts s) = n \<and> length (task_costs_history s) = n \<and> length (best_costs s) = n
     \<and> length (task_tags s) = n \<and> set (dead_tasks s) \<subseteq> {..<n} \<and> groups_ok n s
     \<and> (\<forall>i < n. 0 \<le> best_costs s ! i \<and> sorted_wrt (\<ge>) (task_costs_history s ! i) \<and> (\<forall>c\<in>set (task_costs_history s ! i). best_costs s ! i \<le> c))"

lemma ts_ok_cong:
  assumes "ts_ok n s" and "task_cts s' = task_cts s" "task_best_cts s' = task_best_cts s" "task_costs_history s' = task_costs_history s"
    "best_costs s' = best_costs s" "task_tags s' = task_tags s" "dead_tasks s' = dead_tasks s" "group_task_ids s' = group_task_ids s"
    "flop_cts s' = flop_cts s" "tag_to_group_id s' = tag_to_group_id s"
  shows "ts_ok n s'"
proof -
  have "group_of s' = group_of s" using assms by (simp add: group_of_def fun_eq_iff split: option.split)
  then show ?thesis using assms by (simp add: ts_ok_def groups_ok_def)
qed

lemma mean_nonneg: "\<forall>c\<in>set r. 0 \<le> c \<Longrightarrow> 0 \<le> mean r"
  by (auto simp: mean_def intro!: divide_nonneg_nonneg sum_list_nonneg)

lemma foldl_min_le: "foldl min c xs \<le> c" "x \<in> set xs \<Longrightarrow> foldl min c xs \<le> x" for c :: rat
proof -
  have "foldl min c xs \<le> c \<and> (\<forall>x\<in>set xs. foldl min c xs \<le> x)"
    by (induction xs arbitrary: c) (auto, (meson min.boundedE)+)
  then show "foldl min c xs \<le> c" "x \<in> set xs \<Longrightarrow> foldl min c xs \<le> x" by auto
qed

lemma foldl_min_mem: "foldl min c xs \<in> insert c (set xs)" for c :: rat
  by (induction xs arbitrary: c) (auto simp: min_def split: if_splits)

section \<open>One round\<close>

lemma keep_costs_ok:
  assumes "results_ok rs" and "i < length (best_costs s)"
  shows "\<exists>b. keep_costs i rs s = Inr (s\<lparr>task_best_cts := b, best_costs := (best_costs s)[i := foldl min (best_costs s ! i) (map mean rs)]\<rparr>)
    \<and> length b = length (task_best_cts s)"
  using assms
proof (induction rs arbitrary: s)
  case Nil
  then show ?case by (intro exI [of _ "task_best_cts s"]) simp
next
  case (Cons r rs)
  let ?s = "if mean r < best_costs s ! i then s\<lparr>task_best_cts := (task_best_cts s)[i := task_cts s ! i], best_costs := (best_costs s)[i := mean r]\<rparr> else s"
  have step: "keep_costs i (r # rs) s = keep_costs i rs ?s"
    using Cons.prems(1) by (simp add: results_ok_def array_mean_def mean_def)
  have s: "length (best_costs ?s) = length (best_costs s)" "length (task_best_cts ?s) = length (task_best_cts s)"
    "best_costs ?s ! i = min (best_costs s ! i) (mean r)" "(best_costs ?s)[i := c] = (best_costs s)[i := c]" for c
    using Cons.prems(2) by (auto simp: min_def)
  obtain b where b: "keep_costs i rs ?s = Inr (?s\<lparr>task_best_cts := b, best_costs := (best_costs ?s)[i := foldl min (best_costs ?s ! i) (map mean rs)]\<rparr>)"
    "length b = length (task_best_cts ?s)"
    using Cons.IH [of ?s] Cons.prems s(1) by (auto simp: results_ok_def)
  have "?s\<lparr>task_best_cts := b, best_costs := c\<rparr> = s\<lparr>task_best_cts := b, best_costs := c\<rparr>" for c by simp
  then show ?case using b step s by (intro exI [of _ b]) simp
qed

lemma tune_task_ok:
  assumes ok: "ts_ok n s" and env: "rounds_ok env" and i: "i < n"
    and r: "te_round env i (num_measures_per_round s) (ts_policies s) = ((num, rs), p)"
  shows "\<exists>s'. tune_task env i s = Inr s' \<and> ts_ok n s' \<and> task_cts s' = (task_cts s)[i := task_cts s ! i + 1] \<and> ts_ct s' = ts_ct s + int num
    \<and> best_costs s' = (best_costs s)[i := foldl min (best_costs s ! i) (map mean rs)] \<and> cur_score s' = te_objective env (best_costs s')
    \<and> num_measures_per_round s' = num_measures_per_round s \<and> ts_policies s' = p \<and> best_score s' = best_score s
    \<and> set (dead_tasks s) \<subseteq> set (dead_tasks s')"
proof -
  have len: "length (task_cts s) = n" "length (best_costs s) = n" "length (task_costs_history s) = n" using ok by (auto simp: ts_ok_def)
  have rs: "results_ok rs" using env r unfolding rounds_ok_def by (metis fst_conv snd_conv)
  let ?s1 = "s\<lparr>ts_policies := p, task_cts := (task_cts s)[i := task_cts s ! i + 1]\<rparr>"
  let ?c = "foldl min (best_costs s ! i) (map mean rs)"
  obtain b where b: "keep_costs i rs ?s1 = Inr (?s1\<lparr>task_best_cts := b, best_costs := (best_costs s)[i := ?c]\<rparr>)" "length b = length (task_best_cts s)"
    using keep_costs_ok [OF rs, of i ?s1] i len by auto
  let ?s2 = "?s1\<lparr>task_best_cts := b, best_costs := (best_costs s)[i := ?c]\<rparr>"
  define d where "d = (if num = 0 \<or> (int (task_cts ?s2 ! i) - int (task_best_cts ?s2 ! i)) * num_measures_per_round ?s2 > early_stopping_task ?s2
      then List.insert i (dead_tasks ?s2) else dead_tasks ?s2)"
  define s' where "s' = ?s2\<lparr>dead_tasks := d, task_costs_history := (task_costs_history s)[i := task_costs_history s ! i @ [?c]],
      ts_ct := ts_ct s + int num, cur_score := te_objective env ((best_costs s)[i := ?c])\<rparr>"
  have run: "tune_task env i s = Inr s'"
    using i len r b(1) by (simp add: tune_task_def Let_def s'_def d_def)
  have c: "?c \<le> best_costs s ! i" "0 \<le> ?c"
  proof -
    show "?c \<le> best_costs s ! i" by (rule foldl_min_le)
    have "0 \<le> best_costs s ! i" "\<forall>r\<in>set rs. 0 \<le> mean r" using ok i rs mean_nonneg by (auto simp: ts_ok_def results_ok_def)
    then show "0 \<le> ?c" using foldl_min_mem [of "best_costs s ! i" "map mean rs"] by auto
  qed
  have "group_of s' = group_of s" by (simp add: group_of_def fun_eq_iff s'_def split: option.split)
  then have "groups_ok n s'" using ok by (simp add: ts_ok_def groups_ok_def s'_def)
  moreover have "0 \<le> best_costs s' ! j \<and> sorted_wrt (\<ge>) (task_costs_history s' ! j) \<and> (\<forall>c\<in>set (task_costs_history s' ! j). best_costs s' ! j \<le> c)"
    if "j < n" for j
  proof -
    have j: "0 \<le> best_costs s ! j" "sorted_wrt (\<ge>) (task_costs_history s ! j)" "\<forall>c\<in>set (task_costs_history s ! j). best_costs s ! j \<le> c"
      using ok that by (auto simp: ts_ok_def)
    then show ?thesis using c i len that by (cases "j = i") (force simp: s'_def sorted_wrt_append)+
  qed
  moreover have "set d \<subseteq> {..<n}" using ok i by (auto simp: d_def ts_ok_def)
  ultimately have "ts_ok n s'" using ok b(2) by (simp add: ts_ok_def s'_def)
  moreover have "set (dead_tasks s) \<subseteq> set d" by (auto simp: d_def)
  ultimately show ?thesis using run len i by (simp add: s'_def)
qed

lemma adjust_ok:
  assumes ok: "ts_ok n s" and i: "i < n"
  shows "\<exists>s'. adjust_similarity_group env i s = Inr s' \<and> ts_ok n s'"
proof (cases "group_of s i")
  case None
  then show ?thesis using ok by (simp add: adjust_similarity_group_def)
next
  case (Some g)
  let ?ids = "group_task_ids s ! g"
  have g: "g < length (group_task_ids s)" "i \<in> set ?ids" "distinct ?ids" using ok i Some by (auto simp: ts_ok_def groups_ok_def)
  show ?thesis
  proof (cases "length ?ids \<le> 1")
    case True
    then show ?thesis using ok Some by (simp add: adjust_similarity_group_def)
  next
    case False
    obtain best where best: "py_fmax (map (speed s) ?ids) = Inr best" using False by (cases ?ids) (auto simp: py_fmax_def)
    have "filter (\<lambda>j. j \<noteq> i) ?ids \<noteq> []"
    proof
      assume "filter (\<lambda>j. j \<noteq> i) ?ids = []"
      then have "set ?ids \<subseteq> {i}" by (auto simp: filter_empty_conv)
      then have "length ?ids \<le> 1" using g(3) distinct_card [OF g(3)] card_mono [of "{i}" "set ?ids"] by simp
      then show False using False by simp
    qed
    then obtain j js where js: "filter (\<lambda>j. j \<noteq> i) ?ids = j # js" by (cases "filter (\<lambda>j. j \<noteq> i) ?ids") auto
    let ?s = "s\<lparr>task_tags := (task_tags s)[i := None], group_task_ids := (group_task_ids s)[g := remove1 i ?ids]\<rparr>"
    have "group_of ?s k = (if k = i then None else group_of s k)" if "k < n" for k
      using that ok i by (simp add: group_of_def ts_ok_def split: option.split)
    then have "groups_ok n ?s" using ok g unfolding ts_ok_def groups_ok_def by (auto simp: nth_list_update)
    then have "ts_ok n ?s" using ok by (simp add: ts_ok_def)
    then show ?thesis using ok Some False best js g(2) by (simp add: adjust_similarity_group_def Let_def)
  qed
qed

section \<open>The gradients\<close>

text \<open>The parameters: weights between zero and one, a window of at least one round, and an objective that does not fall when a latency rises.\<close>

definition params_ok :: "'p ts_env \<Rightarrow> bool" where
  "params_ok env \<longleftrightarrow> 0 \<le> te_alpha env \<and> te_alpha env \<le> 1 \<and> 0 \<le> te_beta env \<and> 0 < te_window env
     \<and> (\<forall>xs ys. list_all2 (\<le>) xs ys \<longrightarrow> te_objective env xs \<le> te_objective env ys)"

lemma default_objective_mono:
  assumes "\<forall>ws. weights = Some ws \<longrightarrow> (\<forall>w\<in>set ws. 0 \<le> w)" and "list_all2 (\<le>) xs ys"
  shows "default_objective weights xs \<le> default_objective weights ys"
proof -
  have zip: "sum_list (map2 (*) xs ws) \<le> sum_list (map2 (*) ys ws)" if "\<forall>w\<in>set ws. 0 \<le> w" for ws :: "rat list"
    using assms(2) that
  proof (induction arbitrary: ws rule: list_all2_induct)
    case (Cons x xs y ys)
    then show ?case by (cases ws) (auto intro: add_mono mult_right_mono)
  qed simp
  have "sum_list xs \<le> sum_list ys" using assms(2) by (induction rule: list_all2_induct) (auto intro: add_mono)
  then show ?thesis using zip assms(1) by (auto simp: default_objective_def split: option.split list.split)
qed

lemma backward_nonpos:
  assumes ok: "ts_ok n s" and i: "i < n" and w: "0 < te_window env"
  shows "\<exists>x \<le> 0. backward_grad env s i = Inr (Fin x)"
proof -
  let ?last = "int (task_cts s ! i) - 1" and ?h = "task_costs_history s ! i" and ?w = "te_window env"
  show ?thesis
  proof (cases "?last < int (length ?h) \<and> ?last - ?w \<ge> 0")
    case True
    have "sorted_wrt (\<ge>) ?h" using ok i by (auto simp: ts_ok_def)
    then have "?h ! nat ?last \<le> ?h ! nat (?last - ?w)" using True w by (intro sorted_wrt_nth_less [of "(\<ge>)"]) auto
    moreover have "backward_grad env s i = Inr (Fin ((?h ! nat ?last - ?h ! nat (?last - ?w)) / of_int ?w))"
      using True w by (simp add: backward_grad_def Let_def py_get_nonneg)
    ultimately show ?thesis using w by (intro exI [of _ "(?h ! nat ?last - ?h ! nat (?last - ?w)) / of_int ?w"]) (simp add: divide_nonpos_pos)
  next
    case False
    then show ?thesis by (auto simp: backward_grad_def Let_def)
  qed
qed

lemma py_fmin2_below: "g \<noteq> NegInf \<Longrightarrow> \<exists>b \<le> a. py_fmin2 (Fin a) g = Fin b"
  by (cases g) (auto simp: py_fmin2_def intro: exI [of _ a])

lemma fdiv_nonneg: "0 \<le> x \<Longrightarrow> fdiv x g \<noteq> NegInf"
  by (cases g) auto

lemma gradient_ok:
  assumes ok: "ts_ok n s" and i: "i < n" and tuned: "0 < task_cts s ! i" and env: "params_ok env"
  shows "\<exists>g. gradient env s i = Inr g"
proof (cases "i \<in> set (dead_tasks s)")
  case True
  then show ?thesis by (simp add: gradient_def)
next
  case False
  let ?c = "best_costs s ! i"
  define chain where "chain = (te_objective env (best_costs s) - te_objective env ((best_costs s)[i := ?c - 1 / 10000])) / (1 / 10000)"
  have "list_all2 (\<le>) ((best_costs s)[i := ?c - 1 / 10000]) (best_costs s)"
    using ok i by (auto simp: list_all2_conv_all_nth nth_list_update ts_ok_def)
  then have chain: "0 \<le> chain" using env unfolding params_ok_def chain_def by simp
  obtain bg where bg: "bg \<le> 0" "backward_grad env s i = Inr (Fin bg)" using backward_nonpos [OF ok i, of env] env unfolding params_ok_def by blast
  let ?g1 = "?c - ?c / of_nat (task_cts s ! i)"
  have g1: "fadd (Fin ?c) (fscale (- 1) (fdiv ?c (Fin (of_nat (task_cts s ! i))))) = Fin ?g1" using tuned by simp
  define second where "second = (case group_of s i of
                      None \<Rightarrow> Inr (Fin (te_beta env * 10 ^ 30))
                    | Some g \<Rightarrow>
                        if length (group_task_ids s ! g) > 1
                        then res_bind (py_fmax (map (speed s) (group_task_ids s ! g))) (\<lambda>best. Inr (fdiv (te_beta env * flop_cts s ! i) best))
                        else Inr (Fin (te_beta env * 10 ^ 30)))"
  have "\<exists>g. second = Inr g \<and> g \<noteq> NegInf"
  proof (cases "group_of s i")
    case (Some g)
    then have flop: "0 \<le> te_beta env * flop_cts s ! i" using ok i env by (auto simp: ts_ok_def groups_ok_def params_ok_def)
    have "\<exists>best. py_fmax (map (speed s) (group_task_ids s ! g)) = Inr best" if "length (group_task_ids s ! g) > 1"
      using that by (cases "group_task_ids s ! g") (auto simp: py_fmax_def)
    then show ?thesis using Some fdiv_nonneg [OF flop] by (auto simp: second_def)
  qed (simp add: second_def)
  then obtain g2 where g2: "second = Inr g2" "g2 \<noteq> NegInf" by blast
  obtain b where b: "b \<le> ?g1" "py_fmin2 (Fin ?g1) g2 = Fin b" using py_fmin2_below [OF g2(2)] by blast
  let ?grad = "chain * (te_alpha env * bg + (1 - te_alpha env) * (- ?c + b))"
  have "?c / of_nat (task_cts s ! i) \<ge> 0" using ok i by (auto simp: ts_ok_def)
  then have "- ?c + b \<le> 0" using b(1) by linarith
  moreover have "0 \<le> te_alpha env" "0 \<le> 1 - te_alpha env" using env by (auto simp: params_ok_def)
  ultimately have "te_alpha env * bg \<le> 0" "(1 - te_alpha env) * (- ?c + b) \<le> 0" using bg(1) by (simp_all add: mult_nonneg_nonpos)
  then have "?grad \<le> 0" using chain by (intro mult_nonneg_nonpos) linarith+
  moreover have "gradient env s i = (if fnonpos (Fin ?grad) then Inr (Fin ?grad) else Inl AssertionError)"
    using False by (simp only: gradient_def Let_def if_False bg(2) res_bind.simps g1 second_def [symmetric] chain_def [symmetric] g2(1) b(2)
        fscale.simps fadd.simps)
  ultimately show ?thesis by simp
qed

section \<open>The main loop\<close>

definition all_tuned :: "nat \<Rightarrow> 'p tsched \<Rightarrow> bool" where
  "all_tuned n s \<longleftrightarrow> (\<forall>i < n. 0 < task_cts s ! i)"

definition strategy_ok :: "'p ts_env \<Rightarrow> bool" where
  "strategy_ok env \<longleftrightarrow> te_strategy env = ''round-robin'' \<or> te_strategy env = ''gradient''"

lemma choose_task_ok:
  assumes ok: "ts_ok n s" "all_tuned n s" and env: "params_ok env" "strategy_ok env"
  obtains (chosen) i ds' where "choose_task env s idx ds = Inr (i, ds')" "i < n"
  | (no_draws) "choose_task env s idx ds = Inl NoDraws" "te_strategy env = ''gradient''"
proof (cases "te_strategy env = ''round-robin''")
  case True
  have n: "0 < n" "length (task_cts s) = n" using ok(1) by (auto simp: ts_ok_def)
  then have "nat ((idx + 1) mod int n) < n" using pos_mod_bound [of "int n" "idx + 1"] by linarith
  then show ?thesis using True n skip_dead_range [OF n(1)] chosen by (simp add: choose_task_def)
next
  case False
  then have g: "te_strategy env = ''gradient''" using env(2) by (simp add: strategy_ok_def)
  have n: "0 < n" "length (task_cts s) = n" using ok(1) by (auto simp: ts_ok_def)
  have "\<exists>gs. res_map (gradient env s) [0..<n] = Inr gs"
    using gradient_ok [OF ok(1) _ _ env(1)] ok(2) unfolding all_tuned_def
    by (intro exI [of _ "map (\<lambda>i. projr (gradient env s i)) [0..<n]"] res_map_total) force
  then obtain gs where gs: "res_map (gradient env s) [0..<n] = Inr gs" by blast
  then have len: "length gs = n" by (simp add: res_map_Inr)
  show ?thesis
  proof (cases "list_all (\<lambda>g. g = hd gs) gs")
    case True
    show ?thesis
    proof (cases ds)
      case Nil
      then show ?thesis using no_draws g True gs n by (simp add: choose_task_def randint_def)
    next
      case (Cons d ds')
      have "nat (d mod int n) < n" using n pos_mod_bound [of "int n" d] by linarith
      then show ?thesis using chosen [of "nat (d mod int n)" ds'] Cons g True gs n by (simp add: choose_task_def randint_def)
    qed
  next
    case False
    then have "np_argmin gs < n" using argmin_negative(1) [OF gradients_nonpos(1) [OF gs]] len by simp
    then show ?thesis using chosen False g gs n by (simp add: choose_task_def)
  qed
qed

lemma sched_step_ok:
  assumes ok: "ts_ok n s" "all_tuned n s" and env: "params_ok env" "strategy_ok env" "rounds_ok env"
  obtains (no_draws) "sched_step env (idx, ds, s) = Inl NoDraws" "te_strategy env = ''gradient''"
  | (stepped) i ds' num rs p s1 s2 b t where "choose_task env s idx ds = Inr (i, ds')" "i < n"
      "te_round env i (num_measures_per_round s) (ts_policies s) = ((num, rs), p)" "tune_task env i s = Inr s1" "ts_ok n s1"
      "ts_ct s1 = ts_ct s + int num" "task_cts s1 = (task_cts s)[i := task_cts s ! i + 1]" "num_measures_per_round s1 = num_measures_per_round s"
      "best_costs s1 = (best_costs s)[i := foldl min (best_costs s ! i) (map mean rs)]" "ts_policies s1 = p" "set (dead_tasks s) \<subseteq> set (dead_tasks s1)"
      "sched_step env (idx, ds, s) = Inr (b, int i, ds', t)" "ts_ok n t" "\<exists>tags groups sc c. t = s1\<lparr>task_tags := tags, group_task_ids := groups, best_score := sc, best_ct := c\<rparr>"
proof -
  consider (chosen) i ds' where "choose_task env s idx ds = Inr (i, ds')" "i < n"
    | (none) "choose_task env s idx ds = Inl NoDraws" "te_strategy env = ''gradient''"
    using choose_task_ok [OF ok env(1,2), of idx ds] by metis
  then show ?thesis
  proof cases
    case (chosen i ds')
    obtain num rs p where r: "te_round env i (num_measures_per_round s) (ts_policies s) = ((num, rs), p)" by (metis surj_pair)
    obtain s1 where s1: "tune_task env i s = Inr s1" "ts_ok n s1" "task_cts s1 = (task_cts s)[i := task_cts s ! i + 1]" "ts_ct s1 = ts_ct s + int num"
      "best_costs s1 = (best_costs s)[i := foldl min (best_costs s ! i) (map mean rs)]" "num_measures_per_round s1 = num_measures_per_round s"
      "ts_policies s1 = p" "set (dead_tasks s) \<subseteq> set (dead_tasks s1)"
      using tune_task_ok [OF ok(1) env(3) chosen(2) r] by blast
    obtain s2 where s2: "adjust_similarity_group env i s1 = Inr s2" "ts_ok n s2" using adjust_ok [OF s1(2) chosen(2)] by blast
    obtain tags groups where frame: "s2 = s1\<lparr>task_tags := tags, group_task_ids := groups\<rparr>" using adjust_frame [OF s2(1)] by blast
    define t where "t = (if cur_score s2 < best_score s2 then s2\<lparr>best_score := cur_score s2, best_ct := ts_ct s2\<rparr> else s2)"
    have "\<exists>b. sched_step env (idx, ds, s) = Inr (b, int i, ds', t)"
      using chosen(1) s1(1) s2(1) by (cases "cur_score s2 < best_score s2") (auto simp: sched_step_def t_def)
    moreover have "ts_ok n t" by (rule ts_ok_cong [OF s2(2)]) (simp_all add: t_def)
    moreover have "\<exists>tags groups sc c. t = s1\<lparr>task_tags := tags, group_task_ids := groups, best_score := sc, best_ct := c\<rparr>"
    proof (cases "cur_score s2 < best_score s2")
      case True
      then show ?thesis by (intro exI [of _ tags] exI [of _ groups] exI [of _ "cur_score s2"] exI [of _ "ts_ct s2"]) (simp add: t_def frame)
    next
      case False
      then show ?thesis by (intro exI [of _ tags] exI [of _ groups] exI [of _ "best_score s1"] exI [of _ "best_ct s1"]) (simp add: t_def frame)
    qed
    ultimately show ?thesis using stepped [OF chosen r s1(1,2,4,3,6,5,7,8)] by blast
  next
    case none
    then show ?thesis using no_draws by (simp add: sched_step_def)
  qed
qed

text \<open>The rule for the loop: an invariant of the iterations holds at the end, and the loop is left because its guard fails or early stopping strikes.\<close>

lemma sched_loop_rule:
  assumes "P st" and "\<And>st b st'. P st \<Longrightarrow> tune_guard trials (snd (snd st)) \<Longrightarrow> sched_step env st = Inr (b, st') \<Longrightarrow> P st'"
    and "\<And>st e. P st \<Longrightarrow> tune_guard trials (snd (snd st)) \<Longrightarrow> sched_step env st = Inl e \<Longrightarrow> E e"
  shows "case sched_loop env trials st of Inl e \<Rightarrow> E e | Inr st' \<Rightarrow> P st'"
proof -
  have "case sched_loop env' trials' st of Inl e \<Rightarrow> E e | Inr st' \<Rightarrow> P st'" if "P st" "env' = env" "trials' = trials" for env' trials'
    using that
  proof (induction env' trials' st rule: sched_loop.induct)
    case (1 env' trials' st)
    show ?case
    proof (cases "tune_guard trials (snd (snd st)) \<and> (\<exists>b st'. sched_step env st = Inr (b, st'))")
      case True
      then obtain b st' where s: "tune_guard trials (snd (snd st))" "sched_step env st = Inr (b, st')" by blast
      then have "P st'" using assms(2) "1.prems"(1) by blast
      have "case sched_loop env' trials' st' of Inl e \<Rightarrow> E e | Inr st' \<Rightarrow> P st'" if "\<not> b"
        by (rule "1.IH") (use s \<open>P st'\<close> that "1.prems" in auto)
      then show ?thesis using \<open>P st'\<close> "1.prems"(2,3) s by (cases b) (simp_all add: sched_loop.simps [of _ _ st])
    next
      case False
      then show ?thesis using "1.prems" assms(3) [of st]
        by (cases "sched_step env st") (auto simp: sched_loop.simps [of _ _ st] split: prod.split)
    qed
  qed
  then show ?thesis using assms(1) by blast
qed

section \<open>Setting up\<close>

definition grouped :: "string list \<Rightarrow> (string \<times> nat) list \<times> nat list list \<Rightarrow> bool" where
  "grouped tags = (\<lambda>(ids, groups). length groups = length ids \<and> map_of ids [] = None \<and> (\<forall>tag g. map_of ids tag = Some g \<longrightarrow> g < length groups)
     \<and> (\<forall>i < length tags. tags ! i \<noteq> [] \<longrightarrow> (\<exists>g. map_of ids (tags ! i) = Some g \<and> i \<in> set (groups ! g)))
     \<and> (\<forall>g < length groups. distinct (groups ! g) \<and> set (groups ! g) \<subseteq> {..<length tags}))"

lemma grouped_add:
  assumes "grouped tags gs"
  shows "grouped (tags @ [tag]) (add_to_group (length tags) tag gs)"
proof (cases "tag = []")
  case True
  then show ?thesis using assms by (fastforce simp: grouped_def add_to_group_def nth_append less_Suc_eq split: prod.splits)
next
  case False
  obtain ids groups where gs: "gs = (ids, groups)" by fastforce
  define ids' where "ids' = (if map_of ids tag = None then ids @ [(tag, length ids)] else ids)"
  define groups' where "groups' = (if map_of ids tag = None then groups @ [[]] else groups)"
  define g where "g = the (map_of ids' tag)"
  have add: "add_to_group (length tags) tag gs = (ids', groups'[g := groups' ! g @ [length tags]])"
    using False by (simp add: gs add_to_group_def ids'_def groups'_def g_def Let_def)
  have old: "length groups = length ids" "map_of ids [] = None" "\<And>t k. map_of ids t = Some k \<Longrightarrow> k < length groups"
    "\<And>i. i < length tags \<Longrightarrow> tags ! i \<noteq> [] \<Longrightarrow> \<exists>k. map_of ids (tags ! i) = Some k \<and> i \<in> set (groups ! k)"
    "\<And>k. k < length groups \<Longrightarrow> distinct (groups ! k) \<and> set (groups ! k) \<subseteq> {..<length tags}"
    using assms by (auto simp: gs grouped_def)
  have len: "length groups' = length ids'" using old(1) by (simp add: ids'_def groups'_def)
  have ids: "map_of ids' t = (if t = tag \<and> map_of ids tag = None then Some (length ids) else map_of ids t)" for t
    by (auto simp: ids'_def map_add_def split: option.split)
  have g: "map_of ids' tag = Some g" "g < length groups'" using ids [of tag] old(1,3) by (auto simp: g_def groups'_def)
  have val: "k < length groups'" if "map_of ids' t = Some k" for t k
    using that ids [of t] old(1) old(3) [of t k] by (auto simp: groups'_def split: if_splits)
  have nth: "groups' ! k = (if k < length groups then groups ! k else [])" if "k < length groups'" for k
    using that by (auto simp: groups'_def nth_append split: if_splits)
  have "\<exists>k. map_of ids' ((tags @ [tag]) ! i) = Some k \<and> i \<in> set (groups'[g := groups' ! g @ [length tags]] ! k)"
    if i: "i < length (tags @ [tag])" and ne: "(tags @ [tag]) ! i \<noteq> []" for i
  proof (cases "i = length tags")
    case True
    then show ?thesis using g by auto
  next
    case False
    then have "i < length tags" "(tags @ [tag]) ! i = tags ! i" using i by (auto simp: nth_append)
    moreover then obtain k where "map_of ids (tags ! i) = Some k" "i \<in> set (groups ! k)" using old(4) [of i] ne by auto
    ultimately show ?thesis using ids [of "tags ! i"] nth [of k] old(3) [of "tags ! i" k] val [of "tags ! i" k] g(2)
      by (auto simp: nth_list_update)
  qed
  moreover have "distinct (groups'[g := groups' ! g @ [length tags]] ! k) \<and> set (groups'[g := groups' ! g @ [length tags]] ! k) \<subseteq> {..<length (tags @ [tag])}"
    if "k < length groups'" for k
    using nth [OF that] nth [OF g(2)] old(5) [of k] old(5) [of g] g(2) by (auto simp: nth_list_update less_Suc_eq)
  ultimately show ?thesis
    unfolding add grouped_def using len val ids [of "[]"] False old(2) by auto
qed

lemma grouped_fold: "grouped tags (foldl (\<lambda>g (i, tag). add_to_group i tag g) ([], []) (enumerate 0 tags))"
proof (induction tags rule: rev_induct)
  case Nil
  then show ?case by (simp add: grouped_def)
next
  case (snoc tag tags)
  then show ?case using grouped_add by (simp add: enumerate_append_eq)
qed

lemma sched_init_ok:
  assumes "sched_init log_flop env tasks p = Inr s" and flops: "\<forall>t\<in>set tasks. 0 \<le> tk_flop t"
  shows "ts_ok (length tasks) s" "task_cts s = replicate (length tasks) 0" "strategy_ok env" "best_costs s = replicate (length tasks) (10 ^ 10)"
    "dead_tasks s = []" "ts_policies s = p" "task_costs_history s = replicate (length tasks) []"
proof -
  let ?n = "length tasks"
  obtain tags where tags: "tasks \<noteq> []" "te_strategy env \<in> {''round-robin'', ''gradient''}" "res_map (derive_similarity_tag log_flop) tasks = Inr tags"
    using assms(1) by (auto simp: sched_init_def Let_def res_bind_eq_Inr split: if_splits)
  obtain ids groups where g: "foldl (\<lambda>g (i, tag). add_to_group i tag g) ([], []) (enumerate 0 tags) = (ids, groups)" by fastforce
  have s: "s = \<lparr>task_cts = replicate ?n 0, task_best_cts = replicate ?n 0, task_costs_history = replicate ?n [],
                        best_costs = replicate ?n (10 ^ 10), cur_score = te_objective env (replicate ?n (10 ^ 10)), ts_ct = 0, best_ct = 0, best_score = 0,
                        num_measures_per_round = 0, early_stopping_all = 0, early_stopping_task = 0, dead_tasks = [],
                        task_tags = map Some tags, tag_to_group_id = ids, group_task_ids = groups, flop_cts = map tk_flop tasks, ts_policies = p\<rparr>"
    using assms(1) tags g by (auto simp: sched_init_def Let_def)
  have grp: "grouped tags (ids, groups)" using grouped_fold [of tags] g by simp
  have len: "length tags = ?n" "\<And>i. i < ?n \<Longrightarrow> derive_similarity_tag log_flop (tasks ! i) = Inr (tags ! i)" using tags(3) by (auto simp: res_map_Inr)
  have "groups_ok ?n s"
    unfolding groups_ok_def
  proof (intro conjI allI impI)
    fix i k assume i: "i < ?n" and k: "group_of s i = Some k"
    then have m: "map_of ids (tags ! i) = Some k" using len(1) by (simp add: group_of_def s)
    then have ne: "tags ! i \<noteq> []" using grp by (auto simp: grouped_def)
    show "k < length (group_task_ids s)" "i \<in> set (group_task_ids s ! k)" using grp m ne i len(1) by (auto simp: grouped_def s)
    show "0 \<le> flop_cts s ! i" using flops i by (simp add: s)
  next
    fix k assume "k < length (group_task_ids s)"
    then show "distinct (group_task_ids s ! k)" using grp by (simp add: grouped_def s)
  qed
  then show "ts_ok ?n s" using tags(1) len(1) by (simp add: ts_ok_def s)
  show "task_cts s = replicate ?n 0" "strategy_ok env" "best_costs s = replicate ?n (10 ^ 10)" "dead_tasks s = []" "ts_policies s = p"
    "task_costs_history s = replicate ?n []"
    using s tags(2) by (auto simp: strategy_ok_def)
qed

text \<open>The records of a log that are for task \<open>i\<close>, and what restoring makes of them.\<close>

definition record_of :: "(string \<times> nat) list \<Rightarrow> string \<Rightarrow> nat \<Rightarrow> sched_record \<Rightarrow> bool" where
  "record_of ids target i r \<longleftrightarrow> sr_target r = target \<and> map_of ids (sr_key r) = Some i"

definition good_costs :: "sched_record list \<Rightarrow> rat list" where
  "good_costs rs = map (\<lambda>r. mean (sr_costs r)) (filter (\<lambda>r. sr_error r = 0) rs)"

definition restored_from :: "(string \<times> nat) list \<Rightarrow> string \<Rightarrow> nat \<Rightarrow> sched_record list \<Rightarrow> 'p tsched \<Rightarrow> 'p tsched \<Rightarrow> bool" where
  "restored_from ids target n rs s s' \<longleftrightarrow> ts_policies s' = ts_policies s \<and> num_measures_per_round s' = num_measures_per_round s \<and> ts_ct s' = ts_ct s
     \<and> (\<forall>i < n. task_cts s' ! i = task_cts s ! i + length (filter (record_of ids target i) rs)
          \<and> best_costs s' ! i = foldl min (best_costs s ! i) (good_costs (filter (record_of ids target i) rs)))"

lemma restored_from_Nil: "restored_from ids target n [] s s"
  by (simp add: restored_from_def good_costs_def)

lemma restored_from_skip: "\<forall>i. \<not> record_of ids target i r \<Longrightarrow> restored_from ids target n (r # rs) s = restored_from ids target n rs s"
  by (simp add: restored_from_def fun_eq_iff)

lemma restored_from_Cons:
  assumes "restored_from ids target n rs t s'" and "record_of ids target i r" "i < n" and "length (best_costs s) = n" "length (task_cts s) = n"
    and "ts_policies t = ts_policies s" "num_measures_per_round t = num_measures_per_round s" "ts_ct t = ts_ct s" "task_cts t = (task_cts s)[i := task_cts s ! i + 1]"
    and "best_costs t = (if sr_error r = 0 then (best_costs s)[i := min (best_costs s ! i) (mean (sr_costs r))] else best_costs s)"
  shows "restored_from ids target n (r # rs) s s'"
  unfolding restored_from_def
proof (intro conjI allI impI)
  fix j assume j: "j < n"
  have only: "record_of ids target j r \<longleftrightarrow> j = i" using assms(2) by (auto simp: record_of_def)
  show "task_cts s' ! j = task_cts s ! j + length (filter (record_of ids target j) (r # rs))"
    using assms(1,3,5,9) j only by (cases "j = i") (auto simp: restored_from_def)
  show "best_costs s' ! j = foldl min (best_costs s ! j) (good_costs (filter (record_of ids target j) (r # rs)))"
    using assms(1,3,4,10) j only by (cases "j = i") (auto simp: restored_from_def good_costs_def)
qed (use assms in \<open>auto simp: restored_from_def\<close>)

lemma restore_records_ok:
  assumes "ts_ok n s" and "\<forall>r\<in>set rs. sr_costs r \<noteq> [] \<and> (\<forall>c\<in>set (sr_costs r). 0 \<le> c)" and "\<forall>q\<in>set ids. snd q < n"
    and "\<forall>i < n. task_costs_history s ! i = []"
  shows "\<exists>s'. restore_records ids target rs s = Inr s' \<and> ts_ok n s' \<and> restored_from ids target n rs s s'"
  using assms
proof (induction rs arbitrary: s)
  case (Cons r rs)
  show ?case
  proof (cases "sr_target r = target")
    case True
    show ?thesis
    proof (cases "map_of ids (sr_key r)")
      case None
      then have "\<forall>i. \<not> record_of ids target i r" by (simp add: record_of_def)
      then show ?thesis using Cons True None by (simp add: restored_from_skip)
    next
      case (Some i)
      then have i: "i < n" using Cons.prems(3) by (auto dest!: map_of_SomeD)
      have own: "record_of ids target i r" using Some True by (simp add: record_of_def)
      let ?s = "s\<lparr>task_cts := (task_cts s)[i := task_cts s ! i + 1]\<rparr>"
      have len: "length (best_costs s) = n" "length (task_cts s) = n" using Cons.prems(1) by (simp_all add: ts_ok_def)
      have "group_of ?s = group_of s" by (simp add: group_of_def fun_eq_iff split: option.split)
      then have ok: "ts_ok n ?s" using Cons.prems(1) by (simp add: ts_ok_def groups_ok_def)
      show ?thesis
      proof (cases "sr_error r = 0")
        case True
        have res: "results_ok [sr_costs r]" using Cons.prems(2) by (simp add: results_ok_def)
        obtain b where b: "keep_costs i [sr_costs r] ?s = Inr (?s\<lparr>task_best_cts := b, best_costs := (best_costs s)[i := min (best_costs s ! i) (mean (sr_costs r))]\<rparr>)"
          "length b = length (task_best_cts s)"
          using keep_costs_ok [OF res, of i ?s] len i by auto
        let ?t = "?s\<lparr>task_best_cts := b, best_costs := (best_costs s)[i := min (best_costs s ! i) (mean (sr_costs r))]\<rparr>"
        have "group_of ?t = group_of s" by (simp add: group_of_def fun_eq_iff split: option.split)
        moreover have "0 \<le> best_costs ?t ! k" if "k < n" for k
          using that Cons.prems(1) mean_nonneg [of "sr_costs r"] Cons.prems(2) len by (cases "k = i") (auto simp: ts_ok_def)
        ultimately have "ts_ok n ?t" using Cons.prems(1,4) b(2) by (simp add: ts_ok_def groups_ok_def)
        then obtain s' where s': "restore_records ids target rs ?t = Inr s'" "ts_ok n s'" "restored_from ids target n rs ?t s'"
          using Cons.IH [of ?t] Cons.prems by auto
        have "restored_from ids target n (r # rs) s s'"
          by (rule restored_from_Cons [OF s'(3) own i len]) (simp_all add: True)
        then show ?thesis using s'(1,2) b(1) Some True \<open>sr_target r = target\<close> by simp
      next
        case False
        obtain s' where s': "restore_records ids target rs ?s = Inr s'" "ts_ok n s'" "restored_from ids target n rs ?s s'"
          using Cons.IH [OF ok] Cons.prems by auto
        have "restored_from ids target n (r # rs) s s'"
          by (rule restored_from_Cons [OF s'(3) own i len]) (simp_all add: False)
        then show ?thesis using s'(1,2) Some False \<open>sr_target r = target\<close> by simp
      qed
    qed
  next
    case False
    then have "\<forall>i. \<not> record_of ids target i r" by (simp add: record_of_def)
    then show ?thesis using Cons False by (simp add: restored_from_skip)
  qed
qed (simp add: restored_from_Nil)

lemma restore_task_ok:
  assumes "ts_ok n s" and "i < n"
  shows "ts_ok n (restore_task k i s)" "num_measures_per_round (restore_task k i s) = num_measures_per_round s" "ts_ct (restore_task k i s) = ts_ct s"
proof -
  let ?s = "restore_task k i s"
  have fields: "task_tags ?s = task_tags s" "tag_to_group_id ?s = tag_to_group_id s" "group_task_ids ?s = group_task_ids s" "flop_cts ?s = flop_cts s"
    "best_costs ?s = best_costs s" "length (task_cts ?s) = length (task_cts s)" "length (task_best_cts ?s) = length (task_best_cts s)"
    "task_costs_history ?s = (task_costs_history s)[i := task_costs_history s ! i @ [best_costs s ! i]]" "set (dead_tasks ?s) \<subseteq> insert i (set (dead_tasks s))"
    by (auto simp: restore_task_def Let_def)
  have "group_of ?s = group_of s" using fields by (simp add: group_of_def fun_eq_iff split: option.split)
  then have "groups_ok n ?s" using assms(1) fields by (simp add: ts_ok_def groups_ok_def)
  moreover have "sorted_wrt (\<ge>) (task_costs_history ?s ! j) \<and> (\<forall>c\<in>set (task_costs_history ?s ! j). best_costs ?s ! j \<le> c)" if "j < n" for j
    using assms that fields by (cases "j = i") (auto simp: ts_ok_def sorted_wrt_append)
  ultimately show "ts_ok n ?s" using assms fields unfolding ts_ok_def by auto
qed (simp_all add: restore_task_def Let_def)

text \<open>The records of the log for a task, and the state that is restored from them: the number of rounds is estimated from the number of records.\<close>

definition logged :: "sched_task list \<Rightarrow> sched_record list option \<Rightarrow> nat \<Rightarrow> sched_record list" where
  "logged tasks recs i = (case recs of None \<Rightarrow> []
     | Some rs \<Rightarrow> filter (record_of (rev (zip (map tk_key tasks) [0..<length tasks])) (tk_target (hd tasks)) i) rs)"

definition restored_costs :: "sched_task list \<Rightarrow> sched_record list option \<Rightarrow> nat \<Rightarrow> rat list" where
  "restored_costs tasks recs i = good_costs (logged tasks recs i)"

definition restored_rounds :: "sched_task list \<Rightarrow> int \<Rightarrow> sched_record list option \<Rightarrow> nat \<Rightarrow> nat" where
  "restored_rounds tasks k recs i = rounds_of k (length (logged tasks recs i))"

lemma restored_None: "restored_costs tasks None i = []" "restored_rounds tasks k None i = 0"
  by (simp_all add: restored_costs_def good_costs_def logged_def restored_rounds_def rounds_of_def)

lemma restore_tasks_counts:
  "m \<le> length (task_cts s) \<Longrightarrow> (\<forall>i < length (task_cts s). task_cts (foldl (\<lambda>s i. restore_task k i s) s [0..<m]) ! i = (if i < m then rounds_of k (task_cts s ! i) else task_cts s ! i))
     \<and> length (task_cts (foldl (\<lambda>s i. restore_task k i s) s [0..<m])) = length (task_cts s)
     \<and> best_costs (foldl (\<lambda>s i. restore_task k i s) s [0..<m]) = best_costs s \<and> ts_policies (foldl (\<lambda>s i. restore_task k i s) s [0..<m]) = ts_policies s"
  by (induction m) (auto simp: restore_task_def Let_def nth_list_update less_Suc_eq)

lemma restore_status_ok:
  assumes ok: "ts_ok (length tasks) s" and "\<forall>r\<in>set rs. sr_costs r \<noteq> [] \<and> (\<forall>c\<in>set (sr_costs r). 0 \<le> c)"
    and "\<forall>i < length tasks. task_costs_history s ! i = []"
    and fresh: "task_cts s = replicate (length tasks) 0"
  shows "\<exists>s'. restore_status env tasks rs k s = Inr s' \<and> ts_ok (length tasks) s' \<and> num_measures_per_round s' = num_measures_per_round s \<and> ts_ct s' = ts_ct s
    \<and> ts_policies s' = ts_policies s \<and> (\<forall>i < length tasks. best_costs s' ! i = foldl min (best_costs s ! i) (restored_costs tasks (Some rs) i)
        \<and> task_cts s' ! i = restored_rounds tasks k (Some rs) i)"
proof -
  let ?n = "length tasks" and ?ids = "rev (zip (map tk_key tasks) [0..<length tasks])"
  have "\<forall>q\<in>set ?ids. snd q < ?n" by (auto dest: set_zip_rightD)
  from restore_records_ok [OF ok assms(2) this assms(3)] obtain s1 where
    s1: "restore_records ?ids (tk_target (hd tasks)) rs s = Inr s1" "ts_ok ?n s1" "restored_from ?ids (tk_target (hd tasks)) ?n rs s s1" by blast
  have fold: "ts_ok ?n (foldl (\<lambda>s i. restore_task k i s) t is) \<and> num_measures_per_round (foldl (\<lambda>s i. restore_task k i s) t is) = num_measures_per_round t
      \<and> ts_ct (foldl (\<lambda>s i. restore_task k i s) t is) = ts_ct t"
    if "ts_ok ?n t" "\<forall>i\<in>set is. i < ?n" for t "is"
    using that by (induction "is" arbitrary: t) (auto simp: restore_task_ok)
  let ?s2 = "foldl (\<lambda>s i. restore_task k i s) s1 [0..<?n]"
  have s2: "ts_ok ?n ?s2" "num_measures_per_round ?s2 = num_measures_per_round s" "ts_ct ?s2 = ts_ct s" using fold [OF s1(2), of "[0..<?n]"] s1(3)
    by (auto simp: restored_from_def)
  have len: "length (task_cts s1) = ?n" using s1(2) by (simp add: ts_ok_def)
  note c = restore_tasks_counts [of ?n s1 k, unfolded len, OF order_refl]
  have "best_costs ?s2 ! i = foldl min (best_costs s ! i) (restored_costs tasks (Some rs) i) \<and> task_cts ?s2 ! i = restored_rounds tasks k (Some rs) i" if "i < ?n" for i
    using c s1(3) that fresh by (simp add: restored_from_def restored_costs_def restored_rounds_def logged_def)
  moreover have "ts_policies ?s2 = ts_policies s" using c s1(3) by (simp add: restored_from_def)
  moreover have "ts_ok ?n (?s2\<lparr>cur_score := te_objective env (best_costs ?s2)\<rparr>)" by (rule ts_ok_cong [OF s2(1)]) simp_all
  ultimately show ?thesis using s1(1) s2 by (simp add: restore_status_def Let_def)
qed

section \<open>The warm-up\<close>

text \<open>The warm-up tunes the tasks in order. Facts about it go through an invariant over the number of tasks that are behind.\<close>

definition warm_one :: "'p ts_env \<Rightarrow> 'p tsched \<Rightarrow> nat \<Rightarrow> 'p tsched res" where
  "warm_one env s i = (if task_cts s ! i = 0 then tune_task env i s else Inr s)"

lemma warm_up_rule:
  assumes "P 0 s" and "\<And>k s. P k s \<Longrightarrow> k < n \<Longrightarrow> \<exists>s'. warm_one env s k = Inr s' \<and> P (Suc k) s'" and "length (task_cts s) = n"
  shows "\<exists>s'. warm_up env s = Inr s' \<and> P n s'"
proof -
  have "\<exists>s'. res_foldl (warm_one env) s [0..<k] = Inr s' \<and> P k s'" if "k \<le> n" for k
    using that
  proof (induction k)
    case (Suc k)
    then obtain s' where "res_foldl (warm_one env) s [0..<k] = Inr s'" "P k s'" by auto
    then show ?case using assms(2) [of k s'] Suc.prems by (auto simp: res_foldl_append)
  qed (use assms(1) in simp)
  then show ?thesis using assms(3) by (simp add: warm_up_def warm_one_def [abs_def])
qed

text \<open>A round measures no more programs than it is asked to.\<close>

definition rounds_bounded :: "'p ts_env \<Rightarrow> bool" where
  "rounds_bounded env \<longleftrightarrow> (\<forall>i k p. 0 < k \<longrightarrow> int (fst (fst (te_round env i k p))) \<le> k)"

lemma warm_up_ok:
  fixes env :: "'p ts_env"
  assumes ok: "ts_ok n s" and env: "rounds_ok env" "rounds_bounded env" and pos: "0 < num_measures_per_round s"
  shows "\<exists>s'. warm_up env s = Inr s' \<and> ts_ok n s' \<and> all_tuned n s' \<and> ts_ct s' \<le> ts_ct s + int n * num_measures_per_round s
    \<and> num_measures_per_round s' = num_measures_per_round s"
proof -
  let ?m = "num_measures_per_round s"
  define P where "P k t \<longleftrightarrow> ts_ok n t \<and> (\<forall>i < k. 0 < task_cts t ! i) \<and> ts_ct t \<le> ts_ct s + int k * ?m \<and> num_measures_per_round t = ?m" for k and t :: "'p tsched"
  have "\<exists>t'. warm_one env t k = Inr t' \<and> P (Suc k) t'" if t: "P k t" and k: "k < n" for k t
  proof (cases "task_cts t ! k = 0")
    case True
    obtain num rs p where r: "te_round env k (num_measures_per_round t) (ts_policies t) = ((num, rs), p)" by (metis surj_pair)
    have "fst (fst (te_round env k (num_measures_per_round t) (ts_policies t))) = num" by (simp add: r)
    then have num: "int num \<le> ?m" using env(2) pos t unfolding rounds_bounded_def P_def by metis
    have tok: "ts_ok n t" using t by (simp add: P_def)
    then have len: "length (task_cts t) = n" by (simp add: ts_ok_def)
    obtain t' where t': "tune_task env k t = Inr t'" "ts_ok n t'" "task_cts t' = (task_cts t)[k := task_cts t ! k + 1]" "ts_ct t' = ts_ct t + int num"
      "num_measures_per_round t' = num_measures_per_round t" using tune_task_ok [OF tok env(1) k r] by blast
    have "0 < task_cts t' ! i" if "i < Suc k" for i using that t k len by (cases "i = k") (auto simp: t'(3) P_def)
    moreover have "ts_ct t' \<le> ts_ct s + int (Suc k) * ?m" using t num t'(4) by (simp add: P_def algebra_simps)
    ultimately have "P (Suc k) t'" using t' t by (simp add: P_def)
    then show ?thesis using t'(1) True by (simp add: warm_one_def)
  next
    case False
    then show ?thesis using t pos by (auto simp: warm_one_def P_def less_Suc_eq algebra_simps)
  qed
  from warm_up_rule [of P s n env, OF _ this] obtain s' where "warm_up env s = Inr s'" "P n s'"
    using ok by (auto simp: P_def ts_ok_def)
  then show ?thesis by (auto simp: P_def all_tuned_def)
qed

section \<open>Tuning\<close>

text \<open>The state in which the loop starts and the options it runs under.\<close>

definition per_round :: "sched_task list \<Rightarrow> tune_options \<Rightarrow> int" where
  "per_round tasks opts = min (to_per_round opts) (to_trials opts div int (length tasks))"

definition start :: "sched_task list \<Rightarrow> tune_options \<Rightarrow> int option \<Rightarrow> 'p tsched \<Rightarrow> 'p tsched" where
  "start tasks opts per_task_early s =
     s\<lparr>early_stopping_all := (if to_early_stopping opts < 0 then 10 ^ 20 else to_early_stopping opts),
       early_stopping_task := (case per_task_early of None \<Rightarrow> 10 ^ 20 | Some k \<Rightarrow> k), ts_ct := 0, best_ct := 0,
       num_measures_per_round := per_round tasks opts\<rparr>"

definition policy_ok :: "string option \<Rightarrow> bool" where
  "policy_ok policy \<longleftrightarrow> (case policy of None \<Rightarrow> True | Some name \<Rightarrow> \<not> isl (search_policy_kind name))"

text \<open>A log that can be restored from: every record has costs, and they are not negative.\<close>

definition records_ok :: "sched_record list option \<Rightarrow> bool" where
  "records_ok recs \<longleftrightarrow> (case recs of None \<Rightarrow> True | Some rs \<Rightarrow> (\<forall>r\<in>set rs. sr_costs r \<noteq> [] \<and> (\<forall>c\<in>set (sr_costs r). 0 \<le> c)))"

lemma search_policy_error: "search_policy_kind name = Inl e \<Longrightarrow> e = ValueError"
  by (auto simp: search_policy_kind_def split: list.splits if_splits)

lemma sched_tune_unfold:
  "sched_tune env tasks opts policy early recs ds s =
     (if per_round tasks opts \<le> 0 then Inl ValueError
      else res_bind (case recs of None \<Rightarrow> Inr (start tasks opts early s) | Some rs \<Rightarrow> restore_status env tasks rs (per_round tasks opts) (start tasks opts early s)) (\<lambda>s1.
           if \<not> policy_ok policy then Inl ValueError
           else res_bind (warm_up env s1) (\<lambda>s2.
                res_bind (sched_loop env (to_trials opts) (- 1, ds, s2\<lparr>best_ct := ts_ct s2, best_score := cur_score s2\<rparr>)) (\<lambda>(_, _, s3). Inr s3))))"
proof -
  have pol: "(case policy of None \<Rightarrow> Inr () | Some name \<Rightarrow> res_bind (search_policy_kind name) (\<lambda>_. Inr ())) = (if policy_ok policy then Inr () else Inl ValueError)"
    by (cases policy; cases "search_policy_kind (the policy)") (auto simp: policy_ok_def dest: search_policy_error)
  show ?thesis unfolding sched_tune_def Let_def pol per_round_def [symmetric] start_def [symmetric] by (cases "policy_ok policy") simp_all
qed

lemma start_ok: "ts_ok n s \<Longrightarrow> ts_ok n (start tasks opts early s)"
  by (rule ts_ok_cong) (simp_all add: start_def)

lemma sched_restored:
  assumes init: "sched_init log_flop env tasks p = Inr s" and flops: "\<forall>t\<in>set tasks. 0 \<le> tk_flop t" and recs: "records_ok recs"
  obtains s1 where "(case recs of None \<Rightarrow> Inr (start tasks opts early s) | Some rs \<Rightarrow> restore_status env tasks rs (per_round tasks opts) (start tasks opts early s)) = Inr s1"
    "ts_ok (length tasks) s1" "num_measures_per_round s1 = per_round tasks opts" "ts_ct s1 = 0" "ts_policies s1 = p"
    "\<forall>i < length tasks. best_costs s1 ! i = foldl min (10 ^ 10) (restored_costs tasks recs i) \<and> task_cts s1 ! i = restored_rounds tasks (per_round tasks opts) recs i"
proof -
  note i = sched_init_ok [OF init flops]
  let ?s0 = "start tasks opts early s"
  have s0: "ts_ok (length tasks) ?s0" using start_ok [OF i(1)] .
  have f: "num_measures_per_round ?s0 = per_round tasks opts" "ts_ct ?s0 = 0" "ts_policies ?s0 = p" "task_cts ?s0 = replicate (length tasks) 0"
    "best_costs ?s0 = replicate (length tasks) (10 ^ 10)" "\<forall>i < length tasks. task_costs_history ?s0 ! i = []"
    using i by (simp_all add: start_def)
  show ?thesis
  proof (cases recs)
    case None
    show ?thesis by (rule that [of ?s0]) (use s0 f None in \<open>simp_all add: restored_None\<close>)
  next
    case (Some rs)
    have "\<forall>r\<in>set rs. sr_costs r \<noteq> [] \<and> (\<forall>c\<in>set (sr_costs r). 0 \<le> c)" using recs Some by (simp add: records_ok_def)
    from restore_status_ok [OF s0 this f(6,4), of env "per_round tasks opts"] f show ?thesis using that Some by auto
  qed
qed

lemma sched_loop_ok:
  assumes ok: "ts_ok n s" "all_tuned n s" and env: "params_ok env" "strategy_ok env" "rounds_ok env" "rounds_bounded env"
    and m: "0 < num_measures_per_round s" "ts_ct s < trials + num_measures_per_round s"
  shows "case sched_loop env trials (idx, ds, s) of Inl e \<Rightarrow> e = NoDraws \<and> te_strategy env = ''gradient''
    | Inr (_, _, s') \<Rightarrow> ts_ok n s' \<and> all_tuned n s' \<and> ts_ct s' < trials + num_measures_per_round s"
proof -
  let ?m = "num_measures_per_round s"
  define P where "P st \<longleftrightarrow> (case st of (_, _, t) \<Rightarrow> ts_ok n t \<and> all_tuned n t \<and> ts_ct t < trials + ?m \<and> num_measures_per_round t = ?m)"
    for st :: "int \<times> draws \<times> 'a tsched"
  have "case sched_loop env trials (idx, ds, s) of Inl e \<Rightarrow> e = NoDraws \<and> te_strategy env = ''gradient'' | Inr st' \<Rightarrow> P st'"
  proof (rule sched_loop_rule)
    show "P (idx, ds, s)" using ok m by (simp add: P_def)
  next
    fix st b st' assume st: "P st" "tune_guard trials (snd (snd st))" "sched_step env st = Inr (b, st')"
    obtain j ds t where [simp]: "st = (j, ds, t)" by (metis surj_pair)
    have t: "ts_ok n t" "all_tuned n t" "ts_ct t < trials" "num_measures_per_round t = ?m" using st by (auto simp: P_def tune_guard_def)
    show "P st'"
      using t(1,2) env(1-3)
    proof (rule sched_step_ok [of n t env j ds])
      assume "sched_step env (j, ds, t) = Inl NoDraws"
      then show ?thesis using st(3) by simp
    next
      fix i ds' num rs p s1 b' t'
      assume s: "i < n" "te_round env i (num_measures_per_round t) (ts_policies t) = ((num, rs), p)" "ts_ct s1 = ts_ct t + int num"
        "task_cts s1 = (task_cts t)[i := task_cts t ! i + 1]" "num_measures_per_round s1 = num_measures_per_round t"
        "sched_step env (j, ds, t) = Inr (b', int i, ds', t')" "ts_ok n t'"
        "\<exists>tags groups sc c. t' = s1\<lparr>task_tags := tags, group_task_ids := groups, best_score := sc, best_ct := c\<rparr>"
      have "fst (fst (te_round env i (num_measures_per_round t) (ts_policies t))) = num" by (simp add: s(2))
      then have "int num \<le> ?m" using env(4) m(1) t(4) unfolding rounds_bounded_def by metis
      moreover have "all_tuned n s1" using t(1,2) s(1,4) by (auto simp: all_tuned_def nth_list_update ts_ok_def)
      ultimately show ?thesis using s t st(3) by (auto simp: P_def all_tuned_def)
    qed
  next
    fix st e assume st: "P st" "sched_step env st = Inl e"
    obtain j ds t where [simp]: "st = (j, ds, t)" by (metis surj_pair)
    have "ts_ok n t" "all_tuned n t" using st(1) by (auto simp: P_def)
    then show "e = NoDraws \<and> te_strategy env = ''gradient''"
      using env(1-3) by (rule sched_step_ok [of n t env j ds]) (use st(2) in auto)
  qed
  then show ?thesis by (auto simp: P_def split: sum.splits)
qed

section \<open>Returning\<close>

text \<open>A draw at a tie of the gradients may hit a dead task, but some draw hits one that is alive. With such draws the loop ends.\<close>

lemma choose_task_some:
  assumes ok: "ts_ok n s" "all_tuned n s" and env: "params_ok env" "strategy_ok env" and alive: "card (set (dead_tasks s)) < length (task_cts s)"
  obtains pre i where "i < n" "i \<notin> set (dead_tasks s)" "\<And>ds. choose_task env s idx (pre @ ds) = Inr (i, ds)"
proof -
  have n: "0 < n" "length (task_cts s) = n" using ok(1) by (auto simp: ts_ok_def)
  obtain j where j: "j < n" "j \<notin> set (dead_tasks s)" using someone_alive [of "dead_tasks s" n] alive n by auto
  from ok env show ?thesis
  proof (cases rule: choose_task_ok [of n s env idx "[]"])
    case (chosen i ds')
    have "ds' = []" "i \<notin> set (dead_tasks s)" using choose_task_alive [OF chosen(1) alive] by auto
    moreover have "choose_task env s idx ds = Inr (i, ds)" for ds
      using chosen(1) \<open>ds' = []\<close> by (auto simp: choose_task_def Let_def res_bind_eq_Inr randint_def split: if_splits)
    ultimately show ?thesis using that [of i "[]"] chosen(2) by simp
  next
    case no_draws
    have "\<exists>gs. res_map (gradient env s) [0..<n] = Inr gs"
      using gradient_ok [OF ok(1) _ _ env(1)] ok(2) unfolding all_tuned_def
      by (intro exI [of _ "map (\<lambda>i. projr (gradient env s i)) [0..<n]"] res_map_total) force
    then have "choose_task env s idx ([int j] @ ds) = Inr (j, ds)" for ds
      using no_draws n j(1) by (auto simp: choose_task_def Let_def randint_def split: if_splits)
    then show ?thesis using that [of j "[int j]"] j by simp
  qed
qed

lemma sched_step_some:
  assumes ok: "ts_ok n s" "all_tuned n s" and env: "params_ok env" "strategy_ok env" "rounds_ok env" and guard: "tune_guard trials s"
  obtains pre b i t where "\<And>ds. sched_step env (idx, pre @ ds, s) = Inr (b, i, ds, t)" "ts_ok n t" "all_tuned n t"
    "nat (trials - ts_ct t) + (n - card (set (dead_tasks t))) < nat (trials - ts_ct s) + (n - card (set (dead_tasks s)))"
proof -
  have g: "ts_ct s < trials" "card (set (dead_tasks s)) < length (task_cts s)" using guard by (auto simp: tune_guard_def)
  obtain pre i where c: "i < n" "i \<notin> set (dead_tasks s)" "\<And>ds. choose_task env s idx (pre @ ds) = Inr (i, ds)"
    using choose_task_some [OF ok env(1,2) g(2)] by metis
  obtain num rs p where r: "te_round env i (num_measures_per_round s) (ts_policies s) = ((num, rs), p)" by (metis surj_pair)
  obtain s1 where s1: "tune_task env i s = Inr s1" "ts_ok n s1" "task_cts s1 = (task_cts s)[i := task_cts s ! i + 1]"
    using tune_task_ok [OF ok(1) env(3) c(1) r] by blast
  obtain s2 where s2: "adjust_similarity_group env i s1 = Inr s2" "ts_ok n s2" using adjust_ok [OF s1(2) c(1)] by blast
  define t where "t = (if cur_score s2 < best_score s2 then s2\<lparr>best_score := cur_score s2, best_ct := ts_ct s2\<rparr> else s2)"
  have "\<exists>b. \<forall>ds. sched_step env (idx, pre @ ds, s) = Inr (b, int i, ds, t)"
    using c(3) s1(1) s2(1) by (cases "cur_score s2 < best_score s2") (auto simp: sched_step_def t_def)
  then obtain b where step: "sched_step env (idx, pre @ ds, s) = Inr (b, int i, ds, t)" for ds by blast
  have f: "ts_ct t = ts_ct s1" "dead_tasks t = dead_tasks s1" "task_cts t = task_cts s1" using adjust_frame [OF s2(1)] by (auto simp: t_def)
  have tok: "ts_ok n t" by (rule ts_ok_cong [OF s2(2)]) (simp_all add: t_def)
  have len: "length (task_cts s) = n" using ok(1) by (simp add: ts_ok_def)
  have "0 < (task_cts s)[i := task_cts s ! i + 1] ! j" if "j < n" for j
    using ok(2) len that by (cases "j = i") (auto simp: all_tuned_def)
  then have tuned: "all_tuned n t" by (simp add: all_tuned_def f(3) s1(3))
  note fr = tune_task_frame [OF s1(1)]
  let ?D = "set (dead_tasks s)" and ?D' = "set (dead_tasks s1)"
  have card: "card ?D \<le> card ?D'" by (rule card_mono) (use fr(3) in auto)
  have "card ?D' \<le> n" using s1(2) card_mono [of "{..<n}" ?D'] by (simp add: ts_ok_def)
  moreover have "ts_ct s1 = ts_ct s \<Longrightarrow> card ?D < card ?D'"
    using fr(3,5) c(2) by (metis List.finite_set psubsetI psubset_card_mono)
  ultimately have "nat (trials - ts_ct t) + (n - card (set (dead_tasks t))) < nat (trials - ts_ct s) + (n - card ?D)"
    using fr(4) g card len by (cases "ts_ct s1 = ts_ct s") (simp_all add: f)
  with that [OF step tok tuned] show ?thesis .
qed

lemma sched_loop_some:
  assumes "ts_ok n s" "all_tuned n s" and env: "params_ok env" "strategy_ok env" "rounds_ok env"
  shows "\<exists>ds st'. sched_loop env trials (idx, ds, s) = Inr st'"
  using assms(1,2)
proof (induction "nat (trials - ts_ct s) + (n - card (set (dead_tasks s)))" arbitrary: s idx rule: less_induct)
  case less
  show ?case
  proof (cases "tune_guard trials s")
    case True
    obtain pre b i t where step: "\<And>ds. sched_step env (idx, pre @ ds, s) = Inr (b, i, ds, t)" and t: "ts_ok n t" "all_tuned n t"
      and dec: "nat (trials - ts_ct t) + (n - card (set (dead_tasks t))) < nat (trials - ts_ct s) + (n - card (set (dead_tasks s)))"
      using sched_step_some [OF less.prems env True, of idx] by metis
    obtain ds st' where "sched_loop env trials (i, ds, t) = Inr st'" using less.hyps [OF dec t] by blast
    then show ?thesis
      using True step [of ds] by (intro exI [of _ "pre @ ds"]) (cases st', cases b, auto simp: sched_loop.simps [of _ _ "(idx, pre @ ds, s)"])
  next
    case False
    then show ?thesis using sched_loop.simps [of env trials "(idx, [], s)"] by (intro exI [of _ "[]"]) auto
  qed
qed

section \<open>What is kept of the measurements\<close>

text \<open>A policy state from which the rounds so far can be read, as from the log file that the measurer writes.\<close>

definition keeps_log :: "'p ts_env \<Rightarrow> ('p \<Rightarrow> (nat \<times> rat list list) list) \<Rightarrow> bool" where
  "keeps_log env lg \<longleftrightarrow> (\<forall>i k p. lg (snd (te_round env i k p)) = lg p @ [(i, snd (fst (te_round env i k p)))])"

definition costs_in :: "(nat \<times> rat list list) list \<Rightarrow> nat \<Rightarrow> rat list" where
  "costs_in l i = concat (map (\<lambda>(j, rs). if j = i then map mean rs else []) l)"

definition rounds_in :: "(nat \<times> rat list list) list \<Rightarrow> nat \<Rightarrow> nat" where
  "rounds_in l i = length (filter (\<lambda>(j, rs). j = i) l)"

definition kept :: "nat \<Rightarrow> (nat \<Rightarrow> rat list) \<Rightarrow> (nat \<Rightarrow> nat) \<Rightarrow> ('p \<Rightarrow> (nat \<times> rat list list) list) \<Rightarrow> 'p tsched \<Rightarrow> bool" where
  "kept n costs rounds lg s \<longleftrightarrow> (\<forall>i < n. best_costs s ! i = foldl min (10 ^ 10) (costs i @ costs_in (lg (ts_policies s)) i)
     \<and> task_cts s ! i = rounds i + rounds_in (lg (ts_policies s)) i)"

lemma kept_tune:
  assumes "ts_ok n s" and "rounds_ok env" and "keeps_log env lg" and "kept n costs rounds lg s" and "tune_task env i s = Inr s'"
  shows "ts_ok n s'" "kept n costs rounds lg s'"
proof -
  have i: "i < n" "length (task_cts s) = n" "length (best_costs s) = n" using tune_task_frame(1) [OF assms(5)] assms(1) by (auto simp: ts_ok_def)
  obtain num rs p where r: "te_round env i (num_measures_per_round s) (ts_policies s) = ((num, rs), p)" by (metis surj_pair)
  have lg: "lg p = lg (ts_policies s) @ [(i, rs)]" using assms(3) r unfolding keeps_log_def by (metis fst_conv snd_conv)
  have t: "ts_ok n s'" "task_cts s' = (task_cts s)[i := task_cts s ! i + 1]" "ts_policies s' = p"
    "best_costs s' = (best_costs s)[i := foldl min (best_costs s ! i) (map mean rs)]"
    using tune_task_ok [OF assms(1,2) i(1) r] assms(5) by auto
  show "ts_ok n s'" by (rule t(1))
  show "kept n costs rounds lg s'"
    using assms(4) i unfolding kept_def t(2-4) lg by (auto simp: nth_list_update costs_in_def rounds_in_def)
qed

lemma sched_step_eq:
  assumes "sched_step env (idx, ds, s) = Inr (b, st')"
  obtains i ds' s1 s2 where "choose_task env s idx ds = Inr (i, ds')" "tune_task env i s = Inr s1" "adjust_similarity_group env i s1 = Inr s2"
    "st' = (int i, ds', if cur_score s2 < best_score s2 then s2\<lparr>best_score := cur_score s2, best_ct := ts_ct s2\<rparr> else s2)"
proof -
  obtain i ds' where c: "choose_task env s idx ds = Inr (i, ds')" using assms by (auto simp: sched_step_def res_bind_eq_Inr)
  moreover obtain s1 where t: "tune_task env i s = Inr s1" using assms c by (auto simp: sched_step_def res_bind_eq_Inr)
  moreover obtain s2 where a: "adjust_similarity_group env i s1 = Inr s2" using assms c t by (auto simp: sched_step_def res_bind_eq_Inr)
  moreover have "st' = (int i, ds', if cur_score s2 < best_score s2 then s2\<lparr>best_score := cur_score s2, best_ct := ts_ct s2\<rparr> else s2)"
    using assms by (cases "cur_score s2 < best_score s2") (auto simp: sched_step_def c t a)
  ultimately show ?thesis using that by blast
qed

lemma kept_step:
  assumes "ts_ok n s" and "rounds_ok env" and "keeps_log env lg" and "kept n costs rounds lg s" and "sched_step env (idx, ds, s) = Inr (b, st')"
  shows "ts_ok n (snd (snd st'))" "kept n costs rounds lg (snd (snd st'))"
proof -
  obtain i ds' s1 s2 where s: "tune_task env i s = Inr s1" "adjust_similarity_group env i s1 = Inr s2"
    "st' = (int i, ds', if cur_score s2 < best_score s2 then s2\<lparr>best_score := cur_score s2, best_ct := ts_ct s2\<rparr> else s2)"
    using sched_step_eq [OF assms(5)] by metis
  note k = kept_tune [OF assms(1-4) s(1)]
  have "i < n" using tune_task_frame(1) [OF s(1)] assms(1) by (simp add: ts_ok_def)
  then have s2: "ts_ok n s2" using adjust_ok [OF k(1), of i env] s(2) by auto
  show "ts_ok n (snd (snd st'))" by (rule ts_ok_cong [OF s2]) (simp_all add: s(3))
  show "kept n costs rounds lg (snd (snd st'))" using k(2) adjust_frame [OF s(2)] by (auto simp: s(3) kept_def)
qed

lemma kept_warm_up:
  assumes "ts_ok n s" and "rounds_ok env" and "keeps_log env lg" and "kept n costs rounds lg s" and "warm_up env s = Inr s'"
  shows "ts_ok n s' \<and> kept n costs rounds lg s'"
  using assms(5) unfolding warm_up_def
  by (rule res_foldl_invariant) (use assms(1-4) kept_tune in \<open>auto split: if_splits\<close>)

section \<open>Round robin\<close>

lemma skip_dead_first:
  "m < k \<Longrightarrow> i < n \<Longrightarrow> (i + m) mod n \<notin> set dead \<Longrightarrow> \<forall>m' < m. (i + m') mod n \<in> set dead \<Longrightarrow> skip_dead k n dead i = (i + m) mod n"
proof (induction k arbitrary: i m)
  case (Suc k)
  show ?case
  proof (cases m)
    case 0
    then show ?thesis using Suc.prems by simp
  next
    case (Suc l)
    then have "i \<in> set dead" using Suc.prems(2,4) by fastforce
    moreover have shift: "((i + 1) mod n + x) mod n = (i + Suc x) mod n" for x by (simp add: mod_simps)
    have "skip_dead k n dead ((i + 1) mod n) = ((i + 1) mod n + l) mod n"
      by (rule Suc.IH) (use Suc Suc.prems shift in auto)
    ultimately show ?thesis using Suc shift by simp
  qed
qed simp

text \<open>The task that comes next: the first one alive from the position after the last, wrapping around.\<close>

lemma skip_dead_next:
  assumes "i < n" and "j < n" and "j \<notin> set dead"
  obtains m where "m < n" "skip_dead n n dead i = (i + m) mod n" "(i + m) mod n \<notin> set dead" "\<forall>m' < m. (i + m') mod n \<in> set dead"
proof -
  define m where "m = (LEAST m. (i + m) mod n \<notin> set dead)"
  let ?m = "(j + (n - i)) mod n"
  have "(i + ?m) mod n = (i + (j + (n - i))) mod n" by (simp add: mod_simps)
  also have "\<dots> = j" using assms(1,2) by simp
  finally have alive: "(i + ?m) mod n \<notin> set dead" using assms(3) by simp
  have m: "(i + m) mod n \<notin> set dead" "m \<le> ?m" unfolding m_def using alive by (rule LeastI, rule Least_le)
  moreover have "m < n" using m(2) mod_less_divisor [of n "j + (n - i)"] assms(1) by linarith
  moreover have "\<forall>m' < m. (i + m') mod n \<in> set dead" unfolding m_def using not_less_Least by blast
  ultimately show ?thesis using that [of m] skip_dead_first [of m n i n dead] assms(1) by simp
qed

text \<open>
  The next position is \<open>u\<close>, and \<open>b i\<close> rounds of task \<open>i\<close> were over before the loop: the loop has given the tasks before \<open>u\<close> one round more than the others, and those
  that are dead may have stopped earlier.
\<close>

definition level :: "(nat \<Rightarrow> nat) \<Rightarrow> nat \<Rightarrow> nat \<Rightarrow> nat \<Rightarrow> 'p tsched \<Rightarrow> bool" where
  "level b n u c s \<longleftrightarrow> u \<le> n \<and> (\<forall>i < n. task_cts s ! i \<le> b i + (if i < u then c + 1 else c) \<and> (i \<notin> set (dead_tasks s) \<longrightarrow> task_cts s ! i = b i + (if i < u then c + 1 else c)))"

lemma level_step:
  assumes lev: "level b n u c s" and m: "m < n" "(u mod n + m) mod n \<notin> set (dead_tasks s)" "\<forall>m' < m. (u mod n + m') mod n \<in> set (dead_tasks s)"
    and s': "task_cts s' = (task_cts s)[i := task_cts s ! i + 1]" "set (dead_tasks s) \<subseteq> set (dead_tasks s')" "length (task_cts s) = n"
    and i: "i = (u mod n + m) mod n"
  shows "\<exists>c'. level b n (Suc i) c' s'"
proof -
  have u: "u \<le> n" and shift: "(u mod n + x) mod n = (u + x) mod n" for x using lev by (auto simp: level_def mod_simps)
  have dead: "(u + x) mod n \<in> set (dead_tasks s)" if "x < m" for x using m(3) that shift by simp
  have cts: "task_cts s ! j \<le> b j + (if j < u then c + 1 else c)" "j \<notin> set (dead_tasks s) \<Longrightarrow> task_cts s ! j = b j + (if j < u then c + 1 else c)" if "j < n" for j
    using lev that unfolding level_def by blast+
  show ?thesis
  proof (cases "u + m < n")
    case True
    then have i: "i = u + m" using i shift by simp
    have between: "j \<in> set (dead_tasks s)" if "u \<le> j" "j < i" for j using dead [of "j - u"] that True i by simp
    have "level b n (Suc i) c s'"
      unfolding level_def
    proof (intro conjI allI impI)
      fix j assume j: "j < n"
      show "task_cts s' ! j \<le> b j + (if j < Suc i then c + 1 else c)"
        using cts(1) [OF j] j i s'(1,3) by (cases "j = i") (auto split: if_splits)
      assume "j \<notin> set (dead_tasks s')"
      then have "j \<notin> set (dead_tasks s)" using s'(2) by blast
      then show "task_cts s' ! j = b j + (if j < Suc i then c + 1 else c)"
        using cts(2) [OF j] j i s'(1,3) between [of j] by (cases "j = i") (auto simp: nth_list_update)
    qed (use True i in simp)
    then show ?thesis by blast
  next
    case False
    have i: "i = u + m - n" "i < n" "i < u" using i shift m(1) False u by (simp_all add: mod_if [of "u + m"])
    have after: "j \<in> set (dead_tasks s)" if "u \<le> j" "j < n" for j using dead [of "j - u"] that False by simp
    have before: "j \<in> set (dead_tasks s)" if "j < i" for j
      using dead [of "j + n - u"] that i u by (simp add: mod_if [of "j + n"])
    have "level b n (Suc i) (c + 1) s'"
      unfolding level_def
    proof (intro conjI allI impI)
      fix j assume j: "j < n"
      have le: "task_cts s ! j \<le> b j + (c + 1)" using cts(1) [OF j] by (auto split: if_splits)
      show "task_cts s' ! j \<le> b j + (if j < Suc i then c + 1 + 1 else c + 1)"
        using le j i s'(1,3) by (cases "j = i") (auto simp: nth_list_update)
      assume "j \<notin> set (dead_tasks s')"
      then have "j \<notin> set (dead_tasks s)" using s'(2) by blast
      then have "task_cts s ! j = b j + (c + 1)" "\<not> j < i" using cts(2) [OF j] before [of j] after [OF _ j] by (auto simp flip: not_less)
      then show "task_cts s' ! j = b j + (if j < Suc i then c + 1 + 1 else c + 1)"
        using j i s'(1,3) by (cases "j = i") auto
    qed (use i in simp)
    then show ?thesis by blast
  qed
qed

lemma round_robin_step:
  assumes ok: "ts_ok n s" and env: "rounds_ok env" "te_strategy env = ''round-robin''" and idx: "- 1 \<le> idx" and lev: "\<exists>c. level b n (nat (idx + 1)) c s"
    and guard: "tune_guard trials s" and run: "sched_step env (idx, ds, s) = Inr (stop, st')"
  shows "ts_ok n (snd (snd st')) \<and> - 1 \<le> fst st' \<and> (\<exists>c. level b n (nat (fst st' + 1)) c (snd (snd st')))"
proof -
  let ?u = "nat (idx + 1)"
  obtain i ds' s1 s2 where st: "choose_task env s idx ds = Inr (i, ds')" "tune_task env i s = Inr s1" "adjust_similarity_group env i s1 = Inr s2"
    "st' = (int i, ds', if cur_score s2 < best_score s2 then s2\<lparr>best_score := cur_score s2, best_ct := ts_ct s2\<rparr> else s2)"
    by (rule sched_step_eq [OF run])
  have n: "length (task_cts s) = n" "0 < n" using ok by (auto simp: ts_ok_def)
  obtain j where j: "j < n" "j \<notin> set (dead_tasks s)" using guard someone_alive [of "dead_tasks s" n] n by (auto simp: tune_guard_def)
  have "nat ((idx + 1) mod int n) = ?u mod n" using idx by (simp add: nat_mod_distrib)
  then have sel: "i = skip_dead n n (dead_tasks s) (?u mod n)" using st(1) env(2) n by (simp add: choose_task_def)
  have u: "?u mod n < n" using n(2) by simp
  obtain m where m: "m < n" "i = (?u mod n + m) mod n" "(?u mod n + m) mod n \<notin> set (dead_tasks s)" "\<forall>m' < m. (?u mod n + m') mod n \<in> set (dead_tasks s)"
    using skip_dead_next [OF u j] unfolding sel by metis
  have i: "i < n" using m(1,2) by simp
  obtain num rs p where r: "te_round env i (num_measures_per_round s) (ts_policies s) = ((num, rs), p)" by (metis surj_pair)
  have s1: "ts_ok n s1" "task_cts s1 = (task_cts s)[i := task_cts s ! i + 1]" "set (dead_tasks s) \<subseteq> set (dead_tasks s1)"
    using tune_task_ok [OF ok env(1) i r] st(2) by auto
  have s2: "ts_ok n s2" "task_cts s2 = task_cts s1" "dead_tasks s2 = dead_tasks s1" using adjust_ok [OF s1(1) i, of env] adjust_frame [OF st(3)] st(3) by auto
  obtain c where c: "level b n ?u c s" using lev by blast
  obtain c' where c': "level b n (Suc i) c' s1" using level_step [OF c m(1,3,4) s1(2,3) n(1) m(2)] by blast
  have "ts_ok n (snd (snd st'))" by (rule ts_ok_cong [OF s2(1)]) (simp_all add: st(4))
  moreover have "level b n (Suc i) c' (snd (snd st'))" using c' s2(2,3) by (simp add: st(4) level_def)
  moreover have "nat (fst st' + 1) = Suc i" by (simp add: st(4) nat_add_distrib)
  ultimately show ?thesis by (auto simp: st(4))
qed

lemma warm_up_counts:
  fixes env :: "'p ts_env"
  assumes ok: "ts_ok n s" and env: "rounds_ok env" and run: "warm_up env s = Inr s'"
  shows "ts_ok n s'" "\<forall>i < n. task_cts s' ! i = max 1 (task_cts s ! i)"
proof -
  define P where "P k t \<longleftrightarrow> ts_ok n t \<and> (\<forall>i < n. task_cts t ! i = (if i < k then max 1 (task_cts s ! i) else task_cts s ! i))" for k and t :: "'p tsched"
  have "\<exists>t'. warm_one env t k = Inr t' \<and> P (Suc k) t'" if t: "P k t" and k: "k < n" for k t
  proof (cases "task_cts t ! k = 0")
    case True
    obtain num rs p where r: "te_round env k (num_measures_per_round t) (ts_policies t) = ((num, rs), p)" by (metis surj_pair)
    have tok: "ts_ok n t" using t by (simp add: P_def)
    then have len: "length (task_cts t) = n" by (simp add: ts_ok_def)
    from tune_task_ok [OF tok env k r] obtain t' where "tune_task env k t = Inr t'" "ts_ok n t'" "task_cts t' = (task_cts t)[k := task_cts t ! k + 1]" by blast
    then show ?thesis using True t k len by (auto simp: warm_one_def P_def nth_list_update less_Suc_eq)
  next
    case False
    then show ?thesis using t k by (auto simp: warm_one_def P_def less_Suc_eq max_def)
  qed
  from warm_up_rule [of P s n env, OF _ this] have "P n s'" using ok run by (auto simp: P_def ts_ok_def)
  then show "ts_ok n s'" "\<forall>i < n. task_cts s' ! i = max 1 (task_cts s ! i)" by (auto simp: P_def)
qed

section \<open>An example\<close>

text \<open>Two tasks of one group; the policy state is the list of rounds, and a round of task \<open>i\<close> measures one program.\<close>

definition ex_sched_env :: "string \<Rightarrow> (nat \<times> rat list list) list ts_env" where
  "ex_sched_env strategy = \<lparr>te_objective = default_objective None,
     te_round = (\<lambda>i k l. let rs = [[of_nat (i + 1), 1 / of_nat (length l + 1)]] in ((1, rs), l @ [(i, rs)])),
     te_strategy = strategy, te_alpha = 1 / 5, te_beta = 2, te_window = 3\<rparr>"

definition ex_sched_tasks :: "sched_task list" where
  "ex_sched_tasks = [\<lparr>tk_key = ''a'', tk_target = ''llvm'', tk_op_tags = [Some ''conv'', None], tk_flop = 4\<rparr>,
                     \<lparr>tk_key = ''b'', tk_target = ''llvm'', tk_op_tags = [Some ''conv''], tk_flop = 4\<rparr>]"

definition ex_sched_opts :: tune_options where
  "ex_sched_opts = \<lparr>to_trials = 5, to_per_round = 1, to_early_stopping = - 1\<rparr>"

definition ex_sched_init :: "string \<Rightarrow> (nat \<times> rat list list) list tsched" where
  "ex_sched_init strategy = projr (sched_init (\<lambda>x. 3) (ex_sched_env strategy) ex_sched_tasks [])"

text \<open>A log with seven records of the second task, and the run that goes on from it.\<close>

definition ex_sched_log :: "sched_record list" where
  "ex_sched_log = replicate 7 \<lparr>sr_target = ''llvm'', sr_key = ''b'', sr_error = 0, sr_costs = [1, 2]\<rparr>"

definition ex_sched_end :: "(nat \<times> rat list list) list tsched" where
  "ex_sched_end = projr (sched_tune (ex_sched_env ''round-robin'') ex_sched_tasks ex_sched_opts (Some ''default'') None (Some ex_sched_log) [] (ex_sched_init ''round-robin''))"

lemma ex_sched_init_run:
  "sched_init (\<lambda>x. 3) (ex_sched_env ''round-robin'') ex_sched_tasks [] = Inr (ex_sched_init ''round-robin'')"
  "sched_init (\<lambda>x. 3) (ex_sched_env ''gradient'') ex_sched_tasks [] = Inr (ex_sched_init ''gradient'')"
proof -
  have "\<not> isl (sched_init (\<lambda>x. 3) (ex_sched_env ''round-robin'') ex_sched_tasks [])" "\<not> isl (sched_init (\<lambda>x. 3) (ex_sched_env ''gradient'') ex_sched_tasks [])"
    by code_simp+
  then show "sched_init (\<lambda>x. 3) (ex_sched_env ''round-robin'') ex_sched_tasks [] = Inr (ex_sched_init ''round-robin'')"
    "sched_init (\<lambda>x. 3) (ex_sched_env ''gradient'') ex_sched_tasks [] = Inr (ex_sched_init ''gradient'')"
    by (simp_all add: ex_sched_init_def)
qed

lemma ex_sched_run:
  "sched_tune (ex_sched_env ''round-robin'') ex_sched_tasks ex_sched_opts (Some ''default'') None (Some ex_sched_log) [] (ex_sched_init ''round-robin'') = Inr ex_sched_end"
  "1 \<notin> set (dead_tasks ex_sched_end)"
proof -
  have "\<not> isl (sched_tune (ex_sched_env ''round-robin'') ex_sched_tasks ex_sched_opts (Some ''default'') None (Some ex_sched_log) [] (ex_sched_init ''round-robin''))" by code_simp
  then show "sched_tune (ex_sched_env ''round-robin'') ex_sched_tasks ex_sched_opts (Some ''default'') None (Some ex_sched_log) [] (ex_sched_init ''round-robin'') = Inr ex_sched_end"
    by (simp add: ex_sched_end_def)
  show "1 \<notin> set (dead_tasks ex_sched_end)" by code_simp
qed

lemma ex_sched_laws:
  "\<forall>t\<in>set ex_sched_tasks. 0 \<le> tk_flop t" "rounds_ok (ex_sched_env strategy)" "rounds_bounded (ex_sched_env strategy)" "params_ok (ex_sched_env strategy)"
  "keeps_log (ex_sched_env strategy) (\<lambda>l. l)" "records_ok (Some ex_sched_log)"
proof -
  show "\<forall>t\<in>set ex_sched_tasks. 0 \<le> tk_flop t" by (simp add: ex_sched_tasks_def)
  show "rounds_ok (ex_sched_env strategy)" by (simp add: rounds_ok_def ex_sched_env_def results_ok_def Let_def)
  show "rounds_bounded (ex_sched_env strategy)" by (simp add: rounds_bounded_def ex_sched_env_def Let_def)
  show "params_ok (ex_sched_env strategy)" using default_objective_mono [of None] by (simp add: params_ok_def ex_sched_env_def)
  show "keeps_log (ex_sched_env strategy) (\<lambda>l. l)" by (simp add: keeps_log_def ex_sched_env_def Let_def)
  show "records_ok (Some ex_sched_log)" by (simp add: records_ok_def ex_sched_log_def)
qed

section \<open>The properties\<close>

text \<open>
  C37. The scheduler returns. The parameters are in their ranges (\<open>params_ok\<close>: \<open>alpha\<close> between zero and one, \<open>beta\<close> not negative, a window of at least one round, and an
  objective that does not fall when a latency rises), the tasks have no negative flops, a round measures no more programs than it is asked to, and the results of a round and the
  records of a restored log have costs, none negative. Then the only errors of \<open>TaskScheduler.tune\<close> are the \<open>ValueError\<close> for a budget smaller than the number of tasks or an
  unknown policy, whatever is drawn; in particular the assertion that a gradient is not positive holds, the division by a task's rounds never meets zero, and the lookups of the
  groups succeed. When it returns, every task has been tuned, the tables are consistent, and fewer than one round over the budget was measured. (\<open>NoDraws\<close> is the end of the given
  random numbers, which only the gradient strategy uses, at a tie.) Some random numbers make it return, so the \<open>ValueError\<close> is then the only outcome besides a result.
\<close>

theorem sched_tune_total:
  assumes init: "sched_init log_flop env tasks p = Inr s" and flops: "\<forall>t\<in>set tasks. 0 \<le> tk_flop t"
    and env: "params_ok env" "rounds_ok env" "rounds_bounded env" and recs: "records_ok recs"
  shows "(case sched_tune env tasks opts policy early recs ds s of
      Inl e \<Rightarrow> e = ValueError \<and> (to_per_round opts \<le> 0 \<or> to_trials opts < int (length tasks) \<or> \<not> policy_ok policy)
        \<or> e = NoDraws \<and> te_strategy env = ''gradient''
    | Inr s' \<Rightarrow> ts_ok (length tasks) s' \<and> all_tuned (length tasks) s' \<and> ts_ct s' < to_trials opts + to_per_round opts)
    \<and> (\<exists>ds'. case sched_tune env tasks opts policy early recs ds' s of
      Inl e \<Rightarrow> e = ValueError \<and> (to_per_round opts \<le> 0 \<or> to_trials opts < int (length tasks) \<or> \<not> policy_ok policy)
    | Inr s' \<Rightarrow> True)"
proof -
  let ?n = "length tasks" and ?m = "per_round tasks opts" and ?s0 = "start tasks opts early s"
  note i = sched_init_ok [OF init flops]
  have n: "0 < ?n" using i(1) by (simp add: ts_ok_def)
  have bad: "to_per_round opts \<le> 0 \<or> to_trials opts < int ?n" if "?m \<le> 0"
    using that n pos_imp_zdiv_pos_iff [of "int ?n" "to_trials opts"] by (auto simp: per_round_def min_def split: if_splits)
  obtain s1 where s1: "(case recs of None \<Rightarrow> Inr ?s0 | Some rs \<Rightarrow> restore_status env tasks rs ?m ?s0) = Inr s1" "ts_ok ?n s1"
    "num_measures_per_round s1 = ?m" "ts_ct s1 = 0" by (rule sched_restored [OF init flops recs])
  show ?thesis
  proof (cases "?m \<le> 0 \<or> \<not> policy_ok policy")
    case True
    then show ?thesis using bad s1(1) by (auto simp: sched_tune_unfold)
  next
    case False
    then obtain s2 where s2: "warm_up env s1 = Inr s2" "ts_ok ?n s2" "all_tuned ?n s2" "ts_ct s2 \<le> int ?n * ?m" "num_measures_per_round s2 = ?m"
      using warm_up_ok [OF s1(2) env(2,3)] s1(3,4) by auto
    let ?t = "s2\<lparr>best_ct := ts_ct s2, best_score := cur_score s2\<rparr>"
    have "int ?n * ?m \<le> int ?n * (to_trials opts div int ?n)" by (intro mult_left_mono) (auto simp: per_round_def)
    also have "\<dots> \<le> to_trials opts" using n by (simp add: minus_mod_eq_mult_div [symmetric])
    finally have budget: "ts_ct s2 \<le> to_trials opts" using s2(4) by simp
    have t: "ts_ok ?n ?t" "all_tuned ?n ?t" using s2(3) ts_ok_cong [OF s2(2), of ?t] by (auto simp: all_tuned_def)
    have "case sched_loop env (to_trials opts) (- 1, ds, ?t) of Inl e \<Rightarrow> e = NoDraws \<and> te_strategy env = ''gradient''
      | Inr (_, _, s') \<Rightarrow> ts_ok ?n s' \<and> all_tuned ?n s' \<and> ts_ct s' < to_trials opts + num_measures_per_round ?t"
      by (rule sched_loop_ok [OF t env(1) i(3) env(2,3)]) (use False budget s2(5) in auto)
    moreover obtain ds' st' where "sched_loop env (to_trials opts) (- 1, ds', ?t) = Inr st'"
      using sched_loop_some [OF t env(1) i(3) env(2)] by blast
    moreover have "?m \<le> to_per_round opts" by (simp add: per_round_def)
    ultimately show ?thesis using False s1(1) s2(1,5)
      by (intro conjI exI [of _ ds']) (auto simp: sched_tune_unfold split: sum.splits prod.splits)
  qed
qed

theorem sched_tune_total_witness:
  "(case sched_tune (ex_sched_env ''gradient'') ex_sched_tasks ex_sched_opts (Some ''default'') None (Some ex_sched_log) [0, 1] (ex_sched_init ''gradient'') of
      Inl e \<Rightarrow> e = ValueError \<and> (to_per_round ex_sched_opts \<le> 0 \<or> to_trials ex_sched_opts < int (length ex_sched_tasks) \<or> \<not> policy_ok (Some ''default''))
        \<or> e = NoDraws \<and> te_strategy (ex_sched_env ''gradient'') = ''gradient''
    | Inr s' \<Rightarrow> ts_ok (length ex_sched_tasks) s' \<and> all_tuned (length ex_sched_tasks) s' \<and> ts_ct s' < to_trials ex_sched_opts + to_per_round ex_sched_opts)
    \<and> (\<exists>ds'. case sched_tune (ex_sched_env ''gradient'') ex_sched_tasks ex_sched_opts (Some ''default'') None (Some ex_sched_log) ds' (ex_sched_init ''gradient'') of
      Inl e \<Rightarrow> e = ValueError \<and> (to_per_round ex_sched_opts \<le> 0 \<or> to_trials ex_sched_opts < int (length ex_sched_tasks) \<or> \<not> policy_ok (Some ''default''))
    | Inr s' \<Rightarrow> True)"
  by (rule sched_tune_total [OF ex_sched_init_run(2) ex_sched_laws(1,4,2,3,6)])

text \<open>
  C38. The scheduler keeps the best of what was measured: when it returns, the entry of a task in \<open>best_costs\<close> is the least mean cost among the records of this task
  without an error in the log it was restored from, if there was one, and all results of the rounds of this task (the initial \<open>1e10\<close> when there is none below);
  \<open>task_cts\<close> counts exactly these rounds, on top of the number of rounds that is estimated from the number of records of this task in the log (none without a log).
  The rounds are read from any record that the search policies keep of them.
\<close>

theorem sched_tune_keeps_best:
  assumes init: "sched_init log_flop env tasks p = Inr s" and flops: "\<forall>t\<in>set tasks. 0 \<le> tk_flop t"
    and env: "rounds_ok env" "keeps_log env lg" "lg p = []" and recs: "records_ok recs"
    and run: "sched_tune env tasks opts policy early recs ds s = Inr s'" and i: "i < length tasks"
  shows "best_costs s' ! i = foldl min (10 ^ 10) (restored_costs tasks recs i @ costs_in (lg (ts_policies s')) i)
    \<and> task_cts s' ! i = restored_rounds tasks (per_round tasks opts) recs i + rounds_in (lg (ts_policies s')) i"
proof -
  let ?n = "length tasks" and ?s0 = "start tasks opts early s"
  let ?kept = "kept ?n (restored_costs tasks recs) (restored_rounds tasks (per_round tasks opts) recs) lg"
  obtain s1 where s1: "(case recs of None \<Rightarrow> Inr ?s0 | Some rs \<Rightarrow> restore_status env tasks rs (per_round tasks opts) ?s0) = Inr s1" "ts_ok ?n s1"
    "ts_policies s1 = p" "\<forall>i < ?n. best_costs s1 ! i = foldl min (10 ^ 10) (restored_costs tasks recs i)
      \<and> task_cts s1 ! i = restored_rounds tasks (per_round tasks opts) recs i"
    by (rule sched_restored [OF init flops recs])
  have "?kept s1" using s1(3,4) env(3) by (simp add: kept_def costs_in_def rounds_in_def)
  moreover obtain s2 idx ds' where s2: "warm_up env s1 = Inr s2"
    "sched_loop env (to_trials opts) (- 1, ds, s2\<lparr>best_ct := ts_ct s2, best_score := cur_score s2\<rparr>) = Inr (idx, ds', s')"
    using run s1(1) by (auto simp: sched_tune_unfold res_bind_eq_Inr split: if_splits)
  ultimately have w: "ts_ok ?n s2" "?kept s2" using kept_warm_up [OF s1(2) env(1,2)] by auto
  let ?t = "s2\<lparr>best_ct := ts_ct s2, best_score := cur_score s2\<rparr>"
  have t: "ts_ok ?n ?t" "?kept ?t" using ts_ok_cong [OF w(1), of ?t] w(2) by (auto simp: kept_def)
  define P where "P st \<longleftrightarrow> ts_ok ?n (snd (snd st)) \<and> ?kept (snd (snd st))" for st :: "int \<times> draws \<times> 'a tsched"
  have "case sched_loop env (to_trials opts) (- 1, ds, ?t) of Inl e \<Rightarrow> True | Inr st' \<Rightarrow> P st'"
  proof (rule sched_loop_rule)
    show "P (- 1, ds, ?t)" using t by (simp add: P_def)
    show "P st'" if "P st" "sched_step env st = Inr (b, st')" for st b st'
      using that kept_step [OF _ env(1,2), of ?n "snd (snd st)" "restored_costs tasks recs" "restored_rounds tasks (per_round tasks opts) recs" "fst st" "fst (snd st)" b st']
      by (simp add: P_def)
  qed simp
  then show ?thesis using s2(2) i by (simp add: P_def kept_def)
qed

theorem sched_tune_keeps_best_witness:
  "best_costs ex_sched_end ! 1 = foldl min (10 ^ 10) (restored_costs ex_sched_tasks (Some ex_sched_log) 1 @ costs_in (ts_policies ex_sched_end) 1)
    \<and> task_cts ex_sched_end ! 1 = restored_rounds ex_sched_tasks (per_round ex_sched_tasks ex_sched_opts) (Some ex_sched_log) 1 + rounds_in (ts_policies ex_sched_end) 1"
  using sched_tune_keeps_best [OF ex_sched_init_run(1) ex_sched_laws(1,2,5) refl ex_sched_laws(6) ex_sched_run(1), of 1] by (simp add: ex_sched_tasks_def)

text \<open>
  C39. Round robin is fair: when the scheduler returns, its main loop has given no task more than one round more than any task that is still alive. The rounds of the loop are
  those in \<open>task_cts\<close> beyond what a task had before it: the number estimated from the log, or the one round of the warm-up when that is zero. So without a log the
  counters themselves differ by at most one. The count of a dead task stays where it was, so it is never ahead by more than one either.
\<close>

theorem round_robin_fair:
  assumes init: "sched_init log_flop env tasks p = Inr s" and flops: "\<forall>t\<in>set tasks. 0 \<le> tk_flop t"
    and env: "rounds_ok env" "te_strategy env = ''round-robin''" and recs: "records_ok recs"
    and run: "sched_tune env tasks opts policy early recs ds s = Inr s'"
    and i: "i < length tasks" and j: "j < length tasks" "j \<notin> set (dead_tasks s')"
  shows "task_cts s' ! i + max 1 (restored_rounds tasks (per_round tasks opts) recs j)
    \<le> task_cts s' ! j + max 1 (restored_rounds tasks (per_round tasks opts) recs i) + 1"
proof -
  let ?n = "length tasks" and ?s0 = "start tasks opts early s"
  let ?b = "\<lambda>i. max 1 (restored_rounds tasks (per_round tasks opts) recs i)"
  obtain s1 where s1: "(case recs of None \<Rightarrow> Inr ?s0 | Some rs \<Rightarrow> restore_status env tasks rs (per_round tasks opts) ?s0) = Inr s1" "ts_ok ?n s1"
    "\<forall>i < ?n. best_costs s1 ! i = foldl min (10 ^ 10) (restored_costs tasks recs i) \<and> task_cts s1 ! i = restored_rounds tasks (per_round tasks opts) recs i"
    by (rule sched_restored [OF init flops recs])
  obtain s2 idx ds' where s2: "warm_up env s1 = Inr s2"
    "sched_loop env (to_trials opts) (- 1, ds, s2\<lparr>best_ct := ts_ct s2, best_score := cur_score s2\<rparr>) = Inr (idx, ds', s')"
    using run s1(1) by (auto simp: sched_tune_unfold res_bind_eq_Inr split: if_splits)
  have w: "ts_ok ?n s2" "\<forall>i < ?n. task_cts s2 ! i = ?b i" using warm_up_counts [OF s1(2) env(1) s2(1)] s1(3) by auto
  let ?t = "s2\<lparr>best_ct := ts_ct s2, best_score := cur_score s2\<rparr>"
  define P where "P st \<longleftrightarrow> ts_ok ?n (snd (snd st)) \<and> - 1 \<le> fst st \<and> (\<exists>c. level ?b ?n (nat (fst st + 1)) c (snd (snd st)))" for st :: "int \<times> draws \<times> 'a tsched"
  have "case sched_loop env (to_trials opts) (- 1, ds, ?t) of Inl e \<Rightarrow> True | Inr st' \<Rightarrow> P st'"
  proof (rule sched_loop_rule)
    have "ts_ok ?n ?t" "level ?b ?n 0 0 ?t" using ts_ok_cong [OF w(1), of ?t] w(2) by (auto simp: level_def)
    then show "P (- 1, ds, ?t)" by (auto simp: P_def)
  next
    fix st b st' assume st: "P st" "tune_guard (to_trials opts) (snd (snd st))" "sched_step env st = Inr (b, st')"
    have step: "sched_step env (fst st, fst (snd st), snd (snd st)) = Inr (b, st')" using st(3) by simp
    show "P st'" using round_robin_step [OF _ env _ _ st(2) step, of ?n ?b] st(1) unfolding P_def by blast
  qed simp
  then obtain c where "level ?b ?n (nat (idx + 1)) c s'" using s2(2) by (auto simp: P_def)
  then have "task_cts s' ! i \<le> ?b i + (c + 1)" "task_cts s' ! j \<ge> ?b j + c" using i j by (auto simp: level_def split: if_splits)
  then show ?thesis by linarith
qed

theorem round_robin_fair_witness:
  "task_cts ex_sched_end ! 0 + max 1 (restored_rounds ex_sched_tasks (per_round ex_sched_tasks ex_sched_opts) (Some ex_sched_log) 1)
    \<le> task_cts ex_sched_end ! 1 + max 1 (restored_rounds ex_sched_tasks (per_round ex_sched_tasks ex_sched_opts) (Some ex_sched_log) 0) + 1"
  by (rule round_robin_fair [OF ex_sched_init_run(1) ex_sched_laws(1,2) _ ex_sched_laws(6) ex_sched_run(1) _ _ ex_sched_run(2)]) (simp_all add: ex_sched_env_def ex_sched_tasks_def)

end
