(* ===== verification/Spec2Isabelle.thy ===== *)
theory Spec2Isabelle
  imports SpaceCorrect ConfigSpaceCorrect FallbackCorrect TaskCorrect MeasureCorrect TunerCorrect
    RandomSearch GATunerCorrect SACorrect TcpHandler TrackerCorrect ModelTunerCorrect Metric
    TuneLogCorrect DispatcherCorrect LogTools TunedDispatch PbqpSetup GraphTunerRun TaskSchedulerCorrect
begin

text \<open>
  A verification development for the auto-tuner of Apache TVM 0.10, the Python code under
  \<open>src/apache-tvm-src-v0.10.0/python/tvm/\<close>. Paths below are relative to that directory.

  \<^bold>\<open>The program.\<close> An operator template defines knobs in a configuration space (\<open>autotvm/task/space.py\<close>). A tuner
  (\<open>autotvm/tuner/\<close>) proposes configurations by their index, a measurement function builds and times them, and the results go to a log
  (\<open>autotvm/record.py\<close>). When a model is compiled, the dispatch contexts (\<open>autotvm/task/dispatcher.py\<close>) answer queries from such logs, and
  fall back to a heuristic configuration. Devices are shared through a tracker (\<open>rpc/tracker.py\<close>) that matches requests with resources over TCP.
  The graph tuners (\<open>autotvm/graph_tuner/\<close>) pick one schedule per node of a graph so that computation and layout conversion are
  cheapest together, by dynamic programming or by a heuristic for partitioned boolean quadratic programming (PBQP). The task scheduler of the newer auto scheduler (\<open>auto_scheduler/task_scheduler.py\<close>) divides a budget of measurements among tasks.

  \<^bold>\<open>Conventions.\<close> \<open>Prelude\<close> and \<open>PyObj\<close> hold what all theories share: a function that may raise returns \<open>'a res\<close>, with the exception on the
  left; a Python list index is checked by \<open>py_get\<close>; a dictionary is an association list where its order matters; objects that are shared are cells
  of an explicit store. Floating point numbers are exact rationals, with the special values where the code can meet them; the one
  theorem about rounding (the JSON log) has it as a parameter. NumPy's 64-bit products wrap around. Random numbers come from a finite supply that is an argument
  (\<open>draws\<close>): a loop that draws until it succeeds is bounded by the supply, and \<open>NoDraws\<close> is the outcome of a supply that is too short.
  Code outside the repository, the C++ runtime, the operating system and third-party packages are parameters; what is relied on is a named hypothesis
  that a witness instantiates.

  \<^bold>\<open>Theories.\<close>

  \<^item> \<open>KnobIndex\<close>: \<open>point2knob\<close> and \<open>knob2point\<close> of \<open>autotvm/tuner/model_based_tuner.py\<close> are inverse to each other; the locale
    \<open>knob_codec\<close> is how the tuners use them.
  \<^item> \<open>Space\<close>, \<open>SpaceCorrect\<close>: the transform spaces. Split policies enumerate exactly the admissible tilings, reorder policies give
    permutations, a merge of chains is one interleaving, annotations are admissible and can be applied to a schedule (a parameter).
  \<^item> \<open>ConfigSpace\<close>, \<open>ConfigSpaceCorrect\<close>: \<open>ConfigSpace\<close> as a record of its dictionaries, \<open>ConfigEntity\<close>. Knob definitions keep it well-formed, indices
    and configurations are in bijection (locale \<open>indexed_space\<close>), entities survive JSON, and the size wraps around at \<open>2^64\<close>. A size that wraps to a negative
    number is the \<open>ValueError\<close> of Python's \<open>len\<close>, in \<open>cs_get\<close> and in the constructors that take the length.
  \<^item> \<open>Fallback\<close>, \<open>FallbackCorrect\<close>: \<open>FallbackConfigEntity\<close> over a store of entity objects, with a view of it as the value model; the greedy split takes the largest
    admissible divisors.
  \<^item> \<open>Task\<close>, \<open>TaskCorrect\<close>: workload keys, argument serialisation, the template registry, FLOP counting (\<open>autotvm/task/task.py\<close>, \<open>autotvm/utils.py\<close>).
  \<^item> \<open>Measure\<close>, \<open>MeasureCorrect\<close>: inputs and results of measurements, builders, sampling and ranking.
  \<^item> \<open>Tuner\<close>, \<open>TunerCorrect\<close>, \<open>RandomSearch\<close>: \<open>Tuner.tune\<close> for any tuner class, given as a record of its methods, with callbacks that see the tuner and may raise. The locales \<open>tuner_contract\<close>, \<open>recording_tuner\<close> and
    \<open>exhaustive_tuner\<close> state what the loop relies on; grid search and random search interpret them, so that their runs return, never measure a
    configuration twice, cover the space, and keep a fastest successful one.
  \<^item> \<open>GATuner\<close>, \<open>GATunerCorrect\<close>: the genetic tuner, with the invariant of its generations, its batches, and two corner cases.
  \<^item> \<open>Heapq\<close>, \<open>SAOptimizer\<close>, \<open>SACorrect\<close>: simulated annealing returns the best of its start points and of all points its walks propose; \<open>sa_trail\<close> repeats the walks
    without the heap, which pins down what these are. Python's \<open>heapq\<close> is shown to be a priority queue (locale
    \<open>priority_queue\<close>), which the tracker uses too.
  \<^item> \<open>ModelTuner\<close>, \<open>ModelTunerCorrect\<close>, \<open>Metric\<close>: the model based tuner with diversity filter. Its optimiser is the locale \<open>model_optimizer\<close>, a
    \<open>sublocale\<close> of \<open>recording_tuner\<close>, interpreted on simulated annealing: three components composed to a run of \<open>tune\<close>. The theorem on runs is for the
    default without a filter; \<open>diversity_filter_failures\<close> has the errors with one. That some random numbers let a run return rests on the locales
    \<open>drawing_tuner\<close> and \<open>feeding_optimizer\<close>: an operation that succeeds leaves whatever follows the numbers it used.
  \<^item> \<open>TuneLog\<close>, \<open>TuneLogCorrect\<close>, \<open>LogTools\<close>: \<open>encode\<close> and \<open>decode\<close> in both protocols, \<open>pick_best\<close> and \<open>split_workload\<close>.
  \<^item> \<open>Dispatcher\<close>, \<open>DispatcherCorrect\<close>: the contexts as linked objects of a store; queries, updates (locale \<open>config_store\<close>) and the stack discipline, by
    rule induction over the reachable states.
  \<^item> \<open>Callback\<close>: the callbacks a tuner calls after every batch (\<open>autotvm/tuner/callback.py\<close>): log file, log database, monitor, progress. A run with a callback that has a part of the
    environment to itself is the run without it, and an invariant that the calls keep holds of the part in the end.
  \<^item> \<open>Database\<close>: the record database (\<open>autotvm/database.py\<close>), a dictionary of joined texts that refines a dictionary of lists of measured pairs; the locale \<open>record_db\<close> is what its clients rely on.
  \<^item> \<open>TunedDispatch\<close>: tuner, log and dispatcher composed: after a grid search that logs to a file, the dispatch context made from the file answers with the best configuration of the tuner; a run that logs to a database is
    replayed from it.
  \<^item> \<open>RpcBase\<close>, \<open>TcpHandler\<close>: messages on the wire arrive unchanged in whatever pieces; the handler of a non-blocking socket as a state machine.
  \<^item> \<open>Tracker\<close>, \<open>TrackerCorrect\<close>: the priority schedulers and the handler of one connection in a state and error monad; safety of all reachable states, who is served,
    what closing a connection does when servers put resources under the key of their match keys (\<open>keyed_reach\<close>), and the cutting of the byte stream into messages.
  \<^item> \<open>GraphNode\<close>, \<open>GraphTraverse\<close>, \<open>GraphTraverseCorrect\<close>: the nodes that graph tuners work on, and the search for the closest ancestors of each
    (\<open>utils/traverse_graph.py\<close>), specified by an inductive relation. The loop that reduces boundary nodes removes elements of the list it runs over; what this does to a shortcut is shown.
  \<^item> \<open>GraphTuner\<close>, \<open>GraphTunerCorrect\<close>: the base class of the graph tuners (\<open>base_graph_tuner.py\<close>): the candidates of a workload are its fastest records, one per pair of layouts, and
    the matrices hold the time of every layout transformation between candidates of neighbours.
  \<^item> \<open>NdArray\<close>, \<open>DPTuner\<close>, \<open>DPTunerCorrect\<close>: the dynamic programming tuner (\<open>dynamic_programming_stage.py\<close>, \<open>dynamic_programming_tuner.py\<close>) over NumPy arrays. On a chain of operators
    its stages tabulate the least times, and walking back through them gives a best choice; a node with one tuned input is handled wrongly.
  \<^item> \<open>GraphTunerRun\<close>: traversal, candidates, matrices, dynamic program and result composed: on a chain the records that come out have the least total time of all records that went in.
  \<^item> \<open>Pbqp\<close>, \<open>PbqpGraph\<close>, \<open>PbqpCorrect\<close>, \<open>PbqpSolve\<close>, \<open>PbqpSetup\<close>: the PBQP tuner over a heap of cost matrices (the code shares them between
    edges). \<open>PbqpGraph\<close> has an abstract cost on graphs and what eliminating a node does to it; the reductions implement it, and both passes together give
    a choice of least cost unless a node of degree three or more was met. \<open>PbqpSetup\<close> starts from the table of inputs that the traversal makes, boundary inputs
    included, which the constructor drops. With matrices that are shared the claim fails, which is shown on a residual block.
  \<^item> \<open>TaskScheduler\<close>, \<open>TaskSchedulerCorrect\<close>: the task scheduler, with or without a log to restore; its run ends within the budget, its assertion holds, its costs are the least restored or measured, its
    counters are the rounds estimated from the log and those of the run, and the rounds of round robin are fair.

  \<^bold>\<open>Loops and bounds.\<close> Loops with a measure are functions with a termination proof (the write queue, the message loop of the tracker, \<open>forward\<close> of the PBQP
  tuner, the two loops of \<open>get_in_nodes\<close>, where every round but the last deletes a key, \<open>sched_loop\<close> of the task scheduler, where every step measures something, ends a task, or uses a random number). \<open>Tuner.tune\<close> may run forever on a tuner that returns empty batches,
  so \<open>tune_loop\<close> has fuel; the theorems show that as much fuel as there are trials gives a result. \<open>skip_dead\<close> gets as many steps as tasks, which is enough when one is alive. The queue of the
  backward pass (\<open>bfs_loop\<close>) has fuel, \<open>None\<close> being a run that is not over; on a chain one step per operator is enough.
  Clearing the fallback caches follows links that can form a cycle and has fuel, \<open>None\<close> being a run that is not over; \<open>has_multiple_inputs\<close>, \<open>get_direct_ancestor\<close> and the queries of dispatch contexts have the depth of the Python stack as an argument and
  raise \<open>RecursionErr\<close> beyond it.

  \<^bold>\<open>Not modelled.\<close> Building, uploading and timing programs, the XGBoost cost model, the text of progress bars, downloads and the Redis server: processes, hardware
  and packages. \<open>Task.instantiate\<close> and the hooks that collect tasks during compilation: they run the compiler. \<open>expr2graph\<close> and \<open>bind_inputs\<close>, which
  turn a Relay function into the node list of the graph tuners, and the measurement of a layout transformation. The server, proxy and client of the RPC system and the process that runs the tracker. Logging and the flag
  \<open>GLOBAL_SCOPE.in_tuning\<close>, which only silences messages; the callbacks of the task scheduler, which print a table and write a file. The rest of the repository, front ends,
  intermediate representations, operator library, meta schedule and runtime bindings, constructs objects whose behaviour is defined by the C++ compiler.
\<close>

end
